(* ===== verification/Prelude.thy ===== *)
theory Prelude
  imports Main "HOL-Library.Word"
begin

section \<open>Shared types, byte access and generic lemmas\<close>

text \<open>
  Names for the machine integers of the C sources, little-endian access to byte
  arrays (the C code reads and writes \<^verbatim>\<open>UINT8\<close> buffers through \<^verbatim>\<open>UINT32 *\<close> and
  \<^verbatim>\<open>UINT64 *\<close>), and the lemmas on words, lists and bytes that several components use.
  The collection \<open>xor_ac\<close> normalises exclusive-or terms; \<open>byte_simps\<close> holds the
  facts that read a stored word back.
\<close>

unbundle bit_operations_syntax

type_synonym u8 = "8 word"
type_synonym u16 = "16 word"
type_synonym u32 = "32 word"
type_synonym u64 = "64 word"

named_theorems xor_ac \<open>associative, commutative and cancelling rules for XOR\<close>
named_theorems byte_simps \<open>reading bytes and words back after a store\<close>

subsection \<open>Exclusive or\<close>

lemma xor_self_left: "a XOR (a XOR b) = (b :: 'a::len word)"
  by (simp add: xor.assoc [symmetric])

lemmas [xor_ac] = xor.assoc xor.commute xor.left_commute xor_self_left

lemma xor_cancel_right [simp]: "(a XOR k) XOR k = (a :: 'a::len word)"
  by (simp add: xor.assoc)

subsection \<open>Bytes of a word\<close>

text \<open>The four bytes of a 32-bit word, most significant first, as the code extracts them.\<close>

definition byte3 :: "u32 \<Rightarrow> u8" where "byte3 w = ucast (drop_bit 24 w)"
definition byte2 :: "u32 \<Rightarrow> u8" where "byte2 w = ucast (drop_bit 16 w)"
definition byte1 :: "u32 \<Rightarrow> u8" where "byte1 w = ucast (drop_bit 8 w)"
definition byte0 :: "u32 \<Rightarrow> u8" where "byte0 w = ucast w"

definition col :: "u8 \<Rightarrow> u8 \<Rightarrow> u8 \<Rightarrow> u8 \<Rightarrow> u32" where
  "col a b c d = push_bit 24 (ucast a) XOR push_bit 16 (ucast b)
     XOR push_bit 8 (ucast c) XOR ucast d"

lemma bit_col:
  "bit (col a b c d) n \<longleftrightarrow>
     (if n < 8 then bit d n else if n < 16 then bit c (n - 8)
      else if n < 24 then bit b (n - 16) else bit a (n - 24))"
proof -
  have z: "\<not> bit x (k::nat)" if "8 \<le> k" for x :: u8 and k
    using bit_imp_le_length [of x k] that by auto
  consider "n < 8" | "8 \<le> n" "n < 16" | "16 \<le> n" "n < 24" | "24 \<le> n" "n < 32" | "32 \<le> n"
    by linarith
  then show ?thesis
    by cases (simp_all add: col_def bit_simps z less_diff_conv2 conj_commute)
qed

lemma byte_col [byte_simps]:
  "byte3 (col a b c d) = a" "byte2 (col a b c d) = b"
  "byte1 (col a b c d) = c" "byte0 (col a b c d) = d"
  by (rule bit_word_eqI, simp add: byte3_def byte2_def byte1_def byte0_def bit_simps bit_col)+

lemma col_bytes [byte_simps]: "col (byte3 w) (byte2 w) (byte1 w) (byte0 w) = w"
  by (rule bit_word_eqI)
    (auto simp: bit_col byte3_def byte2_def byte1_def byte0_def bit_simps)

lemma col_xor: "col a b c d XOR col a' b' c' d' = col (a XOR a') (b XOR b') (c XOR c') (d XOR d')"
  by (rule bit_word_eqI) (simp add: bit_col bit_simps)

lemma byte_xor:
  "byte3 (v XOR w) = byte3 v XOR byte3 w" "byte2 (v XOR w) = byte2 v XOR byte2 w"
  "byte1 (v XOR w) = byte1 v XOR byte1 w" "byte0 (v XOR w) = byte0 v XOR byte0 w"
  by (rule bit_word_eqI, simp add: byte3_def byte2_def byte1_def byte0_def bit_simps)+

lemma word32_cases:
  obtains a b c d where "w = col a b c d"
  using col_bytes by metis

lemma unat_byte:
  "unat (drop_bit 24 (w::u32)) = unat (byte3 w)"
  "unat (drop_bit 16 w AND 0xff) = unat (byte2 w)"
  "unat (drop_bit 8 w AND 0xff) = unat (byte1 w)"
  "unat (w AND 0xff) = unat (byte0 w)"
proof -
  have m: "(0xff :: u32) = mask 8" by (simp add: mask_eq_exp_minus_1)
  have t: "unat (take_bit 8 v) = unat (ucast v :: u8)" for v :: u32
    by (simp add: unsigned_ucast_eq unsigned_take_bit_eq)
  have "take_bit 8 (drop_bit 24 w) = drop_bit 24 w"
    by (rule bit_word_eqI) (auto simp: bit_simps dest: bit_imp_le_length)
  then show "unat (drop_bit 24 w) = unat (byte3 w)"
    using t [of "drop_bit 24 w"] by (simp add: byte3_def)
  show "unat (drop_bit 16 w AND 0xff) = unat (byte2 w)"
    "unat (drop_bit 8 w AND 0xff) = unat (byte1 w)"
    "unat (w AND 0xff) = unat (byte0 w)"
    by (simp_all add: m flip: take_bit_eq_mask add: t byte2_def byte1_def byte0_def)
qed

text \<open>A property of all bytes is checked on the 256 values.\<close>

lemma all_bytes:
  assumes "\<And>i. i < 256 \<Longrightarrow> P (of_nat i :: u8)"
  shows "P (x :: u8)"
proof -
  have "unat x < 256" using unsigned_less [of x] by simp
  then show ?thesis using assms [of "unat x"] by simp
qed

end
