(* ===== verification/Rijndael.thy ===== *)
theory Rijndael
  imports Rijndael_Tables
begin

section \<open>The Rijndael block cipher as implemented\<close>

text \<open>
  The functions of \<^verbatim>\<open>src/sec/rijndael-alg-fst.c\<close>. A C array is a list; the round-key
  buffer \<open>rk\<close> is passed in and returned updated, and the pointer increments
  \<^verbatim>\<open>rk += n\<close> are an explicit offset. The cipher state \<^verbatim>\<open>s0..s3\<close> (or \<^verbatim>\<open>t0..t3\<close>) is
  a quadruple of 32-bit words. Both variants of the main loop are modelled, the one the
  build compiles (no \<^verbatim>\<open>FULL_UNROLL\<close>) and the unrolled one, and the two functions of
  the \<^verbatim>\<open>INTERMEDIATE_VALUE_KAT\<close> section.
  The buffers are as large as the comments of the C signatures demand
  (\<^verbatim>\<open>rk[4*(Nr + 1)]\<close>, \<^verbatim>\<open>pt[16]\<close>, \<^verbatim>\<open>ct[16]\<close>); the theorems carry that as a
  hypothesis. The loop \<^verbatim>\<open>for (;;) { ... if (--r == 0) break; ... }\<close> never meets its
  exit when it starts with \<^verbatim>\<open>r == 0\<close> (\<open>Nr < 2\<close>): the result is \<open>None\<close> then.
\<close>

type_synonym cstate = "u32 \<times> u32 \<times> u32 \<times> u32"

definition GETU32 :: "u8 list \<Rightarrow> nat \<Rightarrow> u32" where
  "GETU32 p ofs = push_bit 24 (ucast (p ! ofs)) XOR push_bit 16 (ucast (p ! (ofs + 1)))
     XOR push_bit 8 (ucast (p ! (ofs + 2))) XOR ucast (p ! (ofs + 3))"

definition PUTU32 :: "u8 list \<Rightarrow> nat \<Rightarrow> u32 \<Rightarrow> u8 list" where
  "PUTU32 ct ofs st = ct[ofs := ucast (drop_bit 24 st), ofs + 1 := ucast (drop_bit 16 st),
     ofs + 2 := ucast (drop_bit 8 st), ofs + 3 := ucast st]"

subsection \<open>Key setup\<close>

definition ks_core :: "u32 \<Rightarrow> u32" where
  "ks_core temp =
     (Te4 ! unat (drop_bit 16 temp AND 0xff) AND 0xff000000) XOR
     (Te4 ! unat (drop_bit 8 temp AND 0xff) AND 0x00ff0000) XOR
     (Te4 ! unat (temp AND 0xff) AND 0x0000ff00) XOR
     (Te4 ! unat (drop_bit 24 temp) AND 0x000000ff)"

definition ks_sub :: "u32 \<Rightarrow> u32" where
  "ks_sub temp =
     (Te4 ! unat (drop_bit 24 temp) AND 0xff000000) XOR
     (Te4 ! unat (drop_bit 16 temp AND 0xff) AND 0x00ff0000) XOR
     (Te4 ! unat (drop_bit 8 temp AND 0xff) AND 0x0000ff00) XOR
     (Te4 ! unat (temp AND 0xff) AND 0x000000ff)"

definition ks128_body :: "u32 list \<Rightarrow> nat \<Rightarrow> nat \<Rightarrow> u32 list" where
  "ks128_body rk ofs i =
     (let temp = rk ! (ofs + 3);
          rk = rk[ofs + 4 := rk ! ofs XOR ks_core temp XOR rcon ! i];
          rk = rk[ofs + 5 := rk ! (ofs + 1) XOR rk ! (ofs + 4)];
          rk = rk[ofs + 6 := rk ! (ofs + 2) XOR rk ! (ofs + 5)]
      in rk[ofs + 7 := rk ! (ofs + 3) XOR rk ! (ofs + 6)])"

text \<open>The counter starts at 0, so \<^verbatim>\<open>++i == 10\<close> is met; the guard \<open>i < 10\<close> makes that explicit.\<close>

function ks128_loop :: "u32 list \<Rightarrow> nat \<Rightarrow> nat \<Rightarrow> u32 list" where
  "ks128_loop rk ofs i =
     (let rk = ks128_body rk ofs i
      in if i + 1 = 10 then rk
         else if i < 10 then ks128_loop rk (ofs + 4) (i + 1) else rk)"
  by pat_completeness auto
termination by (relation "measure (\<lambda>(rk, ofs, i). 10 - i)") auto

definition ks192_body1 :: "u32 list \<Rightarrow> nat \<Rightarrow> nat \<Rightarrow> u32 list" where
  "ks192_body1 rk ofs i =
     (let temp = rk ! (ofs + 5);
          rk = rk[ofs + 6 := rk ! ofs XOR ks_core temp XOR rcon ! i];
          rk = rk[ofs + 7 := rk ! (ofs + 1) XOR rk ! (ofs + 6)];
          rk = rk[ofs + 8 := rk ! (ofs + 2) XOR rk ! (ofs + 7)]
      in rk[ofs + 9 := rk ! (ofs + 3) XOR rk ! (ofs + 8)])"

definition ks192_body2 :: "u32 list \<Rightarrow> nat \<Rightarrow> u32 list" where
  "ks192_body2 rk ofs =
     (let rk = rk[ofs + 10 := rk ! (ofs + 4) XOR rk ! (ofs + 9)]
      in rk[ofs + 11 := rk ! (ofs + 5) XOR rk ! (ofs + 10)])"

function ks192_loop :: "u32 list \<Rightarrow> nat \<Rightarrow> nat \<Rightarrow> u32 list" where
  "ks192_loop rk ofs i =
     (let rk = ks192_body1 rk ofs i
      in if i + 1 = 8 then rk
         else if i < 8 then ks192_loop (ks192_body2 rk ofs) (ofs + 6) (i + 1) else rk)"
  by pat_completeness auto
termination by (relation "measure (\<lambda>(rk, ofs, i). 8 - i)") auto

definition ks256_body1 :: "u32 list \<Rightarrow> nat \<Rightarrow> nat \<Rightarrow> u32 list" where
  "ks256_body1 rk ofs i =
     (let temp = rk ! (ofs + 7);
          rk = rk[ofs + 8 := rk ! ofs XOR ks_core temp XOR rcon ! i];
          rk = rk[ofs + 9 := rk ! (ofs + 1) XOR rk ! (ofs + 8)];
          rk = rk[ofs + 10 := rk ! (ofs + 2) XOR rk ! (ofs + 9)]
      in rk[ofs + 11 := rk ! (ofs + 3) XOR rk ! (ofs + 10)])"

definition ks256_body2 :: "u32 list \<Rightarrow> nat \<Rightarrow> u32 list" where
  "ks256_body2 rk ofs =
     (let temp = rk ! (ofs + 11);
          rk = rk[ofs + 12 := rk ! (ofs + 4) XOR ks_sub temp];
          rk = rk[ofs + 13 := rk ! (ofs + 5) XOR rk ! (ofs + 12)];
          rk = rk[ofs + 14 := rk ! (ofs + 6) XOR rk ! (ofs + 13)]
      in rk[ofs + 15 := rk ! (ofs + 7) XOR rk ! (ofs + 14)])"

function ks256_loop :: "u32 list \<Rightarrow> nat \<Rightarrow> nat \<Rightarrow> u32 list" where
  "ks256_loop rk ofs i =
     (let rk = ks256_body1 rk ofs i
      in if i + 1 = 7 then rk
         else if i < 7 then ks256_loop (ks256_body2 rk ofs) (ofs + 8) (i + 1) else rk)"
  by pat_completeness auto
termination by (relation "measure (\<lambda>(rk, ofs, i). 7 - i)") auto

declare ks128_loop.simps [simp del] ks192_loop.simps [simp del] ks256_loop.simps [simp del]

definition rijndaelKeySetupEnc :: "u32 list \<Rightarrow> u8 list \<Rightarrow> int \<Rightarrow> nat \<times> u32 list" where
  "rijndaelKeySetupEnc rk cipherKey keyBits =
     (let rk = rk[0 := GETU32 cipherKey 0, 1 := GETU32 cipherKey 4,
                  2 := GETU32 cipherKey 8, 3 := GETU32 cipherKey 12]
      in if keyBits = 128 then (10, ks128_loop rk 0 0)
         else let rk = rk[4 := GETU32 cipherKey 16, 5 := GETU32 cipherKey 20]
         in if keyBits = 192 then (12, ks192_loop rk 0 0)
         else let rk = rk[6 := GETU32 cipherKey 24, 7 := GETU32 cipherKey 28]
         in if keyBits = 256 then (14, ks256_loop rk 0 0)
         else (0, rk))"

definition swap_words :: "u32 list \<Rightarrow> nat \<Rightarrow> nat \<Rightarrow> u32 list" where
  "swap_words rk i j = (let temp = rk ! i in rk[i := rk ! j, j := temp])"

text \<open>\<^verbatim>\<open>for (i = 0, j = 4*Nr; i < j; i += 4, j -= 4)\<close>\<close>

function invert_order :: "u32 list \<Rightarrow> nat \<Rightarrow> nat \<Rightarrow> u32 list" where
  "invert_order rk i j =
     (if i < j
      then invert_order (swap_words (swap_words (swap_words (swap_words rk i j)
             (i + 1) (j + 1)) (i + 2) (j + 2)) (i + 3) (j + 3)) (i + 4) (j - 4)
      else rk)"
  by pat_completeness auto
termination by (relation "measure (\<lambda>(rk, i, j). j - i)") auto

declare invert_order.simps [simp del]

definition inv_mix_word :: "u32 \<Rightarrow> u32" where
  "inv_mix_word w =
     Td0 ! unat (Te4 ! unat (drop_bit 24 w) AND 0xff) XOR
     Td1 ! unat (Te4 ! unat (drop_bit 16 w AND 0xff) AND 0xff) XOR
     Td2 ! unat (Te4 ! unat (drop_bit 8 w AND 0xff) AND 0xff) XOR
     Td3 ! unat (Te4 ! unat (w AND 0xff) AND 0xff)"

text \<open>\<^verbatim>\<open>for (i = 1; i < Nr; i++) { rk += 4; ... }\<close>; the words of round \<open>i\<close> are at \<open>4 * i\<close>.\<close>

function inv_mix_rounds :: "u32 list \<Rightarrow> nat \<Rightarrow> nat \<Rightarrow> u32 list" where
  "inv_mix_rounds rk i Nr =
     (if i < Nr
      then inv_mix_rounds
             (rk[4 * i := inv_mix_word (rk ! (4 * i)),
                 4 * i + 1 := inv_mix_word (rk ! (4 * i + 1)),
                 4 * i + 2 := inv_mix_word (rk ! (4 * i + 2)),
                 4 * i + 3 := inv_mix_word (rk ! (4 * i + 3))]) (i + 1) Nr
      else rk)"
  by pat_completeness auto
termination by (relation "measure (\<lambda>(rk, i, Nr). Nr - i)") auto

declare inv_mix_rounds.simps [simp del]

definition rijndaelKeySetupDec :: "u32 list \<Rightarrow> u8 list \<Rightarrow> int \<Rightarrow> nat \<times> u32 list" where
  "rijndaelKeySetupDec rk cipherKey keyBits =
     (let (Nr, rk) = rijndaelKeySetupEnc rk cipherKey keyBits;
          rk = invert_order rk 0 (4 * Nr)
      in (Nr, inv_mix_rounds rk 1 Nr))"

subsection \<open>Rounds\<close>

definition te_col :: "u32 \<Rightarrow> u32 \<Rightarrow> u32 \<Rightarrow> u32 \<Rightarrow> u32" where
  "te_col a b c d = Te0 ! unat (drop_bit 24 a) XOR Te1 ! unat (drop_bit 16 b AND 0xff)
     XOR Te2 ! unat (drop_bit 8 c AND 0xff) XOR Te3 ! unat (d AND 0xff)"

definition te_round :: "u32 list \<Rightarrow> nat \<Rightarrow> cstate \<Rightarrow> cstate" where
  "te_round rk ofs s = (case s of (s0, s1, s2, s3) \<Rightarrow>
     (te_col s0 s1 s2 s3 XOR rk ! ofs, te_col s1 s2 s3 s0 XOR rk ! (ofs + 1),
      te_col s2 s3 s0 s1 XOR rk ! (ofs + 2), te_col s3 s0 s1 s2 XOR rk ! (ofs + 3)))"

definition te4_col :: "u32 \<Rightarrow> u32 \<Rightarrow> u32 \<Rightarrow> u32 \<Rightarrow> u32" where
  "te4_col a b c d = (Te4 ! unat (drop_bit 24 a) AND 0xff000000)
     XOR (Te4 ! unat (drop_bit 16 b AND 0xff) AND 0x00ff0000)
     XOR (Te4 ! unat (drop_bit 8 c AND 0xff) AND 0x0000ff00)
     XOR (Te4 ! unat (d AND 0xff) AND 0x000000ff)"

definition te_last :: "u32 list \<Rightarrow> nat \<Rightarrow> cstate \<Rightarrow> cstate" where
  "te_last rk ofs t = (case t of (t0, t1, t2, t3) \<Rightarrow>
     (te4_col t0 t1 t2 t3 XOR rk ! ofs, te4_col t1 t2 t3 t0 XOR rk ! (ofs + 1),
      te4_col t2 t3 t0 t1 XOR rk ! (ofs + 2), te4_col t3 t0 t1 t2 XOR rk ! (ofs + 3)))"

definition td_col :: "u32 \<Rightarrow> u32 \<Rightarrow> u32 \<Rightarrow> u32 \<Rightarrow> u32" where
  "td_col a b c d = Td0 ! unat (drop_bit 24 a) XOR Td1 ! unat (drop_bit 16 b AND 0xff)
     XOR Td2 ! unat (drop_bit 8 c AND 0xff) XOR Td3 ! unat (d AND 0xff)"

definition td_round :: "u32 list \<Rightarrow> nat \<Rightarrow> cstate \<Rightarrow> cstate" where
  "td_round rk ofs s = (case s of (s0, s1, s2, s3) \<Rightarrow>
     (td_col s0 s3 s2 s1 XOR rk ! ofs, td_col s1 s0 s3 s2 XOR rk ! (ofs + 1),
      td_col s2 s1 s0 s3 XOR rk ! (ofs + 2), td_col s3 s2 s1 s0 XOR rk ! (ofs + 3)))"

definition td4_col :: "u32 \<Rightarrow> u32 \<Rightarrow> u32 \<Rightarrow> u32 \<Rightarrow> u32" where
  "td4_col a b c d = (Td4 ! unat (drop_bit 24 a) AND 0xff000000)
     XOR (Td4 ! unat (drop_bit 16 b AND 0xff) AND 0x00ff0000)
     XOR (Td4 ! unat (drop_bit 8 c AND 0xff) AND 0x0000ff00)
     XOR (Td4 ! unat (d AND 0xff) AND 0x000000ff)"

definition td_last :: "u32 list \<Rightarrow> nat \<Rightarrow> cstate \<Rightarrow> cstate" where
  "td_last rk ofs t = (case t of (t0, t1, t2, t3) \<Rightarrow>
     (td4_col t0 t3 t2 t1 XOR rk ! ofs, td4_col t1 t0 t3 t2 XOR rk ! (ofs + 1),
      td4_col t2 t1 t0 t3 XOR rk ! (ofs + 2), td4_col t3 t2 t1 t0 XOR rk ! (ofs + 3)))"

text \<open>Mapping a block to the cipher state with the first round key added, and back.\<close>

definition load_block :: "u32 list \<Rightarrow> u8 list \<Rightarrow> cstate" where
  "load_block rk pt = (GETU32 pt 0 XOR rk ! 0, GETU32 pt 4 XOR rk ! 1,
     GETU32 pt 8 XOR rk ! 2, GETU32 pt 12 XOR rk ! 3)"

definition store_block :: "u8 list \<Rightarrow> cstate \<Rightarrow> u8 list" where
  "store_block ct s = (case s of (s0, s1, s2, s3) \<Rightarrow>
     PUTU32 (PUTU32 (PUTU32 (PUTU32 ct 0 s0) 4 s1) 8 s2) 12 s3)"

subsection \<open>Encryption and decryption\<close>

fun enc_rounds :: "nat \<Rightarrow> u32 list \<Rightarrow> nat \<Rightarrow> cstate \<Rightarrow> (nat \<times> cstate) option" where
  "enc_rounds 0 rk ofs s = None"
| "enc_rounds (Suc r) rk ofs s =
     (let t = te_round rk (ofs + 4) s; ofs = ofs + 8
      in if r = 0 then Some (ofs, t) else enc_rounds r rk ofs (te_round rk ofs t))"

definition rijndaelEncrypt :: "u32 list \<Rightarrow> nat \<Rightarrow> u8 list \<Rightarrow> u8 list \<Rightarrow> u8 list option" where
  "rijndaelEncrypt rk Nr pt ct =
     (case enc_rounds (Nr div 2) rk 0 (load_block rk pt) of
        None \<Rightarrow> None
      | Some (ofs, t) \<Rightarrow> Some (store_block ct (te_last rk ofs t)))"

fun dec_rounds :: "nat \<Rightarrow> u32 list \<Rightarrow> nat \<Rightarrow> cstate \<Rightarrow> (nat \<times> cstate) option" where
  "dec_rounds 0 rk ofs s = None"
| "dec_rounds (Suc r) rk ofs s =
     (let t = td_round rk (ofs + 4) s; ofs = ofs + 8
      in if r = 0 then Some (ofs, t) else dec_rounds r rk ofs (td_round rk ofs t))"

definition rijndaelDecrypt :: "u32 list \<Rightarrow> nat \<Rightarrow> u8 list \<Rightarrow> u8 list \<Rightarrow> u8 list option" where
  "rijndaelDecrypt rk Nr ct pt =
     (case dec_rounds (Nr div 2) rk 0 (load_block rk ct) of
        None \<Rightarrow> None
      | Some (ofs, t) \<Rightarrow> Some (store_block pt (td_last rk ofs t)))"

subsection \<open>The fully unrolled variants\<close>

definition enc_unrolled :: "u32 list \<Rightarrow> nat \<Rightarrow> cstate \<Rightarrow> cstate" where
  "enc_unrolled rk Nr s =
     (let t = te_round rk 4 s; s = te_round rk 8 t; t = te_round rk 12 s;
          s = te_round rk 16 t; t = te_round rk 20 s; s = te_round rk 24 t;
          t = te_round rk 28 s; s = te_round rk 32 t; t = te_round rk 36 s
      in if Nr > 10 then
           let s = te_round rk 40 t; t = te_round rk 44 s
           in if Nr > 12 then let s = te_round rk 48 t in te_round rk 52 s else t
         else t)"

definition rijndaelEncrypt_unroll :: "u32 list \<Rightarrow> nat \<Rightarrow> u8 list \<Rightarrow> u8 list \<Rightarrow> u8 list" where
  "rijndaelEncrypt_unroll rk Nr pt ct =
     store_block ct (te_last rk (4 * Nr) (enc_unrolled rk Nr (load_block rk pt)))"

definition dec_unrolled :: "u32 list \<Rightarrow> nat \<Rightarrow> cstate \<Rightarrow> cstate" where
  "dec_unrolled rk Nr s =
     (let t = td_round rk 4 s; s = td_round rk 8 t; t = td_round rk 12 s;
          s = td_round rk 16 t; t = td_round rk 20 s; s = td_round rk 24 t;
          t = td_round rk 28 s; s = td_round rk 32 t; t = td_round rk 36 s
      in if Nr > 10 then
           let s = td_round rk 40 t; t = td_round rk 44 s
           in if Nr > 12 then let s = td_round rk 48 t in td_round rk 52 s else t
         else t)"

definition rijndaelDecrypt_unroll :: "u32 list \<Rightarrow> nat \<Rightarrow> u8 list \<Rightarrow> u8 list \<Rightarrow> u8 list" where
  "rijndaelDecrypt_unroll rk Nr ct pt =
     store_block pt (td_last rk (4 * Nr) (dec_unrolled rk Nr (load_block rk ct)))"

subsection \<open>Intermediate values (known-answer tests)\<close>

text \<open>\<^verbatim>\<open>for (r = ...; r > 0; r--) { round; rk += 4; }\<close>\<close>

fun te_steps :: "nat \<Rightarrow> u32 list \<Rightarrow> nat \<Rightarrow> cstate \<Rightarrow> nat \<times> cstate" where
  "te_steps 0 rk ofs s = (ofs, s)"
| "te_steps (Suc r) rk ofs s = te_steps r rk (ofs + 4) (te_round rk ofs s)"

fun td_steps :: "nat \<Rightarrow> u32 list \<Rightarrow> nat \<Rightarrow> cstate \<Rightarrow> nat \<times> cstate" where
  "td_steps 0 rk ofs s = (ofs, s)"
| "td_steps (Suc r) rk ofs s = td_steps r rk (ofs + 4) (td_round rk ofs s)"

definition rijndaelEncryptRound :: "u32 list \<Rightarrow> nat \<Rightarrow> u8 list \<Rightarrow> nat \<Rightarrow> u8 list" where
  "rijndaelEncryptRound rk Nr block rounds =
     (let (ofs, s) = te_steps (if rounds < Nr then rounds else Nr - 1) rk 4 (load_block rk block);
          s = (if rounds = Nr then te_last rk ofs s else s)
      in store_block block s)"

definition td_complete :: "cstate \<Rightarrow> cstate" where
  "td_complete s = (case s of (s0, s1, s2, s3) \<Rightarrow>
     (td4_col s0 s3 s2 s1, td4_col s1 s0 s3 s2, td4_col s2 s1 s0 s3, td4_col s3 s2 s1 s0))"

definition rijndaelDecryptRound :: "u32 list \<Rightarrow> nat \<Rightarrow> u8 list \<Rightarrow> nat \<Rightarrow> u8 list" where
  "rijndaelDecryptRound rk Nr block rounds =
     (let (ofs, s) = td_steps ((if rounds < Nr then rounds else Nr) - 1) rk 4 (load_block rk block);
          (t0, t1, t2, t3) = td_complete s;
          t = (if rounds = Nr
               then (t0 XOR rk ! ofs, t1 XOR rk ! (ofs + 1), t2 XOR rk ! (ofs + 2), t3 XOR rk ! (ofs + 3))
               else (t0, t1, t2, t3))
      in store_block block t)"

end
