(* ===== verification/Rijndael_Gf.thy ===== *)
theory Rijndael_Gf
  imports Rijndael
begin

section \<open>The field behind the Rijndael tables\<close>

text \<open>
  Arithmetic in the field of 256 elements, the S-box and the column transforms of the
  AES standard, and the proof that the ten tables of \<^verbatim>\<open>src/sec/rijndael-alg-fst.c\<close> hold
  what the comment above them says: \<open>Te0[x] = S[x].[02, 01, 01, 03]\<close> and so on. Each
  table is compared entry by entry with its formula by evaluation in the kernel.
\<close>

subsection \<open>Multiplication in the field\<close>

definition xtime :: "u8 \<Rightarrow> u8" where
  "xtime b = push_bit 1 b XOR (if bit b 7 then 0x1b else 0)"

definition mul3 :: "u8 \<Rightarrow> u8" where
  "mul3 b = xtime b XOR b"

definition mul9 :: "u8 \<Rightarrow> u8" where
  "mul9 b = xtime (xtime (xtime b)) XOR b"

definition mulb :: "u8 \<Rightarrow> u8" where
  "mulb b = xtime (xtime (xtime b)) XOR xtime b XOR b"

definition muld :: "u8 \<Rightarrow> u8" where
  "muld b = xtime (xtime (xtime b)) XOR xtime (xtime b) XOR b"

definition mule :: "u8 \<Rightarrow> u8" where
  "mule b = xtime (xtime (xtime b)) XOR xtime (xtime b) XOR xtime b"

text \<open>General multiplication, by shift and add over the bits of the second factor.\<close>

fun gmul_aux :: "nat \<Rightarrow> u8 \<Rightarrow> u8 \<Rightarrow> u8" where
  "gmul_aux 0 a b = 0"
| "gmul_aux (Suc n) a b =
     (if bit b 0 then a else 0) XOR gmul_aux n (xtime a) (drop_bit 1 b)"

definition gmul :: "u8 \<Rightarrow> u8 \<Rightarrow> u8" where
  "gmul a b = gmul_aux (Suc (Suc (Suc (Suc (Suc (Suc (Suc (Suc 0)))))))) a b"

text \<open>The affine step of SubBytes and its inverse.\<close>

definition rotl8 :: "nat \<Rightarrow> u8 \<Rightarrow> u8" where
  "rotl8 n b = push_bit n b OR drop_bit (8 - n) b"

definition affine :: "u8 \<Rightarrow> u8" where
  "affine b = b XOR rotl8 1 b XOR rotl8 2 b XOR rotl8 3 b XOR rotl8 4 b XOR 0x63"

definition inv_affine :: "u8 \<Rightarrow> u8" where
  "inv_affine b = rotl8 1 b XOR rotl8 3 b XOR rotl8 6 b XOR 0x05"

subsection \<open>S-box and columns\<close>

text \<open>
  The inverse in the field, found by trying all bytes, 0 for 0, and the S-box of the standard: the
  affine step after the inverse. Nothing here refers to the tables of the code.
\<close>

definition ginv :: "u8 \<Rightarrow> u8" where
  "ginv x = (case find (\<lambda>y. gmul x y = 1) (map of_nat [0..<256]) of Some y \<Rightarrow> y | None \<Rightarrow> 0)"

definition sbox :: "u8 \<Rightarrow> u8" where
  "sbox x = affine (ginv x)"

definition inv_sbox :: "u8 \<Rightarrow> u8" where
  "inv_sbox y = ginv (inv_affine y)"

definition mix_column :: "u32 \<Rightarrow> u32" where
  "mix_column w = (let a = byte3 w; b = byte2 w; c = byte1 w; d = byte0 w in
     col (xtime a XOR mul3 b XOR c XOR d) (a XOR xtime b XOR mul3 c XOR d)
         (a XOR b XOR xtime c XOR mul3 d) (mul3 a XOR b XOR c XOR xtime d))"

definition inv_mix_column :: "u32 \<Rightarrow> u32" where
  "inv_mix_column w = (let a = byte3 w; b = byte2 w; c = byte1 w; d = byte0 w in
     col (mule a XOR mulb b XOR muld c XOR mul9 d) (mul9 a XOR mule b XOR mulb c XOR muld d)
         (muld a XOR mul9 b XOR mule c XOR mulb d) (mulb a XOR muld b XOR mul9 c XOR mule d))"

text \<open>The entry formulas of the comment in the source, over the byte \<open>S[x]\<close> or \<open>Si[x]\<close>.\<close>

definition t4_entry :: "u8 \<Rightarrow> u32" where "t4_entry s = col s s s s"
definition te0_entry :: "u8 \<Rightarrow> u32" where "te0_entry s = col (xtime s) s s (mul3 s)"
definition te1_entry :: "u8 \<Rightarrow> u32" where "te1_entry s = col (mul3 s) (xtime s) s s"
definition te2_entry :: "u8 \<Rightarrow> u32" where "te2_entry s = col s (mul3 s) (xtime s) s"
definition te3_entry :: "u8 \<Rightarrow> u32" where "te3_entry s = col s s (mul3 s) (xtime s)"
definition td0_entry :: "u8 \<Rightarrow> u32" where "td0_entry s = col (mule s) (mul9 s) (muld s) (mulb s)"
definition td1_entry :: "u8 \<Rightarrow> u32" where "td1_entry s = col (mulb s) (mule s) (mul9 s) (muld s)"
definition td2_entry :: "u8 \<Rightarrow> u32" where "td2_entry s = col (muld s) (mulb s) (mule s) (mul9 s)"
definition td3_entry :: "u8 \<Rightarrow> u32" where "td3_entry s = col (mul9 s) (muld s) (mulb s) (mule s)"

definition sbox_ok :: "nat \<Rightarrow> u32 \<Rightarrow> bool" where
  "sbox_ok i w = (gmul (of_nat i) (inv_affine (byte0 w)) = (if i = 0 then 0 else 1))"

definition inv_entry :: "u32 \<Rightarrow> u8" where
  "inv_entry w = byte0 (Td4 ! unat (byte0 w))"

subsection \<open>The tables, entry by entry\<close>

lemmas field_defs = xtime_def mul3_def mul9_def mulb_def muld_def mule_def
lemmas entry_defs = t4_entry_def te0_entry_def te1_entry_def te2_entry_def te3_entry_def
  td0_entry_def td1_entry_def td2_entry_def td3_entry_def

lemma Te4_map: "map (\<lambda>w. t4_entry (byte0 w)) Te4 = Te4"
  by (simp add: Te4_def byte0_def) (simp add: entry_defs col_def)

lemma Td4_map: "map (\<lambda>w. t4_entry (byte0 w)) Td4 = Td4"
  by (simp add: Td4_def byte0_def) (simp add: entry_defs col_def)

lemma Te0_map: "map (\<lambda>w. te0_entry (byte0 w)) Te4 = Te0"
  by (simp add: Te4_def byte0_def) (simp add: Te0_def entry_defs col_def field_defs)

lemma Te1_map: "map (\<lambda>w. te1_entry (byte0 w)) Te4 = Te1"
  by (simp add: Te4_def byte0_def) (simp add: Te1_def entry_defs col_def field_defs)

lemma Te2_map: "map (\<lambda>w. te2_entry (byte0 w)) Te4 = Te2"
  by (simp add: Te4_def byte0_def) (simp add: Te2_def entry_defs col_def field_defs)

lemma Te3_map: "map (\<lambda>w. te3_entry (byte0 w)) Te4 = Te3"
  by (simp add: Te4_def byte0_def) (simp add: Te3_def entry_defs col_def field_defs)

lemma Td0_map: "map (\<lambda>w. td0_entry (byte0 w)) Td4 = Td0"
  by (simp add: Td4_def byte0_def) (simp add: Td0_def entry_defs col_def field_defs)

lemma Td1_map: "map (\<lambda>w. td1_entry (byte0 w)) Td4 = Td1"
  by (simp add: Td4_def byte0_def) (simp add: Td1_def entry_defs col_def field_defs)

lemma Td2_map: "map (\<lambda>w. td2_entry (byte0 w)) Td4 = Td2"
  by (simp add: Td4_def byte0_def) (simp add: Td2_def entry_defs col_def field_defs)

lemma Td3_map: "map (\<lambda>w. td3_entry (byte0 w)) Td4 = Td3"
  by (simp add: Td4_def byte0_def) (simp add: Td3_def entry_defs col_def field_defs)

lemma Te4_inverse_map: "map inv_entry Te4 = map of_nat [0..<256]"
  by (simp add: Te4_def byte0_def inv_entry_def) (simp add: Td4_def byte0_def upt_rec)

lemma Te4_sbox_ok: "list_all2 sbox_ok [0..<256] Te4"
  by (simp add: Te4_def upt_rec)
    (simp add: sbox_ok_def byte0_def inv_affine_def rotl8_def gmul_def xtime_def)

subsection \<open>The laws of the field\<close>

lemma xtime_xor: "xtime (a XOR b) = xtime a XOR xtime b"
  by (rule bit_word_eqI) (auto simp: xtime_def bit_simps)

lemma xtime_0 [simp]: "xtime 0 = 0"
  by (simp add: xtime_def)

lemma gmul_aux_xor: "gmul_aux n (a XOR a') b = gmul_aux n a b XOR gmul_aux n a' b"
  by (induction n arbitrary: a a' b) (simp_all add: xtime_xor xor_ac)

lemma gmul_aux_0: "gmul_aux n 0 b = 0"
  by (induction n arbitrary: b) simp_all

lemma gmul_xor: "gmul (a XOR a') b = gmul a b XOR gmul a' b"
  unfolding gmul_def by (rule gmul_aux_xor)

lemma gmul_0 [simp]: "gmul 0 b = 0"
  unfolding gmul_def by (rule gmul_aux_0)

text \<open>A linear map that commutes with \<open>xtime\<close> moves to the first factor.\<close>

lemma linear_gmul:
  assumes "\<And>a b. L (a XOR b) = L a XOR L b" and "\<And>a. L (xtime a) = xtime (L a)"
  shows "L (gmul a b) = gmul (L a) b"
proof -
  have z: "L 0 = 0" using assms(1) [of 0 0] by simp
  have "L (gmul_aux n a b) = gmul_aux n (L a) b" for n
    by (induction n arbitrary: a b) (simp_all add: z assms)
  then show ?thesis by (simp only: gmul_def)
qed

lemma gmul_xtime: "gmul (xtime a) b = xtime (gmul a b)"
  by (rule linear_gmul [symmetric]) (simp_all add: xtime_xor)

lemma gmul_1_left: "gmul 1 a = a"
proof (rule bit_word_eqI)
  fix n assume "n < LENGTH(8)"
  then consider "n = 0" | "n = 1" | "n = 2" | "n = 3" | "n = 4" | "n = 5" | "n = 6" | "n = 7" by fastforce
  then show "bit (gmul 1 a) n = bit a n"
    by cases (simp_all add: gmul_def xtime_def bit_simps, simp_all add: numeral_eq_Suc)
qed

lemma gmul_commute: "gmul a b = gmul b a"
proof -
  have "gmul (gmul 1 a) b = gmul (gmul 1 b) a"
    by (rule linear_gmul [where L = "\<lambda>z. gmul z b"]) (simp_all add: gmul_xor gmul_xtime)
  then show ?thesis by (simp only: gmul_1_left)
qed

lemma gmul_assoc: "gmul a (gmul b c) = gmul (gmul a b) c"
  by (rule linear_gmul) (simp_all add: gmul_commute [of a] gmul_xor gmul_xtime)

lemma gmul_inverse_unique: "gmul x y = 1 \<Longrightarrow> gmul x z = 1 \<Longrightarrow> y = z"
proof -
  assume y: "gmul x y = 1" and z: "gmul x z = 1"
  have "y = gmul (gmul x z) y" by (simp add: z gmul_1_left)
  also have "\<dots> = gmul z (gmul x y)" by (simp add: gmul_assoc gmul_commute [of x z])
  also have "\<dots> = z" by (simp add: y gmul_commute [of z] gmul_1_left)
  finally show ?thesis .
qed

lemma ginv_eq: "gmul x y = 1 \<Longrightarrow> ginv x = y"
proof -
  assume y: "gmul x y = 1"
  have "y \<in> set (map of_nat [0..<256])"
  proof -
    have "y = of_nat (unat y)" "unat y < 256" using unsigned_less [of y] by simp_all
    then show ?thesis by (metis atLeastLessThan_iff image_eqI list.set_map set_upt zero_le)
  qed
  then obtain z where "find (\<lambda>y. gmul x y = 1) (map of_nat [0..<256]) = Some z"
    using y by (cases "find (\<lambda>y. gmul x y = 1) (map of_nat [0..<256])") (auto simp: find_None_iff)
  moreover from this have "gmul x z = 1" by (auto simp: find_Some_iff)
  ultimately show ?thesis using gmul_inverse_unique [OF y] by (simp add: ginv_def)
qed

lemma ginv_0 [simp]: "ginv 0 = 0"
  by (simp add: ginv_def find_None_iff split: option.split) (auto simp: find_Some_iff)

lemma bit_rotl8: "n < 8 \<Longrightarrow> i < 8 \<Longrightarrow> bit (rotl8 n b) i = bit b ((i + 8 - n) mod 8)"
proof (cases "i < n")
  case True
  assume n: "n < 8" "i < 8"
  have "(i + 8 - n) mod 8 = 8 - n + i" using n True by simp
  then show ?thesis using True n by (simp add: rotl8_def bit_simps)
next
  case False
  assume n: "n < 8" "i < 8"
  have "(i + 8 - n) mod 8 = (i - n + 8) mod 8" using False by simp
  also have "\<dots> = i - n" using n by (simp only: mod_add_self2) simp
  finally have e: "(i + 8 - n) mod 8 = i - n" .
  have "\<not> bit b (8 - n + i)" using bit_imp_le_length [of b "8 - n + i"] False by auto
  then show ?thesis using False n unfolding e by (simp add: rotl8_def bit_simps)
qed

lemma rotl8_xor: "rotl8 n (a XOR b) = rotl8 n a XOR rotl8 n b"
  by (rule bit_word_eqI) (use bit_imp_le_length in \<open>fastforce simp: rotl8_def bit_simps\<close>)

lemma rotl8_rotl8: "m < 8 \<Longrightarrow> n < 8 \<Longrightarrow> rotl8 m (rotl8 n b) = rotl8 ((m + n) mod 8) b"
proof (rule bit_word_eqI)
  fix i assume m: "m < 8" "n < 8" and "i < LENGTH(8)"
  then have i: "i < 8" by simp
  have "((i + 8 - m) mod 8 + 8 - n) mod 8 = (i + 8 - (m + n) mod 8) mod 8"
    using m i by (auto simp: mod_if)
  then show "bit (rotl8 m (rotl8 n b)) i = bit (rotl8 ((m + n) mod 8) b) i"
    using m i by (simp add: bit_rotl8)
qed

lemma affine_inv_affine: "affine (inv_affine w) = w"
proof -
  have "rotl8 0 w = w" by (rule bit_word_eqI) (simp add: bit_rotl8)
  moreover have "rotl8 1 5 = 10" "rotl8 2 5 = 20" "rotl8 3 5 = 40" "rotl8 4 5 = 80" by (simp_all add: rotl8_def)
  ultimately show ?thesis by (simp add: affine_def inv_affine_def rotl8_xor rotl8_rotl8 xor_ac flip: numeral_2_eq_2)
qed

subsection \<open>The tables hold the S-box\<close>

text \<open>
  The bytes in \<open>Te4\<close> and \<open>Td4\<close> are the S-box of the standard and its inverse: undoing the affine step
  gives the inverse in the field, and the two tables undo each other.
\<close>

lemma Te4_field_inverse: "gmul x (inv_affine (byte0 (Te4 ! unat x))) = (if x = 0 then 0 else 1)"
proof -
  have "unat x < 256" using unsigned_less [of x] by simp
  have "sbox_ok ([0..<256] ! unat x) (Te4 ! unat x)"
    using Te4_sbox_ok by (rule list_all2_nthD) (simp add: \<open>unat x < 256\<close>)
  then show ?thesis using \<open>unat x < 256\<close> by (simp add: sbox_ok_def unat_eq_0)
qed

lemma sbox_table: "sbox x = byte0 (Te4 ! unat x)"
proof (cases "x = 0")
  case True
  then show ?thesis by (simp add: sbox_def affine_def rotl8_def Te4_def byte0_def)
next
  case False
  then have "ginv x = inv_affine (byte0 (Te4 ! unat x))" using Te4_field_inverse [of x] by (intro ginv_eq) simp
  then show ?thesis by (simp add: sbox_def affine_inv_affine)
qed

lemma ginv_ginv: "ginv (ginv x) = x"
proof (cases "x = 0")
  case False
  then have e: "gmul x (inv_affine (byte0 (Te4 ! unat x))) = 1" using Te4_field_inverse [of x] by simp
  then have "gmul (ginv x) x = 1" using ginv_eq [OF e] gmul_commute by simp
  then show ?thesis by (rule ginv_eq)
qed simp

lemma inv_affine_affine: "inv_affine (affine w) = w"
proof -
  have "inj (inv_affine :: u8 \<Rightarrow> u8)" by (metis affine_inv_affine injI)
  then have "surj (inv_affine :: u8 \<Rightarrow> u8)" by (rule finite_UNIV_inj_surj [OF finite])
  then obtain v where "w = inv_affine v" by (metis surjD)
  then show ?thesis by (simp add: affine_inv_affine)
qed

lemma inv_sbox_sbox: "inv_sbox (sbox x) = x"
  by (simp add: inv_sbox_def sbox_def inv_affine_affine ginv_ginv)

lemma sbox_inv_sbox: "sbox (inv_sbox x) = x"
  by (simp add: inv_sbox_def sbox_def affine_inv_affine ginv_ginv)

lemma inv_sbox_table: "inv_sbox y = byte0 (Td4 ! unat y)"
proof -
  define x where "x = inv_sbox y"
  have "unat x < 256" using unsigned_less [of x] by simp
  moreover have "length Te4 = 256" by (simp add: Te4_def)
  ultimately have "map inv_entry Te4 ! unat x = inv_entry (Te4 ! unat x)" by simp
  then have "byte0 (Td4 ! unat (sbox x)) = x"
    using \<open>unat x < 256\<close> by (simp add: Te4_inverse_map inv_entry_def sbox_table)
  then show ?thesis by (simp add: x_def sbox_inv_sbox)
qed

text \<open>The round constants of the key expansion: the powers of \<open>x\<close> in the first byte of a word.\<close>

definition round_const :: "nat \<Rightarrow> u32" where
  "round_const j = col ((xtime ^^ j) 1) 0 0 0"

lemma xtime_powers: "j < 10 \<Longrightarrow> (xtime ^^ j) 1 = [1, 2, 4, 8, 0x10, 0x20, 0x40, 0x80, 0x1b, 0x36] ! j"
proof -
  have "xtime 1 = 2" "xtime 2 = 4" "xtime 4 = 8" "xtime 8 = 0x10" "xtime 0x10 = 0x20" "xtime 0x20 = 0x40" "xtime 0x40 = 0x80"
    "xtime 0x80 = 0x1b" "xtime 0x1b = 0x36"
    by (simp_all add: xtime_def)
  then show "j < 10 \<Longrightarrow> ?thesis" by (auto simp: numeral_eq_Suc less_Suc_eq)
qed

lemma rcon_table: "j < 10 \<Longrightarrow> rcon ! j = round_const j"
proof -
  have "map (\<lambda>b. col b 0 0 0) [1, 2, 4, 8, 0x10, 0x20, 0x40, 0x80, 0x1b, 0x36] = rcon"
    by (simp add: rcon_def col_def)
  then show "j < 10 \<Longrightarrow> ?thesis"
    using nth_map [of j "[1, 2, 4, 8, 0x10, 0x20, 0x40, 0x80, 0x1b, 0x36]" "\<lambda>b. col b 0 0 0"]
    by (simp add: round_const_def xtime_powers del: list.map)
qed

end
