(* ===== verification/Rijndael_Correct.thy ===== *)
theory Rijndael_Correct
  imports Rijndael_Gf
begin

section \<open>The cipher of the AES standard and the code's rounds\<close>

text \<open>
  The abstract specification of the block cipher: SubBytes, ShiftRows, MixColumns and
  AddRoundKey on four columns, composed by \<open>cipher\<close>, and the proof that the table
  look-ups of \<^verbatim>\<open>rijndaelEncrypt\<close> and \<^verbatim>\<open>rijndaelDecrypt\<close> compute it. The inverse
  law of a product cipher is proved once, in the locale \<open>product_cipher\<close>, and interpreted
  on the transforms of the standard.
\<close>

subsection \<open>Specification\<close>

definition add_key :: "cstate \<Rightarrow> cstate \<Rightarrow> cstate" where
  "add_key s k = (case (s, k) of ((s0, s1, s2, s3), (k0, k1, k2, k3)) \<Rightarrow>
     (s0 XOR k0, s1 XOR k1, s2 XOR k2, s3 XOR k3))"

definition sub_word :: "u32 \<Rightarrow> u32" where
  "sub_word w = col (sbox (byte3 w)) (sbox (byte2 w)) (sbox (byte1 w)) (sbox (byte0 w))"

definition rot_word :: "u32 \<Rightarrow> u32" where
  "rot_word w = col (byte2 w) (byte1 w) (byte0 w) (byte3 w)"

definition inv_sub_word :: "u32 \<Rightarrow> u32" where
  "inv_sub_word w = col (inv_sbox (byte3 w)) (inv_sbox (byte2 w)) (inv_sbox (byte1 w)) (inv_sbox (byte0 w))"

definition map_cols :: "(u32 \<Rightarrow> u32) \<Rightarrow> cstate \<Rightarrow> cstate" where
  "map_cols f s = (case s of (s0, s1, s2, s3) \<Rightarrow> (f s0, f s1, f s2, f s3))"

definition shift_rows :: "cstate \<Rightarrow> cstate" where
  "shift_rows s = (case s of (s0, s1, s2, s3) \<Rightarrow>
     (col (byte3 s0) (byte2 s1) (byte1 s2) (byte0 s3), col (byte3 s1) (byte2 s2) (byte1 s3) (byte0 s0),
      col (byte3 s2) (byte2 s3) (byte1 s0) (byte0 s1), col (byte3 s3) (byte2 s0) (byte1 s1) (byte0 s2)))"

definition inv_shift_rows :: "cstate \<Rightarrow> cstate" where
  "inv_shift_rows s = (case s of (s0, s1, s2, s3) \<Rightarrow>
     (col (byte3 s0) (byte2 s3) (byte1 s2) (byte0 s1), col (byte3 s1) (byte2 s0) (byte1 s3) (byte0 s2),
      col (byte3 s2) (byte2 s1) (byte1 s0) (byte0 s3), col (byte3 s3) (byte2 s2) (byte1 s1) (byte0 s0)))"

definition sub_shift :: "cstate \<Rightarrow> cstate" where
  "sub_shift s = shift_rows (map_cols sub_word s)"

definition inv_sub_shift :: "cstate \<Rightarrow> cstate" where
  "inv_sub_shift s = inv_shift_rows (map_cols inv_sub_word s)"

definition cipher :: "('s \<Rightarrow> 's) \<Rightarrow> ('s \<Rightarrow> 's) \<Rightarrow> ('s \<Rightarrow> 's \<Rightarrow> 's) \<Rightarrow> 's \<Rightarrow> 's list \<Rightarrow> 's \<Rightarrow> 's \<Rightarrow> 's" where
  "cipher sub lin add k0 ks kN s =
     add (sub (foldl (\<lambda>s k. add (lin (sub s)) k) (add s k0) ks)) kN"

definition rkey :: "u32 list \<Rightarrow> nat \<Rightarrow> cstate" where
  "rkey rk i = (rk ! (4 * i), rk ! (4 * i + 1), rk ! (4 * i + 2), rk ! (4 * i + 3))"

text \<open>Four bytes as a column, the first in the highest place; blocks as columns, and columns as blocks.\<close>

definition word_at :: "u8 list \<Rightarrow> nat \<Rightarrow> u32" where
  "word_at m k = col (m ! k) (m ! (k + 1)) (m ! (k + 2)) (m ! (k + 3))"

definition blk :: "u8 list \<Rightarrow> cstate" where
  "blk pt = (word_at pt 0, word_at pt 4, word_at pt 8, word_at pt 12)"

definition block_bytes :: "cstate \<Rightarrow> u8 list" where
  "block_bytes s = (case s of (s0, s1, s2, s3) \<Rightarrow> concat (map (\<lambda>w. [byte3 w, byte2 w, byte1 w, byte0 w]) [s0, s1, s2, s3]))"

abbreviation aes_cipher :: "cstate \<Rightarrow> cstate list \<Rightarrow> cstate \<Rightarrow> cstate \<Rightarrow> cstate" where
  "aes_cipher \<equiv> cipher sub_shift (map_cols mix_column) add_key"
abbreviation aes_decipher :: "cstate \<Rightarrow> cstate list \<Rightarrow> cstate \<Rightarrow> cstate \<Rightarrow> cstate" where
  "aes_decipher \<equiv> cipher inv_sub_shift (map_cols inv_mix_column) add_key"

subsection \<open>Product ciphers\<close>

text \<open>
  What decryption with transformed round keys (the equivalent inverse cipher) relies on:
  the substitution layer and the linear layer have left inverses, the inverse linear layer
  distributes over key addition, and adding a key twice cancels.
\<close>

locale product_cipher =
  fixes sub isub lin ilin :: "'s \<Rightarrow> 's" and add :: "'s \<Rightarrow> 's \<Rightarrow> 's"
  assumes isub_sub: "isub (sub s) = s"
    and ilin_lin: "ilin (lin s) = s"
    and ilin_add: "ilin (add s k) = add (ilin s) (ilin k)"
    and add_add: "add (add s k) k = s"
begin

lemma middle_rounds:
  "foldl (\<lambda>t k. add (ilin (isub t)) k)
     (sub (foldl (\<lambda>s k. add (lin (sub s)) k) s ks)) (map ilin (rev ks)) = sub s"
  by (induction ks rule: rev_induct) (simp_all add: isub_sub ilin_add ilin_lin add_add)

lemma decipher_cipher:
  "cipher isub ilin add kN (map ilin (rev ks)) k0 (cipher sub lin add k0 ks kN s) = s"
  by (simp add: cipher_def add_add middle_rounds isub_sub)

end

subsection \<open>Table look-ups\<close>

lemma length_T4 [simp]: "length Te4 = 256" "length Td4 = 256"
  by (simp_all add: Te4_def Td4_def)

lemma unat_byte_less [simp]: "unat (x :: u8) < 256"
  using unsigned_less [of x] by simp

lemma nth_of_map: "map f xs = ys \<Longrightarrow> i < length xs \<Longrightarrow> ys ! i = f (xs ! i)"
  by auto

lemma Te_nth:
  "Te0 ! unat x = te0_entry (sbox x)" "Te1 ! unat x = te1_entry (sbox x)"
  "Te2 ! unat x = te2_entry (sbox x)" "Te3 ! unat x = te3_entry (sbox x)"
  "Te4 ! unat x = t4_entry (sbox x)"
  using nth_of_map [OF Te0_map, of "unat x"] nth_of_map [OF Te1_map, of "unat x"]
    nth_of_map [OF Te2_map, of "unat x"] nth_of_map [OF Te3_map, of "unat x"]
    nth_of_map [OF Te4_map, of "unat x"]
  by (simp_all add: sbox_table)

lemma Td_nth:
  "Td0 ! unat x = td0_entry (inv_sbox x)" "Td1 ! unat x = td1_entry (inv_sbox x)"
  "Td2 ! unat x = td2_entry (inv_sbox x)" "Td3 ! unat x = td3_entry (inv_sbox x)"
  "Td4 ! unat x = t4_entry (inv_sbox x)"
  using nth_of_map [OF Td0_map, of "unat x"] nth_of_map [OF Td1_map, of "unat x"]
    nth_of_map [OF Td2_map, of "unat x"] nth_of_map [OF Td3_map, of "unat x"]
    nth_of_map [OF Td4_map, of "unat x"]
  by (simp_all add: inv_sbox_table)

subsection \<open>Columns\<close>

lemma col_mask:
  "col a b c d AND 0xff000000 = col a 0 0 0" "col a b c d AND 0x00ff0000 = col 0 b 0 0"
  "col a b c d AND 0x0000ff00 = col 0 0 c 0" "col a b c d AND 0x000000ff = col 0 0 0 d"
proof -
  have m: "(0xff000000 :: u32) = col 0xff 0 0 0" "(0x00ff0000 :: u32) = col 0 0xff 0 0"
    "(0x0000ff00 :: u32) = col 0 0 0xff 0" "(0x000000ff :: u32) = col 0 0 0 0xff"
    by (simp_all add: col_def)
  have n: "(0xff :: u8) = mask 8" by (simp add: mask_eq_exp_minus_1)
  have z: "\<not> bit x (k::nat)" if "8 \<le> k" for x :: u8 and k
    using bit_imp_le_length [of x k] that by auto
  have e: "bit x k \<and> k < 8 \<longleftrightarrow> bit x k" for x :: u8 and k
    using z [of k x] by (cases "k < 8") auto
  show "col a b c d AND 0xff000000 = col a 0 0 0" "col a b c d AND 0x00ff0000 = col 0 b 0 0"
    "col a b c d AND 0x0000ff00 = col 0 0 c 0" "col a b c d AND 0x000000ff = col 0 0 0 d"
    unfolding m n by (rule bit_word_eqI, simp add: bit_col bit_simps e)+
qed

lemma byte0_drop [byte_simps]:
  "byte0 (drop_bit 16 w) = byte2 w" "byte0 (drop_bit 8 w) = byte1 w"
  by (simp_all add: byte0_def byte1_def byte2_def)

lemma te4_col_eq:
  "te4_col a b c d = col (sbox (byte3 a)) (sbox (byte2 b)) (sbox (byte1 c)) (sbox (byte0 d))"
  by (simp add: te4_col_def unat_byte Te_nth t4_entry_def col_mask col_xor byte_simps)

lemma td4_col_eq:
  "td4_col a b c d = col (inv_sbox (byte3 a)) (inv_sbox (byte2 b)) (inv_sbox (byte1 c)) (inv_sbox (byte0 d))"
  by (simp add: td4_col_def unat_byte Td_nth t4_entry_def col_mask col_xor byte_simps)

lemma te_col_eq: "te_col a b c d = mix_column (te4_col a b c d)"
  by (simp add: te_col_def te4_col_eq unat_byte Te_nth entry_defs col_xor mix_column_def byte_simps xor.assoc Let_def)

lemma td_col_eq: "td_col a b c d = inv_mix_column (td4_col a b c d)"
  by (simp add: td_col_def td4_col_eq unat_byte Td_nth entry_defs col_xor inv_mix_column_def byte_simps xor.assoc Let_def)

lemma mul_xor:
  "mul3 (a XOR b) = mul3 a XOR mul3 b" "mul9 (a XOR b) = mul9 a XOR mul9 b"
  "mulb (a XOR b) = mulb a XOR mulb b" "muld (a XOR b) = muld a XOR muld b"
  "mule (a XOR b) = mule a XOR mule b"
  by (simp_all add: mul3_def mul9_def mulb_def muld_def mule_def xtime_xor xor_ac)

lemma inv_mix_column_xor: "inv_mix_column (v XOR w) = inv_mix_column v XOR inv_mix_column w"
  by (simp add: inv_mix_column_def byte_xor mul_xor col_xor xor_ac Let_def)

lemma inv_mix_column_mix_column: "inv_mix_column (mix_column w) = w"
proof -
  have "inv_mix_column (mix_column (col a b c d)) = col a b c d" for a b c d
    by (simp add: inv_mix_column_def mix_column_def Let_def byte_simps
        mul3_def mul9_def mulb_def muld_def mule_def xtime_xor xor_ac)
  then show ?thesis by (metis col_bytes)
qed


lemma inv_mix_word_eq: "inv_mix_word w = inv_mix_column w"
proof -
  have l: "unat (t4_entry x AND 0xff) = unat x" for x
    by (simp add: unat_byte t4_entry_def byte_simps)
  show ?thesis
    by (simp add: inv_mix_word_def unat_byte Te_nth l Td_nth inv_sbox_sbox entry_defs col_xor
        inv_mix_column_def byte_simps xor.assoc Let_def)
qed

subsection \<open>Rounds on the cipher state\<close>

lemma add_key_add_key: "add_key (add_key s k) k = s"
  by (simp add: add_key_def split: prod.splits)

lemma inv_sub_shift_sub_shift: "inv_sub_shift (sub_shift s) = s"
  by (cases s) (simp add: inv_sub_shift_def sub_shift_def shift_rows_def inv_shift_rows_def
      map_cols_def sub_word_def inv_sub_word_def byte_simps inv_sbox_sbox)

interpretation aes: product_cipher sub_shift inv_sub_shift "map_cols mix_column"
  "map_cols inv_mix_column" add_key
  by unfold_locales
    (auto simp: inv_sub_shift_sub_shift add_key_add_key map_cols_def inv_mix_column_mix_column
      inv_mix_column_xor add_key_def split: prod.splits)

lemma te_round_eq:
  "te_round rk (4 * i) s = add_key (map_cols mix_column (sub_shift s)) (rkey rk i)"
  by (cases s) (simp add: te_round_def te_col_eq te4_col_eq add_key_def map_cols_def sub_shift_def
      shift_rows_def sub_word_def rkey_def byte_simps)

lemma te_last_eq: "te_last rk (4 * i) s = add_key (sub_shift s) (rkey rk i)"
  by (cases s) (simp add: te_last_def te4_col_eq add_key_def map_cols_def sub_shift_def
      shift_rows_def sub_word_def rkey_def byte_simps)

lemma td_round_eq:
  "td_round rk (4 * i) s = add_key (map_cols inv_mix_column (inv_sub_shift s)) (rkey rk i)"
  by (cases s) (simp add: td_round_def td_col_eq td4_col_eq add_key_def map_cols_def inv_sub_shift_def
      inv_shift_rows_def inv_sub_word_def rkey_def byte_simps)

lemma td_last_eq: "td_last rk (4 * i) s = add_key (inv_sub_shift s) (rkey rk i)"
  by (cases s) (simp add: td_last_def td4_col_eq add_key_def map_cols_def inv_sub_shift_def
      inv_shift_rows_def inv_sub_word_def rkey_def byte_simps)

lemma GETU32_word: "GETU32 p k = word_at p k"
  by (simp add: GETU32_def word_at_def col_def)

lemma load_block_eq: "load_block rk pt = add_key (blk pt) (rkey rk 0)"
  by (simp add: load_block_def add_key_def blk_def GETU32_word rkey_def numeral_2_eq_2)

lemma enc_rounds_eq:
  "enc_rounds (Suc r) rk (4 * j) s =
     Some (4 * (j + 2 * r + 2), foldl (\<lambda>s i. te_round rk (4 * i) s) s [j + 1..<j + 2 * r + 2])"
proof (induction r arbitrary: j s)
  case 0
  then show ?case by (simp add: Let_def upt_rec algebra_simps)
next
  case (Suc r)
  have u: "[j + 1..<j + 2 * Suc r + 2] = (j + 1) # (j + 2) # [j + 2 + 1..<j + 2 + 2 * r + 2]"
    by (simp add: upt_conv_Cons)
  show ?case
    using Suc.IH [of "j + 2"] unfolding u
    by (subst enc_rounds.simps) (simp add: Let_def algebra_simps del: enc_rounds.simps)
qed

lemma dec_rounds_eq:
  "dec_rounds (Suc r) rk (4 * j) s =
     Some (4 * (j + 2 * r + 2), foldl (\<lambda>s i. td_round rk (4 * i) s) s [j + 1..<j + 2 * r + 2])"
proof (induction r arbitrary: j s)
  case 0
  then show ?case by (simp add: Let_def upt_rec algebra_simps)
next
  case (Suc r)
  have u: "[j + 1..<j + 2 * Suc r + 2] = (j + 1) # (j + 2) # [j + 2 + 1..<j + 2 + 2 * r + 2]"
    by (simp add: upt_conv_Cons)
  show ?case
    using Suc.IH [of "j + 2"] unfolding u
    by (subst dec_rounds.simps) (simp add: Let_def algebra_simps del: dec_rounds.simps)
qed

lemma rijndaelEncrypt_foldl:
  assumes "Nr = 2 * Suc r"
  shows "rijndaelEncrypt rk Nr pt ct = Some (store_block ct (te_last rk (4 * Nr)
      (foldl (\<lambda>s i. te_round rk (4 * i) s) (load_block rk pt) [1..<Nr])))"
  using enc_rounds_eq [of r rk 0] assms by (simp add: rijndaelEncrypt_def del: enc_rounds.simps)

lemma rijndaelEncrypt_cipher:
  assumes "Nr = 2 * Suc r"
  shows "rijndaelEncrypt rk Nr pt ct =
    Some (store_block ct (aes_cipher (rkey rk 0) (map (rkey rk) [1..<Nr]) (rkey rk Nr) (blk pt)))"
  unfolding rijndaelEncrypt_foldl [OF assms]
  by (simp add: te_last_eq te_round_eq load_block_eq cipher_def foldl_map)

lemma rijndaelDecrypt_foldl:
  assumes "Nr = 2 * Suc r"
  shows "rijndaelDecrypt rk Nr ct pt = Some (store_block pt (td_last rk (4 * Nr)
      (foldl (\<lambda>s i. td_round rk (4 * i) s) (load_block rk ct) [1..<Nr])))"
  using dec_rounds_eq [of r rk 0] assms by (simp add: rijndaelDecrypt_def del: dec_rounds.simps)

lemma rijndaelDecrypt_cipher:
  assumes "Nr = 2 * Suc r"
  shows "rijndaelDecrypt rk Nr ct pt =
    Some (store_block pt (aes_decipher (rkey rk 0) (map (rkey rk) [1..<Nr]) (rkey rk Nr) (blk ct)))"
  unfolding rijndaelDecrypt_foldl [OF assms]
  by (simp add: td_last_eq td_round_eq load_block_eq cipher_def foldl_map)

subsection \<open>Blocks\<close>

lemma PUTU32_bytes: "PUTU32 ct k w = ct[k := byte3 w, k + 1 := byte2 w, k + 2 := byte1 w, k + 3 := byte0 w]"
  by (simp add: PUTU32_def byte3_def byte2_def byte1_def byte0_def)

lemma length_16_cases:
  assumes "length xs = 16"
  obtains a0 a1 a2 a3 a4 a5 a6 a7 a8 a9 b0 b1 b2 b3 b4 b5
  where "xs = [a0, a1, a2, a3, a4, a5, a6, a7, a8, a9, b0, b1, b2, b3, b4, b5]"
  using assms by (auto simp: numeral_eq_Suc length_Suc_conv)

lemma length_store_block [simp]: "length (store_block ct s) = length ct"
  by (simp add: store_block_def PUTU32_def split: prod.splits)

lemma blk_store_block: "length ct = 16 \<Longrightarrow> blk (store_block ct s) = s"
  by (cases s) (auto simp: blk_def store_block_def PUTU32_bytes word_at_def byte_simps nth_list_update)

lemma store_block_blk:
  assumes "length pt = 16" and "length ct = 16"
  shows "store_block ct (blk pt) = pt"
  using assms(1)
  apply (rule length_16_cases)
  using assms(2)
  apply (rule length_16_cases)
  apply (simp add: blk_def store_block_def PUTU32_bytes word_at_def byte_simps)
  done

lemma store_block_bytes: "length ct = 16 \<Longrightarrow> store_block ct s = block_bytes s"
  by (erule length_16_cases) (simp add: store_block_def block_bytes_def PUTU32_bytes split: prod.split)

end
