(* ===== verification/Rijndael_Keys.thy ===== *)
theory Rijndael_Keys
  imports Rijndael_Correct
begin

section \<open>Key schedules and the properties of the block cipher\<close>

text \<open>
  The key expansion of the AES standard (\<open>key_word\<close>), the proof that
  \<^verbatim>\<open>rijndaelKeySetupEnc\<close> writes exactly its words, that \<^verbatim>\<open>rijndaelKeySetupDec\<close>
  reverses the round keys and applies the inverse column transform to the middle ones, and
  the properties of the whole cipher: decryption undoes encryption, the unrolled and the
  round-limited variants agree with the compiled ones.
\<close>

subsection \<open>Specification of the key expansion\<close>

function key_word :: "u8 list \<Rightarrow> nat \<Rightarrow> nat \<Rightarrow> u32" where
  "key_word key Nk i =
     (if i < Nk \<or> Nk = 0 then word_at key (4 * i)
      else if i mod Nk = 0
      then key_word key Nk (i - Nk) XOR sub_word (rot_word (key_word key Nk (i - 1))) XOR round_const (i div Nk - 1)
      else if Nk > 6 \<and> i mod Nk = 4
      then key_word key Nk (i - Nk) XOR sub_word (key_word key Nk (i - 1))
      else key_word key Nk (i - Nk) XOR key_word key Nk (i - 1))"
  by pat_completeness auto
termination by (relation "measure (\<lambda>(key, Nk, i). i)") auto

declare key_word.simps [simp del]

definition expanded :: "u8 list \<Rightarrow> nat \<Rightarrow> nat \<Rightarrow> u32 list \<Rightarrow> bool" where
  "expanded key Nk n rk \<longleftrightarrow> n \<le> length rk \<and> (\<forall>j<n. rk ! j = key_word key Nk j)"

definition valid_bits :: "int \<Rightarrow> bool" where
  "valid_bits keyBits \<longleftrightarrow> keyBits = 128 \<or> keyBits = 192 \<or> keyBits = 256"

definition rounds_of :: "int \<Rightarrow> nat" where
  "rounds_of keyBits = nat keyBits div 32 + 6"

definition swap_quads :: "u32 list \<Rightarrow> nat \<Rightarrow> nat \<Rightarrow> u32 list" where
  "swap_quads rk i j = swap_words (swap_words (swap_words (swap_words rk i j)
             (i + 1) (j + 1)) (i + 2) (j + 2)) (i + 3) (j + 3)"

definition round_key :: "u8 list \<Rightarrow> nat \<Rightarrow> nat \<Rightarrow> cstate" where
  "round_key key Nk q = (key_word key Nk (4 * q), key_word key Nk (4 * q + 1),
     key_word key Nk (4 * q + 2), key_word key Nk (4 * q + 3))"

text \<open>Encryption of the 16 bytes \<open>pt\<close> with a key of \<open>Nk\<close> words, as the standard defines it.\<close>

definition aes_standard :: "nat \<Rightarrow> u8 list \<Rightarrow> u8 list \<Rightarrow> u8 list" where
  "aes_standard Nk key pt =
     block_bytes (aes_cipher (round_key key Nk 0) (map (round_key key Nk) [1..<Nk + 6]) (round_key key Nk (Nk + 6)) (blk pt))"

subsection \<open>The encryption schedule\<close>


lemma ks_core_eq: "ks_core w = sub_word (rot_word w)"
  by (simp add: ks_core_def sub_word_def rot_word_def unat_byte Te_nth t4_entry_def col_mask col_xor byte_simps)

lemma ks_sub_eq: "ks_sub w = sub_word w"
  by (simp add: ks_sub_def sub_word_def unat_byte Te_nth t4_entry_def col_mask col_xor byte_simps)

lemma key_word_first: "i < Nk \<Longrightarrow> key_word key Nk i = GETU32 key (4 * i)"
  by (simp add: key_word.simps GETU32_word)

lemma key_word_core:
  "0 < Nk \<Longrightarrow> i < 10 \<Longrightarrow> key_word key Nk (Nk * i + Nk) =
     key_word key Nk (Nk * i) XOR sub_word (rot_word (key_word key Nk (Nk * i + Nk - 1))) XOR rcon ! i"
  by (subst key_word.simps) (simp add: rcon_table)

lemma key_word_sub:
  "6 < Nk \<Longrightarrow> key_word key Nk (Nk * i + Nk + 4) =
     key_word key Nk (Nk * i + 4) XOR sub_word (key_word key Nk (Nk * i + Nk + 3))"
  by (subst key_word.simps) (simp add: mod_add_eq ac_simps)

lemma key_word_plain:
  "0 < c \<Longrightarrow> c < Nk \<Longrightarrow> c \<noteq> 4 \<or> Nk \<le> 6 \<Longrightarrow> key_word key Nk (Nk * i + Nk + c) =
     key_word key Nk (Nk * i + c) XOR key_word key Nk (Nk * i + Nk + c - 1)"
  by (subst key_word.simps) (auto simp: ac_simps)

lemma expanded_update:
  assumes "expanded key Nk n rk" and "n < length rk" and "v = key_word key Nk n"
  shows "expanded key Nk (n + 1) (rk[n := v])"
  using assms by (auto simp: expanded_def nth_list_update less_Suc_eq)

lemma expanded_nth: "expanded key Nk n rk \<Longrightarrow> j < n \<Longrightarrow> rk ! j = key_word key Nk j"
  by (simp add: expanded_def)

lemma expanded_core:
  assumes "expanded key Nk n rk" and "n < length rk" and "n = Nk * i + Nk" and "0 < Nk" and "i < 10"
    and "a = Nk * i" and "b + 1 = n" and "m = n + 1"
  shows "expanded key Nk m (rk[n := rk ! a XOR ks_core (rk ! b) XOR rcon ! i])"
proof -
  have b: "b = Nk * i + Nk - 1" using assms(3,7) by simp
  show ?thesis using assms unfolding \<open>m = n + 1\<close> b
    by (intro expanded_update) (simp_all add: ks_core_eq expanded_nth key_word_core)
qed

lemma expanded_sub:
  assumes "expanded key Nk n rk" and "n < length rk" and "n = Nk * i + Nk + 4" and "6 < Nk"
    and "a = Nk * i + 4" and "b + 1 = n" and "m = n + 1"
  shows "expanded key Nk m (rk[n := rk ! a XOR ks_sub (rk ! b)])"
proof -
  have b: "b = Nk * i + Nk + 3" using assms(3,6) by simp
  show ?thesis using assms(1-5) unfolding \<open>m = n + 1\<close> b
    by (intro expanded_update) (simp_all add: ks_sub_eq expanded_nth key_word_sub)
qed

lemma expanded_plain:
  assumes "expanded key Nk n rk" and "n < length rk" and "n = Nk * i + Nk + c"
    and "0 < c" and "c < Nk" and "c \<noteq> 4 \<or> Nk \<le> 6"
    and "a = Nk * i + c" and "b + 1 = n" and "m = n + 1"
  shows "expanded key Nk m (rk[n := rk ! a XOR rk ! b])"
proof -
  have b: "b = Nk * i + Nk + c - 1" using assms(3,8) by simp
  show ?thesis using assms unfolding \<open>m = n + 1\<close> b
    by (intro expanded_update) (simp_all add: expanded_nth key_word_plain)
qed

lemma ks128_body_expanded:
  assumes e: "expanded key 4 (4 * i + 4) rk" and l: "4 * i + 8 \<le> length rk" "i < 10"
  shows "expanded key 4 (4 * i + 8) (ks128_body rk (4 * i) i)"
  unfolding ks128_body_def Let_def
  by (rule expanded_plain [where i = i and c = 3],
    rule expanded_plain [where i = i and c = 2],
    rule expanded_plain [where i = i and c = 1],
    rule expanded_core [where i = i], rule e) (use l in simp_all)

lemma ks192_body1_expanded:
  assumes e: "expanded key 6 (6 * i + 6) rk" and l: "6 * i + 10 \<le> length rk" "i < 10"
  shows "expanded key 6 (6 * i + 10) (ks192_body1 rk (6 * i) i)"
  unfolding ks192_body1_def Let_def
  by (rule expanded_plain [where i = i and c = 3],
    rule expanded_plain [where i = i and c = 2],
    rule expanded_plain [where i = i and c = 1],
    rule expanded_core [where i = i], rule e) (use l in simp_all)

lemma ks192_body2_expanded:
  assumes e: "expanded key 6 (6 * i + 10) rk" and l: "6 * i + 12 \<le> length rk"
  shows "expanded key 6 (6 * i + 12) (ks192_body2 rk (6 * i))"
  unfolding ks192_body2_def Let_def
  by (rule expanded_plain [where i = i and c = 5],
    rule expanded_plain [where i = i and c = 4], rule e) (use l in simp_all)

lemma ks256_body1_expanded:
  assumes e: "expanded key 8 (8 * i + 8) rk" and l: "8 * i + 12 \<le> length rk" "i < 10"
  shows "expanded key 8 (8 * i + 12) (ks256_body1 rk (8 * i) i)"
  unfolding ks256_body1_def Let_def
  by (rule expanded_plain [where i = i and c = 3],
    rule expanded_plain [where i = i and c = 2],
    rule expanded_plain [where i = i and c = 1],
    rule expanded_core [where i = i], rule e) (use l in simp_all)

lemma ks256_body2_expanded:
  assumes e: "expanded key 8 (8 * i + 12) rk" and l: "8 * i + 16 \<le> length rk"
  shows "expanded key 8 (8 * i + 16) (ks256_body2 rk (8 * i))"
  unfolding ks256_body2_def Let_def
  by (rule expanded_plain [where i = i and c = 7],
    rule expanded_plain [where i = i and c = 6],
    rule expanded_plain [where i = i and c = 5],
    rule expanded_sub [where i = i], rule e) (use l in simp_all)

lemma length_ks_body [simp]:
  "length (ks128_body rk k i) = length rk" "length (ks192_body1 rk k i) = length rk"
  "length (ks192_body2 rk k) = length rk" "length (ks256_body1 rk k i) = length rk"
  "length (ks256_body2 rk k) = length rk"
  by (simp_all add: ks128_body_def ks192_body1_def ks192_body2_def ks256_body1_def
      ks256_body2_def Let_def)

lemma ks128_loop_expanded:
  "expanded key 4 (4 * i + 4) rk \<Longrightarrow> 44 \<le> length rk \<Longrightarrow> i < 10 \<Longrightarrow>
     expanded key 4 44 (ks128_loop rk (4 * i) i)"
proof (induction "10 - i" arbitrary: i rk)
  case (Suc n)
  have b: "expanded key 4 (4 * i + 8) (ks128_body rk (4 * i) i)"
    using Suc.prems by (intro ks128_body_expanded) simp_all
  show ?case
    using Suc.hyps(1) [of "i + 1" "ks128_body rk (4 * i) i"] Suc.hyps(2) Suc.prems b
    by (subst ks128_loop.simps) (auto simp: Let_def algebra_simps)
qed simp

lemma ks192_loop_expanded:
  "expanded key 6 (6 * i + 6) rk \<Longrightarrow> 52 \<le> length rk \<Longrightarrow> i < 8 \<Longrightarrow>
     expanded key 6 52 (ks192_loop rk (6 * i) i)"
proof (induction "8 - i" arbitrary: i rk)
  case (Suc n)
  have b: "expanded key 6 (6 * i + 10) (ks192_body1 rk (6 * i) i)"
    using Suc.prems by (intro ks192_body1_expanded) simp_all
  show ?case
  proof (cases "i = 7")
    case True
    with b show ?thesis by (subst ks192_loop.simps) (simp add: Let_def)
  next
    case False
    then have "expanded key 6 (6 * i + 12) (ks192_body2 (ks192_body1 rk (6 * i) i) (6 * i))"
      using b Suc.prems by (intro ks192_body2_expanded) simp_all
    with False Suc.hyps(1) [of "i + 1" "ks192_body2 (ks192_body1 rk (6 * i) i) (6 * i)"]
      Suc.hyps(2) Suc.prems
    show ?thesis by (subst ks192_loop.simps) (simp add: Let_def algebra_simps)
  qed
qed simp

lemma ks256_loop_expanded:
  "expanded key 8 (8 * i + 8) rk \<Longrightarrow> 60 \<le> length rk \<Longrightarrow> i < 7 \<Longrightarrow>
     expanded key 8 60 (ks256_loop rk (8 * i) i)"
proof (induction "7 - i" arbitrary: i rk)
  case (Suc n)
  have b: "expanded key 8 (8 * i + 12) (ks256_body1 rk (8 * i) i)"
    using Suc.prems by (intro ks256_body1_expanded) simp_all
  show ?case
  proof (cases "i = 6")
    case True
    with b show ?thesis by (subst ks256_loop.simps) (simp add: Let_def)
  next
    case False
    then have "expanded key 8 (8 * i + 16) (ks256_body2 (ks256_body1 rk (8 * i) i) (8 * i))"
      using b Suc.prems by (intro ks256_body2_expanded) simp_all
    with False Suc.hyps(1) [of "i + 1" "ks256_body2 (ks256_body1 rk (8 * i) i) (8 * i)"]
      Suc.hyps(2) Suc.prems
    show ?thesis by (subst ks256_loop.simps) (simp add: Let_def algebra_simps)
  qed
qed simp

lemma length_ks_loop [simp]:
  "length (ks128_loop rk k i) = length rk" "length (ks192_loop rk k i) = length rk"
  "length (ks256_loop rk k i) = length rk"
proof -
  show "length (ks128_loop rk k i) = length rk"
    by (induction rk k i rule: ks128_loop.induct) (subst ks128_loop.simps, simp add: Let_def)
  show "length (ks192_loop rk k i) = length rk"
    by (induction rk k i rule: ks192_loop.induct) (subst ks192_loop.simps, simp add: Let_def)
  show "length (ks256_loop rk k i) = length rk"
    by (induction rk k i rule: ks256_loop.induct) (subst ks256_loop.simps, simp add: Let_def)
qed

lemma key_start:
  "4 \<le> length rk \<Longrightarrow> expanded key 4 4 (rk[0 := GETU32 key 0, 1 := GETU32 key 4, 2 := GETU32 key 8, 3 := GETU32 key 12])"
  "6 \<le> length rk \<Longrightarrow> expanded key 6 6 (rk[0 := GETU32 key 0, 1 := GETU32 key 4, 2 := GETU32 key 8, 3 := GETU32 key 12,
     4 := GETU32 key 16, 5 := GETU32 key 20])"
  "8 \<le> length rk \<Longrightarrow> expanded key 8 8 (rk[0 := GETU32 key 0, 1 := GETU32 key 4, 2 := GETU32 key 8, 3 := GETU32 key 12,
     4 := GETU32 key 16, 5 := GETU32 key 20, 6 := GETU32 key 24, 7 := GETU32 key 28])"
  by (auto simp: expanded_def key_word_first less_Suc_eq numeral_eq_Suc Suc_le_length_iff)

lemma rijndaelKeySetupEnc_expanded:
  assumes "valid_bits keyBits" and "4 * (rounds_of keyBits + 1) \<le> length rk"
  shows "fst (rijndaelKeySetupEnc rk key keyBits) = rounds_of keyBits \<and>
    length (snd (rijndaelKeySetupEnc rk key keyBits)) = length rk \<and>
    expanded key (nat keyBits div 32) (4 * (rounds_of keyBits + 1)) (snd (rijndaelKeySetupEnc rk key keyBits))"
  using assms ks128_loop_expanded [of key 0, OF _ _ zero_less_numeral]
    ks192_loop_expanded [of key 0, OF _ _ zero_less_numeral]
    ks256_loop_expanded [of key 0, OF _ _ zero_less_numeral] key_start [of rk key]
  by (auto simp: valid_bits_def rounds_of_def rijndaelKeySetupEnc_def Let_def)


subsection \<open>The decryption schedule\<close>

lemma length_swap_words [simp]: "length (swap_words rk i j) = length rk"
  by (simp add: swap_words_def Let_def)

lemma nth_swap_words:
  "i < length rk \<Longrightarrow> j < length rk \<Longrightarrow>
   swap_words rk i j ! p = (if p = i then rk ! j else if p = j then rk ! i else rk ! p)"
  by (auto simp: swap_words_def Let_def nth_list_update)

lemma quad_neq:
  assumes "c < 4" and "d < 4"
  shows "(4 * (q::nat) + c = 4 * a + d) \<longleftrightarrow> q = a \<and> c = d"
proof -
  have "(4 * q + c) div 4 = q" "(4 * a + d) div 4 = a"
    using assms by simp_all
  then have "4 * q + c = 4 * a + d \<Longrightarrow> q = a" by metis
  then show ?thesis by auto
qed

lemma rkey_swap_quads:
  assumes "4 * a + 4 \<le> length rk" and "4 * b + 4 \<le> length rk" and "a \<noteq> b"
  shows "rkey (swap_quads rk (4 * a) (4 * b)) q =
    (if q = a then rkey rk b else if q = b then rkey rk a else rkey rk q)"
proof -
  note e = quad_neq [of 0, simplified] quad_neq [of _ 0, simplified] quad_neq
  show ?thesis
    using assms by (simp add: rkey_def swap_quads_def nth_swap_words e)
qed

lemma length_invert_order [simp]: "length (invert_order rk i j) = length rk"
  by (induction rk i j rule: invert_order.induct) (subst invert_order.simps, simp)

lemma length_inv_mix_rounds [simp]: "length (inv_mix_rounds rk i Nr) = length rk"
  by (induction rk i Nr rule: inv_mix_rounds.induct) (subst inv_mix_rounds.simps, simp)

lemma length_swap_quads [simp]: "length (swap_quads rk i j) = length rk"
  by (simp add: swap_quads_def)

lemma invert_order_quads:
  "invert_order rk i j = (if i < j then invert_order (swap_quads rk i j) (i + 4) (j - 4) else rk)"
  by (subst invert_order.simps) (simp add: swap_quads_def)

lemma rkey_invert_order:
  "4 * b + 4 \<le> length rk \<Longrightarrow>
   rkey (invert_order rk (4 * a) (4 * b)) q = (if a \<le> q \<and> q \<le> b then rkey rk (a + b - q) else rkey rk q)"
proof (induction "b - a" arbitrary: a b rk rule: less_induct)
  case less
  show ?case
  proof (cases "a < b")
    case False
    then show ?thesis by (subst invert_order_quads) (auto simp: le_less)
  next
    case True
    have j: "4 * b - 4 = 4 * (b - 1)" "4 * a + 4 = 4 * (a + 1)" by simp_all
    have "rkey (invert_order rk (4 * a) (4 * b)) q =
      rkey (invert_order (swap_quads rk (4 * a) (4 * b)) (4 * (a + 1)) (4 * (b - 1))) q"
      using True by (subst invert_order_quads) (simp add: j)
    also have "\<dots> = (if a + 1 \<le> q \<and> q \<le> b - 1
        then rkey (swap_quads rk (4 * a) (4 * b)) (a + 1 + (b - 1) - q)
        else rkey (swap_quads rk (4 * a) (4 * b)) q)"
      using True less.prems by (intro less.hyps) auto
    also have "\<dots> = (if a \<le> q \<and> q \<le> b then rkey rk (a + b - q) else rkey rk q)"
      using True less.prems by (auto simp: rkey_swap_quads)
    finally show ?thesis .
  qed
qed

lemma rkey_inv_mix_step:
  assumes "4 * i + 4 \<le> length rk"
  shows "rkey (rk[4 * i := f (rk ! (4 * i)), 4 * i + 1 := f (rk ! (4 * i + 1)),
      4 * i + 2 := f (rk ! (4 * i + 2)), 4 * i + 3 := f (rk ! (4 * i + 3))]) q =
    (if q = i then map_cols f (rkey rk i) else rkey rk q)"
proof -
  note e = quad_neq [of 0, simplified] quad_neq [of _ 0, simplified] quad_neq
  show ?thesis using assms by (simp add: rkey_def map_cols_def nth_list_update e)
qed

lemma rkey_inv_mix_rounds:
  "4 * Nr \<le> length rk \<Longrightarrow>
   rkey (inv_mix_rounds rk i Nr) q =
     (if i \<le> q \<and> q < Nr then map_cols inv_mix_column (rkey rk q) else rkey rk q)"
proof (induction rk i Nr rule: inv_mix_rounds.induct)
  case (1 rk i Nr)
  let ?rk = "rk[4 * i := inv_mix_word (rk ! (4 * i)), 4 * i + 1 := inv_mix_word (rk ! (4 * i + 1)),
      4 * i + 2 := inv_mix_word (rk ! (4 * i + 2)), 4 * i + 3 := inv_mix_word (rk ! (4 * i + 3))]"
  have w: "inv_mix_word = inv_mix_column" by (rule ext) (rule inv_mix_word_eq)
  show ?case
  proof (cases "i < Nr")
    case True
    have "rkey (inv_mix_rounds rk i Nr) q = rkey (inv_mix_rounds ?rk (i + 1) Nr) q"
      using True by (subst inv_mix_rounds.simps) simp
    also have "\<dots> = (if i + 1 \<le> q \<and> q < Nr then map_cols inv_mix_column (rkey ?rk q) else rkey ?rk q)"
      using True "1.prems" by (intro "1.IH") simp_all
    finally show ?thesis
      using True "1.prems" rkey_inv_mix_step [of i rk inv_mix_word] by (auto simp: w)
  next
    case False
    then show ?thesis by (subst inv_mix_rounds.simps) auto
  qed
qed

lemma rkey_expanded:
  "expanded key Nk (4 * (Nr + 1)) rk \<Longrightarrow> q \<le> Nr \<Longrightarrow>
     rkey rk q = round_key key Nk q"
  by (simp add: rkey_def round_key_def expanded_nth)

lemma rijndaelKeySetupDec_rkey:
  fixes key :: "u8 list"
  assumes "valid_bits keyBits" and "4 * (rounds_of keyBits + 1) \<le> length rk"
    and "q \<le> rounds_of keyBits"
  defines "ek \<equiv> snd (rijndaelKeySetupEnc rk key keyBits)"
  shows "rkey (snd (rijndaelKeySetupDec rk key keyBits)) q =
    (if 1 \<le> q \<and> q < rounds_of keyBits then map_cols inv_mix_column (rkey ek (rounds_of keyBits - q))
     else rkey ek (rounds_of keyBits - q))"
proof -
  have e: "rijndaelKeySetupEnc rk key keyBits = (rounds_of keyBits, ek)" "length ek = length rk"
    using rijndaelKeySetupEnc_expanded [OF assms(1,2)] by (simp_all add: ek_def prod_eq_iff)
  have i: "rkey (invert_order ek 0 (4 * rounds_of keyBits)) q = rkey ek (rounds_of keyBits - q)"
    using rkey_invert_order [of "rounds_of keyBits" ek 0 q] assms(2,3) e(2) by simp
  show ?thesis
    using assms(2) e(2) by (simp add: rijndaelKeySetupDec_def e(1) rkey_inv_mix_rounds i)
qed

lemma rounds_even:
  assumes "valid_bits keyBits"
  obtains r where "rounds_of keyBits = 2 * Suc r"
  using assms by (auto simp: valid_bits_def rounds_of_def intro: that [of 4] that [of 5] that [of 6])

lemma rev_upt_diff: "map (\<lambda>q. Nr - q) [1..<Nr] = rev [1..<Nr]"
  by (rule nth_equalityI) (auto simp: rev_nth)

lemma te_steps_eq:
  "te_steps n rk (4 * j) s = (4 * (j + n), foldl (\<lambda>s i. te_round rk (4 * i) s) s [j..<j + n])"
proof (induction n arbitrary: j s)
  case (Suc n)
  have j: "4 * j + 4 = 4 * (j + 1)" by simp
  have u: "[j..<j + Suc n] = j # [j + 1..<j + 1 + n]" by (simp add: upt_conv_Cons)
  show ?case
    unfolding te_steps.simps j Suc.IH u by simp
qed simp

lemma td_steps_eq:
  "td_steps n rk (4 * j) s = (4 * (j + n), foldl (\<lambda>s i. td_round rk (4 * i) s) s [j..<j + n])"
proof (induction n arbitrary: j s)
  case (Suc n)
  have j: "4 * j + 4 = 4 * (j + 1)" by simp
  have u: "[j..<j + Suc n] = j # [j + 1..<j + 1 + n]" by (simp add: upt_conv_Cons)
  show ?case
    unfolding td_steps.simps j Suc.IH u by simp
qed simp

lemma td_last_complete:
  "td_last rk k s = (case td_complete s of (t0, t1, t2, t3) \<Rightarrow>
     (t0 XOR rk ! k, t1 XOR rk ! (k + 1), t2 XOR rk ! (k + 2), t3 XOR rk ! (k + 3)))"
  by (simp add: td_last_def td_complete_def split: prod.splits)

lemma ks128_loop_frame: "i < 10 \<Longrightarrow> 44 \<le> j \<Longrightarrow> ks128_loop rk (4 * i) i ! j = rk ! j"
proof (induction "10 - i" arbitrary: i rk)
  case (Suc n)
  then show ?case
    using Suc.hyps(1) [of "i + 1" "ks128_body rk (4 * i) i"]
    by (subst ks128_loop.simps) (auto simp: Let_def algebra_simps ks128_body_def)
qed simp

lemma ks192_loop_frame: "i < 8 \<Longrightarrow> 52 \<le> j \<Longrightarrow> ks192_loop rk (6 * i) i ! j = rk ! j"
proof (induction "8 - i" arbitrary: i rk)
  case (Suc n)
  then show ?case
    using Suc.hyps(1) [of "i + 1" "ks192_body2 (ks192_body1 rk (6 * i) i) (6 * i)"]
    by (subst ks192_loop.simps)
      (auto simp: Let_def algebra_simps ks192_body1_def ks192_body2_def)
qed simp

lemma ks256_loop_frame: "i < 7 \<Longrightarrow> 60 \<le> j \<Longrightarrow> ks256_loop rk (8 * i) i ! j = rk ! j"
proof (induction "7 - i" arbitrary: i rk)
  case (Suc n)
  then show ?case
    using Suc.hyps(1) [of "i + 1" "ks256_body2 (ks256_body1 rk (8 * i) i) (8 * i)"]
    by (subst ks256_loop.simps)
      (auto simp: Let_def algebra_simps ks256_body1_def ks256_body2_def)
qed simp

lemma rijndaelKeySetupEnc_frame:
  assumes "valid_bits keyBits" and "4 * (rounds_of keyBits + 1) \<le> j"
  shows "snd (rijndaelKeySetupEnc rk key keyBits) ! j = rk ! j"
  using assms ks128_loop_frame [of 0 j] ks192_loop_frame [of 0 j] ks256_loop_frame [of 0 j]
  by (auto simp: valid_bits_def rounds_of_def rijndaelKeySetupEnc_def Let_def)

subsection \<open>Properties\<close>

text \<open>
  C1 (round trip). For every key length of the standard, every key and every 16-byte
  block, decrypting with the schedule of \<^verbatim>\<open>rijndaelKeySetupDec\<close> what was encrypted with
  the schedule of \<^verbatim>\<open>rijndaelKeySetupEnc\<close> gives the block back; both calls return.
\<close>

theorem rijndael_decrypt_encrypt:
  assumes bits: "valid_bits keyBits" and "keyBits \<le> 8 * int (length key)"
    and len: "4 * (rounds_of keyBits + 1) \<le> length rk" "4 * (rounds_of keyBits + 1) \<le> length rk'"
    and blocks: "length pt = 16" "length ct = 16" "length pt' = 16"
  shows "\<exists>c. rijndaelEncrypt (snd (rijndaelKeySetupEnc rk key keyBits))
              (fst (rijndaelKeySetupEnc rk key keyBits)) pt ct = Some c \<and> length c = 16 \<and>
            rijndaelDecrypt (snd (rijndaelKeySetupDec rk' key keyBits))
              (fst (rijndaelKeySetupDec rk' key keyBits)) c pt' = Some pt"
proof -
  let ?N = "rounds_of keyBits"
  let ?ek = "snd (rijndaelKeySetupEnc rk key keyBits)" and ?ek' = "snd (rijndaelKeySetupEnc rk' key keyBits)"
  let ?dk = "snd (rijndaelKeySetupDec rk' key keyBits)"
  have enc: "fst (rijndaelKeySetupEnc rk key keyBits) = ?N" "fst (rijndaelKeySetupEnc rk' key keyBits) = ?N"
    "expanded key (nat keyBits div 32) (4 * (?N + 1)) ?ek" "expanded key (nat keyBits div 32) (4 * (?N + 1)) ?ek'"
    using rijndaelKeySetupEnc_expanded [OF bits] len by blast+
  have dec: "fst (rijndaelKeySetupDec rk' key keyBits) = ?N"
    using enc(2) by (simp add: rijndaelKeySetupDec_def case_prod_unfold Let_def)
  obtain r where N: "?N = 2 * Suc r"
    using rounds_even [OF bits] .
  have same: "rkey ?ek' q = rkey ?ek q" if "q \<le> ?N" for q
    using that enc(3,4) by (simp add: rkey_expanded)
  have dk: "rkey ?dk 0 = rkey ?ek ?N" "rkey ?dk ?N = rkey ?ek 0"
    using rijndaelKeySetupDec_rkey [OF bits len(2)] N by (simp_all add: same)
  have mid: "map (rkey ?dk) [1..<?N] = map (map_cols inv_mix_column) (rev (map (rkey ?ek) [1..<?N]))"
  proof -
    have "map (rkey ?dk) [1..<?N] = map (\<lambda>q. map_cols inv_mix_column (rkey ?ek (?N - q))) [1..<?N]"
      using rijndaelKeySetupDec_rkey [OF bits len(2)] by (simp add: same)
    also have "\<dots> = map (map_cols inv_mix_column) (map (rkey ?ek) (map (\<lambda>q. ?N - q) [1..<?N]))"
      by simp
    finally show ?thesis by (simp only: rev_upt_diff rev_map)
  qed
  show ?thesis
    unfolding enc(1) dec rijndaelEncrypt_cipher [OF N] rijndaelDecrypt_cipher [OF N] dk mid
    using blocks by (simp add: aes.decipher_cipher blk_store_block store_block_blk)
qed

theorem rijndael_decrypt_encrypt_witness:
  "\<exists>c. rijndaelEncrypt (snd (rijndaelKeySetupEnc (replicate 44 0) (replicate 16 7) 128))
          (fst (rijndaelKeySetupEnc (replicate 44 0) (replicate 16 7) 128))
          (replicate 16 1) (replicate 16 0) = Some c \<and> length c = 16 \<and>
        rijndaelDecrypt (snd (rijndaelKeySetupDec (replicate 50 9) (replicate 16 7) 128))
          (fst (rijndaelKeySetupDec (replicate 50 9) (replicate 16 7) 128))
          c (replicate 16 0) = Some (replicate 16 1)"
  by (rule rijndael_decrypt_encrypt) (simp_all add: valid_bits_def rounds_of_def)

text \<open>
  C2 (refinement). Key setup followed by encryption computes the cipher of the AES
  standard: SubBytes, ShiftRows, MixColumns and AddRoundKey on the four columns of the
  block, with the round keys of the standard's key expansion. The specification is made of the field
  arithmetic only: the S-box is the affine map of the inverse in the field, the round constants are the
  powers of \<open>x\<close>; no table and no function of the code is part of it.
\<close>

theorem rijndaelEncrypt_refines_aes:
  assumes "valid_bits keyBits" and "keyBits \<le> 8 * int (length key)"
    and "4 * (rounds_of keyBits + 1) \<le> length rk" and "length pt = 16" and "length ct = 16"
  shows "rijndaelEncrypt (snd (rijndaelKeySetupEnc rk key keyBits))
      (fst (rijndaelKeySetupEnc rk key keyBits)) pt ct =
    Some (aes_standard (nat keyBits div 32) key pt)"
proof -
  obtain r where N: "rounds_of keyBits = 2 * Suc r"
    using rounds_even [OF assms(1)] .
  have e: "fst (rijndaelKeySetupEnc rk key keyBits) = rounds_of keyBits"
    "expanded key (nat keyBits div 32) (4 * (rounds_of keyBits + 1)) (snd (rijndaelKeySetupEnc rk key keyBits))"
    using rijndaelKeySetupEnc_expanded [OF assms(1,3)] by auto
  have "map (rkey (snd (rijndaelKeySetupEnc rk key keyBits))) [1..<rounds_of keyBits] =
    map (round_key key (nat keyBits div 32)) [1..<rounds_of keyBits]"
    by (simp add: rkey_expanded [OF e(2)])
  then show ?thesis
    by (simp add: e(1) rijndaelEncrypt_cipher [OF N] rkey_expanded [OF e(2)] store_block_bytes [OF assms(5)] aes_standard_def
      flip: rounds_of_def del: map_eq_conv)
qed

theorem rijndaelEncrypt_refines_aes_witness:
  "rijndaelEncrypt (snd (rijndaelKeySetupEnc (replicate 60 0) (replicate 32 3) 256))
      (fst (rijndaelKeySetupEnc (replicate 60 0) (replicate 32 3) 256))
      (replicate 16 1) (replicate 16 0) = Some (aes_standard 8 (replicate 32 3) (replicate 16 1))"
  using rijndaelEncrypt_refines_aes [of 256 "replicate 32 3" "replicate 60 0" "replicate 16 1" "replicate 16 0"]
  by (simp add: valid_bits_def rounds_of_def)

text \<open>
  \<^verbatim>\<open>rijndaelKeySetupEnc\<close> returns the number of rounds, fills exactly
  the \<open>4 * (Nr + 1)\<close> words the comment of its signature names with the words of the
  standard's key expansion, and leaves the rest of the buffer as it was.
\<close>

theorem rijndaelKeySetupEnc_words:
  assumes "valid_bits keyBits" and "keyBits \<le> 8 * int (length key)"
    and "4 * (rounds_of keyBits + 1) \<le> length rk"
  shows "rijndaelKeySetupEnc rk key keyBits =
    (rounds_of keyBits,
     map (key_word key (nat keyBits div 32)) [0..<4 * (rounds_of keyBits + 1)]
       @ drop (4 * (rounds_of keyBits + 1)) rk)"
proof -
  let ?n = "4 * (rounds_of keyBits + 1)" and ?ek = "snd (rijndaelKeySetupEnc rk key keyBits)"
  have e: "fst (rijndaelKeySetupEnc rk key keyBits) = rounds_of keyBits" "length ?ek = length rk"
    "expanded key (nat keyBits div 32) ?n ?ek"
    using rijndaelKeySetupEnc_expanded [OF assms(1,3)] by auto
  have "?ek = map (key_word key (nat keyBits div 32)) [0..<?n] @ drop ?n rk"
    using assms(3) e(2) expanded_nth [OF e(3)] rijndaelKeySetupEnc_frame [OF assms(1)]
    by (intro nth_equalityI) (auto simp: nth_append)
  with e(1) show ?thesis by (simp add: prod_eq_iff)
qed

theorem rijndaelKeySetupEnc_words_witness:
  "rijndaelKeySetupEnc (replicate 53 0) (replicate 24 5) 192 =
    (12, map (key_word (replicate 24 5) 6) [0..<52] @ [0])"
  using rijndaelKeySetupEnc_words [of 192 "replicate 24 5" "replicate 53 0"]
  by (simp add: valid_bits_def rounds_of_def)

text \<open>
  Every entry of the ten tables is what the comment above them says: the
  S-box value times the column \<open>[02, 01, 01, 03]\<close> and its rotations in \<open>Te0\<close> .. \<open>Te3\<close>,
  the inverse S-box value times \<open>[0e, 09, 0d, 0b]\<close> and its rotations in \<open>Td0\<close> .. \<open>Td3\<close>,
  the value four times in \<open>Te4\<close> and \<open>Td4\<close>; the two S-boxes are inverse.
\<close>

theorem tables_match_comment:
  "Te0 ! unat x = col (xtime (sbox x)) (sbox x) (sbox x) (mul3 (sbox x)) \<and>
   Te1 ! unat x = col (mul3 (sbox x)) (xtime (sbox x)) (sbox x) (sbox x) \<and>
   Te2 ! unat x = col (sbox x) (mul3 (sbox x)) (xtime (sbox x)) (sbox x) \<and>
   Te3 ! unat x = col (sbox x) (sbox x) (mul3 (sbox x)) (xtime (sbox x)) \<and>
   Te4 ! unat x = col (sbox x) (sbox x) (sbox x) (sbox x) \<and>
   Td0 ! unat x = col (mule (inv_sbox x)) (mul9 (inv_sbox x)) (muld (inv_sbox x)) (mulb (inv_sbox x)) \<and>
   Td1 ! unat x = col (mulb (inv_sbox x)) (mule (inv_sbox x)) (mul9 (inv_sbox x)) (muld (inv_sbox x)) \<and>
   Td2 ! unat x = col (muld (inv_sbox x)) (mulb (inv_sbox x)) (mule (inv_sbox x)) (mul9 (inv_sbox x)) \<and>
   Td3 ! unat x = col (mul9 (inv_sbox x)) (muld (inv_sbox x)) (mulb (inv_sbox x)) (mule (inv_sbox x)) \<and>
   Td4 ! unat x = col (inv_sbox x) (inv_sbox x) (inv_sbox x) (inv_sbox x) \<and>
   inv_sbox (sbox x) = x"
  by (simp add: Te_nth Td_nth entry_defs inv_sbox_sbox)

text \<open>
  The byte stored in \<open>Te4\<close> is the S-box of the AES standard: undoing the affine
  step gives the multiplicative inverse in the field of 256 elements (and 0 for 0).
\<close>

theorem sbox_is_field_inverse:
  "gmul x (inv_affine (byte0 (Te4 ! unat x))) = (if x = 0 then 0 else 1)"
  by (rule Te4_field_inverse)

text \<open>
  For the three round numbers of the standard, the fully unrolled
  encryption and decryption compute what the loops compute.
\<close>

theorem rijndael_unroll:
  assumes "Nr = 10 \<or> Nr = 12 \<or> Nr = 14"
  shows "rijndaelEncrypt rk Nr pt ct = Some (rijndaelEncrypt_unroll rk Nr pt ct) \<and>
    rijndaelDecrypt rk Nr ct pt = Some (rijndaelDecrypt_unroll rk Nr ct pt)"
  using assms rijndaelEncrypt_foldl [of 10 4] rijndaelEncrypt_foldl [of 12 5]
    rijndaelEncrypt_foldl [of 14 6] rijndaelDecrypt_foldl [of 10 4]
    rijndaelDecrypt_foldl [of 12 5] rijndaelDecrypt_foldl [of 14 6]
  by (auto simp: rijndaelEncrypt_unroll_def rijndaelDecrypt_unroll_def enc_unrolled_def
      dec_unrolled_def Let_def upt_rec)

theorem rijndael_unroll_witness:
  "rijndaelEncrypt (replicate 52 0) 12 (replicate 16 0) (replicate 16 0) =
     Some (rijndaelEncrypt_unroll (replicate 52 0) 12 (replicate 16 0) (replicate 16 0)) \<and>
   rijndaelDecrypt (replicate 52 0) 12 (replicate 16 0) (replicate 16 0) =
     Some (rijndaelDecrypt_unroll (replicate 52 0) 12 (replicate 16 0) (replicate 16 0))"
  by (rule rijndael_unroll) simp

text \<open>
  With \<open>rounds = Nr\<close>, the functions of the intermediate-value
  section transform the block in place exactly as encryption and decryption do.
\<close>

theorem rijndael_round_functions:
  assumes N: "Nr = 2 * Suc r"
  shows "rijndaelEncrypt rk Nr block block = Some (rijndaelEncryptRound rk Nr block Nr) \<and>
    rijndaelDecrypt rk Nr block block = Some (rijndaelDecryptRound rk Nr block Nr)"
proof -
  have n: "1 + (Nr - 1) = Nr" "4 * 1 = (4 :: nat)" using N by simp_all
  note te = te_steps_eq [of "Nr - 1" rk 1, unfolded n]
  note td = td_steps_eq [of "Nr - 1" rk 1, unfolded n]
  obtain t0 t1 t2 t3 where t: "td_complete (foldl (\<lambda>s i. td_round rk (4 * i) s)
      (load_block rk block) [1..<Nr]) = (t0, t1, t2, t3)"
    by (metis prod_cases4)
  show ?thesis
    unfolding rijndaelEncrypt_foldl [OF N] rijndaelDecrypt_foldl [OF N]
      rijndaelEncryptRound_def rijndaelDecryptRound_def
    by (simp add: te td td_last_complete t del: One_nat_def)
qed

theorem rijndael_round_functions_witness:
  "rijndaelEncrypt (replicate 44 1) 10 (replicate 16 2) (replicate 16 2) =
     Some (rijndaelEncryptRound (replicate 44 1) 10 (replicate 16 2) 10) \<and>
   rijndaelDecrypt (replicate 44 1) 10 (replicate 16 2) (replicate 16 2) =
     Some (rijndaelDecryptRound (replicate 44 1) 10 (replicate 16 2) 10)"
  by (rule rijndael_round_functions [of 10 4]) simp

text \<open>
  For any other key size \<^verbatim>\<open>rijndaelKeySetupEnc\<close> returns 0
  rounds, and with 0 rounds neither encryption nor decryption leaves its loop.
\<close>

theorem rijndael_bad_key_bits:
  assumes "\<not> valid_bits keyBits"
  shows "fst (rijndaelKeySetupEnc rk key keyBits) = 0 \<and>
    rijndaelEncrypt ek (fst (rijndaelKeySetupEnc rk key keyBits)) pt ct = None \<and>
    rijndaelDecrypt ek (fst (rijndaelKeySetupEnc rk key keyBits)) ct pt = None"
  using assms
  by (simp add: rijndaelKeySetupEnc_def valid_bits_def Let_def rijndaelEncrypt_def rijndaelDecrypt_def)

theorem rijndael_bad_key_bits_witness:
  "fst (rijndaelKeySetupEnc (replicate 60 0) (replicate 32 0) 160) = 0 \<and>
   rijndaelEncrypt (replicate 60 0) (fst (rijndaelKeySetupEnc (replicate 60 0) (replicate 32 0) 160))
     (replicate 16 0) (replicate 16 0) = None \<and>
   rijndaelDecrypt (replicate 60 0) (fst (rijndaelKeySetupEnc (replicate 60 0) (replicate 32 0) 160))
     (replicate 16 0) (replicate 16 0) = None"
  by (rule rijndael_bad_key_bits) (simp add: valid_bits_def)

end
