(* ===== verification/Umac_Prim.thy ===== *)
theory Umac_Prim
  imports Rijndael_Keys
begin

section \<open>UMAC: byte order, key derivation and the pad function\<close>

text \<open>
  The first part of \<^verbatim>\<open>src/sec/umac.c\<close>: endian-aware access to memory, the AES macros over
  the Rijndael code, \<^verbatim>\<open>kdf\<close>, \<^verbatim>\<open>pdf_init\<close> and \<^verbatim>\<open>pdf_gen_xor\<close>. The build uses
  \<^verbatim>\<open>FORCE_C_ONLY\<close> and \<^verbatim>\<open>UMAC_OUTPUT_LEN = 8\<close> on a little-endian machine whose
  \<^verbatim>\<open>UWORD\<close> has 8 bytes; that configuration is modelled. A byte array is a list, an access
  through \<^verbatim>\<open>UINT32 *\<close> or \<^verbatim>\<open>UINT64 *\<close> is \<open>ld32\<close>, \<open>st32\<close>, \<open>ld64\<close>, \<open>st64\<close> at a byte
  offset.
\<close>

subsection \<open>Memory access\<close>

definition ld32 :: "u8 list \<Rightarrow> nat \<Rightarrow> u32" where
  "ld32 m k = col (m ! (k + 3)) (m ! (k + 2)) (m ! (k + 1)) (m ! k)"

definition st32 :: "u8 list \<Rightarrow> nat \<Rightarrow> u32 \<Rightarrow> u8 list" where
  "st32 m k w = m[k := byte0 w, k + 1 := byte1 w, k + 2 := byte2 w, k + 3 := byte3 w]"

definition ld64 :: "u8 list \<Rightarrow> nat \<Rightarrow> u64" where
  "ld64 m k = push_bit 32 (ucast (ld32 m (k + 4))) OR ucast (ld32 m k)"

definition st64 :: "u8 list \<Rightarrow> nat \<Rightarrow> u64 \<Rightarrow> u8 list" where
  "st64 m k w = st32 (st32 m k (ucast w)) (k + 4) (ucast (drop_bit 32 w))"

definition bswap32 :: "u32 \<Rightarrow> u32" where
  "bswap32 temp = drop_bit 24 temp OR drop_bit 8 (temp AND 0x00FF0000)
     OR push_bit 8 (temp AND 0x0000FF00) OR push_bit 24 temp"

definition LOAD_UINT32_REVERSED :: "u8 list \<Rightarrow> nat \<Rightarrow> u32" where
  "LOAD_UINT32_REVERSED m k = bswap32 (ld32 m k)"

definition STORE_UINT32_REVERSED :: "u8 list \<Rightarrow> nat \<Rightarrow> u32 \<Rightarrow> u8 list" where
  "STORE_UINT32_REVERSED m k x = st32 m k (bswap32 x)"

definition LOAD_UINT32_LITTLE :: "u8 list \<Rightarrow> nat \<Rightarrow> u32" where
  "LOAD_UINT32_LITTLE m k = ld32 m k"

definition STORE_UINT32_BIG :: "u8 list \<Rightarrow> nat \<Rightarrow> u32 \<Rightarrow> u8 list" where
  "STORE_UINT32_BIG m k x = STORE_UINT32_REVERSED m k x"

text \<open>\<^verbatim>\<open>memcpy (dst + k, src, n)\<close> with the source given from its first byte.\<close>

definition memcpy :: "u8 list \<Rightarrow> nat \<Rightarrow> u8 list \<Rightarrow> nat \<Rightarrow> u8 list" where
  "memcpy dst k src n = take k dst @ take n src @ drop (k + n) dst"

subsection \<open>AES and key derivation\<close>

abbreviation (input) AES_BLOCK_LEN :: nat where "AES_BLOCK_LEN \<equiv> 16"
abbreviation (input) UMAC_KEY_LEN :: nat where "UMAC_KEY_LEN \<equiv> 16"

definition AES_ROUNDS :: nat where
  "AES_ROUNDS = UMAC_KEY_LEN div 4 + 6"

text \<open>\<^verbatim>\<open>aes_int_key\<close> is \<open>4 * (AES_ROUNDS + 1)\<close> words; the setup overwrites all of them.\<close>

definition aes_key_setup :: "u8 list \<Rightarrow> u32 list" where
  "aes_key_setup key = snd (rijndaelKeySetupEnc (replicate (4 * (AES_ROUNDS + 1)) 0) key
     (int (UMAC_KEY_LEN * 8)))"

definition aes_encryption :: "u8 list \<Rightarrow> u8 list \<Rightarrow> u32 list \<Rightarrow> u8 list" where
  "aes_encryption inp out int_key = the (rijndaelEncrypt int_key AES_ROUNDS inp out)"

text \<open>The loop of \<^verbatim>\<open>kdf\<close>: the bytes written to the destination, block after block.\<close>

function kdf_loop :: "u8 list \<Rightarrow> u8 list \<Rightarrow> u32 list \<Rightarrow> nat \<Rightarrow> nat \<Rightarrow> u8 list" where
  "kdf_loop in_buf out_buf key i nbytes =
     (if nbytes \<ge> AES_BLOCK_LEN
      then let out_buf = aes_encryption in_buf out_buf key;
               in_buf = in_buf[AES_BLOCK_LEN - 1 := of_nat (i + 1)]
           in take AES_BLOCK_LEN out_buf
                @ kdf_loop in_buf out_buf key (i + 1) (nbytes - AES_BLOCK_LEN)
      else if nbytes \<noteq> 0
      then take nbytes (aes_encryption in_buf out_buf key)
      else [])"
  by pat_completeness auto
termination by (relation "measure (\<lambda>(a, b, c, d, n). n)") auto

declare kdf_loop.simps [simp del]

definition kdf :: "u32 list \<Rightarrow> u8 \<Rightarrow> nat \<Rightarrow> u8 list" where
  "kdf key index nbytes =
     (let in_buf = (replicate AES_BLOCK_LEN 0)
            [AES_BLOCK_LEN - 9 := index, AES_BLOCK_LEN - 1 := 1]
      in kdf_loop in_buf (replicate AES_BLOCK_LEN 0) key 1 nbytes)"

subsection \<open>The pad derivation function\<close>

record pdf_ctx =
  cache :: "u8 list"
  pnonce :: "u8 list"
  prf_key :: "u32 list"

definition pdf_init :: "u32 list \<Rightarrow> pdf_ctx" where
  "pdf_init key =
     (let pk = aes_key_setup (kdf key 0 UMAC_KEY_LEN);
          nonce = replicate AES_BLOCK_LEN 0
      in \<lparr>cache = aes_encryption nonce (replicate AES_BLOCK_LEN 0) pk,
          pnonce = nonce, prf_key = pk\<rparr>)"

text \<open>
  \<^verbatim>\<open>UMAC_OUTPUT_LEN == 8\<close>: \<^verbatim>\<open>LOW_BIT_MASK\<close> is 1 and the pad is one of the two 8-byte
  halves of the AES output.
\<close>

abbreviation (input) LOW_BIT_MASK :: u8 where "LOW_BIT_MASK \<equiv> 1"

definition pdf_gen_xor :: "pdf_ctx \<Rightarrow> u8 list \<Rightarrow> u8 list \<Rightarrow> pdf_ctx \<times> u8 list" where
  "pdf_gen_xor pc nonce buf =
     (let index = unat (nonce ! 7 AND LOW_BIT_MASK);
          tmp_nonce_lo = st32 (replicate 4 0) 0 (ld32 nonce 4);
          tmp_nonce_lo = tmp_nonce_lo[3 := tmp_nonce_lo ! 3 AND NOT LOW_BIT_MASK];
          pc = (if ld32 tmp_nonce_lo 0 \<noteq> ld32 (pnonce pc) 4 \<or> ld32 nonce 0 \<noteq> ld32 (pnonce pc) 0
                then let n = st32 (st32 (pnonce pc) 0 (ld32 nonce 0)) 4 (ld32 tmp_nonce_lo 0)
                     in pc\<lparr>pnonce := n, cache := aes_encryption n (cache pc) (prf_key pc)\<rparr>
                else pc)
      in (pc, st64 buf 0 (ld64 buf 0 XOR ld64 (cache pc) (8 * index))))"

subsection \<open>Specification\<close>

text \<open>
  \<open>aes\<close> is the block function without its output buffer; \<open>kdf_input\<close> the counter block of
  \<^verbatim>\<open>kdf\<close>; \<open>pad_of\<close> the pad a nonce determines, whatever the cache holds; \<open>pdf_inv\<close> what
  the cache keeps true.
\<close>

definition bytes_of :: "u32 \<Rightarrow> u8 list" where
  "bytes_of w = [byte0 w, byte1 w, byte2 w, byte3 w]"

definition aes :: "u32 list \<Rightarrow> u8 list \<Rightarrow> u8 list" where
  "aes key inp = aes_encryption inp (replicate 16 0) key"

definition kdf_input :: "u8 \<Rightarrow> nat \<Rightarrow> u8 list" where
  "kdf_input index i = replicate 7 0 @ [index] @ replicate 7 0 @ [of_nat i]"

definition pdf_inv :: "pdf_ctx \<Rightarrow> bool" where
  "pdf_inv pc \<longleftrightarrow> length (pnonce pc) = 16 \<and> drop 8 (pnonce pc) = replicate 8 0 \<and>
     cache pc = aes (prf_key pc) (pnonce pc)"

definition pad_input :: "u8 list \<Rightarrow> u8 list" where
  "pad_input nonce = take 7 nonce @ [nonce ! 7 AND NOT LOW_BIT_MASK] @ replicate 8 0"

definition pad_of :: "u32 list \<Rightarrow> u8 list \<Rightarrow> u8 list" where
  "pad_of key nonce = take 8 (drop (if bit (nonce ! 7) 0 then 8 else 0) (aes key (pad_input nonce)))"

subsection \<open>Memory lemmas\<close>

lemma length_st [simp]: "length (st32 m k w) = length m" "length (st64 m k v) = length m"
  by (simp_all add: st32_def st64_def)

lemma bswap32_col: "bswap32 (col a b c d) = col d c b a"
proof -
  have z: "\<not> bit x (k::nat)" if "8 \<le> k" for x :: u8 and k
    using bit_imp_le_length [of x k] that by auto
  have m: "col a b c d AND 0x00FF0000 = col 0 b 0 0" "col a b c d AND 0x0000FF00 = col 0 0 c 0"
    using col_mask [of a b c d] by simp_all
  show ?thesis
    unfolding bswap32_def m
  proof (rule bit_word_eqI)
    fix n :: nat
    consider "n < 8" | "8 \<le> n" "n < 16" | "16 \<le> n" "n < 24" | "24 \<le> n" by linarith
    moreover assume "n < LENGTH(32)"
    ultimately show "bit (drop_bit 24 (col a b c d) OR drop_bit 8 (col 0 b 0 0) OR
        push_bit 8 (col 0 0 c 0) OR push_bit 24 (col a b c d)) n = bit (col d c b a) n"
      by cases (simp_all add: bit_simps bit_col z add.commute less_diff_conv2)
  qed
qed

lemma length_bytes_of [simp]: "length (bytes_of w) = 4"
  by (simp add: bytes_of_def)

lemma st32_splice:
  assumes "k + 4 \<le> length m"
  shows "st32 m k w = take k m @ bytes_of w @ drop (k + 4) m"
  using assms
  by (intro nth_equalityI)
    (auto simp: st32_def bytes_of_def nth_list_update nth_append nth_Cons' min_def)

lemma ld32_bytes: "k + 4 \<le> length m \<Longrightarrow> bytes_of (ld32 m k) = take 4 (drop k m)"
  by (rule nth_equalityI) (auto simp: bytes_of_def ld32_def byte_simps nth_Cons' less_Suc_eq numeral_eq_Suc)

lemma bytes_of_inj: "bytes_of v = bytes_of w \<longleftrightarrow> v = w"
  by (metis bytes_of_def col_bytes list.inject)

lemma ld32_append [simp]: "ld32 (bytes_of w @ xs) 0 = w"
  by (simp add: ld32_def bytes_of_def byte_simps numeral_eq_Suc)

lemma bytes_of_xor: "bytes_of (v XOR w) = map2 (XOR) (bytes_of v) (bytes_of w)"
  by (simp add: bytes_of_def byte_xor)

lemma ld64_halves:
  "ucast (ld64 m k) = ld32 m k" "ucast (drop_bit 32 (ld64 m k)) = ld32 m (k + 4)"
  by (rule bit_word_eqI, auto simp: ld64_def bit_simps dest: bit_imp_le_length)+

lemma ucast_xor64:
  "ucast (v XOR w) = (ucast v XOR ucast w :: u32)" for v w :: u64
  by (rule bit_word_eqI) (simp add: bit_simps)

lemma take_8: "take 8 xs = take 4 xs @ take 4 (drop 4 xs)"
  using take_add [of 4 4 xs] by simp

lemma map2_xor_take_8:
  assumes "8 \<le> length xs" and "8 \<le> length ys"
  shows "map2 (XOR) (take 8 xs) (take 8 ys) =
    map2 (XOR) (take 4 xs) (take 4 ys) @ map2 (XOR) (take 4 (drop 4 xs)) (take 4 (drop 4 ys :: u8 list))"
  using assms by (simp add: take_8 zip_append)

lemma st64_xor:
  assumes "k + 8 \<le> length m" and "j + 8 \<le> length n"
  shows "st64 m k (ld64 m k XOR ld64 n j) =
    take k m @ map2 (XOR) (take 8 (drop k m)) (take 8 (drop j n)) @ drop (k + 8) m"
  using assms
  by (simp add: st64_def ucast_xor64 ld64_halves st32_splice bytes_of_xor ld32_bytes map2_xor_take_8
      add.commute)


subsection \<open>AES\<close>

lemma store_block_16:
  "length ct = 16 \<Longrightarrow> length ct' = 16 \<Longrightarrow> store_block ct s = store_block ct' s"
  by (metis blk_store_block length_store_block store_block_blk)

lemma aes_encryption_eq:
  assumes "length out = 16"
  shows "aes_encryption inp out key = aes key inp"
proof -
  have N: "AES_ROUNDS = 2 * Suc 4" by (simp add: AES_ROUNDS_def)
  show ?thesis
    using assms by (simp add: aes_def aes_encryption_def rijndaelEncrypt_cipher [OF N]
        store_block_16 [of out "replicate 16 0"])
qed

lemma length_aes [simp]: "length (aes key inp) = 16"
proof -
  have N: "AES_ROUNDS = 2 * Suc 4" by (simp add: AES_ROUNDS_def)
  show ?thesis by (simp add: aes_def aes_encryption_def rijndaelEncrypt_cipher [OF N])
qed

lemma kdf_input_update: "(kdf_input index i)[15 := of_nat j] = kdf_input index j"
  by (simp add: kdf_input_def numeral_eq_Suc)

lemma kdf_loop_eq:
  assumes "length out = 16"
  shows "kdf_loop (kdf_input index i) out key i n =
    take n (concat (map (\<lambda>j. aes key (kdf_input index j)) [i..<i + n div 16 + 1]))"
  using assms
proof (induction n arbitrary: i out rule: less_induct)
  case (less n)
  show ?case
  proof (cases "16 \<le> n")
    case False
    then show ?thesis
      by (subst kdf_loop.simps) (simp add: aes_encryption_eq less.prems)
  next
    case True
    have d: "n div 16 = Suc ((n - 16) div 16)" using True by (simp add: le_div_geq)
    have "kdf_loop (kdf_input index i) out key i n =
      aes key (kdf_input index i) @
      kdf_loop (kdf_input index (i + 1)) (aes key (kdf_input index i)) key (i + 1) (n - 16)"
      using True by (subst kdf_loop.simps)
        (simp add: Let_def aes_encryption_eq less.prems kdf_input_update flip: of_nat_Suc)
    also have "\<dots> = aes key (kdf_input index i) @
      take (n - 16) (concat (map (\<lambda>j. aes key (kdf_input index j)) [i + 1..<i + 1 + (n - 16) div 16 + 1]))"
      using True by (subst less.IH) simp_all
    also have "\<dots> = take n (concat (map (\<lambda>j. aes key (kdf_input index j)) [i..<i + n div 16 + 1]))"
      using True by (simp add: d upt_conv_Cons del: upt_Suc)
    finally show ?thesis .
  qed
qed

lemma kdf_eq:
  "kdf key index n = take n (concat (map (\<lambda>j. aes key (kdf_input index j)) [1..<n div 16 + 2]))"
proof -
  have "(replicate 16 0)[16 - 9 := index, 16 - 1 := (1 :: u8)] = kdf_input index 1"
    by (simp add: kdf_input_def numeral_eq_Suc)
  then show ?thesis
    using kdf_loop_eq [of "replicate 16 0" index 1 key n] by (simp add: kdf_def Let_def)
qed

lemma length_concat_aes: "length (concat (map (\<lambda>j. aes key (f j)) xs)) = 16 * length xs"
  by (induction xs) auto

lemma length_kdf [simp]: "length (kdf key index n) = n"
proof -
  have "n \<le> 16 * (n div 16 + 1)" by presburger
  then show ?thesis by (simp add: kdf_eq length_concat_aes min_absorb2 del: upt_Suc)
qed

lemma pdf_init_inv: "pdf_inv (pdf_init key)"
  by (simp add: pdf_init_def pdf_inv_def Let_def aes_encryption_eq)

lemma list_eq_ld32:
  assumes "length xs = 8" and "length ys = 8"
  shows "xs = ys \<longleftrightarrow> ld32 xs 0 = ld32 ys 0 \<and> ld32 xs 4 = ld32 ys 4"
proof -
  have "xs = bytes_of (ld32 xs 0) @ bytes_of (ld32 xs 4)" "ys = bytes_of (ld32 ys 0) @ bytes_of (ld32 ys 4)"
    using assms by (simp_all add: ld32_bytes)
  then show ?thesis by metis
qed


lemma length_8_cases:
  assumes "length xs = 8"
  obtains a0 a1 a2 a3 a4 a5 a6 a7 where "xs = [a0, a1, a2, a3, a4, a5, a6, a7]"
  using assms by (auto simp: numeral_eq_Suc length_Suc_conv)

lemma low_bit_index: "unat (b AND 1 :: u8) = (if bit b 0 then 1 else 0)"
  by (simp add: and_one_eq bit_0 mod_2_eq_odd)

lemma pad_halves:
  assumes "length nonce = 8"
  defines "t \<equiv> st32 (replicate 4 0) 0 (ld32 nonce 4)"
  shows "ld32 (t[3 := t ! 3 AND NOT LOW_BIT_MASK]) 0 = ld32 (pad_input nonce) 4"
    and "ld32 nonce 0 = ld32 (pad_input nonce) 0"
proof -
  obtain a0 a1 a2 a3 a4 a5 a6 a7 where n: "nonce = [a0, a1, a2, a3, a4, a5, a6, a7]"
    using assms(1) by (rule length_8_cases)
  show "ld32 (t[3 := t ! 3 AND NOT LOW_BIT_MASK]) 0 = ld32 (pad_input nonce) 4"
    "ld32 nonce 0 = ld32 (pad_input nonce) 0"
    by (simp_all add: t_def n pad_input_def ld32_def st32_def byte_simps numeral_eq_Suc)
qed

lemma pad_input_eq_iff:
  assumes "length n = 16" and "drop 8 n = replicate 8 0" and "length nonce = 8"
  shows "n = pad_input nonce \<longleftrightarrow> ld32 (pad_input nonce) 4 = ld32 n 4 \<and> ld32 (pad_input nonce) 0 = ld32 n 0"
proof -
  have l: "ld32 (take 8 m) 0 = ld32 m 0" "ld32 (take 8 m) 4 = ld32 m 4" if "8 \<le> length m" for m
    using that by (simp_all add: ld32_def)
  have p: "length (pad_input nonce) = 16" "drop 8 (pad_input nonce) = replicate 8 0"
    using assms(3) by (simp_all add: pad_input_def)
  have "n = pad_input nonce \<longleftrightarrow> take 8 n = take 8 (pad_input nonce)"
    using assms(2) p(2) by (metis append_take_drop_id)
  also have "\<dots> \<longleftrightarrow> ld32 (take 8 n) 0 = ld32 (take 8 (pad_input nonce)) 0 \<and>
      ld32 (take 8 n) 4 = ld32 (take 8 (pad_input nonce)) 4"
    using assms(1) p(1) by (intro list_eq_ld32) simp_all
  finally show ?thesis using assms(1) p(1) l by auto
qed

lemma pad_input_st32:
  assumes "length n = 16" and "drop 8 n = replicate 8 0" and "length nonce = 8"
  shows "st32 (st32 n 0 (ld32 (pad_input nonce) 0)) 4 (ld32 (pad_input nonce) 4) = pad_input nonce"
proof -
  have "length (pad_input nonce) = 16" "drop 8 (pad_input nonce) = replicate 8 0"
    using assms(3) by (simp_all add: pad_input_def)
  moreover have "pad_input nonce = take 4 (pad_input nonce) @ take 4 (drop 4 (pad_input nonce)) @ drop 8 (pad_input nonce)"
    using append_take_drop_id [of 8 "pad_input nonce"] by (simp add: take_8)
  ultimately show ?thesis
    using assms(1,2) by (simp add: st32_splice ld32_bytes)
qed

lemma pdf_gen_xor_eq:
  assumes "pdf_inv pc" and "length nonce = 8"
  defines "pc' \<equiv> pc\<lparr>pnonce := pad_input nonce, cache := aes (prf_key pc) (pad_input nonce)\<rparr>"
  shows "pdf_gen_xor pc nonce buf = (pc', st64 buf 0 (ld64 buf 0 XOR ld64 (cache pc') (8 * unat (nonce ! 7 AND LOW_BIT_MASK))))"
proof -
  have i: "length (pnonce pc) = 16" "drop 8 (pnonce pc) = replicate 8 0"
    "cache pc = aes (prf_key pc) (pnonce pc)"
    using assms(1) by (simp_all add: pdf_inv_def)
  have same: "pc = pc'" if "pnonce pc = pad_input nonce"
    using that i(3) by (simp add: pc'_def)
  show ?thesis
  proof (cases "pnonce pc = pad_input nonce")
    case True
    then show ?thesis
      using pad_input_eq_iff [OF i(1,2) assms(2)] same [OF True]
      by (simp add: pdf_gen_xor_def Let_def pad_halves [OF assms(2), simplified])
  next
    case False
    then show ?thesis
      using pad_input_eq_iff [OF i(1,2) assms(2)] i(3)
      by (simp add: pdf_gen_xor_def Let_def pad_halves [OF assms(2), simplified] pc'_def aes_encryption_eq
          pad_input_st32 [OF i(1,2) assms(2)])
  qed
qed

lemma pdf_gen_xor_correct:
  assumes "pdf_inv pc" and "length nonce = 8" and "8 \<le> length buf"
  shows "pdf_inv (fst (pdf_gen_xor pc nonce buf)) \<and>
    prf_key (fst (pdf_gen_xor pc nonce buf)) = prf_key pc \<and>
    snd (pdf_gen_xor pc nonce buf) =
      map2 (XOR) (take 8 buf) (pad_of (prf_key pc) nonce) @ drop 8 buf"
  using assms(2,3) st64_xor [of 0 buf 0 "aes (prf_key pc) (pad_input nonce)"] st64_xor [of 0 buf 8 "aes (prf_key pc) (pad_input nonce)"]
  by (simp add: pdf_gen_xor_eq [OF assms(1,2)] pdf_inv_def low_bit_index pad_of_def pad_input_def)

subsection \<open>Properties\<close>

text \<open>
  Key derivation: \<^verbatim>\<open>kdf\<close> writes exactly \<^verbatim>\<open>nbytes\<close> bytes: the AES encryptions of the
  counter blocks \<open>index || 1\<close>, \<open>index || 2\<close>, \<dots>, the last one cut off.
\<close>

theorem kdf_stream:
  "kdf key index n = take n (concat (map (\<lambda>j. aes key (kdf_input index j)) [1..<n div 16 + 2])) \<and>
   length (kdf key index n) = n"
  using kdf_eq length_kdf by blast

text \<open>
  C30 (pad cache). Whatever nonces were used before, \<^verbatim>\<open>pdf_gen_xor\<close> exclusive-ors the
  first eight bytes of the buffer with the pad the nonce determines, keeps the rest of the
  buffer and the key, and keeps the cache consistent with the nonce it is stored for.
\<close>

theorem pdf_gen_xor_pad:
  assumes "pdf_inv pc" and "length nonce = 8" and "8 \<le> length buf"
  shows "pdf_inv (fst (pdf_gen_xor pc nonce buf)) \<and>
    prf_key (fst (pdf_gen_xor pc nonce buf)) = prf_key pc \<and>
    snd (pdf_gen_xor pc nonce buf) =
      map2 (XOR) (take 8 buf) (pad_of (prf_key pc) nonce) @ drop 8 buf"
  using assms by (rule pdf_gen_xor_correct)

theorem pdf_gen_xor_pad_witness:
  "let pc = pdf_init (aes_key_setup (replicate 16 5)); nonce = [1, 2, 3, 4, 5, 6, 7, 8];
       r = pdf_gen_xor pc nonce (replicate 9 0)
   in pdf_inv (fst r) \<and> prf_key (fst r) = prf_key pc \<and>
      snd r = map2 (XOR) (take 8 (replicate 9 0)) (pad_of (prf_key pc) nonce) @ drop 8 (replicate 9 0)"
  unfolding Let_def by (rule pdf_gen_xor_pad) (simp_all add: pdf_init_inv)

end
