(* ===== verification/Hasher.thy ===== *)
theory Hasher
  imports Prelude
begin

section \<open>The contract of an incremental hash\<close>

text \<open>
  The three sequential interfaces of \<^verbatim>\<open>src/sec/umac.c\<close> (\<^verbatim>\<open>nh_update\<close> / \<^verbatim>\<open>nh_final\<close>,
  \<^verbatim>\<open>uhash_update\<close> / \<^verbatim>\<open>uhash_final\<close>, \<^verbatim>\<open>umac_update\<close> / \<^verbatim>\<open>umac_final\<close>) make the same promise:
  a context absorbs the message in pieces, and the final call yields the hash of the
  concatenation and a context that is ready for the next message. The locale states that
  contract: \<open>rep k c m\<close> says that context \<open>c\<close> under key \<open>k\<close> has absorbed \<open>m\<close> since its last
  reset, \<open>hash\<close> is the function computed, and \<open>cap\<close> bounds the message length.
\<close>

locale hasher =
  fixes upd :: "'c \<Rightarrow> 'b list \<Rightarrow> 'c" and fin :: "'c \<Rightarrow> 'c \<times> 'r"
    and rep :: "'k \<Rightarrow> 'c \<Rightarrow> 'b list \<Rightarrow> bool" and hash :: "'k \<Rightarrow> 'b list \<Rightarrow> 'r" and cap :: nat
  assumes upd_rep: "rep k c m \<Longrightarrow> length m + length x < cap \<Longrightarrow> rep k (upd c x) (m @ x)"
    and fin_hash: "rep k c m \<Longrightarrow> length m < cap \<Longrightarrow> snd (fin c) = hash k m"
    and fin_rep: "rep k c m \<Longrightarrow> length m < cap \<Longrightarrow> rep k (fst (fin c)) []"
begin

lemma foldl_upd_rep:
  "rep k c m \<Longrightarrow> length m + length (concat xs) < cap \<Longrightarrow> rep k (foldl upd c xs) (m @ concat xs)"
proof (induction xs arbitrary: c m)
  case (Cons x xs)
  then have "rep k (upd c x) (m @ x)" by (intro upd_rep) simp_all
  then show ?case using Cons.IH [of "upd c x" "m @ x"] Cons.prems by simp
qed simp

lemma streaming:
  "rep k c [] \<Longrightarrow> length (concat xs) < cap \<Longrightarrow> snd (fin (foldl upd c xs)) = hash k (concat xs)"
  using foldl_upd_rep [of k c "[]" xs] fin_hash by simp

lemma chunking_irrelevant:
  assumes "rep k c []" and "concat xs = concat ys" and "length (concat xs) < cap"
  shows "snd (fin (foldl upd c xs)) = snd (fin (foldl upd c ys))"
  using assms streaming [of k c xs] streaming [of k c ys] by simp

lemma reusable:
  "rep k c [] \<Longrightarrow> length (concat xs) < cap \<Longrightarrow> rep k (fst (fin (foldl upd c xs))) []"
  using foldl_upd_rep [of k c "[]" xs] fin_rep by simp

lemma next_message:
  assumes "rep k c []" and "length (concat xs) < cap" and "length (concat ys) < cap"
  shows "snd (fin (foldl upd (fst (fin (foldl upd c xs))) ys)) = hash k (concat ys)"
  using streaming [OF reusable [OF assms(1,2)] assms(3)] .

end

end
