(* ===== verification/Umac_NH.thy ===== *)
theory Umac_NH
  imports Umac_Prim Hasher
begin

section \<open>UMAC: the NH hash\<close>

text \<open>
  The NH section of \<^verbatim>\<open>src/sec/umac.c\<close>: the primitive \<^verbatim>\<open>nh_aux\<close> in its four C variants
  (one per \<^verbatim>\<open>UMAC_OUTPUT_LEN\<close>; the build compiles the one with two streams), the buffered
  interface \<^verbatim>\<open>nh_update\<close> / \<^verbatim>\<open>nh_final\<close> and the one-shot \<^verbatim>\<open>nh\<close>. The \<^verbatim>\<open>do ... while (--c)\<close>
  loops are recursions on \<open>c\<close>; every caller passes at least one block of 32 bytes, and
  \<open>c = 0\<close>, where the C counter would wrap, is the empty recursion. The 64-bit state words and the result are lists of \<^verbatim>\<open>STREAMS\<close> words.
\<close>

abbreviation (input) STREAMS :: nat where "STREAMS \<equiv> 2"
abbreviation (input) L1_KEY_LEN :: nat where "L1_KEY_LEN \<equiv> 1024"
abbreviation (input) L1_KEY_SHIFT :: nat where "L1_KEY_SHIFT \<equiv> 16"
abbreviation (input) L1_PAD_BOUNDARY :: nat where "L1_PAD_BOUNDARY \<equiv> 32"
abbreviation (input) HASH_BUF_BYTES :: nat where "HASH_BUF_BYTES \<equiv> 64"

definition MUL64 :: "u32 \<Rightarrow> u32 \<Rightarrow> u64" where
  "MUL64 a b = ucast a * ucast b"

record nh_ctx =
  nh_key :: "u8 list"
  nh_data :: "u8 list"
  next_data_empty :: nat
  bytes_hashed :: nat
  nh_state :: "u64 list"

text \<open>The context after the \<^verbatim>\<open>memset\<close> of \<^verbatim>\<open>uhash_init\<close>.\<close>

definition nh_zero :: nh_ctx where
  "nh_zero = \<lparr>nh_key = replicate (L1_KEY_LEN + L1_KEY_SHIFT * (STREAMS - 1)) 0, nh_data = replicate HASH_BUF_BYTES 0,
     next_data_empty = 0, bytes_hashed = 0, nh_state = replicate STREAMS 0\<rparr>"

subsection \<open>The primitive, one to four streams\<close>

primrec nh_aux_4_loop :: "nat \<Rightarrow> u8 list \<Rightarrow> nat \<Rightarrow> u8 list \<Rightarrow> nat \<Rightarrow> u64 \<Rightarrow> u64" where
  "nh_aux_4_loop 0 kp k dp d h = h"
| "nh_aux_4_loop (Suc c) kp k dp d h =
     (let d0 = LOAD_UINT32_LITTLE dp (d + 0); d1 = LOAD_UINT32_LITTLE dp (d + 4);
          d2 = LOAD_UINT32_LITTLE dp (d + 8); d3 = LOAD_UINT32_LITTLE dp (d + 12);
          d4 = LOAD_UINT32_LITTLE dp (d + 16); d5 = LOAD_UINT32_LITTLE dp (d + 20);
          d6 = LOAD_UINT32_LITTLE dp (d + 24); d7 = LOAD_UINT32_LITTLE dp (d + 28);
          k0 = ld32 kp (k + 0); k1 = ld32 kp (k + 4);
          k2 = ld32 kp (k + 8); k3 = ld32 kp (k + 12);
          k4 = ld32 kp (k + 16); k5 = ld32 kp (k + 20);
          k6 = ld32 kp (k + 24); k7 = ld32 kp (k + 28);
          h = h + MUL64 (k0 + d0) (k4 + d4);
          h = h + MUL64 (k1 + d1) (k5 + d5);
          h = h + MUL64 (k2 + d2) (k6 + d6);
          h = h + MUL64 (k3 + d3) (k7 + d7)
      in nh_aux_4_loop c kp (k + 32) dp (d + 32) h)"

definition nh_aux_4 :: "u8 list \<Rightarrow> nat \<Rightarrow> u8 list \<Rightarrow> u64 list \<Rightarrow> nat \<Rightarrow> u64 list" where
  "nh_aux_4 kp k dp hp dlen =
     [nh_aux_4_loop (dlen div 32) kp k dp 0 (hp ! 0)]"

primrec nh_aux_loop :: "nat \<Rightarrow> u8 list \<Rightarrow> nat \<Rightarrow> u8 list \<Rightarrow> nat \<Rightarrow> u32 \<Rightarrow> u32 \<Rightarrow> u32 \<Rightarrow> u32 \<Rightarrow> u64 \<Rightarrow> u64 \<Rightarrow> u64 \<times> u64" where
  "nh_aux_loop 0 kp k dp d k0 k1 k2 k3 h1 h2 = (h1, h2)"
| "nh_aux_loop (Suc c) kp k dp d k0 k1 k2 k3 h1 h2 =
     (let d0 = LOAD_UINT32_LITTLE dp (d + 0); d1 = LOAD_UINT32_LITTLE dp (d + 4);
          d2 = LOAD_UINT32_LITTLE dp (d + 8); d3 = LOAD_UINT32_LITTLE dp (d + 12);
          d4 = LOAD_UINT32_LITTLE dp (d + 16); d5 = LOAD_UINT32_LITTLE dp (d + 20);
          d6 = LOAD_UINT32_LITTLE dp (d + 24); d7 = LOAD_UINT32_LITTLE dp (d + 28);
          k4 = ld32 kp (k + 16); k5 = ld32 kp (k + 20);
          k6 = ld32 kp (k + 24); k7 = ld32 kp (k + 28);
          k8 = ld32 kp (k + 32); k9 = ld32 kp (k + 36);
          k10 = ld32 kp (k + 40); k11 = ld32 kp (k + 44);
          h1 = h1 + MUL64 (k0 + d0) (k4 + d4);
          h2 = h2 + MUL64 (k4 + d0) (k8 + d4);
          h1 = h1 + MUL64 (k1 + d1) (k5 + d5);
          h2 = h2 + MUL64 (k5 + d1) (k9 + d5);
          h1 = h1 + MUL64 (k2 + d2) (k6 + d6);
          h2 = h2 + MUL64 (k6 + d2) (k10 + d6);
          h1 = h1 + MUL64 (k3 + d3) (k7 + d7);
          h2 = h2 + MUL64 (k7 + d3) (k11 + d7)
      in nh_aux_loop c kp (k + 32) dp (d + 32) k8 k9 k10 k11 h1 h2)"

definition nh_aux :: "u8 list \<Rightarrow> nat \<Rightarrow> u8 list \<Rightarrow> u64 list \<Rightarrow> nat \<Rightarrow> u64 list" where
  "nh_aux kp k dp hp dlen =
     (case nh_aux_loop (dlen div 32) kp k dp 0 (ld32 kp (k + 0)) (ld32 kp (k + 4)) (ld32 kp (k + 8)) (ld32 kp (k + 12)) (hp ! 0) (hp ! 1) of
        (h1, h2) \<Rightarrow> [h1, h2])"

primrec nh_aux_12_loop :: "nat \<Rightarrow> u8 list \<Rightarrow> nat \<Rightarrow> u8 list \<Rightarrow> nat \<Rightarrow> u32 \<Rightarrow> u32 \<Rightarrow> u32 \<Rightarrow> u32 \<Rightarrow> u32 \<Rightarrow> u32 \<Rightarrow> u32 \<Rightarrow> u32 \<Rightarrow> u64 \<Rightarrow> u64 \<Rightarrow> u64 \<Rightarrow> u64 \<times> u64 \<times> u64" where
  "nh_aux_12_loop 0 kp k dp d k0 k1 k2 k3 k4 k5 k6 k7 h1 h2 h3 = (h1, h2, h3)"
| "nh_aux_12_loop (Suc c) kp k dp d k0 k1 k2 k3 k4 k5 k6 k7 h1 h2 h3 =
     (let d0 = LOAD_UINT32_LITTLE dp (d + 0); d1 = LOAD_UINT32_LITTLE dp (d + 4);
          d2 = LOAD_UINT32_LITTLE dp (d + 8); d3 = LOAD_UINT32_LITTLE dp (d + 12);
          d4 = LOAD_UINT32_LITTLE dp (d + 16); d5 = LOAD_UINT32_LITTLE dp (d + 20);
          d6 = LOAD_UINT32_LITTLE dp (d + 24); d7 = LOAD_UINT32_LITTLE dp (d + 28);
          k8 = ld32 kp (k + 32); k9 = ld32 kp (k + 36);
          k10 = ld32 kp (k + 40); k11 = ld32 kp (k + 44);
          k12 = ld32 kp (k + 48); k13 = ld32 kp (k + 52);
          k14 = ld32 kp (k + 56); k15 = ld32 kp (k + 60);
          h1 = h1 + MUL64 (k0 + d0) (k4 + d4);
          h2 = h2 + MUL64 (k4 + d0) (k8 + d4);
          h3 = h3 + MUL64 (k8 + d0) (k12 + d4);
          h1 = h1 + MUL64 (k1 + d1) (k5 + d5);
          h2 = h2 + MUL64 (k5 + d1) (k9 + d5);
          h3 = h3 + MUL64 (k9 + d1) (k13 + d5);
          h1 = h1 + MUL64 (k2 + d2) (k6 + d6);
          h2 = h2 + MUL64 (k6 + d2) (k10 + d6);
          h3 = h3 + MUL64 (k10 + d2) (k14 + d6);
          h1 = h1 + MUL64 (k3 + d3) (k7 + d7);
          h2 = h2 + MUL64 (k7 + d3) (k11 + d7);
          h3 = h3 + MUL64 (k11 + d3) (k15 + d7)
      in nh_aux_12_loop c kp (k + 32) dp (d + 32) k8 k9 k10 k11 k12 k13 k14 k15 h1 h2 h3)"

definition nh_aux_12 :: "u8 list \<Rightarrow> nat \<Rightarrow> u8 list \<Rightarrow> u64 list \<Rightarrow> nat \<Rightarrow> u64 list" where
  "nh_aux_12 kp k dp hp dlen =
     (case nh_aux_12_loop (dlen div 32) kp k dp 0 (ld32 kp (k + 0)) (ld32 kp (k + 4)) (ld32 kp (k + 8)) (ld32 kp (k + 12)) (ld32 kp (k + 16)) (ld32 kp (k + 20)) (ld32 kp (k + 24)) (ld32 kp (k + 28)) (hp ! 0) (hp ! 1) (hp ! 2) of
        (h1, h2, h3) \<Rightarrow> [h1, h2, h3])"

primrec nh_aux_16_loop :: "nat \<Rightarrow> u8 list \<Rightarrow> nat \<Rightarrow> u8 list \<Rightarrow> nat \<Rightarrow> u32 \<Rightarrow> u32 \<Rightarrow> u32 \<Rightarrow> u32 \<Rightarrow> u32 \<Rightarrow> u32 \<Rightarrow> u32 \<Rightarrow> u32 \<Rightarrow> u64 \<Rightarrow> u64 \<Rightarrow> u64 \<Rightarrow> u64 \<Rightarrow> u64 \<times> u64 \<times> u64 \<times> u64" where
  "nh_aux_16_loop 0 kp k dp d k0 k1 k2 k3 k4 k5 k6 k7 h1 h2 h3 h4 = (h1, h2, h3, h4)"
| "nh_aux_16_loop (Suc c) kp k dp d k0 k1 k2 k3 k4 k5 k6 k7 h1 h2 h3 h4 =
     (let d0 = LOAD_UINT32_LITTLE dp (d + 0); d1 = LOAD_UINT32_LITTLE dp (d + 4);
          d2 = LOAD_UINT32_LITTLE dp (d + 8); d3 = LOAD_UINT32_LITTLE dp (d + 12);
          d4 = LOAD_UINT32_LITTLE dp (d + 16); d5 = LOAD_UINT32_LITTLE dp (d + 20);
          d6 = LOAD_UINT32_LITTLE dp (d + 24); d7 = LOAD_UINT32_LITTLE dp (d + 28);
          k8 = ld32 kp (k + 32); k9 = ld32 kp (k + 36);
          k10 = ld32 kp (k + 40); k11 = ld32 kp (k + 44);
          k12 = ld32 kp (k + 48); k13 = ld32 kp (k + 52);
          k14 = ld32 kp (k + 56); k15 = ld32 kp (k + 60);
          k16 = ld32 kp (k + 64); k17 = ld32 kp (k + 68);
          k18 = ld32 kp (k + 72); k19 = ld32 kp (k + 76);
          h1 = h1 + MUL64 (k0 + d0) (k4 + d4);
          h2 = h2 + MUL64 (k4 + d0) (k8 + d4);
          h3 = h3 + MUL64 (k8 + d0) (k12 + d4);
          h4 = h4 + MUL64 (k12 + d0) (k16 + d4);
          h1 = h1 + MUL64 (k1 + d1) (k5 + d5);
          h2 = h2 + MUL64 (k5 + d1) (k9 + d5);
          h3 = h3 + MUL64 (k9 + d1) (k13 + d5);
          h4 = h4 + MUL64 (k13 + d1) (k17 + d5);
          h1 = h1 + MUL64 (k2 + d2) (k6 + d6);
          h2 = h2 + MUL64 (k6 + d2) (k10 + d6);
          h3 = h3 + MUL64 (k10 + d2) (k14 + d6);
          h4 = h4 + MUL64 (k14 + d2) (k18 + d6);
          h1 = h1 + MUL64 (k3 + d3) (k7 + d7);
          h2 = h2 + MUL64 (k7 + d3) (k11 + d7);
          h3 = h3 + MUL64 (k11 + d3) (k15 + d7);
          h4 = h4 + MUL64 (k15 + d3) (k19 + d7)
      in nh_aux_16_loop c kp (k + 32) dp (d + 32) k8 k9 k10 k11 k12 k13 k14 k15 h1 h2 h3 h4)"

definition nh_aux_16 :: "u8 list \<Rightarrow> nat \<Rightarrow> u8 list \<Rightarrow> u64 list \<Rightarrow> nat \<Rightarrow> u64 list" where
  "nh_aux_16 kp k dp hp dlen =
     (case nh_aux_16_loop (dlen div 32) kp k dp 0 (ld32 kp (k + 0)) (ld32 kp (k + 4)) (ld32 kp (k + 8)) (ld32 kp (k + 12)) (ld32 kp (k + 16)) (ld32 kp (k + 20)) (ld32 kp (k + 24)) (ld32 kp (k + 28)) (hp ! 0) (hp ! 1) (hp ! 2) (hp ! 3) of
        (h1, h2, h3, h4) \<Rightarrow> [h1, h2, h3, h4])"

definition nh_transform :: "nh_ctx \<Rightarrow> u8 list \<Rightarrow> nat \<Rightarrow> nh_ctx" where
  "nh_transform hc buf nbytes =
     hc\<lparr>nh_state := nh_aux (nh_key hc) (bytes_hashed hc) buf (nh_state hc) nbytes\<rparr>"

subsection \<open>Byte order of the keys\<close>

text \<open>\<^verbatim>\<open>do { ... } while (--iters)\<close> over the words of the buffer, at least one of them.\<close>

fun endian_convert4 :: "nat \<Rightarrow> u8 list \<Rightarrow> nat \<Rightarrow> u8 list" where
  "endian_convert4 0 buf p = buf"
| "endian_convert4 (Suc iters) buf p =
     endian_convert4 iters (st32 buf p (LOAD_UINT32_REVERSED buf p)) (p + 4)"

fun endian_convert8 :: "nat \<Rightarrow> u8 list \<Rightarrow> nat \<Rightarrow> u8 list" where
  "endian_convert8 0 buf p = buf"
| "endian_convert8 (Suc iters) buf p =
     (let t = LOAD_UINT32_REVERSED buf (p + 4);
          buf = st32 buf (p + 4) (LOAD_UINT32_REVERSED buf p);
          buf = st32 buf p t
      in endian_convert8 iters buf (p + 8))"

definition endian_convert :: "u8 list \<Rightarrow> nat \<Rightarrow> nat \<Rightarrow> u8 list" where
  "endian_convert buf bpw num_bytes =
     (let iters = num_bytes div bpw
      in if bpw = 4 then endian_convert4 iters buf 0
         else if bpw = 8 then endian_convert8 iters buf 0
         else buf)"

definition endian_convert_if_le :: "u8 list \<Rightarrow> nat \<Rightarrow> nat \<Rightarrow> u8 list" where
  "endian_convert_if_le x y z = endian_convert x y z"

subsection \<open>The buffered interface\<close>

definition nh_reset :: "nh_ctx \<Rightarrow> nh_ctx" where
  "nh_reset hc = hc\<lparr>bytes_hashed := 0, next_data_empty := 0, nh_state := [0, 0]\<rparr>"

definition nh_init :: "nh_ctx \<Rightarrow> u32 list \<Rightarrow> nh_ctx" where
  "nh_init hc prf =
     (let n = L1_KEY_LEN + L1_KEY_SHIFT * (STREAMS - 1);
          k = kdf prf 1 n
      in nh_reset (hc\<lparr>nh_key := endian_convert_if_le k 4 n\<rparr>))"

definition nh_update :: "nh_ctx \<Rightarrow> u8 list \<Rightarrow> nat \<Rightarrow> nh_ctx" where
  "nh_update hc buf nbytes =
     (let j = next_data_empty hc;
          (hc, buf, nbytes, j) =
            (if j + nbytes \<ge> HASH_BUF_BYTES
             then
               let (hc, buf, nbytes) =
                     (if j \<noteq> 0
                      then let i = HASH_BUF_BYTES - j;
                               hc = hc\<lparr>nh_data := memcpy (nh_data hc) j buf i\<rparr>;
                               hc = nh_transform hc (nh_data hc) HASH_BUF_BYTES
                           in (hc\<lparr>bytes_hashed := bytes_hashed hc + HASH_BUF_BYTES\<rparr>,
                               drop i buf, nbytes - i)
                      else (hc, buf, nbytes));
                   (hc, buf, nbytes) =
                     (if nbytes \<ge> HASH_BUF_BYTES
                      then let i = nbytes - nbytes mod HASH_BUF_BYTES;
                               hc = nh_transform hc buf i
                           in (hc\<lparr>bytes_hashed := bytes_hashed hc + i\<rparr>,
                               drop i buf, nbytes - i)
                      else (hc, buf, nbytes))
               in (hc, buf, nbytes, 0)
             else (hc, buf, nbytes, j))
      in hc\<lparr>nh_data := memcpy (nh_data hc) j buf nbytes, next_data_empty := j + nbytes\<rparr>)"

subsection \<open>Zero padding\<close>

text \<open>
  \<^verbatim>\<open>zero_pad\<close> writes bytes up to an 8-byte boundary, then words, then bytes; \<open>a\<close> is the
  address of the first byte of the buffer, \<open>p\<close> the offset of the pointer.
\<close>

function zero_align :: "nat \<Rightarrow> u8 list \<Rightarrow> nat \<Rightarrow> nat \<Rightarrow> u8 list \<times> nat \<times> nat" where
  "zero_align a m p nbytes =
     (if (a + p) mod 8 \<noteq> 0 then zero_align a (m[p := 0]) (p + 1) (nbytes - 1)
      else (m, p, nbytes))"
  by pat_completeness auto
termination
proof (relation "measure (\<lambda>(a, m, p, n). (8 - (a + p) mod 8) mod 8)", goal_cases)
  case (2 a m p n)
  then have "0 < (a + p) mod 8" "(a + p) mod 8 < 8" by simp_all
  then show ?case by (auto simp: mod_Suc)
qed simp

fun zero_bytes :: "nat \<Rightarrow> u8 list \<Rightarrow> nat \<Rightarrow> u8 list" where
  "zero_bytes 0 m p = m"
| "zero_bytes (Suc n) m p = zero_bytes n (m[p := 0]) (p + 1)"

function zero_words :: "u8 list \<Rightarrow> nat \<Rightarrow> nat \<Rightarrow> u8 list \<times> nat \<times> nat" where
  "zero_words m p nbytes =
     (if nbytes \<ge> 8 then zero_words (st64 m p 0) (p + 8) (nbytes - 8) else (m, p, nbytes))"
  by pat_completeness auto
termination by (relation "measure (\<lambda>(m, p, n). n)") auto

declare zero_align.simps [simp del] zero_words.simps [simp del]

definition zero_pad :: "nat \<Rightarrow> u8 list \<Rightarrow> nat \<Rightarrow> nat \<Rightarrow> u8 list" where
  "zero_pad a m p nbytes =
     (let (m, p, nbytes) =
            (if nbytes \<ge> 8
             then let (m, p, nbytes) = zero_align a m p nbytes in zero_words m p nbytes
             else (m, p, nbytes))
      in zero_bytes nbytes m p)"

text \<open>
  \<^verbatim>\<open>nh_final\<close> returns the reset context and the result; \<open>a\<close> is the address of \<^verbatim>\<open>hc->data\<close>.
\<close>

definition nh_final :: "nat \<Rightarrow> nh_ctx \<Rightarrow> nh_ctx \<times> u64 list" where
  "nh_final a hc =
     (let hc =
            (if next_data_empty hc \<noteq> 0
             then let nh_len = (next_data_empty hc + (L1_PAD_BOUNDARY - 1)) div L1_PAD_BOUNDARY
                                 * L1_PAD_BOUNDARY;
                      hc = hc\<lparr>nh_data := zero_pad a (nh_data hc) (next_data_empty hc)
                                            (nh_len - next_data_empty hc)\<rparr>;
                      hc = nh_transform hc (nh_data hc) nh_len
                  in hc\<lparr>bytes_hashed := bytes_hashed hc + next_data_empty hc\<rparr>
             else if bytes_hashed hc = 0
             then let nh_len = L1_PAD_BOUNDARY;
                      hc = hc\<lparr>nh_data := zero_pad a (nh_data hc) 0 L1_PAD_BOUNDARY\<rparr>
                  in nh_transform hc (nh_data hc) nh_len
             else hc);
          nbits = of_nat (8 * bytes_hashed hc)
      in (nh_reset hc, [nh_state hc ! 0 + nbits, nh_state hc ! 1 + nbits]))"

definition nh :: "nh_ctx \<Rightarrow> u8 list \<Rightarrow> nat \<Rightarrow> nat \<Rightarrow> u64 list" where
  "nh hc buf padded_len unpadded_len =
     (let nbits = of_nat (8 * unpadded_len)
      in nh_aux (nh_key hc) 0 buf [nbits, nbits] padded_len)"

subsection \<open>Specification\<close>

text \<open>
  One stream of NH as a sum over the 32-byte blocks of the message: \<open>nh_term\<close> is one product,
  \<open>nhs\<close> the whole stream with the key starting at byte \<open>k\<close>. \<open>nh_rep hc m\<close> relates a context to
  the bytes it has absorbed: the blocks already hashed and the bytes still in its buffer.
\<close>

definition nh_term :: "u8 list \<Rightarrow> nat \<Rightarrow> u8 list \<Rightarrow> nat \<Rightarrow> nat \<Rightarrow> u64" where
  "nh_term kp k dp d j =
     MUL64 (ld32 kp (k + 4 * j) + ld32 dp (d + 4 * j)) (ld32 kp (k + 16 + 4 * j) + ld32 dp (d + 16 + 4 * j))"

primrec nh_stream :: "nat \<Rightarrow> u8 list \<Rightarrow> nat \<Rightarrow> u8 list \<Rightarrow> nat \<Rightarrow> u64 \<Rightarrow> u64" where
  "nh_stream 0 kp k dp d h = h"
| "nh_stream (Suc c) kp k dp d h =
     nh_stream c kp (k + 32) dp (d + 32)
       (h + nh_term kp k dp d 0 + nh_term kp k dp d 1 + nh_term kp k dp d 2 + nh_term kp k dp d 3)"

definition nhs :: "u8 list \<Rightarrow> nat \<Rightarrow> u8 list \<Rightarrow> u64" where
  "nhs kp k msg = nh_stream (length msg div 32) kp k msg 0 0"

definition zfill :: "u8 list \<Rightarrow> nat \<Rightarrow> nat \<Rightarrow> u8 list" where
  "zfill m p n = take p m @ replicate n 0 @ drop (p + n) m"

definition nh_done :: "nh_ctx \<Rightarrow> u8 list \<Rightarrow> bool" where
  "nh_done hc m \<longleftrightarrow> length (nh_data hc) = 64 \<and> bytes_hashed hc = length m \<and> 64 dvd length m \<and>
     nh_state hc = [nhs (nh_key hc) 0 m, nhs (nh_key hc) 16 m]"

definition nh_rep :: "nh_ctx \<Rightarrow> u8 list \<Rightarrow> bool" where
  "nh_rep hc m \<longleftrightarrow> (\<exists>m0 t. m = m0 @ t \<and> nh_done hc m0 \<and> length t < 64 \<and>
     next_data_empty hc = length t \<and> take (length t) (nh_data hc) = t)"

definition pad32 :: "u8 list \<Rightarrow> u8 list" where
  "pad32 m = (if m = [] then replicate 32 0 else m @ replicate ((32 - length m mod 32) mod 32) 0)"

definition nh_hash :: "u8 list \<Rightarrow> u8 list \<Rightarrow> u64 list" where
  "nh_hash kp m = [nhs kp 0 (pad32 m) + of_nat (8 * length m), nhs kp 16 (pad32 m) + of_nat (8 * length m)]"

subsection \<open>The unrolled loops compute the streams\<close>

lemmas nh_step_simps = nh_term_def LOAD_UINT32_LITTLE_def Let_def

lemma nh_aux_4_loop_eq: "nh_aux_4_loop c kp k dp d h = nh_stream c kp k dp d h"
  by (induction c arbitrary: k d h) (simp_all add: nh_step_simps add.assoc)

lemma nh_aux_loop_eq:
  "nh_aux_loop c kp k dp d (ld32 kp (k + 0)) (ld32 kp (k + 4)) (ld32 kp (k + 8)) (ld32 kp (k + 12)) h1 h2 =
     (nh_stream c kp k dp d h1, nh_stream c kp (k + 16) dp d h2)"
proof (induction c arbitrary: k d h1 h2)
  case (Suc c)
  show ?case using Suc.IH [of "k + 32"] by (simp add: nh_step_simps add.assoc)
qed simp

lemma nh_aux_12_loop_eq:
  "nh_aux_12_loop c kp k dp d (ld32 kp (k + 0)) (ld32 kp (k + 4)) (ld32 kp (k + 8)) (ld32 kp (k + 12))
     (ld32 kp (k + 16)) (ld32 kp (k + 20)) (ld32 kp (k + 24)) (ld32 kp (k + 28)) h1 h2 h3 =
     (nh_stream c kp k dp d h1, nh_stream c kp (k + 16) dp d h2, nh_stream c kp (k + 32) dp d h3)"
proof (induction c arbitrary: k d h1 h2 h3)
  case (Suc c)
  show ?case using Suc.IH [of "k + 32"] by (simp add: nh_step_simps add.assoc)
qed simp

lemma nh_aux_16_loop_eq:
  "nh_aux_16_loop c kp k dp d (ld32 kp (k + 0)) (ld32 kp (k + 4)) (ld32 kp (k + 8)) (ld32 kp (k + 12))
     (ld32 kp (k + 16)) (ld32 kp (k + 20)) (ld32 kp (k + 24)) (ld32 kp (k + 28)) h1 h2 h3 h4 =
     (nh_stream c kp k dp d h1, nh_stream c kp (k + 16) dp d h2, nh_stream c kp (k + 32) dp d h3,
      nh_stream c kp (k + 48) dp d h4)"
proof (induction c arbitrary: k d h1 h2 h3 h4)
  case (Suc c)
  show ?case using Suc.IH [of "k + 32"] by (simp add: nh_step_simps add.assoc)
qed simp

lemma nh_aux_eq:
  "nh_aux kp k dp hp dlen = [nh_stream (dlen div 32) kp k dp 0 (hp ! 0),
     nh_stream (dlen div 32) kp (k + 16) dp 0 (hp ! 1)]"
  unfolding nh_aux_def nh_aux_loop_eq by simp

lemma nh_stream_add: "nh_stream c kp k dp d (h + x) = nh_stream c kp k dp d h + x"
proof (induction c arbitrary: k d h)
  case (Suc c)
  have e: "h + x + t0 + t1 + t2 + t3 = (h + t0 + t1 + t2 + t3) + x" for t0 t1 t2 t3 :: u64
    by (simp add: ac_simps)
  show ?case unfolding nh_stream.simps e Suc.IH ..
qed simp

lemma nh_stream_split:
  "nh_stream (a + b) kp k dp d h = nh_stream b kp (k + 32 * a) dp (d + 32 * a) (nh_stream a kp k dp d h)"
  by (induction a arbitrary: k d h) (simp_all add: ac_simps)

lemma ld32_drop: "ld32 (xs @ dp) (length xs + k) = ld32 dp k"
  by (simp add: ld32_def nth_append)

lemma ld32_prefix: "k + 4 \<le> length xs \<Longrightarrow> ld32 (xs @ ys) k = ld32 xs k"
  by (simp add: ld32_def nth_append)

lemma nh_stream_drop: "nh_stream c kp k (xs @ dp) (length xs + d) h = nh_stream c kp k dp d h"
proof (induction c arbitrary: k d h)
  case (Suc c)
  have "nh_term kp k (xs @ dp) (length xs + d) j = nh_term kp k dp d j" for j
    using ld32_drop [of xs dp "d + 4 * j"] ld32_drop [of xs dp "d + 16 + 4 * j"]
    by (simp add: nh_term_def add.assoc)
  then show ?case using Suc.IH [of "k + 32" "d + 32"] by (simp add: add.assoc)
qed simp

lemma nh_stream_prefix:
  "d + 32 * c \<le> length xs \<Longrightarrow> nh_stream c kp k (xs @ ys) d h = nh_stream c kp k xs d h"
proof (induction c arbitrary: k d h)
  case (Suc c)
  then have "nh_term kp k (xs @ ys) d j = nh_term kp k xs d j" if "j < 4" for j
    using that by (simp add: nh_term_def ld32_prefix)
  then show ?case using Suc by simp
qed simp

lemma nh_stream_take:
  "32 * c \<le> n \<Longrightarrow> n \<le> length dp \<Longrightarrow> nh_stream c kp k (take n dp) 0 h = nh_stream c kp k dp 0 h"
  using nh_stream_prefix [of 0 c "take n dp" kp k "drop n dp" h] by simp

lemma nhs_append:
  assumes "32 dvd length xs" and "32 dvd n" and "n \<le> length ys"
  shows "nhs kp k (xs @ take n ys) = nh_stream (n div 32) kp (k + length xs) ys 0 (nhs kp k xs)"
proof -
  obtain a b where a: "length xs = 32 * a" and b: "n = 32 * b"
    using assms by (auto elim!: dvdE)
  have l: "length (xs @ take n ys) div 32 = a + b" using a b assms(3) by simp
  have "nhs kp k (xs @ take n ys) =
    nh_stream b kp (k + 32 * a) (xs @ take n ys) (0 + 32 * a) (nh_stream a kp k (xs @ take n ys) 0 0)"
    unfolding nhs_def l by (rule nh_stream_split)
  then show ?thesis
    using nh_stream_drop [of b kp "k + 32 * a" xs "take n ys" 0] a b assms(3)
    by (simp add: nh_stream_prefix nhs_def nh_stream_take)
qed

lemma nhs_append':
  "32 dvd length xs \<Longrightarrow> 32 dvd length ys \<Longrightarrow>
   nhs kp k (xs @ ys) = nh_stream (length ys div 32) kp (k + length xs) ys 0 (nhs kp k xs)"
  using nhs_append [of xs "length ys" ys] by simp

lemma zfill_0: "zfill m p 0 = m"
  by (simp add: zfill_def)

lemma length_zfill: "p + n \<le> length m \<Longrightarrow> length (zfill m p n) = length m"
  by (simp add: zfill_def)

lemma nth_zfill:
  "p + n \<le> length m \<Longrightarrow> i < length m \<Longrightarrow> zfill m p n ! i = (if p \<le> i \<and> i < p + n then 0 else m ! i)"
  by (auto simp: zfill_def nth_append)

lemma zfill_Suc:
  "p + n < length m \<Longrightarrow> (zfill m p n)[p + n := 0] = zfill m p (Suc n)"
  by (rule nth_equalityI) (auto simp: length_zfill nth_zfill nth_list_update)

lemma zfill_8:
  assumes "p + n + 8 \<le> length m"
  shows "st64 (zfill m p n) (p + n) 0 = zfill m p (n + 8)"
proof -
  have b: "byte0 0 = 0" "byte1 0 = 0" "byte2 0 = 0" "byte3 0 = 0"
    by (simp_all add: byte0_def byte1_def byte2_def byte3_def)
  show ?thesis
    using assms
    by (intro nth_equalityI)
      (auto simp: st64_def st32_def b length_zfill nth_zfill nth_list_update)
qed

lemma zero_bytes_zfill:
  "p + t + n \<le> length m \<Longrightarrow> zero_bytes n (zfill m p t) (p + t) = zfill m p (t + n)"
proof (induction n arbitrary: t)
  case (Suc n)
  then show ?case using Suc.IH [of "Suc t"] by (simp add: zfill_Suc)
qed simp

lemma zero_words_zfill:
  assumes "p + t + n \<le> length m"
  shows "\<exists>t' n'. zero_words (zfill m p t) (p + t) n = (zfill m p t', p + t', n') \<and> t' + n' = t + n"
  using assms
proof (induction n arbitrary: t rule: less_induct)
  case (less n)
  show ?case
  proof (cases "8 \<le> n")
    case True
    then show ?thesis
      using less.IH [of "n - 8" "t + 8"] less.prems
      by (subst zero_words.simps) (auto simp: zfill_8 add.assoc)
  next
    case False
    then show ?thesis by (subst zero_words.simps) auto
  qed
qed

lemma zero_align_zfill:
  assumes "p + t + n \<le> length m" and "(8 - (a + p + t) mod 8) mod 8 \<le> n"
  shows "\<exists>t' n'. zero_align a (zfill m p t) (p + t) n = (zfill m p t', p + t', n') \<and> t' + n' = t + n"
  using assms
proof (induction n arbitrary: t)
  case 0
  then have "(a + (p + t)) mod 8 = 0" by (cases "(a + p + t) mod 8 = 0") (auto simp: add.assoc)
  then show ?case by (subst zero_align.simps) auto
next
  case (Suc n)
  show ?case
  proof (cases "(a + (p + t)) mod 8 = 0")
    case True
    then show ?thesis by (subst zero_align.simps) auto
  next
    case False
    then have "(8 - (a + p + Suc t) mod 8) mod 8 \<le> n"
      using Suc.prems(2) by (auto simp: mod_Suc add.assoc)
    then show ?thesis
      using Suc.IH [of "Suc t"] Suc.prems(1) False by (subst zero_align.simps) (simp add: zfill_Suc)
  qed
qed

lemma zero_pad_eq:
  assumes "p + n \<le> length m"
  shows "zero_pad a m p n = take p m @ replicate n 0 @ drop (p + n) m"
proof (cases "8 \<le> n")
  case False
  then show ?thesis
    using zero_bytes_zfill [of p 0 n m] assms by (simp add: zero_pad_def zfill_0 zfill_def)
next
  case True
  have "(8 - (a + p + 0) mod 8) mod 8 < 8" by simp
  with True have r: "(8 - (a + p + 0) mod 8) mod 8 \<le> n" by linarith
  obtain t1 n1 where 1: "zero_align a m p n = (zfill m p t1, p + t1, n1)" "t1 + n1 = n"
    using zero_align_zfill [of p 0 n m a, OF _ r] assms by (auto simp: zfill_0)
  obtain t2 n2 where 2: "zero_words (zfill m p t1) (p + t1) n1 = (zfill m p t2, p + t2, n2)" "t2 + n2 = n"
    using zero_words_zfill [of p t1 n1 m] assms 1(2) by auto
  show ?thesis
    using True 1 2 assms zero_bytes_zfill [of p t2 n2 m] by (simp add: zero_pad_def zfill_def)
qed

lemma nh_key_transform [simp]:
  "nh_key (nh_transform hc buf n) = nh_key hc" "nh_data (nh_transform hc buf n) = nh_data hc"
  "bytes_hashed (nh_transform hc buf n) = bytes_hashed hc"
  "next_data_empty (nh_transform hc buf n) = next_data_empty hc"
  by (simp_all add: nh_transform_def)

lemma nh_key_ops [simp]:
  "nh_key (nh_reset hc) = nh_key hc" "nh_key (nh_update hc buf n) = nh_key hc"
  "nh_key (fst (nh_final a hc)) = nh_key hc"
  by (simp_all add: nh_reset_def nh_update_def nh_final_def Let_def)

lemma dvd_64_32: "64 dvd n \<Longrightarrow> 32 dvd (n :: nat)"
  by (rule dvd_trans [of _ 64]) simp_all

lemma nh_done_transform:
  assumes "nh_done hc m" and "64 dvd i" and "i \<le> length buf"
  shows "nh_done ((nh_transform hc buf i)\<lparr>bytes_hashed := bytes_hashed hc + i\<rparr>) (m @ take i buf)"
  using assms nhs_append [of m i buf "nh_key hc"]
  by (simp add: nh_done_def nh_transform_def nh_aux_eq dvd_64_32 add.commute)

lemma nh_rep_tail:
  assumes "nh_done hc m" and "n \<le> length buf" and "n < 64"
  shows "nh_rep (hc\<lparr>nh_data := memcpy (nh_data hc) 0 buf n, next_data_empty := n\<rparr>) (m @ take n buf)"
  unfolding nh_rep_def
  using assms by (intro exI [of _ m] exI [of _ "take n buf"]) (auto simp: nh_done_def memcpy_def)

lemma nh_rep_blocks:
  assumes "nh_done hc m" and "n \<le> length buf" and that: "take n0 buf0 = take n buf"
  shows "case (if 64 \<le> n then let i = n - n mod 64; hc = nh_transform hc buf i
        in (hc\<lparr>bytes_hashed := bytes_hashed hc + i\<rparr>, drop i buf, n - i) else (hc, buf, n)) of
      (hc, buf, n) \<Rightarrow> nh_rep (hc\<lparr>nh_data := memcpy (nh_data hc) 0 buf n, next_data_empty := n\<rparr>)
    (m @ take n0 buf0)"
proof (cases "64 \<le> n")
  case False
  then show ?thesis using assms nh_rep_tail [of hc m n buf] that by simp
next
  case True
  let ?i = "n - n mod 64"
  have i: "64 dvd ?i" "?i \<le> length buf" using assms(2) by (simp_all add: minus_mod_eq_mult_div)
  have "n - ?i < 64" by simp
  then show ?thesis
    using nh_rep_tail [OF nh_done_transform [OF assms(1) i], of "n - ?i" "drop ?i buf"] assms(2) True that
      take_add [of ?i "n - ?i" buf]
    by (simp add: Let_def)
qed

lemma nh_update_rep:
  assumes rep: "nh_rep hc m" and n: "n \<le> length buf"
  shows "nh_rep (nh_update hc buf n) (m @ take n buf)"
proof -
  obtain m0 t where m: "m = m0 @ t" and d: "nh_done hc m0" and t: "length t < 64"
    "next_data_empty hc = length t" "take (length t) (nh_data hc) = t"
    using rep by (auto simp: nh_rep_def)
  have l: "length (nh_data hc) = 64" using d by (simp add: nh_done_def)
  show ?thesis
  proof (cases "64 \<le> length t + n")
    case False
    have "take (length t + n) (memcpy (nh_data hc) (length t) buf n) = t @ take n buf"
      using t(3) l n False by (simp add: memcpy_def)
    with False d t m n show ?thesis
      unfolding nh_rep_def
      by (rule_tac x = m0 in exI, rule_tac x = "t @ take n buf" in exI)
        (simp add: nh_update_def nh_done_def memcpy_def Let_def)
  next
    case True
    let ?i = "64 - length t"
    define hc1 where "hc1 = (if t = [] then hc
      else (nh_transform (hc\<lparr>nh_data := t @ take ?i buf\<rparr>) (t @ take ?i buf) 64)\<lparr>bytes_hashed := bytes_hashed hc + 64\<rparr>)"
    define i where "i = (if t = [] then 0 else ?i)"
    have "nh_done (hc\<lparr>nh_data := t @ take ?i buf\<rparr>) m0"
      using d True t n by (simp add: nh_done_def)
    then have d1: "nh_done hc1 (m0 @ t @ take i buf)"
      using d nh_done_transform [of "hc\<lparr>nh_data := t @ take ?i buf\<rparr>" m0 64 "t @ take ?i buf"] True t n
      by (simp add: hc1_def i_def)
    have up: "nh_update hc buf n = (case (if 64 \<le> n - i then let j = (n - i) - (n - i) mod 64; hc = nh_transform hc1 (drop i buf) j
        in (hc\<lparr>bytes_hashed := bytes_hashed hc + j\<rparr>, drop j (drop i buf), n - i - j) else (hc1, drop i buf, n - i)) of
      (hc, buf, n) \<Rightarrow> hc\<lparr>nh_data := memcpy (nh_data hc) 0 buf n, next_data_empty := n\<rparr>)"
      using True t l by (simp add: nh_update_def hc1_def i_def Let_def memcpy_def split: if_split)
    have i: "i \<le> n" using True by (auto simp: i_def)
    have "take n buf = take i buf @ take (n - i) (drop i buf)"
      using i take_add [of i "n - i" buf] by simp
    then show ?thesis
      using nh_rep_blocks [OF d1 _ refl, of "n - i" "drop i buf"] n
      unfolding up m by (simp add: case_prod_unfold diff_le_mono)
  qed
qed

lemma nh_reset_rep: "length (nh_data hc) = 64 \<Longrightarrow> nh_rep (nh_reset hc) []"
  by (simp add: nh_rep_def nh_done_def nh_reset_def nhs_def)

lemma round_up_32: "(n + 31) div 32 * 32 = n + (32 - n mod 32) mod (32 :: nat)"
proof -
  define q r where "q = n div 32" and "r = n mod 32"
  have n: "n = 32 * q + r" "r < 32" by (simp_all add: q_def r_def)
  have "(r + 31) div 32 = (if r = 0 then 0 else 1)"
    using n(2) by (auto intro: div_nat_eqI)
  then have "(n + 31) div 32 = q + (if r = 0 then 0 else 1)"
    unfolding n(1) by (simp add: add.assoc)
  moreover have "(32 - r) mod 32 = (if r = 0 then 0 else 32 - r)" using n(2) by auto
  ultimately show ?thesis using n(2) unfolding r_def [symmetric] by (simp add: n(1))
qed

lemma pad32_length: "32 dvd length (pad32 m)" "length m \<le> length (pad32 m)" "pad32 m \<noteq> []"
proof -
  have "32 dvd (length m + (32 - length m mod 32) mod 32)"
    by (simp flip: round_up_32)
  then show "32 dvd length (pad32 m)" by (simp add: pad32_def)
qed (simp_all add: pad32_def)

lemma nh_final_rep:
  assumes rep: "nh_rep hc m"
  shows "snd (nh_final a hc) = [nhs (nh_key hc) 0 (pad32 m) + of_nat (8 * length m),
      nhs (nh_key hc) 16 (pad32 m) + of_nat (8 * length m)]"
    and "nh_rep (fst (nh_final a hc)) []"
proof -
  obtain m0 t where m: "m = m0 @ t" and d: "nh_done hc m0" and t: "length t < 64"
    "next_data_empty hc = length t" "take (length t) (nh_data hc) = t"
    using rep by (auto simp: nh_rep_def)
  have l: "length (nh_data hc) = 64" "bytes_hashed hc = length m0" "64 dvd length m0"
    "nh_state hc = [nhs (nh_key hc) 0 m0, nhs (nh_key hc) 16 m0]"
    using d by (simp_all add: nh_done_def)
  let ?z = "(32 - length t mod 32) mod 32"
  have z: "length t + ?z \<le> 64" "32 dvd (length t + ?z)"
  proof -
    have "(length t + 31) div 32 < 3" using t(1) by (intro less_mult_imp_div_less) simp
    then have "(length t + 31) div 32 \<le> 2" by simp
    then show "length t + ?z \<le> 64" "32 dvd (length t + ?z)"
      by (simp_all flip: round_up_32)
  qed
  have tm: "length m mod 32 = length t mod 32"
    using dvd_64_32 [OF l(3)] m by (auto elim: dvdE)
  have zp: "zero_pad a (nh_data hc) (length t) ?z = t @ replicate ?z 0 @ drop (length t + ?z) (nh_data hc)"
    using zero_pad_eq [of "length t" ?z "nh_data hc" a] z(1) l(1) t(3) by simp
  show "snd (nh_final a hc) = [nhs (nh_key hc) 0 (pad32 m) + of_nat (8 * length m),
      nhs (nh_key hc) 16 (pad32 m) + of_nat (8 * length m)]"
  proof (cases "t = []")
    case False
    have p: "pad32 m = m0 @ take (length t + ?z) (t @ replicate ?z 0 @ drop (length t + ?z) (nh_data hc))"
      using False m tm by (simp add: pad32_def)
    have "nhs (nh_key hc) k (pad32 m) = nh_stream ((length t + ?z) div 32) (nh_key hc) (k + length m0)
        (t @ replicate ?z 0 @ drop (length t + ?z) (nh_data hc)) 0 (nhs (nh_key hc) k m0)" for k
      unfolding p using z l dvd_64_32 by (intro nhs_append) auto
    then show ?thesis
      using False t(2) l zp m
      by (simp add: nh_final_def Let_def nh_transform_def nh_aux_eq round_up_32 add.commute)
  next
    case True
    then have p: "m0 \<noteq> [] \<Longrightarrow> pad32 m = m0" "m0 = [] \<Longrightarrow> pad32 m = replicate 32 0"
      using m dvd_64_32 [OF l(3)] by (auto simp: pad32_def)
    have e: "nh_stream (Suc 0) (nh_key hc) k (replicate 32 0 @ drop 32 (nh_data hc)) 0 0 =
        nhs (nh_key hc) k (replicate 32 0)" for k
      using nh_stream_prefix [of 0 "Suc 0" "replicate 32 0"] by (simp add: nhs_def del: nh_stream.simps)
    show ?thesis
      using True t(2) l m p zero_pad_eq [of 0 32 "nh_data hc" a]
      by (cases "m0 = []")
        (auto simp: nh_final_def Let_def nh_transform_def nh_aux_eq e nhs_def simp del: nh_stream.simps(2))
  qed
  show "nh_rep (fst (nh_final a hc)) []"
    using l t zp zero_pad_eq [of 0 32 "nh_data hc" a] z(1)
    by (auto simp: nh_final_def Let_def round_up_32 intro!: nh_reset_rep)
qed

lemma nh_eq:
  assumes "n \<le> length buf" and "32 dvd n"
  shows "nh hc buf n u = [nhs (nh_key hc) 0 (take n buf) + of_nat (8 * u),
    nhs (nh_key hc) 16 (take n buf) + of_nat (8 * u)]"
  using assms nh_stream_take [of "n div 32" n buf]
    nh_stream_add [of "n div 32" "nh_key hc" _ buf 0 0 "of_nat (8 * u)"]
  by (simp add: nh_def nh_aux_eq nhs_def Let_def)

lemma nh_stream_key_prefix:
  "k + 32 * c \<le> length kp \<Longrightarrow> nh_stream c (kp @ ys) k dp d h = nh_stream c kp k dp d h"
proof (induction c arbitrary: k d h)
  case (Suc c)
  then have "nh_term (kp @ ys) k dp d j = nh_term kp k dp d j" if "j < 4" for j
    using that by (simp add: nh_term_def ld32_prefix)
  then show ?case using Suc by simp
qed simp

subsection \<open>NH as an incremental hash\<close>

interpretation nhi: hasher "\<lambda>hc x. nh_update hc x (length x)" "nh_final a"
  "\<lambda>kp hc m. nh_key hc = kp \<and> nh_rep hc m" nh_hash 1025 for a
proof
  fix kp hc m x
  assume "nh_key hc = kp \<and> nh_rep hc m"
  then show "nh_key (nh_update hc x (length x)) = kp \<and> nh_rep (nh_update hc x (length x)) (m @ x)"
    using nh_update_rep [of hc m "length x" x] by simp
qed (simp_all add: nh_final_rep nh_hash_def)

lemma nh_init_rep: "length (nh_data hc) = 64 \<Longrightarrow> nh_rep (nh_init hc prf) []"
  unfolding nh_init_def Let_def by (rule nh_reset_rep) simp

lemma nh_padded:
  "length m \<le> n \<Longrightarrow> take (length (pad32 m)) buf = pad32 m \<Longrightarrow> length (pad32 m) \<le> length buf \<Longrightarrow>
   nh hc buf (length (pad32 m)) (length m) = nh_hash (nh_key hc) m"
  by (simp add: nh_eq pad32_length nh_hash_def)

text \<open>
  the four variants of \<^verbatim>\<open>nh_aux\<close> (for tags of 4, 8, 12 and 16 bytes), with their rotating
  registers, compute the same NH streams: stream \<open>i\<close> is the plain sum of products over the
  32-byte blocks under the key shifted by \<open>16 * i\<close> bytes, added to its initial state word.
\<close>

theorem nh_aux_variants:
  "nh_aux_4 kp k dp hp n = map (\<lambda>i. nh_stream (n div 32) kp (k + 16 * i) dp 0 (hp ! i)) [0..<1] \<and>
   nh_aux kp k dp hp n = map (\<lambda>i. nh_stream (n div 32) kp (k + 16 * i) dp 0 (hp ! i)) [0..<2] \<and>
   nh_aux_12 kp k dp hp n = map (\<lambda>i. nh_stream (n div 32) kp (k + 16 * i) dp 0 (hp ! i)) [0..<3] \<and>
   nh_aux_16 kp k dp hp n = map (\<lambda>i. nh_stream (n div 32) kp (k + 16 * i) dp 0 (hp ! i)) [0..<4]"
  unfolding nh_aux_4_def nh_aux_def nh_aux_12_def nh_aux_16_def
    nh_aux_4_loop_eq nh_aux_loop_eq nh_aux_12_loop_eq nh_aux_16_loop_eq
  by (simp add: upt_rec numeral_2_eq_2 numeral_3_eq_3)

text \<open>
  \<^verbatim>\<open>nh_aux\<close> reads no key byte beyond \<open>k + dlen + 16\<close> and no data byte beyond \<open>dlen\<close>: what lies
  behind them in memory does not change the result.
\<close>

theorem nh_aux_in_bounds:
  assumes "k + dlen + 16 \<le> length kp" and "dlen \<le> length dp"
  shows "nh_aux (kp @ kt) k (dp @ dt) hp dlen = nh_aux kp k dp hp dlen"
proof -
  have "32 * (dlen div 32) \<le> dlen" by simp
  then have "k + 32 * (dlen div 32) \<le> length kp" "k + 16 + 32 * (dlen div 32) \<le> length kp"
    "0 + 32 * (dlen div 32) \<le> length dp"
    using assms by linarith+
  then show ?thesis by (simp add: nh_aux_eq nh_stream_key_prefix nh_stream_prefix)
qed

theorem nh_aux_in_bounds_witness:
  "nh_aux (replicate 48 1 @ [7]) 0 (replicate 32 2 @ [9]) [0, 0] 32 =
    nh_aux (replicate 48 1) 0 (replicate 32 2) [0, 0] 32"
  by (rule nh_aux_in_bounds) simp_all

text \<open>
  \<^verbatim>\<open>zero_pad\<close>, which stores single bytes up to an 8-byte boundary, then whole words, then
  the remaining bytes, zeroes exactly the \<open>n\<close> bytes at offset \<open>p\<close>, whatever the address \<open>a\<close> of the
  buffer, and changes nothing else.
\<close>

theorem zero_pad_fills:
  assumes "p + n \<le> length m"
  shows "zero_pad a m p n = take p m @ replicate n 0 @ drop (p + n) m"
  using assms by (rule zero_pad_eq)

theorem zero_pad_fills_witness: "zero_pad 3 (replicate 20 1) 2 17 = [1, 1] @ replicate 17 0 @ [1]"
  using zero_pad_fills [of 2 17 "replicate 20 1" 3] by (simp add: numeral_eq_Suc)

text \<open>
  The sequential NH interface computes the one-shot \<^verbatim>\<open>nh\<close>: after \<^verbatim>\<open>nh_init\<close>, feeding a
  message of at most \<^verbatim>\<open>L1_KEY_LEN\<close> bytes in pieces of any sizes through \<^verbatim>\<open>nh_update\<close> and calling
  \<^verbatim>\<open>nh_final\<close> gives what \<^verbatim>\<open>nh\<close> gives on the zero-padded message at once.
\<close>

theorem nh_sequential_one_shot:
  assumes "length (nh_data hc0) = 64" and "length (concat xs) \<le> L1_KEY_LEN"
  shows "snd (nh_final a (foldl (\<lambda>hc x. nh_update hc x (length x)) (nh_init hc0 prf) xs)) =
    nh (nh_init hc0 prf) (pad32 (concat xs)) (length (pad32 (concat xs))) (length (concat xs))"
  using nhi.streaming [where c = "nh_init hc0 prf" and xs = xs and a = a] nh_init_rep [OF assms(1)] assms
  by (simp add: nh_padded)

theorem nh_sequential_one_shot_witness:
  "snd (nh_final 0 (foldl (\<lambda>hc x. nh_update hc x (length x)) (nh_init nh_zero (replicate 44 0))
      [replicate 70 1, [2, 3]])) =
    nh (nh_init nh_zero (replicate 44 0)) (pad32 (replicate 70 1 @ [2, 3])) 96 72"
  using nh_sequential_one_shot [of nh_zero "[replicate 70 1, [2, 3]]" 0 "replicate 44 0"]
  by (simp add: pad32_def nh_zero_def)

end
