(* ===== verification/Umac_Poly.thy ===== *)
theory Umac_Poly
  imports Umac_NH
begin

section \<open>UMAC: polynomial and inner-product hash arithmetic\<close>

text \<open>
  The word arithmetic of the second and third hash layer of \<^verbatim>\<open>src/sec/umac.c\<close>:
  \<^verbatim>\<open>poly64\<close>, \<^verbatim>\<open>ip_aux\<close> and the division-free reduction \<^verbatim>\<open>ip_reduce_p36\<close>, on 64-bit words
  that wrap around, and the proof that they compute in the integers modulo
  \<open>2^64 - 59\<close> and \<open>2^36 - 5\<close>.
\<close>

abbreviation (input) p36 :: u64 where "p36 \<equiv> 0x0000000FFFFFFFFB"
abbreviation (input) p64 :: u64 where "p64 \<equiv> 0xFFFFFFFFFFFFFFC5"
abbreviation (input) m36 :: u64 where "m36 \<equiv> 0x0000000FFFFFFFFF"

definition poly64 :: "u64 \<Rightarrow> u64 \<Rightarrow> u64 \<Rightarrow> u64" where
  "poly64 cur key data =
     (let key_hi = ucast (drop_bit 32 key) :: u32; key_lo = ucast key :: u32;
          cur_hi = ucast (drop_bit 32 cur) :: u32; cur_lo = ucast cur :: u32;
          X = MUL64 key_hi cur_lo + MUL64 cur_hi key_lo;
          x_lo = ucast X :: u32; x_hi = ucast (drop_bit 32 X) :: u32;
          res = (MUL64 key_hi cur_hi + ucast x_hi) * 59 + MUL64 key_lo cur_lo;
          T = push_bit 32 (ucast x_lo);
          res = res + T;
          res = (if res < T then res + 59 else res);
          res = res + data
      in if res < data then res + 59 else res)"

definition ip_aux :: "u64 \<Rightarrow> u64 list \<Rightarrow> nat \<Rightarrow> u64 \<Rightarrow> u64" where
  "ip_aux t ipkp k data =
     (let t = t + ipkp ! k * ucast (ucast (drop_bit 48 data) :: u16);
          t = t + ipkp ! (k + 1) * ucast (ucast (drop_bit 32 data) :: u16);
          t = t + ipkp ! (k + 2) * ucast (ucast (drop_bit 16 data) :: u16)
      in t + ipkp ! (k + 3) * ucast (ucast data :: u16))"

definition ip_reduce_p36 :: "u64 \<Rightarrow> u32" where
  "ip_reduce_p36 t =
     (let ret = (t AND m36) + 5 * drop_bit 36 t;
          ret = (if ret \<ge> p36 then ret - p36 else ret)
      in ucast ret)"

subsection \<open>Specification over the natural numbers\<close>

definition P36 :: nat where "P36 = 2 ^ 36 - 5"
definition P64 :: nat where "P64 = 2 ^ 64 - 59"

text \<open>The domain \<^verbatim>\<open>uhash_init\<close> masks the polynomial keys to.\<close>

definition poly_key_ok :: "u64 \<Rightarrow> bool" where
  "poly_key_ok key \<longleftrightarrow> unat key mod 2 ^ 32 < 2 ^ 25 \<and> unat key div 2 ^ 32 < 2 ^ 25"

text \<open>The 16-bit digits of a 64-bit word, most significant first, times the keys.\<close>

definition ip_sum :: "u64 list \<Rightarrow> nat \<Rightarrow> u64 \<Rightarrow> nat" where
  "ip_sum ipkp k data =
     unat (ipkp ! k) * (unat data div 2 ^ 48)
     + unat (ipkp ! (k + 1)) * (unat data div 2 ^ 32 mod 2 ^ 16)
     + unat (ipkp ! (k + 2)) * (unat data div 2 ^ 16 mod 2 ^ 16)
     + unat (ipkp ! (k + 3)) * (unat data mod 2 ^ 16)"

subsection \<open>Words as natural numbers\<close>

lemma unat_less64: "unat (x :: u64) < 2 ^ 64"
  using unsigned_less [of x, where 'a = nat] by simp

lemma unat_hi32: "unat (ucast (drop_bit 32 x) :: u32) = unat (x :: u64) div 2 ^ 32"
proof -
  have "unat x div 2 ^ 32 < 2 ^ 32" using unat_less64 [of x] by (simp add: less_mult_imp_div_less)
  then show ?thesis
    by (simp add: unsigned_ucast_eq unat_drop_bit_eq drop_bit_eq_div take_bit_eq_mod unat_div)
qed

lemma unat_hi32_mod: "unat (drop_bit 32 x) mod 2 ^ 32 = unat (x :: u64) div 2 ^ 32"
  using unat_hi32 [of x] by (simp add: unsigned_ucast_eq take_bit_eq_mod)

lemma unat_lo32: "unat (ucast x :: u32) = unat (x :: u64) mod 2 ^ 32"
  by (simp add: unsigned_ucast_eq take_bit_eq_mod)

lemma unat_less32: "unat (x :: u32) < 2 ^ 32"
  using unsigned_less [of x, where 'a = nat] by simp

lemma unat_ucast32: "unat (ucast (x :: u32) :: u64) = unat x"
  using unat_less32 [of x] by (simp add: unsigned_ucast_eq take_bit_nat_eq_self)

lemma unat_add64: "unat x + unat y < 2 ^ 64 \<Longrightarrow> unat (x + y :: u64) = unat x + unat y"
  by (simp add: unat_word_ariths)

lemma unat_mult64: "unat x * unat y < 2 ^ 64 \<Longrightarrow> unat (x * y :: u64) = unat x * unat y"
  by (simp add: unat_word_ariths)

lemma unat_MUL64: "unat (MUL64 a b) = unat a * unat b"
proof -
  have "unat a * unat b < 2 ^ 32 * 2 ^ 32"
    using unat_less32 [of a] unat_less32 [of b] by (intro mult_strict_mono) simp_all
  then show ?thesis by (simp add: MUL64_def unat_mult64 unat_ucast32)
qed

lemma unat_shift32: "unat (push_bit 32 (ucast (x :: u32)) :: u64) = unat x * 2 ^ 32"
proof -
  have "unat x * 2 ^ 32 < 2 ^ 64" using unat_less32 [of x] by simp
  then show ?thesis
    by (simp add: push_bit_eq_mult unat_mult64 unat_ucast32 mult.commute)
qed

text \<open>
  An addition that wraps is corrected by adding 59, because \<open>2^64\<close> and 59 are congruent
  modulo \<open>P64\<close>; the correction itself must not wrap.
\<close>

lemma add_carry:
  fixes x y :: u64
  assumes "unat x + unat y + 59 < 2 ^ 65"
  defines "r \<equiv> (let s = x + y in if s < y then s + 59 else s)"
  shows "unat r mod P64 = (unat x + unat y) mod P64"
proof (cases "unat x + unat y < 2 ^ 64")
  case True
  then have "unat (x + y) = unat x + unat y" by (rule unat_add64)
  then show ?thesis by (simp add: r_def Let_def word_less_nat_alt)
next
  case False
  have s: "unat (x + y) = unat x + unat y - 2 ^ 64"
    using False unat_less64 [of x] unat_less64 [of y] by (simp add: unat_word_ariths mod_if)
  have "x + y < y"
    using False unat_less64 [of x] s by (simp add: word_less_nat_alt)
  moreover have "unat (x + y + 59) = unat x + unat y - 2 ^ 64 + 59"
    using assms(1) False s by (subst unat_add64) simp_all
  ultimately have "unat r = unat x + unat y - P64"
    using False by (simp add: r_def Let_def P64_def)
  moreover have "P64 \<le> unat x + unat y" using False by (simp add: P64_def)
  ultimately show ?thesis by (simp add: le_mod_geq)
qed

lemma poly64_mod:
  assumes k: "poly_key_ok key" and d: "unat data < P64"
  shows "unat (poly64 cur key data) mod P64 = (unat cur * unat key + unat data) mod P64"
proof -
  define kh kl ch cl where "kh = unat key div 2 ^ 32" and "kl = unat key mod 2 ^ 32"
    and "ch = unat cur div 2 ^ 32" and "cl = unat cur mod 2 ^ 32"
  have kb: "kh < 2 ^ 25" "kl < 2 ^ 25" using k by (simp_all add: poly_key_ok_def kh_def kl_def)
  have cb: "ch < 2 ^ 32" "cl < 2 ^ 32"
    using unat_less64 [of cur] by (simp_all add: ch_def cl_def less_mult_imp_div_less)
  have key: "unat key = kh * 2 ^ 32 + kl" and cur: "unat cur = ch * 2 ^ 32 + cl"
    by (simp_all add: kh_def kl_def ch_def cl_def)
  have b: "kh * cl < 2 ^ 57" "ch * kl < 2 ^ 57" "kh * ch < 2 ^ 57" "kl * cl < 2 ^ 57"
    using kb cb mult_strict_mono [of kh "2 ^ 25" cl "2 ^ 32"] mult_strict_mono [of ch "2 ^ 32" kl "2 ^ 25"]
      mult_strict_mono [of kh "2 ^ 25" ch "2 ^ 32"] mult_strict_mono [of kl "2 ^ 25" cl "2 ^ 32"]
    by simp_all
  define X :: u64 where "X = MUL64 (ucast (drop_bit 32 key)) (ucast cur) + MUL64 (ucast (drop_bit 32 cur)) (ucast key)"
  have X: "unat X = kh * cl + ch * kl"
    unfolding X_def using b
    by (subst unat_add64)
      (simp_all only: unat_MUL64 unat_hi32 unat_lo32 unat_hi32_mod kh_def [symmetric] kl_def [symmetric]
        ch_def [symmetric] cl_def [symmetric], simp)
  define xh xl where "xh = unat X div 2 ^ 32" and "xl = unat X mod 2 ^ 32"
  have xb: "xh < 2 ^ 26" "xl < 2 ^ 32"
    using b X by (simp_all add: xh_def xl_def less_mult_imp_div_less)
  define R :: u64 where "R = (MUL64 (ucast (drop_bit 32 key)) (ucast (drop_bit 32 cur))
      + ucast (ucast (drop_bit 32 X) :: u32)) * 59 + MUL64 (ucast key) (ucast cur)"
  have R: "unat R = (kh * ch + xh) * 59 + kl * cl"
  proof -
    have "unat (MUL64 (ucast (drop_bit 32 key)) (ucast (drop_bit 32 cur))
      + ucast (ucast (drop_bit 32 X) :: u32)) = kh * ch + xh"
      using b xb by (subst unat_add64)
        (simp_all only: unat_MUL64 unat_hi32 unat_ucast32 kh_def [symmetric] ch_def [symmetric]
          xh_def [symmetric], simp)
    then have "unat ((MUL64 (ucast (drop_bit 32 key)) (ucast (drop_bit 32 cur))
      + ucast (ucast (drop_bit 32 X) :: u32)) * 59) = (kh * ch + xh) * 59"
      using b xb by (subst unat_mult64) simp_all
    then show ?thesis
      unfolding R_def using b xb
      by (subst unat_add64)
        (simp_all only: unat_MUL64 unat_lo32 kl_def [symmetric] cl_def [symmetric], simp)
  qed
  define T :: u64 where "T = push_bit 32 (ucast (ucast X :: u32))"
  have T: "unat T = xl * 2 ^ 32" by (simp only: T_def unat_shift32 unat_lo32 xl_def)
  define Q where "Q = (let s = R + T in if s < T then s + 59 else s)"
  have Q: "unat Q mod P64 = (unat R + unat T) mod P64"
    unfolding Q_def using R T b xb by (intro add_carry) simp
  have p: "poly64 cur key data = (let s = Q + data in if s < data then s + 59 else s)"
    unfolding poly64_def Q_def T_def R_def X_def by (simp only: Let_def)
  have "unat (poly64 cur key data) mod P64 = (unat Q + unat data) mod P64"
    unfolding p using d unat_less64 [of Q] by (intro add_carry) (simp add: P64_def)
  also have "\<dots> = (unat R + unat T + unat data) mod P64"
    using Q by (metis mod_add_left_eq)
  also have "\<dots> = (unat cur * unat key + unat data) mod P64"
  proof -
    have "unat cur * unat key = kh * ch * 2 ^ 64 + unat X * 2 ^ 32 + kl * cl"
      unfolding cur key X by (simp add: algebra_simps)
    also have "unat X = xh * 2 ^ 32 + xl" by (simp add: xh_def xl_def)
    finally have "unat cur * unat key = unat R + unat T + (kh * ch + xh) * P64"
      unfolding R T by (simp add: P64_def algebra_simps)
    then show ?thesis by (metis add.assoc add.commute mod_mult_self1)
  qed
  finally show ?thesis .
qed

subsection \<open>Inner product\<close>

lemma ip_reduce_p36_mod: "unat (ip_reduce_p36 t) = unat t mod P36 mod 2 ^ 32"
proof -
  define hi lo where "hi = unat t div 2 ^ 36" and "lo = unat t mod 2 ^ 36"
  have t: "unat t = hi * 2 ^ 36 + lo" by (simp add: hi_def lo_def)
  have b: "hi < 2 ^ 28" "lo < 2 ^ 36"
    using unat_less64 [of t] by (simp_all add: hi_def lo_def less_mult_imp_div_less)
  have m: "m36 = mask 36" by (simp add: mask_eq_exp_minus_1)
  have lo: "unat (t AND m36) = lo"
    unfolding m by (simp add: lo_def take_bit_eq_mod unsigned_take_bit_eq unat_mod flip: take_bit_eq_mask)
  have hi: "unat (5 * drop_bit 36 t) = 5 * hi"
    using b by (subst unat_mult64) (simp_all add: unat_drop_bit_eq drop_bit_eq_div hi_def unat_div)
  define ret where "ret = (t AND m36) + 5 * drop_bit 36 t"
  have ret: "unat ret = lo + 5 * hi"
    unfolding ret_def using lo hi b by (subst unat_add64) simp_all
  have "unat (if p36 \<le> ret then ret - p36 else ret) = (lo + 5 * hi) mod P36"
  proof (cases "p36 \<le> ret")
    case True
    then have "unat (ret - p36) = unat ret - P36"
      by (simp add: unat_sub P36_def)
    moreover have "P36 \<le> unat ret" using True by (simp add: word_le_nat_alt P36_def)
    moreover have "unat ret - P36 < P36" using ret b by (simp add: P36_def)
    ultimately show ?thesis using True ret by (simp add: le_mod_geq)
  next
    case False
    then have "unat ret < P36" by (simp add: word_le_nat_alt P36_def)
    then show ?thesis using False ret by simp
  qed
  moreover have "(lo + 5 * hi) mod P36 = unat t mod P36"
  proof -
    have "unat t = lo + 5 * hi + hi * P36" unfolding t by (simp add: P36_def)
    then show ?thesis by simp
  qed
  ultimately show ?thesis
    by (simp add: ip_reduce_p36_def Let_def unat_lo32 ret_def [symmetric])
qed

lemma unat_u16: "unat (ucast (ucast (x :: u64) :: u16) :: u64) = unat x mod 2 ^ 16"
proof -
  have "unat x mod 2 ^ 16 < 2 ^ 16" by simp
  then show ?thesis by (simp add: unsigned_ucast_eq take_bit_eq_mod unat_mod)
qed

lemma ip_aux_sum:
  assumes "\<And>j. j < 4 \<Longrightarrow> unat (ipkp ! (k + j)) < P36"
  shows "unat (ip_aux 0 ipkp k data) = ip_sum ipkp k data"
proof -
  have kb: "unat (ipkp ! k) < 2 ^ 36" "unat (ipkp ! (k + 1)) < 2 ^ 36"
    "unat (ipkp ! (k + 2)) < 2 ^ 36" "unat (ipkp ! (k + 3)) < 2 ^ 36"
    using assms [of 0] assms [of 1] assms [of 2] assms [of 3] by (simp_all add: P36_def)
  have t: "unat (w * ucast (ucast (x :: u64) :: u16)) = unat w * (unat x mod 2 ^ 16) \<and>
      unat w * (unat x mod 2 ^ 16) < 2 ^ 52" if "unat w < 2 ^ 36" for w x :: u64
  proof -
    have "unat w * (unat x mod 2 ^ 16) < 2 ^ 36 * 2 ^ 16"
      using that by (intro mult_strict_mono) simp_all
    then show ?thesis by (simp add: unat_mult64 unat_u16)
  qed
  note t0 = t [OF kb(1), of "drop_bit 48 data"] and t1 = t [OF kb(2), of "drop_bit 32 data"]
    and t2 = t [OF kb(3), of "drop_bit 16 data"] and t3 = t [OF kb(4), of data]
  have d48: "unat data div 2 ^ 48 mod 2 ^ 16 = unat data div 2 ^ 48"
    using unat_less64 [of data] by (simp add: less_mult_imp_div_less)
  show ?thesis
    using t0 t1 t2 t3 d48
    by (simp add: ip_aux_def ip_sum_def Let_def unat_add64 unat_drop_bit_eq drop_bit_eq_div unat_div)
qed

end
