(* ===== verification/Umac_Uhash.thy ===== *)
theory Umac_Uhash
  imports Umac_Poly
begin

section \<open>UMAC: the universal hash\<close>

text \<open>
  The UHASH section of \<^verbatim>\<open>src/sec/umac.c\<close>: NH on blocks of 1024 bytes, the polynomial hash
  over the NH results of longer messages, and the inner-product hash at the end, in the
  sequential interface \<^verbatim>\<open>uhash_update\<close> / \<^verbatim>\<open>uhash_final\<close> and the one-shot \<^verbatim>\<open>uhash\<close>.
  \<^verbatim>\<open>msg_len\<close> is a 32-bit word that wraps; \<^verbatim>\<open>long\<close> lengths are natural numbers, since a
  negative length makes no call. The argument \<open>a\<close> of the operations that pad a buffer is the
  address of that buffer, on which the order of the stores in \<^verbatim>\<open>zero_pad\<close> depends.
\<close>

record uhash_ctx =
  hash :: nh_ctx
  poly_key_8 :: "u64 list"
  poly_accum :: "u64 list"
  ip_keys :: "u64 list"
  ip_trans :: "u32 list"
  msg_len :: u32

subsection \<open>Polynomial hash\<close>

definition poly_hash_1 :: "uhash_ctx \<Rightarrow> u64 list \<Rightarrow> nat \<Rightarrow> uhash_ctx" where
  "poly_hash_1 hc data i =
     (if (ucast (drop_bit 32 (data ! i)) :: u32) = 0xffffffff
      then let hc = hc\<lparr>poly_accum := (poly_accum hc)[i :=
                         poly64 (poly_accum hc ! i) (poly_key_8 hc ! i) (p64 - 1)]\<rparr>
           in hc\<lparr>poly_accum := (poly_accum hc)[i :=
                         poly64 (poly_accum hc ! i) (poly_key_8 hc ! i) (data ! i - 59)]\<rparr>
      else hc\<lparr>poly_accum := (poly_accum hc)[i :=
                         poly64 (poly_accum hc ! i) (poly_key_8 hc ! i) (data ! i)]\<rparr>)"

definition poly_hash :: "uhash_ctx \<Rightarrow> u64 list \<Rightarrow> uhash_ctx" where
  "poly_hash hc data = foldl (\<lambda>hc i. poly_hash_1 hc data i) hc [0..<STREAMS]"

subsection \<open>Inner-product hash\<close>

definition ip_short :: "uhash_ctx \<Rightarrow> u64 list \<Rightarrow> u8 list \<Rightarrow> u8 list" where
  "ip_short ahc nhp res =
     (let t = ip_aux 0 (ip_keys ahc) 0 (nhp ! 0);
          res = STORE_UINT32_BIG res 0 (ip_reduce_p36 t XOR ip_trans ahc ! 0);
          t = ip_aux 0 (ip_keys ahc) 4 (nhp ! 1)
      in STORE_UINT32_BIG res 4 (ip_reduce_p36 t XOR ip_trans ahc ! 1))"

definition ip_long_1 :: "uhash_ctx \<times> u8 list \<Rightarrow> nat \<Rightarrow> uhash_ctx \<times> u8 list" where
  "ip_long_1 = (\<lambda>(ahc, res) i.
     let ahc = (if poly_accum ahc ! i \<ge> p64
                then ahc\<lparr>poly_accum := (poly_accum ahc)[i := poly_accum ahc ! i - p64]\<rparr> else ahc);
         t = ip_aux 0 (ip_keys ahc) (i * 4) (poly_accum ahc ! i)
     in (ahc, STORE_UINT32_BIG res (4 * i) (ip_reduce_p36 t XOR ip_trans ahc ! i)))"

definition ip_long :: "uhash_ctx \<Rightarrow> u8 list \<Rightarrow> uhash_ctx \<times> u8 list" where
  "ip_long ahc res = foldl ip_long_1 (ahc, res) [0..<STREAMS]"

subsection \<open>Reset and initialisation\<close>

definition uhash_reset :: "uhash_ctx \<Rightarrow> uhash_ctx" where
  "uhash_reset pc = pc\<lparr>hash := nh_reset (hash pc), msg_len := 0, poly_accum := (poly_accum pc)[0 := 1, 1 := 1]\<rparr>"

text \<open>The context after \<^verbatim>\<open>memset\<close>.\<close>

definition uhash_zero :: uhash_ctx where
  "uhash_zero = \<lparr>hash = nh_zero, poly_key_8 = replicate STREAMS 0, poly_accum = replicate STREAMS 0,
     ip_keys = replicate (STREAMS * 4) 0, ip_trans = replicate STREAMS 0, msg_len = 0\<rparr>"

text \<open>One round of the first key loop: copy eight bytes, convert, mask.\<close>

definition uhash_init_key :: "u8 list \<Rightarrow> nat \<Rightarrow> u64" where
  "uhash_init_key buf i =
     (let b = endian_convert_if_le (take 8 (drop (24 * i) buf)) 8 8
      in ld64 b 0 AND (push_bit 32 0x01ffffff + 0x01ffffff))"

definition uhash_init_ip :: "u8 list \<Rightarrow> u8 list" where
  "uhash_init_ip buf =
     endian_convert_if_le (concat (map (\<lambda>i. take 32 (drop ((8 * i + 4) * 8) buf)) [0..<STREAMS]))
       8 (STREAMS * 4 * 8)"

definition uhash_init :: "u32 list \<Rightarrow> uhash_ctx" where
  "uhash_init prf =
     (let ahc = uhash_zero;
          ahc = ahc\<lparr>hash := nh_init (hash ahc) prf\<rparr>;
          buf = kdf prf 2 ((8 * STREAMS + 4) * 8);
          ahc = foldl (\<lambda>ahc i. ahc\<lparr>poly_key_8 := (poly_key_8 ahc)[i := uhash_init_key buf i],
                                    poly_accum := (poly_accum ahc)[i := 1]\<rparr>) ahc [0..<STREAMS];
          buf = kdf prf 3 ((8 * STREAMS + 4) * 8);
          ahc = ahc\<lparr>ip_keys := map (\<lambda>i. ld64 (uhash_init_ip buf) (8 * i)) [0..<STREAMS * 4]\<rparr>;
          ahc = ahc\<lparr>ip_keys := map (\<lambda>x. x mod p36) (ip_keys ahc)\<rparr>;
          b = endian_convert_if_le (kdf prf 4 (STREAMS * 4)) 4 (STREAMS * 4)
      in ahc\<lparr>ip_trans := map (\<lambda>i. ld32 b (4 * i)) [0..<STREAMS]\<rparr>)"

subsection \<open>The sequential interface\<close>

function uhash_update_blocks :: "uhash_ctx \<Rightarrow> u8 list \<Rightarrow> nat \<Rightarrow> uhash_ctx \<times> u8 list \<times> nat" where
  "uhash_update_blocks ctx input len =
     (if len \<ge> L1_KEY_LEN
      then let nh_result = nh (hash ctx) input L1_KEY_LEN L1_KEY_LEN;
               ctx = ctx\<lparr>msg_len := msg_len ctx + of_nat L1_KEY_LEN\<rparr>
           in uhash_update_blocks (poly_hash ctx nh_result) (drop L1_KEY_LEN input) (len - L1_KEY_LEN)
      else (ctx, input, len))"
  by pat_completeness auto
termination by (relation "measure (\<lambda>(c, i, n). n)") auto

declare uhash_update_blocks.simps [simp del]

definition uhash_update :: "nat \<Rightarrow> uhash_ctx \<Rightarrow> u8 list \<Rightarrow> nat \<Rightarrow> uhash_ctx" where
  "uhash_update a ctx input len =
     (if unat (msg_len ctx) + len \<le> L1_KEY_LEN
      then ctx\<lparr>hash := nh_update (hash ctx) input len, msg_len := msg_len ctx + of_nat len\<rparr>
      else
        let bytes_hashed = unat (msg_len ctx) mod L1_KEY_LEN;
            bytes_hashed = (if unat (msg_len ctx) = L1_KEY_LEN then L1_KEY_LEN else bytes_hashed);
            (ctx, input, len) =
              (if bytes_hashed + len \<ge> L1_KEY_LEN
               then
                 let (ctx, input, len) =
                       (if bytes_hashed \<noteq> 0
                        then let bytes_remaining = L1_KEY_LEN - bytes_hashed;
                                 ctx = ctx\<lparr>hash := nh_update (hash ctx) input bytes_remaining\<rparr>;
                                 (h, nh_result) = nh_final a (hash ctx);
                                 ctx = ctx\<lparr>hash := h, msg_len := msg_len ctx + of_nat bytes_remaining\<rparr>
                             in (poly_hash ctx nh_result, drop bytes_remaining input, len - bytes_remaining)
                        else (ctx, input, len))
                 in uhash_update_blocks ctx input len
               else (ctx, input, len))
        in if len \<noteq> 0
           then ctx\<lparr>hash := nh_update (hash ctx) input len, msg_len := msg_len ctx + of_nat len\<rparr>
           else ctx)"

definition uhash_final :: "nat \<Rightarrow> uhash_ctx \<Rightarrow> u8 list \<Rightarrow> uhash_ctx \<times> u8 list" where
  "uhash_final a ctx res =
     (let (ctx, res) =
            (if unat (msg_len ctx) > L1_KEY_LEN
             then let ctx = (if unat (msg_len ctx) mod L1_KEY_LEN \<noteq> 0
                             then let (h, nh_result) = nh_final a (hash ctx)
                                  in poly_hash (ctx\<lparr>hash := h\<rparr>) nh_result
                             else ctx)
                  in ip_long ctx res
             else let (h, nh_result) = nh_final a (hash ctx)
                  in (ctx\<lparr>hash := h\<rparr>, ip_short (ctx\<lparr>hash := h\<rparr>) nh_result res))
      in (uhash_reset ctx, res))"

subsection \<open>The one-shot interface\<close>

text \<open>The \<^verbatim>\<open>do ... while (len >= L1_KEY_LEN)\<close> loop over the blocks at \<open>p\<close>, \<open>p + 1024\<close>, \<dots> of the buffer.\<close>

function uhash_blocks :: "uhash_ctx \<Rightarrow> u8 list \<Rightarrow> nat \<Rightarrow> nat \<Rightarrow> uhash_ctx \<times> nat \<times> nat" where
  "uhash_blocks ahc msg p len =
     (let nh_result = nh (hash ahc) (drop p msg) L1_KEY_LEN L1_KEY_LEN;
          ahc = poly_hash ahc nh_result;
          p = p + L1_KEY_LEN; len = len - L1_KEY_LEN
      in if len \<ge> L1_KEY_LEN then uhash_blocks ahc msg p len else (ahc, p, len))"
  by pat_completeness auto
termination by (relation "measure (\<lambda>(a, m, p, n). n)") auto

declare uhash_blocks.simps [simp del]

text \<open>The result is the context, the tag and the message buffer, whose padding was zeroed.\<close>

definition uhash :: "nat \<Rightarrow> uhash_ctx \<Rightarrow> u8 list \<Rightarrow> nat \<Rightarrow> u8 list \<Rightarrow> uhash_ctx \<times> u8 list \<times> u8 list" where
  "uhash a ahc msg len res =
     (let (ahc, res, msg) =
            (if len \<le> L1_KEY_LEN
             then let nh_len = (if len = 0 then L1_PAD_BOUNDARY
                                else (len + (L1_PAD_BOUNDARY - 1)) div L1_PAD_BOUNDARY * L1_PAD_BOUNDARY);
                      msg = zero_pad a msg len (nh_len - len);
                      nh_result = nh (hash ahc) msg nh_len len
                  in (ahc, ip_short ahc nh_result res, msg)
             else let (ahc, p, len) = uhash_blocks ahc msg 0 len;
                      (ahc, msg) =
                        (if len \<noteq> 0
                         then let nh_len = (len + (L1_PAD_BOUNDARY - 1)) div L1_PAD_BOUNDARY * L1_PAD_BOUNDARY;
                                  msg = zero_pad a msg (p + len) (nh_len - len);
                                  nh_result = nh (hash ahc) (drop p msg) nh_len len
                              in (poly_hash ahc nh_result, msg)
                         else (ahc, msg));
                      (ahc, res) = ip_long ahc res
                  in (ahc, res, msg))
      in (uhash_reset ahc, res, msg))"

subsection \<open>Allocation\<close>

text \<open>
  \<^verbatim>\<open>uhash_alloc\<close> asks \<^verbatim>\<open>malloc\<close> for 16 spare bytes, moves the context to the next multiple
  of 16 and stores the distance in the byte before it. \<open>p\<close> is the address \<^verbatim>\<open>malloc\<close> returns
  (0 for \<^verbatim>\<open>NULL\<close>), \<open>mem\<close> the bytes of the heap; \<^verbatim>\<open>uhash_free\<close> yields the address given to
  \<^verbatim>\<open>free\<close>.
\<close>

definition uhash_alloc :: "(nat \<Rightarrow> u8) \<Rightarrow> nat \<Rightarrow> u8 list \<Rightarrow> (nat \<Rightarrow> u8) \<times> nat \<times> uhash_ctx option" where
  "uhash_alloc mem p key =
     (if p \<noteq> 0
      then let bytes_to_add = 16 - p mod 16;
               ctx = p + bytes_to_add;
               mem = mem(ctx - 1 := of_nat bytes_to_add)
           in (mem, ctx, Some (uhash_init (aes_key_setup key)))
      else (mem, 0, None))"

definition uhash_free :: "(nat \<Rightarrow> u8) \<Rightarrow> nat \<Rightarrow> nat option" where
  "uhash_free mem ctx =
     (if ctx \<noteq> 0 then Some (ctx - unat (mem (ctx - 1))) else None)"

subsection \<open>Specification\<close>

text \<open>
  \<open>uhash_of\<close> is the function computed: NH of the whole message up to 1024 bytes, and beyond
  that the polynomial hash of the NH results of its blocks, followed by the inner-product hash.
  \<open>uhash_rep K c m\<close> relates a context with the keys \<open>K\<close> to the bytes it has absorbed: \<open>b\<close>, whole
  blocks already in the polynomial, and \<open>t\<close>, still in NH.
\<close>

type_synonym ukey = "u8 list \<times> u64 list \<times> u64 list \<times> u32 list"

definition ukey :: "uhash_ctx \<Rightarrow> ukey" where
  "ukey c = (nh_key (hash c), poly_key_8 c, ip_keys c, ip_trans c)"

definition poly_word :: "u64 \<Rightarrow> u64 \<Rightarrow> u64 \<Rightarrow> u64" where
  "poly_word key acc d =
     (if (ucast (drop_bit 32 d) :: u32) = 0xffffffff
      then poly64 (poly64 acc key (p64 - 1)) key (d - 59) else poly64 acc key d)"

function blocks :: "'a list \<Rightarrow> 'a list list" where
  "blocks m = (if m = [] then [] else take L1_KEY_LEN m # blocks (drop L1_KEY_LEN m))"
  by pat_completeness auto
termination by (relation "measure length") (auto simp: neq_Nil_conv)

definition poly_block :: "ukey \<Rightarrow> u64 list \<Rightarrow> u8 list \<Rightarrow> u64 list" where
  "poly_block = (\<lambda>(kp, pk, ik, tr) acc m.
     map (\<lambda>i. poly_word (pk ! i) (acc ! i) (nh_hash kp m ! i)) [0..<STREAMS])"

definition poly_run :: "ukey \<Rightarrow> u8 list \<Rightarrow> u64 list" where
  "poly_run K m = foldl (poly_block K) [1, 1] (blocks m)"

definition be32 :: "u32 \<Rightarrow> u8 list" where
  "be32 w = [byte3 w, byte2 w, byte1 w, byte0 w]"

definition ip_word :: "ukey \<Rightarrow> u64 list \<Rightarrow> nat \<Rightarrow> u32" where
  "ip_word = (\<lambda>(kp, pk, ik, tr) ds i. ip_reduce_p36 (ip_aux 0 ik (i * 4) (ds ! i)) XOR tr ! i)"

definition p64_fix :: "u64 \<Rightarrow> u64" where
  "p64_fix x = (if x \<ge> p64 then x - p64 else x)"

definition uhash_of :: "ukey \<Rightarrow> u8 list \<Rightarrow> u8 list" where
  "uhash_of K m =
     (let ds = (if length m \<le> L1_KEY_LEN then nh_hash (fst K) m else map p64_fix (poly_run K m))
      in be32 (ip_word K ds 0) @ be32 (ip_word K ds 1))"

definition uhash_open :: "ukey \<Rightarrow> uhash_ctx \<Rightarrow> u8 list \<Rightarrow> u8 list \<Rightarrow> bool" where
  "uhash_open K c b t \<longleftrightarrow> ukey c = K \<and> msg_len c = of_nat (length b + length t) \<and>
     L1_KEY_LEN dvd length b \<and> length t \<le> L1_KEY_LEN \<and> nh_rep (hash c) t \<and> poly_accum c = poly_run K b"

definition uhash_rep :: "ukey \<Rightarrow> uhash_ctx \<Rightarrow> u8 list \<Rightarrow> bool" where
  "uhash_rep K c m \<longleftrightarrow> (\<exists>b t. m = b @ t \<and> uhash_open K c b t \<and>
     (if length m \<le> L1_KEY_LEN then b = [] else length t < L1_KEY_LEN))"

text \<open>What the one-shot function promises of its result, context and buffer.\<close>

definition uhash_post :: "ukey \<Rightarrow> u8 list \<Rightarrow> nat \<Rightarrow> uhash_ctx \<times> u8 list \<times> u8 list \<Rightarrow> bool" where
  "uhash_post K msg len = (\<lambda>(c, res, msg'). res = uhash_of K (take len msg) \<and> uhash_rep K c [] \<and>
     take len msg' = take len msg)"

text \<open>The keys \<^verbatim>\<open>uhash_init\<close> makes lie in the domains the arithmetic needs.\<close>

definition ukey_ok :: "ukey \<Rightarrow> bool" where
  "ukey_ok = (\<lambda>(kp, pk, ik, tr). length pk = STREAMS \<and> list_all poly_key_ok pk \<and>
     length ik = 4 * STREAMS \<and> list_all (\<lambda>x. unat x < P36) ik \<and> length tr = STREAMS)"

subsection \<open>Blocks and the polynomial\<close>

declare blocks.simps [simp del]

lemma blocks_Nil [simp]: "blocks [] = []"
  by (simp add: blocks.simps)

lemma blocks_single: "y \<noteq> [] \<Longrightarrow> length y \<le> L1_KEY_LEN \<Longrightarrow> blocks y = [y]"
  by (subst blocks.simps) simp

lemma blocks_append:
  assumes "L1_KEY_LEN dvd length b" and "y \<noteq> []" and "length y \<le> L1_KEY_LEN"
  shows "blocks (b @ y) = blocks b @ [y]"
  using assms(1)
proof (induction b rule: blocks.induct)
  case (1 m)
  show ?case
  proof (cases "m = []")
    case True
    then show ?thesis using assms by (simp add: blocks_single)
  next
    case False
    then have l: "L1_KEY_LEN \<le> length m" using 1(2) by (auto dest: dvd_imp_le)
    have "blocks (drop L1_KEY_LEN m @ y) = blocks (drop L1_KEY_LEN m) @ [y]"
      using 1(1) [OF False] 1(2) l by (simp add: dvd_diff_nat)
    then show ?thesis
      using False l blocks.simps [of "m @ y"] blocks.simps [of m] by simp
  qed
qed

lemma poly_run_Nil [simp]: "poly_run K [] = [1, 1]"
  by (simp add: poly_run_def)

lemma poly_run_append:
  "L1_KEY_LEN dvd length b \<Longrightarrow> y \<noteq> [] \<Longrightarrow> length y \<le> L1_KEY_LEN \<Longrightarrow>
   poly_run K (b @ y) = poly_block K (poly_run K b) y"
  by (simp add: poly_run_def blocks_append)

lemma length_poly_run [simp]: "length (poly_run K m) = 2"
proof -
  have "length (foldl (poly_block K) acc xs) = 2" if "length acc = 2" for acc xs
    using that by (induction xs arbitrary: acc) (auto simp: poly_block_def split: prod.splits)
  then show ?thesis by (simp add: poly_run_def)
qed

lemma poly_hash_eq:
  assumes "length (poly_accum c) = 2"
  shows "poly_hash c data = c\<lparr>poly_accum :=
    map (\<lambda>i. poly_word (poly_key_8 c ! i) (poly_accum c ! i) (data ! i)) [0..<2]\<rparr>"
proof -
  obtain a0 a1 where a: "poly_accum c = [a0, a1]"
    using assms by (auto simp: numeral_2_eq_2 length_Suc_conv)
  have u: "[0..<2] = [0, 1 :: nat]" by (simp add: upt_rec)
  show ?thesis
    unfolding poly_hash_def u by (simp add: poly_hash_1_def poly_word_def a Let_def)
qed

lemma poly_hash_block:
  assumes "length (poly_accum c) = 2" and "ukey c = K" and "data = nh_hash (fst K) m"
  shows "poly_hash c data = c\<lparr>poly_accum := poly_block K (poly_accum c) m\<rparr>"
  using assms by (auto simp: poly_hash_eq poly_block_def ukey_def)

lemma open_close:
  assumes "uhash_open K c b t" and "length y = L1_KEY_LEN - length t" and "nh_final a h = (h', r)"
    and "nh_rep h (t @ y)" and "nh_key h = fst K" and "t @ y \<noteq> []"
  shows "uhash_open K (poly_hash (c\<lparr>hash := h', msg_len := msg_len c + of_nat (length y)\<rparr>) r) (b @ t @ y) []"
proof -
  have o: "ukey c = K" "msg_len c = of_nat (length b + length t)" "L1_KEY_LEN dvd length b"
    "length t \<le> L1_KEY_LEN" "poly_accum c = poly_run K b"
    using assms(1) by (simp_all add: uhash_open_def)
  have r: "r = nh_hash (fst K) (t @ y)" and h: "nh_rep h' []" "nh_key h' = fst K"
    using nh_final_rep [OF assms(4), of a] assms(3,5) nh_key_ops(3) [of a h] by (simp_all add: nh_hash_def)
  have k: "ukey (c\<lparr>hash := h', msg_len := x\<rparr>) = K" for x
    using o(1) h(2) by (auto simp: ukey_def)
  have l: "length (t @ y) = L1_KEY_LEN" using assms(2) o(4) by simp
  have d: "L1_KEY_LEN dvd length (b @ t @ y)" using o(3) l by simp
  have e: "poly_hash (c\<lparr>hash := h', msg_len := msg_len c + of_nat (length y)\<rparr>) r =
      c\<lparr>hash := h', msg_len := msg_len c + of_nat (length y), poly_accum := poly_run K (b @ t @ y)\<rparr>"
    using poly_hash_block [OF _ k r] o(3,5) l poly_run_append [of b "t @ y" K] assms(6) by simp
  show ?thesis
    unfolding e uhash_open_def using k d h o(2) by (simp add: ukey_def)
qed

lemma open_block:
  assumes "uhash_open K c b []" and "L1_KEY_LEN \<le> length x"
  shows "uhash_open K (poly_hash (c\<lparr>msg_len := msg_len c + of_nat L1_KEY_LEN\<rparr>) (nh (hash c) x L1_KEY_LEN L1_KEY_LEN))
    (b @ take L1_KEY_LEN x) []"
proof -
  have o: "ukey c = K" "msg_len c = of_nat (length b)" "L1_KEY_LEN dvd length b"
    "nh_rep (hash c) []" "poly_accum c = poly_run K b"
    using assms(1) by (simp_all add: uhash_open_def)
  have k: "ukey (c\<lparr>msg_len := x\<rparr>) = K" "nh_key (hash c) = fst K" for x
    using o(1) by (auto simp: ukey_def)
  let ?y = "take L1_KEY_LEN x"
  have y: "length ?y = L1_KEY_LEN" "?y \<noteq> []" using assms(2) by auto
  then have p: "pad32 ?y = ?y" by (simp add: pad32_def)
  have r: "nh (hash c) x L1_KEY_LEN L1_KEY_LEN = nh_hash (fst K) ?y"
    using nh_eq [of L1_KEY_LEN x "hash c" L1_KEY_LEN] assms(2) y p k(2) by (simp add: nh_hash_def)
  have e: "poly_hash (c\<lparr>msg_len := msg_len c + of_nat L1_KEY_LEN\<rparr>) (nh (hash c) x L1_KEY_LEN L1_KEY_LEN) =
      c\<lparr>msg_len := msg_len c + of_nat L1_KEY_LEN, poly_accum := poly_run K (b @ ?y)\<rparr>"
    using poly_hash_block [OF _ k(1) r] o(3,5) y poly_run_append [of b ?y K] by simp
  show ?thesis
    unfolding e uhash_open_def using k o y by (simp add: ukey_def)
qed

lemma open_blocks:
  assumes "uhash_open K c b []" and "L1_KEY_LEN * q + r \<le> length x" and "r < L1_KEY_LEN"
  shows "\<exists>c'. uhash_update_blocks c x (L1_KEY_LEN * q + r) = (c', drop (L1_KEY_LEN * q) x, r) \<and>
    uhash_open K c' (b @ take (L1_KEY_LEN * q) x) []"
  using assms(1,2)
proof (induction q arbitrary: c b x)
  case 0
  then show ?case using assms(3) by (subst uhash_update_blocks.simps) simp
next
  case (Suc q)
  have "L1_KEY_LEN \<le> length x" using Suc.prems(2) by simp
  note o = open_block [OF Suc.prems(1) this]
  have l: "L1_KEY_LEN * q + r \<le> length (drop L1_KEY_LEN x)" using Suc.prems(2) by simp
  obtain c' where c': "uhash_update_blocks
      (poly_hash (c\<lparr>msg_len := msg_len c + of_nat L1_KEY_LEN\<rparr>) (nh (hash c) x L1_KEY_LEN L1_KEY_LEN))
      (drop L1_KEY_LEN x) (L1_KEY_LEN * q + r) = (c', drop (L1_KEY_LEN * q) (drop L1_KEY_LEN x), r)"
    "uhash_open K c' ((b @ take L1_KEY_LEN x) @ take (L1_KEY_LEN * q) (drop L1_KEY_LEN x)) []"
    using Suc.IH [OF o l] by blast
  show ?case
    using c' by (subst uhash_update_blocks.simps) (simp add: Let_def add.commute take_add)
qed

lemma open_tail:
  assumes "uhash_open K c b t" and "n \<le> length x" and "length t + n \<le> L1_KEY_LEN"
  shows "uhash_open K (c\<lparr>hash := nh_update (hash c) x n, msg_len := msg_len c + of_nat n\<rparr>) b (t @ take n x)"
  using assms nh_update_rep [of "hash c" t n x]
  by (simp add: uhash_open_def ukey_def add.assoc)

lemma uhash_rep_msg_len:
  "uhash_rep K c m \<Longrightarrow> length m < 2 ^ 32 \<Longrightarrow> unat (msg_len c) = length m"
  by (auto simp: uhash_rep_def uhash_open_def unat_of_nat simp flip: of_nat_add)

lemma uhash_open_rep:
  "uhash_open K c b t \<Longrightarrow> length (b @ t) > L1_KEY_LEN \<Longrightarrow> length t < L1_KEY_LEN \<Longrightarrow> uhash_rep K c (b @ t)"
  unfolding uhash_rep_def by (intro exI [of _ b] exI [of _ t]) simp

text \<open>The second half of \<^verbatim>\<open>uhash_update\<close>: whole blocks from the input, then the rest to NH.\<close>

lemma open_stream:
  assumes "uhash_open K c b []" and "n \<le> length x" and "length b + n > L1_KEY_LEN"
  shows "uhash_rep K (case uhash_update_blocks c x n of (c, x, n) \<Rightarrow>
      if n \<noteq> 0 then c\<lparr>hash := nh_update (hash c) x n, msg_len := msg_len c + of_nat n\<rparr> else c)
    (b @ take n x)"
proof -
  define q r where "q = n div L1_KEY_LEN" and "r = n mod L1_KEY_LEN"
  have n: "n = L1_KEY_LEN * q + r" "r < L1_KEY_LEN" by (simp_all add: q_def r_def)
  obtain c' where c': "uhash_update_blocks c x n = (c', drop (L1_KEY_LEN * q) x, r)"
    "uhash_open K c' (b @ take (L1_KEY_LEN * q) x) []"
    using open_blocks [OF assms(1), of q r x] assms(2) n by auto
  have x: "take n x = take (L1_KEY_LEN * q) x @ take r (drop (L1_KEY_LEN * q) x)"
    by (simp add: n(1) take_add)
  show ?thesis
  proof (cases "r = 0")
    case True
    then show ?thesis
      using c' uhash_open_rep [OF c'(2)] assms(2,3) n x by simp
  next
    case False
    then show ?thesis
      using c'(1) uhash_open_rep [OF open_tail [OF c'(2), of r "drop (L1_KEY_LEN * q) x"]] assms(2,3) n x by simp
  qed
qed

text \<open>Its first half: a block that has begun is completed from the input and absorbed.\<close>

lemma open_complete:
  fixes a :: nat
  assumes op: "uhash_open K c b t" and n: "n \<le> length x" and long: "L1_KEY_LEN \<le> length t + n"
    and nt: "t \<noteq> []" and tot: "length (b @ t) + n > L1_KEY_LEN"
  defines "k \<equiv> L1_KEY_LEN - length t"
  defines "h \<equiv> nh_update (hash c) x k"
  defines "c1 \<equiv> poly_hash (c\<lparr>hash := fst (nh_final a h), msg_len := msg_len c + of_nat k\<rparr>) (snd (nh_final a h))"
  shows "uhash_rep K (case uhash_update_blocks c1 (drop k x) (n - k) of (c, x, n) \<Rightarrow>
      if n \<noteq> 0 then c\<lparr>hash := nh_update (hash c) x n, msg_len := msg_len c + of_nat n\<rparr> else c)
    (b @ t @ take n x)"
proof -
  have t: "length t \<le> L1_KEY_LEN" "ukey c = K" "nh_rep (hash c) t"
    using op by (simp_all add: uhash_open_def)
  have kn: "k \<le> n" "length t + k = L1_KEY_LEN" using long t(1) by (auto simp: k_def)
  have h: "nh_rep h (t @ take k x)" "nh_key h = fst K"
    using nh_update_rep [OF t(3), of k x] t(2) kn n by (auto simp: h_def ukey_def)
  have l: "length (take k x) = L1_KEY_LEN - length t" "length (take k x) = k"
    using kn n by simp_all
  have o1: "uhash_open K c1 (b @ t @ take k x) []"
    using open_close [OF op l(1) prod.collapse [symmetric] h] nt unfolding c1_def l(2) by simp
  have "take n x = take k x @ take (n - k) (drop k x)"
    using take_add [of k "n - k" x] kn by simp
  moreover have "length (b @ t @ take k x) + (n - k) > L1_KEY_LEN"
    using tot kn n by simp
  ultimately show ?thesis
    using open_stream [OF o1, of "n - k" "drop k x"] n by simp
qed

lemma uhash_update_rep:
  assumes rep: "uhash_rep K c m" and n: "n \<le> length x" and cap: "length m + n < 2 ^ 32"
  shows "uhash_rep K (uhash_update a c x n) (m @ take n x)"
proof -
  obtain b t where m: "m = b @ t" and op: "uhash_open K c b t"
    and c: "if length m \<le> L1_KEY_LEN then b = [] else length t < L1_KEY_LEN"
    using rep by (auto simp: uhash_rep_def)
  have ml: "unat (msg_len c) = length m" using uhash_rep_msg_len [OF rep] cap by simp
  have t: "L1_KEY_LEN dvd length b" "length t \<le> L1_KEY_LEN" "ukey c = K" "nh_rep (hash c) t"
    using op by (simp_all add: uhash_open_def)
  show ?thesis
  proof (cases "length m + n \<le> L1_KEY_LEN")
    case True
    then have "b = []" using c by (auto split: if_splits)
    then show ?thesis
      using True open_tail [OF op n] m n ml unfolding uhash_rep_def
      by (intro exI [of _ "[]"] exI [of _ "t @ take n x"]) (simp add: uhash_update_def)
  next
    case False
    have bh: "(if length m = L1_KEY_LEN then L1_KEY_LEN else length m mod L1_KEY_LEN) = length t"
      using c t m by (auto split: if_splits elim!: dvdE)
    show ?thesis
    proof (cases "L1_KEY_LEN \<le> length t + n")
      case short: False
      then have "uhash_update a c x n =
          (if n \<noteq> 0 then c\<lparr>hash := nh_update (hash c) x n, msg_len := msg_len c + of_nat n\<rparr> else c)"
        using False ml bh by (simp add: uhash_update_def Let_def)
      then show ?thesis
        using uhash_open_rep [OF open_tail [OF op n]] short False m n op uhash_open_rep [OF op] by auto
    next
      case long: True
      show ?thesis
      proof (cases "t = []")
        case True
        have "uhash_update a c x n = (case uhash_update_blocks c x n of (c, x, n) \<Rightarrow>
            if n \<noteq> 0 then c\<lparr>hash := nh_update (hash c) x n, msg_len := msg_len c + of_nat n\<rparr> else c)"
          using False ml bh long True by (simp add: uhash_update_def Let_def)
        then show ?thesis
          using open_stream [of K c b n x] op n False m True by simp
      next
        case nt: False
        define k where "k = L1_KEY_LEN - length t"
        define h where "h = nh_update (hash c) x k"
        define c1 where "c1 = poly_hash (c\<lparr>hash := fst (nh_final a h), msg_len := msg_len c + of_nat k\<rparr>) (snd (nh_final a h))"
        have u: "uhash_update a c x n = (case uhash_update_blocks c1 (drop k x) (n - k) of (c, x, n) \<Rightarrow>
            if n \<noteq> 0 then c\<lparr>hash := nh_update (hash c) x n, msg_len := msg_len c + of_nat n\<rparr> else c)"
          using False ml bh long nt
          by (simp add: uhash_update_def Let_def c1_def h_def k_def case_prod_unfold)
        have "length (b @ t) + n > L1_KEY_LEN" using False m by simp
        from open_complete [OF op n long nt this, of a] show ?thesis
          unfolding u m append_assoc c1_def h_def k_def .
      qed
    qed
  qed
qed

lemma st32_big_splice: "STORE_UINT32_BIG m k w = st32 m k (bswap32 w)"
  by (simp add: STORE_UINT32_BIG_def STORE_UINT32_REVERSED_def)

lemma bytes_of_bswap: "bytes_of (bswap32 w) = be32 w"
  using bswap32_col [of "byte3 w" "byte2 w" "byte1 w" "byte0 w"]
  by (simp add: col_bytes bytes_of_def be32_def byte_col)

lemma big_be32:
  "length m = 8 \<Longrightarrow> STORE_UINT32_BIG (STORE_UINT32_BIG m 0 v) 4 w = be32 v @ be32 w"
  by (simp add: st32_big_splice st32_splice bytes_of_bswap be32_def)

lemma ip_short_eq:
  assumes "length res = 8" and "ukey c = K"
  shows "ip_short c d res = be32 (ip_word K d 0) @ be32 (ip_word K d 1)"
  using assms by (auto simp: ip_short_def ukey_def ip_word_def Let_def big_be32)

lemma ip_long_eq:
  assumes "length res = 8" and "ukey c = K" and "length (poly_accum c) = 2"
  shows "\<exists>acc. length acc = 2 \<and> ip_long c res = (c\<lparr>poly_accum := acc\<rparr>,
    be32 (ip_word K (map p64_fix (poly_accum c)) 0) @ be32 (ip_word K (map p64_fix (poly_accum c)) 1))"
proof -
  obtain a0 a1 where a: "poly_accum c = [a0, a1]"
    using assms(3) by (auto simp: numeral_2_eq_2 length_Suc_conv)
  have u: "[0..<2] = [0, 1 :: nat]" by (simp add: upt_rec)
  show ?thesis
    using assms(1,2)
    by (intro exI [of _ "map p64_fix (poly_accum c)"])
      (auto simp: ip_long_def u ip_long_1_def a Let_def ukey_def ip_word_def p64_fix_def big_be32)
qed

lemma uhash_reset_rep:
  assumes "nh_rep (hash c) t" and "length (poly_accum c) = 2" and "ukey c = K"
  shows "uhash_rep K (uhash_reset c) []"
proof -
  obtain a0 a1 where a: "poly_accum c = [a0, a1]"
    using assms(2) by (auto simp: numeral_2_eq_2 length_Suc_conv)
  have "length (nh_data (hash c)) = 64" using assms(1) by (auto simp: nh_rep_def nh_done_def)
  then show ?thesis
    using nh_reset_rep [of "hash c"] assms(3) a
    by (simp add: uhash_rep_def uhash_open_def uhash_reset_def ukey_def)
qed

lemma uhash_final_rep:
  assumes rep: "uhash_rep K c m" and cap: "length m < 2 ^ 32" and res: "length res = 8"
  shows "snd (uhash_final a c res) = uhash_of K m" and "uhash_rep K (fst (uhash_final a c res)) []"
proof -
  obtain b t where m: "m = b @ t" and op: "uhash_open K c b t"
    and bt: "if length m \<le> L1_KEY_LEN then b = [] else length t < L1_KEY_LEN"
    using rep by (auto simp: uhash_rep_def)
  have ml: "unat (msg_len c) = length m" using uhash_rep_msg_len [OF rep cap] .
  have t: "L1_KEY_LEN dvd length b" "length t \<le> L1_KEY_LEN" "ukey c = K" "nh_rep (hash c) t"
    "poly_accum c = poly_run K b"
    using op by (simp_all add: uhash_open_def)
  define h r where "h = fst (nh_final a (hash c))" and "r = snd (nh_final a (hash c))"
  have f: "nh_final a (hash c) = (h, r)" by (simp add: h_def r_def)
  have r: "r = nh_hash (fst K) t" "nh_rep h []" "nh_key h = fst K"
    using nh_final_rep [OF t(4), of a] nh_key_ops(3) [of a "hash c"] t(3)
    by (auto simp: h_def r_def nh_hash_def ukey_def)
  have k: "ukey (c\<lparr>hash := h\<rparr>) = K" "ukey (c\<lparr>hash := h, poly_accum := x\<rparr>) = K"
    "ukey (c\<lparr>poly_accum := x\<rparr>) = K" for x
    using t(3) r(3) by (auto simp: ukey_def)
  show "snd (uhash_final a c res) = uhash_of K m" "uhash_rep K (fst (uhash_final a c res)) []"
  proof (atomize (full), cases "length m \<le> L1_KEY_LEN")
    case True
    then have "t = m" using bt m by simp
    with True show "snd (uhash_final a c res) = uhash_of K m \<and> uhash_rep K (fst (uhash_final a c res)) []"
      using ml f ip_short_eq [OF res k(1)] r k t uhash_reset_rep [OF _ _ k(1), of "[]"]
      by (simp add: uhash_final_def uhash_of_def Let_def)
  next
    case False
    have tm: "length m mod L1_KEY_LEN = length t" using False bt m t(1) by (auto elim!: dvdE)
    define c1 where "c1 = (if t = [] then c else c\<lparr>hash := h, poly_accum := poly_run K m\<rparr>)"
    have c1: "poly_accum c1 = poly_run K m" "ukey c1 = K" "\<exists>t. nh_rep (hash c1) t"
      using m t k r by (auto simp: c1_def)
    obtain acc where acc: "length acc = 2" "ip_long c1 res = (c1\<lparr>poly_accum := acc\<rparr>,
        be32 (ip_word K (map p64_fix (poly_run K m)) 0) @ be32 (ip_word K (map p64_fix (poly_run K m)) 1))"
      using ip_long_eq [OF res c1(2)] c1(1) by auto
    have "poly_hash (c\<lparr>hash := h\<rparr>) r = c1" if "t \<noteq> []"
      using that poly_hash_block [OF _ k(1) r(1)] t m poly_run_append [OF t(1) that t(2), of K]
      by (simp add: c1_def)
    then have e: "uhash_final a c res = (case ip_long c1 res of (c, res) \<Rightarrow> (uhash_reset c, res))"
      using False ml tm f by (simp add: uhash_final_def Let_def c1_def)
    have "uhash_rep K (uhash_reset (c1\<lparr>poly_accum := acc\<rparr>)) []"
      using c1 acc(1) uhash_reset_rep [of "c1\<lparr>poly_accum := acc\<rparr>"] by (auto simp: ukey_def)
    then show "snd (uhash_final a c res) = uhash_of K m \<and> uhash_rep K (fst (uhash_final a c res)) []"
      using e acc c1 False by (simp add: uhash_of_def Let_def)
  qed
qed

lemma poly_block_at:
  assumes "ukey c = K" and "L1_KEY_LEN dvd p" and "p + L1_KEY_LEN \<le> length msg"
    and "poly_accum c = poly_run K (take p msg)"
  shows "poly_hash c (nh (hash c) (drop p msg) L1_KEY_LEN L1_KEY_LEN) =
    c\<lparr>poly_accum := poly_run K (take (p + L1_KEY_LEN) msg)\<rparr>"
proof -
  let ?y = "take L1_KEY_LEN (drop p msg)"
  have y: "length ?y = L1_KEY_LEN" "?y \<noteq> []" using assms(3) by auto
  then have "pad32 ?y = ?y" by (simp add: pad32_def)
  then have r: "nh (hash c) (drop p msg) L1_KEY_LEN L1_KEY_LEN = nh_hash (fst K) ?y"
    using nh_eq [of L1_KEY_LEN "drop p msg" "hash c" L1_KEY_LEN] assms(1,3) y
    by (auto simp: nh_hash_def ukey_def)
  have "L1_KEY_LEN dvd length (take p msg)" using assms(2,3) by simp
  then have "poly_run K (take p msg @ ?y) = poly_block K (poly_run K (take p msg)) ?y"
    using y by (intro poly_run_append) simp_all
  then show ?thesis
    using poly_hash_block [OF _ assms(1) r] assms(4) by (simp add: take_add)
qed

lemma uhash_blocks_eq:
  assumes "ukey c = K" and "L1_KEY_LEN dvd p" and "p + (L1_KEY_LEN * Suc q + r) \<le> length msg"
    and "r < L1_KEY_LEN" and "poly_accum c = poly_run K (take p msg)"
  shows "uhash_blocks c msg p (L1_KEY_LEN * Suc q + r) =
    (c\<lparr>poly_accum := poly_run K (take (p + L1_KEY_LEN * Suc q) msg)\<rparr>, p + L1_KEY_LEN * Suc q, r)"
  using assms(1-3,5)
proof (induction q arbitrary: c p)
  case 0
  then show ?case
    using assms(4) poly_block_at [of c K p msg] by (subst uhash_blocks.simps) simp
next
  case (Suc q)
  have b: "poly_hash c (nh (hash c) (drop p msg) L1_KEY_LEN L1_KEY_LEN) =
      c\<lparr>poly_accum := poly_run K (take (p + L1_KEY_LEN) msg)\<rparr>"
    using poly_block_at [of c K p msg] Suc.prems by simp
  have "uhash_blocks (c\<lparr>poly_accum := poly_run K (take (p + L1_KEY_LEN) msg)\<rparr>) msg (p + L1_KEY_LEN) (L1_KEY_LEN * Suc q + r) =
    (c\<lparr>poly_accum := poly_run K (take (p + L1_KEY_LEN + L1_KEY_LEN * Suc q) msg)\<rparr>, p + L1_KEY_LEN + L1_KEY_LEN * Suc q, r)"
    using Suc.IH [of "c\<lparr>poly_accum := poly_run K (take (p + L1_KEY_LEN) msg)\<rparr>" "p + L1_KEY_LEN"] Suc.prems
    by (simp add: ukey_def)
  then show ?case
    using b by (subst uhash_blocks.simps) (simp add: Let_def add.assoc)
qed

lemma pad32_zeros: "m \<noteq> [] \<Longrightarrow> pad32 m = m @ replicate ((length m + 31) div 32 * 32 - length m) 0"
  by (simp add: pad32_def round_up_32)

lemma zero_pad_pad32:
  assumes "m \<noteq> []" and "take (p + length m) msg = b @ m" and "length b = p"
    and "p + length (pad32 m) \<le> length msg" and "n = length (pad32 m)"
  shows "zero_pad a msg (p + length m) (n - length m) = b @ pad32 m @ drop (p + n) msg"
proof -
  have "p + length m + (n - length m) \<le> length msg" using assms(4,5) pad32_length(2) [of m] by simp
  then show ?thesis
    using assms(1-3,5) pad32_length(2) [of m] by (simp add: zero_pad_eq pad32_zeros)
qed

lemma uhash_short:
  assumes rep: "uhash_rep K c []" and res: "length res = 8" and short: "len \<le> L1_KEY_LEN"
    and len: "len \<le> length msg" and room: "(len + 31) div 32 * 32 \<le> length msg" "32 \<le> length msg"
  shows "uhash_post K msg len (uhash a c msg len res)"
proof -
  have k: "ukey c = K" "nh_key (hash c) = fst K" and acc: "poly_accum c = [1, 1]" and nr: "nh_rep (hash c) []"
    using rep by (auto simp: uhash_rep_def uhash_open_def ukey_def)
  let ?m = "take len msg"
  define n where "n = (if len = 0 then 32 else (len + 31) div 32 * 32)"
  have n: "n = length (pad32 ?m)"
    using len room(2) by (auto simp: n_def pad32_def round_up_32)
  have z: "zero_pad a msg len (n - len) = pad32 ?m @ drop n msg"
  proof (cases "len = 0")
    case False
    then have "?m \<noteq> []" using room(2) by auto
    then show ?thesis
      using zero_pad_pad32 [of ?m 0 msg "[]" n a] False len room n by (simp add: n_def)
  next
    case True
    then show ?thesis using zero_pad_eq [of 0 32 msg a] room by (simp add: n_def pad32_def)
  qed
  have h: "nh (hash c) (pad32 ?m @ drop n msg) n len = nh_hash (fst K) ?m"
    using nh_padded [of ?m len "pad32 ?m @ drop n msg" "hash c"] n len k(2) by simp
  have t: "take len (pad32 ?m) = ?m" using len room(2) by (auto simp: pad32_def)
  have "uhash a c msg len res = (uhash_reset c, ip_short c (nh_hash (fst K) ?m) res, pad32 ?m @ drop n msg)"
    using short z h by (cases "len = 0") (simp_all add: uhash_def Let_def n_def)
  then show ?thesis
    using short len t pad32_length(2) [of ?m] ip_short_eq [OF res k(1)] uhash_reset_rep [OF nr _ k(1)] acc
    by (simp add: uhash_post_def uhash_of_def Let_def min_absorb1)
qed

text \<open>The last, partial block of a long message, at \<open>p\<close>: padded in place, hashed, absorbed.\<close>

lemma uhash_tail:
  fixes a :: nat
  assumes k: "ukey c = K" and p: "L1_KEY_LEN dvd p" and r: "r \<noteq> 0" "r < L1_KEY_LEN" "p + r \<le> length msg"
    and room: "p + (r + 31) div 32 * 32 \<le> length msg"
    and acc: "poly_accum c = poly_run K (take p msg)"
  defines "n \<equiv> (r + 31) div 32 * 32"
  defines "msg' \<equiv> zero_pad a msg (p + r) (n - r)"
  shows "poly_hash c (nh (hash c) (drop p msg') n r) = c\<lparr>poly_accum := poly_run K (take (p + r) msg)\<rparr>"
    and "take (p + r) msg' = take (p + r) msg"
proof -
  let ?t = "take r (drop p msg)"
  have lt: "length ?t = r" "?t \<noteq> []" using r by auto
  have n: "n = length (pad32 ?t)" using lt by (simp add: n_def pad32_def round_up_32)
  have z: "msg' = take p msg @ pad32 ?t @ drop (p + n) msg"
    using zero_pad_pad32 [of ?t p msg "take p msg" n a] lt r room n by (simp add: take_add n_def msg'_def)
  have kp: "nh_key (hash c) = fst K" using k by (auto simp: ukey_def)
  have h: "nh (hash c) (drop p msg') n r = nh_hash (fst K) ?t"
    using nh_padded [of ?t r "pad32 ?t @ drop (p + n) msg" "hash c"] n lt kp z r by simp
  have "L1_KEY_LEN dvd length (take p msg)" using p r(3) by simp
  then have "poly_run K (take (p + r) msg) = poly_block K (poly_run K (take p msg)) ?t"
    using poly_run_append [of "take p msg" ?t K] lt r(2) by (simp add: take_add)
  then show "poly_hash c (nh (hash c) (drop p msg') n r) = c\<lparr>poly_accum := poly_run K (take (p + r) msg)\<rparr>"
    using poly_hash_block [OF _ k h] acc by simp
  have "take r (pad32 ?t) = ?t" using lt by (simp add: pad32_def)
  then show "take (p + r) msg' = take (p + r) msg"
    using z lt r(3) pad32_length(2) [of ?t] by (simp add: take_add)
qed

lemma uhash_long:
  assumes rep: "uhash_rep K c []" and res: "length res = 8" and long: "\<not> len \<le> L1_KEY_LEN"
    and len: "len \<le> length msg" and room: "(len + 31) div 32 * 32 \<le> length msg"
  shows "uhash_post K msg len (uhash a c msg len res)"
proof -
  have k: "ukey c = K" and acc: "poly_accum c = [1, 1]" and nr: "nh_rep (hash c) []"
    using rep by (auto simp: uhash_rep_def uhash_open_def ukey_def)
  define q r where "q = len div L1_KEY_LEN - 1" and "r = len mod L1_KEY_LEN"
  have "len div L1_KEY_LEN \<noteq> 0" using long by simp
  then have l: "len = L1_KEY_LEN * Suc q + r" "r < L1_KEY_LEN" by (simp_all add: q_def r_def)
  let ?p = "L1_KEY_LEN * Suc q" and ?n = "(r + 31) div 32 * 32"
  let ?c = "c\<lparr>poly_accum := poly_run K (take ?p msg)\<rparr>"
  have bl: "uhash_blocks c msg 0 len = (?c, ?p, r)"
    using uhash_blocks_eq [OF k, of 0 q r msg] l len acc by simp
  have "len + 31 = (r + 31) + (32 * Suc q) * 32" using l(1) by simp
  then have rm: "?p + ?n \<le> length msg" using room by (simp only: div_mult_self1) simp
  define c1 where "c1 = c\<lparr>poly_accum := poly_run K (take len msg)\<rparr>"
  define msg' where "msg' = (if r = 0 then msg else zero_pad a msg (?p + r) (?n - r))"
  have tl: "poly_hash ?c (nh (hash c) (drop ?p msg') ?n r) = c1" "take len msg' = take len msg" if "r \<noteq> 0"
    using uhash_tail [of ?c K ?p r msg a] that k l len rm
    by (simp_all add: ukey_def c1_def msg'_def l(1))
  have u: "uhash a c msg len res = (case ip_long c1 res of (c, res) \<Rightarrow> (uhash_reset c, res, msg'))"
  proof (cases "r = 0")
    case True
    then show ?thesis using long bl l by (simp add: uhash_def Let_def c1_def msg'_def case_prod_unfold)
  next
    case False
    then show ?thesis
      using long bl tl(1) by (simp add: uhash_def Let_def msg'_def case_prod_unfold)
  qed
  have c1: "ukey c1 = K" "poly_accum c1 = poly_run K (take len msg)" "nh_rep (hash c1) []"
    using k nr by (simp_all add: c1_def ukey_def)
  obtain acc where a: "length acc = 2" "ip_long c1 res = (c1\<lparr>poly_accum := acc\<rparr>, uhash_of K (take len msg))"
    using ip_long_eq [OF res c1(1)] c1(2) long len by (auto simp: uhash_of_def Let_def min_absorb1)
  have "uhash_rep K (uhash_reset (c1\<lparr>poly_accum := acc\<rparr>)) []"
    using uhash_reset_rep [of "c1\<lparr>poly_accum := acc\<rparr>"] c1 a(1) by (auto simp: ukey_def)
  then show ?thesis using u a(2) tl(2) by (simp add: uhash_post_def msg'_def)
qed

subsection \<open>Keys and arithmetic\<close>

lemma poly_key_mask: "poly_key_ok (x AND (push_bit 32 0x01ffffff + 0x01ffffff))"
proof -
  have m: "push_bit 32 0x01ffffff + 0x01ffffff = (0x01ffffff01ffffff :: u64)"
    by (simp add: push_bit_eq_mult)
  have le: "unat (y AND 0x01ffffff :: u32) < 2 ^ 25" for y
  proof -
    have "y AND 0x01ffffff \<le> 0x01ffffff" by (rule word_and_le1)
    then show ?thesis by (simp add: word_le_nat_alt)
  qed
  have "(ucast (drop_bit 32 (x AND 0x01ffffff01ffffff)) :: u32) = ucast (drop_bit 32 x) AND ucast (drop_bit 32 (0x01ffffff01ffffff :: u64))"
    "(ucast (x AND 0x01ffffff01ffffff) :: u32) = ucast x AND ucast (0x01ffffff01ffffff :: u64)"
    by (rule bit_word_eqI, auto simp: bit_simps)+
  moreover have "(ucast (drop_bit 32 (0x01ffffff01ffffff :: u64)) :: u32) = 0x01ffffff"
    "(ucast (0x01ffffff01ffffff :: u64) :: u32) = 0x01ffffff"
    by simp_all
  ultimately show ?thesis
    using le unat_hi32 [of "x AND 0x01ffffff01ffffff"] unat_lo32 [of "x AND 0x01ffffff01ffffff"]
    unfolding m poly_key_ok_def by metis
qed

lemma poly_word_mod:
  assumes "poly_key_ok key"
  shows "unat (poly_word key acc d) mod P64 =
    (if unat d div 2 ^ 32 = 2 ^ 32 - 1
     then ((unat acc * unat key + (P64 - 1)) * unat key + (unat d - 59)) mod P64
     else (unat acc * unat key + unat d) mod P64)"
proof -
  have hi: "(ucast (drop_bit 32 d) :: u32) = 0xffffffff \<longleftrightarrow> unat d div 2 ^ 32 = 2 ^ 32 - 1"
    by (simp add: word_eq_iff_unsigned [where 'a = nat] unat_hi32)
  show ?thesis
  proof (cases "unat d div 2 ^ 32 = 2 ^ 32 - 1")
    case False
    have "unat d div 2 ^ 32 < 2 ^ 32" using unat_less64 [of d] by (simp add: less_mult_imp_div_less)
    then have "unat d div 2 ^ 32 < 2 ^ 32 - 1" using False by linarith
    then have "unat d < (2 ^ 32 - 1) * 2 ^ 32" by (rule div_less_iff_less_mult [THEN iffD1, rotated]) simp
    then have "unat d < P64" by (simp add: P64_def)
    then show ?thesis using False hi poly64_mod [OF assms] by (simp add: poly_word_def)
  next
    case True
    have p: "unat (p64 - 1) = P64 - 1" by (simp add: P64_def)
    have "59 \<le> unat d" using True by (cases "unat d < 59") simp_all
    then have d: "unat (d - 59) = unat d - 59"
      by (subst unat_sub) (simp_all add: word_le_nat_alt)
    have 1: "unat (poly64 acc key (p64 - 1)) mod P64 = (unat acc * unat key + (P64 - 1)) mod P64"
      using poly64_mod [OF assms, of "p64 - 1" acc] p by (simp add: P64_def)
    have "unat (d - 59) < P64" using unat_less64 [of d] d by (simp add: P64_def)
    note 2 = poly64_mod [OF assms this, of "poly64 acc key (p64 - 1)"]
    have "(unat (poly64 acc key (p64 - 1)) * unat key + (unat d - 59)) mod P64 =
        ((unat acc * unat key + (P64 - 1)) * unat key + (unat d - 59)) mod P64"
      using 1 by (metis mod_add_left_eq mod_mult_left_eq)
    then show ?thesis using True hi 2 d by (simp add: poly_word_def)
  qed
qed

lemma p64_fix_mod: "unat (p64_fix x) = unat x mod P64"
proof (cases "x \<ge> p64")
  case True
  then have "unat (x - p64) = unat x - P64" by (subst unat_sub) (simp_all add: P64_def)
  moreover have "P64 \<le> unat x" "unat x - P64 < P64"
    using True unat_less64 [of x] by (simp_all add: word_le_nat_alt P64_def)
  ultimately show ?thesis using True by (simp add: p64_fix_def le_mod_geq)
next
  case False
  then have "unat x < P64" by (simp add: word_le_nat_alt P64_def)
  then show ?thesis using False by (simp add: p64_fix_def)
qed

lemma replicate_2: "replicate 2 x = [x, x]"
  by (simp add: numeral_2_eq_2)

lemma uhash_init_rep: "uhash_rep (ukey (uhash_init prf)) (uhash_init prf) []"
  using nh_init_rep [of nh_zero "prf"]
  by (simp add: uhash_rep_def uhash_open_def uhash_init_def uhash_zero_def ukey_def nh_zero_def replicate_2 Let_def upt_rec)

lemma uhash_init_ok: "ukey_ok (ukey (uhash_init prf))"
  by (simp add: ukey_ok_def ukey_def uhash_init_def uhash_zero_def Let_def upt_rec uhash_init_key_def
      poly_key_mask [simplified] P36_def unat_mod list_all_iff replicate_2)

lemma ip_word_exact:
  assumes "ukey_ok (kp, pk, ik, tr)" and "i < STREAMS"
  shows "ip_word (kp, pk, ik, tr) ds i = of_nat (ip_sum ik (4 * i) (ds ! i) mod P36) XOR tr ! i"
proof -
  have "unat (ik ! (4 * i + j)) < P36" if "j < 4" for j
    using assms that by (auto simp: ukey_ok_def list_all_length)
  then have "unat (ip_aux 0 ik (4 * i) (ds ! i)) = ip_sum ik (4 * i) (ds ! i)" by (rule ip_aux_sum)
  then have "unat (ip_reduce_p36 (ip_aux 0 ik (4 * i) (ds ! i))) = ip_sum ik (4 * i) (ds ! i) mod P36 mod 2 ^ 32"
    by (simp only: ip_reduce_p36_mod)
  then have "ip_reduce_p36 (ip_aux 0 ik (4 * i) (ds ! i)) = of_nat (ip_sum ik (4 * i) (ds ! i) mod P36)"
    by (simp add: word_eq_iff_unsigned [where 'a = nat] unat_of_nat)
  then show ?thesis by (simp add: ip_word_def mult.commute)
qed

interpretation uhi: hasher "\<lambda>c x. uhash_update a c x (length x)" "\<lambda>c. uhash_final a c (replicate 8 0)"
  uhash_rep uhash_of "2 ^ 32" for a
proof
  fix K c m and x :: "u8 list"
  assume "uhash_rep K c m" and "length m + length x < 2 ^ 32"
  then show "uhash_rep K (uhash_update a c x (length x)) (m @ x)"
    using uhash_update_rep [of K c m "length x" x a] by simp
qed (simp_all add: uhash_final_rep)

subsection \<open>Properties\<close>

lemmas uhash_postI = uhash_short uhash_long

lemma uhash_one_shot:
  assumes "uhash_rep K c []" and "length res = 8" and "len \<le> length msg"
    and "(len + 31) div 32 * 32 \<le> length msg" and "32 \<le> length msg"
  shows "uhash_post K msg len (uhash a c msg len res)"
  using assms uhash_postI [of K c res len msg a] by blast

text \<open>
  C28: the sequential interface agrees with the one-shot \<^verbatim>\<open>uhash\<close>. After \<^verbatim>\<open>uhash_init\<close>, feeding
  a message of less than \<open>2^32\<close> bytes in pieces of any sizes through \<^verbatim>\<open>uhash_update\<close> and calling
  \<^verbatim>\<open>uhash_final\<close> gives the tag \<^verbatim>\<open>uhash\<close> computes on the whole message in a padded buffer, for
  any addresses of the buffers.
\<close>

theorem uhash_sequential_one_shot:
  assumes "concat xs = take len msg" and "len \<le> length msg" and "len < 2 ^ 32"
    and "(len + 31) div 32 * 32 \<le> length msg" and "32 \<le> length msg"
  shows "snd (uhash_final a (foldl (\<lambda>c x. uhash_update a c x (length x)) (uhash_init prf) xs) (replicate 8 0)) =
    fst (snd (uhash b (uhash_init prf) msg len (replicate 8 0)))"
proof -
  have "length (concat xs) < 2 ^ 32" unfolding assms(1) using assms(2,3) by simp
  then show ?thesis
    using uhi.streaming [OF uhash_init_rep, of xs a "prf"] uhash_one_shot [OF uhash_init_rep _ assms(2,4,5), of "replicate 8 0" "prf" b]
    by (simp add: uhash_post_def case_prod_unfold assms(1))
qed

theorem uhash_sequential_one_shot_witness:
  "snd (uhash_final 3 (foldl (\<lambda>c x. uhash_update 3 c x (length x)) (uhash_init (replicate 44 1)) [replicate 1000 7, [], replicate 1060 8]) (replicate 8 0)) =
    fst (snd (uhash 8 (uhash_init (replicate 44 1)) (replicate 1000 7 @ replicate 1060 8 @ replicate 20 9) 2060 (replicate 8 0)))"
  by (rule uhash_sequential_one_shot) simp_all

text \<open>
  a context is ready for the next message after every message, and what was hashed before
  leaves no trace: the second tag is the hash of the second message alone.
\<close>

theorem uhash_reuse:
  assumes "length (concat xs) < 2 ^ 32" and "length (concat ys) < 2 ^ 32"
  shows "snd (uhash_final a (foldl (\<lambda>c x. uhash_update a c x (length x)) (fst (uhash_final a
      (foldl (\<lambda>c x. uhash_update a c x (length x)) (uhash_init prf) xs) (replicate 8 0))) ys) (replicate 8 0)) =
    snd (uhash_final a (foldl (\<lambda>c x. uhash_update a c x (length x)) (uhash_init prf) ys) (replicate 8 0))"
  using uhi.next_message [OF uhash_init_rep assms(1,2), of a "prf"] uhi.streaming [OF uhash_init_rep assms(2), of a "prf"] by simp

theorem uhash_reuse_witness:
  "snd (uhash_final 0 (foldl (\<lambda>c x. uhash_update 0 c x (length x)) (fst (uhash_final 0
      (foldl (\<lambda>c x. uhash_update 0 c x (length x)) (uhash_init (replicate 44 2)) [[1, 2], [3]]) (replicate 8 0))) [[4]]) (replicate 8 0)) =
   snd (uhash_final 0 (foldl (\<lambda>c x. uhash_update 0 c x (length x)) (uhash_init (replicate 44 2)) [[4]]) (replicate 8 0))"
  by (rule uhash_reuse) simp_all

text \<open>
  C29: with the masked keys of \<^verbatim>\<open>uhash_init\<close>, the word arithmetic of \<^verbatim>\<open>poly_hash\<close> is one step of
  Horner's rule modulo the prime \<open>2^64 - 59\<close>: no intermediate sum loses a carry. A word at or
  above \<open>2^64 - 2^32\<close> is escaped by two steps, the marker \<open>P64 - 1\<close> and the word minus 59.
\<close>

theorem poly_hash_horner:
  fixes data :: "u64 list"
  assumes "i < STREAMS" and "length (poly_accum c) = STREAMS" and "ukey c = ukey (uhash_init prf)"
  defines "d \<equiv> unat (data ! i)" and "k \<equiv> unat (poly_key_8 c ! i)" and "x \<equiv> unat (poly_accum c ! i)"
  shows "unat (poly_accum (poly_hash c data) ! i) mod P64 =
    (if d < 2 ^ 64 - 2 ^ 32 then (x * k + d) mod P64 else ((x * k + (P64 - 1)) * k + (d - 59)) mod P64)"
proof -
  have "poly_key_ok (poly_key_8 c ! i)"
    using uhash_init_ok [of "prf"] assms(1) unfolding assms(3) [symmetric]
    by (auto simp: ukey_ok_def ukey_def list_all_length)
  note m = poly_word_mod [OF this, of "poly_accum c ! i" "data ! i"]
  have "d div 2 ^ 32 = 2 ^ 32 - 1 \<longleftrightarrow> \<not> d < 2 ^ 64 - 2 ^ 32"
    using unat_less64 [of "data ! i"] unfolding d_def by (auto simp: div_nat_eqI div_less_iff_less_mult)
  then show ?thesis
    using m assms(1,2) by (simp add: poly_hash_eq d_def k_def x_def)
qed

theorem poly_hash_horner_witness:
  "unat (poly_accum (poly_hash (uhash_init (replicate 44 3)) [5, 6]) ! 1) mod P64 =
    (1 * unat (poly_key_8 (uhash_init (replicate 44 3)) ! 1) + 6) mod P64"
proof -
  have a: "poly_accum (uhash_init (replicate 44 3)) = [1, 1]"
    by (simp add: uhash_init_def uhash_zero_def Let_def upt_rec replicate_2)
  show ?thesis
    using poly_hash_horner [of 1 "uhash_init (replicate 44 3)" "replicate 44 3" "[5, 6]"] a by simp
qed

text \<open>
  C35: the inner-product step is exact: with keys below \<open>2^36 - 5\<close> the sum of four products does
  not overflow 64 bits, and the division-free reduction yields its low 32 bits modulo \<open>2^36 - 5\<close>.
\<close>

theorem ip_hash_exact:
  assumes "\<forall>j < 4. unat (ipkp ! (k + j)) < P36"
  shows "unat (ip_reduce_p36 (ip_aux 0 ipkp k data)) = ip_sum ipkp k data mod P36 mod 2 ^ 32"
  using assms ip_aux_sum [of ipkp k data] by (simp add: ip_reduce_p36_mod)

theorem ip_hash_exact_witness:
  "unat (ip_reduce_p36 (ip_aux 0 (replicate 4 0xFFFFFFFFA) 0 0xFFFFFFFFFFFFFFFF)) =
    ip_sum (replicate 4 0xFFFFFFFFA) 0 0xFFFFFFFFFFFFFFFF mod P36 mod 2 ^ 32"
  by (rule ip_hash_exact) (simp add: P36_def)

lemma alloc_free:
  "case uhash_alloc mem p key of (mem', ctx, r) \<Rightarrow>
    if p = 0 then ctx = 0 \<and> r = None \<and> uhash_free mem' ctx = None
    else 16 dvd ctx \<and> p < ctx \<and> ctx \<le> p + 16 \<and> (\<forall>q. q < p \<or> ctx \<le> q \<longrightarrow> mem' q = mem q) \<and>
      r = Some (uhash_init (aes_key_setup key)) \<and> uhash_free mem' ctx = Some p"
proof (cases "p = 0")
  case False
  have b: "0 < 16 - p mod 16" "16 - p mod 16 \<le> 16" by simp_all
  define q r where "q = p div 16" and "r = p mod 16"
  have "p = 16 * q + r" "r < 16" by (simp_all add: q_def r_def)
  then have "p + (16 - r) = 16 * (q + 1)" by simp
  then have "16 dvd (p + (16 - p mod 16))" unfolding r_def by simp
  moreover have "unat (of_nat (16 - p mod 16) :: u8) = 16 - p mod 16"
    by (subst unat_of_nat, rule mod_less) simp
  ultimately show ?thesis
    using False b by (auto simp: uhash_alloc_def uhash_free_def Let_def)
qed (simp add: uhash_alloc_def uhash_free_def)

text \<open>
  The context returned by \<^verbatim>\<open>uhash_alloc\<close> lies on a 16-byte boundary inside the block that
  \<^verbatim>\<open>malloc\<close> returned with 16 spare bytes, and \<^verbatim>\<open>uhash_free\<close> passes exactly that block's address to
  \<^verbatim>\<open>free\<close>, as long as the byte before the context is kept; a failed \<^verbatim>\<open>malloc\<close> gives no context.
\<close>

theorem uhash_alloc_free:
  "case uhash_alloc mem p key of (mem', ctx, r) \<Rightarrow>
    if p = 0 then ctx = 0 \<and> r = None \<and> uhash_free mem' ctx = None
    else 16 dvd ctx \<and> p < ctx \<and> ctx \<le> p + 16 \<and> (\<forall>q. q < p \<or> ctx \<le> q \<longrightarrow> mem' q = mem q) \<and>
      r = Some (uhash_init (aes_key_setup key)) \<and> uhash_free mem' ctx = Some p"
  by (rule alloc_free)

theorem uhash_alloc_free_witness:
  "case uhash_alloc (\<lambda>_. 0) 4099 (replicate 16 1) of (mem', ctx, r) \<Rightarrow> ctx = 4112 \<and> uhash_free mem' ctx = Some 4099"
  using uhash_alloc_free [where mem = "\<lambda>_. 0" and p = 4099 and key = "replicate 16 1"] by (simp add: uhash_alloc_def Let_def)

end
