(* ===== verification/Umac.thy ===== *)
theory Umac
  imports Umac_Uhash
begin

section \<open>UMAC: the message authentication code\<close>

text \<open>
  The UMAC section of \<^verbatim>\<open>src/sec/umac.c\<close>: a context is a UHASH context and a pad generator;
  the tag of a message under a nonce is its hash exclusive-ored with the pad of the nonce.
  \<open>mem\<close> and \<open>p\<close> of \<^verbatim>\<open>umac_new\<close> are the heap and the address \<^verbatim>\<open>malloc\<close> returned, as in
  \<^verbatim>\<open>uhash_alloc\<close>.
\<close>

record umac_ctx =
  umac_hash :: uhash_ctx
  pdf :: pdf_ctx

definition umac_reset :: "umac_ctx \<Rightarrow> umac_ctx" where
  "umac_reset ctx = ctx\<lparr>umac_hash := uhash_reset (umac_hash ctx)\<rparr>"

definition umac_delete :: "(nat \<Rightarrow> u8) \<Rightarrow> nat \<Rightarrow> nat option" where
  "umac_delete mem ctx =
     (if ctx \<noteq> 0 then Some (ctx - unat (mem (ctx - 1))) else None)"

definition umac_new :: "(nat \<Rightarrow> u8) \<Rightarrow> nat \<Rightarrow> u8 list \<Rightarrow> (nat \<Rightarrow> u8) \<times> nat \<times> umac_ctx option" where
  "umac_new mem p key =
     (if p \<noteq> 0
      then let bytes_to_add = 16 - p mod 16;
               ctx = p + bytes_to_add;
               mem = mem(ctx - 1 := of_nat bytes_to_add);
               prf = aes_key_setup key
           in (mem, ctx, Some \<lparr>umac_hash = uhash_init prf, pdf = pdf_init prf\<rparr>)
      else (mem, 0, None))"

definition umac_final :: "nat \<Rightarrow> umac_ctx \<Rightarrow> u8 list \<Rightarrow> u8 list \<Rightarrow> umac_ctx \<times> u8 list" where
  "umac_final a ctx tag nonce =
     (let (h, tag) = uhash_final a (umac_hash ctx) tag;
          (pc, tag) = pdf_gen_xor (pdf ctx) nonce tag
      in (ctx\<lparr>umac_hash := h, pdf := pc\<rparr>, tag))"

definition umac_update :: "nat \<Rightarrow> umac_ctx \<Rightarrow> u8 list \<Rightarrow> nat \<Rightarrow> umac_ctx" where
  "umac_update a ctx input len = ctx\<lparr>umac_hash := uhash_update a (umac_hash ctx) input len\<rparr>"

definition umac :: "nat \<Rightarrow> umac_ctx \<Rightarrow> u8 list \<Rightarrow> nat \<Rightarrow> u8 list \<Rightarrow> u8 list \<Rightarrow> umac_ctx \<times> u8 list \<times> u8 list" where
  "umac a ctx input len tag nonce =
     (let (h, tag, input) = uhash a (umac_hash ctx) input len tag;
          (pc, tag) = pdf_gen_xor (pdf ctx) nonce tag
      in (ctx\<lparr>umac_hash := h, pdf := pc\<rparr>, tag, input))"

subsection \<open>Specification\<close>

text \<open>The key material of a context, the tag of a message, and what a context has absorbed.\<close>

type_synonym mkey = "ukey \<times> u32 list"

definition mkey_of :: "u8 list \<Rightarrow> mkey" where
  "mkey_of key = (let prf = aes_key_setup key in (ukey (uhash_init prf), prf_key (pdf_init prf)))"

definition umac_of :: "mkey \<Rightarrow> u8 list \<Rightarrow> u8 list \<Rightarrow> u8 list" where
  "umac_of k nonce m = map2 (XOR) (uhash_of (fst k) m) (pad_of (snd k) nonce)"

definition umac_rep :: "mkey \<Rightarrow> umac_ctx \<Rightarrow> u8 list \<Rightarrow> bool" where
  "umac_rep k c m \<longleftrightarrow> uhash_rep (fst k) (umac_hash c) m \<and> pdf_inv (pdf c) \<and> prf_key (pdf c) = snd k"

definition umac_fresh :: "u8 list \<Rightarrow> umac_ctx" where
  "umac_fresh key = (let prf = aes_key_setup key in \<lparr>umac_hash = uhash_init prf, pdf = pdf_init prf\<rparr>)"

subsection \<open>Correctness\<close>

lemma length_uhash_of [simp]: "length (uhash_of K m) = 8"
  by (simp add: uhash_of_def be32_def Let_def)

lemma umac_fresh_rep: "umac_rep (mkey_of key) (umac_fresh key) []"
  by (simp add: umac_rep_def mkey_of_def umac_fresh_def Let_def uhash_init_rep pdf_init_inv)

lemma umac_update_rep:
  "umac_rep k c m \<Longrightarrow> n \<le> length x \<Longrightarrow> length m + n < 2 ^ 32 \<Longrightarrow> umac_rep k (umac_update a c x n) (m @ take n x)"
  by (auto simp: umac_rep_def umac_update_def intro: uhash_update_rep)

lemma pdf_gen_xor_tag:
  assumes "pdf_inv pc" and "length nonce = 8" and "length tag = 8"
  shows "pdf_inv (fst (pdf_gen_xor pc nonce tag))" "prf_key (fst (pdf_gen_xor pc nonce tag)) = prf_key pc"
    "snd (pdf_gen_xor pc nonce tag) = map2 (XOR) tag (pad_of (prf_key pc) nonce)"
  using pdf_gen_xor_correct [OF assms(1,2), of tag] assms(3) by simp_all

lemma umac_final_rep:
  assumes "umac_rep k c m" and "length m < 2 ^ 32" and "length nonce = 8" and "length tag = 8"
  shows "snd (umac_final a c tag nonce) = umac_of k nonce m" and "umac_rep k (fst (umac_final a c tag nonce)) []"
proof -
  obtain K pk where k: "k = (K, pk)" by (cases k)
  have r: "uhash_rep K (umac_hash c) m" "pdf_inv (pdf c)" "prf_key (pdf c) = pk"
    using assms(1) by (simp_all add: k umac_rep_def)
  note f = uhash_final_rep [OF r(1) assms(2,4), of a]
  show "snd (umac_final a c tag nonce) = umac_of k nonce m" "umac_rep k (fst (umac_final a c tag nonce)) []"
    using f pdf_gen_xor_tag [OF r(2) assms(3), of "uhash_of K m"] r(3)
    by (simp_all add: umac_final_def Let_def case_prod_unfold k umac_of_def umac_rep_def)
qed

lemma uhash_reset_rep': "uhash_rep K c m \<Longrightarrow> uhash_rep K (uhash_reset c) []"
  by (auto simp: uhash_rep_def [of K c] uhash_open_def intro: uhash_reset_rep)

lemma umac_reset_rep: "umac_rep k c m \<Longrightarrow> umac_rep k (umac_reset c) []"
  by (auto simp: umac_rep_def umac_reset_def intro: uhash_reset_rep')

text \<open>The nonce is a parameter of the interface; its length is part of the representation.\<close>

interpretation umi: hasher "\<lambda>c x. umac_update a c x (length x)" "\<lambda>c. umac_final a c (replicate 8 0) nonce"
  "\<lambda>k c m. length nonce = 8 \<and> umac_rep k c m" "\<lambda>k m. umac_of k nonce m" "2 ^ 32" for a nonce
proof
  fix k c m and x :: "u8 list"
  assume "length nonce = 8 \<and> umac_rep k c m" and "length m + length x < 2 ^ 32"
  then show "length nonce = 8 \<and> umac_rep k (umac_update a c x (length x)) (m @ x)"
    using umac_update_rep [of k c m "length x" x a] by simp
qed (auto intro: umac_final_rep)

subsection \<open>Properties\<close>

text \<open>
  C3: \<^verbatim>\<open>umac_new\<close>, \<^verbatim>\<open>umac_update\<close> on the pieces of a message and \<^verbatim>\<open>umac_final\<close> produce the tag
  the one-shot \<^verbatim>\<open>umac\<close> produces from the message in a padded buffer, and both are the universal
  hash of the message exclusive-ored with the pad of the nonce, whatever nonces were used in between.
\<close>

theorem umac_sequential_one_shot:
  assumes "p \<noteq> 0" and "length nonce = 8" and "concat xs = take len msg" and "len \<le> length msg" and "len < 2 ^ 32"
    and "(len + 31) div 32 * 32 \<le> length msg" and "32 \<le> length msg"
  shows "\<exists>mem' ctx c. umac_new mem p key = (mem', ctx, Some c) \<and>
    snd (umac_final a (foldl (\<lambda>c x. umac_update a c x (length x)) c xs) (replicate 8 0) nonce) =
      umac_of (mkey_of key) nonce (take len msg) \<and>
    fst (snd (umac b c msg len (replicate 8 0) nonce)) = umac_of (mkey_of key) nonce (take len msg)"
proof -
  have n: "\<exists>mem' ctx. umac_new mem p key = (mem', ctx, Some (umac_fresh key))"
    using assms(1) by (simp add: umac_new_def umac_fresh_def Let_def)
  have "length (concat xs) < 2 ^ 32" unfolding assms(3) using assms(4,5) by simp
  then have 1: "snd (umac_final a (foldl (\<lambda>c x. umac_update a c x (length x)) (umac_fresh key) xs) (replicate 8 0) nonce) =
      umac_of (mkey_of key) nonce (take len msg)"
    using umi.streaming [where a = a and nonce = nonce and c = "umac_fresh key" and xs = xs and k = "mkey_of key"]
      umac_fresh_rep assms(2,3) by simp
  obtain K pk where k: "mkey_of key = (K, pk)" by (cases "mkey_of key")
  have r: "uhash_rep K (umac_hash (umac_fresh key)) []" "pdf_inv (pdf (umac_fresh key))" "prf_key (pdf (umac_fresh key)) = pk"
    using umac_fresh_rep [of key] by (simp_all add: k umac_rep_def)
  have "fst (snd (umac b (umac_fresh key) msg len (replicate 8 0) nonce)) = umac_of (mkey_of key) nonce (take len msg)"
    using uhash_one_shot [OF r(1) _ assms(4,6,7), of "replicate 8 0" b] pdf_gen_xor_tag [OF r(2) assms(2)] r(3)
    by (simp add: umac_def Let_def case_prod_unfold k umac_of_def uhash_post_def)
  with 1 n show ?thesis by blast
qed

theorem umac_sequential_one_shot_witness:
  "\<exists>mem' ctx c. umac_new (\<lambda>_. 0) 64 (replicate 16 1) = (mem', ctx, Some c) \<and>
    snd (umac_final 0 (foldl (\<lambda>c x. umac_update 0 c x (length x)) c [[1, 2], [3]]) (replicate 8 0) (replicate 8 7)) =
      umac_of (mkey_of (replicate 16 1)) (replicate 8 7) (take 3 ([1, 2, 3] @ replicate 29 0)) \<and>
    fst (snd (umac 0 c ([1, 2, 3] @ replicate 29 0) 3 (replicate 8 0) (replicate 8 7))) =
      umac_of (mkey_of (replicate 16 1)) (replicate 8 7) (take 3 ([1, 2, 3] @ replicate 29 0))"
  by (rule umac_sequential_one_shot) simp_all

text \<open>
  \<^verbatim>\<open>umac_delete\<close> frees the block \<^verbatim>\<open>umac_new\<close> obtained: the address it passes to \<^verbatim>\<open>free\<close> is
  the one \<^verbatim>\<open>malloc\<close> returned, and the context is aligned and inside the block.
\<close>

theorem umac_new_delete:
  "case umac_new mem p key of (mem', ctx, r) \<Rightarrow>
    if p = 0 then ctx = 0 \<and> r = None \<and> umac_delete mem' ctx = None
    else 16 dvd ctx \<and> p < ctx \<and> ctx \<le> p + 16 \<and> r = Some (umac_fresh key) \<and> umac_delete mem' ctx = Some p"
proof -
  have e: "umac_new mem p key = (fst (uhash_alloc mem p key), fst (snd (uhash_alloc mem p key)),
      if p = 0 then None else Some (umac_fresh key))" "umac_delete = uhash_free"
    by (simp_all add: umac_new_def uhash_alloc_def umac_fresh_def Let_def umac_delete_def uhash_free_def fun_eq_iff)
  show ?thesis using alloc_free [where mem = mem and p = p and key = key] by (auto simp: e split: prod.splits if_splits)
qed

end
