(* ===== verification/Umac_AE.thy ===== *)
theory Umac_AE
  imports Umac
begin

section \<open>UMAC-AE: authenticated encryption\<close>

text \<open>
  The UMAC-AE section of \<^verbatim>\<open>src/sec/umac.c\<close> and the context of \<^verbatim>\<open>src/sec/umac_ae.h\<close>: counter-mode
  encryption with the pad key of the UMAC context, and a tag over header, ciphertext and
  footer, each padded to 32 bytes, followed by a block with their lengths. The context holds
  the object \<^verbatim>\<open>umac_ctx\<close> points to. \<open>a\<close> is the address of its NH buffer, as in the UMAC theory.
  \<^verbatim>\<open>umac_ae_encrypt\<close> and \<^verbatim>\<open>umac_ae_decrypt\<close> are macros over \<^verbatim>\<open>umac_ae_crypt\<close> that pass the
  output or the input as the text to authenticate: \<open>auth_out\<close> says which.
\<close>

record umac_ae_ctx =
  lengths :: "u32 list"
  ae_nonce :: "u8 list"
  ae_umac :: umac_ctx

text \<open>
  \<open>p\<close> is the address \<^verbatim>\<open>malloc\<close> returns to \<^verbatim>\<open>umac_new\<close>. Without memory the context keeps a null
  pointer that no later call may dereference: there is no context to model then.
\<close>

definition umac_ae_set_key :: "(nat \<Rightarrow> u8) \<Rightarrow> nat \<Rightarrow> u8 list \<Rightarrow> umac_ae_ctx \<Rightarrow> ((nat \<Rightarrow> u8) \<times> nat \<times> umac_ae_ctx) option" where
  "umac_ae_set_key mem p user_key ctx =
     (case umac_new mem p user_key of
        (mem, q, Some u) \<Rightarrow> Some (mem, q, ctx\<lparr>ae_umac := u, lengths := (lengths ctx)[0 := 0, 1 := 0, 2 := 0]\<rparr>)
      | (mem, q, None) \<Rightarrow> None)"

text \<open>
  \<^verbatim>\<open>umac_ae_done\<close> frees the object and zeroes the context: the result is the address \<^verbatim>\<open>umac_delete\<close>
  passes to \<^verbatim>\<open>free\<close>, if it does, and the members of the context after the \<^verbatim>\<open>memset\<close>, \<^verbatim>\<open>lengths\<close>, \<^verbatim>\<open>nonce\<close>
  and the pointer \<^verbatim>\<open>umac_ctx\<close>, which was \<open>q\<close>.
\<close>

definition umac_ae_done :: "(nat \<Rightarrow> u8) \<Rightarrow> nat \<Rightarrow> nat option \<times> u32 list \<times> u8 list \<times> nat" where
  "umac_ae_done mem q =
     (let freed = (if q \<noteq> 0 then umac_delete mem q else None)
      in (freed, replicate 3 0, replicate 8 0, 0))"

definition umac_ae_add :: "nat \<Rightarrow> u8 list \<Rightarrow> nat \<Rightarrow> umac_ae_ctx \<Rightarrow> umac_ae_ctx" where
  "umac_ae_add a d dbytes ctx =
     (let zeros = (32 - dbytes mod 32) mod 32;
          remaining = dbytes mod 32;
          initial = dbytes - dbytes mod 32;
          ctx = (if initial \<noteq> 0 then ctx\<lparr>ae_umac := umac_update a (ae_umac ctx) d initial\<rparr> else ctx)
      in if remaining \<noteq> 0
         then let leftover = take remaining (drop initial d) @ replicate zeros 0
              in ctx\<lparr>ae_umac := umac_update a (ae_umac ctx) leftover 32\<rparr>
         else ctx)"

definition umac_ae_header :: "nat \<Rightarrow> u8 list \<Rightarrow> nat \<Rightarrow> umac_ae_ctx \<Rightarrow> umac_ae_ctx" where
  "umac_ae_header a h hbytes ctx =
     umac_ae_add a h hbytes (ctx\<lparr>lengths := (lengths ctx)[0 := of_nat hbytes]\<rparr>)"

definition umac_ae_footer :: "nat \<Rightarrow> u8 list \<Rightarrow> nat \<Rightarrow> umac_ae_ctx \<Rightarrow> umac_ae_ctx" where
  "umac_ae_footer a f fbytes ctx =
     umac_ae_add a f fbytes (ctx\<lparr>lengths := (lengths ctx)[2 := of_nat fbytes]\<rparr>)"

text \<open>
  The counter loop: \<open>n\<close> iterations are left, \<open>ctr\<close> is the counter, \<open>p\<close> the offset of \<^verbatim>\<open>itp\<close> and
  \<^verbatim>\<open>otp\<close>. The result is the nonce buffer, the output buffer, the counter and the offset.
\<close>

primrec crypt_loop :: "nat \<Rightarrow> u32 list \<Rightarrow> u8 list \<Rightarrow> u32 \<Rightarrow> u8 list \<Rightarrow> u8 list \<Rightarrow> nat \<Rightarrow> u8 list \<times> u8 list \<times> u32 \<times> nat" where
  "crypt_loop 0 key nonce ctr it ot p = (nonce, ot, ctr, p)"
| "crypt_loop (Suc n) key nonce ctr it ot p =
     (let nonce = STORE_UINT32_BIG nonce 12 ctr;
          tmp = aes_encryption nonce (replicate 16 0) key;
          ot = st64 ot p (ld64 it p XOR ld64 tmp 0);
          ot = st64 ot (p + 8) (ld64 it (p + 8) XOR ld64 tmp 8)
      in crypt_loop n key nonce (ctr + 1) it ot (p + 16))"

text \<open>
  The bytes of \<^verbatim>\<open>tmp2\<close> behind the copied ones are whatever the stack holds, the argument \<open>tmp2\<close>;
  the theorems hold for every value of it.
\<close>

definition umac_ae_crypt ::
  "nat \<Rightarrow> u8 list \<Rightarrow> u8 list \<Rightarrow> u8 list \<Rightarrow> bool \<Rightarrow> nat \<Rightarrow> u8 list \<Rightarrow> umac_ae_ctx \<Rightarrow> umac_ae_ctx \<times> u8 list" where
  "umac_ae_crypt a tmp2 it ot auth_out tbytes n ctx =
     (let cipher_key = prf_key (pdf (ae_umac ctx));
          iters = tbytes div 16;
          remaining = tbytes mod 16;
          nonce = take 8 n @ replicate 8 0;
          ctx = ctx\<lparr>ae_nonce := take 8 n, lengths := (lengths ctx)[1 := of_nat tbytes]\<rparr>;
          (nonce, ot, ctr, p) = crypt_loop iters cipher_key nonce 1 it ot 0;
          ot = (if remaining \<noteq> 0
                then let nonce = STORE_UINT32_BIG nonce 12 ctr;
                         tmp = aes_encryption nonce (replicate 16 0) cipher_key;
                         tmp2 = memcpy tmp2 0 (drop p it) remaining;
                         tmp = st64 tmp 0 (ld64 tmp 0 XOR ld64 tmp2 0);
                         tmp = st64 tmp 8 (ld64 tmp 8 XOR ld64 tmp2 8)
                     in memcpy ot p tmp remaining
                else ot);
          at = (if auth_out then ot else it)
      in (umac_ae_add a at tbytes ctx, ot))"

definition ae_len_block :: "u32 list \<Rightarrow> u8 list" where
  "ae_len_block ls =
     (let buf = replicate 32 0;
          bits = ucast (ls ! 0) * 8 :: u64;
          buf = STORE_UINT32_BIG buf 0 (ucast (drop_bit 32 bits));
          buf = STORE_UINT32_BIG buf 4 (ucast bits);
          bits = ucast (ls ! 1) * 8 :: u64;
          buf = STORE_UINT32_BIG buf 8 (ucast (drop_bit 32 bits));
          buf = STORE_UINT32_BIG buf 12 (ucast bits);
          bits = ucast (ls ! 2) * 8 :: u64;
          buf = STORE_UINT32_BIG buf 16 (ucast (drop_bit 32 bits));
          buf = STORE_UINT32_BIG buf 20 (ucast bits);
          buf = st32 buf 24 0
      in st32 buf 28 0)"

definition umac_ae_finalize :: "nat \<Rightarrow> u8 list \<Rightarrow> umac_ae_ctx \<Rightarrow> umac_ae_ctx \<times> u8 list" where
  "umac_ae_finalize a tag ctx =
     (let buf = ae_len_block (lengths ctx);
          u = umac_update a (ae_umac ctx) buf 32;
          (u, tag) = umac_final a u tag (ae_nonce ctx)
      in (ctx\<lparr>ae_umac := u, lengths := (lengths ctx)[0 := 0, 1 := 0, 2 := 0]\<rparr>, tag))"

definition umac_ae_abort :: "umac_ae_ctx \<Rightarrow> umac_ae_ctx" where
  "umac_ae_abort ctx =
     ctx\<lparr>ae_umac := umac_reset (ae_umac ctx), lengths := (lengths ctx)[0 := 0, 1 := 0, 2 := 0]\<rparr>"

subsection \<open>Specification\<close>

text \<open>
  \<open>ctr_block n j\<close> is the AES input of counter \<open>j\<close>, \<open>keystream\<close> the bytes exclusive-ored to the text,
  \<open>pad0\<close> the padding of a part to 32 bytes, \<open>ae_encode\<close> the message that is authenticated.
\<close>

definition ctr_block :: "u8 list \<Rightarrow> u32 \<Rightarrow> u8 list" where
  "ctr_block n ctr = take 8 n @ replicate 4 0 @ be32 ctr"

definition keystream :: "u32 list \<Rightarrow> u8 list \<Rightarrow> nat \<Rightarrow> u8 list" where
  "keystream key n k = concat (map (\<lambda>j. aes key (ctr_block n (of_nat j))) [1..<k + 1])"

definition ctr_crypt :: "u32 list \<Rightarrow> u8 list \<Rightarrow> u8 list \<Rightarrow> u8 list" where
  "ctr_crypt key n m = map2 (XOR) m (take (length m) (keystream key n (length m div 16 + 1)))"

definition pad0 :: "u8 list \<Rightarrow> u8 list" where
  "pad0 m = m @ replicate ((32 - length m mod 32) mod 32) 0"

definition be64_bits :: "nat \<Rightarrow> u8 list" where
  "be64_bits n = be32 (ucast (drop_bit 32 (of_nat (8 * n) :: u64))) @ be32 (ucast (of_nat (8 * n) :: u64))"

definition ae_encode :: "u8 list \<Rightarrow> u8 list \<Rightarrow> u8 list \<Rightarrow> u8 list" where
  "ae_encode h c f = pad0 h @ pad0 c @ pad0 f @ be64_bits (length h) @ be64_bits (length c)
     @ be64_bits (length f) @ replicate 8 0"

definition ae_rep :: "mkey \<Rightarrow> umac_ae_ctx \<Rightarrow> u8 list \<Rightarrow> bool" where
  "ae_rep k c m \<longleftrightarrow> umac_rep k (ae_umac c) m \<and> length (lengths c) = 3"

text \<open>A whole message: header, text, footer, tag, in the order the header file prescribes.\<close>

definition ae_run ::
  "nat \<Rightarrow> u8 list \<Rightarrow> bool \<Rightarrow> u8 list \<Rightarrow> u8 list \<Rightarrow> u8 list \<Rightarrow> u8 list \<Rightarrow> u8 list \<Rightarrow> u8 list \<Rightarrow> umac_ae_ctx \<Rightarrow> umac_ae_ctx \<times> u8 list \<times> u8 list" where
  "ae_run a tmp2 auth_out h it ot f n tag c =
     (let c = umac_ae_header a h (length h) c;
          (c, ot) = umac_ae_crypt a tmp2 it ot auth_out (length it) n c;
          c = umac_ae_footer a f (length f) c;
          (c, tag) = umac_ae_finalize a tag c
      in (c, ot, tag))"

subsection \<open>The life of a context\<close>

text \<open>What \<^verbatim>\<open>umac_ae_set_key\<close> allocates, \<^verbatim>\<open>umac_ae_done\<close> frees, and a second \<^verbatim>\<open>umac_ae_done\<close> frees nothing.\<close>

lemma umac_ae_done_frees:
  assumes "umac_ae_set_key mem p user_key ctx = Some (mem', q, ctx')"
  shows "umac_ae_done mem' q = (Some p, replicate 3 0, replicate 8 0, 0) \<and> fst (umac_ae_done m 0) = None"
  using assms umac_new_delete [where mem = mem and p = p and key = user_key]
  by (auto simp: umac_ae_set_key_def umac_ae_done_def split: prod.splits option.splits if_splits)

subsection \<open>Counter mode\<close>

lemma st64_xor2:
  assumes "k + 8 \<le> length m" and "i + 8 \<le> length x" and "j + 8 \<le> length y"
  shows "st64 m k (ld64 x i XOR ld64 y j) =
    take k m @ map2 (XOR) (take 8 (drop i x)) (take 8 (drop j y)) @ drop (k + 8) m"
  using assms
  by (simp add: st64_def ucast_xor64 ld64_halves st32_splice bytes_of_xor ld32_bytes map2_xor_take_8
      add.commute)

lemma st64_xor_block:
  assumes "p + 16 \<le> length m" and "i + 16 \<le> length x" and "length y = 16"
  shows "st64 (st64 m p (ld64 x i XOR ld64 y 0)) (p + 8) (ld64 x (i + 8) XOR ld64 y 8) =
    take p m @ map2 (XOR) (take 16 (drop i x)) y @ drop (p + 16) m"
proof -
  obtain y1 y2 where y: "y = y1 @ y2" "length y1 = 8" "length y2 = 8"
    using assms(3) that [of "take 8 y" "drop 8 y"] by simp
  have x: "take 16 (drop i x) = take 8 (drop i x) @ take 8 (drop (i + 8) x)"
    using take_add [of 8 8 "drop i x"] by (simp add: add.commute)
  show ?thesis
    using assms y unfolding x by (simp add: st64_xor2 add.commute)
qed

lemma ctr_nonce:
  assumes "length n = 8" and "length w = 4"
  shows "STORE_UINT32_BIG (n @ replicate 4 0 @ w) 12 ctr = ctr_block n ctr"
  using assms by (simp add: STORE_UINT32_BIG_def STORE_UINT32_REVERSED_def st32_splice bytes_of_bswap ctr_block_def)

lemma ctr_block_parts: "length n = 8 \<Longrightarrow> ctr_block n ctr = n @ replicate 4 0 @ be32 ctr \<and> length (be32 ctr) = 4"
  by (simp add: ctr_block_def be32_def)

lemma crypt_loop_eq:
  assumes "length n = 8" and "length w = 4" and "p + 16 * q \<le> length it" and "p + 16 * q \<le> length ot"
  shows "\<exists>w'. length w' = 4 \<and> crypt_loop q key (n @ replicate 4 0 @ w) (of_nat (Suc i)) it ot p =
    (n @ replicate 4 0 @ w',
     take p ot @ map2 (XOR) (take (16 * q) (drop p it)) (concat (map (\<lambda>j. aes key (ctr_block n (of_nat j))) [Suc i..<Suc i + q]))
       @ drop (p + 16 * q) ot,
     of_nat (Suc i + q), p + 16 * q)"
  using assms(2-4)
proof (induction q arbitrary: w i ot p)
  case (Suc q)
  let ?t = "aes key (ctr_block n (of_nat (Suc i)))"
  define ot1 where "ot1 = take p ot @ map2 (XOR) (take 16 (drop p it)) ?t @ drop (p + 16) ot"
  have "st64 (st64 ot p (ld64 it p XOR ld64 ?t 0)) (p + 8) (ld64 it (p + 8) XOR ld64 ?t 8) = ot1"
    unfolding ot1_def using Suc.prems by (intro st64_xor_block) simp_all
  then have step: "crypt_loop (Suc q) key (n @ replicate 4 0 @ w) (of_nat (Suc i)) it ot p =
      crypt_loop q key (n @ replicate 4 0 @ be32 (of_nat (Suc i))) (of_nat (Suc (Suc i))) it ot1 (p + 16)"
    using ctr_nonce [OF assms(1) Suc.prems(1), of "of_nat (Suc i)"] ctr_block_parts [OF assms(1), of "of_nat (Suc i)"]
    by (simp add: Let_def aes_encryption_eq add.commute)
  have l: "length ot1 = length ot" "take (p + 16) ot1 = take p ot @ map2 (XOR) (take 16 (drop p it)) ?t"
    "\<And>k. p + 16 \<le> k \<Longrightarrow> drop k ot1 = drop k ot"
    using Suc.prems by (simp_all add: ot1_def)
  have u: "[Suc i..<Suc i + Suc q] = Suc i # [Suc (Suc i)..<Suc (Suc i) + q]" by (simp add: upt_rec)
  have "map2 (XOR) (take (16 * Suc q) (drop p it)) (concat (map (\<lambda>j. aes key (ctr_block n (of_nat j))) [Suc i..<Suc i + Suc q])) =
    map2 (XOR) (take 16 (drop p it)) ?t @ map2 (XOR) (take (16 * q) (drop (p + 16) it))
      (concat (map (\<lambda>j. aes key (ctr_block n (of_nat j))) [Suc (Suc i)..<Suc (Suc i) + q]))"
    using Suc.prems(2) unfolding u by (simp add: take_add zip_append add.commute)
  then show ?case
    unfolding step using Suc.IH [of "be32 (of_nat (Suc i))" "p + 16" ot1 "Suc i"] Suc.prems l
    by (simp add: be32_def ac_simps)
qed auto

lemma length_keystream [simp]: "length (keystream key n k) = 16 * k"
  by (simp add: keystream_def length_concat_aes)

lemma map2_take_right: "length xs \<le> k \<Longrightarrow> map2 f xs (take k ys) = map2 f xs ys"
  using take_zip [of k xs ys] by simp

lemma ctr_crypt_zip: "ctr_crypt key n m = map2 (XOR) m (keystream key n (length m div 16 + 1))"
  by (simp add: ctr_crypt_def map2_take_right)

lemma length_ctr_crypt [simp]: "length (ctr_crypt key n m) = length m"
proof -
  have "length m \<le> 16 * (length m div 16 + 1)" by presburger
  then show ?thesis by (simp add: ctr_crypt_zip)
qed

lemma map2_xor_twice: "length xs \<le> length ys \<Longrightarrow> map2 (XOR) (map2 (XOR) xs ys) ys = (xs :: u8 list)"
  by (induction xs ys rule: list_induct2') (auto simp: xor.assoc)

lemma ctr_crypt_twice [simp]: "ctr_crypt key n (ctr_crypt key n m) = m"
proof -
  have "length m \<le> 16 * (length m div 16 + 1)" by presburger
  then have "map2 (XOR) (ctr_crypt key n m) (keystream key n (length m div 16 + 1)) = m"
    unfolding ctr_crypt_zip [of key n m] by (intro map2_xor_twice) simp
  then show ?thesis using ctr_crypt_zip [of key n "ctr_crypt key n m"] by simp
qed

lemma crypt_tail:
  assumes "length tmp = 16" and "length tmp2 = 16" and "r \<le> 16" and "r \<le> length x"
  defines "t2 \<equiv> memcpy tmp2 0 x r"
  defines "t1 \<equiv> st64 tmp 0 (ld64 tmp 0 XOR ld64 t2 0)"
  shows "take r (st64 t1 8 (ld64 t1 8 XOR ld64 t2 8)) = map2 (XOR) (take r x) tmp"
proof -
  have l2: "length t2 = 16" "take r t2 = take r x" using assms(1-4) by (simp_all add: t2_def memcpy_def)
  have t1: "t1 = map2 (XOR) (take 8 tmp) (take 8 t2) @ drop 8 tmp"
    unfolding t1_def using assms(1) l2(1) st64_xor2 [of 0 tmp 0 tmp 0 t2] by simp
  have "st64 t1 8 (ld64 t1 8 XOR ld64 t2 8) =
      map2 (XOR) (take 8 tmp) (take 8 t2) @ map2 (XOR) (drop 8 tmp) (drop 8 t2)"
    using st64_xor2 [of 8 t1 8 t1 8 t2] assms(1) l2(1) by (simp add: t1)
  also have "\<dots> = map2 (XOR) (take 8 tmp @ drop 8 tmp) (take 8 t2 @ drop 8 t2)"
    using assms(1) l2(1) by (subst zip_append) simp_all
  finally have "take r (st64 t1 8 (ld64 t1 8 XOR ld64 t2 8)) = map2 (XOR) (take r tmp) (take r t2)"
    by (simp add: take_map take_zip)
  also have "\<dots> = map2 (XOR) (take r x) tmp"
    unfolding l2(2) using assms(1,3,4) by (intro nth_equalityI) (auto simp: xor.commute)
  finally show ?thesis .
qed

lemma keystream_Suc: "keystream key n (Suc q) = keystream key n q @ aes key (ctr_block n (of_nat (Suc q)))"
  by (simp add: keystream_def)

lemma ctr_crypt_split:
  assumes "length m = 16 * q + r" and "r < 16"
  shows "ctr_crypt key n m = map2 (XOR) (take (16 * q) m) (keystream key n q) @
    map2 (XOR) (drop (16 * q) m) (aes key (ctr_block n (of_nat (Suc q))))"
proof -
  have "ctr_crypt key n m = map2 (XOR) (take (16 * q) m @ drop (16 * q) m)
      (keystream key n q @ aes key (ctr_block n (of_nat (Suc q))))"
    using assms by (simp add: ctr_crypt_zip keystream_Suc)
  moreover have "zip (take (16 * q) m @ drop (16 * q) m) (keystream key n q @ aes key (ctr_block n (of_nat (Suc q)))) =
      zip (take (16 * q) m) (keystream key n q) @ zip (drop (16 * q) m) (aes key (ctr_block n (of_nat (Suc q))))"
    using assms(1) by (intro zip_append) simp
  ultimately show ?thesis by (simp only: map_append)
qed

lemma umac_ae_crypt_text:
  assumes "length n = 8" and "length tmp2 = 16" and "tbytes \<le> length it" and "tbytes \<le> length ot"
  shows "snd (umac_ae_crypt a tmp2 it ot auth_out tbytes n c) =
    ctr_crypt (prf_key (pdf (ae_umac c))) n (take tbytes it) @ drop tbytes ot"
proof -
  define q r where "q = tbytes div 16" and "r = tbytes mod 16"
  have t: "tbytes = 16 * q + r" "r < 16" by (simp_all add: q_def r_def)
  let ?key = "prf_key (pdf (ae_umac c))"
  obtain w where w: "length w = 4" "crypt_loop q ?key (n @ replicate 4 0 @ replicate 4 0) (of_nat (Suc 0)) it ot 0 =
    (n @ replicate 4 0 @ w, map2 (XOR) (take (16 * q) it) (keystream ?key n q) @ drop (16 * q) ot, of_nat (Suc q), 16 * q)"
    using crypt_loop_eq [OF assms(1), of "replicate 4 0" 0 q it ot ?key 0] assms t by (auto simp: keystream_def)
  have n8: "replicate 8 (0 :: u8) = replicate 4 0 @ replicate 4 0" by (simp flip: replicate_add)
  define ot1 where "ot1 = map2 (XOR) (take (16 * q) it) (keystream ?key n q) @ drop (16 * q) ot"
  have o1: "length (map2 (XOR) (take (16 * q) it) (keystream ?key n q)) = 16 * q" using assms t by simp
  note sp = ctr_crypt_split [of "take tbytes it" q r ?key n]
  have e: "snd (umac_ae_crypt a tmp2 it ot auth_out tbytes n c) = (if r = 0 then ot1 else
      memcpy ot1 (16 * q) (take r (let tmp = aes ?key (ctr_block n (of_nat (Suc q))); t2 = memcpy tmp2 0 (drop (16 * q) it) r;
        t1 = st64 tmp 0 (ld64 tmp 0 XOR ld64 t2 0) in st64 t1 8 (ld64 t1 8 XOR ld64 t2 8))) r)"
    using w assms(1) ctr_nonce [OF assms(1) w(1)]
    by (simp add: umac_ae_crypt_def Let_def n8 q_def [symmetric] r_def [symmetric] ot1_def aes_encryption_eq memcpy_def)
  show ?thesis
  proof (cases "r = 0")
    case True
    then show ?thesis using e sp assms t by (simp add: ot1_def)
  next
    case False
    have x: "take r (let tmp = aes ?key (ctr_block n (of_nat (Suc q))); t2 = memcpy tmp2 0 (drop (16 * q) it) r;
        t1 = st64 tmp 0 (ld64 tmp 0 XOR ld64 t2 0) in st64 t1 8 (ld64 t1 8 XOR ld64 t2 8)) =
      map2 (XOR) (take r (drop (16 * q) it)) (aes ?key (ctr_block n (of_nat (Suc q))))"
      unfolding Let_def using assms t by (intro crypt_tail) simp_all
    have "drop (16 * q) (take tbytes it) = take r (drop (16 * q) it)" by (simp add: t(1) drop_take)
    then show ?thesis
      using False sp assms t o1 unfolding e x by (simp add: memcpy_def ot1_def add.commute)
  qed
qed

lemma length_pad0: "32 dvd length (pad0 m)" "length m \<le> length (pad0 m)" "length (pad0 m) < length m + 32"
  by (simp_all add: pad0_def flip: round_up_32)

lemma umac_ae_add_rep:
  assumes rep: "ae_rep k c m" and n: "n \<le> length d" and cap: "length m + length (pad0 (take n d)) < 2 ^ 32"
  shows "ae_rep k (umac_ae_add a d n c) (m @ pad0 (take n d))"
    and "lengths (umac_ae_add a d n c) = lengths c" and "ae_nonce (umac_ae_add a d n c) = ae_nonce c"
proof -
  define i r where "i = n - n mod 32" and "r = n mod 32"
  have ir: "i + r = n" by (simp add: i_def r_def)
  define c1 where "c1 = (if i \<noteq> 0 then c\<lparr>ae_umac := umac_update a (ae_umac c) d i\<rparr> else c)"
  have l: "length m + n < 2 ^ 32" using cap n length_pad0(2) [of "take n d"] by simp
  have r1: "ae_rep k c1 (m @ take i d)"
    using rep n ir l by (auto simp: c1_def ae_rep_def intro!: umac_update_rep)
  have td: "take n d = take i d @ take r (drop i d)" using take_add [of i r d] ir by simp
  define left where "left = take r (drop i d) @ replicate ((32 - r) mod 32) 0"
  have add: "umac_ae_add a d n c = (if r \<noteq> 0 then c1\<lparr>ae_umac := umac_update a (ae_umac c1) left 32\<rparr> else c1)"
    by (simp add: umac_ae_add_def Let_def i_def r_def c1_def left_def)
  have pad: "pad0 (take n d) = take i d @ left"
  proof -
    have "length (take n d) = n" using n by simp
    then show ?thesis unfolding pad0_def by (simp add: td left_def r_def)
  qed
  show "ae_rep k (umac_ae_add a d n c) (m @ pad0 (take n d))"
  proof (cases "r = 0")
    case True
    then show ?thesis using r1 add pad by (simp add: left_def)
  next
    case False
    have ll: "length left = 32" using False n ir by (simp add: left_def r_def)
    then show ?thesis
      using r1 umac_update_rep [of k "ae_umac c1" "m @ take i d" 32 left a] cap pad add False
      by (simp add: ae_rep_def)
  qed
  show "lengths (umac_ae_add a d n c) = lengths c" "ae_nonce (umac_ae_add a d n c) = ae_nonce c"
    by (simp_all add: add c1_def)
qed

lemma STORE_big: "k + 4 \<le> length m \<Longrightarrow> STORE_UINT32_BIG m k w = take k m @ be32 w @ drop (k + 4) m"
  by (simp add: STORE_UINT32_BIG_def STORE_UINT32_REVERSED_def st32_splice bytes_of_bswap)

lemma length_be32 [simp]: "length (be32 w) = 4"
  by (simp add: be32_def)

lemma bits_of_length:
  assumes "n < 2 ^ 32"
  shows "ucast (of_nat n :: u32) * 8 = (of_nat (8 * n) :: u64)"
proof -
  have "unat (of_nat n :: u32) = n" using assms by (simp add: unat_of_nat)
  then have "(ucast (of_nat n :: u32) :: u64) = of_nat n" 
    using assms by (simp add: word_eq_iff_unsigned [where 'a = nat] unat_ucast32 unat_of_nat)
  then show ?thesis by simp
qed

lemma ae_len_block_eq:
  assumes "h < 2 ^ 32" and "c < 2 ^ 32" and "f < 2 ^ 32"
  shows "ae_len_block [of_nat h, of_nat c, of_nat f] =
    be64_bits h @ be64_bits c @ be64_bits f @ replicate 8 0"
proof -
  have z: "bytes_of 0 = [0, 0, 0, 0]"
    by (simp add: bytes_of_def byte0_def byte1_def byte2_def byte3_def)
  have r: "[0, 0, 0, 0] @ [0, 0, 0, 0] = replicate 8 (0 :: u8)" by (simp add: numeral_eq_Suc)
  show ?thesis
    unfolding ae_len_block_def Let_def
    by (simp add: bits_of_length [OF assms(1)] bits_of_length [OF assms(2)] bits_of_length [OF assms(3)]
        STORE_big st32_splice z be64_bits_def r [symmetric] del: of_nat_mult)
qed

lemma umac_ae_finalize_rep:
  assumes rep: "ae_rep k c m" and n: "length (ae_nonce c) = 8" and cap: "length m + 32 < 2 ^ 32" and tag: "length tag = 8"
  shows "snd (umac_ae_finalize a tag c) = umac_of k (ae_nonce c) (m @ ae_len_block (lengths c))"
    and "ae_rep k (fst (umac_ae_finalize a tag c)) []"
proof -
  have l: "length (ae_len_block (lengths c)) = 32"
    by (simp add: ae_len_block_def Let_def STORE_UINT32_BIG_def STORE_UINT32_REVERSED_def st32_def)
  have r: "umac_rep k (umac_update a (ae_umac c) (ae_len_block (lengths c)) 32) (m @ ae_len_block (lengths c))"
    using umac_update_rep [of k "ae_umac c" m 32 "ae_len_block (lengths c)" a] rep l cap by (simp add: ae_rep_def)
  have "length (m @ ae_len_block (lengths c)) < 2 ^ 32" using l cap by simp
  note f = umac_final_rep [OF r this n tag, of a]
  show "snd (umac_ae_finalize a tag c) = umac_of k (ae_nonce c) (m @ ae_len_block (lengths c))"
    "ae_rep k (fst (umac_ae_finalize a tag c)) []"
    using f rep by (simp_all add: umac_ae_finalize_def Let_def case_prod_unfold ae_rep_def)
qed

lemma ae_run_correct:
  fixes auth_out :: bool
  assumes rep: "ae_rep k c []" and n: "length n = 8" and tmp2: "length tmp2 = 16"
    and ot: "length it \<le> length ot" and tag: "length tag = 8"
    and cap: "length h + length it + length f < 2 ^ 32 - 128"
  defines "x \<equiv> ctr_crypt (snd k) n it"
  defines "at \<equiv> (if auth_out then x else it)"
  shows "ae_run a tmp2 auth_out h it ot f n tag c =
      (fst (ae_run a tmp2 auth_out h it ot f n tag c), x @ drop (length it) ot, umac_of k n (ae_encode h at f)) \<and>
    ae_rep k (fst (ae_run a tmp2 auth_out h it ot f n tag c)) []"
proof -
  have caps: "length (pad0 h) + length (pad0 it) + length (pad0 f) + 32 < 2 ^ 32" "length at = length it"
    "length h < 2 ^ 32" "length it < 2 ^ 32" "length f < 2 ^ 32" "length (pad0 at) = length (pad0 it)"
    using cap length_pad0(3) [of h] length_pad0(3) [of it] length_pad0(3) [of f]
    by (simp_all add: at_def x_def pad0_def)
  obtain l0 l1 l2 where ls: "lengths c = [l0, l1, l2]"
    using rep by (auto simp: ae_rep_def numeral_3_eq_3 length_Suc_conv)
  define c1 where "c1 = umac_ae_header a h (length h) c"
  have c1: "ae_rep k c1 (pad0 h)" "lengths c1 = [of_nat (length h), l1, l2]"
    using umac_ae_add_rep [of k "c\<lparr>lengths := (lengths c)[0 := of_nat (length h)]\<rparr>" "[]" "length h" h a] rep caps ls
    by (simp_all add: c1_def umac_ae_header_def ae_rep_def)
  have key: "prf_key (pdf (ae_umac c1)) = snd k" using c1(1) by (simp add: ae_rep_def umac_rep_def)
  define c2 where "c2 = fst (umac_ae_crypt a tmp2 it ot auth_out (length it) n c1)"
  have ot2: "snd (umac_ae_crypt a tmp2 it ot auth_out (length it) n c1) = x @ drop (length it) ot"
    using umac_ae_crypt_text [OF n tmp2 _ ot, of it a auth_out c1] key by (simp add: x_def)
  have "c2 = umac_ae_add a (if auth_out then x @ drop (length it) ot else it) (length it)
      (c1\<lparr>ae_nonce := n, lengths := (lengths c1)[1 := of_nat (length it)]\<rparr>)"
    using ot2 n unfolding c2_def umac_ae_crypt_def Let_def by (simp add: case_prod_unfold)
  moreover have "take (length it) (if auth_out then x @ drop (length it) ot else it) = at"
    by (simp add: at_def x_def)
  ultimately have c2: "ae_rep k c2 (pad0 h @ pad0 at)" "lengths c2 = [of_nat (length h), of_nat (length it), l2]" "ae_nonce c2 = n"
    using umac_ae_add_rep [of k "c1\<lparr>ae_nonce := n, lengths := (lengths c1)[1 := of_nat (length it)]\<rparr>" "pad0 h" "length it"
        "if auth_out then x @ drop (length it) ot else it" a] c1 caps
    by (simp_all add: ae_rep_def x_def)
  define c3 where "c3 = umac_ae_footer a f (length f) c2"
  have c3: "ae_rep k c3 (pad0 h @ pad0 at @ pad0 f)" "lengths c3 = [of_nat (length h), of_nat (length it), of_nat (length f)]" "ae_nonce c3 = n"
    using umac_ae_add_rep [of k "c2\<lparr>lengths := (lengths c2)[2 := of_nat (length f)]\<rparr>" "pad0 h @ pad0 at" "length f" f a] c2 caps
    by (simp_all add: c3_def umac_ae_footer_def ae_rep_def)
  have run: "ae_run a tmp2 auth_out h it ot f n tag c =
      (fst (umac_ae_finalize a tag c3), x @ drop (length it) ot, snd (umac_ae_finalize a tag c3))"
    using ot2 by (simp add: ae_run_def c1_def [symmetric] c2_def [symmetric] c3_def [symmetric] case_prod_unfold Let_def)
  show ?thesis
    using umac_ae_finalize_rep [OF c3(1) _ _ tag, of a] c3(2,3) n caps ae_len_block_eq [OF caps(3,4,5)]
    unfolding run by (simp add: ae_encode_def)
qed

lemma set_key_rep:
  assumes "umac_ae_set_key mem p key c0 = Some (mem', q, c)" and "length (lengths c0) = 3"
  shows "ae_rep (mkey_of key) c []"
  using assms umac_fresh_rep [of key]
  by (auto simp: umac_ae_set_key_def umac_new_def umac_fresh_def Let_def ae_rep_def split: if_splits)

lemma umac_ae_abort_rep: "ae_rep k c m \<Longrightarrow> ae_rep k (umac_ae_abort c) []"
  by (auto simp: ae_rep_def umac_ae_abort_def intro: umac_reset_rep)

lemma be32_inj: "be32 v = be32 w \<longleftrightarrow> v = w"
  by (metis be32_def col_bytes list.inject)

lemma be64_bits_inj:
  assumes "m < 2 ^ 32" and "n < 2 ^ 32"
  shows "be64_bits m = be64_bits n \<longleftrightarrow> m = n"
proof
  assume "be64_bits m = be64_bits n"
  then have "ucast (drop_bit 32 (of_nat (8 * m) :: u64)) = (ucast (drop_bit 32 (of_nat (8 * n) :: u64)) :: u32)"
    "ucast (of_nat (8 * m) :: u64) = (ucast (of_nat (8 * n) :: u64) :: u32)"
    by (simp_all add: be64_bits_def be32_inj del: of_nat_mult)
  then have "unat (of_nat (8 * m) :: u64) div 2 ^ 32 = unat (of_nat (8 * n) :: u64) div 2 ^ 32"
    "unat (of_nat (8 * m) :: u64) mod 2 ^ 32 = unat (of_nat (8 * n) :: u64) mod 2 ^ 32"
    by (metis unat_hi32, metis unat_lo32)
  then have "unat (of_nat (8 * m) :: u64) = unat (of_nat (8 * n) :: u64)"
    by (metis div_mult_mod_eq)
  then show "m = n" using assms by (simp add: unat_of_nat del: of_nat_mult)
qed simp

lemma length_be64_bits [simp]: "length (be64_bits n) = 8"
  by (simp add: be64_bits_def)

lemma pad0_inj: "length m = length m' \<Longrightarrow> pad0 m @ xs = pad0 m' @ ys \<longleftrightarrow> m = m' \<and> xs = ys"
  by (simp add: pad0_def)

lemma ae_encode_inj:
  assumes "ae_encode h c f = ae_encode h' c' f'"
    and "length h < 2 ^ 32" "length c < 2 ^ 32" "length f < 2 ^ 32"
    and "length h' < 2 ^ 32" "length c' < 2 ^ 32" "length f' < 2 ^ 32"
  shows "h = h' \<and> c = c' \<and> f = f'"
proof -
  let ?L = "\<lambda>h c f. be64_bits (length h) @ be64_bits (length c) @ be64_bits (length f) @ replicate 8 0"
  have "(pad0 h @ pad0 c @ pad0 f) @ ?L h c f = (pad0 h' @ pad0 c' @ pad0 f') @ ?L h' c' f'"
    using assms(1) by (simp add: ae_encode_def)
  moreover have "length (?L h c f) = length (?L h' c' f')" by simp
  ultimately have 1: "pad0 h @ pad0 c @ pad0 f = pad0 h' @ pad0 c' @ pad0 f'" and "?L h c f = ?L h' c' f'"
    by (metis append_eq_append_conv)+
  then have "length h = length h'" "length c = length c'" "length f = length f'"
    using assms(2-7) by (simp_all add: be64_bits_inj)
  then show ?thesis using 1 pad0_inj [of f f' "[]" "[]"] by (simp add: pad0_inj)
qed

subsection \<open>Properties\<close>

text \<open>
  C6: encryption computes the counter-mode ciphertext and the UMAC tag of the encoding of
  header, ciphertext and footer under the nonce, whatever the output buffers and the stack
  held before; the context is then ready for the next message.
\<close>

theorem umac_ae_encrypt_correct:
  assumes "umac_ae_set_key mem p key c0 = Some (mem', q, c)" and "length (lengths c0) = 3"
    and "length n = 8" and "length tmp2 = 16" and "length pt \<le> length ot" and "length tag = 8"
    and "length h + length pt + length f < 2 ^ 32 - 128"
  shows "\<exists>c'. ae_run a tmp2 True h pt ot f n tag c =
      (c', ctr_crypt (snd (mkey_of key)) n pt @ drop (length pt) ot,
       umac_of (mkey_of key) n (ae_encode h (ctr_crypt (snd (mkey_of key)) n pt) f)) \<and>
    ae_rep (mkey_of key) c' []"
  using ae_run_correct [OF set_key_rep [OF assms(1,2)] assms(3-7), of a True] by auto

theorem umac_ae_encrypt_correct_witness:
  "\<exists>c c'. umac_ae_set_key (\<lambda>_. 0) 64 (replicate 16 1) \<lparr>lengths = [0, 0, 0], ae_nonce = [], ae_umac = umac_fresh []\<rparr> =
       Some ((\<lambda>_. 0)(79 := 16), 80, c) \<and>
    ae_run 0 (replicate 16 9) True [1] [2, 3] [0, 0] [] (replicate 8 5) (replicate 8 0) c =
      (c', ctr_crypt (snd (mkey_of (replicate 16 1))) (replicate 8 5) [2, 3],
       umac_of (mkey_of (replicate 16 1)) (replicate 8 5)
         (ae_encode [1] (ctr_crypt (snd (mkey_of (replicate 16 1))) (replicate 8 5) [2, 3]) []))"
proof -
  obtain c where c: "umac_ae_set_key (\<lambda>_. 0) 64 (replicate 16 1) \<lparr>lengths = [0, 0, 0], ae_nonce = [], ae_umac = umac_fresh []\<rparr> =
       Some ((\<lambda>_. 0)(79 := 16), 80, c)"
    by (simp add: umac_ae_set_key_def umac_new_def Let_def)
  from umac_ae_encrypt_correct [OF this, of "replicate 8 5" "replicate 16 9" "[2, 3]" "[0, 0]" "replicate 8 0" "[1]" "[]" 0] c
  show ?thesis by auto
qed

text \<open>
  C7: decryption inverts encryption: under the same key, nonce, header and footer, with
  contexts and buffers of its own, it returns the plaintext and computes the tag the sender
  computed.
\<close>

theorem umac_ae_decrypt_encrypt:
  assumes "umac_ae_set_key mem1 p1 key c0 = Some (mem1', q1, c)" and "length (lengths c0) = 3"
    and "umac_ae_set_key mem2 p2 key d0 = Some (mem2', q2, d)" and "length (lengths d0) = 3"
    and "length n = 8" and "length s1 = 16" and "length s2 = 16" and "length ot = length pt" and "length ot' = length pt"
    and "length t1 = 8" and "length t2 = 8" and "length h + length pt + length f < 2 ^ 32 - 128"
  shows "\<exists>c' d' ct tag. ae_run a s1 True h pt ot f n t1 c = (c', ct, tag) \<and>
    ae_run b s2 False h ct ot' f n t2 d = (d', pt, tag)"
proof -
  note e = ae_run_correct [OF set_key_rep [OF assms(1,2)] assms(5,6), of pt ot t1 h f a True]
  note d = ae_run_correct [OF set_key_rep [OF assms(3,4)] assms(5,7), of "ctr_crypt (snd (mkey_of key)) n pt" ot' t2 h f b False]
  show ?thesis using e d assms(8-12) by auto
qed

theorem umac_ae_decrypt_encrypt_witness:
  "\<exists>c d c' d' ct tag.
    umac_ae_set_key (\<lambda>_. 0) 64 (replicate 16 1) \<lparr>lengths = [0, 0, 0], ae_nonce = [], ae_umac = umac_fresh []\<rparr> =
       Some ((\<lambda>_. 0)(79 := 16), 80, c) \<and>
    umac_ae_set_key (\<lambda>_. 0) 65 (replicate 16 1) \<lparr>lengths = [7, 0, 0], ae_nonce = [], ae_umac = umac_fresh []\<rparr> =
       Some ((\<lambda>_. 0)(79 := 15), 80, d) \<and>
    ae_run 0 (replicate 16 9) True [1] [2, 3] [0, 0] [] (replicate 8 5) (replicate 8 0) c = (c', ct, tag) \<and>
    ae_run 8 (replicate 16 4) False [1] ct [1, 1] [] (replicate 8 5) (replicate 8 1) d = (d', [2, 3], tag)"
proof -
  obtain c where c: "umac_ae_set_key (\<lambda>_. 0) 64 (replicate 16 1) \<lparr>lengths = [0, 0, 0], ae_nonce = [], ae_umac = umac_fresh []\<rparr> =
       Some ((\<lambda>_. 0)(79 := 16), 80, c)"
    by (simp add: umac_ae_set_key_def umac_new_def Let_def)
  obtain d where d: "umac_ae_set_key (\<lambda>_. 0) 65 (replicate 16 1) \<lparr>lengths = [7, 0, 0], ae_nonce = [], ae_umac = umac_fresh []\<rparr> =
       Some ((\<lambda>_. 0)(79 := 15), 80, d)"
    by (simp add: umac_ae_set_key_def umac_new_def Let_def)
  from umac_ae_decrypt_encrypt [OF c _ d, of "replicate 8 5" "replicate 16 9" "replicate 16 4" "[0, 0]" "[2, 3]" "[1, 1]"
      "replicate 8 0" "replicate 8 1" "[1]" "[]" 0 8] c d
  show ?thesis by auto
qed

text \<open>
  C36: the bytes fed to UMAC (the three parts, each zero-padded to 32 bytes, and the length
  block of \<^verbatim>\<open>umac_ae_finalize\<close>) determine header, ciphertext and footer: no two different
  triples of lengths below \<open>2^32\<close> are authenticated as the same message.
\<close>

theorem umac_ae_encoding_injective:
  assumes "length h < 2 ^ 32" "length c < 2 ^ 32" "length f < 2 ^ 32"
    and "length h' < 2 ^ 32" "length c' < 2 ^ 32" "length f' < 2 ^ 32"
    and "pad0 h @ pad0 c @ pad0 f @ ae_len_block [of_nat (length h), of_nat (length c), of_nat (length f)] =
      pad0 h' @ pad0 c' @ pad0 f' @ ae_len_block [of_nat (length h'), of_nat (length c'), of_nat (length f')]"
  shows "h = h' \<and> c = c' \<and> f = f'"
  using assms by (intro ae_encode_inj) (simp_all add: ae_encode_def ae_len_block_eq)

theorem umac_ae_encoding_injective_witness:
  "pad0 [1] @ pad0 [] @ pad0 [] @ ae_len_block [1, 0, 0] \<noteq> pad0 [1, 0] @ pad0 [] @ pad0 [] @ ae_len_block [2, 0, 0]"
  using umac_ae_encoding_injective [of "[1]" "[]" "[]" "[1, 0]" "[]" "[]"] by auto

subsection \<open>AES inputs\<close>

text \<open>The block function is injective, whatever the round keys are: the inverse cipher undoes it.\<close>

lemma aes_inj:
  assumes "length x = 16" and "length y = 16" and "aes key x = aes key y"
  shows "x = y"
proof -
  have N: "AES_ROUNDS = 2 * Suc 4" by (simp add: AES_ROUNDS_def)
  let ?c = "aes_cipher (rkey key 0) (map (rkey key) [1..<AES_ROUNDS]) (rkey key AES_ROUNDS)"
  have "aes key m = store_block (replicate 16 0) (?c (blk m))" for m
    by (simp add: aes_def aes_encryption_def rijndaelEncrypt_cipher [OF N])
  then have "store_block (replicate 16 0) (?c (blk x)) = store_block (replicate 16 0) (?c (blk y))" using assms(3) by simp
  then have "blk (store_block (replicate 16 0) (?c (blk x))) = blk (store_block (replicate 16 0) (?c (blk y)))" by simp
  then have "?c (blk x) = ?c (blk y)" by (simp add: blk_store_block)
  then have "blk x = blk y" by (metis aes.decipher_cipher)
  then show ?thesis using store_block_blk assms(1,2) by metis
qed

text \<open>
  The key stream that turned the text \<open>it\<close> into the text \<open>ot\<close>, one block of it, and the counter blocks it was
  made from.
\<close>

definition used_stream :: "u8 list \<Rightarrow> u8 list \<Rightarrow> nat \<Rightarrow> u8 list" where
  "used_stream it ot i = map2 (XOR) (take 16 (drop (16 * i) it)) (take 16 (drop (16 * i) ot))"

lemma keystream_block:
  assumes "i < k"
  shows "take 16 (drop (16 * i) (keystream key n k)) = aes key (ctr_block n (of_nat (Suc i)))"
proof -
  have "[1..<k + 1] = [1..<i + 1] @ Suc i # [i + 2..<k + 1]"
    using assms upt_add_eq_append [of 1 "i + 1" "k - i"] by (simp add: upt_conv_Cons)
  then have "keystream key n k = keystream key n i @ aes key (ctr_block n (of_nat (Suc i))) @
      concat (map (\<lambda>j. aes key (ctr_block n (of_nat j))) [i + 2..<k + 1])"
    by (simp add: keystream_def)
  then show ?thesis by simp
qed

lemma xor_cancel: "length xs = length ys \<Longrightarrow> map2 (XOR) xs (map2 (XOR) xs ys) = (ys :: u8 list)"
  by (induction xs ys rule: list_induct2) (simp_all flip: xor.assoc)

lemma used_stream_crypt:
  assumes "length n = 8" and "length tmp2 = 16" and "tbytes \<le> length it" and "tbytes \<le> length ot" and "i < tbytes div 16"
  shows "used_stream it (snd (umac_ae_crypt a tmp2 it ot auth_out tbytes n c)) i =
    aes (prf_key (pdf (ae_umac c))) (ctr_block n (of_nat (Suc i)))"
proof -
  let ?key = "prf_key (pdf (ae_umac c))" and ?m = "take tbytes it"
  have i: "16 * i + 16 \<le> tbytes" using assms(5) div_times_less_eq_dividend [of tbytes 16] by linarith
  have k: "i < length ?m div 16 + 1" using assms(3,5) by (simp add: min_absorb2)
  have "take 16 (drop (16 * i) (ctr_crypt ?key n ?m @ drop tbytes ot)) = take 16 (drop (16 * i) (ctr_crypt ?key n ?m))"
    using i assms(3) by simp
  also have "\<dots> = map2 (XOR) (take 16 (drop (16 * i) ?m)) (take 16 (drop (16 * i) (keystream ?key n (length ?m div 16 + 1))))"
    by (simp only: ctr_crypt_zip drop_map take_map drop_zip take_zip)
  also have "\<dots> = map2 (XOR) (take 16 (drop (16 * i) it)) (aes ?key (ctr_block n (of_nat (Suc i))))"
    using i by (simp only: keystream_block [OF k]) (simp add: drop_take min_absorb1)
  finally show ?thesis
    using i assms(3) unfolding used_stream_def umac_ae_crypt_text [OF assms(1-4)] by (simp add: xor_cancel)
qed

lemma ctr_block_inj: "length n = 8 \<Longrightarrow> length n' = 8 \<Longrightarrow> ctr_block n ctr = ctr_block n' ctr' \<longleftrightarrow> n = n' \<and> ctr = ctr'"
  by (simp add: ctr_block_def be32_inj)

lemma ctr_block_pad: "length n = 8 \<Longrightarrow> length n' = 8 \<Longrightarrow> ctr \<noteq> 0 \<Longrightarrow> ctr_block n ctr \<noteq> pad_input n'"
proof -
  assume l: "length n = 8" "length n' = 8" and c: "ctr \<noteq> 0"
  have z: "replicate 4 0 = be32 0" by (simp add: be32_def byte0_def byte1_def byte2_def byte3_def numeral_eq_Suc)
  have n8: "replicate 8 (0 :: u8) = replicate 4 0 @ replicate 4 0" by (simp flip: replicate_add)
  have "drop 12 (pad_input n') = be32 0" using l(2) by (simp add: pad_input_def n8 flip: z)
  moreover have "drop 12 (ctr_block n ctr) = be32 ctr" using l(1) by (simp add: ctr_block_def)
  ultimately show ?thesis using c be32_inj by metis
qed

lemma length_ctr_block: "length n = 8 \<Longrightarrow> length (ctr_block n ctr) = 16"
  by (simp add: ctr_block_def be32_def)

text \<open>
  C37: key stream and pads are never used twice. Let \<^verbatim>\<open>umac_ae_crypt\<close> process two messages under the
  same key, with the nonces \<open>n\<close> and \<open>n'\<close>. The 16-byte blocks of key stream that it exclusive-ors to the
  texts, numbers \<open>i\<close> and \<open>j\<close>, are equal only when the nonces and the numbers are; and none of them
  is the AES block that \<^verbatim>\<open>pdf_gen_xor\<close> keeps in its cache and takes the pad of a tag from, for
  any nonce, the same one included.
\<close>

theorem umac_ae_inputs_separate:
  assumes "length n = 8" "length tmp2 = 16" "tbytes \<le> length it" "tbytes \<le> length ot" "tbytes < 2 ^ 32" "i < tbytes div 16"
    and "length n' = 8" "length tmp2' = 16" "tbytes' \<le> length it'" "tbytes' \<le> length ot'" "tbytes' < 2 ^ 32" "j < tbytes' div 16"
    and "prf_key (pdf (ae_umac c')) = prf_key (pdf (ae_umac c))"
    and "pdf_inv pc" "prf_key pc = prf_key (pdf (ae_umac c))" "length nonce = 8" "8 \<le> length buf"
  shows "(used_stream it (snd (umac_ae_crypt a tmp2 it ot auth_out tbytes n c)) i =
        used_stream it' (snd (umac_ae_crypt a' tmp2' it' ot' auth_out' tbytes' n' c')) j \<longleftrightarrow> n = n' \<and> i = j) \<and>
    used_stream it (snd (umac_ae_crypt a tmp2 it ot auth_out tbytes n c)) i \<noteq> cache (fst (pdf_gen_xor pc nonce buf)) \<and>
    snd (pdf_gen_xor pc nonce buf) =
      map2 (XOR) (take 8 buf) (take 8 (drop (if bit (nonce ! 7) 0 then 8 else 0) (cache (fst (pdf_gen_xor pc nonce buf))))) @ drop 8 buf"
proof -
  let ?key = "prf_key (pdf (ae_umac c))"
  note u = used_stream_crypt [OF assms(1-4,6), of a auth_out c]
  note u' = used_stream_crypt [OF assms(7-10,12), of a' auth_out' c', unfolded assms(13)]
  have b: "Suc i < 2 ^ 32" "Suc j < 2 ^ 32" using assms(5,6,11,12) by linarith+
  have e: "unat (of_nat (Suc k) :: u32) = Suc k" if "Suc k < 2 ^ 32" for k
    using that by (simp only: unsigned_of_nat take_bit_nat_eq_self len_num1 len_bit0 mult_1_right) (simp add: take_bit_nat_eq_self)
  have w: "(of_nat (Suc i) :: u32) = of_nat (Suc j) \<longleftrightarrow> i = j" "(of_nat (Suc i) :: u32) \<noteq> 0"
    using e [OF b(1)] e [OF b(2)] by (metis Suc_inject, metis Zero_not_Suc unat_0)
  have l: "length (ctr_block n (of_nat (Suc i))) = 16" "length (ctr_block n' (of_nat (Suc j))) = 16" "length (pad_input nonce) = 16"
    using assms(1,7,16) by (simp_all add: length_ctr_block pad_input_def)
  have p: "cache (fst (pdf_gen_xor pc nonce buf)) = aes ?key (pad_input nonce)"
    using pdf_gen_xor_eq [OF assms(14,16)] assms(15) by simp
  have "snd (pdf_gen_xor pc nonce buf) = map2 (XOR) (take 8 buf) (pad_of ?key nonce) @ drop 8 buf"
    using pdf_gen_xor_correct [OF assms(14,16,17)] assms(15) by simp
  then show ?thesis
    unfolding u u' p pad_of_def
    using aes_inj [OF l(1,2)] aes_inj [OF l(1,3)] ctr_block_inj [OF assms(1,7)] ctr_block_pad [OF assms(1,16) w(2)] w(1) by metis
qed

theorem umac_ae_inputs_separate_witness:
  "let c = \<lparr>lengths = [0, 0, 0], ae_nonce = [], ae_umac = umac_fresh (replicate 16 1)\<rparr>;
       ot = snd (umac_ae_crypt 0 (replicate 16 9) (replicate 40 7) (replicate 40 0) True 40 (replicate 8 1) c)
   in used_stream (replicate 40 7) ot 0 \<noteq> used_stream (replicate 40 7) ot 1 \<and>
      used_stream (replicate 40 7) ot 0 \<noteq> cache (fst (pdf_gen_xor (pdf (ae_umac c)) (replicate 8 1) (replicate 8 0)))"
proof -
  let ?c = "\<lparr>lengths = [0, 0, 0], ae_nonce = [], ae_umac = umac_fresh (replicate 16 1)\<rparr>"
  have p: "pdf_inv (pdf (ae_umac ?c))" by (simp add: umac_fresh_def Let_def pdf_init_inv)
  note t = umac_ae_inputs_separate [of "replicate 8 1" "replicate 16 9" 40 "replicate 40 7" "replicate 40 0" 0 "replicate 8 1" "replicate 16 9" 40
    "replicate 40 7" "replicate 40 0" 1 ?c ?c "pdf (ae_umac ?c)" "replicate 8 1" "replicate 8 0" 0 True 0 True, OF _ _ _ _ _ _ _ _ _ _ _ _ _ p]
  show ?thesis using t by (simp add: Let_def)
qed

end
