(* ===== verification/Tbuf.thy ===== *)
theory Tbuf
  imports Prelude
begin

section \<open>Templated buffers\<close>

text \<open>
  \<^verbatim>\<open>tbuf<SZ>\<close> of \<^verbatim>\<open>src/common/tbuf.hh\<close> and \<^verbatim>\<open>src/common/tbuf_impl.hh\<close>: a byte buffer that lives in
  \<open>SZ\<close> preallocated bytes of the object until more is needed, and on the heap from then on.
  \<open>dyn = None\<close> says that \<^verbatim>\<open>data_\<close> points to the preallocated bytes, \<open>dyn = Some b\<close> that it points
  to a heap block with the bytes \<open>b\<close>. The argument \<open>mal\<close> stands for \<^verbatim>\<open>malloc\<close>: the block it
  returns for a size, with the bytes it happens to hold, or \<open>None\<close>. \<^verbatim>\<open>uint64_t\<close> sizes are natural
  numbers: no buffer reaches \<open>2^64\<close> bytes.
\<close>

type_synonym malloc_fn = "nat \<Rightarrow> u8 list option"

record tbuf =
  preallocated :: "u8 list"
  dyn :: "u8 list option"
  bsize :: nat

text \<open>What a returned pointer points to: nothing, the buffer's bytes, or a block that was freed.\<close>

datatype ptr = Null | Data | Freed

definition bdata :: "tbuf \<Rightarrow> u8 list" where
  "bdata t = (case dyn t of None \<Rightarrow> preallocated t | Some d \<Rightarrow> d)"

definition set_data :: "tbuf \<Rightarrow> u8 list \<Rightarrow> tbuf" where
  "set_data t d = (case dyn t of None \<Rightarrow> t\<lparr>preallocated := d\<rparr> | Some _ \<Rightarrow> t\<lparr>dyn := Some d\<rparr>)"

subsection \<open>Operations\<close>

definition tbuf_new :: "u8 list \<Rightarrow> tbuf" where
  "tbuf_new pre = \<lparr>preallocated = pre, dyn = None, bsize = 0\<rparr>"

definition tbuf_new_uchar :: "u8 list \<Rightarrow> u8 \<Rightarrow> tbuf" where
  "tbuf_new_uchar pre c = \<lparr>preallocated = pre[0 := c], dyn = None, bsize = 1\<rparr>"

definition reset :: "tbuf \<Rightarrow> tbuf" where
  "reset t = t\<lparr>dyn := None, bsize := 0\<rparr>"

definition allocate :: "malloc_fn \<Rightarrow> nat \<Rightarrow> tbuf \<Rightarrow> tbuf \<times> ptr" where
  "allocate mal sz t =
     (if sz = 0 then (reset t, case dyn t of None \<Rightarrow> Data | Some _ \<Rightarrow> Freed)
      else if sz \<le> bsize t then (t\<lparr>bsize := sz\<rparr>, Data)
      else if sz \<le> length (preallocated t) \<and> dyn t = None then (t\<lparr>bsize := sz\<rparr>, Data)
      else (case mal sz of
              None \<Rightarrow> (t, Null)
            | Some tmp \<Rightarrow>
                let tmp = (if bsize t > 0 then take (bsize t) (bdata t) @ drop (bsize t) tmp else tmp)
                in (t\<lparr>dyn := Some tmp, bsize := sz\<rparr>, Data)))"

definition allocate_nocopy :: "malloc_fn \<Rightarrow> nat \<Rightarrow> tbuf \<Rightarrow> tbuf \<times> ptr" where
  "allocate_nocopy mal sz t =
     (if sz = 0 then (reset t, Data)
      else if sz \<le> bsize t then (t\<lparr>bsize := sz\<rparr>, Data)
      else if sz \<le> length (preallocated t) then (t\<lparr>dyn := None, bsize := sz\<rparr>, Data)
      else (case mal sz of
              None \<Rightarrow> (t, Null)
            | Some tmp \<Rightarrow> (t\<lparr>dyn := Some tmp, bsize := sz\<rparr>, Data)))"

text \<open>\<open>None\<close> is a null pointer \<^verbatim>\<open>dta\<close>; \<open>Some d\<close> points to the bytes \<open>d\<close>, outside the buffer.\<close>

definition tbuf_set :: "malloc_fn \<Rightarrow> u8 list option \<Rightarrow> nat \<Rightarrow> tbuf \<Rightarrow> tbuf \<times> bool" where
  "tbuf_set mal dta sz t =
     (if sz = 0 then (reset t, True)
      else (case dta of
              None \<Rightarrow> (t, False)
            | Some d \<Rightarrow>
                (case allocate mal sz t of
                   (t, Null) \<Rightarrow> (t, False)
                 | (t, _) \<Rightarrow> (set_data t (take sz d @ drop sz (bdata t)), True))))"

definition tbuf_get :: "tbuf \<Rightarrow> u8 list option" where
  "tbuf_get t = (if bsize t = 0 then None else Some (take (bsize t) (bdata t)))"

definition tbuf_append :: "malloc_fn \<Rightarrow> u8 list option \<Rightarrow> nat \<Rightarrow> tbuf \<Rightarrow> tbuf \<times> bool" where
  "tbuf_append mal dta sz t =
     (if sz = 0 then (t, True)
      else (case dta of
              None \<Rightarrow> (t, False)
            | Some d \<Rightarrow>
                (case allocate mal (bsize t + sz) t of
                   (t, Null) \<Rightarrow> (t, False)
                 | (t, _) \<Rightarrow>
                     let k = bsize t - sz
                     in (set_data t (take k (bdata t) @ take sz d @ drop (k + sz) (bdata t)), True))))"

definition tbuf_append_tbuf :: "malloc_fn \<Rightarrow> tbuf \<Rightarrow> tbuf \<Rightarrow> tbuf \<times> bool" where
  "tbuf_append_tbuf mal other t = tbuf_append mal (Some (bdata other)) (bsize other) t"

text \<open>
  \<^verbatim>\<open>set_at\<close> writes through the pointer \<^verbatim>\<open>allocate\<close> returns without testing it: \<open>None\<close> is the write
  through a null pointer.
\<close>

definition set_at :: "malloc_fn \<Rightarrow> nat \<Rightarrow> u8 \<Rightarrow> tbuf \<Rightarrow> tbuf option" where
  "set_at mal pos c t =
     (if pos \<ge> bsize t
      then (case allocate mal (pos + 1) t of
              (t, Null) \<Rightarrow> None
            | (t, _) \<Rightarrow> Some (set_data t ((bdata t)[pos := c])))
      else Some (set_data t ((bdata t)[pos := c])))"

definition tbuf_append_char :: "malloc_fn \<Rightarrow> u8 \<Rightarrow> tbuf \<Rightarrow> tbuf option" where
  "tbuf_append_char mal c t = set_at mal (bsize t) c t"

definition tbuf_assign :: "malloc_fn \<Rightarrow> tbuf \<Rightarrow> tbuf \<Rightarrow> tbuf" where
  "tbuf_assign mal other t =
     (if bsize other = 0 then reset t
      else (case allocate_nocopy mal (bsize other) t of
              (t, Null) \<Rightarrow> t
            | (t, _) \<Rightarrow> set_data t (take (bsize other) (bdata other) @ drop (bsize other) (bdata t))))"

definition tbuf_eq :: "tbuf \<Rightarrow> tbuf \<Rightarrow> bool" where
  "tbuf_eq t other \<longleftrightarrow>
     (if bsize other \<noteq> bsize t then False
      else if bsize t = 0 then True
      else take (bsize t) (bdata other) = take (bsize t) (bdata t))"

definition is_empty :: "tbuf \<Rightarrow> bool" where "is_empty t \<longleftrightarrow> bsize t = 0"
definition is_static :: "tbuf \<Rightarrow> bool" where "is_static t \<longleftrightarrow> dyn t = None"

subsection \<open>Specification\<close>

text \<open>
  The bytes a buffer holds, and its invariant: they fit into the block \<^verbatim>\<open>data_\<close> points to, and
  an empty buffer owns no heap block. \<open>mal_ok\<close> is the contract of \<^verbatim>\<open>malloc\<close>: a block it returns
  has the size asked for.
\<close>

definition bytes :: "tbuf \<Rightarrow> u8 list" where
  "bytes t = take (bsize t) (bdata t)"

definition tbuf_ok :: "tbuf \<Rightarrow> bool" where
  "tbuf_ok t \<longleftrightarrow> bsize t \<le> length (bdata t) \<and> (bsize t = 0 \<longrightarrow> dyn t = None)"

definition mal_ok :: "malloc_fn \<Rightarrow> bool" where
  "mal_ok mal \<longleftrightarrow> (\<forall>n b. mal n = Some b \<longrightarrow> length b = n)"

text \<open>
  A sequence of appends, with the pieces whose append succeeded.
\<close>

primrec app_all :: "('b list \<Rightarrow> 't \<Rightarrow> 't \<times> bool) \<Rightarrow> 'b list list \<Rightarrow> 't \<Rightarrow> 't \<times> 'b list list" where
  "app_all app [] t = (t, [])"
| "app_all app (d # ds) t =
     (let r = app d t; s = app_all app ds (fst r)
      in (fst s, if snd r then d # snd s else snd s))"

subsection \<open>The interface of a byte buffer\<close>

text \<open>
  What clients of the buffer rely on: an abstraction to a byte list, an invariant, and the
  laws of \<open>set\<close> and \<open>append\<close>, each of which may fail and then leaves the bytes as they were.
\<close>

locale byte_buffer =
  fixes inv :: "'t \<Rightarrow> bool" and cont :: "'t \<Rightarrow> 'b list"
    and put :: "'b list \<Rightarrow> 't \<Rightarrow> 't \<times> bool" and app :: "'b list \<Rightarrow> 't \<Rightarrow> 't \<times> bool"
  assumes put_inv: "inv t \<Longrightarrow> inv (fst (put d t))"
    and app_inv: "inv t \<Longrightarrow> inv (fst (app d t))"
    and put_cont: "inv t \<Longrightarrow> cont (fst (put d t)) = (if snd (put d t) then d else cont t)"
    and app_cont: "inv t \<Longrightarrow> cont (fst (app d t)) = (if snd (app d t) then cont t @ d else cont t)"
begin

lemma app_all_cont:
  "inv t \<Longrightarrow> inv (fst (app_all app ds t)) \<and> cont (fst (app_all app ds t)) = cont t @ concat (snd (app_all app ds t))"
proof (induction ds arbitrary: t)
  case (Cons d ds)
  have "inv (fst (app d t))" using Cons.prems by (rule app_inv)
  from Cons.IH [OF this] show ?case using app_cont [OF Cons.prems, of d] by (simp add: Let_def)
qed simp

lemma put_after_app: "inv t \<Longrightarrow> snd (put d (fst (app_all app ds t))) \<Longrightarrow> cont (fst (put d (fst (app_all app ds t)))) = d"
  using app_all_cont [of t ds] put_cont [of "fst (app_all app ds t)" d] by simp

end

subsection \<open>Correctness\<close>

lemmas tbuf_defs = bdata_def set_data_def bytes_def tbuf_ok_def

lemma reset_ok: "tbuf_ok (reset t)" "bytes (reset t) = []"
  by (simp_all add: reset_def tbuf_defs)

lemma allocate_ok:
  assumes "tbuf_ok t" and "mal_ok mal" and "allocate mal sz t = (t', p)"
  shows "tbuf_ok t'" and "p \<noteq> Null \<Longrightarrow> bsize t' = sz \<and> take (min (bsize t) sz) (bdata t') = take (min (bsize t) sz) (bdata t)"
    and "p = Null \<Longrightarrow> t' = t"
  using assms by (auto simp: allocate_def reset_def tbuf_defs mal_ok_def Let_def split: if_splits option.splits)

lemma set_data_ok:
  "length d = length (bdata t) \<Longrightarrow> tbuf_ok t \<Longrightarrow> tbuf_ok (set_data t d)"
  "bsize (set_data t d) = bsize t" "bdata (set_data t d) = d"
  by (auto simp: tbuf_defs split: option.splits)

lemma tbuf_set_ok:
  assumes "tbuf_ok t" and "mal_ok mal" and "length d = sz"
  shows "tbuf_ok (fst (tbuf_set mal (Some d) sz t))"
    and "bytes (fst (tbuf_set mal (Some d) sz t)) = (if snd (tbuf_set mal (Some d) sz t) then d else bytes t)"
proof -
  obtain t' p where a: "allocate mal sz t = (t', p)" by (cases "allocate mal sz t")
  note al = allocate_ok [OF assms(1,2) a]
  have l: "p \<noteq> Null \<Longrightarrow> sz \<le> length (bdata t')" using al by (auto simp: tbuf_ok_def)
  show "tbuf_ok (fst (tbuf_set mal (Some d) sz t))"
    using al a l assms(3) by (cases p) (auto simp: tbuf_set_def reset_ok assms(1) intro!: set_data_ok)
  show "bytes (fst (tbuf_set mal (Some d) sz t)) = (if snd (tbuf_set mal (Some d) sz t) then d else bytes t)"
    using al a l assms(3) by (cases p) (auto simp: tbuf_set_def reset_def bytes_def set_data_ok)
qed

lemma tbuf_append_ok:
  assumes "tbuf_ok t" and "mal_ok mal" and "length d = sz"
  shows "tbuf_ok (fst (tbuf_append mal (Some d) sz t))"
    and "bytes (fst (tbuf_append mal (Some d) sz t)) =
      (if snd (tbuf_append mal (Some d) sz t) then bytes t @ d else bytes t)"
proof -
  obtain t' p where a: "allocate mal (bsize t + sz) t = (t', p)" by (cases "allocate mal (bsize t + sz) t")
  note al = allocate_ok [OF assms(1,2) a]
  have l: "p \<noteq> Null \<Longrightarrow> bsize t + sz \<le> length (bdata t')" using al by (auto simp: tbuf_ok_def)
  have m: "min (length (bdata t)) (bsize t) = bsize t" using assms(1) by (simp add: tbuf_ok_def)
  show "tbuf_ok (fst (tbuf_append mal (Some d) sz t))"
    using al a l m assms(1,3) by (cases p) (auto simp: tbuf_append_def Let_def intro!: set_data_ok)
  show "bytes (fst (tbuf_append mal (Some d) sz t)) =
      (if snd (tbuf_append mal (Some d) sz t) then bytes t @ d else bytes t)"
    using al a l m assms(3) by (cases p) (auto simp: tbuf_append_def Let_def bytes_def set_data_ok)
qed

lemma allocate_nocopy_ok:
  assumes "tbuf_ok t" and "mal_ok mal" and "allocate_nocopy mal sz t = (t', p)"
  shows "tbuf_ok t'" and "p \<noteq> Null \<Longrightarrow> bsize t' = sz" and "p = Null \<Longrightarrow> t' = t" and "p \<noteq> Freed"
  using assms by (auto simp: allocate_nocopy_def reset_def tbuf_defs mal_ok_def split: if_splits option.splits)

lemma tbuf_assign_ok:
  assumes "tbuf_ok t" and "mal_ok mal" and "tbuf_ok other"
  shows "tbuf_ok (tbuf_assign mal other t)"
    and "bytes (tbuf_assign mal other t) =
      (if snd (allocate_nocopy mal (bsize other) t) = Null then bytes t else bytes other)"
proof -
  obtain t' p where a: "allocate_nocopy mal (bsize other) t = (t', p)" by (cases "allocate_nocopy mal (bsize other) t")
  note al = allocate_nocopy_ok [OF assms(1,2) a]
  have l: "p \<noteq> Null \<Longrightarrow> bsize other \<le> length (bdata t')" using al by (auto simp: tbuf_ok_def)
  have b: "bsize other \<le> length (bdata other)" using assms(3) by (simp add: tbuf_ok_def)
  show "tbuf_ok (tbuf_assign mal other t)"
    using al a l b by (cases p) (auto simp: tbuf_assign_def reset_ok assms(1) intro!: set_data_ok)
  have z: "bsize other = 0 \<Longrightarrow> p = Data" using a by (simp add: allocate_nocopy_def)
  show "bytes (tbuf_assign mal other t) =
      (if snd (allocate_nocopy mal (bsize other) t) = Null then bytes t else bytes other)"
    using al a l b z by (cases p) (auto simp: tbuf_assign_def reset_def bytes_def set_data_ok)
qed

lemma set_at_ok:
  assumes "tbuf_ok t" and "mal_ok mal" and "set_at mal pos c t = Some t'"
  shows "tbuf_ok t' \<and> bsize t' = max (bsize t) (pos + 1) \<and> bytes t' ! pos = c \<and>
    (\<forall>i < bsize t. i \<noteq> pos \<longrightarrow> bytes t' ! i = bytes t ! i)"
proof (cases "bsize t \<le> pos")
  case False
  then show ?thesis
    using assms(1,3) by (auto simp: set_at_def set_data_ok bytes_def tbuf_ok_def split: option.splits)
next
  case True
  obtain u p where a: "allocate mal (pos + 1) t = (u, p)" by (cases "allocate mal (pos + 1) t")
  note al = allocate_ok [OF assms(1,2) a]
  have p: "p \<noteq> Null" and t': "t' = set_data u ((bdata u)[pos := c])"
    using assms(3) True a by (auto simp: set_at_def split: ptr.splits)
  have u: "bsize u = pos + 1" "take (bsize t) (bdata u) = take (bsize t) (bdata t)" "pos < length (bdata u)"
    using al p True by (auto simp: tbuf_ok_def min_def)
  have "bdata u ! i = bdata t ! i" if "i < bsize t" for i
    using u(2) that by (metis nth_take)
  then show ?thesis
    using u True al(1) by (auto simp: t' set_data_ok bytes_def)
qed

lemma tbuf_eq_bytes: "tbuf_ok t \<Longrightarrow> tbuf_ok other \<Longrightarrow> tbuf_eq t other \<longleftrightarrow> bytes t = bytes other"
  by (auto simp: tbuf_eq_def bytes_def tbuf_ok_def dest: arg_cong [of _ _ length])

interpretation tb: byte_buffer "\<lambda>t. mal_ok mal \<and> tbuf_ok t" bytes
  "\<lambda>d. tbuf_set mal (Some d) (length d)" "\<lambda>d. tbuf_append mal (Some d) (length d)" for mal
  by unfold_locales (simp_all add: tbuf_set_ok tbuf_append_ok)

subsection \<open>Properties\<close>

text \<open>
  A buffer is the list of its bytes. \<^verbatim>\<open>set\<close> makes it the given bytes, \<^verbatim>\<open>append\<close> adds them at the
  end, the copy operator copies the other's bytes; each keeps the invariant, and when \<^verbatim>\<open>malloc\<close>
  fails the old bytes stay, wherever they were stored before and are stored after.
\<close>

theorem tbuf_refines_list:
  assumes "tbuf_ok t" and "tbuf_ok other" and "mal_ok mal"
  shows "tbuf_ok (fst (tbuf_set mal (Some d) (length d) t)) \<and>
    bytes (fst (tbuf_set mal (Some d) (length d) t)) = (if snd (tbuf_set mal (Some d) (length d) t) then d else bytes t) \<and>
    tbuf_ok (fst (tbuf_append mal (Some d) (length d) t)) \<and>
    bytes (fst (tbuf_append mal (Some d) (length d) t)) =
      (if snd (tbuf_append mal (Some d) (length d) t) then bytes t @ d else bytes t) \<and>
    tbuf_ok (tbuf_assign mal other t) \<and>
    bytes (tbuf_assign mal other t) = (if snd (allocate_nocopy mal (bsize other) t) = Null then bytes t else bytes other)"
  using tbuf_set_ok [OF assms(1,3) refl] tbuf_append_ok [OF assms(1,3) refl] tbuf_assign_ok [OF assms(1,3,2)] by blast

theorem tbuf_refines_list_witness:
  "bytes (fst (tbuf_append (\<lambda>n. Some (replicate n 7)) (Some [1, 2, 3]) 3 (tbuf_new_uchar (replicate 2 0) 9))) = [9, 1, 2, 3]"
proof -
  let ?t = "tbuf_new_uchar (replicate 2 0) 9" and ?mal = "\<lambda>n. Some (replicate n 7)"
  have "tbuf_ok ?t" "tbuf_ok (tbuf_new [])" "mal_ok ?mal"
    by (simp_all add: tbuf_ok_def mal_ok_def tbuf_new_uchar_def tbuf_new_def bdata_def)
  from tbuf_refines_list [OF this, of "[1, 2, 3]"]
  have "bytes (fst (tbuf_append ?mal (Some [1, 2, 3]) (length [1, 2, 3 :: u8]) ?t)) =
      (if snd (tbuf_append ?mal (Some [1, 2, 3]) (length [1, 2, 3 :: u8]) ?t) then bytes ?t @ [1, 2, 3] else bytes ?t)"
    by blast
  then show ?thesis
    by (simp add: tbuf_new_uchar_def bdata_def bytes_def tbuf_append_def allocate_def set_data_def Let_def numeral_eq_Suc)
qed

text \<open>
  Any sequence of appends to a buffer, some of which may fail for lack of memory, leaves
  the old bytes followed by the pieces that were appended successfully, in their order.
\<close>

theorem tbuf_append_sequence:
  assumes "tbuf_ok t" and "mal_ok mal"
  shows "bytes (fst (app_all (\<lambda>d. tbuf_append mal (Some d) (length d)) ds t)) =
    bytes t @ concat (snd (app_all (\<lambda>d. tbuf_append mal (Some d) (length d)) ds t))"
  using tb.app_all_cont [of mal t ds] assms by simp

theorem tbuf_append_sequence_witness:
  "bytes (fst (app_all (\<lambda>d. tbuf_append (\<lambda>n. None) (Some d) (length d)) [[1], [2, 3, 4], [5]] (tbuf_new [0, 0, 0]))) = [1, 5]"
  using tbuf_append_sequence [of "tbuf_new [0, 0, 0]" "\<lambda>n. None" "[[1], [2, 3, 4], [5]]"]
  by (simp add: tbuf_new_def tbuf_ok_def mal_ok_def bdata_def bytes_def tbuf_append_def allocate_def set_data_def Let_def)

text \<open>
  \<^verbatim>\<open>set_at\<close> sets one byte, growing the buffer to hold it when needed, and changes no other
  byte that was there; \<^verbatim>\<open>operator==\<close> holds exactly for buffers with the same bytes.
\<close>

theorem tbuf_set_at_and_eq:
  assumes "tbuf_ok t" and "mal_ok mal" and "set_at mal pos c t = Some t'" and "tbuf_ok other"
  shows "tbuf_ok t' \<and> bsize t' = max (bsize t) (pos + 1) \<and> bytes t' ! pos = c \<and>
    (\<forall>i < bsize t. i \<noteq> pos \<longrightarrow> bytes t' ! i = bytes t ! i) \<and> (tbuf_eq t other \<longleftrightarrow> bytes t = bytes other)"
  using set_at_ok [OF assms(1-3)] tbuf_eq_bytes [OF assms(1,4)] by blast

theorem tbuf_set_at_and_eq_witness:
  "\<exists>t'. set_at (\<lambda>n. Some (replicate n 0)) 2 5 (tbuf_new_uchar [0] 9) = Some t' \<and> bytes t' ! 2 = 5 \<and> bytes t' ! 0 = 9"
proof -
  obtain t' where t': "set_at (\<lambda>n. Some (replicate n 0)) 2 5 (tbuf_new_uchar [0] 9) = Some t'"
    by (simp add: set_at_def tbuf_new_uchar_def allocate_def Let_def)
  have "tbuf_ok (tbuf_new_uchar [0] 9)" "mal_ok (\<lambda>n. Some (replicate n 0))" "tbuf_ok (tbuf_new [])"
    "bytes (tbuf_new_uchar [0] 9) ! 0 = 9" "bsize (tbuf_new_uchar [0] 9) = 1"
    by (simp_all add: tbuf_ok_def mal_ok_def tbuf_new_uchar_def tbuf_new_def bdata_def bytes_def)
  with tbuf_set_at_and_eq [OF _ _ t', of "tbuf_new []"] t' show ?thesis by auto
qed

text \<open>
  The pointer \<^verbatim>\<open>allocate\<close> returns is valid except in one case: asked for no bytes on a buffer
  that lives on the heap, it returns the address of the block it has just freed, unlike
  \<^verbatim>\<open>allocate_nocopy\<close>, which never does.
\<close>

theorem allocate_dangling:
  "(snd (allocate mal sz t) = Freed \<longleftrightarrow> sz = 0 \<and> \<not> is_static t) \<and> snd (allocate_nocopy mal sz t) \<noteq> Freed"
  by (auto simp: allocate_def allocate_nocopy_def is_static_def Let_def split: option.splits)

end
