(* ===== verification/Crypt_Pkt.thy ===== *)
theory Crypt_Pkt
  imports Umac_AE Tbuf
begin

section \<open>Encrypted packets\<close>

text \<open>
  \<^verbatim>\<open>crypt_pkt::encrypt\<close> and \<^verbatim>\<open>crypt_pkt::decrypt\<close> of \<^verbatim>\<open>src/sec/crypt_pkt.cc\<close>: a packet is a header (the
  salt, which is the nonce), the encryption of four random bytes and the data, and a footer
  (the tag). What the functions get from outside is in the environment: the results of
  \<^verbatim>\<open>malloc\<close>, what fresh memory holds, the results of OpenSSL's \<^verbatim>\<open>RAND_bytes\<close> and
  \<^verbatim>\<open>RAND_pseudo_bytes\<close> (\<open>None\<close> when they fail), and whether the object throws exceptions. The
  scratch buffers of the functions are larger than what they hold (property below), so they
  are the byte lists they contain; the tests that decide whether to copy to an aligned address
  do not change the bytes.
\<close>

datatype sec_exc = rs_salt_size | rs_null_key | rs_too_big | rs_rand_failed | rs_header_size
  | rs_footer_size | rs_null_data | rs_cksum

text \<open>
  \<open>Crash\<close> is the use of a null pointer that a failed allocation left: in the context by
  \<^verbatim>\<open>umac_new\<close>, or as the place for the copy of the key.
\<close>

datatype 'a outcome = Throw sec_exc | Ret_false | Crash | Ok 'a

record crypt_env =
  use_exc :: bool
  ctx_ptr :: nat
  umac_ptr :: nat
  heap0 :: "nat \<Rightarrow> u8"
  ctx_raw :: umac_ae_ctx
  key_junk :: "u8 list"
  stack :: "u8 list"
  res_raw :: "u8 list"
  nh_addr :: nat
  RAND_bytes :: "u8 list option"
  RAND_pseudo_bytes :: "u8 list option"
  mal :: malloc_fn

definition THR :: "crypt_env \<Rightarrow> sec_exc \<Rightarrow> 'a outcome" where
  "THR e r = (if use_exc e then Throw r else Ret_false)"

text \<open>\<^verbatim>\<open>if( p & ~15 ) p += 16 - (p & 15)\<close>\<close>

definition align16 :: "nat \<Rightarrow> nat" where
  "align16 p = (if p div 16 \<noteq> 0 then p + (16 - p mod 16) else p)"

text \<open>\<^verbatim>\<open>umac_new\<close> reads sixteen key bytes; those behind a shorter key are what the memory holds.\<close>

definition key16 :: "crypt_env \<Rightarrow> tbuf \<Rightarrow> u8 list" where
  "key16 e key = take 16 (bytes key @ key_junk e)"

text \<open>
  The key is copied to an aligned address in \<^verbatim>\<open>tbuf<64+48> key0\<close>, which a key of more than 64 bytes
  makes ask \<^verbatim>\<open>malloc\<close>; the pointer is not tested.
\<close>

definition key0_null :: "crypt_env \<Rightarrow> tbuf \<Rightarrow> bool" where
  "key0_null e key \<longleftrightarrow> bsize key + 48 > 64 + 48 \<and> mal e (bsize key + 48) = None"

text \<open>The calls both functions make, from \<^verbatim>\<open>umac_ae_set_key\<close> to \<^verbatim>\<open>umac_ae_finalize\<close>.\<close>

definition ae_packet :: "crypt_env \<Rightarrow> bool \<Rightarrow> u8 list \<Rightarrow> u8 list \<Rightarrow> u8 list \<Rightarrow> (u8 list \<times> u8 list) option" where
  "ae_packet e auth_out key2 salt2 data2 =
     (case umac_ae_set_key (heap0 e) (umac_ptr e) key2 (ctx_raw e) of
        None \<Rightarrow> None
      | Some (mem, q, ctx) \<Rightarrow>
          let ctx = umac_ae_header (nh_addr e) salt2 8 ctx;
              (ctx, res2) = umac_ae_crypt (nh_addr e) (stack e) data2 (res_raw e) auth_out (length data2) salt2 ctx;
              (ctx, tag) = umac_ae_finalize (nh_addr e) salt2 ctx
          in Some (res2, tag))"

definition encrypt :: "crypt_env \<Rightarrow> tbuf \<Rightarrow> tbuf \<Rightarrow> tbuf \<Rightarrow> tbuf \<Rightarrow> tbuf \<Rightarrow> (tbuf \<times> tbuf \<times> tbuf) outcome" where
  "encrypt e salt key header data footer =
     (if bsize salt \<noteq> 8 then THR e rs_salt_size
      else if bsize key = 0 then THR e rs_null_key
      else if bsize data > 65200 then THR e rs_too_big
      else if ctx_ptr e = 0 then Ret_false
      else if key0_null e key then Crash
      else (case (case RAND_bytes e of Some r \<Rightarrow> Some r | None \<Rightarrow> RAND_pseudo_bytes e) of
              None \<Rightarrow> THR e rs_rand_failed
            | Some r \<Rightarrow>
                let salt2 = bytes salt;
                    data2 = r @ bytes data;
                    header = fst (tbuf_set (mal e) (Some salt2) 8 header)
                in (case ae_packet e True (key16 e key) salt2 data2 of
                      None \<Rightarrow> Crash
                    | Some (res2, tag) \<Rightarrow>
                        Ok (header, fst (tbuf_set (mal e) (Some (take (bsize data + 4) res2)) (bsize data + 4) data),
                            fst (tbuf_set (mal e) (Some tag) 8 footer)))))"

definition decrypt :: "crypt_env \<Rightarrow> tbuf \<Rightarrow> tbuf \<Rightarrow> tbuf \<Rightarrow> tbuf \<Rightarrow> tbuf outcome" where
  "decrypt e key header data footer =
     (if bsize header \<noteq> 8 then THR e rs_header_size
      else if bsize footer \<noteq> 8 then THR e rs_footer_size
      else if bsize key = 0 then THR e rs_null_key
      else if bsize data > 65200 then THR e rs_too_big
      else if bsize data < 4 then THR e rs_null_data
      else if ctx_ptr e = 0 then Ret_false
      else if key0_null e key then Crash
      else (case ae_packet e False (key16 e key) (bytes header) (bytes data) of
              None \<Rightarrow> Crash
            | Some (res2, tag) \<Rightarrow>
                if take 8 (bytes footer) = take 8 tag
                then Ok (if bsize data > 4
                         then fst (tbuf_set (mal e) (Some (take (bsize data - 4) (drop 4 res2))) (bsize data - 4) data)
                         else reset data)
                else THR e rs_cksum))"

subsection \<open>Specification\<close>

text \<open>
  What the environment promises: blocks of the size asked for, random bytes in the number asked
  for. \<open>seal\<close> and \<open>tag_of\<close> are the ciphertext and the tag of a packet.
\<close>

definition env_ok :: "crypt_env \<Rightarrow> nat \<Rightarrow> bool" where
  "env_ok e n \<longleftrightarrow> ctx_ptr e \<noteq> 0 \<and> umac_ptr e \<noteq> 0 \<and> length (lengths (ctx_raw e)) = 3 \<and> length (stack e) = 16 \<and>
     n \<le> length (res_raw e) \<and> mal_ok (mal e) \<and>
     (\<forall>r. RAND_bytes e = Some r \<or> RAND_pseudo_bytes e = Some r \<longrightarrow> length r = 4)"

definition tag_of :: "u8 list \<Rightarrow> u8 list \<Rightarrow> u8 list \<Rightarrow> u8 list" where
  "tag_of key salt ct = umac_of (mkey_of key) salt (ae_encode salt ct [])"

definition seal :: "u8 list \<Rightarrow> u8 list \<Rightarrow> u8 list \<Rightarrow> u8 list" where
  "seal key salt m = ctr_crypt (snd (mkey_of key)) salt m"

text \<open>An environment in which memory does not run out.\<close>

definition mal_total :: "crypt_env \<Rightarrow> bool" where
  "mal_total e \<longleftrightarrow> (\<forall>n. mal e n \<noteq> None)"

text \<open>The random bytes \<^verbatim>\<open>encrypt\<close> uses; the arguments both calls accept.\<close>

definition rand4 :: "crypt_env \<Rightarrow> u8 list option" where
  "rand4 e = (case RAND_bytes e of Some r \<Rightarrow> Some r | None \<Rightarrow> RAND_pseudo_bytes e)"

definition pkt_args :: "tbuf \<Rightarrow> tbuf \<Rightarrow> tbuf \<Rightarrow> tbuf \<Rightarrow> tbuf \<Rightarrow> bool" where
  "pkt_args salt key header data footer \<longleftrightarrow> tbuf_ok salt \<and> tbuf_ok key \<and> tbuf_ok header \<and> tbuf_ok data \<and> tbuf_ok footer \<and>
     bsize salt = 8 \<and> bsize key \<noteq> 0 \<and> bsize data \<le> 65200"

text \<open>A buffer holding given bytes and an environment, for the examples.\<close>

definition tbuf_of :: "u8 list \<Rightarrow> tbuf" where
  "tbuf_of xs = \<lparr>preallocated = xs, dyn = None, bsize = length xs\<rparr>"

definition env0 :: "malloc_fn \<Rightarrow> crypt_env" where
  "env0 ml = \<lparr>use_exc = True, ctx_ptr = 32, umac_ptr = 64, heap0 = (\<lambda>_. 0),
     ctx_raw = \<lparr>lengths = [0, 0, 0], ae_nonce = [], ae_umac = umac_fresh []\<rparr>, key_junk = [], stack = replicate 16 7,
     res_raw = replicate 65252 9, nh_addr = 0, RAND_bytes = None, RAND_pseudo_bytes = Some [1, 2, 3, 4], mal = ml\<rparr>"

subsection \<open>Correctness\<close>

lemma umac_ae_footer_empty: "length (lengths c) = 3 \<Longrightarrow> lengths c ! 2 = 0 \<Longrightarrow> umac_ae_footer a [] 0 c = c"
  by (simp add: umac_ae_footer_def umac_ae_add_def Let_def list_update_same_conv)

lemma umac_ae_add_lengths: "lengths (umac_ae_add a d n c) = lengths c"
  by (simp add: umac_ae_add_def Let_def)

lemma ae_packet_eq:
  assumes "env_ok e (length m)" and "length salt = 8" and "length m < 2 ^ 31"
  shows "ae_packet e auth_out key salt m =
    Some (seal key salt m @ drop (length m) (res_raw e), tag_of key salt (if auth_out then seal key salt m else m))"
proof -
  obtain mem q c where k: "umac_ae_set_key (heap0 e) (umac_ptr e) key (ctx_raw e) = Some (mem, q, c)"
    using assms(1) by (auto simp: umac_ae_set_key_def umac_new_def Let_def env_ok_def)
  have l3: "length (lengths (ctx_raw e)) = 3" using assms(1) by (simp add: env_ok_def)
  note rep = set_key_rep [OF k l3]
  have lc: "length (lengths c) = 3" "lengths c ! 2 = 0"
    using k l3 by (auto simp: umac_ae_set_key_def umac_new_def Let_def env_ok_def split: if_splits)
  have run: "ae_run (nh_addr e) (stack e) auth_out salt m (res_raw e) [] salt salt c =
      (fst (ae_run (nh_addr e) (stack e) auth_out salt m (res_raw e) [] salt salt c),
       seal key salt m @ drop (length m) (res_raw e), tag_of key salt (if auth_out then seal key salt m else m))"
    unfolding seal_def tag_of_def
    by (rule conjunct1, rule ae_run_correct [OF rep assms(2)]) (use assms in \<open>simp_all add: env_ok_def\<close>)
  define c2 where "c2 = fst (umac_ae_crypt (nh_addr e) (stack e) m (res_raw e) auth_out (length m) salt (umac_ae_header (nh_addr e) salt 8 c))"
  have "lengths c2 = (lengths c)[0 := 8, 1 := of_nat (length m)]"
    by (simp add: c2_def umac_ae_crypt_def umac_ae_header_def umac_ae_add_lengths Let_def case_prod_unfold)
  then have "umac_ae_footer (nh_addr e) [] 0 c2 = c2" using lc by (intro umac_ae_footer_empty) simp_all
  then have "ae_packet e auth_out key salt m = Some (snd (ae_run (nh_addr e) (stack e) auth_out salt m (res_raw e) [] salt salt c))"
    using k assms(2) by (simp add: ae_packet_def ae_run_def Let_def case_prod_unfold c2_def)
  then show ?thesis by (simp add: run [THEN arg_cong [of _ _ snd]])
qed

lemma length_seal [simp]: "length (seal key salt m) = length m"
  by (simp add: seal_def)

lemma seal_twice [simp]: "seal key salt (seal key salt m) = m"
  by (simp add: seal_def)

lemma length_tag_of [simp]: "length (tag_of key salt ct) = 8"
  by (simp add: tag_of_def umac_of_def pad_of_def)

lemma length_bytes: "tbuf_ok t \<Longrightarrow> length (bytes t) = bsize t"
  by (simp add: bytes_def tbuf_ok_def)

lemma tbuf_set_bytes:
  assumes "mal_total e" and "mal_ok (mal e)" and "tbuf_ok t" and "length d = n"
  shows "bytes (fst (tbuf_set (mal e) (Some d) n t)) = d \<and> tbuf_ok (fst (tbuf_set (mal e) (Some d) n t))"
proof -
  obtain b where "mal e n = Some b" using assms(1) by (auto simp: mal_total_def)
  then have "snd (allocate (mal e) n t) \<noteq> Null"
    by (auto simp: allocate_def Let_def split: option.splits)
  then have "snd (tbuf_set (mal e) (Some d) n t)"
    by (auto simp: tbuf_set_def split: prod.splits ptr.splits)
  then show ?thesis using tbuf_set_ok [OF assms(3,2,4)] by simp
qed

lemma encrypt_eq:
  assumes a: "pkt_args salt key header data footer" and e: "env_ok e (bsize data + 4)" and r: "rand4 e = Some r"
    and k: "\<not> key0_null e key"
  defines "ct \<equiv> seal (key16 e key) (bytes salt) (r @ bytes data)"
  shows "encrypt e salt key header data footer =
    Ok (fst (tbuf_set (mal e) (Some (bytes salt)) 8 header), fst (tbuf_set (mal e) (Some ct) (bsize data + 4) data),
        fst (tbuf_set (mal e) (Some (tag_of (key16 e key) (bytes salt) ct)) 8 footer))"
    and "length ct = bsize data + 4"
proof -
  have l: "length r = 4" using e r by (auto simp: env_ok_def rand4_def split: option.splits)
  have lb: "length (bytes salt) = 8" "length (bytes data) = bsize data"
    using a by (simp_all add: pkt_args_def length_bytes)
  then show ct: "length ct = bsize data + 4" using l by (simp add: ct_def)
  have "ae_packet e True (key16 e key) (bytes salt) (r @ bytes data) =
      Some (ct @ drop (length (r @ bytes data)) (res_raw e), tag_of (key16 e key) (bytes salt) ct)"
    using ae_packet_eq [of e "r @ bytes data" "bytes salt" True "key16 e key"] e a l lb
    by (simp add: ct_def pkt_args_def add.commute)
  then show "encrypt e salt key header data footer =
    Ok (fst (tbuf_set (mal e) (Some (bytes salt)) 8 header), fst (tbuf_set (mal e) (Some ct) (bsize data + 4) data),
        fst (tbuf_set (mal e) (Some (tag_of (key16 e key) (bytes salt) ct)) 8 footer))"
    using a e r k ct by (simp add: encrypt_def pkt_args_def env_ok_def rand4_def Let_def)
qed

lemma mal_total_key0: "mal_total e \<Longrightarrow> \<not> key0_null e key"
  by (simp add: mal_total_def key0_null_def)

lemma encrypt_bytes:
  assumes a: "pkt_args salt key header data footer" and e: "env_ok e (bsize data + 4)" and t: "mal_total e"
    and enc: "encrypt e salt key header data footer = Ok (h, d, f)"
  obtains r where "length r = 4" "tbuf_ok h" "tbuf_ok d" "tbuf_ok f" "bytes h = bytes salt"
    "bytes d = seal (key16 e key) (bytes salt) (r @ bytes data)" "bytes f = tag_of (key16 e key) (bytes salt) (bytes d)"
proof -
  obtain r where r: "rand4 e = Some r"
    using enc a e mal_total_key0 [OF t, of key] by (cases "rand4 e") (auto simp: encrypt_def rand4_def THR_def pkt_args_def env_ok_def split: if_splits)
  have l: "length r = 4" using e r by (auto simp: env_ok_def rand4_def split: option.splits)
  have m: "mal_ok (mal e)" "tbuf_ok header" "tbuf_ok data" "tbuf_ok footer" "length (bytes salt) = 8"
    using e a by (simp_all add: env_ok_def pkt_args_def length_bytes)
  note eq = encrypt_eq [OF a e r mal_total_key0 [OF t]]
  show thesis
    using that [of r] l eq(1) enc tbuf_set_bytes [OF t m(1) m(2) m(5)] tbuf_set_bytes [OF t m(1) m(3) eq(2)]
      tbuf_set_bytes [OF t m(1) m(4) length_tag_of] by auto
qed

lemma packet_sizes:
  assumes "length r = 4" and "tbuf_ok h" "tbuf_ok d" "tbuf_ok f" and "bytes h = bytes salt"
    and "bytes d = seal k (bytes salt) (r @ bytes data)" and "bytes f = tag_of k (bytes salt) (bytes d)"
    and "tbuf_ok data" "tbuf_ok salt"
  shows "bsize h = bsize salt \<and> bsize f = 8 \<and> bsize d = bsize data + 4"
proof -
  have "bsize h = length (bytes salt)" using length_bytes [OF assms(2)] assms(5) by simp
  moreover have "bsize f = length (tag_of k (bytes salt) (bytes d))" using length_bytes [OF assms(4)] assms(7) by simp
  moreover have "bsize d = length (seal k (bytes salt) (r @ bytes data))" using length_bytes [OF assms(3)] assms(6) by simp
  ultimately show ?thesis using assms(1) length_bytes [OF assms(8)] length_bytes [OF assms(9)] by simp
qed

lemma decrypt_eq:
  assumes "tbuf_ok header" "tbuf_ok data" "tbuf_ok footer" and "bsize header = 8" "bsize footer = 8" "bsize key \<noteq> 0"
    and "4 \<le> bsize data" "bsize data \<le> 65200" and "env_ok e (bsize data)" and "\<not> key0_null e key"
  shows "decrypt e key header data footer =
    (if bytes footer = tag_of (key16 e key) (bytes header) (bytes data)
     then Ok (if bsize data > 4 then fst (tbuf_set (mal e) (Some (drop 4 (seal (key16 e key) (bytes header) (bytes data)))) (bsize data - 4) data)
              else reset data)
     else THR e rs_cksum)"
proof -
  have l: "length (bytes header) = 8" "length (bytes data) = bsize data" "length (bytes footer) = 8"
    using assms by (simp_all add: length_bytes)
  have "ae_packet e False (key16 e key) (bytes header) (bytes data) =
      Some (seal (key16 e key) (bytes header) (bytes data) @ drop (bsize data) (res_raw e), tag_of (key16 e key) (bytes header) (bytes data))"
    using ae_packet_eq [of e "bytes data" "bytes header" False "key16 e key"] assms l by simp
  then show ?thesis
    using assms l by (simp add: decrypt_def env_ok_def)
qed

lemma tbuf_of_simps [simp]: "tbuf_ok (tbuf_of xs)" "bsize (tbuf_of xs) = length xs" "bytes (tbuf_of xs) = xs"
    "preallocated (tbuf_of xs) = xs"
  by (simp_all add: tbuf_of_def tbuf_ok_def bytes_def bdata_def)

lemma env0_simps [simp]: "mal (env0 ml) = ml" "rand4 (env0 ml) = Some [1, 2, 3, 4]"
  by (simp_all add: env0_def rand4_def)

lemma env0_ok: "mal_ok ml \<Longrightarrow> n \<le> 65252 \<Longrightarrow> env_ok (env0 ml) n"
  by (simp add: env_ok_def env0_def)

lemma mal_zero [simp]: "mal_ok (\<lambda>n. Some (replicate n 0))" "mal_total (env0 (\<lambda>n. Some (replicate n 0)))"
  by (simp_all add: mal_ok_def mal_total_def)

subsection \<open>Properties\<close>

text \<open>
  C4: the receiver gets the data back. When \<^verbatim>\<open>encrypt\<close> returns a packet for at most 65196 bytes of
  data under a key of at least 16 bytes, \<^verbatim>\<open>decrypt\<close> with the same key, in an environment of its
  own, accepts the packet and returns the data, for every salt, random bytes and memory contents.
\<close>

theorem crypt_pkt_roundtrip:
  assumes "pkt_args salt key header data footer" and "16 \<le> bsize key" and "bsize data \<le> 65196"
    and "env_ok e1 (bsize data + 4)" and "mal_total e1" and "env_ok e2 (bsize data + 4)" and "mal_total e2"
    and "encrypt e1 salt key header data footer = Ok (h, d, f)"
  shows "\<exists>d'. decrypt e2 key h d f = Ok d' \<and> bytes d' = bytes data"
proof -
  obtain r where r: "length r = 4" "tbuf_ok h" "tbuf_ok d" "tbuf_ok f" "bytes h = bytes salt"
    "bytes d = seal (key16 e1 key) (bytes salt) (r @ bytes data)" "bytes f = tag_of (key16 e1 key) (bytes salt) (bytes d)"
    using encrypt_bytes [OF assms(1,4,5,8)] by blast
  have ok: "tbuf_ok data" "tbuf_ok salt" "tbuf_ok key" "bsize key \<noteq> 0" "bsize salt = 8"
    using assms(1) by (simp_all add: pkt_args_def)
  have k: "key16 e2 key = key16 e1 key" using assms(2) ok(3) by (simp add: key16_def length_bytes)
  have s: "bsize h = 8" "bsize f = 8" "bsize d = bsize data + 4"
    using packet_sizes [OF r ok(1,2)] ok(5) by simp_all
  have m: "mal_ok (mal e2)" using assms(6) by (simp add: env_ok_def)
  have dec: "drop 4 (seal (key16 e2 key) (bytes h) (bytes d)) = bytes data"
    by (simp add: k r(1,5,6))
  have "decrypt e2 key h d f = Ok (if bsize d > 4 then fst (tbuf_set (mal e2) (Some (bytes data)) (bsize data) d) else reset d)"
    using decrypt_eq [of h d f key e2, OF _ _ _ _ _ _ _ _ _ mal_total_key0 [OF assms(7)]] r s ok assms(3,6) k dec by simp
  moreover have "bytes (fst (tbuf_set (mal e2) (Some (bytes data)) (bsize data) d)) = bytes data"
    by (rule tbuf_set_bytes [OF assms(7) m r(3) length_bytes [OF ok(1)], THEN conjunct1])
  moreover have "bsize data = 0 \<Longrightarrow> bytes data = []" by (simp add: bytes_def)
  ultimately show ?thesis using s(3) reset_ok(2) by auto
qed

theorem crypt_pkt_roundtrip_witness:
  "\<exists>h d f d'. encrypt (env0 (\<lambda>n. Some (replicate n 0))) (tbuf_of (replicate 8 5)) (tbuf_of (replicate 16 1)) (tbuf_of []) (tbuf_of [104, 105]) (tbuf_of []) = Ok (h, d, f) \<and>
     decrypt (env0 (\<lambda>n. Some (replicate n 0))) (tbuf_of (replicate 16 1)) h d f = Ok d' \<and> bytes d' = [104, 105]"
proof -
  let ?e = "env0 (\<lambda>n. Some (replicate n 0))"
  have a: "pkt_args (tbuf_of (replicate 8 5)) (tbuf_of (replicate 16 1)) (tbuf_of []) (tbuf_of [104, 105]) (tbuf_of [])"
    by (simp add: pkt_args_def)
  have e: "env_ok ?e (bsize (tbuf_of [104, 105]) + 4)" by (simp add: env0_ok)
  obtain h d f where "encrypt ?e (tbuf_of (replicate 8 5)) (tbuf_of (replicate 16 1)) (tbuf_of []) (tbuf_of [104, 105]) (tbuf_of []) = Ok (h, d, f)"
    using encrypt_eq(1) [OF a e env0_simps(2) mal_total_key0 [OF mal_zero(2)]] by blast
  with crypt_pkt_roundtrip [OF a _ _ e _ e _ this] show ?thesis by auto
qed

text \<open>
  C5: \<^verbatim>\<open>decrypt\<close> accepts only authentic packets: with well-formed arguments it returns data exactly
  when the footer is the UMAC tag of header and ciphertext under the key, and then the data is
  the decryption without its four random bytes; any other footer is reported as \<open>rs_cksum\<close>.
\<close>

theorem crypt_pkt_authentic:
  assumes "tbuf_ok header" "tbuf_ok data" "tbuf_ok footer" and "bsize header = 8" "bsize footer = 8" "bsize key \<noteq> 0"
    and "4 \<le> bsize data" "bsize data \<le> 65200" and "env_ok e (bsize data)" and "mal_total e"
  shows "if bytes footer = tag_of (key16 e key) (bytes header) (bytes data)
    then \<exists>d'. decrypt e key header data footer = Ok d' \<and>
      bytes d' = drop 4 (seal (key16 e key) (bytes header) (bytes data))
    else decrypt e key header data footer = THR e rs_cksum"
proof -
  define m where "m = drop 4 (seal (key16 e key) (bytes header) (bytes data))"
  have l: "length m = bsize data - 4" using assms(2) by (simp add: m_def length_bytes)
  have "mal_ok (mal e)" using assms(9) by (simp add: env_ok_def)
  note b = tbuf_set_bytes [OF assms(10) this assms(2) l, THEN conjunct1]
  show ?thesis
    unfolding decrypt_eq [OF assms(1-9) mal_total_key0 [OF assms(10)]] m_def [symmetric]
    using b l assms(7) reset_ok(2) [of data] by auto
qed

theorem crypt_pkt_authentic_witness:
  "\<exists>d'. decrypt (env0 (\<lambda>n. Some (replicate n 0))) (tbuf_of (replicate 16 1)) (tbuf_of (replicate 8 5)) (tbuf_of (replicate 9 6))
       (tbuf_of (tag_of (replicate 16 1) (replicate 8 5) (replicate 9 6))) = Ok d' \<and>
     bytes d' = drop 4 (seal (replicate 16 1) (replicate 8 5) (replicate 9 6))"
proof -
  have "key16 (env0 (\<lambda>n. Some (replicate n 0))) (tbuf_of (replicate 16 1)) = replicate 16 1"
    by (simp add: key16_def)
  then show ?thesis
    using crypt_pkt_authentic [of "tbuf_of (replicate 8 5)" "tbuf_of (replicate 9 6)"
        "tbuf_of (tag_of (replicate 16 1) (replicate 8 5) (replicate 9 6))" "tbuf_of (replicate 16 1)" "env0 (\<lambda>n. Some (replicate n 0))"]
    by (simp add: env0_ok)
qed

text \<open>
  The sender's size limit is four bytes too generous. For 65197 to 65200 bytes of data
  \<^verbatim>\<open>encrypt\<close> returns a packet, and \<^verbatim>\<open>decrypt\<close> rejects every such packet as too big.
\<close>

theorem crypt_pkt_size_gap:
  assumes "pkt_args salt key header data footer" and "65196 < bsize data"
    and "env_ok e1 (bsize data + 4)" and "mal_total e1" and "rand4 e1 = Some r"
  shows "\<exists>h d f. encrypt e1 salt key header data footer = Ok (h, d, f) \<and> decrypt e2 key h d f = THR e2 rs_too_big"
proof -
  obtain h d f where enc: "encrypt e1 salt key header data footer = Ok (h, d, f)"
    using encrypt_eq(1) [OF assms(1,3,5) mal_total_key0 [OF assms(4)]] by blast
  obtain r where r: "length r = 4" "tbuf_ok h" "tbuf_ok d" "tbuf_ok f" "bytes h = bytes salt"
    "bytes d = seal (key16 e1 key) (bytes salt) (r @ bytes data)" "bytes f = tag_of (key16 e1 key) (bytes salt) (bytes d)"
    using encrypt_bytes [OF assms(1,3,4) enc] by blast
  have "bsize h = 8" "bsize f = 8" "bsize d = bsize data + 4" "bsize key \<noteq> 0"
    using packet_sizes [OF r] assms(1) by (simp_all add: pkt_args_def)
  then have "decrypt e2 key h d f = THR e2 rs_too_big" using assms(2) by (simp add: decrypt_def)
  with enc show ?thesis by blast
qed

theorem crypt_pkt_size_gap_witness:
  "\<exists>h d f. encrypt (env0 (\<lambda>n. Some (replicate n 0))) (tbuf_of (replicate 8 5)) (tbuf_of (replicate 16 1)) (tbuf_of []) (tbuf_of (replicate 65200 3)) (tbuf_of []) = Ok (h, d, f) \<and>
     decrypt (env0 (\<lambda>n. Some (replicate n 0))) (tbuf_of (replicate 16 1)) h d f = Throw rs_too_big"
proof -
  have "THR (env0 (\<lambda>n. Some (replicate n 0))) rs_too_big = (Throw rs_too_big :: tbuf outcome)" by (simp add: THR_def env0_def)
  then show ?thesis
    using crypt_pkt_size_gap [of "tbuf_of (replicate 8 5)" "tbuf_of (replicate 16 1)" "tbuf_of []" "tbuf_of (replicate 65200 3)"
        "tbuf_of []" "env0 (\<lambda>n. Some (replicate n 0))" "[1, 2, 3, 4]" "env0 (\<lambda>n. Some (replicate n 0))"]
    by (simp add: pkt_args_def env0_ok)
qed

text \<open>
  \<^verbatim>\<open>encrypt\<close> ignores whether the ciphertext could be stored. If the data buffer has to grow onto
  the heap and \<^verbatim>\<open>malloc\<close> fails, it still returns true, with the plaintext left in the data buffer.
\<close>

theorem crypt_pkt_silent_failure:
  assumes "pkt_args salt key header data footer" and "env_ok e (bsize data + 4)" and "rand4 e = Some r"
    and "bsize key \<le> 64" and "mal e (bsize data + 4) = None" and "length (preallocated data) < bsize data + 4"
  shows "\<exists>h f. encrypt e salt key header data footer = Ok (h, data, f)"
proof -
  have "fst (tbuf_set (mal e) (Some x) (bsize data + 4) data) = data" for x
    using assms(5,6) by (simp add: tbuf_set_def allocate_def)
  moreover have "\<not> key0_null e key" using assms(4) by (simp add: key0_null_def)
  ultimately show ?thesis using encrypt_eq(1) [OF assms(1,2,3)] by auto
qed

theorem crypt_pkt_silent_failure_witness:
  "\<exists>h f. encrypt (env0 (\<lambda>n. None)) (tbuf_of (replicate 8 5)) (tbuf_of (replicate 16 1)) (tbuf_of []) (tbuf_of [104, 105]) (tbuf_of []) =
     Ok (h, tbuf_of [104, 105], f)"
  using crypt_pkt_silent_failure [of "tbuf_of (replicate 8 5)" "tbuf_of (replicate 16 1)" "tbuf_of []" "tbuf_of [104, 105]"
      "tbuf_of []" "env0 (\<lambda>n. None)" "[1, 2, 3, 4]"]
  by (simp add: pkt_args_def env0_ok mal_ok_def)

text \<open>
  Aligning a pointer stays inside the scratch buffers: from any address the test is meant for
  (16 or above) the aligned address is a multiple of 16 at most 16 bytes further, so the text,
  its random bytes and the padding end within the \<^verbatim>\<open>size + 16 + 32 + 4\<close> bytes allocated, and the
  aligned key within \<^verbatim>\<open>size + 48\<close>.
\<close>

theorem align16_in_buffer:
  assumes "16 \<le> p"
  shows "16 dvd align16 p \<and> p < align16 p \<and> align16 p + (n + 4) + 32 \<le> p + (n + 16 + 32 + 4) \<and>
    align16 p + max n 16 \<le> p + (n + 48)"
proof -
  define q r where "q = p div 16" and "r = p mod 16"
  have p: "p = 16 * q + r" "r < 16" "q \<noteq> 0" using assms by (simp_all add: q_def r_def)
  then have "align16 p = 16 * (q + 1)" by (simp add: align16_def)
  then show ?thesis using p by auto
qed

theorem align16_in_buffer_witness: "16 dvd align16 4097 \<and> align16 4097 + (100 + 4) + 32 \<le> 4097 + (100 + 16 + 32 + 4)"
  using align16_in_buffer [of 4097 100] by simp

end
