(* ===== verification/Pvlist.thy ===== *)
theory Pvlist
  imports Prelude
begin

section \<open>Lists of pointer vectors\<close>

text \<open>
  The template \<^verbatim>\<open>pvlist<I,T,D>\<close> of \<^verbatim>\<open>src/common/pvlist.hh\<close>: a list of \<^verbatim>\<open>item\<close>s, each with an array of
  \<open>I\<close> pointers of which the first \<^verbatim>\<open>used_\<close> are in use; \<^verbatim>\<open>head_\<close> is the first item and \<^verbatim>\<open>tail_\<close> the
  last. The model has the pointers in use of every item, \<open>None\<close> for a null pointer, and what a
  pointer points to in its place. \<open>I\<close> is an argument of the operations that look at it. The
  destructor policies \<^verbatim>\<open>free_destructor\<close> and \<^verbatim>\<open>delete_destructor\<close> are the list of objects they
  free, in order.
\<close>

record 'a pvlist =
  items :: "'a option list list"
  n_items :: nat

datatype pv_iter = End | At nat nat

subsection \<open>Operations\<close>

definition pv_new :: "'a pvlist" where
  "pv_new = \<lparr>items = [[]], n_items = 0\<rparr>"

definition ensure_item :: "nat \<Rightarrow> 'a pvlist \<Rightarrow> 'a pvlist" where
  "ensure_item I l = (if length (last (items l)) = I then l\<lparr>items := items l @ [[]]\<rparr> else l)"

definition push_back :: "nat \<Rightarrow> 'a option \<Rightarrow> 'a pvlist \<Rightarrow> 'a pvlist" where
  "push_back I p l =
     (let l = ensure_item I l
      in l\<lparr>items := butlast (items l) @ [last (items l) @ [p]], n_items := n_items l + 1\<rparr>)"

text \<open>Iterators: \<open>At b i\<close> is the pointer \<open>i\<close> of item \<open>b\<close>, \<open>End\<close> is \<^verbatim>\<open>i_ == 0\<close>.\<close>

definition pv_begin :: "'a pvlist \<Rightarrow> pv_iter" where
  "pv_begin l = (if n_items l = 0 then End else At 0 0)"

definition pv_last :: "'a pvlist \<Rightarrow> pv_iter" where
  "pv_last l =
     (if n_items l = 0 \<or> length (last (items l)) = 0 then End
      else At (length (items l) - 1) (length (last (items l)) - 1))"

definition pv_step :: "'a pvlist \<Rightarrow> pv_iter \<Rightarrow> pv_iter" where
  "pv_step l it =
     (case it of
        End \<Rightarrow> End
      | At b i \<Rightarrow>
          if i + 1 = length (items l ! b)
          then (if b + 1 < length (items l) then At (b + 1) 0 else End)
          else At b (i + 1))"

definition pv_deref :: "'a pvlist \<Rightarrow> pv_iter \<Rightarrow> 'a option" where
  "pv_deref l it = (case it of End \<Rightarrow> None | At b i \<Rightarrow> items l ! b ! i)"

text \<open>A store through the pointer at an iterator, and \<^verbatim>\<open>iterator::free\<close>.\<close>

definition pv_put :: "'a pvlist \<Rightarrow> pv_iter \<Rightarrow> 'a option \<Rightarrow> 'a pvlist" where
  "pv_put l it v =
     (case it of
        End \<Rightarrow> l
      | At b i \<Rightarrow> l\<lparr>items := (items l)[b := (items l ! b)[i := v]]\<rparr>)"

definition destruct :: "'a option \<Rightarrow> 'a list" where
  "destruct p = (case p of None \<Rightarrow> [] | Some x \<Rightarrow> [x])"

definition pv_iter_free :: "'a pvlist \<Rightarrow> pv_iter \<Rightarrow> 'a pvlist \<times> 'a list" where
  "pv_iter_free l it =
     (case pv_deref l it of
        None \<Rightarrow> (l, [])
      | Some x \<Rightarrow> (pv_put l it None, destruct (Some x)))"

primrec destruct_n :: "'a option list \<Rightarrow> 'a list" where
  "destruct_n [] = []"
| "destruct_n (p # ps) = destruct p @ destruct_n ps"

definition pv_free_all :: "'a pvlist \<Rightarrow> 'a pvlist \<times> 'a list" where
  "pv_free_all l =
     (l\<lparr>items := [[]], n_items := 0\<rparr>, destruct_n (hd (items l)) @ concat (map destruct_n (tl (items l))))"

primrec find_item :: "'a option \<Rightarrow> 'a option list \<Rightarrow> bool" where
  "find_item p [] = False"
| "find_item p (q # qs) = (if q = p then True else find_item p qs)"

primrec find_items :: "'a option \<Rightarrow> 'a option list list \<Rightarrow> bool" where
  "find_items p [] = False"
| "find_items p (b # bs) = (if find_item p b then True else find_items p bs)"

definition pv_find :: "'a option \<Rightarrow> 'a pvlist \<Rightarrow> bool" where
  "pv_find p l = find_items p (items l)"

text \<open>The loops of \<^verbatim>\<open>free\<close> carry \<^verbatim>\<open>freed\<close> and the objects freed so far.\<close>

primrec free_item :: "'a option \<Rightarrow> 'a option list \<Rightarrow> bool \<times> 'a list \<Rightarrow> 'a option list \<times> bool \<times> 'a list" where
  "free_item p [] s = ([], s)"
| "free_item p (q # qs) s =
     (if q = p
      then let s' = (if fst s then s else (True, snd s @ destruct q)); (qs', s'') = free_item p qs s' in (None # qs', s'')
      else let (qs', s'') = free_item p qs s in (q # qs', s''))"

primrec free_items :: "'a option \<Rightarrow> 'a option list list \<Rightarrow> bool \<times> 'a list \<Rightarrow> 'a option list list \<times> bool \<times> 'a list" where
  "free_items p [] s = ([], s)"
| "free_items p (b # bs) s =
     (let (b', s') = free_item p b s; (bs', s'') = free_items p bs s' in (b' # bs', s''))"

definition pv_free :: "'a option \<Rightarrow> 'a pvlist \<Rightarrow> 'a pvlist \<times> bool \<times> 'a list" where
  "pv_free p l = (let (is, r) = free_items p (items l) (False, []) in (l\<lparr>items := is\<rparr>, r))"

primrec free_one_item :: "'a option \<Rightarrow> 'a option list \<Rightarrow> 'a option list \<times> bool" where
  "free_one_item p [] = ([], False)"
| "free_one_item p (q # qs) =
     (if q = p then (None # qs, True) else let (qs', r) = free_one_item p qs in (q # qs', r))"

primrec free_one_items :: "'a option \<Rightarrow> 'a option list list \<Rightarrow> 'a option list list \<times> bool" where
  "free_one_items p [] = ([], False)"
| "free_one_items p (b # bs) =
     (let (b', r) = free_one_item p b
      in if r then (b' # bs, True) else let (bs', r') = free_one_items p bs in (b # bs', r'))"

definition pv_free_one :: "'a option \<Rightarrow> 'a pvlist \<Rightarrow> 'a pvlist \<times> bool \<times> 'a list" where
  "pv_free_one p l =
     (let (is, r) = free_one_items p (items l) in (l\<lparr>items := is\<rparr>, r, if r then destruct p else []))"

text \<open>
  The walk to item \<open>pn\<close>: \<open>seek pn k\<close> steps on while there is a next item, from item \<open>0\<close> of \<open>k\<close>,
  and returns the remaining \<^verbatim>\<open>pn\<close> and the item reached.
\<close>

fun seek :: "nat \<Rightarrow> 'b list \<Rightarrow> nat \<Rightarrow> nat \<times> nat" where
  "seek pn bs b = (if b + 1 < length bs \<and> pn > 0 then seek (pn - 1) bs (b + 1) else (pn, b))"

definition pv_get_at :: "nat \<Rightarrow> nat \<Rightarrow> 'a pvlist \<Rightarrow> 'a option" where
  "pv_get_at I which l =
     (if which \<ge> n_items l then None
      else let pn = which div I
           in if pn = 0 then (if which < length (hd (items l)) then hd (items l) ! which else None)
              else let (pn, b) = seek pn (items l) 0
                   in if pn \<noteq> 0 then None
                      else let rm = which mod I
                           in if rm < length (items l ! b) then items l ! b ! rm else None)"

definition pv_set_at :: "nat \<Rightarrow> nat \<Rightarrow> 'a option \<Rightarrow> 'a pvlist \<Rightarrow> 'a pvlist \<times> bool" where
  "pv_set_at I which p l =
     (if which \<ge> n_items l then (l, False)
      else let pn = which div I
           in if pn = 0
              then (if which \<ge> length (hd (items l)) then (l, False)
                    else (l\<lparr>items := (items l)[0 := (hd (items l))[which := p]]\<rparr>, True))
              else let (pn, b) = seek pn (items l) 0
                   in if pn \<noteq> 0 then (l, False)
                      else let rm = which mod I
                           in if rm < length (items l ! b)
                              then (l\<lparr>items := (items l)[b := (items l ! b)[rm := p]]\<rparr>, True)
                              else (l, False))"

text \<open>The pointers a loop \<^verbatim>\<open>for( ; it != end; ++it )\<close> of at most \<open>n\<close> rounds sees.\<close>

primrec pv_iterate :: "nat \<Rightarrow> 'a pvlist \<Rightarrow> pv_iter \<Rightarrow> 'a option list" where
  "pv_iterate 0 l it = []"
| "pv_iterate (Suc n) l it = (if it = End then [] else pv_deref l it # pv_iterate n l (pv_step l it))"

subsection \<open>Specification\<close>

text \<open>
  The pointers in order, the invariant, the sequence with the first \<open>p\<close> replaced by a null
  pointer, and the place of an iterator in the order.
\<close>

definition pv_list :: "'a pvlist \<Rightarrow> 'a option list" where
  "pv_list l = concat (items l)"

definition pv_ok :: "nat \<Rightarrow> 'a pvlist \<Rightarrow> bool" where
  "pv_ok I l \<longleftrightarrow> 0 < I \<and> items l \<noteq> [] \<and> (\<forall>b \<in> set (butlast (items l)). length b = I) \<and>
     length (last (items l)) \<le> I \<and> (length (items l) > 1 \<longrightarrow> last (items l) \<noteq> []) \<and> n_items l = length (pv_list l)"

primrec null_first :: "'a option \<Rightarrow> 'a option list \<Rightarrow> 'a option list" where
  "null_first p [] = []"
| "null_first p (q # qs) = (if q = p then None # qs else q # null_first p qs)"

definition pv_index :: "nat \<Rightarrow> 'a pvlist \<Rightarrow> pv_iter \<Rightarrow> nat" where
  "pv_index I l it = (case it of End \<Rightarrow> length (pv_list l) | At b i \<Rightarrow> b * I + i)"

definition pv_valid :: "'a pvlist \<Rightarrow> pv_iter \<Rightarrow> bool" where
  "pv_valid l it \<longleftrightarrow> (case it of End \<Rightarrow> True | At b i \<Rightarrow> b < length (items l) \<and> i < length (items l ! b))"

subsection \<open>The contract of iterators\<close>

text \<open>
  A container with forward iterators: an iterator is at a place of the element sequence, a step
  moves it to the next place, and the place behind the last element is the end iterator only.
\<close>

locale cursors =
  fixes elems :: "'s \<Rightarrow> 'e list" and valid :: "'s \<Rightarrow> 'i \<Rightarrow> bool" and place :: "'s \<Rightarrow> 'i \<Rightarrow> nat"
    and ok :: "'s \<Rightarrow> bool" and start :: "'s \<Rightarrow> 'i" and fin :: 'i and next_of :: "'s \<Rightarrow> 'i \<Rightarrow> 'i" and deref :: "'s \<Rightarrow> 'i \<Rightarrow> 'e"
  assumes start_ok: "ok s \<Longrightarrow> valid s (start s) \<and> place s (start s) = 0"
    and fin_place: "place s fin = length (elems s)"
    and step_ok: "ok s \<Longrightarrow> valid s i \<Longrightarrow> i \<noteq> fin \<Longrightarrow>
      place s i < length (elems s) \<and> deref s i = elems s ! place s i \<and> valid s (next_of s i) \<and> place s (next_of s i) = Suc (place s i)"
begin

lemma fin_iff: "ok s \<Longrightarrow> valid s i \<Longrightarrow> i = fin \<longleftrightarrow> place s i = length (elems s)"
  using step_ok fin_place by (metis nat_neq_iff)

lemma steps_ok:
  assumes "ok s" and "valid s i" and "place s i + k \<le> length (elems s)"
  shows "valid s ((next_of s ^^ k) i) \<and> place s ((next_of s ^^ k) i) = place s i + k"
  using assms(3)
proof (induction k)
  case 0
  then show ?case using assms(2) by simp
next
  case (Suc k)
  let ?j = "(next_of s ^^ k) i"
  have j: "valid s ?j" "place s ?j = place s i + k" using Suc by simp_all
  moreover have "?j \<noteq> fin" using fin_iff [OF assms(1) j(1)] j(2) Suc.prems by simp
  ultimately show ?case using step_ok [OF assms(1) j(1)] by simp
qed

text \<open>A loop from the first element meets every element once and then the end.\<close>

lemma enumerates:
  assumes "ok s" and "k < length (elems s)"
  shows "deref s ((next_of s ^^ k) (start s)) = elems s ! k \<and> (next_of s ^^ k) (start s) \<noteq> fin"
proof -
  have v: "valid s ((next_of s ^^ k) (start s)) \<and> place s ((next_of s ^^ k) (start s)) = k"
    using steps_ok [of s "start s" k] start_ok [OF assms(1)] assms by simp
  then have "(next_of s ^^ k) (start s) \<noteq> fin" using fin_iff assms by (metis less_irrefl_nat)
  then show ?thesis using step_ok [OF assms(1)] v by auto
qed

lemma reaches_fin: "ok s \<Longrightarrow> (next_of s ^^ length (elems s)) (start s) = fin"
  using steps_ok [of s "start s" "length (elems s)"] start_ok [of s] fin_iff by simp

end

subsection \<open>Items of equal length\<close>

lemma concat_place:
  assumes "\<forall>c \<in> set (butlast xs). length c = I" and "b < length xs" and "i < length (xs ! b)"
  shows "concat xs ! (b * I + i) = xs ! b ! i \<and> b * I + i < length (concat xs)"
  using assms
proof (induction xs arbitrary: b)
  case (Cons x xs)
  show ?case
  proof (cases b)
    case 0
    then show ?thesis using Cons.prems by (simp add: nth_append)
  next
    case (Suc b')
    then have "xs \<noteq> []" using Cons.prems(2) by auto
    then have "length x = I" "\<forall>c \<in> set (butlast xs). length c = I" using Cons.prems(1) by auto
    with Cons.IH [of b'] Cons.prems(2,3) Suc show ?thesis by (simp add: nth_append)
  qed
qed simp

lemma length_concat_last:
  assumes "\<forall>c \<in> set (butlast xs). length c = I" and "xs \<noteq> []"
  shows "length (concat xs) = (length xs - 1) * I + length (last xs)"
  using assms
proof (induction xs)
  case (Cons x xs)
  then show ?case by (cases xs) auto
qed simp

lemma concat_update_place:
  assumes "\<forall>c \<in> set (butlast xs). length c = I" and "b < length xs" and "i < length (xs ! b)"
  shows "concat (xs[b := (xs ! b)[i := v]]) = (concat xs)[b * I + i := v]"
  using assms
proof (induction xs arbitrary: b)
  case (Cons x xs)
  show ?case
  proof (cases b)
    case 0
    then show ?thesis using Cons.prems by (simp add: list_update_append)
  next
    case (Suc b')
    then have "xs \<noteq> []" using Cons.prems(2) by auto
    then have "length x = I" "\<forall>c \<in> set (butlast xs). length c = I" using Cons.prems(1) by auto
    with Cons.IH [of b'] Cons.prems(2,3) Suc show ?thesis by (simp add: list_update_append)
  qed
qed simp

text \<open>The invariant only depends on how many pointers each item has.\<close>

lemma pv_ok_shape:
  fixes l l' :: "'a pvlist"
  assumes "map length (items l') = map length (items l)" and "n_items l' = n_items l"
  shows "pv_ok I l' = pv_ok I l"
proof -
  have s: "(\<forall>b \<in> set (butlast xs). length b = I) \<longleftrightarrow> (\<forall>n \<in> set (butlast (map length xs)). n = I)" for xs :: "'a option list list"
    by (simp add: map_butlast [symmetric])
  have l: "xs \<noteq> [] \<Longrightarrow> length (last xs) = last (map length xs)" for xs :: "'a option list list" by (simp add: last_map)
  have e: "length (items l') = length (items l)" "items l' \<noteq> [] \<longleftrightarrow> items l \<noteq> []"
    using arg_cong [OF assms(1), of length] by auto
  moreover have "length (pv_list l') = length (pv_list l)" by (simp add: pv_list_def length_concat assms(1))
  moreover have "items l \<noteq> [] \<Longrightarrow> last (items l') = [] \<longleftrightarrow> last (items l) = []"
    by (metis l e(2) assms(1) length_0_conv)
  ultimately show ?thesis
    by (cases "items l = []") (simp_all add: pv_ok_def s l assms)
qed

lemma shape_update: "map length (xs[b := (xs ! b)[i := v]]) = map length xs"
  by (cases "b < length xs") (simp_all add: map_update list_update_same_conv list_update_beyond)

subsection \<open>The operations on the sequence of pointers\<close>

lemma pv_list_new [simp]: "pv_list pv_new = []"
  by (simp add: pv_new_def pv_list_def)

lemma pv_new_ok: "0 < I \<Longrightarrow> pv_ok I pv_new"
  by (simp add: pv_ok_def) (simp add: pv_new_def)

lemma pv_list_snoc: "xs \<noteq> [] \<Longrightarrow> concat (butlast xs @ [last xs @ ys]) = concat xs @ ys"
  by (induction xs) auto

lemma push_back_ok:
  assumes "pv_ok I l"
  shows "pv_ok I (push_back I p l) \<and> pv_list (push_back I p l) = pv_list l @ [p]"
proof -
  have "pv_list (push_back I p l) = pv_list l @ [p]"
    using assms pv_list_snoc [of "items l" "[p]"]
    by (auto simp: push_back_def ensure_item_def pv_list_def pv_ok_def Let_def)
  moreover from this have "n_items (push_back I p l) = length (pv_list (push_back I p l))"
    using assms by (simp add: pv_ok_def) (simp add: push_back_def ensure_item_def Let_def)
  moreover have "b \<in> set (items l) \<Longrightarrow> b \<noteq> last (items l) \<Longrightarrow> b \<in> set (butlast (items l))" for b
    using assms by (cases "items l" rule: rev_cases) (auto simp: pv_ok_def)
  ultimately show ?thesis
    using assms by (auto simp: pv_ok_def push_back_def ensure_item_def Let_def)
qed

lemma pv_itemsD:
  assumes "pv_ok I l" and "b < length (items l)"
  shows "b + 1 < length (items l) \<Longrightarrow> length (items l ! b) = I" and "length (pv_list l) = 0 \<or> items l ! b \<noteq> []"
    and "length (items l ! b) \<le> I"
proof -
  show full: "length (items l ! b) = I" if "b + 1 < length (items l)"
    using assms that nth_mem [of b "butlast (items l)"] by (simp add: pv_ok_def nth_butlast)
  have la: "items l ! b = last (items l)" if "\<not> b + 1 < length (items l)"
  proof -
    have "b = length (items l) - 1" using that assms(2) by simp
    then show ?thesis using assms by (simp add: last_conv_nth pv_ok_def)
  qed
  show "length (pv_list l) = 0 \<or> items l ! b \<noteq> []"
  proof (cases "b + 1 < length (items l)")
    case True
    then show ?thesis using full assms(1) by (auto simp: pv_ok_def)
  next
    case False
    then have "items l ! b = last (items l)" by (rule la)
    moreover have "length (items l) = 1 \<Longrightarrow> pv_list l = last (items l)" by (cases "items l") (auto simp: pv_list_def)
    ultimately show ?thesis using assms by (cases "length (items l) = 1") (auto simp: pv_ok_def)
  qed
  show "length (items l ! b) \<le> I" using full la assms(1) by (cases "b + 1 < length (items l)") (auto simp: pv_ok_def)
qed

interpretation pvi: cursors pv_list pv_valid "pv_index I" "pv_ok I" pv_begin End pv_step pv_deref for I
proof unfold_locales
  fix s :: "'a pvlist"
  assume ok: "pv_ok I s"
  then show "pv_valid s (pv_begin s) \<and> pv_index I s (pv_begin s) = 0"
    using pv_itemsD(2) [OF ok, of 0] by (auto simp: pv_valid_def pv_begin_def pv_index_def pv_ok_def)
next
  fix s :: "'a pvlist"
  show "pv_index I s End = length (pv_list s)" by (simp add: pv_index_def)
next
  fix s :: "'a pvlist" and it
  assume ok: "pv_ok I s" and v: "pv_valid s it" and n: "it \<noteq> End"
  then obtain b i where it: "it = At b i" "b < length (items s)" "i < length (items s ! b)"
    by (cases it) (auto simp: pv_valid_def)
  have u: "\<forall>c \<in> set (butlast (items s)). length c = I" using ok by (simp add: pv_ok_def)
  note p = concat_place [OF u it(2,3)]
  have f: "b + 1 < length (items s) \<Longrightarrow> length (items s ! b) = I" by (rule pv_itemsD(1) [OF ok it(2)])
  have ne: "b + 1 < length (items s) \<Longrightarrow> items s ! (b + 1) \<noteq> []"
    using pv_itemsD(2) [OF ok, of "b + 1"] p by (cases "concat (items s)") (auto simp: pv_list_def)
  have en: "\<not> b + 1 < length (items s) \<Longrightarrow> i + 1 = length (items s ! b) \<Longrightarrow> length (pv_list s) = Suc (b * I + i)"
  proof -
    assume "\<not> b + 1 < length (items s)" and i: "i + 1 = length (items s ! b)"
    then have b: "b = length (items s) - 1" using it(2) by simp
    then have "items s ! b = last (items s)" using ok by (simp add: last_conv_nth pv_ok_def)
    then show ?thesis using length_concat_last [OF u] ok b i by (simp add: pv_list_def pv_ok_def)
  qed
  have "pv_valid s (pv_step s it) \<and> pv_index I s (pv_step s it) = Suc (b * I + i)"
    using it f ne en by (auto simp: pv_valid_def pv_step_def pv_index_def)
  then show "pv_index I s it < length (pv_list s) \<and> pv_deref s it = pv_list s ! pv_index I s it \<and>
      pv_valid s (pv_step s it) \<and> pv_index I s (pv_step s it) = Suc (pv_index I s it)"
    using p it(1) by (simp add: pv_index_def pv_deref_def pv_list_def)
qed

lemma pv_last_ok:
  assumes "pv_ok I l"
  shows "pv_valid l (pv_last l) \<and> (pv_list l \<noteq> [] \<longrightarrow> pv_index I l (pv_last l) = length (pv_list l) - 1) \<and>
    (pv_last l = End \<longleftrightarrow> pv_list l = [])"
proof -
  have u: "\<forall>c \<in> set (butlast (items l)). length c = I" and ne: "items l \<noteq> []" and n: "n_items l = length (pv_list l)"
    using assms by (simp_all add: pv_ok_def)
  have la: "items l ! (length (items l) - 1) = last (items l)" using ne by (simp add: last_conv_nth)
  have len: "length (pv_list l) = (length (items l) - 1) * I + length (last (items l))"
    using length_concat_last [OF u ne] by (simp add: pv_list_def)
  have "pv_list l \<noteq> [] \<Longrightarrow> 0 < length (last (items l))"
    using pv_itemsD(2) [OF assms, of "length (items l) - 1"] ne la by auto
  then show ?thesis
    using len la ne n by (cases "pv_list l = []") (auto simp: pv_last_def pv_valid_def pv_index_def Suc_leI)
qed

lemma pv_put_ok:
  assumes "pv_ok I l" and "pv_valid l it"
  shows "pv_ok I (pv_put l it v) \<and> pv_list (pv_put l it v) = (pv_list l)[pv_index I l it := v] \<and>
    (\<forall>j. pv_valid (pv_put l it v) j = pv_valid l j) \<and> pv_step (pv_put l it v) j = pv_step l j"
proof (cases it)
  case End
  then show ?thesis using assms by (simp add: pv_put_def pv_index_def list_update_beyond)
next
  case (At b i)
  then have v: "b < length (items l)" "i < length (items l ! b)" using assms(2) by (simp_all add: pv_valid_def)
  have "pv_ok I (pv_put l it v)"
    using pv_ok_shape [of "pv_put l it v" l I] assms(1) At by (simp add: pv_put_def shape_update)
  moreover have "pv_list (pv_put l it v) = (pv_list l)[pv_index I l it := v]"
    using concat_update_place [OF _ v, of I] assms(1) At by (simp add: pv_ok_def pv_put_def pv_list_def pv_index_def)
  moreover have "length ((items l)[b := (items l ! b)[i := v]] ! c) = length (items l ! c)" for c
    by (cases "c = b") (simp_all add: v)
  ultimately show ?thesis
    using At by (simp add: pv_valid_def pv_step_def pv_put_def split: pv_iter.split)
qed

lemma pv_deref_last:
  assumes "pv_ok I l"
  shows "pv_deref l (pv_last l) = (if pv_list l = [] then None else last (pv_list l))"
  using pv_last_ok [OF assms] pvi.step_ok [OF assms, of "pv_last l"]
  by (cases "pv_last l = End") (auto simp: pv_deref_def last_conv_nth)

lemma pv_put_last:
  assumes "pv_ok I l" and "pv_list l = qs @ [q]"
  shows "pv_ok I (pv_put l (pv_last l) v) \<and> pv_list (pv_put l (pv_last l) v) = qs @ [v]"
  using pv_put_ok [OF assms(1), of "pv_last l" v] pv_last_ok [OF assms(1)] assms(2) by simp

lemma pv_iterate_eq:
  assumes "pv_ok I l" and "pv_valid l it"
  shows "pv_iterate n l it = take n (drop (pv_index I l it) (pv_list l))"
  using assms(2)
proof (induction n arbitrary: it)
  case (Suc n)
  show ?case
  proof (cases "it = End")
    case True
    then show ?thesis by (simp add: pv_index_def)
  next
    case False
    note s = pvi.step_ok [OF assms(1) Suc.prems False]
    then have "drop (pv_index I l it) (pv_list l) = pv_deref l it # drop (Suc (pv_index I l it)) (pv_list l)"
      by (simp add: Cons_nth_drop_Suc)
    then show ?thesis using False Suc.IH [of "pv_step l it"] s by simp
  qed
qed simp

lemma pv_iterate_all: "pv_ok I l \<Longrightarrow> pv_iterate (n_items l) l (pv_begin l) = pv_list l"
  using pv_iterate_eq [of I l "pv_begin l" "n_items l"] pvi.start_ok [of I l] by (simp add: pv_ok_def)

declare seek.simps [simp del]

lemma seek_eq: "b + pn < length bs \<Longrightarrow> seek pn bs b = (0, b + pn)"
proof (induction pn arbitrary: b)
  case 0
  then show ?case by (subst seek.simps) simp
next
  case (Suc pn)
  then show ?case by (subst seek.simps) simp
qed

lemma place_div_mod:
  assumes "pv_ok I l" and "k < length (pv_list l)"
  shows "k div I < length (items l) \<and> k mod I < length (items l ! (k div I))"
proof -
  have I: "0 < I" and u: "\<forall>c \<in> set (butlast (items l)). length c = I" and ne: "items l \<noteq> []" and le: "length (last (items l)) \<le> I"
    using assms(1) by (simp_all add: pv_ok_def)
  define q r n where "q = k div I" and "r = k mod I" and "n = length (items l)"
  have k: "k = q * I + r" "r < I" using I by (simp_all add: q_def r_def)
  have len: "length (pv_list l) = (n - 1) * I + length (last (items l))"
    using length_concat_last [OF u ne] by (simp add: n_def pv_list_def)
  have qn: "q < n"
  proof (rule ccontr)
    assume "\<not> q < n"
    then have "(n - 1 + 1) * I \<le> q * I" using ne by (intro mult_le_mono1) (simp add: n_def)
    then show False using k len le assms(2) by (simp add: algebra_simps)
  qed
  moreover have "r < length (items l ! q)"
  proof (cases "q + 1 < n")
    case True
    then show ?thesis using pv_itemsD(1) [OF assms(1), of q] k(2) qn by (simp add: n_def)
  next
    case False
    then have "q = n - 1" using qn by simp
    then show ?thesis using k(1) len assms(2) ne by (simp add: last_conv_nth n_def)
  qed
  ultimately show ?thesis by (simp add: q_def r_def n_def)
qed

lemma seek_place:
  assumes "pv_ok I l" and "k < length (pv_list l)"
  shows "seek (k div I) (items l) 0 = (0, k div I)"
proof -
  have "0 + k div I < length (items l)" using place_div_mod [OF assms] by simp
  then show ?thesis by (subst seek_eq) simp_all
qed

lemma pv_get_at_eq:
  assumes "pv_ok I l"
  shows "pv_get_at I k l = (if k < length (pv_list l) then pv_list l ! k else None)"
proof (cases "k < length (pv_list l)")
  case True
  have u: "\<forall>c \<in> set (butlast (items l)). length c = I" and n: "n_items l = length (pv_list l)" and h: "hd (items l) = items l ! 0"
    using assms by (simp_all add: pv_ok_def hd_conv_nth)
  note p = place_div_mod [OF assms True]
  then have "pv_list l ! k = items l ! (k div I) ! (k mod I)"
    using concat_place [OF u, of "k div I" "k mod I"] by (simp add: pv_list_def)
  moreover have "k div I = 0 \<Longrightarrow> k mod I = k" using div_mult_mod_eq [of k I] by simp
  ultimately show ?thesis using True n h p seek_place [OF assms True] by (auto simp: pv_get_at_def Let_def)
next
  case False
  then show ?thesis using assms by (simp add: pv_get_at_def pv_ok_def)
qed

lemma pv_set_at_eq:
  assumes "pv_ok I l"
  shows "pv_ok I (fst (pv_set_at I k p l)) \<and> snd (pv_set_at I k p l) = (k < length (pv_list l)) \<and>
    pv_list (fst (pv_set_at I k p l)) = (pv_list l)[k := p]"
proof (cases "k < length (pv_list l)")
  case True
  have n: "n_items l = length (pv_list l)" and h: "hd (items l) = items l ! 0"
    using assms by (simp_all add: pv_ok_def hd_conv_nth)
  note q = place_div_mod [OF assms True]
  have z: "k div I = 0 \<Longrightarrow> k mod I = k" using div_mult_mod_eq [of k I] by simp
  have "pv_set_at I k p l = (pv_put l (At (k div I) (k mod I)) p, True)"
    using True n h q z seek_place [OF assms True] by (cases "k div I = 0") (auto simp: pv_set_at_def pv_put_def Let_def)
  then show ?thesis
    using pv_put_ok [OF assms, of "At (k div I) (k mod I)" p] q True by (simp add: pv_valid_def pv_index_def)
next
  case False
  then show ?thesis using assms by (simp add: pv_set_at_def pv_ok_def list_update_beyond)
qed

lemma find_item_iff: "find_item p b \<longleftrightarrow> p \<in> set b"
  by (induction b) auto

lemma find_items_iff: "find_items p bs \<longleftrightarrow> p \<in> set (concat bs)"
  by (induction bs) (auto simp: find_item_iff)

lemma free_item_eq:
  "free_item p b (f, ds) = (map (\<lambda>q. if q = p then None else q) b,
     f \<or> p \<in> set b, if f \<or> p \<notin> set b then ds else ds @ destruct p)"
  by (induction b arbitrary: f ds) auto

lemma free_items_eq:
  "free_items p bs (f, ds) = (map (map (\<lambda>q. if q = p then None else q)) bs,
     f \<or> p \<in> set (concat bs), if f \<or> p \<notin> set (concat bs) then ds else ds @ destruct p)"
  by (induction bs arbitrary: f ds) (auto simp: free_item_eq)

lemma pv_free_eq:
  "pv_free p l = (l\<lparr>items := map (map (\<lambda>q. if q = p then None else q)) (items l)\<rparr>,
     p \<in> set (pv_list l), if p \<in> set (pv_list l) then destruct p else [])"
  by (simp add: pv_free_def free_items_eq pv_list_def)

lemma null_first_append: "null_first p (xs @ ys) = (if p \<in> set xs then null_first p xs @ ys else xs @ null_first p ys)"
  by (induction xs) auto

lemma null_first_id: "p \<notin> set xs \<Longrightarrow> null_first p xs = xs"
  by (induction xs) auto

lemma length_null_first [simp]: "length (null_first p xs) = length xs"
  by (induction xs) auto

lemma free_one_item_eq: "free_one_item p b = (null_first p b, p \<in> set b)"
  by (induction b) auto

lemma free_one_items_eq:
  "snd (free_one_items p bs) = (p \<in> set (concat bs)) \<and> map length (fst (free_one_items p bs)) = map length bs \<and>
   concat (fst (free_one_items p bs)) = null_first p (concat bs)"
  by (induction bs) (auto simp: free_one_item_eq null_first_append null_first_id split: prod.splits)

lemma destruct_n_eq: "destruct_n b = map the (filter (\<lambda>q. q \<noteq> None) b)"
  by (induction b) (auto simp: destruct_def)

lemma concat_destruct_n: "concat (map destruct_n bs) = destruct_n (concat bs)"
  by (induction bs) (simp_all add: destruct_n_eq)

subsection \<open>Properties\<close>

text \<open>
  \<^verbatim>\<open>free(p)\<close> destructs \<open>p\<close> once, if it is there, and nulls all its occurrences; \<^verbatim>\<open>free_one(p)\<close>
  destructs it and nulls the first occurrence only; \<^verbatim>\<open>free_all\<close> destructs every pointer that is not
  null, in order, and leaves an empty list. No position moves, and \<^verbatim>\<open>find\<close> tells what is there.
\<close>

theorem pvlist_free_destructs:
  assumes "pv_ok I l"
  shows "pv_find p l = (p \<in> set (pv_list l)) \<and>
    (let (l1, r, ds) = pv_free p l
     in pv_ok I l1 \<and> pv_list l1 = map (\<lambda>q. if q = p then None else q) (pv_list l) \<and> r = (p \<in> set (pv_list l)) \<and> ds = (if r then destruct p else [])) \<and>
    (let (l2, r, ds) = pv_free_one p l
     in pv_ok I l2 \<and> pv_list l2 = null_first p (pv_list l) \<and> r = (p \<in> set (pv_list l)) \<and> ds = (if r then destruct p else [])) \<and>
    (let (l3, ds) = pv_free_all l in pv_ok I l3 \<and> pv_list l3 = [] \<and> map Some ds = filter (\<lambda>q. q \<noteq> None) (pv_list l))"
proof -
  have I: "0 < I" "items l \<noteq> []" using assms by (simp_all add: pv_ok_def)
  have a: "pv_ok I (l\<lparr>items := map (map f) (items l)\<rparr>)" for f
    using pv_ok_shape [of "l\<lparr>items := map (map f) (items l)\<rparr>" l I] assms by simp
  have b: "pv_ok I (l\<lparr>items := fst (free_one_items p (items l))\<rparr>)"
    using pv_ok_shape [of "l\<lparr>items := fst (free_one_items p (items l))\<rparr>" l I] assms free_one_items_eq [of p "items l"] by simp
  have c: "pv_ok I (l\<lparr>items := [[]], n_items := 0\<rparr>)" by (simp add: pv_ok_def pv_list_def I)
  have "destruct_n (hd (items l)) @ concat (map destruct_n (tl (items l))) = destruct_n (pv_list l)"
    using I(2) concat_destruct_n [of "items l"] by (cases "items l") (simp_all add: pv_list_def)
  moreover have "map Some (map the (filter (\<lambda>q. q \<noteq> None) xs)) = filter (\<lambda>q. q \<noteq> None) xs" for xs :: "'a option list"
    by (induction xs) auto
  ultimately have "map Some (snd (pv_free_all l)) = filter (\<lambda>q. q \<noteq> None) (pv_list l)"
    by (simp only: pv_free_all_def snd_conv destruct_n_eq)
  then show ?thesis
    using a b c free_one_items_eq [of p "items l"]
    by (auto simp: pv_free_eq pv_find_def find_items_iff pv_free_one_def pv_list_def map_concat pv_free_all_def
      split: prod.splits)
qed

theorem pvlist_free_destructs_witness:
  "pv_list (fst (pv_free (Some 5) (push_back 1 (Some 5) (push_back 1 (Some 6) (push_back 1 (Some 5) pv_new))))) = [None, Some (6::nat), None]"
proof -
  have "pv_ok 1 (push_back 1 (Some 5) (push_back 1 (Some 6) (push_back 1 (Some (5::nat)) pv_new)))"
    by (simp add: push_back_ok pv_new_ok)
  from pvlist_free_destructs [OF this, of "Some 5"] show ?thesis
    by (simp add: push_back_ok pv_new_ok case_prod_unfold Let_def)
qed

text \<open>
  C31: a \<^verbatim>\<open>pvlist\<close> is a sequence of pointers. \<^verbatim>\<open>push_back\<close> adds at the end, \<^verbatim>\<open>get_at\<close> and \<^verbatim>\<open>set_at\<close> read and
  write the given position and report positions behind the end, a loop from \<^verbatim>\<open>begin()\<close> meets every
  pointer in order and is at \<^verbatim>\<open>end()\<close> after \<^verbatim>\<open>n_items()\<close> steps, \<^verbatim>\<open>last()\<close> is the last pointer;
  \<^verbatim>\<open>find(p)\<close> tells whether \<open>p\<close> occurs; \<^verbatim>\<open>free(p)\<close> destructs \<open>p\<close> once, if it is there, and nulls all
  its occurrences, \<^verbatim>\<open>free_one(p)\<close> nulls the first one only; \<^verbatim>\<open>free_all\<close> destructs every pointer that
  is not null, in order, and leaves an empty list. The division into items of \<open>I\<close> pointers and its
  invariant stay.
\<close>

theorem pvlist_refines_sequence:
  assumes "pv_ok I l"
  shows "pv_ok I (push_back I p l) \<and> pv_list (push_back I p l) = pv_list l @ [p] \<and>
    pv_get_at I k l = (if k < length (pv_list l) then pv_list l ! k else None) \<and>
    pv_ok I (fst (pv_set_at I k p l)) \<and> snd (pv_set_at I k p l) = (k < length (pv_list l)) \<and>
    pv_list (fst (pv_set_at I k p l)) = (pv_list l)[k := p] \<and>
    pv_iterate (n_items l) l (pv_begin l) = pv_list l \<and> (pv_step l ^^ n_items l) (pv_begin l) = End \<and>
    pv_deref l (pv_last l) = (if pv_list l = [] then None else last (pv_list l)) \<and>
    pv_find p l = (p \<in> set (pv_list l)) \<and>
    (let (l1, r, ds) = pv_free p l
     in pv_ok I l1 \<and> pv_list l1 = map (\<lambda>q. if q = p then None else q) (pv_list l) \<and> r = (p \<in> set (pv_list l)) \<and> ds = (if r then destruct p else [])) \<and>
    (let (l2, r, ds) = pv_free_one p l
     in pv_ok I l2 \<and> pv_list l2 = null_first p (pv_list l) \<and> r = (p \<in> set (pv_list l)) \<and> ds = (if r then destruct p else [])) \<and>
    (let (l3, ds) = pv_free_all l in pv_ok I l3 \<and> pv_list l3 = [] \<and> map Some ds = filter (\<lambda>q. q \<noteq> None) (pv_list l))"
proof -
  have "n_items l = length (pv_list l)" using assms by (simp add: pv_ok_def)
  then show ?thesis
    using pv_deref_last [OF assms] push_back_ok [OF assms] pv_get_at_eq [OF assms] pv_set_at_eq [OF assms] pv_iterate_all [OF assms] pvi.reaches_fin [OF assms]
      pvlist_free_destructs [OF assms]
    by simp
qed

theorem pvlist_refines_sequence_witness:
  "let l = push_back 2 (Some 6) (push_back 2 (Some 7) (push_back 2 (Some 6) (push_back 2 (Some (5::nat)) pv_new)))
   in pv_get_at 2 2 l = Some 7 \<and> pv_find (Some 6) l \<and> pv_list (fst (pv_free (Some 6) l)) = [Some 5, None, Some 7, None] \<and>
      map Some (snd (pv_free_all l)) = [Some 5, Some 6, Some 7, Some 6]"
proof -
  have "pv_ok 2 (push_back 2 (Some 6) (push_back 2 (Some 7) (push_back 2 (Some 6) (push_back 2 (Some (5::nat)) pv_new))))"
    by (simp add: push_back_ok pv_new_ok)
  from pvlist_refines_sequence [OF this, of "Some 6" 2] show ?thesis
    by (simp add: push_back_ok pv_new_ok case_prod_unfold Let_def)
qed

end
