(* ===== verification/Pbuf.thy ===== *)
theory Pbuf
  imports Tbuf Pvlist
begin

section \<open>Paged buffers\<close>

text \<open>
  \<^verbatim>\<open>pbuf\<close> of \<^verbatim>\<open>src/common/pbuf.cc\<close> and \<^verbatim>\<open>src/common/pbuf.hh\<close>: a byte sequence in pages of 2048 bytes,
  kept in a \<^verbatim>\<open>pvlist<32,buf>\<close>. The first page is the array \<^verbatim>\<open>preallocated_\<close> of the object, whose
  bytes are in the page while it is in use. The argument \<open>pages\<close> stands for \<^verbatim>\<open>malloc\<close>: \<open>pages k\<close> is
  the block, with the bytes it happens to hold, that becomes page \<open>k\<close>, or \<open>None\<close> for a null pointer,
  which the code stores without a test. A result \<open>None\<close> is the write through such a pointer.
\<close>

record buf =
  data :: "u8 list option"
  used :: nat

record pbuf =
  psize :: nat
  prealloc :: "u8 list"
  bufpool :: "buf pvlist"

definition buf_size :: nat where "buf_size = 2048"

definition free_space :: "buf \<Rightarrow> nat" where
  "free_space b = buf_size - used b"

subsection \<open>Operations\<close>

definition pbuf_new :: "u8 list \<Rightarrow> pbuf" where
  "pbuf_new pre = \<lparr>psize = 0, prealloc = pre, bufpool = pv_new\<rparr>"

text \<open>\<^verbatim>\<open>allocate\<close> returns the last page, if any: the result says whether the pointer is not null.\<close>

definition pbuf_allocate :: "(nat \<Rightarrow> u8 list option) \<Rightarrow> nat \<Rightarrow> pbuf \<Rightarrow> pbuf \<times> bool" where
  "pbuf_allocate pages sz pb =
     (if sz = 0 then (pb, False)
      else (case pv_deref (bufpool pb) (pv_last (bufpool pb)) of
              None \<Rightarrow> (pb\<lparr>bufpool := push_back 32 (Some \<lparr>data = Some (prealloc pb), used = 0\<rparr>) (bufpool pb)\<rparr>, True)
            | Some b \<Rightarrow>
                if free_space b > 0 then (pb, True)
                else (pb\<lparr>bufpool := push_back 32 (Some \<lparr>data = pages (n_items (bufpool pb)), used = 0\<rparr>) (bufpool pb)\<rparr>, True)))"

text \<open>\<^verbatim>\<open>memcpy( p->data_here(), dta, fsp )\<close> and the update of the page.\<close>

definition buf_write :: "buf \<Rightarrow> u8 list \<Rightarrow> buf option" where
  "buf_write b d =
     (case data b of
        None \<Rightarrow> None
      | Some m \<Rightarrow> Some \<lparr>data = Some (take (used b) m @ d @ drop (used b + length d) m), used = used b + length d\<rparr>)"

text \<open>
  The loop of \<^verbatim>\<open>append\<close> over the bytes left; it returns when \<^verbatim>\<open>allocate\<close> does not return a page,
  with the number of bytes left.
\<close>

definition last_page :: "pbuf \<Rightarrow> buf" where
  "last_page pb = (case pv_deref (bufpool pb) (pv_last (bufpool pb)) of Some b \<Rightarrow> b | None \<Rightarrow> \<lparr>data = None, used = 0\<rparr>)"

lemma deref_pushed: "pv_deref (push_back n p l) (pv_last (push_back n p l)) = p"
  by (simp add: push_back_def ensure_item_def Let_def pv_last_def pv_deref_def nth_append)

lemma allocate_space: "snd (pbuf_allocate pages sz pb) \<Longrightarrow> 0 < free_space (last_page (fst (pbuf_allocate pages sz pb)))"
  by (auto simp: pbuf_allocate_def last_page_def deref_pushed free_space_def buf_size_def split: option.splits if_splits)

function append_loop :: "(nat \<Rightarrow> u8 list option) \<Rightarrow> u8 list \<Rightarrow> pbuf \<Rightarrow> (pbuf \<times> nat) option" where
  "append_loop pages dta pb =
     (case pbuf_allocate pages (length dta) pb of
        (pb, False) \<Rightarrow> Some (pb, length dta)
      | (pb, True) \<Rightarrow>
          let p = last_page pb;
              fsp = min (free_space p) (length dta)
          in (case buf_write p (take fsp dta) of
                None \<Rightarrow> None
              | Some p \<Rightarrow>
                  append_loop pages (drop fsp dta)
                    (pb\<lparr>bufpool := pv_put (bufpool pb) (pv_last (bufpool pb)) (Some p), psize := psize pb + fsp\<rparr>)))"
  by pat_completeness auto
termination
proof (relation "measure (\<lambda>(pages, dta, pb). length dta)")
  fix pages :: "nat \<Rightarrow> u8 list option" and dta :: "u8 list" and pb x y xa xb x2
  assume a: "(x, y) = pbuf_allocate pages (length dta) pb" "y = True" "xa = last_page x" "xb = min (free_space xa) (length dta)"
  then have "0 < free_space xa" using allocate_space [of pages "length dta" pb] by (metis fst_conv snd_conv)
  moreover have "0 < length dta" using a(1,2) by (auto simp: pbuf_allocate_def split: if_splits)
  ultimately show "((pages, drop xb dta, x\<lparr>bufpool := pv_put (bufpool x) (pv_last (bufpool x)) (Some x2), psize := psize x + xb\<rparr>), pages, dta, pb)
      \<in> measure (\<lambda>(pages, dta, pb). length dta)"
    using a(4) by simp
qed simp

declare append_loop.simps [simp del]

definition pbuf_append :: "(nat \<Rightarrow> u8 list option) \<Rightarrow> u8 list option \<Rightarrow> nat \<Rightarrow> pbuf \<Rightarrow> (pbuf \<times> bool) option" where
  "pbuf_append pages dta sz pb =
     (if sz = 0 then Some (pb, True)
      else (case dta of
              None \<Rightarrow> Some (pb, False)
            | Some d \<Rightarrow>
                (case append_loop pages (take sz d) pb of
                   None \<Rightarrow> None
                 | Some (pb, left) \<Rightarrow> Some (pb, \<not> left > 0))))"

text \<open>\<^verbatim>\<open>append(const char *)\<close>: the bytes before the terminating zero.\<close>

definition pbuf_append_cstr :: "(nat \<Rightarrow> u8 list option) \<Rightarrow> u8 list option \<Rightarrow> pbuf \<Rightarrow> (pbuf \<times> bool) option" where
  "pbuf_append_cstr pages str pb =
     (case str of
        None \<Rightarrow> Some (pb, False)
      | Some s \<Rightarrow> if length s = 0 then Some (pb, False) else pbuf_append pages (Some (s @ [0])) (length s + 1) pb)"

text \<open>\<^verbatim>\<open>append(const wchar_t *)\<close>: wide characters have four bytes, the lowest first.\<close>

definition pbuf_append_wcs :: "(nat \<Rightarrow> u8 list option) \<Rightarrow> u32 list option \<Rightarrow> pbuf \<Rightarrow> (pbuf \<times> bool) option" where
  "pbuf_append_wcs pages str pb =
     (case str of
        None \<Rightarrow> Some (pb, False)
      | Some s \<Rightarrow>
          if length s = 0 then Some (pb, False)
          else pbuf_append pages (Some (concat (map (\<lambda>w. [byte0 w, byte1 w, byte2 w, byte3 w]) (s @ [0])))) ((length s + 1) * 4) pb)"

text \<open>The bytes \<^verbatim>\<open>copy_to\<close> writes at \<^verbatim>\<open>ptr\<close>, and its result.\<close>

primrec copy_loop :: "buf option list \<Rightarrow> nat \<Rightarrow> u8 list" where
  "copy_loop [] max_size = []"
| "copy_loop (p # ps) max_size =
     (case (case p of None \<Rightarrow> (0, None) | Some bp \<Rightarrow> (used bp, data bp)) of
        (u, Some m) \<Rightarrow>
          if u \<noteq> 0
          then (if max_size \<ge> u then take u m @ copy_loop ps (max_size - u)
                else if max_size = 0 then []
                else take max_size m)
          else copy_loop ps max_size
      | (u, None) \<Rightarrow> copy_loop ps max_size)"

definition pbuf_pages :: "pbuf \<Rightarrow> buf option list" where
  "pbuf_pages pb = pv_iterate (n_items (bufpool pb)) (bufpool pb) (pv_begin (bufpool pb))"

definition copy_to :: "bool \<Rightarrow> nat \<Rightarrow> pbuf \<Rightarrow> u8 list option" where
  "copy_to ptr max_size pb =
     (if \<not> ptr then None
      else let max_size = (if max_size = 0 then psize pb else max_size)
           in Some (copy_loop (pbuf_pages pb) max_size))"

definition free_all :: "pbuf \<Rightarrow> pbuf" where
  "free_all pb =
     pb\<lparr>prealloc := (case pv_deref (bufpool pb) (pv_begin (bufpool pb)) of
                       None \<Rightarrow> prealloc pb
                     | Some b \<Rightarrow> (case data b of None \<Rightarrow> prealloc pb | Some m \<Rightarrow> m)),
        bufpool := fst (pv_free_all (bufpool pb)), psize := 0\<rparr>"

text \<open>
  The loop of the copy operator appends page after page and ignores the results. \<open>pbuf_assign\<close> is
  the copy from another object; \<open>pbuf_assign_self\<close> is \<^verbatim>\<open>p = p\<close>, where the loop runs over the pages
  that \<^verbatim>\<open>free_all\<close> left.
\<close>

primrec assign_loop :: "(nat \<Rightarrow> u8 list option) \<Rightarrow> buf option list \<Rightarrow> pbuf \<Rightarrow> pbuf option" where
  "assign_loop pages [] pb = Some pb"
| "assign_loop pages (p # ps) pb =
     (case p of
        None \<Rightarrow> None
      | Some b \<Rightarrow> (case pbuf_append pages (data b) (used b) pb of None \<Rightarrow> None | Some (pb, _) \<Rightarrow> assign_loop pages ps pb))"

definition pbuf_assign :: "(nat \<Rightarrow> u8 list option) \<Rightarrow> pbuf \<Rightarrow> pbuf \<Rightarrow> pbuf option" where
  "pbuf_assign pages other pb = assign_loop pages (pbuf_pages other) (free_all pb)"

definition pbuf_assign_self :: "(nat \<Rightarrow> u8 list option) \<Rightarrow> pbuf \<Rightarrow> pbuf option" where
  "pbuf_assign_self pages pb = (let pb = free_all pb in assign_loop pages (pbuf_pages pb) pb)"

text \<open>The copy constructor: \<^verbatim>\<open>size_\<close> of the new object is not initialised, but \<^verbatim>\<open>free_all\<close> sets it.\<close>

definition pbuf_copy :: "(nat \<Rightarrow> u8 list option) \<Rightarrow> nat \<Rightarrow> u8 list \<Rightarrow> pbuf \<Rightarrow> pbuf option" where
  "pbuf_copy pages junk pre other = pbuf_assign pages other ((pbuf_new pre)\<lparr>psize := junk\<rparr>)"

text \<open>
  The comparison walks over the other buffer's pages with an iterator of its own, \<open>it\<close>; the result
  is the answer of the loop, if it returns, and the iterator at its end.
\<close>

primrec eq_loop :: "pbuf \<Rightarrow> buf option list \<Rightarrow> pv_iter \<Rightarrow> bool option \<times> pv_iter" where
  "eq_loop pb [] it = (None, it)"
| "eq_loop pb (r # rs) it =
     (case (pv_deref (bufpool pb) it, r) of
        (Some lhbuf, Some rhbuf) \<Rightarrow>
          if used lhbuf \<noteq> used rhbuf then (Some False, it)
          else if map_option (take (used lhbuf)) (data lhbuf) \<noteq> map_option (take (used lhbuf)) (data rhbuf) then (Some False, it)
          else eq_loop pb rs (pv_step (bufpool pb) it)
      | _ \<Rightarrow> (Some False, it))"

definition pbuf_eq :: "pbuf \<Rightarrow> pbuf \<Rightarrow> bool" where
  "pbuf_eq pb other =
     (if psize pb \<noteq> psize other then False
      else (case eq_loop pb (pbuf_pages other) (pv_begin (bufpool pb)) of
              (Some r, _) \<Rightarrow> r
            | (None, it) \<Rightarrow> if it \<noteq> End then False else True))"

text \<open>\<^verbatim>\<open>t_copy_to\<close> into a \<^verbatim>\<open>tbuf\<close>, and the \<^verbatim>\<open>tbuf\<close> copy operator for paged buffers.\<close>

definition t_copy_to :: "malloc_fn \<Rightarrow> nat \<Rightarrow> pbuf \<Rightarrow> tbuf \<Rightarrow> tbuf \<times> bool" where
  "t_copy_to mal max_size pb t =
     (let max_size = (if max_size = 0 then psize pb else max_size)
      in if max_size \<noteq> 0
         then let (t, bf) = allocate mal max_size t
              in (case copy_to (bf \<noteq> Null) max_size pb of
                    None \<Rightarrow> (t, False)
                  | Some d \<Rightarrow> (set_data t (d @ drop (length d) (bdata t)), True))
         else (t, False))"

definition tbuf_assign_pbuf :: "malloc_fn \<Rightarrow> pbuf \<Rightarrow> tbuf \<Rightarrow> tbuf" where
  "tbuf_assign_pbuf mal other t =
     (if psize other = 0 then reset t
      else let (t, tmp) = allocate mal (psize other) t
           in (case copy_to (tmp \<noteq> Null) 0 other of
                 None \<Rightarrow> t
               | Some d \<Rightarrow> set_data t (d @ drop (length d) (bdata t))))"

subsection \<open>Specification\<close>

text \<open>
  The bytes of a page and of the buffer. In a well-formed buffer every page has memory, the pages
  but the last are full and the last one is not empty; \<open>pages_ok\<close> says that memory does not run out.
\<close>

definition buf_bytes :: "buf option \<Rightarrow> u8 list" where
  "buf_bytes p = (case p of None \<Rightarrow> [] | Some b \<Rightarrow> (case data b of None \<Rightarrow> [] | Some m \<Rightarrow> take (used b) m))"

definition pbytes :: "pbuf \<Rightarrow> u8 list" where
  "pbytes pb = concat (map buf_bytes (pv_list (bufpool pb)))"

definition page_ok :: "buf option \<Rightarrow> bool" where
  "page_ok p = (case p of None \<Rightarrow> False
     | Some b \<Rightarrow> (case data b of None \<Rightarrow> False | Some m \<Rightarrow> length m = 2048 \<and> 0 < used b \<and> used b \<le> 2048))"

definition pbuf_ok :: "pbuf \<Rightarrow> bool" where
  "pbuf_ok pb \<longleftrightarrow> pv_ok 32 (bufpool pb) \<and> length (prealloc pb) = 2048 \<and>
     (\<forall>p \<in> set (pv_list (bufpool pb)). page_ok p) \<and>
     (\<forall>p \<in> set (butlast (pv_list (bufpool pb))). length (buf_bytes p) = 2048) \<and> psize pb = length (pbytes pb)"

definition pages_ok :: "(nat \<Rightarrow> u8 list option) \<Rightarrow> bool" where
  "pages_ok pages \<longleftrightarrow> (\<forall>k. \<exists>m. pages k = Some m \<and> length m = 2048)"

text \<open>What a buffer looks like while its last page \<open>b\<close> is being filled.\<close>

definition filling :: "pbuf \<Rightarrow> buf option list \<Rightarrow> buf \<Rightarrow> u8 list \<Rightarrow> bool" where
  "filling pb qs b m \<longleftrightarrow> pv_ok 32 (bufpool pb) \<and> length (prealloc pb) = 2048 \<and> pv_list (bufpool pb) = qs @ [Some b] \<and>
     data b = Some m \<and> length m = 2048 \<and> used b < 2048 \<and> (\<forall>q \<in> set qs. page_ok q \<and> length (buf_bytes q) = 2048) \<and>
     psize pb = length (pbytes pb)"

subsection \<open>Appending\<close>

lemma pbuf_pages_eq: "pv_ok 32 (bufpool pb) \<Longrightarrow> pbuf_pages pb = pv_list (bufpool pb)"
  by (simp add: pbuf_pages_def pv_iterate_all)

lemma buf_bytes_Some: "data b = Some m \<Longrightarrow> buf_bytes (Some b) = take (used b) m"
  by (simp add: buf_bytes_def)

lemma page_okE:
  assumes "page_ok p"
  obtains b m where "p = Some b" "data b = Some m" "length m = 2048" "0 < used b" "used b \<le> 2048" "length (buf_bytes p) = used b"
  using assms by (auto simp: page_ok_def buf_bytes_def split: option.splits)

lemma pbuf_allocate_filling:
  assumes "pbuf_ok pb" and "pages_ok pages" and "0 < n"
  obtains pb' qs b m where "pbuf_allocate pages n pb = (pb', True)" "filling pb' qs b m" "pbytes pb' = pbytes pb"
proof -
  let ?l = "bufpool pb"
  have ok: "pv_ok 32 ?l" "length (prealloc pb) = 2048" "psize pb = length (pbytes pb)"
    and pg: "\<forall>p \<in> set (pv_list ?l). page_ok p" "\<forall>p \<in> set (butlast (pv_list ?l)). length (buf_bytes p) = 2048"
    using assms(1) by (simp_all add: pbuf_ok_def)
  have push: "filling (pb\<lparr>bufpool := push_back 32 (Some \<lparr>data = Some m, used = 0\<rparr>) ?l\<rparr>) (pv_list ?l) \<lparr>data = Some m, used = 0\<rparr> m \<and>
      pbytes (pb\<lparr>bufpool := push_back 32 (Some \<lparr>data = Some m, used = 0\<rparr>) ?l\<rparr>) = pbytes pb"
    if "length m = 2048" "\<forall>q \<in> set (pv_list ?l). length (buf_bytes q) = 2048" for m
    using push_back_ok [OF ok(1)] that ok pg(1) by (simp add: filling_def pbytes_def buf_bytes_def)
  show thesis
  proof (cases "pv_list ?l" rule: rev_cases)
    case Nil
    then show thesis
      using that push [OF ok(2)] pv_deref_last [OF ok(1)] assms(3) by (auto simp: pbuf_allocate_def)
  next
    case (snoc qs p)
    then have "page_ok p" using pg(1) by simp
    then obtain b m where b: "p = Some b" "data b = Some m" "length m = 2048" "0 < used b" "used b \<le> 2048" "length (buf_bytes p) = used b"
      by (rule page_okE)
    obtain m' where m': "pages (n_items ?l) = Some m'" "length m' = 2048" using assms(2) by (auto simp: pages_ok_def)
    have d: "pv_deref ?l (pv_last ?l) = Some b" using pv_deref_last [OF ok(1)] snoc b(1) by simp
    show thesis
    proof (cases "used b = 2048")
      case True
      then have "\<forall>q \<in> set (pv_list ?l). length (buf_bytes q) = 2048" using snoc b(6) pg(2) by auto
      from push [OF m'(2) this] show thesis
        using that d m'(1) True assms(3) by (auto simp: pbuf_allocate_def free_space_def buf_size_def)
    next
      case False
      then have "filling pb qs b m" using snoc b ok pg by (simp add: filling_def)
      then show thesis using that d False b(5) assms(3) by (simp add: pbuf_allocate_def free_space_def buf_size_def)
    qed
  qed
qed

lemma filling_write:
  assumes "filling pb qs b m" and "d \<noteq> []" and "used b + length d \<le> 2048"
  obtains b' where "buf_write b d = Some b'" and "last_page pb = b"
    and "pbuf_ok (pb\<lparr>bufpool := pv_put (bufpool pb) (pv_last (bufpool pb)) (Some b'), psize := psize pb + length d\<rparr>)"
    and "pbytes (pb\<lparr>bufpool := pv_put (bufpool pb) (pv_last (bufpool pb)) (Some b'), psize := psize pb + length d\<rparr>) = pbytes pb @ d"
proof -
  define b' where "b' = \<lparr>data = Some (take (used b) m @ d @ drop (used b + length d) m), used = used b + length d\<rparr>"
  have f: "pv_ok 32 (bufpool pb)" "pv_list (bufpool pb) = qs @ [Some b]" "data b = Some m" "length m = 2048" "used b < 2048"
    "length (prealloc pb) = 2048" "\<forall>q \<in> set qs. page_ok q \<and> length (buf_bytes q) = 2048" "psize pb = length (pbytes pb)"
    using assms(1) by (simp_all add: filling_def)
  note p = pv_put_last [OF f(1,2), of "Some b'"]
  have bb: "buf_bytes (Some b') = buf_bytes (Some b) @ d" using f by (simp add: b'_def buf_bytes_def)
  have pk: "page_ok (Some b')" using f assms(2,3) by (simp add: b'_def page_ok_def)
  let ?pb = "pb\<lparr>bufpool := pv_put (bufpool pb) (pv_last (bufpool pb)) (Some b'), psize := psize pb + length d\<rparr>"
  have pby: "pbytes ?pb = pbytes pb @ d" using p bb f(2) by (simp add: pbytes_def)
  have "psize ?pb = length (pbytes ?pb)" unfolding pby using f(8) by simp
  then have "pbuf_ok ?pb" using p pk f(6,7) by (simp add: pbuf_ok_def)
  moreover have "buf_write b d = Some b'" using f(3) by (simp add: buf_write_def b'_def)
  moreover have "last_page pb = b" using pv_deref_last [OF f(1)] f(2) by (simp add: last_page_def)
  ultimately show thesis using that pby by blast
qed

lemma append_loop_ok:
  assumes "pbuf_ok pb" and "pages_ok pages"
  shows "\<exists>pb'. append_loop pages d pb = Some (pb', 0) \<and> pbuf_ok pb' \<and> pbytes pb' = pbytes pb @ d"
  using assms(1)
proof (induction d arbitrary: pb rule: length_induct)
  case (1 d)
  show ?case
  proof (cases "d = []")
    case True
    then show ?thesis using "1.prems" by (subst append_loop.simps) (simp add: pbuf_allocate_def)
  next
    case False
    then obtain pb1 qs b m where a: "pbuf_allocate pages (length d) pb = (pb1, True)" "filling pb1 qs b m" "pbytes pb1 = pbytes pb"
      using pbuf_allocate_filling [OF "1.prems" assms(2), of "length d"] by blast
    define k where "k = min (free_space b) (length d)"
    have "used b < 2048" using a(2) by (simp add: filling_def)
    then have k: "0 < k" "k \<le> length d" "used b + length (take k d) \<le> 2048" "take k d \<noteq> []"
      using False by (auto simp: k_def free_space_def buf_size_def)
    obtain b' where w: "buf_write b (take k d) = Some b'" "last_page pb1 = b"
      "pbuf_ok (pb1\<lparr>bufpool := pv_put (bufpool pb1) (pv_last (bufpool pb1)) (Some b'), psize := psize pb1 + length (take k d)\<rparr>)"
      "pbytes (pb1\<lparr>bufpool := pv_put (bufpool pb1) (pv_last (bufpool pb1)) (Some b'), psize := psize pb1 + length (take k d)\<rparr>) = pbytes pb1 @ take k d"
      using filling_write [OF a(2) k(4,3)] by blast
    let ?pb = "pb1\<lparr>bufpool := pv_put (bufpool pb1) (pv_last (bufpool pb1)) (Some b'), psize := psize pb1 + length (take k d)\<rparr>"
    have "append_loop pages d pb = append_loop pages (drop k d) ?pb"
      using a(1) w(1,2) k(2) by (subst append_loop.simps) (simp add: Let_def k_def)
    moreover have "length (drop k d) < length d" using k by simp
    ultimately show ?thesis using "1.IH" w(3,4) a(3) by (metis append.assoc append_take_drop_id)
  qed
qed

lemma pbuf_append_ok:
  assumes "pbuf_ok pb" and "pages_ok pages" and "n \<le> length d"
  shows "\<exists>pb'. pbuf_append pages (Some d) n pb = Some (pb', True) \<and> pbuf_ok pb' \<and> pbytes pb' = pbytes pb @ take n d"
  using append_loop_ok [OF assms(1,2), of "take n d"] assms(1) by (auto simp: pbuf_append_def)

subsection \<open>Reading, copying, comparing\<close>

lemma pbuf_new_ok: "length pre = 2048 \<Longrightarrow> pbuf_ok (pbuf_new pre) \<and> pbytes (pbuf_new pre) = []"
  by (simp add: pbuf_ok_def pbuf_new_def pbytes_def pv_new_ok)

lemma copy_loop_eq:
  assumes "\<forall>p \<in> set ps. page_ok p"
  shows "copy_loop ps n = take n (concat (map buf_bytes ps))"
  using assms
proof (induction ps arbitrary: n)
  case (Cons p ps)
  then obtain b m where b: "p = Some b" "data b = Some m" "length m = 2048" "0 < used b" "used b \<le> 2048" "length (buf_bytes p) = used b"
    by (meson list.set_intros(1) page_okE)
  then show ?case using Cons by (auto simp: buf_bytes_def)
qed simp

lemma copy_to_eq: "pbuf_ok pb \<Longrightarrow> copy_to True n pb = Some (if n = 0 then pbytes pb else take n (pbytes pb))"
  by (simp add: copy_to_def pbuf_ok_def pbuf_pages_eq copy_loop_eq pbytes_def)

lemma free_all_ok:
  assumes "pbuf_ok pb"
  shows "pbuf_ok (free_all pb) \<and> pbytes (free_all pb) = []"
proof -
  let ?l = "bufpool pb"
  have ok: "pv_ok 32 ?l" "length (prealloc pb) = 2048" "\<forall>p \<in> set (pv_list ?l). page_ok p" using assms by (simp_all add: pbuf_ok_def)
  have "pv_list ?l \<noteq> [] \<Longrightarrow> pv_deref ?l (pv_begin ?l) \<in> set (pv_list ?l)"
    using pvi.enumerates [OF ok(1), of 0] by simp
  moreover have "pv_list ?l = [] \<Longrightarrow> pv_begin ?l = End" using ok(1) by (simp add: pv_begin_def pv_ok_def)
  ultimately have "length (prealloc (free_all pb)) = 2048"
    using ok(2,3) by (cases "pv_list ?l = []") (auto simp: free_all_def pv_deref_def [of _ End] page_ok_def split: option.splits)
  moreover have "pv_ok 32 (fst (pv_free_all ?l)) \<and> pv_list (fst (pv_free_all ?l)) = []"
    by (simp add: pv_free_all_def pv_ok_def pv_list_def)
  ultimately show ?thesis by (simp add: pbuf_ok_def pbytes_def free_all_def)
qed

lemma assign_loop_ok:
  assumes "pbuf_ok pb" and "pages_ok pages" and "\<forall>p \<in> set ps. page_ok p"
  shows "\<exists>pb'. assign_loop pages ps pb = Some pb' \<and> pbuf_ok pb' \<and> pbytes pb' = pbytes pb @ concat (map buf_bytes ps)"
  using assms(1,3)
proof (induction ps arbitrary: pb)
  case (Cons p ps)
  then obtain b m where b: "p = Some b" "data b = Some m" "length m = 2048" "used b \<le> 2048"
    by (meson list.set_intros(1) page_okE)
  obtain pb1 where a: "pbuf_append pages (Some m) (used b) pb = Some (pb1, True)" "pbuf_ok pb1" "pbytes pb1 = pbytes pb @ take (used b) m"
    using pbuf_append_ok [OF Cons.prems(1) assms(2), of "used b" m] b by auto
  then show ?case using Cons.IH [OF a(2)] Cons.prems(2) b by (auto simp: buf_bytes_def)
qed simp

lemma pbuf_assign_ok:
  assumes "pbuf_ok pb" and "pbuf_ok other" and "pages_ok pages"
  shows "\<exists>pb'. pbuf_assign pages other pb = Some pb' \<and> pbuf_ok pb' \<and> pbytes pb' = pbytes other"
proof -
  have "pbuf_pages other = pv_list (bufpool other)" "\<forall>p \<in> set (pv_list (bufpool other)). page_ok p"
    using assms(2) by (simp_all add: pbuf_ok_def pbuf_pages_eq)
  then show ?thesis
    using assign_loop_ok [of "free_all pb" pages "pv_list (bufpool other)"] free_all_ok [OF assms(1)] assms(3)
    by (simp add: pbuf_assign_def pbytes_def [of other])
qed

lemma pbuf_copy_ok:
  assumes "length pre = 2048" and "pbuf_ok other" and "pages_ok pages"
  shows "\<exists>pb'. pbuf_copy pages junk pre other = Some pb' \<and> pbuf_ok pb' \<and> pbytes pb' = pbytes other"
proof -
  have "free_all ((pbuf_new pre)\<lparr>psize := junk\<rparr>) = free_all (pbuf_new pre)"
    by (simp add: free_all_def pbuf_new_def split: option.split)
  then show ?thesis
    using pbuf_assign_ok [of "pbuf_new pre" other pages] assms by (simp add: pbuf_copy_def pbuf_assign_def pbuf_new_ok)
qed

lemma append_strings_ok:
  assumes "pbuf_ok pb" and "pages_ok pages"
  shows "s \<noteq> [] \<Longrightarrow> \<exists>pb'. pbuf_append_cstr pages (Some s) pb = Some (pb', True) \<and> pbuf_ok pb' \<and> pbytes pb' = pbytes pb @ s @ [0]"
    and "w \<noteq> [] \<Longrightarrow> \<exists>pb'. pbuf_append_wcs pages (Some w) pb = Some (pb', True) \<and> pbuf_ok pb' \<and>
      pbytes pb' = pbytes pb @ concat (map (\<lambda>w. [byte0 w, byte1 w, byte2 w, byte3 w]) (w @ [0]))"
proof -
  let ?d = "concat (map (\<lambda>w. [byte0 w, byte1 w, byte2 w, byte3 w]) (w @ [0]))"
  have l: "length (concat (map (\<lambda>w. [byte0 w, byte1 w, byte2 w, byte3 w]) v)) = length v * 4" for v
    by (induction v) simp_all
  show "\<exists>pb'. pbuf_append_cstr pages (Some s) pb = Some (pb', True) \<and> pbuf_ok pb' \<and> pbytes pb' = pbytes pb @ s @ [0]" if "s \<noteq> []"
    using pbuf_append_ok [OF assms, of "length s + 1" "s @ [0]"] that by (simp add: pbuf_append_cstr_def)
  show "\<exists>pb'. pbuf_append_wcs pages (Some w) pb = Some (pb', True) \<and> pbuf_ok pb' \<and> pbytes pb' = pbytes pb @ ?d" if "w \<noteq> []"
    using pbuf_append_ok [OF assms, of "(length w + 1) * 4" ?d] l [of "w @ [0]"] that by (simp add: pbuf_append_wcs_def)
qed

text \<open>Two buffers with the same bytes have them in the same pages.\<close>

lemma concat_pages_inj:
  assumes "concat xs = concat ys" and "\<forall>x \<in> set xs. x \<noteq> [] \<and> length x \<le> n" and "\<forall>x \<in> set (butlast xs). length x = n"
    and "\<forall>y \<in> set ys. y \<noteq> [] \<and> length y \<le> n" and "\<forall>y \<in> set (butlast ys). length y = n"
  shows "xs = ys"
  using assms
proof (induction xs arbitrary: ys)
  case Nil
  then show ?case by (cases ys) auto
next
  case (Cons x xs)
  then obtain y ys' where ys: "ys = y # ys'" by (cases ys) auto
  have x: "xs \<noteq> [] \<longrightarrow> length x = n" and y: "ys' \<noteq> [] \<longrightarrow> length y = n" using Cons.prems(3,5) ys by auto
  have l: "length x + length (concat xs) = length y + length (concat ys')" using Cons.prems(1) ys by (metis concat.simps(2) length_append)
  have "length x = length y"
    using x y l Cons.prems(2,4) ys by (cases "xs = []"; cases "ys' = []") auto
  then have "x = y" "concat xs = concat ys'" using Cons.prems(1) ys by simp_all
  moreover have "xs = ys'"
    using Cons.prems ys calculation(2) by (intro Cons.IH) (auto split: if_splits)
  ultimately show ?case using ys by simp
qed

lemma page_eq_iff:
  assumes "page_ok (Some a)" and "page_ok (Some b)"
  shows "buf_bytes (Some a) = buf_bytes (Some b) \<longleftrightarrow>
    used a = used b \<and> map_option (take (used a)) (data a) = map_option (take (used a)) (data b)"
proof -
  obtain m n where d: "data a = Some m" "data b = Some n" "length m = 2048" "length n = 2048" "used a \<le> 2048" "used b \<le> 2048"
    using assms by (auto simp: page_ok_def split: option.splits)
  have "take (used a) m = take (used b) n \<Longrightarrow> used a = used b"
    using d(3-6) by (metis length_take min.absorb2)
  then show ?thesis using d(1,2) by (auto simp: buf_bytes_def)
qed

lemma eq_loop_ok:
  assumes "pbuf_ok pb" and "pv_valid (bufpool pb) it" and "\<forall>p \<in> set rs. page_ok p"
  shows "if map buf_bytes (take (length rs) (drop (pv_index 32 (bufpool pb) it) (pv_list (bufpool pb)))) = map buf_bytes rs
    then \<exists>j. eq_loop pb rs it = (None, j) \<and> pv_valid (bufpool pb) j \<and> pv_index 32 (bufpool pb) j = pv_index 32 (bufpool pb) it + length rs
    else fst (eq_loop pb rs it) = Some False"
  using assms(2,3)
proof (induction rs arbitrary: it)
  case (Cons r rs)
  let ?l = "bufpool pb" let ?n = "pv_index 32 (bufpool pb) it"
  have ok: "pv_ok 32 ?l" "\<forall>p \<in> set (pv_list ?l). page_ok p" using assms(1) by (simp_all add: pbuf_ok_def)
  obtain b where b: "r = Some b" using Cons.prems(2) by (auto simp: page_ok_def split: option.splits)
  show ?case
  proof (cases "it = End")
    case True
    then show ?thesis by (simp add: pv_index_def pv_deref_def)
  next
    case False
    note s = pvi.step_ok [OF ok(1) Cons.prems(1) False]
    then have pk: "page_ok (pv_deref ?l it)" using ok(2) by simp
    then obtain a where a: "pv_deref ?l it = Some a" by (auto simp: page_ok_def split: option.splits)
    have d: "drop ?n (pv_list ?l) = Some a # drop (Suc ?n) (pv_list ?l)" using s a by (simp add: Cons_nth_drop_Suc)
    have "page_ok (Some a)" "page_ok (Some b)" using pk a b Cons.prems(2) by simp_all
    note e = page_eq_iff [OF this]
    show ?thesis
    proof (cases "buf_bytes (Some a) = buf_bytes (Some b)")
      case True
      then have "used a = used b" "map_option (take (used b)) (data a) = map_option (take (used b)) (data b)" using e by auto
      then have l: "eq_loop pb (r # rs) it = eq_loop pb rs (pv_step ?l it)" using a b by simp
      have "pv_valid ?l (pv_step ?l it)" "pv_index 32 ?l (pv_step ?l it) = Suc ?n" "\<forall>p \<in> set rs. page_ok p"
        using s Cons.prems(2) by simp_all
      then show ?thesis using Cons.IH [of "pv_step ?l it"] True unfolding l d by (auto simp: b split: if_splits)
    next
      case ne: False
      then have "fst (eq_loop pb (r # rs) it) = Some False" using a b e by auto
      then show ?thesis using ne d b by simp
    qed
  qed
qed simp

lemma page_bytes_inj:
  assumes "pbuf_ok pb" and "pbuf_ok other" and "pbytes pb = pbytes other"
  shows "map buf_bytes (pv_list (bufpool pb)) = map buf_bytes (pv_list (bufpool other))"
proof -
  have p: "x \<noteq> [] \<and> length x \<le> 2048" if "pbuf_ok q" "x \<in> set (map buf_bytes (pv_list (bufpool q)))" for q x
    using that by (auto simp: pbuf_ok_def page_ok_def buf_bytes_def split: option.splits dest!: bspec)
  have f: "length x = 2048" if "pbuf_ok q" "x \<in> set (butlast (map buf_bytes (pv_list (bufpool q))))" for q x
    using that by (auto simp: pbuf_ok_def map_butlast [symmetric])
  show ?thesis
    by (rule concat_pages_inj [of _ _ 2048])
      (use assms p [OF assms(1)] p [OF assms(2)] f [OF assms(1)] f [OF assms(2)] in \<open>auto simp: pbytes_def\<close>)
qed

lemma pbuf_eq_iff:
  assumes "pbuf_ok pb" and "pbuf_ok other"
  shows "pbuf_eq pb other \<longleftrightarrow> pbytes pb = pbytes other"
proof -
  let ?l = "bufpool pb" let ?m = "bufpool other"
  have ok: "pv_ok 32 ?l" "pv_ok 32 ?m" "\<forall>p \<in> set (pv_list ?m). page_ok p" "psize pb = length (pbytes pb)" "psize other = length (pbytes other)"
    using assms by (simp_all add: pbuf_ok_def)
  note st = pvi.start_ok [OF ok(1)]
  note e = eq_loop_ok [OF assms(1) st [THEN conjunct1] ok(3)]
  show ?thesis
  proof (cases "map buf_bytes (take (length (pv_list ?m)) (pv_list ?l)) = map buf_bytes (pv_list ?m)")
    case True
    then obtain j where j: "eq_loop pb (pv_list ?m) (pv_begin ?l) = (None, j)" "pv_valid ?l j" "pv_index 32 ?l j = length (pv_list ?m)"
      using e st by auto
    have le: "length (pv_list ?m) \<le> length (pv_list ?l)" using arg_cong [OF True, of length] by simp
    have "j = End \<longleftrightarrow> length (pv_list ?m) = length (pv_list ?l)" using pvi.fin_iff [OF ok(1) j(2)] j(3) by auto
    moreover have "length (pv_list ?m) = length (pv_list ?l) \<Longrightarrow> pbytes pb = pbytes other" using True by (simp add: pbytes_def)
    moreover have "pbytes pb = pbytes other \<Longrightarrow> length (pv_list ?m) = length (pv_list ?l)"
      using page_bytes_inj [OF assms] by (metis length_map)
    ultimately show ?thesis using j(1) ok pbuf_pages_eq [OF ok(2)] by (auto simp: pbuf_eq_def)
  next
    case False
    then have "fst (eq_loop pb (pv_list ?m) (pv_begin ?l)) = Some False" using e st by simp
    moreover have "pbytes pb \<noteq> pbytes other"
      using page_bytes_inj [OF assms] False by (metis length_map order_refl take_all)
    ultimately show ?thesis using pbuf_pages_eq [OF ok(2)] by (auto simp: pbuf_eq_def split: prod.splits)
  qed
qed

lemma t_copy_to_ok:
  assumes "pbuf_ok pb" and "tbuf_ok t" and "mal_ok mal" and "t_copy_to mal 0 pb t = (t', True)"
  shows "tbuf_ok t' \<and> bytes t' = pbytes pb"
proof -
  obtain t1 p where a: "allocate mal (psize pb) t = (t1, p)" by (cases "allocate mal (psize pb) t")
  note al = allocate_ok [OF assms(2,3) a]
  have sz: "psize pb \<noteq> 0" "psize pb = length (pbytes pb)" using assms(1,4) by (auto simp: t_copy_to_def pbuf_ok_def split: if_splits)
  then have p: "p \<noteq> Null" using assms(4) a by (auto simp: t_copy_to_def copy_to_def)
  then have "t' = set_data t1 (pbytes pb @ drop (length (pbytes pb)) (bdata t1))"
    using assms(1,4) a sz copy_to_eq [OF assms(1), of "psize pb"] by (simp add: t_copy_to_def)
  moreover have "bsize t1 = length (pbytes pb)" "tbuf_ok t1" using al p sz by simp_all
  ultimately show ?thesis using sz by (simp add: set_data_ok) (auto simp: tbuf_ok_def bytes_def set_data_def bdata_def split: option.splits)
qed

subsection \<open>Properties\<close>

text \<open>
  C9: a paged buffer is the list of its bytes. As long as memory lasts, \<^verbatim>\<open>append\<close> returns true and
  adds exactly the given bytes at the end, across any number of pages; the page structure (all
  pages full but the last, none empty, \<^verbatim>\<open>size_\<close> the total) is an invariant; \<^verbatim>\<open>copy_to\<close> writes the
  bytes, or their first \<^verbatim>\<open>max_size\<close>; the copy operator and \<^verbatim>\<open>free_all\<close> do what they say, and
  \<^verbatim>\<open>operator==\<close> holds exactly when the bytes are equal.
\<close>

theorem pbuf_refines_bytes:
  assumes "pbuf_ok pb" and "pbuf_ok other" and "pages_ok pages" and "n \<le> length d"
  shows "(\<exists>pb'. pbuf_append pages (Some d) n pb = Some (pb', True) \<and> pbuf_ok pb' \<and> pbytes pb' = pbytes pb @ take n d) \<and>
    copy_to True k pb = Some (if k = 0 then pbytes pb else take k (pbytes pb)) \<and>
    (\<exists>pb'. pbuf_assign pages other pb = Some pb' \<and> pbuf_ok pb' \<and> pbytes pb' = pbytes other) \<and>
    pbuf_ok (free_all pb) \<and> pbytes (free_all pb) = [] \<and>
    pbuf_eq pb other = (pbytes pb = pbytes other)"
  using pbuf_append_ok [OF assms(1,3,4)] copy_to_eq [OF assms(1)] pbuf_assign_ok [OF assms(1-3)] free_all_ok [OF assms(1)]
    pbuf_eq_iff [OF assms(1,2)] by blast

theorem pbuf_refines_bytes_witness:
  "\<exists>pb. pbuf_append (\<lambda>k. Some (replicate 2048 7)) (Some (replicate 5000 1)) 5000 (pbuf_new (replicate 2048 0)) = Some (pb, True) \<and>
     pbytes pb = replicate 5000 1"
proof -
  have "pages_ok (\<lambda>k. Some (replicate 2048 7))" by (simp add: pages_ok_def)
  moreover have "pbuf_ok (pbuf_new (replicate 2048 0))" "pbytes (pbuf_new (replicate 2048 0)) = []" by (simp_all add: pbuf_new_ok)
  ultimately show ?thesis
    using pbuf_refines_bytes [of "pbuf_new (replicate 2048 0)" "pbuf_new (replicate 2048 0)" "\<lambda>k. Some (replicate 2048 7)" 5000 "replicate 5000 1"]
    by auto
qed

text \<open>
  the copy operator does not survive self-assignment: \<^verbatim>\<open>p = p\<close> empties the buffer, because the
  pages are freed before they are read.
\<close>

theorem pbuf_self_assignment:
  assumes "pbuf_ok pb"
  shows "pbuf_assign_self pages pb = Some (free_all pb) \<and> pbytes (free_all pb) = []"
proof -
  have "pv_list (bufpool (free_all pb)) = []" by (simp add: free_all_def pv_free_all_def pv_list_def)
  moreover have "pv_ok 32 (bufpool (free_all pb))" using free_all_ok [OF assms] by (simp add: pbuf_ok_def)
  ultimately show ?thesis using free_all_ok [OF assms] by (simp add: pbuf_assign_self_def pbuf_pages_eq Let_def)
qed

theorem pbuf_self_assignment_witness:
  "\<exists>pb. pbuf_append (\<lambda>k. Some (replicate 2048 7)) (Some [1]) 1 (pbuf_new (replicate 2048 0)) = Some (pb, True) \<and> pbytes pb = [1] \<and>
     pbuf_assign_self (\<lambda>k. None) pb = Some (free_all pb) \<and> pbytes (free_all pb) = []"
proof -
  obtain pb where pb: "pbuf_append (\<lambda>k. Some (replicate 2048 7)) (Some [1]) 1 (pbuf_new (replicate 2048 0)) = Some (pb, True)" "pbuf_ok pb" "pbytes pb = [1]"
    using pbuf_append_ok [of "pbuf_new (replicate 2048 0)" "\<lambda>k. Some (replicate 2048 7)" 1 "[1]"]
    by (auto simp: pbuf_new_ok pages_ok_def)
  then show ?thesis using pbuf_self_assignment [OF pb(2), of "\<lambda>k. None"] by auto
qed

end
