(* ===== verification/Xdrbuf.thy ===== *)
theory Xdrbuf
  imports Pbuf
begin

section \<open>XDR streams\<close>

text \<open>
  \<^verbatim>\<open>xdrbuf\<close> of \<^verbatim>\<open>src/common/xdrbuf.cc\<close> and \<^verbatim>\<open>src/common/xdrbuf.hh\<close>: values are written big-endian to the
  end of a \<^verbatim>\<open>pbuf\<close>, byte strings with a 64-bit size in front and zeros behind up to a multiple of
  four, and read from the page and position the object is at. Signed integers are their bit
  patterns. The machine is little-endian. The strings \<^verbatim>\<open>str\<close> and \<^verbatim>\<open>ustr\<close> are their buffers, a
  \<^verbatim>\<open>tbuf\<close> that holds the characters and a terminating zero; wide characters have four bytes.

  A call ends normally (\<open>Inr\<close>) or stops (\<open>Inl\<close>): with an exception, or with the use of a null
  pointer. The outer option of the reading functions is the result of loops that may run forever.
\<close>

datatype xdr_exc = rs_cannot_append | rs_xdr_eof | rs_xdr_invalid | rs_cannot_get

datatype xstop = XThrow xdr_exc | XNull

record xdrbuf =
  xexc :: bool
  xb :: pbuf
  xit :: pv_iter
  xpos :: nat

definition xdr_new :: "pbuf \<Rightarrow> xdrbuf" where
  "xdr_new b = \<lparr>xexc = True, xb = b, xit = pv_begin (bufpool b), xpos = 0\<rparr>"

definition xthr :: "xdrbuf \<Rightarrow> xdr_exc \<Rightarrow> 'a \<Rightarrow> (xstop + 'a) \<times> xdrbuf" where
  "xthr x r ret = (if xexc x then (Inl (XThrow r), x) else (Inr ret, x))"

subsection \<open>Byte order and padding\<close>

definition htonl :: "u32 \<Rightarrow> u32" where
  "htonl w = col (byte0 w) (byte1 w) (byte2 w) (byte3 w)"

definition htonll :: "u64 \<Rightarrow> u64" where
  "htonll x = push_bit 32 (ucast (htonl (ucast x))) + ucast (htonl (ucast (drop_bit 32 x)))"

text \<open>The bytes of a word in memory, and the word that bytes in memory are.\<close>

definition mem32 :: "u32 \<Rightarrow> u8 list" where
  "mem32 w = [byte0 w, byte1 w, byte2 w, byte3 w]"

definition mem64 :: "u64 \<Rightarrow> u8 list" where
  "mem64 w = mem32 (ucast w) @ mem32 (ucast (drop_bit 32 w))"

definition word32 :: "u8 list \<Rightarrow> u32" where
  "word32 m = col (m ! 3) (m ! 2) (m ! 1) (m ! 0)"

definition word64 :: "u8 list \<Rightarrow> u64" where
  "word64 m = push_bit 32 (ucast (word32 (drop 4 m))) + ucast (word32 m)"

definition round_to_4 :: "u64 \<Rightarrow> u64 \<times> u64" where
  "round_to_4 sz = (let new_sz = (sz + 3) AND NOT 3; pad = new_sz - sz in (new_sz, pad))"

subsection \<open>Writing\<close>

definition size_and_buf_to_pbuf ::
  "(nat \<Rightarrow> u8 list option) \<Rightarrow> u8 list option \<Rightarrow> nat \<Rightarrow> pbuf \<Rightarrow> (xstop + unit) \<times> pbuf" where
  "size_and_buf_to_pbuf pages p sz b =
     (if p = None \<or> sz = 0 then (Inl (XThrow rs_cannot_append), b)
      else let elen = htonll (of_nat sz);
               pad_size = unat (snd (round_to_4 (of_nat sz)))
           in (case pbuf_append pages (Some (mem64 elen)) 8 b of
                 None \<Rightarrow> (Inl XNull, b)
               | Some (b, False) \<Rightarrow> (Inl (XThrow rs_cannot_append), b)
               | Some (b, True) \<Rightarrow>
                   (case pbuf_append pages p sz b of
                      None \<Rightarrow> (Inl XNull, b)
                    | Some (b, False) \<Rightarrow> (Inl (XThrow rs_cannot_append), b)
                    | Some (b, True) \<Rightarrow>
                        if pad_size \<noteq> 0
                        then (case pbuf_append pages (Some (replicate 8 0)) pad_size b of
                                None \<Rightarrow> (Inl XNull, b)
                              | Some (b, False) \<Rightarrow> (Inl (XThrow rs_cannot_append), b)
                              | Some (b, True) \<Rightarrow> (Inr (), b))
                        else (Inr (), b))))"

definition xdr_append :: "(nat \<Rightarrow> u8 list option) \<Rightarrow> u8 list \<Rightarrow> xdrbuf \<Rightarrow> (xstop + unit) \<times> xdrbuf" where
  "xdr_append pages d x =
     (case pbuf_append pages (Some d) (length d) (xb x) of
        None \<Rightarrow> (Inl XNull, x)
      | Some (b, ok) \<Rightarrow> if \<not> ok then xthr (x\<lparr>xb := b\<rparr>) rs_cannot_append () else (Inr (), x\<lparr>xb := b\<rparr>))"

definition xdr_put_i32 :: "(nat \<Rightarrow> u8 list option) \<Rightarrow> u32 \<Rightarrow> xdrbuf \<Rightarrow> (xstop + unit) \<times> xdrbuf" where
  "xdr_put_i32 pages val x = (let v = htonl val in xdr_append pages (mem32 v) x)"

definition xdr_put_u32 :: "(nat \<Rightarrow> u8 list option) \<Rightarrow> u32 \<Rightarrow> xdrbuf \<Rightarrow> (xstop + unit) \<times> xdrbuf" where
  "xdr_put_u32 pages val x = (let v = htonl val in xdr_append pages (mem32 v) x)"

definition xdr_put_i64 :: "(nat \<Rightarrow> u8 list option) \<Rightarrow> u64 \<Rightarrow> xdrbuf \<Rightarrow> (xstop + unit) \<times> xdrbuf" where
  "xdr_put_i64 pages val x = (let v = htonll val in xdr_append pages (mem64 v) x)"

definition xdr_put_u64 :: "(nat \<Rightarrow> u8 list option) \<Rightarrow> u64 \<Rightarrow> xdrbuf \<Rightarrow> (xstop + unit) \<times> xdrbuf" where
  "xdr_put_u64 pages val x = (let v = htonll val in xdr_append pages (mem64 v) x)"

text \<open>The try-catch around \<^verbatim>\<open>size_and_buf_to_pbuf\<close>.\<close>

definition xdr_catch :: "xdrbuf \<Rightarrow> (xstop + unit) \<times> pbuf \<Rightarrow> (xstop + unit) \<times> xdrbuf" where
  "xdr_catch x r =
     (let x = x\<lparr>xb := snd r\<rparr>
      in (case fst r of
            Inl (XThrow e) \<Rightarrow> xthr x e ()
          | Inl XNull \<Rightarrow> (Inl XNull, x)
          | Inr _ \<Rightarrow> (Inr (), x)))"

text \<open>A C string is its bytes before the terminating zero.\<close>

definition xdr_put_cstr :: "(nat \<Rightarrow> u8 list option) \<Rightarrow> u8 list option \<Rightarrow> xdrbuf \<Rightarrow> (xstop + unit) \<times> xdrbuf" where
  "xdr_put_cstr pages val x =
     (case val of
        None \<Rightarrow> xdr_put_u64 pages 0 x
      | Some s \<Rightarrow>
          let sz = length s
          in if sz = 0 then xdr_put_u64 pages (of_nat sz) x
             else xdr_catch x (size_and_buf_to_pbuf pages (Some s) sz (xb x)))"

text \<open>\<^verbatim>\<open>str::size\<close>: the number of wide characters without the terminating zero.\<close>

definition str_size :: "tbuf \<Rightarrow> nat" where
  "str_size val = (if bsize val \<le> 1 then 0 else bsize val div 4 - 1)"

definition xdr_put_str :: "(nat \<Rightarrow> u8 list option) \<Rightarrow> tbuf \<Rightarrow> xdrbuf \<Rightarrow> (xstop + unit) \<times> xdrbuf" where
  "xdr_put_str pages val x =
     (let sz = bsize val
      in if sz \<noteq> 0
         then (let sz = str_size val * 4 in xdr_catch x (size_and_buf_to_pbuf pages (Some (bdata val)) sz (xb x)))
         else xdr_put_u64 pages (of_nat sz) x)"

definition xdr_put_ustr :: "(nat \<Rightarrow> u8 list option) \<Rightarrow> tbuf \<Rightarrow> xdrbuf \<Rightarrow> (xstop + unit) \<times> xdrbuf" where
  "xdr_put_ustr pages val x =
     (let sz = bsize val
      in if sz \<noteq> 0 then xdr_catch x (size_and_buf_to_pbuf pages (Some (bdata val)) sz (xb x))
         else xdr_put_u64 pages (of_nat sz) x)"

definition xdr_put_bindata :: "(nat \<Rightarrow> u8 list option) \<Rightarrow> u8 list option \<Rightarrow> nat \<Rightarrow> xdrbuf \<Rightarrow> (xstop + unit) \<times> xdrbuf" where
  "xdr_put_bindata pages p sz x =
     (if sz \<noteq> 0 then xdr_catch x (size_and_buf_to_pbuf pages p sz (xb x))
      else xdr_put_u64 pages (of_nat sz) x)"

text \<open>The page loop: the result says whether it ran to the end.\<close>

primrec put_pages :: "(nat \<Rightarrow> u8 list option) \<Rightarrow> buf option list \<Rightarrow> pbuf \<Rightarrow> (bool \<times> pbuf) option" where
  "put_pages pages [] b = Some (True, b)"
| "put_pages pages (p # ps) b =
     (case p of
        None \<Rightarrow> Some (False, b)
      | Some bp \<Rightarrow>
          (case pbuf_append pages (data bp) (used bp) b of
             None \<Rightarrow> None
           | Some (b, False) \<Rightarrow> Some (False, b)
           | Some (b, True) \<Rightarrow> put_pages pages ps b))"

definition xdr_put_pbuf :: "(nat \<Rightarrow> u8 list option) \<Rightarrow> pbuf \<Rightarrow> xdrbuf \<Rightarrow> (xstop + unit) \<times> xdrbuf" where
  "xdr_put_pbuf pages val x =
     (let sz = psize val
      in (case xdr_put_u64 pages (of_nat sz) x of
            (Inl e, x) \<Rightarrow> (Inl e, x)
          | (Inr _, x) \<Rightarrow>
              if psize val = 0 then (Inr (), x)
              else (case put_pages pages (pbuf_pages val) (xb x) of
                      None \<Rightarrow> (Inl XNull, x)
                    | Some (False, b) \<Rightarrow> (Inr (), x\<lparr>xb := b\<rparr>)
                    | Some (True, b) \<Rightarrow>
                        let pad_size = unat (snd (round_to_4 (of_nat sz)))
                        in if pad_size \<noteq> 0
                           then (case pbuf_append pages (Some (replicate 4 0)) pad_size b of
                                   None \<Rightarrow> (Inl XNull, x)
                                 | Some (b, _) \<Rightarrow> (Inr (), x\<lparr>xb := b\<rparr>))
                           else (Inr (), x\<lparr>xb := b\<rparr>))))"
subsection \<open>Reading\<close>

text \<open>
  The iterator step at the start of the reading functions, when the current page is used up;
  \<open>None\<close> is the use of the null pointer \<^verbatim>\<open>*it_\<close> at the end of the list.
\<close>

definition step_forward :: "xdrbuf \<Rightarrow> xdrbuf option" where
  "step_forward x =
     (case pv_deref (bufpool (xb x)) (xit x) of
        None \<Rightarrow> None
      | Some b \<Rightarrow>
          Some (if xpos x \<ge> used b then x\<lparr>xit := pv_step (bufpool (xb x)) (xit x), xpos := 0\<rparr> else x))"

text \<open>\<open>acc\<close> is what has been stored at \<^verbatim>\<open>where\<close> so far, and its length is \<^verbatim>\<open>ret\<close>.\<close>

partial_function (option) get_loop :: "nat \<Rightarrow> u8 list \<Rightarrow> xdrbuf \<Rightarrow> ((xstop + u8 list) \<times> xdrbuf) option" where
  "get_loop n acc x =
     (if n = 0 then Some (Inr acc, x)
      else if xit x = End then Some (Inr acc, x)
      else (case pv_deref (bufpool (xb x)) (xit x) of
              None \<Rightarrow> Some (Inl XNull, x)
            | Some bf \<Rightarrow>
                let ts = used bf - xpos x
                in if ts \<ge> n
                   then (case data bf of
                           None \<Rightarrow> Some (Inl XNull, x)
                         | Some m \<Rightarrow>
                             Some (Inr (acc @ take n (drop (xpos x) m)),
                                   x\<lparr>xpos := xpos x + unat (fst (round_to_4 (of_nat n)))\<rparr>))
                   else if ts > 0
                   then (case data bf of
                           None \<Rightarrow> Some (Inl XNull, x)
                         | Some m \<Rightarrow>
                             get_loop (n - ts) (acc @ take ts (drop (xpos x) m))
                               (x\<lparr>xpos := 0, xit := pv_step (bufpool (xb x)) (xit x)\<rparr>))
                   else get_loop n acc (x\<lparr>xpos := 0, xit := pv_step (bufpool (xb x)) (xit x)\<rparr>)))"

definition get_data :: "nat \<Rightarrow> xdrbuf \<Rightarrow> ((xstop + u8 list) \<times> xdrbuf) option" where
  "get_data n x =
     (if xit x = End then Some (Inr [], x)
      else (case step_forward x of
              None \<Rightarrow> Some (Inl XNull, x)
            | Some x \<Rightarrow> get_loop n [] x))"

text \<open>
  The reading of \<^verbatim>\<open>sz\<close> bytes with the error reports that the operators share: \<open>Inr None\<close> is an
  error that is not thrown, after which the variable of the caller keeps its value.
\<close>

definition get_exact :: "nat \<Rightarrow> xdrbuf \<Rightarrow> ((xstop + u8 list option) \<times> xdrbuf) option" where
  "get_exact sz x =
     (case get_data sz x of
        None \<Rightarrow> None
      | Some (Inl e, x) \<Rightarrow> Some (Inl e, x)
      | Some (Inr d, x) \<Rightarrow>
          let szrd = length d
          in if szrd = sz then Some (Inr (Some d), x)
             else if szrd = 0 \<and> xit x = End then Some (xthr x rs_xdr_eof None)
             else if szrd \<noteq> sz then Some (xthr x rs_xdr_invalid None)
             else Some (xthr x rs_cannot_get None))"

definition xdr_get_i32 :: "xdrbuf \<Rightarrow> ((xstop + u32 option) \<times> xdrbuf) option" where
  "xdr_get_i32 x = map_option (apfst (map_sum id (map_option (\<lambda>tmp. htonl (word32 tmp))))) (get_exact 4 x)"

definition xdr_get_u32 :: "xdrbuf \<Rightarrow> ((xstop + u32 option) \<times> xdrbuf) option" where
  "xdr_get_u32 x = map_option (apfst (map_sum id (map_option (\<lambda>tmp. htonl (word32 tmp))))) (get_exact 4 x)"

definition xdr_get_i64 :: "xdrbuf \<Rightarrow> ((xstop + u64 option) \<times> xdrbuf) option" where
  "xdr_get_i64 x = map_option (apfst (map_sum id (map_option (\<lambda>tmp. htonll (word64 tmp))))) (get_exact 8 x)"

definition xdr_get_u64 :: "xdrbuf \<Rightarrow> ((xstop + u64 option) \<times> xdrbuf) option" where
  "xdr_get_u64 x = map_option (apfst (map_sum id (map_option (\<lambda>tmp. htonll (word64 tmp))))) (get_exact 8 x)"

text \<open>\<^verbatim>\<open>uint64_t sz = 0; (*this) >> sz;\<close>\<close>

definition get_size :: "xdrbuf \<Rightarrow> ((xstop + nat) \<times> xdrbuf) option" where
  "get_size x = map_option (apfst (map_sum id (\<lambda>v. case v of None \<Rightarrow> 0 | Some w \<Rightarrow> unat w))) (xdr_get_u64 x)"

text \<open>
  Strings: \<^verbatim>\<open>clear\<close>, \<^verbatim>\<open>ensure_trailing_zero\<close> of \<^verbatim>\<open>ustr\<close> and of \<^verbatim>\<open>str\<close>. The former reads the byte
  in front of an empty buffer: \<open>None\<close>.
\<close>

definition ustr_clear :: "malloc_fn \<Rightarrow> tbuf \<Rightarrow> tbuf" where
  "ustr_clear mal t = fst (tbuf_set mal (Some [0]) 1 (reset t))"

definition str_clear :: "malloc_fn \<Rightarrow> tbuf \<Rightarrow> tbuf" where
  "str_clear mal t = fst (tbuf_set mal (Some [0, 0, 0, 0]) 4 (reset t))"

definition ustr_ensure_trailing_zero :: "malloc_fn \<Rightarrow> tbuf \<Rightarrow> tbuf option" where
  "ustr_ensure_trailing_zero mal t =
     (if bsize t = 0 then None
      else if bdata t ! (bsize t - 1) \<noteq> 0 then Some (fst (tbuf_append mal (Some [0]) 1 t)) else Some t)"

text \<open>\<^verbatim>\<open>data()[sz]\<close> is the wide character behind \<open>sz\<close> others; a buffer of less than one is out of bounds.\<close>

definition str_ensure_trailing_zero :: "malloc_fn \<Rightarrow> tbuf \<Rightarrow> tbuf option" where
  "str_ensure_trailing_zero mal t =
     (let sz = bsize t div 4 - 1
      in if bsize t = 0 then Some (fst (tbuf_append mal (Some [0, 0, 0, 0]) 4 t))
         else if bsize t < 4 then None
         else if word32 (drop (4 * sz) (bdata t)) \<noteq> 0 then Some (fst (tbuf_append mal (Some [0, 0, 0, 0]) 4 t))
         else Some t)"

text \<open>
  The two string operators differ in \<^verbatim>\<open>clear\<close> and \<^verbatim>\<open>ensure_trailing_zero\<close>. The bytes read go to the
  allocated memory whether or not they are enough.
\<close>

definition get_string ::
  "(tbuf \<Rightarrow> tbuf) \<Rightarrow> (tbuf \<Rightarrow> tbuf option) \<Rightarrow> malloc_fn \<Rightarrow> tbuf \<Rightarrow> xdrbuf \<Rightarrow> ((xstop + unit) \<times> tbuf \<times> xdrbuf) option" where
  "get_string clear ensure mal val x =
     (case get_size x of
        None \<Rightarrow> None
      | Some (Inl e, x) \<Rightarrow> Some (Inl e, val, x)
      | Some (Inr sz, x) \<Rightarrow>
          if sz = 0 then Some (Inr (), clear val, x)
          else (case allocate mal sz val of
                  (val, Null) \<Rightarrow> Some (Inr (), val, x)
                | (val, _) \<Rightarrow>
                    (case get_data sz x of
                       None \<Rightarrow> None
                     | Some (Inl e, x) \<Rightarrow> Some (Inl e, val, x)
                     | Some (Inr d, x) \<Rightarrow>
                         let val = set_data val (d @ drop (length d) (bdata val));
                             szrd = length d
                         in if szrd = sz
                            then (case ensure val of None \<Rightarrow> Some (Inl XNull, val, x) | Some val \<Rightarrow> Some (Inr (), val, x))
                            else if szrd = 0 \<and> xit x = End
                            then (case xthr x rs_xdr_eof () of (r, x) \<Rightarrow> Some (r, val, x))
                            else if szrd \<noteq> sz
                            then (case xthr x rs_xdr_invalid () of (r, x) \<Rightarrow> Some (r, val, x))
                            else (case xthr x rs_cannot_get () of (r, x) \<Rightarrow> Some (r, val, x)))))"

definition xdr_get_ustr :: "malloc_fn \<Rightarrow> tbuf \<Rightarrow> xdrbuf \<Rightarrow> ((xstop + unit) \<times> tbuf \<times> xdrbuf) option" where
  "xdr_get_ustr mal = get_string (ustr_clear mal) (ustr_ensure_trailing_zero mal) mal"

definition xdr_get_str :: "malloc_fn \<Rightarrow> tbuf \<Rightarrow> xdrbuf \<Rightarrow> ((xstop + unit) \<times> tbuf \<times> xdrbuf) option" where
  "xdr_get_str mal = get_string (str_clear mal) (str_ensure_trailing_zero mal) mal"

text \<open>
  The loop of \<^verbatim>\<open>operator>>(pbuf &)\<close> and its label \<^verbatim>\<open>bail\<close>, reached with the bytes read so far.
\<close>

definition bail :: "nat \<Rightarrow> nat \<Rightarrow> pbuf \<Rightarrow> xdrbuf \<Rightarrow> (xstop + unit) \<times> pbuf \<times> xdrbuf" where
  "bail saved_size szrd val x =
     (if saved_size \<noteq> szrd then (case xthr x rs_xdr_invalid () of (r, x) \<Rightarrow> (r, val, x)) else (Inr (), val, x))"

definition bail_append :: "nat \<Rightarrow> nat \<Rightarrow> pbuf \<Rightarrow> xdrbuf \<Rightarrow> (xstop + unit) \<times> pbuf \<times> xdrbuf" where
  "bail_append saved_size szrd val x =
     (if xexc x then (Inl (XThrow rs_cannot_append), val, x) else bail saved_size szrd val x)"

partial_function (option) get_pbuf_loop ::
  "(nat \<Rightarrow> u8 list option) \<Rightarrow> nat \<Rightarrow> nat \<Rightarrow> nat \<Rightarrow> pbuf \<Rightarrow> xdrbuf \<Rightarrow> ((xstop + unit) \<times> pbuf \<times> xdrbuf) option" where
  "get_pbuf_loop pages saved_size n szrd val x =
     (if n = 0 then Some (bail saved_size szrd val x)
      else if xit x = End then Some (bail saved_size szrd val x)
      else (case pv_deref (bufpool (xb x)) (xit x) of
              None \<Rightarrow> Some (Inl XNull, val, x)
            | Some bf \<Rightarrow>
                let ts = used bf - xpos x
                in if ts \<ge> n
                   then (case pbuf_append pages (map_option (drop (xpos x)) (data bf)) n val of
                           None \<Rightarrow> Some (Inl XNull, val, x)
                         | Some (val, ok) \<Rightarrow>
                             if \<not> ok then Some (bail_append saved_size szrd val x)
                             else Some (bail saved_size (szrd + n) val
                               (x\<lparr>xpos := xpos x + unat (fst (round_to_4 (of_nat n)))\<rparr>)))
                   else if ts > 0
                   then (case pbuf_append pages (map_option (drop (xpos x)) (data bf)) ts val of
                           None \<Rightarrow> Some (Inl XNull, val, x)
                         | Some (val, ok) \<Rightarrow>
                             if \<not> ok then Some (bail_append saved_size szrd val x)
                             else get_pbuf_loop pages saved_size (n - ts) (szrd + ts) val
                               (x\<lparr>xpos := 0, xit := pv_step (bufpool (xb x)) (xit x)\<rparr>))
                   else get_pbuf_loop pages saved_size n szrd val
                          (x\<lparr>xpos := 0, xit := pv_step (bufpool (xb x)) (xit x)\<rparr>)))"

definition xdr_get_pbuf :: "(nat \<Rightarrow> u8 list option) \<Rightarrow> pbuf \<Rightarrow> xdrbuf \<Rightarrow> ((xstop + unit) \<times> pbuf \<times> xdrbuf) option" where
  "xdr_get_pbuf pages val x =
     (if xit x = End then Some (bail 0 0 val x)
      else (case get_size x of
              None \<Rightarrow> None
            | Some (Inl e, x) \<Rightarrow> Some (Inl e, val, x)
            | Some (Inr n, x) \<Rightarrow>
                (case step_forward x of
                   None \<Rightarrow> Some (Inl XNull, val, x)
                 | Some x \<Rightarrow> get_pbuf_loop pages n n 0 val x)))"

text \<open>
  \<^verbatim>\<open>get_data\<close> with a limit: the result is the returned value, \<^verbatim>\<open>size\<close> and the bytes stored. The
  template for containers looks at the size first, as a 32-bit number, and goes back.
\<close>

definition get_data_max :: "nat \<Rightarrow> xdrbuf \<Rightarrow> ((xstop + bool \<times> nat \<times> u8 list) \<times> xdrbuf) option" where
  "get_data_max max_size x =
     (let oldit = xit x; oldpos = xpos x
      in (case get_size x of
            None \<Rightarrow> None
          | Some (Inl e, x) \<Rightarrow> Some (Inl e, x)
          | Some (Inr sz, x) \<Rightarrow>
              if sz > max_size then Some (Inr (False, sz, []), x\<lparr>xit := oldit, xpos := oldpos\<rparr>)
              else (case get_data sz x of
                      None \<Rightarrow> None
                    | Some (Inl e, x) \<Rightarrow> Some (Inl e, x)
                    | Some (Inr d, x) \<Rightarrow>
                        if length d = sz then Some (Inr (True, sz, d), x)
                        else Some (xthr x rs_xdr_invalid (False, sz, d)))))"

text \<open>
  The uninitialised \<^verbatim>\<open>uint32_t sz\<close> is the argument \<open>junk\<close>; \<open>sz0\<close> is what the caller's variable \<^verbatim>\<open>size\<close> holds,
  and the result is the returned value and what the variable holds afterwards.
\<close>

definition get_data_t ::
  "malloc_fn \<Rightarrow> u32 \<Rightarrow> nat \<Rightarrow> nat \<Rightarrow> tbuf \<Rightarrow> xdrbuf \<Rightarrow> ((xstop + bool \<times> nat) \<times> tbuf \<times> xdrbuf) option" where
  "get_data_t mal junk max_size sz0 t x =
     (let oldit = xit x; oldpos = xpos x
      in (case xdr_get_u32 x of
            None \<Rightarrow> None
          | Some (Inl e, x) \<Rightarrow> Some (Inl e, t, x)
          | Some (Inr v, x) \<Rightarrow>
              let sz = unat (case v of None \<Rightarrow> junk | Some w \<Rightarrow> w);
                  x = x\<lparr>xit := oldit, xpos := oldpos\<rparr>
              in if sz = 0 \<or> sz > max_size then Some (Inr (False, sz0), t, x)
                 else (case allocate mal sz t of
                         (t, p) \<Rightarrow>
                           (case get_data_max max_size x of
                              None \<Rightarrow> None
                            | Some (Inl e, x) \<Rightarrow> Some (Inl e, t, x)
                            | Some (Inr (r, n, d), x) \<Rightarrow>
                                if d = [] then Some (Inr (r, n), t, x)
                                else if p = Null \<or> length d > length (bdata t) then Some (Inl XNull, t, x)
                                else Some (Inr (r, n), set_data t (d @ drop (length d) (bdata t)), x)))))"

partial_function (option) forward_loop :: "nat \<Rightarrow> xdrbuf \<Rightarrow> ((xstop + bool) \<times> xdrbuf) option" where
  "forward_loop n x =
     (if n = 0 then Some (Inr True, x)
      else if xit x = End then Some (Inr False, x)
      else (case pv_deref (bufpool (xb x)) (xit x) of
              None \<Rightarrow> Some (Inl XNull, x)
            | Some bf \<Rightarrow>
                let ts = used bf - xpos x
                in if ts \<ge> n then Some (Inr True, x\<lparr>xpos := xpos x + unat (fst (round_to_4 (of_nat n)))\<rparr>)
                   else forward_loop (n - ts) (x\<lparr>xpos := 0, xit := pv_step (bufpool (xb x)) (xit x)\<rparr>)))"

definition forward :: "nat \<Rightarrow> xdrbuf \<Rightarrow> ((xstop + bool) \<times> xdrbuf) option" where
  "forward n x =
     (if xit x = End then Some (Inr False, x)
      else (case step_forward x of None \<Rightarrow> Some (Inl XNull, x) | Some x \<Rightarrow> forward_loop n x))"

definition rewind :: "xdrbuf \<Rightarrow> xdrbuf" where
  "rewind x = x\<lparr>xpos := 0, xit := pv_begin (bufpool (xb x))\<rparr>"

partial_function (option) position_loop :: "xdrbuf \<Rightarrow> pv_iter \<Rightarrow> nat \<Rightarrow> (nat \<times> pv_iter) option" where
  "position_loop x it ret =
     (if it = xit x then Some (ret, it)
      else (case pv_deref (bufpool (xb x)) it of
              None \<Rightarrow> None
            | Some b \<Rightarrow> position_loop x (pv_step (bufpool (xb x)) it) (ret + used b)))"

definition position :: "xdrbuf \<Rightarrow> nat option" where
  "position x =
     (case position_loop x (pv_begin (bufpool (xb x))) 0 of
        None \<Rightarrow> None
      | Some (ret, it) \<Rightarrow> Some (if it \<noteq> End then ret + xpos x else ret))"

subsection \<open>Specification\<close>

text \<open>
  The bytes a reader has in front of it, what holds of a reader at all times, and the encodings.
\<close>

definition rest :: "xdrbuf \<Rightarrow> u8 list" where
  "rest x = drop (xpos x) (concat (map buf_bytes (drop (pv_index 32 (bufpool (xb x)) (xit x)) (pv_list (bufpool (xb x))))))"

definition xdr_ok :: "xdrbuf \<Rightarrow> bool" where
  "xdr_ok x \<longleftrightarrow> pbuf_ok (xb x) \<and> pv_valid (bufpool (xb x)) (xit x) \<and> 4 dvd xpos x \<and> xpos x \<le> 2048"

definition ceil4 :: "nat \<Rightarrow> nat" where
  "ceil4 n = (n + 3) div 4 * 4"

definition enc32 :: "u32 \<Rightarrow> u8 list" where
  "enc32 w = [byte3 w, byte2 w, byte1 w, byte0 w]"

definition enc64 :: "u64 \<Rightarrow> u8 list" where
  "enc64 w = enc32 (ucast (drop_bit 32 w)) @ enc32 (ucast w)"

definition enc_bytes :: "u8 list \<Rightarrow> u8 list" where
  "enc_bytes d = enc64 (of_nat (length d)) @ d @ replicate (ceil4 (length d) - length d) 0"

text \<open>\<open>writes r x d\<close>: the call \<open>r\<close> on the stream \<open>x\<close> returned and added the bytes \<open>d\<close>.\<close>

definition writes :: "(xstop + unit) \<times> xdrbuf \<Rightarrow> xdrbuf \<Rightarrow> u8 list \<Rightarrow> bool" where
  "writes r x d \<longleftrightarrow> (\<exists>b. r = (Inr (), x\<lparr>xb := b\<rparr>) \<and> pbuf_ok b \<and> pbytes b = pbytes (xb x) @ d)"

subsection \<open>Byte order and padding\<close>

lemma and_not_mask: "w AND NOT (mask n) = push_bit n (drop_bit n (w :: 'a::len word))"
  by (rule bit_word_eqI) (auto simp: bit_simps)

lemma and_not_3: "unat (w AND NOT 3 :: u64) = unat w div 4 * 4"
proof -
  have "w AND NOT 3 = w - take_bit 2 w"
  proof -
    have "(3 :: u64) = mask 2" by (simp add: mask_eq_exp_minus_1)
    then have "w AND NOT 3 = push_bit 2 (drop_bit 2 w)" using and_not_mask [of w 2] by metis
    then show ?thesis using bits_ident [of 2 w] by (metis add_diff_cancel_right')
  qed
  moreover have t: "unat (take_bit 2 w) = unat w mod 4" by (simp only: unsigned_take_bit_eq) (simp add: take_bit_eq_mod)
  moreover have "take_bit 2 w \<le> w" by (simp add: word_le_nat_alt t)
  ultimately show ?thesis by (simp add: unat_sub minus_mod_eq_div_mult)
qed

lemma round_to_4_eq:
  assumes "n < 2 ^ 64 - 3"
  shows "unat (fst (round_to_4 (of_nat n))) = ceil4 n" and "unat (snd (round_to_4 (of_nat n))) = ceil4 n - n"
proof -
  have "unat (of_nat (n + 3) :: u64) = n + 3" using assms by (simp only: unsigned_of_nat) (simp add: take_bit_nat_eq_self)
  then have u: "unat (of_nat n + 3 :: u64) = n + 3" by simp
  then show f: "unat (fst (round_to_4 (of_nat n))) = ceil4 n" unfolding round_to_4_def Let_def fst_conv and_not_3 by (simp add: ceil4_def)
  have r: "snd (round_to_4 (of_nat n)) = fst (round_to_4 (of_nat n)) - of_nat n" by (simp add: round_to_4_def Let_def)
  have "n \<le> ceil4 n" by (simp add: ceil4_def)
  moreover have "unat (of_nat n :: u64) = n" using assms by (simp add: unsigned_of_nat take_bit_nat_eq_self)
  ultimately show "unat (snd (round_to_4 (of_nat n))) = ceil4 n - n"
    using f by (simp add: r unat_sub word_le_nat_alt)
qed

lemma ceil4_bounds: "n \<le> ceil4 n" "ceil4 n < n + 4" "4 dvd ceil4 n"
  by (simp_all add: ceil4_def)

lemma ceil4_le: "4 dvd m \<Longrightarrow> n \<le> m \<Longrightarrow> ceil4 n \<le> m"
  unfolding ceil4_def by presburger

lemma ceil4_diff: "4 dvd m \<Longrightarrow> m \<le> n \<Longrightarrow> ceil4 n = m + ceil4 (n - m)"
proof -
  assume "4 dvd m" "m \<le> n"
  then obtain k c where "m = 4 * k" "n = 4 * k + c" by (metis dvdE le_Suc_ex)
  moreover have "(c + 3 + k * 4) div 4 = k + (c + 3) div 4" by simp
  ultimately show ?thesis by (simp add: ceil4_def algebra_simps)
qed

lemma ceil4_id: "4 dvd n \<Longrightarrow> ceil4 n = n"
  unfolding ceil4_def by presburger

lemma split64:
  "ucast (push_bit 32 (ucast a) + ucast b :: u64) = (b :: u32)"
  "ucast (drop_bit 32 (push_bit 32 (ucast a) + ucast b :: u64)) = (a :: u32)"
proof -
  have z: "\<not> bit (x :: u32) k" if "32 \<le> k" for x k
    using bit_imp_le_length [of x k] that by auto
  have o: "push_bit 32 (ucast a) + ucast b = (push_bit 32 (ucast a) OR ucast b :: u64)"
    by (rule disjunctive_add) (auto simp: bit_simps z)
  show "ucast (push_bit 32 (ucast a) + ucast b :: u64) = (b :: u32)"
    unfolding o by (rule bit_word_eqI) (auto simp: bit_simps)
  show "ucast (drop_bit 32 (push_bit 32 (ucast a) + ucast b :: u64)) = (a :: u32)"
    unfolding o by (rule bit_word_eqI) (auto simp: bit_simps z)
qed

lemma join64: "push_bit 32 (ucast (ucast (drop_bit 32 w) :: u32)) + ucast (ucast w :: u32) = (w :: u64)"
proof -
  have z: "\<not> bit (x :: u64) k" if "64 \<le> k" for x k
    using bit_imp_le_length [of x k] that by auto
  have o: "push_bit 32 (ucast (ucast (drop_bit 32 w) :: u32)) + ucast (ucast w :: u32) =
      (push_bit 32 (ucast (ucast (drop_bit 32 w) :: u32)) OR ucast (ucast w :: u32) :: u64)"
    by (rule disjunctive_add) (auto simp: bit_simps)
  show ?thesis unfolding o by (rule bit_word_eqI) (auto simp: bit_simps)
qed

lemma htonl_htonl [simp]: "htonl (htonl w) = w"
  by (simp add: htonl_def byte_simps)

lemma mem32_htonl: "mem32 (htonl w) = enc32 w"
  by (simp add: mem32_def htonl_def enc32_def byte_simps)

lemma word32_enc32: "word32 (enc32 w) = htonl w" "word32 (enc32 w @ r) = htonl w"
  by (simp_all add: word32_def enc32_def htonl_def)

lemma mem64_htonll: "mem64 (htonll w) = enc64 w"
  by (simp add: mem64_def htonll_def split64 mem32_htonl enc64_def)

lemma word64_enc64: "htonll (word64 (enc64 w)) = w"
proof -
  have "drop 4 (enc64 w) = enc32 (ucast w)" by (simp add: enc64_def enc32_def)
  then have "word64 (enc64 w) = push_bit 32 (ucast (htonl (ucast w))) + ucast (htonl (ucast (drop_bit 32 w)))"
    by (simp add: word64_def word32_enc32) (simp add: enc64_def word32_enc32)
  then show ?thesis by (simp add: htonll_def split64 join64)
qed

lemma length_enc [simp]: "length (enc32 v) = 4" "length (enc64 w) = 8"
  by (simp_all add: enc32_def enc64_def)

lemma length_enc_bytes: "length (enc_bytes d) = 8 + ceil4 (length d)"
  using ceil4_bounds(1) [of "length d"] by (simp add: enc_bytes_def)

subsection \<open>Writing\<close>

lemma append_bytes:
  assumes "pbuf_ok b" and "pages_ok pages" and "length d = n"
  obtains b' where "pbuf_append pages (Some d) n b = Some (b', True)" "pbuf_ok b'" "pbytes b' = pbytes b @ d"
  using pbuf_append_ok [OF assms(1,2), of n d] assms(3) by auto

lemma xdr_append_writes: "pbuf_ok (xb x) \<Longrightarrow> pages_ok pages \<Longrightarrow> writes (xdr_append pages d x) x d"
  using append_bytes [of "xb x" pages d "length d"] by (fastforce simp: xdr_append_def writes_def)

lemma put_int_writes:
  assumes "pbuf_ok (xb x)" and "pages_ok pages"
  shows "writes (xdr_put_i32 pages v x) x (enc32 v)" and "writes (xdr_put_u32 pages v x) x (enc32 v)"
    and "writes (xdr_put_i64 pages w x) x (enc64 w)" and "writes (xdr_put_u64 pages w x) x (enc64 w)"
  using xdr_append_writes [OF assms]
  by (simp_all add: xdr_put_i32_def xdr_put_u32_def xdr_put_i64_def xdr_put_u64_def mem32_htonl mem64_htonll)

lemma size_and_buf_ok:
  assumes "pbuf_ok b" and "pages_ok pages" and "sz \<noteq> 0" and "sz \<le> length d" and "sz < 2 ^ 64 - 3"
  shows "\<exists>b'. size_and_buf_to_pbuf pages (Some d) sz b = (Inr (), b') \<and> pbuf_ok b' \<and> pbytes b' = pbytes b @ enc_bytes (take sz d)"
proof -
  define pad where "pad = ceil4 sz - sz"
  have p: "unat (snd (round_to_4 (of_nat sz))) = pad" "pad < 4"
    using round_to_4_eq(2) [OF assms(5)] ceil4_bounds [of sz] by (simp_all add: pad_def)
  obtain b1 where b1: "pbuf_append pages (Some (enc64 (of_nat sz))) 8 b = Some (b1, True)" "pbuf_ok b1" "pbytes b1 = pbytes b @ enc64 (of_nat sz)"
    using append_bytes [OF assms(1,2), of "enc64 (of_nat sz)" 8] by auto
  obtain b2 where b2: "pbuf_append pages (Some d) sz b1 = Some (b2, True)" "pbuf_ok b2" "pbytes b2 = pbytes b1 @ take sz d"
    using pbuf_append_ok [OF b1(2) assms(2,4)] by auto
  obtain b3 where b3: "pbuf_append pages (Some (replicate 8 0)) pad b2 = Some (b3, True)" "pbuf_ok b3" "pbytes b3 = pbytes b2 @ replicate pad 0"
    using pbuf_append_ok [OF b2(2) assms(2), of pad "replicate 8 0"] p(2) by auto
  have e: "enc_bytes (take sz d) = enc64 (of_nat sz) @ take sz d @ replicate pad 0"
    using assms(4) by (simp add: enc_bytes_def pad_def min_absorb2)
  show ?thesis
    using assms(3) b1 b2 b3 p e by (cases "pad = 0") (auto simp: size_and_buf_to_pbuf_def mem64_htonll Let_def)
qed

lemma catch_writes:
  assumes "\<exists>b. r = (Inr (), b) \<and> pbuf_ok b \<and> pbytes b = pbytes (xb x) @ d"
  shows "writes (xdr_catch x r) x d"
proof -
  obtain b where b: "r = (Inr (), b)" "pbuf_ok b" "pbytes b = pbytes (xb x) @ d" using assms by blast
  then have "xdr_catch x r = (Inr (), x\<lparr>xb := b\<rparr>)" by (simp add: xdr_catch_def)
  then show ?thesis unfolding writes_def using b(2,3) by blast
qed

lemma enc_bytes_empty: "enc_bytes [] = enc64 0"
  by (simp add: enc_bytes_def ceil4_def)

lemma put_bytes_writes:
  assumes "pbuf_ok (xb x)" and "pages_ok pages" and "length d < 2 ^ 64 - 3"
  shows "writes (xdr_put_bindata pages (Some d) (length d) x) x (enc_bytes d)" and "writes (xdr_put_cstr pages (Some d) x) x (enc_bytes d)"
    and "bytes t = d \<Longrightarrow> tbuf_ok t \<Longrightarrow> writes (xdr_put_ustr pages t x) x (enc_bytes d)"
proof -
  have z: "length d = 0 \<Longrightarrow> writes (xdr_put_u64 pages 0 x) x (enc_bytes d)"
    using put_int_writes(4) [OF assms(1,2), of 0] by (simp add: enc_bytes_empty)
  have c: "length d \<noteq> 0 \<Longrightarrow> length d \<le> length d' \<Longrightarrow> take (length d) d' = d \<Longrightarrow>
      writes (xdr_catch x (size_and_buf_to_pbuf pages (Some d') (length d) (xb x))) x (enc_bytes d)" for d'
    using catch_writes size_and_buf_ok [OF assms(1,2) _ _ assms(3), of d'] by simp
  show "writes (xdr_put_bindata pages (Some d) (length d) x) x (enc_bytes d)" "writes (xdr_put_cstr pages (Some d) x) x (enc_bytes d)"
    using z c [of d] by (auto simp: xdr_put_bindata_def xdr_put_cstr_def Let_def)
  assume "bytes t = d" "tbuf_ok t"
  then have "length d = bsize t" "take (bsize t) (bdata t) = d" "bsize t \<le> length (bdata t)"
    by (auto simp: bytes_def tbuf_ok_def)
  then show "writes (xdr_put_ustr pages t x) x (enc_bytes d)"
    using z c [of "bdata t"] by (auto simp: xdr_put_ustr_def Let_def)
qed

lemma put_pages_ok:
  assumes "pbuf_ok b" and "pages_ok pages" and "\<forall>p \<in> set ps. page_ok p"
  shows "\<exists>b'. put_pages pages ps b = Some (True, b') \<and> pbuf_ok b' \<and> pbytes b' = pbytes b @ concat (map buf_bytes ps)"
  using assms(1,3)
proof (induction ps arbitrary: b)
  case (Cons p ps)
  then obtain bp m where bp: "p = Some bp" "data bp = Some m" "length m = 2048" "used bp \<le> 2048"
    by (meson list.set_intros(1) page_okE)
  obtain b1 where a: "pbuf_append pages (Some m) (used bp) b = Some (b1, True)" "pbuf_ok b1" "pbytes b1 = pbytes b @ take (used bp) m"
    using pbuf_append_ok [OF Cons.prems(1) assms(2), of "used bp" m] bp by auto
  then show ?case using Cons.IH [OF a(2)] Cons.prems(2) bp by (auto simp: buf_bytes_def)
qed simp

lemma put_pbuf_writes:
  assumes "pbuf_ok (xb x)" and "pages_ok pages" and "pbuf_ok val" and "psize val < 2 ^ 64 - 3"
  shows "writes (xdr_put_pbuf pages val x) x (enc_bytes (pbytes val))"
proof -
  define pad where "pad = ceil4 (psize val) - psize val"
  have p: "unat (snd (round_to_4 (of_nat (psize val)))) = pad" "pad < 4"
    using round_to_4_eq(2) [OF assms(4)] ceil4_bounds [of "psize val"] by (simp_all add: pad_def)
  have v: "psize val = length (pbytes val)" "pv_ok 32 (bufpool val)" "\<forall>p \<in> set (pbuf_pages val). page_ok p"
    "concat (map buf_bytes (pbuf_pages val)) = pbytes val"
    using assms(3) by (simp_all add: pbuf_ok_def pbuf_pages_eq pbytes_def)
  obtain b1 where b1: "xdr_put_u64 pages (of_nat (psize val)) x = (Inr (), x\<lparr>xb := b1\<rparr>)" "pbuf_ok b1"
      "pbytes b1 = pbytes (xb x) @ enc64 (of_nat (psize val))"
    using put_int_writes(4) [OF assms(1,2), of "of_nat (psize val)"] by (auto simp: writes_def)
  obtain b2 where b2: "put_pages pages (pbuf_pages val) b1 = Some (True, b2)" "pbuf_ok b2" "pbytes b2 = pbytes b1 @ pbytes val"
    using put_pages_ok [OF b1(2) assms(2) v(3)] v(4) by auto
  obtain b3 where b3: "pbuf_append pages (Some (replicate 4 0)) pad b2 = Some (b3, True)" "pbuf_ok b3" "pbytes b3 = pbytes b2 @ replicate pad 0"
    using pbuf_append_ok [OF b2(2) assms(2), of pad "replicate 4 0"] p(2) by auto
  have e: "enc_bytes (pbytes val) = enc64 (of_nat (psize val)) @ pbytes val @ replicate pad 0"
    by (simp add: enc_bytes_def pad_def v(1))
  show ?thesis
  proof (cases "psize val = 0")
    case True
    then show ?thesis using b1 e v(1) by (auto simp: xdr_put_pbuf_def writes_def pad_def ceil4_def Let_def)
  next
    case False
    then show ?thesis using b1 b2 b3 p e by (cases "pad = 0") (auto simp: xdr_put_pbuf_def writes_def Let_def)
  qed
qed
subsection \<open>Reading\<close>

text \<open>The page a reader is at, and the reader at the start of the next one.\<close>

lemma at_page:
  assumes "xdr_ok x" and "xit x \<noteq> End"
  defines "y \<equiv> x\<lparr>xpos := 0, xit := pv_step (bufpool (xb x)) (xit x)\<rparr>"
  obtains b m where "pv_deref (bufpool (xb x)) (xit x) = Some b" "data b = Some m" "length m = 2048" "0 < used b" "used b \<le> 2048"
    "rest x = drop (xpos x) (take (used b) m @ rest y)" "xdr_ok y" "rest y \<noteq> [] \<longrightarrow> used b = 2048"
    "pv_index 32 (bufpool (xb x)) (xit y) = Suc (pv_index 32 (bufpool (xb x)) (xit x))"
    "pv_index 32 (bufpool (xb x)) (xit x) < length (pv_list (bufpool (xb x)))"
proof -
  let ?l = "bufpool (xb x)" let ?k = "pv_index 32 ?l (xit x)"
  have ok: "pv_ok 32 ?l" "pv_valid ?l (xit x)" and pg: "\<forall>p \<in> set (pv_list ?l). page_ok p"
    and full: "\<forall>p \<in> set (butlast (pv_list ?l)). length (buf_bytes p) = 2048"
    using assms(1) by (simp_all add: xdr_ok_def pbuf_ok_def)
  note s = pvi.step_ok [OF ok assms(2)]
  then have "page_ok (pv_deref ?l (xit x))" using pg by simp
  then obtain b m where b: "pv_deref ?l (xit x) = Some b" "data b = Some m" "length m = 2048" "0 < used b" "used b \<le> 2048"
      "length (buf_bytes (pv_deref ?l (xit x))) = used b"
    by (rule page_okE) auto
  have d: "drop ?k (pv_list ?l) = Some b # drop (Suc ?k) (pv_list ?l)" using s b(1) by (simp add: Cons_nth_drop_Suc)
  have r: "rest y = concat (map buf_bytes (drop (Suc ?k) (pv_list ?l)))" using s by (simp add: rest_def y_def)
  have "used b = 2048" if "rest y \<noteq> []"
  proof -
    have "Suc ?k < length (pv_list ?l)" using that r by (cases "Suc ?k < length (pv_list ?l)") auto
    then have "Some b \<in> set (butlast (pv_list ?l))"
      using s b(1) nth_mem [of ?k "butlast (pv_list ?l)"] by (simp add: nth_butlast)
    then show ?thesis using full b(1,6) by auto
  qed
  moreover have "rest x = drop (xpos x) (take (used b) m @ rest y)" using r d b(2) by (simp add: rest_def buf_bytes_def)
  moreover have "xdr_ok y" using assms(1) s by (simp add: xdr_ok_def y_def)
  ultimately show thesis using that [of b m] b s by (simp add: y_def)
qed

lemma get_loop_ok:
  assumes "xdr_ok x"
  shows "\<exists>x'. get_loop n acc x = Some (Inr (acc @ take n (rest x)), x') \<and> xdr_ok x' \<and> xb x' = xb x \<and> xexc x' = xexc x \<and>
    rest x' = drop (ceil4 n) (rest x) \<and> (length (rest x) < n \<longrightarrow> xit x' = End) \<and> (0 < n \<and> n \<le> length (rest x) \<longrightarrow> xit x' \<noteq> End)"
  using assms
proof (induction "length (pv_list (bufpool (xb x))) - pv_index 32 (bufpool (xb x)) (xit x)" arbitrary: x n acc rule: less_induct)
  case less
  show ?case
  proof (cases "n = 0 \<or> xit x = End")
    case True
    then show ?thesis using less.prems by (subst get_loop.simps) (auto simp: ceil4_def rest_def pv_index_def)
  next
    case False
    then have n: "n \<noteq> 0" and ne: "xit x \<noteq> End" by auto
    let ?y = "x\<lparr>xpos := 0, xit := pv_step (bufpool (xb x)) (xit x)\<rparr>"
    from ne obtain b m where b: "pv_deref (bufpool (xb x)) (xit x) = Some b" "data b = Some m" "length m = 2048" "0 < used b" "used b \<le> 2048"
        "rest x = drop (xpos x) (take (used b) m @ rest ?y)" "xdr_ok ?y" "rest ?y \<noteq> [] \<longrightarrow> used b = 2048"
        "pv_index 32 (bufpool (xb x)) (xit ?y) = Suc (pv_index 32 (bufpool (xb x)) (xit x))"
        "pv_index 32 (bufpool (xb x)) (xit x) < length (pv_list (bufpool (xb x)))"
      by (rule at_page [OF less.prems])
    define ts where "ts = used b - xpos x"
    have pos: "4 dvd xpos x" "xpos x \<le> 2048" using less.prems by (simp_all add: xdr_ok_def)
    have IH: "\<exists>x'. get_loop k a ?y = Some (Inr (a @ take k (rest ?y)), x') \<and> xdr_ok x' \<and> xb x' = xb x \<and> xexc x' = xexc x \<and>
        rest x' = drop (ceil4 k) (rest ?y) \<and> (length (rest ?y) < k \<longrightarrow> xit x' = End) \<and> (0 < k \<and> k \<le> length (rest ?y) \<longrightarrow> xit x' \<noteq> End)" for k a
      using less.hyps [of ?y k a] b(7,9,10) by simp
    show ?thesis
    proof (cases "n \<le> ts")
      case True
      then have le: "n \<le> 2048" "xpos x + n \<le> used b" using b(5) n by (auto simp: ts_def)
      have c: "unat (fst (round_to_4 (of_nat n))) = ceil4 n" using round_to_4_eq(1) [of n] le(1) by simp
      have "4 dvd 2048 - xpos x" using pos(1) by simp
      moreover have "n \<le> 2048 - xpos x" using le b(5) by linarith
      ultimately have "ceil4 n \<le> 2048 - xpos x" by (rule ceil4_le)
      then have c4: "xpos x + ceil4 n \<le> 2048" using pos(2) by linarith
      let ?x = "x\<lparr>xpos := xpos x + ceil4 n\<rparr>"
      have "get_loop n acc x = Some (Inr (acc @ take n (drop (xpos x) m)), ?x)"
        using n ne b True c by (subst get_loop.simps) (simp add: Let_def ts_def)
      moreover have "take n (rest x) = take n (drop (xpos x) m)"
        using le b(3,5,6) by (simp add: take_drop)
      moreover have "xdr_ok ?x" using less.prems c4 ceil4_bounds(3) [of n] by (simp add: xdr_ok_def)
      moreover have "rest ?x = drop (ceil4 n) (rest x)" by (simp add: rest_def add.commute)
      moreover have "n \<le> length (rest x)" using le b(3,5,6) by simp
      ultimately show ?thesis using ne by auto
    next
      case gt: False
      show ?thesis
      proof (cases "ts = 0")
        case True
        have "rest x = rest ?y"
          using True b(3,5,6,8) pos(2) by (cases "rest ?y = []") (simp_all add: ts_def)
        moreover have "get_loop n acc x = get_loop n acc ?y"
          using n ne b(1,2) gt True by (subst get_loop.simps) (simp add: Let_def ts_def)
        ultimately show ?thesis using IH [of n acc] by simp
      next
        case False
        have r: "rest x = take ts (drop (xpos x) m) @ rest ?y"
          using False b(3,5,6) by (simp add: ts_def drop_take)
        have lt: "length (take ts (drop (xpos x) m)) = ts" using b(3,5) by (simp add: ts_def)
        have "get_loop n acc x = get_loop (n - ts) (acc @ take ts (drop (xpos x) m)) ?y"
          using n ne b(1,2) gt False by (subst get_loop.simps) (simp add: Let_def ts_def)
        moreover have "drop (ceil4 (n - ts)) (rest ?y) = drop (ceil4 n) (rest x)"
        proof (cases "rest ?y = []")
          case True
          then show ?thesis using r lt gt ceil4_bounds(1) [of n] by simp
        next
          case ne': False
          then have "4 dvd ts" using b(8) pos(1) by (simp add: ts_def)
          then show ?thesis using ceil4_diff [of ts n] gt r lt by simp
        qed
        ultimately show ?thesis using IH [of "n - ts" "acc @ take ts (drop (xpos x) m)"] r lt gt by auto
      qed
    qed
  qed
qed

lemma step_forward_ok:
  assumes "xdr_ok x" and "xit x \<noteq> End"
  obtains x' where "step_forward x = Some x'" "xdr_ok x'" "rest x' = rest x" "xb x' = xb x" "xexc x' = xexc x"
proof -
  let ?y = "x\<lparr>xpos := 0, xit := pv_step (bufpool (xb x)) (xit x)\<rparr>"
  from assms obtain b m where b: "pv_deref (bufpool (xb x)) (xit x) = Some b" "length m = 2048" "used b \<le> 2048"
      "rest x = drop (xpos x) (take (used b) m @ rest ?y)" "xdr_ok ?y" "rest ?y \<noteq> [] \<longrightarrow> used b = 2048"
    by (rule at_page)
  have "used b \<le> xpos x \<Longrightarrow> rest x = rest ?y"
    using b(2-4,6) assms(1) by (cases "rest ?y = []") (simp_all add: xdr_ok_def)
  then have e: "used b \<le> xpos x \<Longrightarrow> rest ?y = rest x" by simp
  show thesis
  proof (cases "used b \<le> xpos x")
    case True
    have "step_forward x = Some ?y" using True b(1) by (simp add: step_forward_def)
    then show thesis by (rule that) (use b(5) e True in simp_all)
  next
    case False
    then have "step_forward x = Some x" using b(1) by (simp add: step_forward_def)
    then show thesis by (rule that) (use assms(1) in simp_all)
  qed
qed

lemma get_data_ok:
  assumes "xdr_ok x"
  shows "\<exists>x'. get_data n x = Some (Inr (take n (rest x)), x') \<and> xdr_ok x' \<and> xb x' = xb x \<and> xexc x' = xexc x \<and>
    rest x' = drop (ceil4 n) (rest x) \<and> (length (rest x) < n \<longrightarrow> xit x' = End) \<and> (0 < n \<and> n \<le> length (rest x) \<longrightarrow> xit x' \<noteq> End)"
proof (cases "xit x = End")
  case True
  then have "rest x = []" by (simp add: rest_def pv_index_def)
  then show ?thesis using True assms by (auto simp: get_data_def)
next
  case False
  then obtain x1 where x1: "step_forward x = Some x1" "xdr_ok x1" "rest x1 = rest x" "xb x1 = xb x" "xexc x1 = xexc x"
    by (rule step_forward_ok [OF assms])
  then show ?thesis using get_loop_ok [OF x1(2), of n "[]"] False by (simp add: get_data_def)
qed

lemma get_exact_ok:
  assumes "xdr_ok x" and "0 < n"
  shows "\<exists>x'. xdr_ok x' \<and> xb x' = xb x \<and> xexc x' = xexc x \<and> rest x' = drop (ceil4 n) (rest x) \<and> (xit x' = End \<longleftrightarrow> length (rest x) < n) \<and>
    get_exact n x = Some (if n \<le> length (rest x) then (Inr (Some (take n (rest x))), x')
      else if rest x = [] then xthr x' rs_xdr_eof None else xthr x' rs_xdr_invalid None)"
proof -
  obtain x' where x': "get_data n x = Some (Inr (take n (rest x)), x')" "xdr_ok x'" "xb x' = xb x" "xexc x' = xexc x"
      "rest x' = drop (ceil4 n) (rest x)" "length (rest x) < n \<longrightarrow> xit x' = End" "0 < n \<and> n \<le> length (rest x) \<longrightarrow> xit x' \<noteq> End"
    using get_data_ok [OF assms(1), of n] by blast
  then have "xit x' = End \<longleftrightarrow> length (rest x) < n" using assms(2) by (meson linorder_not_less)
  then show ?thesis using x' assms(2) by (intro exI [of _ x']) (auto simp: get_exact_def Let_def)
qed

lemma get_u32_ok:
  assumes "xdr_ok x" and "rest x = enc32 w @ r"
  obtains x' where "xdr_get_u32 x = Some (Inr (Some w), x')" "xdr_get_i32 x = Some (Inr (Some w), x')" "xdr_ok x'" "xb x' = xb x"
    "xexc x' = xexc x" "rest x' = r" "xit x' \<noteq> End"
proof -
  have e: "take 4 (rest x) = enc32 w" "4 \<le> length (rest x)" "drop (ceil4 4) (rest x) = r"
    using assms(2) by (simp_all add: ceil4_id)
  obtain x' where "xdr_ok x'" "xb x' = xb x" "xexc x' = xexc x" "rest x' = drop (ceil4 4) (rest x)" "xit x' = End \<longleftrightarrow> length (rest x) < 4"
      "get_exact 4 x = Some (Inr (Some (take 4 (rest x))), x')"
    using get_exact_ok [OF assms(1), of 4] e(2) by auto
  then show thesis
    using that [of x'] e by (simp add: xdr_get_u32_def xdr_get_i32_def word32_enc32)
qed

lemma get_u64_ok:
  assumes "xdr_ok x" and "rest x = enc64 w @ r"
  obtains x' where "xdr_get_u64 x = Some (Inr (Some w), x')" "xdr_get_i64 x = Some (Inr (Some w), x')" "xdr_ok x'" "xb x' = xb x"
    "xexc x' = xexc x" "rest x' = r" "xit x' \<noteq> End"
proof -
  have e: "take 8 (rest x) = enc64 w" "8 \<le> length (rest x)" "drop (ceil4 8) (rest x) = r"
    using assms(2) by (simp_all add: ceil4_id)
  obtain x' where "xdr_ok x'" "xb x' = xb x" "xexc x' = xexc x" "rest x' = drop (ceil4 8) (rest x)" "xit x' = End \<longleftrightarrow> length (rest x) < 8"
      "get_exact 8 x = Some (Inr (Some (take 8 (rest x))), x')"
    using get_exact_ok [OF assms(1), of 8] e(2) by auto
  then show thesis
    using that [of x'] e by (simp add: xdr_get_u64_def xdr_get_i64_def word64_enc64)
qed

text \<open>The size in front of encoded bytes, and the bytes behind it.\<close>

lemma get_size_ok:
  assumes "xdr_ok x" and "rest x = enc_bytes d @ r" and "length d < 2 ^ 64 - 3"
  obtains x' where "get_size x = Some (Inr (length d), x')" "xdr_ok x'" "xb x' = xb x" "xexc x' = xexc x" "xit x' \<noteq> End"
    "take (length d) (rest x') = d" "length d \<le> length (rest x')" "drop (ceil4 (length d)) (rest x') = r"
proof -
  let ?n = "length d"
  have u: "unat (of_nat ?n :: u64) = ?n" using assms(3) by (simp add: unsigned_of_nat take_bit_nat_eq_self)
  have "rest x = enc64 (of_nat ?n) @ (d @ replicate (ceil4 ?n - ?n) 0 @ r)" using assms(2) by (simp add: enc_bytes_def)
  from get_u64_ok [OF assms(1) this] obtain x' where x': "xdr_get_u64 x = Some (Inr (Some (of_nat ?n)), x')" "xdr_ok x'" "xb x' = xb x"
      "xexc x' = xexc x" "rest x' = d @ replicate (ceil4 ?n - ?n) 0 @ r" "xit x' \<noteq> End"
    by blast
  have "ceil4 ?n = ?n + (ceil4 ?n - ?n)" using ceil4_bounds(1) [of ?n] by simp
  then have "drop (ceil4 ?n) (rest x') = r" using x'(5) by simp
  then show thesis using that [of x'] x' u by (simp add: get_size_def)
qed

lemma get_data_max_ok:
  assumes "xdr_ok x" and "rest x = enc_bytes d @ r" and "length d < 2 ^ 64 - 3" and "length d \<le> k"
  obtains x' where "get_data_max k x = Some (Inr (True, length d, d), x')" "xdr_ok x'" "xb x' = xb x" "xexc x' = xexc x" "rest x' = r"
proof -
  obtain x1 where x1: "get_size x = Some (Inr (length d), x1)" "xdr_ok x1" "xb x1 = xb x" "xexc x1 = xexc x"
      "take (length d) (rest x1) = d" "drop (ceil4 (length d)) (rest x1) = r"
    using get_size_ok [OF assms(1-3)] by blast
  obtain x2 where "get_data (length d) x1 = Some (Inr d, x2)" "xdr_ok x2" "xb x2 = xb x1" "xexc x2 = xexc x1" "rest x2 = r"
    using get_data_ok [OF x1(2), of "length d"] x1(5,6) by auto
  then show thesis using that [of x2] x1 assms(4) by (simp add: get_data_max_def Let_def)
qed

text \<open>The other loops follow \<open>get_loop\<close> step by step.\<close>

lemmas get_loop_induct = get_loop.raw_induct [where xa = "((n, acc), x)", unfolded prod.case, rotated] for n acc x

lemma get_pbuf_loop_follows:
  assumes "get_loop n acc x = Some r" and "pages_ok pages"
  shows "xdr_ok x \<longrightarrow> (\<forall>d szrd val. fst r = Inr d \<and> pbuf_ok val \<longrightarrow>
    (\<exists>e val'. d = acc @ e \<and> get_pbuf_loop pages saved n szrd val x = Some (bail saved (szrd + length e) val' (snd r)) \<and>
      pbuf_ok val' \<and> pbytes val' = pbytes val @ e))"
  using assms(1)
proof (rule get_loop_induct [where P = "\<lambda>n acc x r. xdr_ok x \<longrightarrow> (\<forall>d szrd val. fst r = Inr d \<and> pbuf_ok val \<longrightarrow>
    (\<exists>e val'. d = acc @ e \<and> get_pbuf_loop pages saved n szrd val x = Some (bail saved (szrd + length e) val' (snd r)) \<and>
      pbuf_ok val' \<and> pbytes val' = pbytes val @ e))"], goal_cases)
  case (1 f n acc x r)
  show ?case
  proof (intro impI allI, elim conjE)
    fix d szrd val
    assume ok: "xdr_ok x" and d: "fst r = Inr d" and v: "pbuf_ok val"
    show "\<exists>e val'. d = acc @ e \<and> get_pbuf_loop pages saved n szrd val x = Some (bail saved (szrd + length e) val' (snd r)) \<and>
      pbuf_ok val' \<and> pbytes val' = pbytes val @ e"
    proof (cases "n = 0 \<or> xit x = End")
      case True
      then have "r = (Inr acc, x)" using 1(2) by (auto split: if_splits)
      then show ?thesis using d v True by (subst get_pbuf_loop.simps) auto
    next
      case False
      then have n: "n \<noteq> 0" and ne: "xit x \<noteq> End" by auto
      let ?y = "x\<lparr>xpos := 0, xit := pv_step (bufpool (xb x)) (xit x)\<rparr>"
      from ne obtain b m where b: "pv_deref (bufpool (xb x)) (xit x) = Some b" "data b = Some m" "length m = 2048" "used b \<le> 2048" "xdr_ok ?y"
        by (rule at_page [OF ok])
      define ts where "ts = used b - xpos x"
      have app: "\<exists>val'. pbuf_append pages (Some (drop (xpos x) m)) k val = Some (val', True) \<and> pbuf_ok val' \<and>
          pbytes val' = pbytes val @ take k (drop (xpos x) m)" if "k \<le> ts" for k
        using pbuf_append_ok [OF v assms(2), of k "drop (xpos x) m"] that b(3,4) by (simp add: ts_def)
      have lt: "length (take k (drop (xpos x) m)) = k" if "k \<le> ts" for k using that b(3,4) by (simp add: ts_def)
      consider (full) "n \<le> ts" | (part) "\<not> n \<le> ts" "ts > 0" | (none) "\<not> n \<le> ts" "ts = 0" by linarith
      then show ?thesis
      proof cases
        case full
        then have "r = (Inr (acc @ take n (drop (xpos x) m)), x\<lparr>xpos := xpos x + unat (fst (round_to_4 (of_nat n)))\<rparr>)"
          using 1(2) n ne b(1,2) by (auto simp: ts_def Let_def)
        then show ?thesis
          using app [OF full] lt [OF full] d full n ne b(1,2) by (subst get_pbuf_loop.simps) (auto simp: ts_def Let_def)
      next
        case part
        then have "f (n - ts) (acc @ take ts (drop (xpos x) m)) ?y = Some r"
          using 1(2) n ne b(1,2) by (auto simp: ts_def Let_def)
        note IH = 1(1) [OF this, THEN mp, OF b(5)]
        obtain val1 where v1: "pbuf_append pages (Some (drop (xpos x) m)) ts val = Some (val1, True)" "pbuf_ok val1"
            "pbytes val1 = pbytes val @ take ts (drop (xpos x) m)"
          using app [of ts] by auto
        have "get_pbuf_loop pages saved n szrd val x = get_pbuf_loop pages saved (n - ts) (szrd + ts) val1 ?y"
          using part n ne b(1,2) v1(1) by (subst get_pbuf_loop.simps) (auto simp: ts_def Let_def)
        moreover obtain e val' where "d = (acc @ take ts (drop (xpos x) m)) @ e"
            "get_pbuf_loop pages saved (n - ts) (szrd + ts) val1 ?y = Some (bail saved (szrd + ts + length e) val' (snd r))"
            "pbuf_ok val'" "pbytes val' = pbytes val1 @ e"
          using IH d v1(2) by blast
        ultimately show ?thesis
          using v1(3) lt [of ts] by (intro exI [of _ "take ts (drop (xpos x) m) @ e"] exI [of _ val']) (simp add: add.assoc)
      next
        case none
        then have "f n acc ?y = Some r" using 1(2) n ne b(1,2) by (auto simp: ts_def Let_def)
        note IH = 1(1) [OF this, THEN mp, OF b(5)]
        have "get_pbuf_loop pages saved n szrd val x = get_pbuf_loop pages saved n szrd val ?y"
          using none n ne b(1,2) by (subst get_pbuf_loop.simps) (auto simp: ts_def Let_def)
        then show ?thesis using IH d v by simp
      qed
    qed
  qed
qed

lemma forward_loop_follows:
  assumes "get_loop n acc x = Some r"
  shows "xdr_ok x \<longrightarrow> (\<forall>d. fst r = Inr d \<longrightarrow>
    (\<exists>e. d = acc @ e \<and> forward_loop n x = Some (Inr (length e = n), snd r)))"
  using assms
proof (rule get_loop_induct [where P = "\<lambda>n acc x r. xdr_ok x \<longrightarrow> (\<forall>d. fst r = Inr d \<longrightarrow>
    (\<exists>e. d = acc @ e \<and> forward_loop n x = Some (Inr (length e = n), snd r)))"], goal_cases)
  case (1 f n acc x r)
  show ?case
  proof (intro impI allI)
    fix d
    assume ok: "xdr_ok x" and d: "fst r = Inr d"
    show "\<exists>e. d = acc @ e \<and> forward_loop n x = Some (Inr (length e = n), snd r)"
    proof (cases "n = 0 \<or> xit x = End")
      case True
      then have "r = (Inr acc, x)" using 1(2) by (auto split: if_splits)
      then show ?thesis using d True by (subst forward_loop.simps) auto
    next
      case False
      then have n: "n \<noteq> 0" and ne: "xit x \<noteq> End" by auto
      let ?y = "x\<lparr>xpos := 0, xit := pv_step (bufpool (xb x)) (xit x)\<rparr>"
      from ne obtain b m where b: "pv_deref (bufpool (xb x)) (xit x) = Some b" "data b = Some m" "length m = 2048" "used b \<le> 2048" "xdr_ok ?y"
        by (rule at_page [OF ok])
      define ts where "ts = used b - xpos x"
      have lt: "length (take k (drop (xpos x) m)) = k" if "k \<le> ts" for k using that b(3,4) by (simp add: ts_def)
      have go: "\<not> n \<le> ts \<Longrightarrow> forward_loop n x = forward_loop (n - ts) ?y"
        using n ne b(1) by (subst forward_loop.simps) (simp add: ts_def Let_def)
      consider (full) "n \<le> ts" | (part) "\<not> n \<le> ts" "ts > 0" | (none) "\<not> n \<le> ts" "ts = 0" by linarith
      then show ?thesis
      proof cases
        case full
        then have "r = (Inr (acc @ take n (drop (xpos x) m)), x\<lparr>xpos := xpos x + unat (fst (round_to_4 (of_nat n)))\<rparr>)"
          using 1(2) n ne b(1,2) by (auto simp: ts_def Let_def)
        then show ?thesis
          using lt [OF full] d full n ne b(1) by (subst forward_loop.simps) (auto simp: ts_def Let_def)
      next
        case part
        then have "f (n - ts) (acc @ take ts (drop (xpos x) m)) ?y = Some r"
          using 1(2) n ne b(1,2) by (auto simp: ts_def Let_def)
        note IH = 1(1) [OF this, THEN mp, OF b(5)]
        obtain e where "d = (acc @ take ts (drop (xpos x) m)) @ e" "forward_loop (n - ts) ?y = Some (Inr (length e = n - ts), snd r)"
          using IH d by blast
        then show ?thesis
          using lt [of ts] go part by (intro exI [of _ "take ts (drop (xpos x) m) @ e"]) auto
      next
        case none
        then have "f n acc ?y = Some r" using 1(2) n ne b(1,2) by (auto simp: ts_def Let_def)
        note IH = 1(1) [OF this, THEN mp, OF b(5)]
        then show ?thesis using go none d by simp
      qed
    qed
  qed
qed

lemma forward_ok:
  assumes "xdr_ok x" and "0 < n"
  shows "\<exists>x'. forward n x = Some (Inr (n \<le> length (rest x)), x') \<and> xdr_ok x' \<and> rest x' = drop (ceil4 n) (rest x)"
proof (cases "xit x = End")
  case True
  then have "rest x = []" by (simp add: rest_def pv_index_def)
  then show ?thesis using True assms by (auto simp: forward_def)
next
  case False
  then obtain x1 where x1: "step_forward x = Some x1" "xdr_ok x1" "rest x1 = rest x" by (rule step_forward_ok [OF assms(1)])
  obtain x2 where x2: "get_loop n [] x1 = Some (Inr (take n (rest x1)), x2)" "xdr_ok x2" "rest x2 = drop (ceil4 n) (rest x1)"
    using get_loop_ok [OF x1(2), of n "[]"] by auto
  then have "forward_loop n x1 = Some (Inr (length (take n (rest x1)) = n), x2)"
    using forward_loop_follows [OF x2(1)] x1(2) by simp
  moreover have "length (take n (rest x1)) = n \<longleftrightarrow> n \<le> length (rest x)" using x1(3) by (auto simp: min_def)
  ultimately show ?thesis using x1 x2 False by (simp add: forward_def)
qed

lemma get_pbuf_ok:
  assumes "xdr_ok x" and "rest x = enc_bytes d @ r" and "length d < 2 ^ 64 - 3" and "pbuf_ok val" and "pages_ok pages"
  obtains val' x' where "xdr_get_pbuf pages val x = Some (Inr (), val', x')" "pbuf_ok val'" "pbytes val' = pbytes val @ d"
    "xdr_ok x'" "xb x' = xb x" "xexc x' = xexc x" "rest x' = r"
proof -
  have ne: "xit x \<noteq> End" using assms(2) by (auto simp: rest_def pv_index_def enc_bytes_def enc64_def enc32_def)
  obtain x1 where x1: "get_size x = Some (Inr (length d), x1)" "xdr_ok x1" "xb x1 = xb x" "xexc x1 = xexc x" "xit x1 \<noteq> End"
      "take (length d) (rest x1) = d" "drop (ceil4 (length d)) (rest x1) = r"
    using get_size_ok [OF assms(1-3)] by blast
  obtain x2 where x2: "step_forward x1 = Some x2" "xdr_ok x2" "rest x2 = rest x1" "xb x2 = xb x1" "xexc x2 = xexc x1"
    by (rule step_forward_ok [OF x1(2,5)])
  obtain x3 where x3: "get_loop (length d) [] x2 = Some (Inr d, x3)" "xdr_ok x3" "xb x3 = xb x2" "xexc x3 = xexc x2" "rest x3 = r"
    using get_loop_ok [OF x2(2), of "length d" "[]"] x1(6,7) x2(3) by auto
  obtain val' where v: "get_pbuf_loop pages (length d) (length d) 0 val x2 = Some (bail (length d) (length d) val' x3)" "pbuf_ok val'"
      "pbytes val' = pbytes val @ d"
    using get_pbuf_loop_follows [OF x3(1) assms(5), of "length d", THEN mp, OF x2(2), THEN spec, THEN spec, of d 0] assms(4) by auto
  then show thesis
    using that [of val' x3] ne x1 x2 x3 by (simp add: xdr_get_pbuf_def bail_def)
qed

lemma get_ustr_ok:
  assumes "xdr_ok x" and "rest x = enc_bytes d @ r" and "length d < 2 ^ 64 - 3" and "d \<noteq> []" and "last d = 0"
    and "tbuf_ok val" and "mal_ok mal" and "\<forall>n. mal n \<noteq> None"
  obtains val' x' where "xdr_get_ustr mal val x = Some (Inr (), val', x')" "tbuf_ok val'" "bytes val' = d"
    "xdr_ok x'" "xb x' = xb x" "xexc x' = xexc x" "rest x' = r"
proof -
  obtain x1 where x1: "get_size x = Some (Inr (length d), x1)" "xdr_ok x1" "xb x1 = xb x" "xexc x1 = xexc x"
      "take (length d) (rest x1) = d" "drop (ceil4 (length d)) (rest x1) = r"
    using get_size_ok [OF assms(1-3)] by blast
  obtain x2 where x2: "get_data (length d) x1 = Some (Inr d, x2)" "xdr_ok x2" "xb x2 = xb x1" "xexc x2 = xexc x1" "rest x2 = r"
    using get_data_ok [OF x1(2), of "length d"] x1(5,6) by auto
  obtain t p where a: "allocate mal (length d) val = (t, p)" by (cases "allocate mal (length d) val")
  obtain blk where blk: "mal (length d) = Some blk" using assms(8) by auto
  have p: "p \<noteq> Null" using a blk by (auto simp: allocate_def Let_def split: option.splits if_splits)
  have t: "tbuf_ok t" "bsize t = length d" using allocate_ok [OF assms(6,7) a] p by auto
  then have le: "length d \<le> length (bdata t)" by (simp add: tbuf_ok_def)
  let ?v = "set_data t (d @ drop (length d) (bdata t))"
  have v: "tbuf_ok ?v" "bytes ?v = d" "bsize ?v = length d" "bdata ?v = d @ drop (length d) (bdata t)"
    using t le by (simp_all add: set_data_ok bytes_def)
  have "bdata ?v ! (bsize ?v - 1) = 0" using v(3,4) assms(4,5) by (simp add: nth_append last_conv_nth)
  then have "ustr_ensure_trailing_zero mal ?v = Some ?v" using v(3) assms(4) by (simp add: ustr_ensure_trailing_zero_def)
  then have "xdr_get_ustr mal val x = Some (Inr (), ?v, x2)"
    using x1(1) x2(1) a p assms(4) by (cases p) (simp_all add: xdr_get_ustr_def get_string_def Let_def)
  then show thesis using that [of ?v x2] v x1 x2 by simp
qed

lemma rewind_ok: "pbuf_ok (xb x) \<Longrightarrow> xdr_ok (rewind x) \<and> rest (rewind x) = pbytes (xb x)"
  using pvi.start_ok [of 32 "bufpool (xb x)"] by (simp add: xdr_ok_def rewind_def rest_def pbuf_ok_def pbytes_def)

lemma rest_End: "xit x = End \<Longrightarrow> rest x = []"
  by (simp add: rest_def pv_index_def)

end
