(* ===== verification/Xdr_Stream.thy ===== *)
theory Xdr_Stream
  imports Xdrbuf
begin

section \<open>Sequences of values on an XDR stream\<close>

text \<open>
  What the users of \<^verbatim>\<open>xdrbuf\<close> rely on: values of any kinds, written one after the other, come back
  in the same order after \<^verbatim>\<open>rewind\<close>, and reading past the end is reported. \<open>put_val\<close> and \<open>get_like\<close>
  choose the operator for a kind of value: 32-bit and 64-bit integers, \<^verbatim>\<open>bindata_t\<close> read back by
  \<^verbatim>\<open>get_data\<close> with a limit, \<^verbatim>\<open>ustr\<close> and \<^verbatim>\<open>pbuf\<close>.
\<close>

datatype xval = V32 u32 | V64 u64 | VBytes "u8 list" | VStr tbuf | VPages pbuf

definition put_val :: "(nat \<Rightarrow> u8 list option) \<Rightarrow> xval \<Rightarrow> xdrbuf \<Rightarrow> (xstop + unit) \<times> xdrbuf" where
  "put_val pages v x =
     (case v of
        V32 w \<Rightarrow> xdr_put_u32 pages w x
      | V64 w \<Rightarrow> xdr_put_u64 pages w x
      | VBytes d \<Rightarrow> xdr_put_bindata pages (Some d) (length d) x
      | VStr t \<Rightarrow> xdr_put_ustr pages t x
      | VPages p \<Rightarrow> xdr_put_pbuf pages p x)"

text \<open>
  Reading a value of the kind of \<open>v\<close>: strings into a new \<^verbatim>\<open>ustr\<close> with the preallocated bytes \<open>pre\<close>,
  pages into a new \<^verbatim>\<open>pbuf\<close>, bytes with the limit \<open>k\<close>. An error that is not thrown leaves \<open>v\<close>.
\<close>

definition get_like ::
  "malloc_fn \<Rightarrow> (nat \<Rightarrow> u8 list option) \<Rightarrow> u8 list \<Rightarrow> nat \<Rightarrow> xval \<Rightarrow> xdrbuf \<Rightarrow> ((xstop + xval) \<times> xdrbuf) option" where
  "get_like mal pages pre k v x =
     (case v of
        V32 _ \<Rightarrow> map_option (apfst (map_sum id (\<lambda>r. case r of None \<Rightarrow> v | Some w \<Rightarrow> V32 w))) (xdr_get_u32 x)
      | V64 _ \<Rightarrow> map_option (apfst (map_sum id (\<lambda>r. case r of None \<Rightarrow> v | Some w \<Rightarrow> V64 w))) (xdr_get_u64 x)
      | VBytes _ \<Rightarrow> map_option (apfst (map_sum id (\<lambda>(r, n, d). VBytes d))) (get_data_max k x)
      | VStr _ \<Rightarrow> map_option (\<lambda>(r, t, x). (map_sum id (\<lambda>_. VStr t) r, x)) (xdr_get_ustr mal (tbuf_new pre) x)
      | VPages _ \<Rightarrow> map_option (\<lambda>(r, p, x). (map_sum id (\<lambda>_. VPages p) r, x)) (xdr_get_pbuf pages (pbuf_new pre) x))"

fun put_all :: "(nat \<Rightarrow> u8 list option) \<Rightarrow> xval list \<Rightarrow> xdrbuf \<Rightarrow> (xstop + unit) \<times> xdrbuf" where
  "put_all pages [] x = (Inr (), x)"
| "put_all pages (v # vs) x =
     (case put_val pages v x of (Inl e, x) \<Rightarrow> (Inl e, x) | (Inr _, x) \<Rightarrow> put_all pages vs x)"

fun get_all ::
  "malloc_fn \<Rightarrow> (nat \<Rightarrow> u8 list option) \<Rightarrow> u8 list \<Rightarrow> nat \<Rightarrow> xval list \<Rightarrow> xdrbuf \<Rightarrow> ((xstop + xval list) \<times> xdrbuf) option" where
  "get_all mal pages pre k [] x = Some (Inr [], x)"
| "get_all mal pages pre k (v # vs) x =
     (case get_like mal pages pre k v x of
        None \<Rightarrow> None
      | Some (Inl e, x) \<Rightarrow> Some (Inl e, x)
      | Some (Inr v, x) \<Rightarrow> map_option (apfst (map_sum id (\<lambda>vs. v # vs))) (get_all mal pages pre k vs x))"

subsection \<open>Specification\<close>

text \<open>
  The encoding of a value, the values that can be written and read back under the limit \<open>k\<close> (a
  \<^verbatim>\<open>ustr\<close> ends with its zero), and when two values are the same: buffers with the same bytes.
\<close>

definition enc_val :: "xval \<Rightarrow> u8 list" where
  "enc_val v = (case v of V32 w \<Rightarrow> enc32 w | V64 w \<Rightarrow> enc64 w | VBytes d \<Rightarrow> enc_bytes d
     | VStr t \<Rightarrow> enc_bytes (bytes t) | VPages p \<Rightarrow> enc_bytes (pbytes p))"

definition val_ok :: "nat \<Rightarrow> xval \<Rightarrow> bool" where
  "val_ok k v = (case v of V32 w \<Rightarrow> True | V64 w \<Rightarrow> True | VBytes d \<Rightarrow> length d \<le> k \<and> length d < 2 ^ 64 - 3
     | VStr t \<Rightarrow> tbuf_ok t \<and> bytes t \<noteq> [] \<and> last (bytes t) = 0 \<and> length (bytes t) < 2 ^ 64 - 3
     | VPages p \<Rightarrow> pbuf_ok p \<and> psize p < 2 ^ 64 - 3)"

definition same_val :: "xval \<Rightarrow> xval \<Rightarrow> bool" where
  "same_val v v' = (case (v, v') of (V32 w, V32 w') \<Rightarrow> w = w' | (V64 w, V64 w') \<Rightarrow> w = w' | (VBytes d, VBytes d') \<Rightarrow> d = d'
     | (VStr t, VStr t') \<Rightarrow> bytes t = bytes t' | (VPages p, VPages p') \<Rightarrow> pbytes p = pbytes p' | _ \<Rightarrow> False)"

definition mem_ok :: "malloc_fn \<Rightarrow> (nat \<Rightarrow> u8 list option) \<Rightarrow> u8 list \<Rightarrow> bool" where
  "mem_ok mal pages pre \<longleftrightarrow> mal_ok mal \<and> (\<forall>n. mal n \<noteq> None) \<and> pages_ok pages \<and> length pre = 2048"

subsection \<open>Values and sequences\<close>

lemma put_val_writes:
  assumes "pbuf_ok (xb x)" and "pages_ok pages" and "val_ok k v"
  shows "writes (put_val pages v x) x (enc_val v)"
  using put_int_writes [OF assms(1,2)] put_bytes_writes [OF assms(1,2)] put_pbuf_writes [OF assms(1,2)] assms(3)
  by (cases v) (auto simp: put_val_def enc_val_def val_ok_def)

lemma put_all_writes:
  assumes "pbuf_ok (xb x)" and "pages_ok pages" and "\<forall>v \<in> set vs. val_ok k v"
  shows "writes (put_all pages vs x) x (concat (map enc_val vs))"
  using assms(1,3)
proof (induction vs arbitrary: x)
  case Nil
  then show ?case by (auto simp: writes_def intro!: exI [of _ "xb x"])
next
  case (Cons v vs)
  obtain b where b: "put_val pages v x = (Inr (), x\<lparr>xb := b\<rparr>)" "pbuf_ok b" "pbytes b = pbytes (xb x) @ enc_val v"
    using put_val_writes [OF Cons.prems(1) assms(2), of k v] Cons.prems(2) by (auto simp: writes_def)
  then show ?case using Cons.IH [of "x\<lparr>xb := b\<rparr>"] Cons.prems(2) by (auto simp: writes_def)
qed

lemma get_like_ok:
  assumes "xdr_ok x" and "rest x = enc_val v @ r" and "val_ok k v" and "mem_ok mal pages pre"
  obtains v' x' where "get_like mal pages pre k v x = Some (Inr v', x')" "same_val v v'" "xdr_ok x'" "rest x' = r"
proof (cases v)
  case (V32 w)
  then have "rest x = enc32 w @ r" using assms(2) by (simp add: enc_val_def)
  then obtain x' where "xdr_get_u32 x = Some (Inr (Some w), x')" "xdr_ok x'" "rest x' = r"
    by (rule get_u32_ok [OF assms(1)])
  then show thesis using that [of v x'] V32 by (simp add: get_like_def same_val_def)
next
  case (V64 w)
  then have "rest x = enc64 w @ r" using assms(2) by (simp add: enc_val_def)
  then obtain x' where "xdr_get_u64 x = Some (Inr (Some w), x')" "xdr_ok x'" "rest x' = r"
    by (rule get_u64_ok [OF assms(1)])
  then show thesis using that [of v x'] V64 by (simp add: get_like_def same_val_def)
next
  case (VBytes d)
  then have e: "rest x = enc_bytes d @ r" "length d < 2 ^ 64 - 3" "length d \<le> k" using assms(2,3) by (auto simp: enc_val_def val_ok_def)
  obtain x' where "get_data_max k x = Some (Inr (True, length d, d), x')" "xdr_ok x'" "rest x' = r"
    by (rule get_data_max_ok [OF assms(1) e])
  then show thesis using that [of v x'] VBytes by (simp add: get_like_def same_val_def)
next
  case (VStr t)
  then have e: "rest x = enc_bytes (bytes t) @ r" "length (bytes t) < 2 ^ 64 - 3" "bytes t \<noteq> []" "last (bytes t) = 0"
    using assms(2,3) by (auto simp: enc_val_def val_ok_def)
  have m: "tbuf_ok (tbuf_new pre)" "mal_ok mal" "\<forall>n. mal n \<noteq> None"
    using assms(4) by (simp_all add: mem_ok_def tbuf_new_def tbuf_ok_def bdata_def)
  obtain t' x' where "xdr_get_ustr mal (tbuf_new pre) x = Some (Inr (), t', x')" "bytes t' = bytes t" "xdr_ok x'" "rest x' = r"
    using get_ustr_ok [OF assms(1) e m] by blast
  then show thesis using that [of "VStr t'" x'] VStr by (simp add: get_like_def same_val_def)
next
  case (VPages p)
  then have e: "rest x = enc_bytes (pbytes p) @ r" "length (pbytes p) < 2 ^ 64 - 3"
    using assms(2,3) by (auto simp: enc_val_def val_ok_def pbuf_ok_def)
  have n: "pbuf_ok (pbuf_new pre)" "pages_ok pages" "pbytes (pbuf_new pre) = []" using assms(4) by (simp_all add: mem_ok_def pbuf_new_ok)
  obtain p' x' where "xdr_get_pbuf pages (pbuf_new pre) x = Some (Inr (), p', x')" "pbytes p' = pbytes (pbuf_new pre) @ pbytes p"
      "xdr_ok x'" "rest x' = r"
    by (rule get_pbuf_ok [OF assms(1) e n(1,2)])
  then show thesis using that [of "VPages p'" x'] VPages n(3) by (simp add: get_like_def same_val_def)
qed

lemma get_all_ok:
  assumes "xdr_ok x" and "rest x = concat (map enc_val vs) @ r" and "\<forall>v \<in> set vs. val_ok k v" and "mem_ok mal pages pre"
  shows "\<exists>vs' x'. get_all mal pages pre k vs x = Some (Inr vs', x') \<and> list_all2 same_val vs vs' \<and> xdr_ok x' \<and> rest x' = r"
  using assms(1-3)
proof (induction vs arbitrary: x)
  case (Cons v vs)
  then have "rest x = enc_val v @ (concat (map enc_val vs) @ r)" "val_ok k v" by simp_all
  from get_like_ok [OF Cons.prems(1) this assms(4)] obtain v' x1 where
    v: "get_like mal pages pre k v x = Some (Inr v', x1)" "same_val v v'" "xdr_ok x1" "rest x1 = concat (map enc_val vs) @ r" .
  then show ?case using Cons.IH [OF v(3,4)] Cons.prems(3) by auto
qed simp

subsection \<open>Properties\<close>

text \<open>
  C8: any sequence of values written to an empty stream comes back, value for value and in order,
  when the stream is rewound and read with the matching operators, across any number of pages;
  neither side throws, and at the end nothing is left.
\<close>

theorem xdr_roundtrip:
  assumes "pbuf_ok (xb x)" and "pbytes (xb x) = []" and "\<forall>v \<in> set vs. val_ok k v" and "mem_ok mal pages pre"
  shows "\<exists>x1 vs' x2. put_all pages vs x = (Inr (), x1) \<and> get_all mal pages pre k vs (rewind x1) = Some (Inr vs', x2) \<and>
    list_all2 same_val vs vs' \<and> rest x2 = []"
proof -
  have p: "pages_ok pages" using assms(4) by (simp add: mem_ok_def)
  obtain b where b: "put_all pages vs x = (Inr (), x\<lparr>xb := b\<rparr>)" "pbuf_ok b" "pbytes b = concat (map enc_val vs)"
    using put_all_writes [OF assms(1) p assms(3)] assms(2) by (auto simp: writes_def)
  then have "xdr_ok (rewind (x\<lparr>xb := b\<rparr>))" "rest (rewind (x\<lparr>xb := b\<rparr>)) = concat (map enc_val vs) @ []"
    using rewind_ok [of "x\<lparr>xb := b\<rparr>"] by simp_all
  from get_all_ok [OF this assms(3,4)] b(1) show ?thesis by blast
qed

lemma mem_ok_example: "mem_ok (\<lambda>n. Some (replicate n 0)) (\<lambda>k. Some (replicate 2048 0)) (replicate 2048 0)"
  by (simp add: mem_ok_def mal_ok_def pages_ok_def)

theorem xdr_roundtrip_witness:
  "\<exists>x1 vs' x2. put_all (\<lambda>k. Some (replicate 2048 0)) [V32 7, VBytes (replicate 5000 1), V64 9] (xdr_new (pbuf_new (replicate 2048 0))) = (Inr (), x1) \<and>
     get_all (\<lambda>n. Some (replicate n 0)) (\<lambda>k. Some (replicate 2048 0)) (replicate 2048 0) 6000 [V32 7, VBytes (replicate 5000 1), V64 9] (rewind x1) =
       Some (Inr vs', x2) \<and>
     list_all2 same_val [V32 7, VBytes (replicate 5000 1), V64 9] vs' \<and> rest x2 = []"
  using xdr_roundtrip [OF _ _ _ mem_ok_example, of "xdr_new (pbuf_new (replicate 2048 0))" "[V32 7, VBytes (replicate 5000 1), V64 9]" 6000]
  by (simp add: xdr_new_def pbuf_new_ok val_ok_def)

text \<open>A size whose upper half is not zero is too big for the second look of the \<^verbatim>\<open>get_data\<close> template.\<close>

lemma word64_high: "ucast (drop_bit 32 (htonll (word64 m)) :: u64) = htonl (word32 m)"
  by (simp add: htonll_def word64_def split64)

lemma unat_high: "w = ucast (drop_bit 32 (v :: u64)) \<Longrightarrow> w \<noteq> (0 :: u32) \<Longrightarrow> 2 ^ 32 \<le> unat v"
proof (rule ccontr)
  assume w: "w = ucast (drop_bit 32 v)" "w \<noteq> 0" and "\<not> 2 ^ 32 \<le> unat v"
  then have "drop_bit 32 v = 0" by (simp add: drop_bit_eq_div word_unat_eq_iff unat_div)
  then show False using w by simp
qed










text \<open>
  a stream object made for an empty buffer stays at its end: what is written through it cannot be
  read through it, but is reported as \<open>rs_xdr_eof\<close>, until \<^verbatim>\<open>rewind\<close> is called.
\<close>

theorem xdr_new_on_empty_buffer:
  assumes "pbuf_ok b" and "n_items (bufpool b) = 0" and "pages_ok pages"
  shows "\<exists>x1 x2. xdr_put_u32 pages w (xdr_new b) = (Inr (), x1) \<and> xdr_get_u32 x1 = Some (Inl (XThrow rs_xdr_eof), x1) \<and>
    xdr_get_u32 (rewind x1) = Some (Inr (Some w), x2)"
proof -
  have e: "pbytes b = []" using assms(1,2) by (simp add: pbytes_def pbuf_ok_def pv_ok_def)
  obtain b1 where b1: "xdr_put_u32 pages w (xdr_new b) = (Inr (), (xdr_new b)\<lparr>xb := b1\<rparr>)" "pbuf_ok b1" "pbytes b1 = enc32 w @ []"
    using put_int_writes(2) [of "xdr_new b" pages w] assms(1,3) e by (auto simp: writes_def xdr_new_def)
  have "xdr_ok (rewind ((xdr_new b)\<lparr>xb := b1\<rparr>))" "rest (rewind ((xdr_new b)\<lparr>xb := b1\<rparr>)) = enc32 w @ []"
    using rewind_ok [of "(xdr_new b)\<lparr>xb := b1\<rparr>"] b1(2,3) by simp_all
  from get_u32_ok [OF this] obtain x2 where "xdr_get_u32 (rewind ((xdr_new b)\<lparr>xb := b1\<rparr>)) = Some (Inr (Some w), x2)" by blast
  moreover have "xdr_get_u32 ((xdr_new b)\<lparr>xb := b1\<rparr>) = Some (Inl (XThrow rs_xdr_eof), (xdr_new b)\<lparr>xb := b1\<rparr>)"
    using assms(2) by (simp add: xdr_get_u32_def get_exact_def get_data_def xdr_new_def pv_begin_def xthr_def)
  ultimately show ?thesis using b1(1) by blast
qed

theorem xdr_new_on_empty_buffer_witness:
  "\<exists>x1 x2. xdr_put_u32 (\<lambda>k. Some (replicate 2048 0)) 5 (xdr_new (pbuf_new (replicate 2048 0))) = (Inr (), x1) \<and>
     xdr_get_u32 x1 = Some (Inl (XThrow rs_xdr_eof), x1) \<and> xdr_get_u32 (rewind x1) = Some (Inr (Some 5), x2)"
  using xdr_new_on_empty_buffer [of "pbuf_new (replicate 2048 0)" "\<lambda>k. Some (replicate 2048 0)" 5]
  by (simp add: pbuf_new_ok pages_ok_def) (simp add: pbuf_new_def pv_new_def)

text \<open>
  The \<^verbatim>\<open>get_data\<close> template never returns true below \<open>2^32\<close>, whatever is on the stream. A reader at the
  start of a buffer that gets a 32-bit value is then at position 4.
\<close>

lemma get_data_t_false:
  assumes "xdr_ok x" and "xexc x" and "k < 2 ^ 32" and "get_data_t mal junk k sz t x = Some (Inr (b, n), t', x')"
  shows "\<not> b"
proof -
  obtain x4 where x4: "get_exact 4 x = Some (if 4 \<le> length (rest x) then (Inr (Some (take 4 (rest x))), x4)
      else if rest x = [] then xthr x4 rs_xdr_eof None else xthr x4 rs_xdr_invalid None)" "xb x4 = xb x" "xexc x4 = xexc x"
    using get_exact_ok [OF assms(1), of 4] by auto
  have l: "4 \<le> length (rest x)"
    using assms(2,4) x4 by (auto simp: get_data_t_def xdr_get_u32_def xthr_def split: if_splits)
  define w where "w = htonl (word32 (take 4 (rest x)))"
  have g: "xdr_get_u32 x = Some (Inr (Some w), x4)" using x4(1) l by (simp add: xdr_get_u32_def w_def)
  have bk: "x4\<lparr>xit := xit x, xpos := xpos x\<rparr> = x" using x4(2,3) by simp
  obtain x8 where x8: "get_exact 8 x = Some (if 8 \<le> length (rest x) then (Inr (Some (take 8 (rest x))), x8)
      else if rest x = [] then xthr x8 rs_xdr_eof None else xthr x8 rs_xdr_invalid None)" "xexc x8 = xexc x"
    using get_exact_ok [OF assms(1), of 8] by auto
  show ?thesis
  proof (cases "w = 0 \<or> unat w > k")
    case True
    then show ?thesis using assms(4) g bk by (auto simp: get_data_t_def)
  next
    case False
    have "word32 (take 8 (rest x)) = word32 (take 4 (rest x))" by (simp add: word32_def)
    then have "2 ^ 32 \<le> unat (htonll (word64 (take 8 (rest x))))"
      using unat_high [OF word64_high [symmetric], of "take 8 (rest x)"] False by (simp add: w_def)
    then have "get_data_max k x = Some (if 8 \<le> length (rest x) then (Inr (False, unat (htonll (word64 (take 8 (rest x)))), []), x8\<lparr>xit := xit x, xpos := xpos x\<rparr>)
       else (Inl (XThrow (if rest x = [] then rs_xdr_eof else rs_xdr_invalid)), x8))"
      using x8 assms(2,3) by (auto simp: get_data_max_def get_size_def xdr_get_u64_def xthr_def Let_def)
    then show ?thesis
      using assms(4) g bk False by (auto simp: get_data_t_def Let_def split: prod.splits if_splits)
  qed
qed

lemma first_i32:
  assumes "pbuf_ok b" and "pbytes b = enc32 w @ r"
  shows "xdr_get_i32 (xdr_new b) = Some (Inr (Some w), (xdr_new b)\<lparr>xpos := 4\<rparr>)" and "position ((xdr_new b)\<lparr>xpos := 4\<rparr>) = Some 4"
proof -
  have x: "xdr_ok (xdr_new b)" "rest (xdr_new b) = enc32 w @ r"
    using rewind_ok [of "xdr_new b"] assms by (simp_all add: xdr_new_def rewind_def)
  have ne: "xit (xdr_new b) \<noteq> End" using x(2) rest_End [of "xdr_new b"] by (auto simp: enc32_def)
  define y where "y = rest (xdr_new b\<lparr>xpos := 0, xit := pv_step (bufpool b) (pv_begin (bufpool b))\<rparr>)"
  have xn: "xb (xdr_new b) = b" "xit (xdr_new b) = pv_begin (bufpool b)" "xpos (xdr_new b) = 0" by (simp_all add: xdr_new_def)
  obtain p m where p: "pv_deref (bufpool b) (pv_begin (bufpool b)) = Some p" "data p = Some m" "length m = 2048" "0 < used p" "used p \<le> 2048"
      "enc32 w @ r = take (used p) m @ y" "y \<noteq> [] \<longrightarrow> used p = 2048"
    by (rule at_page [OF x(1) ne]) (use x(2) xn in \<open>simp add: y_def\<close>)
  have u: "4 \<le> used p"
  proof (cases "y = []")
    case True
    have "length (enc32 w @ r) = length (take (used p) m)" unfolding p(6) True by simp
    then show ?thesis using p(3,5) by simp
  qed (use p(7) in simp)
  have "take 4 (enc32 w @ r) = take 4 m" unfolding p(6) using u p(3) by simp
  then have t: "take 4 m = enc32 w" by simp
  have "get_exact 4 (xdr_new b) = Some (Inr (Some (enc32 w)), (xdr_new b)\<lparr>xpos := 4\<rparr>)"
    using ne p u t round_to_4_eq(1) [of 4]
    by (simp add: get_exact_def get_data_def step_forward_def xdr_new_def get_loop.simps Let_def ceil4_id)
  then show "xdr_get_i32 (xdr_new b) = Some (Inr (Some w), (xdr_new b)\<lparr>xpos := 4\<rparr>)"
    by (simp add: xdr_get_i32_def word32_enc32)
  show "position ((xdr_new b)\<lparr>xpos := 4\<rparr>) = Some 4"
    using ne by (simp add: position_def position_loop.simps xdr_new_def)
qed

text \<open>
  the \<^verbatim>\<open>get_data\<close> template for containers never reads what \<^verbatim>\<open>operator<<\<close> wrote: it takes the upper
  half of the 64-bit size for the size, so for every string of less than \<open>2^32\<close> bytes it returns
  false and leaves container and stream as they were.
\<close>

theorem xdr_get_data_template_fails:
  assumes "xdr_ok x" and "rest x = enc_bytes d @ r" and "length d < 2 ^ 32"
  shows "get_data_t mal junk k sz t x = Some (Inr (False, sz), t, x)"
proof -
  have "unat (of_nat (length d) :: u64) = length d" using assms(3) by (simp add: unsigned_of_nat take_bit_nat_eq_self)
  then have "drop_bit 32 (of_nat (length d) :: u64) = 0"
    using assms(3) by (simp add: drop_bit_eq_div word_unat_eq_iff unat_div)
  then have "rest x = enc32 0 @ (enc32 (ucast (of_nat (length d) :: u64)) @ d @ replicate (ceil4 (length d) - length d) 0 @ r)"
    using assms(2) by (simp add: enc_bytes_def enc64_def)
  then obtain x' where "xdr_get_u32 x = Some (Inr (Some 0), x')" "xb x' = xb x" "xexc x' = xexc x"
    by (rule get_u32_ok [OF assms(1)])
  then show ?thesis by (simp add: get_data_t_def)
qed

theorem xdr_get_data_template_fails_witness:
  "\<exists>b. pbytes b = enc_bytes [1, 2, 3] \<and> get_data_t (\<lambda>n. None) 0 100 0 (tbuf_new []) (rewind (xdr_new b)) = Some (Inr (False, 0), tbuf_new [], rewind (xdr_new b))"
proof -
  obtain b where b: "pbuf_ok b" "pbytes b = enc_bytes [1, 2, 3] @ []"
    using pbuf_append_ok [of "pbuf_new (replicate 2048 0)" "\<lambda>k. Some (replicate 2048 0)" "length (enc_bytes [1, 2, 3])" "enc_bytes [1, 2, 3]"]
    by (auto simp: pbuf_new_ok pages_ok_def)
  have x: "xdr_ok (rewind (xdr_new b))" "rest (rewind (xdr_new b)) = enc_bytes [1, 2, 3] @ []"
    using rewind_ok [of "xdr_new b"] b by (simp_all add: xdr_new_def)
  then show ?thesis using xdr_get_data_template_fails [OF x, of "\<lambda>n. None" 0 100 0 "tbuf_new []"] b(2) by auto
qed

text \<open>
  \<^verbatim>\<open>operator>>(pbuf &)\<close> uses a null pointer when the size is cut off and exceptions are off: with one to
  seven bytes left the failed read of the size leaves the iterator at the end, where it is
  dereferenced.
\<close>

theorem xdr_get_pbuf_null_pointer:
  assumes "xdr_ok x" and "rest x \<noteq> []" and "length (rest x) < 8" and "\<not> xexc x"
  shows "\<exists>x'. xdr_get_pbuf pages val x = Some (Inl XNull, val, x')"
proof -
  obtain x' where x': "xexc x' = xexc x" "xit x' = End" "get_exact 8 x = Some (xthr x' rs_xdr_invalid None)"
    using get_exact_ok [OF assms(1), of 8] assms(2,3) by auto
  then have "get_size x = Some (Inr 0, x')" using assms(4) by (simp add: get_size_def xdr_get_u64_def xthr_def)
  moreover have "xit x \<noteq> End" using assms(2) rest_End by blast
  ultimately show ?thesis using x'(2) by (simp add: xdr_get_pbuf_def step_forward_def pv_deref_def)
qed

theorem xdr_get_pbuf_null_pointer_witness:
  "\<exists>b x'. pbytes b = [1, 2, 3] \<and>
     xdr_get_pbuf (\<lambda>k. None) (pbuf_new []) (rewind ((xdr_new b)\<lparr>xexc := False\<rparr>)) = Some (Inl XNull, pbuf_new [], x')"
proof -
  obtain b where b: "pbuf_ok b" "pbytes b = [1, 2, 3]"
    using pbuf_append_ok [of "pbuf_new (replicate 2048 0)" "\<lambda>k. Some (replicate 2048 0)" 3 "[1, 2, 3]"]
    by (auto simp: pbuf_new_ok pages_ok_def)
  have "xdr_ok (rewind ((xdr_new b)\<lparr>xexc := False\<rparr>))" "rest (rewind ((xdr_new b)\<lparr>xexc := False\<rparr>)) = [1, 2, 3]"
    using rewind_ok [of "(xdr_new b)\<lparr>xexc := False\<rparr>"] b by (simp_all add: xdr_new_def)
  then show ?thesis
    using xdr_get_pbuf_null_pointer [of "rewind ((xdr_new b)\<lparr>xexc := False\<rparr>)" "\<lambda>k. None" "pbuf_new []"] b(2)
    by (auto simp: rewind_def)
qed

text \<open>
  A default-constructed wide string, four zero bytes, cannot be written: \<^verbatim>\<open>operator<<(const str &)\<close>
  throws \<open>rs_cannot_append\<close>, where the empty \<^verbatim>\<open>ustr\<close> is written like any other.
\<close>

theorem xdr_empty_str_throws:
  assumes "xexc x" and "bytes t = [0, 0, 0, 0]" and "tbuf_ok t" and "bytes u = [0]" and "tbuf_ok u"
    and "pbuf_ok (xb x)" and "pages_ok pages"
  shows "xdr_put_str pages t x = (Inl (XThrow rs_cannot_append), x) \<and> fst (xdr_put_ustr pages u x) = Inr ()"
proof -
  have "length (bytes t) = bsize t" using assms(3) by (simp add: bytes_def tbuf_ok_def)
  then have "bsize t = 4" using assms(2) by simp
  then have "xdr_put_str pages t x = (Inl (XThrow rs_cannot_append), x)"
    using assms(1) by (simp add: xdr_put_str_def str_size_def size_and_buf_to_pbuf_def xdr_catch_def xthr_def)
  moreover have "fst (xdr_put_ustr pages u x) = Inr ()"
    using put_bytes_writes(3) [OF assms(6,7), of "[0]" u] assms(4,5) by (auto simp: writes_def)
  ultimately show ?thesis by blast
qed

theorem xdr_empty_str_throws_witness:
  "xdr_put_str (\<lambda>k. Some (replicate 2048 0)) \<lparr>preallocated = [0, 0, 0, 0], dyn = None, bsize = 4\<rparr> (xdr_new (pbuf_new (replicate 2048 0))) =
     (Inl (XThrow rs_cannot_append), xdr_new (pbuf_new (replicate 2048 0)))"
  using xdr_empty_str_throws [of "xdr_new (pbuf_new (replicate 2048 0))" "\<lparr>preallocated = [0, 0, 0, 0], dyn = None, bsize = 4\<rparr>"
      "\<lparr>preallocated = [0], dyn = None, bsize = 1\<rparr>" "\<lambda>k. Some (replicate 2048 0)"]
  by (simp add: xdr_new_def pbuf_new_ok pages_ok_def bytes_def tbuf_ok_def bdata_def)

end
