(* ===== verification/Circbuf.thy ===== *)
theory Circbuf
  imports Prelude
begin

section \<open>Circular buffers\<close>

text \<open>
  The template \<^verbatim>\<open>circbuf<T,MaxSize>\<close> of \<^verbatim>\<open>src/common/circbuf.hh\<close>: items in three doubly linked rings, the
  active, the free and the prepared ones, each with a head inside the object. The model keeps
  the links: \<open>nxt\<close> and \<open>prv\<close> are the fields \<^verbatim>\<open>next_\<close> and \<^verbatim>\<open>prev_\<close> of all items, by address; the
  heads are the addresses 2, 3 and 4 and \<open>brk\<close> is the first address never allocated. Every item
  owns its object of type \<^verbatim>\<open>T\<close>, so that the object is named by the item's address; \<open>has\<close> says
  whether \<^verbatim>\<open>item_\<close> is not null. A reference \<^verbatim>\<open>*(ret->item_)\<close> is \<open>None\<close> when that pointer is null. The
  virtual upcalls, empty in this class, are logged in \<open>events\<close>. The counters are natural numbers:
  \<^verbatim>\<open>n_items_\<close> never exceeds \<^verbatim>\<open>max_\<close> by more than one, so that it wraps around only for a \<^verbatim>\<open>MaxSize\<close> of
  the largest 64-bit number, which no memory can hold.
\<close>

datatype upcall = on_new_item | on_del_item | on_full | on_empty

record circbuf =
  nxt :: "nat \<Rightarrow> nat"
  prv :: "nat \<Rightarrow> nat"
  has :: "nat \<Rightarrow> bool"
  brk :: nat
  cn_items :: nat
  csize :: nat
  cmax :: nat
  cexc :: bool
  events :: "upcall list"

abbreviation head :: nat where "head \<equiv> 2"
abbreviation freelist :: nat where "freelist \<equiv> 3"
abbreviation preplist :: nat where "preplist \<equiv> 4"

text \<open>\<open>CThrow\<close> is the exception \<^verbatim>\<open>rs_empty\<close>, \<open>CNull\<close> the use of a null \<^verbatim>\<open>item *\<close>.\<close>

datatype cres = Ref "nat option" | CThrow | CNull

subsection \<open>Operations\<close>

definition link_after :: "nat \<Rightarrow> nat \<Rightarrow> circbuf \<Rightarrow> circbuf" where
  "link_after this it s =
     (let s = s\<lparr>nxt := (nxt s)(it := nxt s this)\<rparr>;
          s = s\<lparr>prv := (prv s)(it := this)\<rparr>;
          s = s\<lparr>prv := (prv s)(nxt s this := it)\<rparr>
      in s\<lparr>nxt := (nxt s)(this := it)\<rparr>)"

definition unlink_before :: "nat \<Rightarrow> circbuf \<Rightarrow> nat option \<times> circbuf" where
  "unlink_before this s =
     (let ret = prv s this
      in if prv s this = this then (None, s)
         else let s = s\<lparr>prv := (prv s)(this := prv s (prv s this))\<rparr>;
                  s = s\<lparr>nxt := (nxt s)(prv s this := this)\<rparr>
              in (Some ret, s))"

definition circbuf_new :: "bool \<Rightarrow> nat \<Rightarrow> circbuf" where
  "circbuf_new e MaxSize =
     \<lparr>nxt = id, prv = id, has = (\<lambda>_. False), brk = 5, cn_items = 0, csize = 0,
      cmax = (if MaxSize = 0 then 1023 * 4095 * 1023 * 0xFFFFFFFF else MaxSize), cexc = e, events = []\<rparr>"

text \<open>
  The constructor does not initialise \<^verbatim>\<open>use_exc_\<close>, the member that the macro \<^verbatim>\<open>USE_EXC\<close> adds: it is
  the argument \<open>e\<close>.
\<close>

text \<open>\<^verbatim>\<open>new item()\<close>, with or without \<^verbatim>\<open>item_ = new T()\<close>, after \<^verbatim>\<open>++size_\<close>.\<close>

definition new_item :: "bool \<Rightarrow> circbuf \<Rightarrow> nat \<times> circbuf" where
  "new_item h s = (brk s, s\<lparr>has := (has s)(brk s := h), brk := brk s + 1, csize := csize s + 1\<rparr>)"

definition ref_of :: "circbuf \<Rightarrow> nat \<Rightarrow> cres" where
  "ref_of s a = Ref (if has s a then Some a else None)"

definition signal :: "upcall \<Rightarrow> circbuf \<Rightarrow> circbuf" where
  "signal u s = s\<lparr>events := events s @ [u]\<rparr>"

definition prepare :: "circbuf \<Rightarrow> cres \<times> circbuf" where
  "prepare s =
     (let (ret, s) =
        (case unlink_before freelist s of
           (Some r, s) \<Rightarrow> (Some r, s)
         | (None, s) \<Rightarrow>
             if cn_items s < cmax s then (let (a, s) = new_item True s in (Some a, s))
             else unlink_before head s)
      in (case ret of
            None \<Rightarrow> (CNull, s)
          | Some r \<Rightarrow> let s = link_after preplist r s in (ref_of s r, s)))"

text \<open>
  The loops of \<^verbatim>\<open>commit\<close> and \<^verbatim>\<open>rollback\<close> over the prepared items; \<^verbatim>\<open>it->item_ == &t\<close> compares the
  object \<open>t\<close> with the one of item \<open>it\<close>. The result \<open>None\<close> is a loop that does not end
  (or, where nothing was unlinked, the use of a null pointer).
\<close>

partial_function (option) commit_loop :: "nat \<Rightarrow> nat \<Rightarrow> circbuf \<Rightarrow> circbuf option" where
  "commit_loop t it s =
     (if it = preplist then Some s
      else if has s it \<and> it = t
      then (case unlink_before (nxt s it) s of
              (None, s) \<Rightarrow> None
            | (Some it, s) \<Rightarrow>
                let s = link_after head it s;
                    s = s\<lparr>cn_items := cn_items s + 1\<rparr>;
                    s = (if cn_items s > cmax s then signal on_full (s\<lparr>cn_items := cmax s\<rparr>) else s)
                in Some (signal on_new_item s))
      else commit_loop t it s)"

definition commit :: "nat \<Rightarrow> circbuf \<Rightarrow> circbuf option" where
  "commit t s = commit_loop t (nxt s preplist) s"

partial_function (option) rollback_loop :: "nat \<Rightarrow> nat \<Rightarrow> circbuf \<Rightarrow> circbuf option" where
  "rollback_loop t it s =
     (if it = preplist then Some s
      else if has s it \<and> it = t
      then (case unlink_before (nxt s it) s of
              (None, s) \<Rightarrow> None
            | (Some it, s) \<Rightarrow> Some (link_after freelist it s))
      else rollback_loop t it s)"

definition rollback :: "nat \<Rightarrow> circbuf \<Rightarrow> circbuf option" where
  "rollback t s = rollback_loop t (nxt s preplist) s"

definition push :: "circbuf \<Rightarrow> cres \<times> circbuf" where
  "push s =
     (let s = s\<lparr>cn_items := cn_items s + 1\<rparr>
      in if cn_items s > cmax s
         then (case unlink_before head (s\<lparr>cn_items := cmax s\<rparr>) of
                 (None, s) \<Rightarrow> (CNull, s)
               | (Some ret, s) \<Rightarrow>
                   let s = signal on_new_item (signal on_full (link_after head ret s)) in (ref_of s ret, s))
         else let (ret, s) = (case unlink_before freelist s of (Some r, s) \<Rightarrow> (r, s) | (None, s) \<Rightarrow> new_item True s);
                  s = signal on_new_item (link_after head ret s)
              in (ref_of s ret, s))"

text \<open>The report of an empty buffer: a new item without an object goes to the free list.\<close>

definition report_empty :: "circbuf \<Rightarrow> cres \<times> circbuf" where
  "report_empty s =
     (let (x, s) = new_item False s;
          s = link_after freelist x s
      in if cexc s then (CThrow, s) else (ref_of s x, s))"

definition pop :: "circbuf \<Rightarrow> cres \<times> circbuf" where
  "pop s =
     (let (ret, s) = unlink_before head s
      in if cn_items s = 0 then report_empty s
         else let s = (if cn_items s = 1 then signal on_empty s else s);
                  s = s\<lparr>cn_items := cn_items s - 1\<rparr>
              in (case ret of
                    None \<Rightarrow> report_empty s
                  | Some r \<Rightarrow>
                      let s = signal on_del_item (link_after freelist r s) in (ref_of s r, s)))"

text \<open>The heads have no object: their \<^verbatim>\<open>item_\<close> is null.\<close>

definition newest :: "circbuf \<Rightarrow> cres \<times> circbuf" where
  "newest s = (if cn_items s = 0 then report_empty s else (ref_of s (nxt s head), s))"

definition oldest :: "circbuf \<Rightarrow> cres \<times> circbuf" where
  "oldest s = (if cn_items s = 0 then report_empty s else (ref_of s (prv s head), s))"

text \<open>
  The destructor walks each ring, reading the successor before it deletes an item; the result are
  the deleted items in order, and \<open>None\<close> is a walk that does not end.
\<close>

partial_function (option) delete_loop :: "nat \<Rightarrow> nat \<Rightarrow> nat list \<Rightarrow> circbuf \<Rightarrow> nat list option" where
  "delete_loop h p dels s =
     (if p = h then Some dels else let pt = nxt s p in delete_loop h pt (dels @ [p]) s)"

definition circbuf_delete :: "circbuf \<Rightarrow> nat list option" where
  "circbuf_delete s =
     (case delete_loop head (nxt s head) [] s of
        None \<Rightarrow> None
      | Some dels \<Rightarrow>
          (case delete_loop freelist (nxt s freelist) dels s of
             None \<Rightarrow> None
           | Some dels \<Rightarrow> delete_loop preplist (nxt s preplist) dels s))"

subsection \<open>Specification\<close>

text \<open>
  \<open>ring a xs s\<close>: from the head \<open>a\<close> the links lead through the items \<open>xs\<close> and back, in both
  directions. \<open>rings\<close> are the three lists of a buffer; every item is on one of them.
\<close>

fun chain :: "(nat \<Rightarrow> nat) \<Rightarrow> (nat \<Rightarrow> nat) \<Rightarrow> nat \<Rightarrow> nat list \<Rightarrow> nat \<Rightarrow> bool" where
  "chain nx pv x [] y \<longleftrightarrow> nx x = y \<and> pv y = x"
| "chain nx pv x (z # zs) y \<longleftrightarrow> nx x = z \<and> pv z = x \<and> chain nx pv z zs y"

definition ring :: "nat \<Rightarrow> nat list \<Rightarrow> circbuf \<Rightarrow> bool" where
  "ring a xs s \<longleftrightarrow> chain (nxt s) (prv s) a xs a"

definition rings :: "nat list \<Rightarrow> nat list \<Rightarrow> nat list \<Rightarrow> circbuf \<Rightarrow> bool" where
  "rings act fre prep s \<longleftrightarrow> ring head act s \<and> ring freelist fre s \<and> ring preplist prep s \<and>
     distinct (head # freelist # preplist # act @ fre @ prep) \<and> (\<forall>a \<in> set (act @ fre @ prep). a < brk s) \<and>
     5 \<le> brk s \<and> csize s = length (act @ fre @ prep)"

text \<open>The same with an object for every item.\<close>

definition full_rings :: "nat list \<Rightarrow> nat list \<Rightarrow> nat list \<Rightarrow> circbuf \<Rightarrow> bool" where
  "full_rings act fre prep s \<longleftrightarrow> rings act fre prep s \<and> (\<forall>a \<in> set (act @ fre @ prep). has s a)"

text \<open>An item \<open>r\<close> that is on none of the lists.\<close>

definition loose :: "nat \<Rightarrow> nat list \<Rightarrow> nat list \<Rightarrow> nat list \<Rightarrow> circbuf \<Rightarrow> bool" where
  "loose r act fre prep s \<longleftrightarrow> ring head act s \<and> ring freelist fre s \<and> ring preplist prep s \<and>
     distinct (head # freelist # preplist # r # act @ fre @ prep) \<and> (\<forall>a \<in> set (r # act @ fre @ prep). a < brk s) \<and>
     5 \<le> brk s \<and> csize s = length (r # act @ fre @ prep)"

text \<open>What an operation on the links leaves alone, and the rings that do not meet the items \<open>A\<close>.\<close>

definition same_data :: "circbuf \<Rightarrow> circbuf \<Rightarrow> bool" where
  "same_data s s' \<longleftrightarrow> s' = s\<lparr>nxt := nxt s', prv := prv s'\<rparr>"

definition frame :: "nat set \<Rightarrow> circbuf \<Rightarrow> circbuf \<Rightarrow> bool" where
  "frame A s s' \<longleftrightarrow> (\<forall>c us. ring c us s \<and> set (c # us) \<inter> A = {} \<longrightarrow> ring c us s')"

text \<open>
  The user of a buffer stores a value in the object behind the reference that \<^verbatim>\<open>push\<close> returns, and
  reads the one behind the reference that \<^verbatim>\<open>pop\<close> returns; \<open>vals\<close> are the contents of the objects.
  \<open>None\<close> is everything else: an exception or a null pointer.
\<close>

definition push_val :: "'v \<Rightarrow> (circbuf \<times> (nat \<Rightarrow> 'v)) \<Rightarrow> circbuf \<times> (nat \<Rightarrow> 'v)" where
  "push_val v = (\<lambda>(s, vals). case push s of (Ref (Some r), s) \<Rightarrow> (s, vals(r := v)) | (_, s) \<Rightarrow> (s, vals))"

definition pop_val :: "(circbuf \<times> (nat \<Rightarrow> 'v)) \<Rightarrow> ('v \<times> circbuf \<times> (nat \<Rightarrow> 'v)) option" where
  "pop_val = (\<lambda>(s, vals). case pop s of (Ref (Some r), s) \<Rightarrow> Some (vals r, s, vals) | _ \<Rightarrow> None)"

text \<open>A buffer used without the two-phase calls that holds the values \<open>q\<close>, the newest first.\<close>

definition holds :: "nat \<Rightarrow> (circbuf \<times> (nat \<Rightarrow> 'v)) \<Rightarrow> 'v list \<Rightarrow> bool" where
  "holds n = (\<lambda>(s, vals) q. \<exists>act fre. full_rings act fre [] s \<and> map vals act = q \<and> cn_items s = length act \<and>
     length act \<le> n \<and> cmax s = n \<and> 0 < n)"

text \<open>The same for \<^verbatim>\<open>newest\<close> and \<^verbatim>\<open>oldest\<close>, which read a value in its place.\<close>

definition read_val :: "(circbuf \<Rightarrow> cres \<times> circbuf) \<Rightarrow> (circbuf \<times> (nat \<Rightarrow> 'v)) \<Rightarrow> ('v \<times> circbuf \<times> (nat \<Rightarrow> 'v)) option" where
  "read_val f = (\<lambda>(s, vals). case f s of (Ref (Some r), s) \<Rightarrow> Some (vals r, s, vals) | _ \<Rightarrow> None)"

definition count_val :: "(circbuf \<times> (nat \<Rightarrow> 'v)) \<Rightarrow> nat" where
  "count_val = (\<lambda>(s, vals). cn_items s)"

text \<open>
  A sequence of calls of a client that looks at \<^verbatim>\<open>n_items()\<close> first, and calls \<^verbatim>\<open>pop\<close>, \<^verbatim>\<open>newest\<close> and
  \<^verbatim>\<open>oldest\<close> only when it is not zero. The results are those of the calls that return a value, with
  \<open>None\<close> where the buffer was empty; a run ends at once where a call was made and failed. The
  specification is a list, the newest value first, of at most \<open>n\<close> values.
\<close>

datatype 'v client = Store 'v | Take | See_newest | See_oldest

fun client_run :: "('v \<Rightarrow> 's \<Rightarrow> 's) \<Rightarrow> ('s \<Rightarrow> ('v \<times> 's) option) \<Rightarrow> ('s \<Rightarrow> ('v \<times> 's) option) \<Rightarrow> ('s \<Rightarrow> ('v \<times> 's) option) \<Rightarrow>
    ('s \<Rightarrow> nat) \<Rightarrow> 'v client list \<Rightarrow> 's \<Rightarrow> 'v option list \<times> 's" where
  "client_run put get new old count [] s = ([], s)"
| "client_run put get new old count (Store v # cs) s = client_run put get new old count cs (put v s)"
| "client_run put get new old count (c # cs) s =
     (if count s = 0 then (case client_run put get new old count cs s of (rs, s) \<Rightarrow> (None # rs, s))
      else (case (case c of Take \<Rightarrow> get | See_newest \<Rightarrow> new | See_oldest \<Rightarrow> old) s of
              None \<Rightarrow> ([], s)
            | Some (v, s) \<Rightarrow> (case client_run put get new old count cs s of (rs, s) \<Rightarrow> (Some v # rs, s))))"

fun client_spec :: "nat \<Rightarrow> 'v client list \<Rightarrow> 'v list \<Rightarrow> 'v option list \<times> 'v list" where
  "client_spec n [] q = ([], q)"
| "client_spec n (Store v # cs) q = client_spec n cs (take n (v # q))"
| "client_spec n (Take # cs) q =
     (case client_spec n cs (butlast q) of (rs, q') \<Rightarrow> ((if q = [] then None else Some (last q)) # rs, q'))"
| "client_spec n (See_newest # cs) q =
     (case client_spec n cs q of (rs, q') \<Rightarrow> ((if q = [] then None else Some (hd q)) # rs, q'))"
| "client_spec n (See_oldest # cs) q =
     (case client_spec n cs q of (rs, q') \<Rightarrow> ((if q = [] then None else Some (last q)) # rs, q'))"

subsection \<open>Links\<close>

lemma chain_append: "chain nx pv x (ys @ z # zs) y \<longleftrightarrow> chain nx pv x ys z \<and> chain nx pv z zs y"
  by (induction ys arbitrary: x) auto

lemma chain_cong:
  assumes "\<And>u. u \<in> set (x # xs) \<Longrightarrow> nx' u = nx u" and "\<And>v. v \<in> set (xs @ [y]) \<Longrightarrow> pv' v = pv v"
  shows "chain nx' pv' x xs y = chain nx pv x xs y"
  using assms by (induction xs arbitrary: x) auto

lemma chain_ends: "chain nx pv x xs y \<Longrightarrow> nx x = hd (xs @ [y]) \<and> pv y = last (x # xs)"
  by (induction xs arbitrary: x) auto

text \<open>The last link of a chain led to another end.\<close>

lemma chain_redirect:
  assumes "chain nx pv x ys r" and "distinct (x # ys)" and "b \<notin> set ys"
  shows "chain (nx(last (x # ys) := b)) (pv(b := last (x # ys))) x ys b"
  using assms by (induction ys arbitrary: x) auto

lemma frameD: "frame A s s' \<Longrightarrow> ring c us s \<Longrightarrow> set (c # us) \<inter> A = {} \<Longrightarrow> ring c us s'"
  unfolding frame_def by blast

lemma unlink_ring:
  assumes "ring a (ys @ r # zs) s" and "distinct (a # ys @ r # zs)" and b: "b = hd (zs @ [a])"
  obtains s' where "unlink_before b s = (Some r, s')" "ring a (ys @ zs) s'" "same_data s s'" "nxt s r = b"
    "frame (set (a # ys @ r # zs)) s s'"
proof -
  define p where "p = last (a # ys)"
  define s' where "s' = s\<lparr>nxt := (nxt s)(p := b), prv := (prv s)(b := p)\<rparr>"
  have c: "chain (nxt s) (prv s) a ys r" "chain (nxt s) (prv s) r zs a"
    using assms(1) by (simp_all add: ring_def chain_append)
  have bi: "b \<in> set (a # zs)" by (cases zs) (simp_all add: b)
  have pi: "p \<in> set (a # ys)" unfolding p_def by (rule last_in_set) simp
  have n: "nxt s r = b" using chain_ends [OF c(2)] by (simp add: b)
  have pr: "prv s r = p" using chain_ends [OF c(1)] by (simp add: p_def)
  have pb: "prv s b = r" using c(2) by (cases zs) (auto simp: b)
  have "b \<noteq> r" using bi assms(2) by auto
  then have un: "unlink_before b s = (Some r, s')" by (simp add: unlink_before_def pb pr s'_def)
  have dis: "distinct (a # ys)" "b \<notin> set ys" using assms(2) bi by auto
  have left: "chain (nxt s') (prv s') a ys b"
    using chain_redirect [OF c(1) dis] by (simp add: p_def s'_def)
  have "ring a (ys @ zs) s'"
  proof (cases zs)
    case Nil
    then show ?thesis using left by (simp add: ring_def b)
  next
    case (Cons z zs')
    then have z: "b = z" "chain (nxt s) (prv s) z zs' a" using c(2) by (simp_all add: b)
    have "chain (nxt s') (prv s') z zs' a = chain (nxt s) (prv s) z zs' a"
      by (rule chain_cong) (use pi z(1) Cons assms(2) in \<open>auto simp: s'_def\<close>)
    then show ?thesis using left z Cons by (simp add: ring_def chain_append)
  qed
  moreover have "ring c us s'" if "ring c us s" "set (c # us) \<inter> set (a # ys @ r # zs) = {}" for c us
  proof -
    have "p \<notin> set (c # us)" "b \<notin> set (c # us)" using that(2) pi bi by auto
    then have "chain (nxt s') (prv s') c us c = chain (nxt s) (prv s) c us c"
      by (intro chain_cong) (auto simp: s'_def)
    then show ?thesis using that(1) by (simp add: ring_def)
  qed
  then have "frame (set (a # ys @ r # zs)) s s'" by (simp only: frame_def) blast
  moreover have "same_data s s'" by (simp add: same_data_def s'_def)
  ultimately show thesis using that un n by blast
qed

lemma unlink_empty: "ring a [] s \<Longrightarrow> unlink_before a s = (None, s)"
  by (simp add: ring_def unlink_before_def)

lemma link_ring:
  assumes "ring a xs s" and "distinct (a # xs)" and "r \<notin> set (a # xs)"
  shows "ring a (r # xs) (link_after a r s)" and "same_data s (link_after a r s)"
    and "frame (set (a # r # xs)) s (link_after a r s)"
proof -
  define b where "b = hd (xs @ [a])"
  define s' where "s' = s\<lparr>nxt := (nxt s)(r := b, a := r), prv := (prv s)(r := a, b := r)\<rparr>"
  have bi: "b \<in> set (a # xs)" by (cases xs) (simp_all add: b_def)
  have n: "nxt s a = b" using chain_ends assms(1) by (simp add: ring_def b_def)
  have eq: "link_after a r s = s'" using assms(3) n by (auto simp: link_after_def Let_def s'_def)
  have "ring a (r # xs) s'"
  proof (cases xs)
    case Nil
    then show ?thesis using assms(3) by (simp add: ring_def b_def s'_def)
  next
    case (Cons z zs)
    then have z: "b = z" "chain (nxt s) (prv s) z zs a" using assms(1) by (simp_all add: b_def ring_def)
    have "chain (nxt s') (prv s') z zs a = chain (nxt s) (prv s) z zs a"
      by (rule chain_cong) (use assms(2,3) z(1) Cons in \<open>auto simp: s'_def\<close>)
    then show ?thesis using z Cons assms(2,3) by (auto simp: ring_def s'_def)
  qed
  then show "ring a (r # xs) (link_after a r s)" by (simp add: eq)
  have "ring c us (link_after a r s)" if "ring c us s" "set (c # us) \<inter> set (a # r # xs) = {}" for c us
  proof -
    have "a \<notin> set (c # us)" "r \<notin> set (c # us)" "b \<notin> set (c # us)" using that(2) bi by auto
    then have "chain (nxt s') (prv s') c us c = chain (nxt s) (prv s) c us c"
      by (intro chain_cong) (auto simp: s'_def)
    then show ?thesis using that(1) by (simp add: ring_def eq)
  qed
  then show "frame (set (a # r # xs)) s (link_after a r s)" by (simp only: frame_def) blast
  show "same_data s (link_after a r s)" unfolding eq by (simp add: same_data_def s'_def)
qed

subsection \<open>The three lists\<close>

lemma same_dataD:
  assumes "same_data s s'"
  shows "has s' = has s" "brk s' = brk s" "cn_items s' = cn_items s" "csize s' = csize s" "cmax s' = cmax s" "cexc s' = cexc s"
    "events s' = events s"
  by (subst assms [unfolded same_data_def], simp)+

lemma take_active:
  assumes "rings (act @ [r]) fre prep s"
  obtains s' where "unlink_before head s = (Some r, s')" "loose r act fre prep s'" "same_data s s'"
proof -
  have d: "distinct (head # act @ r # [])" and rg: "ring head (act @ r # []) s" using assms by (simp_all add: rings_def)
  have h: "head = hd ([] @ [head])" by simp
  obtain s' where u: "unlink_before head s = (Some r, s')" "ring head (act @ []) s'" "same_data s s'" "nxt s r = head"
      "frame (set (head # act @ r # [])) s s'"
    by (rule unlink_ring [OF rg d h])
  have "ring freelist fre s'" "ring preplist prep s'" using assms by (auto intro!: frameD [OF u(5)] simp: rings_def)
  then have "loose r act fre prep s'" using assms u(2) same_dataD [OF u(3)] by (auto simp: rings_def loose_def)
  then show thesis using that u(1,3) by blast
qed

lemma take_free:
  assumes "rings act (fre @ [r]) prep s"
  obtains s' where "unlink_before freelist s = (Some r, s')" "loose r act fre prep s'" "same_data s s'"
proof -
  have d: "distinct (freelist # fre @ r # [])" and rg: "ring freelist (fre @ r # []) s" using assms by (simp_all add: rings_def)
  have h: "freelist = hd ([] @ [freelist])" by simp
  obtain s' where u: "unlink_before freelist s = (Some r, s')" "ring freelist (fre @ []) s'" "same_data s s'" "nxt s r = freelist"
      "frame (set (freelist # fre @ r # [])) s s'"
    by (rule unlink_ring [OF rg d h])
  have "ring head act s'" "ring preplist prep s'" using assms by (auto intro!: frameD [OF u(5)] simp: rings_def)
  then have "loose r act fre prep s'" using assms u(2) same_dataD [OF u(3)] by (auto simp: rings_def loose_def)
  then show thesis using that u(1,3) by blast
qed

lemma take_prepared:
  assumes "rings act fre (r # prep) s"
  obtains s' where "unlink_before (nxt s r) s = (Some r, s')" "loose r act fre prep s'" "same_data s s'"
proof -
  have d: "distinct (preplist # [] @ r # prep)" and rg: "ring preplist ([] @ r # prep) s" using assms by (simp_all add: rings_def)
  from unlink_ring [OF rg d refl] obtain s' where u: "unlink_before (nxt s r) s = (Some r, s')" "ring preplist ([] @ prep) s'" "same_data s s'"
      "frame (set (preplist # [] @ r # prep)) s s'"
    by metis
  have "ring head act s'" "ring freelist fre s'" using assms by (auto intro!: frameD [OF u(4)] simp: rings_def)
  then have "loose r act fre prep s'" using assms u(2) same_dataD [OF u(3)] by (auto simp: rings_def loose_def)
  then show thesis using that u(1,3) by blast
qed

lemma link_active:
  assumes "loose r act fre prep s"
  shows "rings (r # act) fre prep (link_after head r s)" and "same_data s (link_after head r s)"
proof -
  have l: "ring head act s" "distinct (head # act)" "r \<notin> set (head # act)" using assms by (simp_all add: loose_def)
  note k = link_ring [OF l]
  have "ring freelist fre (link_after head r s)" "ring preplist prep (link_after head r s)"
    using assms by (auto intro!: frameD [OF k(3)] simp: loose_def)
  then show "rings (r # act) fre prep (link_after head r s)"
    using k(1) same_dataD [OF k(2)] assms by (auto simp: rings_def loose_def)
  show "same_data s (link_after head r s)" by (rule k(2))
qed

lemma link_free:
  assumes "loose r act fre prep s"
  shows "rings act (r # fre) prep (link_after freelist r s)" and "same_data s (link_after freelist r s)"
proof -
  have l: "ring freelist fre s" "distinct (freelist # fre)" "r \<notin> set (freelist # fre)" using assms by (simp_all add: loose_def)
  note k = link_ring [OF l]
  have "ring head act (link_after freelist r s)" "ring preplist prep (link_after freelist r s)"
    using assms by (auto intro!: frameD [OF k(3)] simp: loose_def)
  then show "rings act (r # fre) prep (link_after freelist r s)"
    using k(1) same_dataD [OF k(2)] assms by (auto simp: rings_def loose_def)
  show "same_data s (link_after freelist r s)" by (rule k(2))
qed

lemma link_prepared:
  assumes "loose r act fre prep s"
  shows "rings act fre (r # prep) (link_after preplist r s)" and "same_data s (link_after preplist r s)"
proof -
  have l: "ring preplist prep s" "distinct (preplist # prep)" "r \<notin> set (preplist # prep)" using assms by (simp_all add: loose_def)
  note k = link_ring [OF l]
  have "ring head act (link_after preplist r s)" "ring freelist fre (link_after preplist r s)"
    using assms by (auto intro!: frameD [OF k(3)] simp: loose_def)
  then show "rings act fre (r # prep) (link_after preplist r s)"
    using k(1) same_dataD [OF k(2)] assms by (auto simp: rings_def loose_def)
  show "same_data s (link_after preplist r s)" by (rule k(2))
qed

lemma loose_new_item:
  assumes "rings act fre prep s" and "new_item h s = (a, s')"
  shows "loose a act fre prep s'" and "s' = s\<lparr>has := (has s)(a := h), brk := brk s + 1, csize := csize s + 1\<rparr>" and "a = brk s"
  using assms by (auto simp: rings_def loose_def new_item_def ring_def less_Suc_eq)

lemma rings_data: "rings act fre prep s \<Longrightarrow> rings act fre prep (s\<lparr>cn_items := n, events := e\<rparr>)"
  by (simp add: rings_def ring_def)

lemma full_rings_data: "full_rings act fre prep s \<Longrightarrow> full_rings act fre prep (s\<lparr>cn_items := n\<rparr>) \<and> full_rings act fre prep (s\<lparr>events := e\<rparr>)"
  by (simp add: full_rings_def rings_def ring_def)

lemma full_rings_signal [simp]: "full_rings act fre prep (signal u s) = full_rings act fre prep s"
  by (simp add: signal_def full_rings_def rings_def ring_def)

lemma signal_data [simp]: "cn_items (signal u s) = cn_items s" "cmax (signal u s) = cmax s" "has (signal u s) = has s" "brk (signal u s) = brk s"
    "csize (signal u s) = csize s" "cexc (signal u s) = cexc s"
  by (simp_all add: signal_def)

text \<open>\<open>full_loose\<close>: a loose item with an object, all others having theirs.\<close>

lemma full_take:
  shows "full_rings (act @ [r]) fre prep s \<Longrightarrow> \<exists>s'. unlink_before head s = (Some r, s') \<and> loose r act fre prep s' \<and> same_data s s'"
    and "full_rings act (fre @ [r]) prep s \<Longrightarrow> \<exists>s'. unlink_before freelist s = (Some r, s') \<and> loose r act fre prep s' \<and> same_data s s'"
    and "full_rings act fre (r # prep) s \<Longrightarrow> \<exists>s'. unlink_before (nxt s r) s = (Some r, s') \<and> loose r act fre prep s' \<and> same_data s s'"
  using take_active [of act r fre prep s] take_free [of act fre r prep s] take_prepared [of act fre r prep s]
  unfolding full_rings_def by metis+

lemma full_empty:
  shows "full_rings [] fre prep s \<Longrightarrow> unlink_before head s = (None, s)" and "full_rings act [] prep s \<Longrightarrow> unlink_before freelist s = (None, s)"
    and "full_rings act fre [] s \<Longrightarrow> nxt s preplist = preplist" and "full_rings act fre (r # prep) s \<Longrightarrow> nxt s preplist = r"
  by (simp_all add: full_rings_def rings_def unlink_empty) (simp_all add: ring_def)

lemma full_link:
  assumes "loose r act fre prep s" and "\<forall>a \<in> set (r # act @ fre @ prep). has s a"
  shows "full_rings (r # act) fre prep (link_after head r s)" and "full_rings act (r # fre) prep (link_after freelist r s)"
    and "full_rings act fre (r # prep) (link_after preplist r s)"
  using link_active [OF assms(1)] link_free [OF assms(1)] link_prepared [OF assms(1)] assms(2)
    same_dataD(1) [of s "link_after head r s"] same_dataD(1) [of s "link_after freelist r s"] same_dataD(1) [of s "link_after preplist r s"]
  by (auto simp: full_rings_def)

lemma link_data [simp]: "cn_items (link_after a r s) = cn_items s" "cmax (link_after a r s) = cmax s" "has (link_after a r s) = has s"
    "cexc (link_after a r s) = cexc s" "events (link_after a r s) = events s"
  by (simp_all add: link_after_def Let_def)

subsection \<open>The operations on the lists\<close>

lemma prepare_free:
  assumes "full_rings act (fre @ [r]) prep s"
  shows "\<exists>s'. prepare s = (Ref (Some r), s') \<and> full_rings act fre (r # prep) s' \<and> cn_items s' = cn_items s \<and> cmax s' = cmax s"
proof -
  obtain s1 where s1: "unlink_before freelist s = (Some r, s1)" "loose r act fre prep s1" "same_data s s1"
    using full_take(2) [OF assms] by blast
  have h: "\<forall>a \<in> set (r # act @ fre @ prep). has s1 a" using assms same_dataD(1) [OF s1(3)] by (auto simp: full_rings_def)
  then show ?thesis
    using full_link(3) [OF s1(2) h] s1(1) same_dataD [OF s1(3)] by (simp add: prepare_def Let_def ref_of_def)
qed

lemma prepare_new:
  assumes "full_rings act [] prep s" and "cn_items s < cmax s"
  shows "\<exists>r s'. prepare s = (Ref (Some r), s') \<and> full_rings act [] (r # prep) s' \<and> r \<notin> set (act @ prep) \<and> cn_items s' = cn_items s \<and> cmax s' = cmax s"
proof -
  obtain s1 where s1: "new_item True s = (brk s, s1)" by (simp add: new_item_def)
  have r: "rings act [] prep s" using assms(1) by (simp add: full_rings_def)
  note l = loose_new_item [OF r s1]
  have h: "\<forall>a \<in> set (brk s # act @ [] @ prep). has s1 a" using assms(1) l(2) by (auto simp: full_rings_def)
  have "brk s \<notin> set (act @ prep)" using l(1) by (simp add: loose_def)
  then show ?thesis
    using full_link(3) [OF l(1) h] full_empty(2) [OF assms(1)] assms(2) s1 l(2) by (simp add: prepare_def Let_def ref_of_def)
qed

lemma prepare_oldest:
  assumes "full_rings (act @ [r]) [] prep s" and "\<not> cn_items s < cmax s"
  shows "\<exists>s'. prepare s = (Ref (Some r), s') \<and> full_rings act [] (r # prep) s' \<and> cn_items s' = cn_items s \<and> cmax s' = cmax s"
proof -
  obtain s1 where s1: "unlink_before head s = (Some r, s1)" "loose r act [] prep s1" "same_data s s1"
    using full_take(1) [OF assms(1)] by blast
  have h: "\<forall>a \<in> set (r # act @ [] @ prep). has s1 a" using assms(1) same_dataD(1) [OF s1(3)] by (auto simp: full_rings_def)
  then show ?thesis
    using full_link(3) [OF s1(2) h] s1(1) same_dataD [OF s1(3)] full_empty(2) [OF assms(1)] assms(2)
    by (simp add: prepare_def Let_def ref_of_def)
qed

lemma commit_first:
  assumes "full_rings act fre (r # prep) s"
  shows "\<exists>s'. commit r s = Some s' \<and> full_rings (r # act) fre prep s' \<and> cn_items s' = min (cn_items s + 1) (cmax s) \<and> cmax s' = cmax s"
proof -
  obtain s1 where s1: "unlink_before (nxt s r) s = (Some r, s1)" "loose r act fre prep s1" "same_data s s1"
    using full_take(3) [OF assms] by blast
  have h: "\<forall>a \<in> set (r # act @ fre @ prep). has s1 a" using assms same_dataD(1) [OF s1(3)] by (auto simp: full_rings_def)
  note k = full_link(1) [OF s1(2) h]
  have r: "has s r" "r \<noteq> preplist" using assms by (auto simp: full_rings_def rings_def)
  let ?s = "(link_after head r s1)\<lparr>cn_items := cn_items s1 + 1\<rparr>"
  let ?t = "if cn_items ?s > cmax ?s then signal on_full (?s\<lparr>cn_items := cmax ?s\<rparr>) else ?s"
  have "commit r s = Some (signal on_new_item ?t)"
    unfolding commit_def full_empty(4) [OF assms] using r s1(1) by (subst commit_loop.simps) (simp add: Let_def)
  moreover have "full_rings (r # act) fre prep ?t" using k full_rings_data by auto
  ultimately show ?thesis using same_dataD [OF s1(3)] by auto
qed

lemma rollback_first:
  assumes "full_rings act fre (r # prep) s"
  shows "\<exists>s'. rollback r s = Some s' \<and> full_rings act (r # fre) prep s' \<and> cn_items s' = cn_items s \<and> cmax s' = cmax s"
proof -
  obtain s1 where s1: "unlink_before (nxt s r) s = (Some r, s1)" "loose r act fre prep s1" "same_data s s1"
    using full_take(3) [OF assms] by blast
  have h: "\<forall>a \<in> set (r # act @ fre @ prep). has s1 a" using assms same_dataD(1) [OF s1(3)] by (auto simp: full_rings_def)
  have r: "has s r" "r \<noteq> preplist" using assms by (auto simp: full_rings_def rings_def)
  have "rollback r s = Some (link_after freelist r s1)"
    unfolding rollback_def full_empty(4) [OF assms] using r s1(1) by (subst rollback_loop.simps) simp
  then show ?thesis using full_link(2) [OF s1(2) h] same_dataD [OF s1(3)] by simp
qed

text \<open>A loop that calls itself with the same arguments does not end.\<close>

lemma commit_loop_stuck: "it \<noteq> preplist \<Longrightarrow> it \<noteq> t \<Longrightarrow> commit_loop t it s = None"
proof (rule ccontr)
  assume a: "it \<noteq> preplist" "it \<noteq> t" "commit_loop t it s \<noteq> None"
  then obtain s' where "commit_loop t it s = Some s'" by auto
  then have "it = preplist \<or> it = t"
    by (rule commit_loop.raw_induct [of "\<lambda>t it s s'. it = preplist \<or> it = t" t it s, rotated])
      (auto split: if_splits)
  then show False using a by simp
qed

lemma rollback_loop_stuck: "it \<noteq> preplist \<Longrightarrow> it \<noteq> t \<Longrightarrow> rollback_loop t it s = None"
proof (rule ccontr)
  assume a: "it \<noteq> preplist" "it \<noteq> t" "rollback_loop t it s \<noteq> None"
  then obtain s' where "rollback_loop t it s = Some s'" by auto
  then have "it = preplist \<or> it = t"
    by (rule rollback_loop.raw_induct [of "\<lambda>t it s s'. it = preplist \<or> it = t" t it s, rotated])
      (auto split: if_splits)
  then show False using a by simp
qed

text \<open>The active list after \<^verbatim>\<open>push\<close> and \<^verbatim>\<open>pop\<close>.\<close>

lemma push_ok:
  assumes "full_rings act fre prep s" and "cn_items s = length act" and "length act \<le> cmax s" and "0 < cmax s"
  shows "\<exists>r fre' s'. push s = (Ref (Some r), s') \<and> full_rings (r # take (cmax s - 1) act) fre' prep s' \<and>
    r \<notin> set (take (cmax s - 1) act) \<and> cn_items s' = min (length act + 1) (cmax s) \<and> cmax s' = cmax s"
proof -
  have nin: "r \<notin> set as" if "full_rings (r # as) f p s0" for r as f p s0 using that by (simp add: full_rings_def rings_def)
  let ?s = "s\<lparr>cn_items := cn_items s + 1\<rparr>"
  show ?thesis
  proof (cases "length act < cmax s")
    case True
    then have lt: "\<not> cn_items ?s > cmax ?s" "take (cmax s - 1) act = act" using assms(2) by simp_all
    have f: "full_rings act fre prep ?s" using assms(1) full_rings_data by blast
    show ?thesis
    proof (cases fre rule: rev_cases)
      case Nil
      obtain s1 where s1: "new_item True ?s = (brk s, s1)" by (simp add: new_item_def)
      have rg: "rings act [] prep ?s" using f Nil by (simp add: full_rings_def)
      note l = loose_new_item [OF rg s1]
      have "\<forall>a \<in> set (brk s # act @ [] @ prep). has s1 a" using assms(1) Nil l(2) by (auto simp: full_rings_def)
      note k = full_link(1) [OF l(1) this]
      have "unlink_before freelist ?s = (None, ?s)" using full_empty(2) f Nil by blast
      then show ?thesis using k nin [OF k] lt s1 l(2) True assms(2) by (simp add: push_def Let_def ref_of_def) blast
    next
      case (snoc fs r)
      then obtain s1 where s1: "unlink_before freelist ?s = (Some r, s1)" "loose r act fs prep s1" "same_data ?s s1"
        using full_take(2) f by blast
      have "\<forall>a \<in> set (r # act @ fs @ prep). has s1 a" using assms(1) snoc same_dataD(1) [OF s1(3)] by (auto simp: full_rings_def)
      note k = full_link(1) [OF s1(2) this]
      have "has s1 r" using assms(1) snoc same_dataD(1) [OF s1(3)] by (simp add: full_rings_def)
      then show ?thesis using k nin [OF k] lt s1(1) same_dataD [OF s1(3)] True assms(2) by (simp add: push_def Let_def ref_of_def) blast
    qed
  next
    case False
    then obtain as r where act: "act = as @ [r]" "length as = cmax s - 1" using assms(3,4) by (cases act rule: rev_cases) auto
    let ?t = "?s\<lparr>cn_items := cmax ?s\<rparr>"
    have f: "full_rings (as @ [r]) fre prep ?t" using assms(1) act full_rings_data by simp
    obtain s1 where s1: "unlink_before head ?t = (Some r, s1)" "loose r as fre prep s1" "same_data ?t s1"
      using full_take(1) [OF f] by blast
    have h: "\<forall>a \<in> set (r # as @ fre @ prep). has s1 a" using assms(1) act same_dataD(1) [OF s1(3)] by (auto simp: full_rings_def)
    note k = full_link(1) [OF s1(2) h]
    show ?thesis
      using k nin [OF k] s1(1) h same_dataD [OF s1(3)] False act assms(2,3) by (simp add: push_def Let_def ref_of_def) blast
  qed
qed

lemma pop_ok:
  assumes "full_rings (act @ [r]) fre prep s" and "cn_items s \<noteq> 0"
  shows "\<exists>s'. pop s = (Ref (Some r), s') \<and> full_rings act (r # fre) prep s' \<and> cn_items s' = cn_items s - 1 \<and> cmax s' = cmax s"
proof -
  obtain s1 where s1: "unlink_before head s = (Some r, s1)" "loose r act fre prep s1" "same_data s s1"
    using full_take(1) [OF assms(1)] by blast
  let ?t = "(if cn_items s1 = 1 then signal on_empty s1 else s1)\<lparr>cn_items := cn_items s1 - 1\<rparr>"
  have l: "loose r act fre prep ?t" using s1(2) by (simp add: loose_def ring_def signal_def)
  have h: "\<forall>a \<in> set (r # act @ fre @ prep). has ?t a" using assms(1) same_dataD(1) [OF s1(3)] by (auto simp: full_rings_def)
  note k = full_link(2) [OF l h]
  have "pop s = (ref_of (signal on_del_item (link_after freelist r ?t)) r, signal on_del_item (link_after freelist r ?t))"
    using s1(1) assms(2) same_dataD(3) [OF s1(3)] by (simp add: pop_def Let_def)
  then show ?thesis using k h same_dataD [OF s1(3)] by (simp add: ref_of_def)
qed

lemma newest_oldest:
  assumes "full_rings act fre prep s" and "act \<noteq> []" and "cn_items s \<noteq> 0"
  shows "newest s = (Ref (Some (hd act)), s) \<and> oldest s = (Ref (Some (last act)), s)"
proof -
  have "nxt s head = hd act" "prv s head = last act"
    using assms(1,2) chain_ends [of "nxt s" "prv s" head act head] by (simp_all add: full_rings_def rings_def ring_def)
  moreover have "has s (hd act)" "has s (last act)" using assms(1,2) by (simp_all add: full_rings_def)
  ultimately show ?thesis using assms(3) by (simp add: newest_def oldest_def ref_of_def)
qed

subsection \<open>The contract of a bounded queue\<close>

text \<open>
  A queue of at most \<open>cap\<close> values, the newest first in its contents: \<open>put\<close> adds a value and
  drops the oldest when there are more than \<open>cap\<close>, \<open>get\<close> takes the oldest, \<open>new\<close> and \<open>old\<close> read the
  newest and the oldest one, \<open>count\<close> is their number.
\<close>

locale bounded_fifo =
  fixes rep :: "'s \<Rightarrow> 'v list \<Rightarrow> bool" and cap :: nat and put :: "'v \<Rightarrow> 's \<Rightarrow> 's"
    and get new old :: "'s \<Rightarrow> ('v \<times> 's) option" and count :: "'s \<Rightarrow> nat"
  assumes put_rep: "rep s q \<Longrightarrow> rep (put v s) (take cap (v # q))"
    and get_rep: "rep s q \<Longrightarrow> q \<noteq> [] \<Longrightarrow> \<exists>s'. get s = Some (last q, s') \<and> rep s' (butlast q)"
    and new_rep: "rep s q \<Longrightarrow> q \<noteq> [] \<Longrightarrow> \<exists>s'. new s = Some (hd q, s') \<and> rep s' q"
    and old_rep: "rep s q \<Longrightarrow> q \<noteq> [] \<Longrightarrow> \<exists>s'. old s = Some (last q, s') \<and> rep s' q"
    and count_rep: "rep s q \<Longrightarrow> count s = length q"
begin

lemma run_rep:
  "rep s q \<Longrightarrow> \<exists>s'. client_run put get new old count cs s = (fst (client_spec cap cs q), s') \<and> rep s' (snd (client_spec cap cs q))"
proof (induction cs arbitrary: s q)
  case (Cons c cs)
  note n = count_rep [OF Cons.prems]
  show ?case
  proof (cases c)
    case (Store v)
    then show ?thesis using Cons.IH [OF put_rep [OF Cons.prems]] by simp
  next
    case Take
    show ?thesis
    proof (cases "q = []")
      case False
      obtain s' where "get s = Some (last q, s')" "rep s' (butlast q)" using get_rep [OF Cons.prems False] by blast
      then show ?thesis using Cons.IH [of s' "butlast q"] Take False n by (auto split: prod.splits)
    qed (use Cons.IH [OF Cons.prems] Take n in \<open>auto split: prod.splits\<close>)
  next
    case See_newest
    show ?thesis
    proof (cases "q = []")
      case False
      obtain s' where "new s = Some (hd q, s')" "rep s' q" using new_rep [OF Cons.prems False] by blast
      then show ?thesis using Cons.IH [of s' q] See_newest False n by (auto split: prod.splits)
    qed (use Cons.IH [OF Cons.prems] See_newest n in \<open>auto split: prod.splits\<close>)
  next
    case See_oldest
    show ?thesis
    proof (cases "q = []")
      case False
      obtain s' where "old s = Some (last q, s')" "rep s' q" using old_rep [OF Cons.prems False] by blast
      then show ?thesis using Cons.IH [of s' q] See_oldest False n by (auto split: prod.splits)
    qed (use Cons.IH [OF Cons.prems] See_oldest n in \<open>auto split: prod.splits\<close>)
  qed
qed simp

end

lemma holds_push:
  assumes "holds n p q"
  shows "holds n (push_val v p) (take n (v # q))"
proof -
  obtain s vals where p: "p = (s, vals)" by (cases p)
  obtain act fre where a: "full_rings act fre [] s" "map vals act = q" "cn_items s = length act" "length act \<le> n" "cmax s = n" "0 < n"
    using assms p by (auto simp: holds_def)
  obtain r fre' s' where s': "push s = (Ref (Some r), s')" "full_rings (r # take (n - 1) act) fre' [] s'" "r \<notin> set (take (n - 1) act)"
      "cn_items s' = min (length act + 1) n" "cmax s' = n"
    using push_ok [OF a(1,3)] a(4,5,6) by auto
  have m: "map (vals(r := v)) (r # take (n - 1) act) = take n (v # q)"
    using s'(3) a(2,6) by (cases n) (auto simp: take_map)
  have "length (r # take (n - 1) act) = min (length act + 1) n" using a(6) by (cases n) (auto simp: min_def)
  then have "holds n (s', vals(r := v)) (take n (v # q))"
    unfolding holds_def prod.case
    by (intro exI [of _ "r # take (n - 1) act"] exI [of _ fre'] conjI) (use s' m a in simp_all)
  then show ?thesis using s'(1) p by (simp add: push_val_def)
qed

lemma holds_pop:
  assumes "holds n p q" and "q \<noteq> []"
  shows "\<exists>p'. pop_val p = Some (last q, p') \<and> holds n p' (butlast q)"
proof -
  obtain s vals where p: "p = (s, vals)" by (cases p)
  obtain act fre where a: "full_rings act fre [] s" "map vals act = q" "cn_items s = length act" "length act \<le> n" "cmax s = n" "0 < n"
    using assms p by (auto simp: holds_def)
  then obtain as r where act: "act = as @ [r]" using assms(2) by (cases act rule: rev_cases) auto
  then have q: "butlast q = map vals as" "last q = vals r" using a(2) by auto
  obtain s' where s': "pop s = (Ref (Some r), s')" "full_rings as (r # fre) [] s'" "cn_items s' = cn_items s - 1" "cmax s' = cmax s"
    using pop_ok [of as r fre "[]" s] a(1,3) act by auto
  have "holds n (s', vals) (butlast q)"
    unfolding holds_def prod.case by (intro exI [of _ as] exI [of _ "r # fre"] conjI) (use s' act a q in simp_all)
  then show ?thesis using s'(1) q(2) p by (simp add: pop_val_def)
qed

lemma holds_read:
  assumes "holds n p q" and "q \<noteq> []"
  shows "read_val newest p = Some (hd q, p) \<and> read_val oldest p = Some (last q, p) \<and> count_val p = length q"
proof -
  obtain s vals where p: "p = (s, vals)" by (cases p)
  obtain act fre where a: "full_rings act fre [] s" "map vals act = q" "cn_items s = length act"
    using assms p by (auto simp: holds_def)
  then have "act \<noteq> []" using assms(2) by auto
  then show ?thesis using newest_oldest [OF a(1)] a p
    by (auto simp: read_val_def count_val_def hd_map last_map)
qed

lemma holds_count: "holds n p q \<Longrightarrow> count_val p = length q"
  by (auto simp: holds_def count_val_def)

interpretation cbq: bounded_fifo "holds n" n push_val pop_val "read_val newest" "read_val oldest" count_val for n
proof unfold_locales
  fix n and p :: "circbuf \<times> (nat \<Rightarrow> 'v)" and q v
  assume h: "holds n p q"
  show "holds n (push_val v p) (take n (v # q))" by (rule holds_push [OF h])
  show "count_val p = length q" by (rule holds_count [OF h])
  assume q: "q \<noteq> []"
  show "\<exists>p'. pop_val p = Some (last q, p') \<and> holds n p' (butlast q)" by (rule holds_pop [OF h q])
  show "\<exists>p'. read_val newest p = Some (hd q, p') \<and> holds n p' q" using holds_read [OF h q] h by blast
  show "\<exists>p'. read_val oldest p = Some (last q, p') \<and> holds n p' q" using holds_read [OF h q] h by blast
qed

lemma new_rings: "full_rings [] [] [] (circbuf_new e m)"
  by (simp add: full_rings_def rings_def ring_def circbuf_new_def)

lemma holds_new: "0 < n \<Longrightarrow> holds n (circbuf_new e n, vals) []"
  using new_rings [of e n] by (auto simp: holds_def circbuf_new_def)

subsection \<open>Properties\<close>

text \<open>
  C18: a circular buffer that is used with \<^verbatim>\<open>push\<close>, \<^verbatim>\<open>pop\<close>, \<^verbatim>\<open>newest\<close> and \<^verbatim>\<open>oldest\<close>, in any order, by a
  client that does not read from an empty buffer, is a queue of the newest \<open>MaxSize\<close> values. Every
  stored value is the newest one; when there are more than \<open>MaxSize\<close>, the oldest is dropped; \<^verbatim>\<open>pop\<close>
  returns the oldest value and removes it, and the items it frees are used again; \<^verbatim>\<open>newest\<close> and
  \<^verbatim>\<open>oldest\<close> return the values at the two ends; no call returns a null reference, and \<^verbatim>\<open>n_items()\<close>
  is the number of values. (What \<^verbatim>\<open>pop\<close> does on an empty buffer is \<open>circbuf_null_after_empty_pop\<close>.)
\<close>

theorem circbuf_keeps_newest:
  assumes "0 < MaxSize"
  shows "case client_run push_val pop_val (read_val newest) (read_val oldest) count_val cs (circbuf_new e MaxSize, vals) of
    (rs, p) \<Rightarrow> rs = fst (client_spec MaxSize cs []) \<and> count_val p = length (snd (client_spec MaxSize cs []))"
  using cbq.run_rep [OF holds_new [OF assms, where e = e and vals = vals], where cs = cs] by (auto dest: holds_count)

theorem circbuf_keeps_newest_witness:
  "fst (client_run push_val pop_val (read_val newest) (read_val oldest) count_val
     [Store 10, Store 20, Store 30, Take, Store 40, See_newest, Take, Take, Take] (circbuf_new True 2, \<lambda>_. 0 :: nat)) =
   [Some 20, Some 40, Some 30, Some 40, None]"
proof -
  have "fst (client_spec 2 [Store 10, Store 20, Store 30, Take, Store 40, See_newest, Take, Take, Take] []) =
      [Some 20, Some 40, Some 30, Some 40, None :: nat option]" by simp
  then show ?thesis
    using circbuf_keeps_newest [of 2 "[Store 10, Store 20, Store 30, Take, Store 40, See_newest, Take, Take, Take]" True "\<lambda>_. 0 :: nat"]
    by (simp only: case_prod_unfold zero_less_numeral)
qed

text \<open>
  The links of the three rings stay intact, and each item is on exactly one of them, through the
  two-phase push: \<^verbatim>\<open>prepare\<close> moves an item (a free one, a new one, or the oldest active one) to the
  prepared list, \<^verbatim>\<open>commit\<close> of the item prepared last makes it the newest active item and counts
  at most \<open>max_\<close> items, \<^verbatim>\<open>rollback\<close> frees it.
\<close>

theorem circbuf_two_phase:
  assumes "full_rings act fre prep s" and "cn_items s < cmax s \<or> act \<noteq> []"
  shows "\<exists>r act' fre' s1 s2 s3. prepare s = (Ref (Some r), s1) \<and> full_rings act' fre' (r # prep) s1 \<and>
    act' = (if fre = [] \<and> \<not> cn_items s < cmax s then butlast act else act) \<and>
    commit r s1 = Some s2 \<and> full_rings (r # act') fre' prep s2 \<and> cn_items s2 = min (cn_items s + 1) (cmax s) \<and>
    rollback r s1 = Some s3 \<and> full_rings act' (r # fre') prep s3 \<and> cn_items s3 = cn_items s"
proof -
  have "\<exists>r act' fre' s1. prepare s = (Ref (Some r), s1) \<and> full_rings act' fre' (r # prep) s1 \<and>
      act' = (if fre = [] \<and> \<not> cn_items s < cmax s then butlast act else act) \<and> cn_items s1 = cn_items s \<and> cmax s1 = cmax s"
  proof (cases fre rule: rev_cases)
    case Nil
    show ?thesis
    proof (cases "cn_items s < cmax s")
      case True
      then show ?thesis using prepare_new [of act prep s] assms(1) Nil by auto
    next
      case False
      then obtain as r where "act = as @ [r]" using assms(2) by (cases act rule: rev_cases) auto
      then show ?thesis using prepare_oldest [of as r prep s] assms(1) Nil False by auto
    qed
  next
    case (snoc fs r)
    then show ?thesis using prepare_free [of act fs r prep s] assms(1) by auto
  qed
  then obtain r act' fre' s1 where p: "prepare s = (Ref (Some r), s1)" "full_rings act' fre' (r # prep) s1"
      "act' = (if fre = [] \<and> \<not> cn_items s < cmax s then butlast act else act)" "cn_items s1 = cn_items s" "cmax s1 = cmax s"
    by blast
  then show ?thesis using commit_first [OF p(2)] rollback_first [OF p(2)] by metis
qed

theorem circbuf_two_phase_witness:
  "\<exists>r s1 s2. prepare (circbuf_new True 3) = (Ref (Some r), s1) \<and> commit r s1 = Some s2 \<and> cn_items s2 = 1"
  using circbuf_two_phase [OF new_rings [of True 3]] by (auto simp: circbuf_new_def)

text \<open>
  \<^verbatim>\<open>commit\<close> and \<^verbatim>\<open>rollback\<close> of an item that was not prepared last never return: their loops test the
  first prepared item over and over. For the one prepared last, and when nothing is prepared,
  they return.
\<close>

theorem circbuf_commit_liveness:
  assumes "full_rings act fre prep s" and "t \<in> set prep"
  shows "(commit t s \<noteq> None \<longleftrightarrow> t = hd prep) \<and> (rollback t s \<noteq> None \<longleftrightarrow> t = hd prep)"
proof -
  obtain r ps where p: "prep = r # ps" using assms(2) by (cases prep) auto
  have f: "full_rings act fre (r # ps) s" using assms(1) p by simp
  have "r \<noteq> preplist" using f by (auto simp: full_rings_def rings_def)
  then have "t \<noteq> r \<Longrightarrow> commit t s = None \<and> rollback t s = None"
    using commit_loop_stuck rollback_loop_stuck full_empty(4) [OF f] by (simp add: commit_def rollback_def)
  then show ?thesis using commit_first [OF f] rollback_first [OF f] p by (cases "t = r") auto
qed

theorem circbuf_commit_liveness_witness:
  "\<exists>s1 s2. prepare (circbuf_new True 3) = (Ref (Some 5), s1) \<and> prepare s1 = (Ref (Some 6), s2) \<and> commit 5 s2 = None"
proof -
  obtain s1 where s1: "prepare (circbuf_new True 3) = (Ref (Some 5), s1)" "full_rings [] [] [5] s1"
    using prepare_new [OF new_rings [of True 3]] by (auto simp: circbuf_new_def prepare_def unlink_before_def new_item_def Let_def ref_of_def)
  obtain s2 where s2: "prepare s1 = (Ref (Some 6), s2)" "full_rings [] [] [6, 5] s2"
    using prepare_new [OF s1(2)] s1(1)
    by (auto simp: circbuf_new_def prepare_def unlink_before_def new_item_def Let_def ref_of_def link_after_def)
  show ?thesis using circbuf_commit_liveness [OF s2(2), of 5] s1 s2 by auto
qed

text \<open>
  after \<^verbatim>\<open>pop\<close> on an empty buffer, which throws \<^verbatim>\<open>rs_empty\<close> or returns a null reference, the next \<^verbatim>\<open>push\<close> returns a null reference: the
  item without an object that \<^verbatim>\<open>pop\<close> left on the free list is reused.
\<close>

theorem circbuf_null_after_empty_pop:
  assumes "0 < MaxSize"
  shows "\<exists>s1 s2. pop (circbuf_new e MaxSize) = (if e then CThrow else Ref None, s1) \<and> push s1 = (Ref None, s2)"
  using assms
  by (simp add: circbuf_new_def pop_def report_empty_def new_item_def unlink_before_def link_after_def push_def signal_def ref_of_def Let_def)

theorem circbuf_null_after_empty_pop_witness:
  "\<exists>s1 s2. pop (circbuf_new True 1) = (CThrow, s1) \<and> push s1 = (Ref None, s2)"
  using circbuf_null_after_empty_pop [of 1 True] by simp

lemma delete_loop_chain:
  assumes "chain (nxt s) (prv s) x xs h" and "h \<notin> set xs"
  shows "delete_loop h (nxt s x) dels s = Some (dels @ xs)"
  using assms
proof (induction xs arbitrary: x dels)
  case Nil
  then show ?case by (subst delete_loop.simps) simp
next
  case (Cons z zs)
  then have "delete_loop h (nxt s z) (dels @ [z]) s = Some (dels @ z # zs)" by auto
  then show ?case using Cons.prems by (subst delete_loop.simps) simp
qed

text \<open>
  the destructor returns, and deletes every item of the three rings, each exactly once, so that
  it deletes \<^verbatim>\<open>size_\<close> items.
\<close>

theorem circbuf_delete_all:
  assumes "full_rings act fre prep s"
  shows "\<exists>dels. circbuf_delete s = Some dels \<and> dels = act @ fre @ prep \<and> distinct dels \<and> length dels = csize s"
proof -
  have r: "rings act fre prep s" using assms by (simp add: full_rings_def)
  then have "delete_loop head (nxt s head) [] s = Some act"
    and "delete_loop freelist (nxt s freelist) act s = Some (act @ fre)"
    and "delete_loop preplist (nxt s preplist) (act @ fre) s = Some (act @ fre @ prep)"
    by (auto simp: rings_def ring_def delete_loop_chain)
  then show ?thesis using r by (auto simp: circbuf_delete_def rings_def)
qed

theorem circbuf_delete_all_witness:
  "\<exists>r s1. prepare (circbuf_new True 3) = (Ref (Some r), s1) \<and> circbuf_delete s1 = Some [r]"
proof -
  obtain r s1 where "prepare (circbuf_new True 3) = (Ref (Some r), s1)" "full_rings [] [] [r] s1"
    using prepare_new [OF new_rings [of True 3]] by (auto simp: circbuf_new_def)
  then show ?thesis using circbuf_delete_all [of "[]" "[]" "[r]" s1] by auto
qed

text \<open>
  When the buffer is full and every active item was taken by \<^verbatim>\<open>prepare\<close> (which does not count
  down), the next \<^verbatim>\<open>prepare\<close> links a null pointer.
\<close>

lemma circbuf_prepare_null:
  assumes "full_rings [] [] prep s" and "\<not> cn_items s < cmax s"
  shows "prepare s = (CNull, s)"
  using full_empty(1) [OF assms(1)] full_empty(2) [OF assms(1)] assms(2) by (simp add: prepare_def)

end
