(* ===== verification/Inpvec.thy ===== *)
theory Inpvec
  imports Prelude
begin

section \<open>Vectors of in-place items\<close>

text \<open>
  The template \<^verbatim>\<open>inpvec<T>\<close> of \<^verbatim>\<open>src/common/inpvec.hh\<close> and \<^verbatim>\<open>src/common/inpvec_impl.hh\<close>: a list of
  \<^verbatim>\<open>item\<close>s, called pages here, each with raw memory for \<open>64 * mul_\<close> objects and a bitmap that says
  which of them have been constructed. The first page is part of the vector, the others are
  allocated. A slot is \<open>None\<close> while its memory is raw. Pointers to objects are the page number and
  the slot, which never move. \<^verbatim>\<open>mul_\<close> has 32 bits, and so has the product \<^verbatim>\<open>mul_*width_\<close>; positions are
  64-bit numbers, natural numbers here.

  \<open>mem\<close> stands for \<^verbatim>\<open>malloc\<close>: whether there is memory for a page of the given \<^verbatim>\<open>mul_\<close>. The code
  does not test for a null pointer before \<^verbatim>\<open>memset\<close>: an outer result \<open>None\<close> is the use of the null
  pointer, or a recursion that does not end.
\<close>

record 'a page =
  mul :: u32
  bmap :: "u64 list"
  slots :: "'a option list"

record 'a inpvec =
  vpages :: "'a page list"
  vn_items :: nat
  vexc :: bool

record viter =
  it_page :: "nat option"
  it_pos :: nat
  it_gpos :: nat

subsection \<open>Byte tables\<close>

text \<open>
  The tables of \<^verbatim>\<open>src/common/hlprs.cc\<close>: for each byte the number of its bits, the position behind its
  highest bit, the position of its highest bit (255 if there is none) and of its lowest zero bit
  (255 if there is none).
\<close>

definition byte_bits :: "nat list" where
  "byte_bits =
    [0, 1, 1, 2, 1, 2, 2, 3, 1, 2, 2, 3, 2, 3, 3, 4, 1, 2, 2, 3, 2, 3, 3, 4, 2, 3, 3, 4, 3, 4, 4, 5,
     1, 2, 2, 3, 2, 3, 3, 4, 2, 3, 3, 4, 3, 4, 4, 5, 2, 3, 3, 4, 3, 4, 4, 5, 3, 4, 4, 5, 4, 5, 5, 6,
     1, 2, 2, 3, 2, 3, 3, 4, 2, 3, 3, 4, 3, 4, 4, 5, 2, 3, 3, 4, 3, 4, 4, 5, 3, 4, 4, 5, 4, 5, 5, 6,
     2, 3, 3, 4, 3, 4, 4, 5, 3, 4, 4, 5, 4, 5, 5, 6, 3, 4, 4, 5, 4, 5, 5, 6, 4, 5, 5, 6, 5, 6, 6, 7,
     1, 2, 2, 3, 2, 3, 3, 4, 2, 3, 3, 4, 3, 4, 4, 5, 2, 3, 3, 4, 3, 4, 4, 5, 3, 4, 4, 5, 4, 5, 5, 6,
     2, 3, 3, 4, 3, 4, 4, 5, 3, 4, 4, 5, 4, 5, 5, 6, 3, 4, 4, 5, 4, 5, 5, 6, 4, 5, 5, 6, 5, 6, 6, 7,
     2, 3, 3, 4, 3, 4, 4, 5, 3, 4, 4, 5, 4, 5, 5, 6, 3, 4, 4, 5, 4, 5, 5, 6, 4, 5, 5, 6, 5, 6, 6, 7,
     3, 4, 4, 5, 4, 5, 5, 6, 4, 5, 5, 6, 5, 6, 6, 7, 4, 5, 5, 6, 5, 6, 6, 7, 5, 6, 6, 7, 6, 7, 7, 8]"

definition byte_last_free :: "nat list" where
  "byte_last_free =
    [0, 1, 2, 2, 3, 3, 3, 3, 4, 4, 4, 4, 4, 4, 4, 4, 5, 5, 5, 5, 5, 5, 5, 5, 5, 5, 5, 5, 5, 5, 5, 5,
     6, 6, 6, 6, 6, 6, 6, 6, 6, 6, 6, 6, 6, 6, 6, 6, 6, 6, 6, 6, 6, 6, 6, 6, 6, 6, 6, 6, 6, 6, 6, 6,
     7, 7, 7, 7, 7, 7, 7, 7, 7, 7, 7, 7, 7, 7, 7, 7, 7, 7, 7, 7, 7, 7, 7, 7, 7, 7, 7, 7, 7, 7, 7, 7,
     7, 7, 7, 7, 7, 7, 7, 7, 7, 7, 7, 7, 7, 7, 7, 7, 7, 7, 7, 7, 7, 7, 7, 7, 7, 7, 7, 7, 7, 7, 7, 7,
     8, 8, 8, 8, 8, 8, 8, 8, 8, 8, 8, 8, 8, 8, 8, 8, 8, 8, 8, 8, 8, 8, 8, 8, 8, 8, 8, 8, 8, 8, 8, 8,
     8, 8, 8, 8, 8, 8, 8, 8, 8, 8, 8, 8, 8, 8, 8, 8, 8, 8, 8, 8, 8, 8, 8, 8, 8, 8, 8, 8, 8, 8, 8, 8,
     8, 8, 8, 8, 8, 8, 8, 8, 8, 8, 8, 8, 8, 8, 8, 8, 8, 8, 8, 8, 8, 8, 8, 8, 8, 8, 8, 8, 8, 8, 8, 8,
     8, 8, 8, 8, 8, 8, 8, 8, 8, 8, 8, 8, 8, 8, 8, 8, 8, 8, 8, 8, 8, 8, 8, 8, 8, 8, 8, 8, 8, 8, 8, 8]"

definition byte_last_used :: "nat list" where
  "byte_last_used =
    [255, 0, 1, 1, 2, 2, 2, 2, 3, 3, 3, 3, 3, 3, 3, 3, 4, 4, 4, 4, 4, 4, 4, 4, 4, 4, 4, 4, 4, 4, 4, 4,
     5, 5, 5, 5, 5, 5, 5, 5, 5, 5, 5, 5, 5, 5, 5, 5, 5, 5, 5, 5, 5, 5, 5, 5, 5, 5, 5, 5, 5, 5, 5, 5,
     6, 6, 6, 6, 6, 6, 6, 6, 6, 6, 6, 6, 6, 6, 6, 6, 6, 6, 6, 6, 6, 6, 6, 6, 6, 6, 6, 6, 6, 6, 6, 6,
     6, 6, 6, 6, 6, 6, 6, 6, 6, 6, 6, 6, 6, 6, 6, 6, 6, 6, 6, 6, 6, 6, 6, 6, 6, 6, 6, 6, 6, 6, 6, 6,
     7, 7, 7, 7, 7, 7, 7, 7, 7, 7, 7, 7, 7, 7, 7, 7, 7, 7, 7, 7, 7, 7, 7, 7, 7, 7, 7, 7, 7, 7, 7, 7,
     7, 7, 7, 7, 7, 7, 7, 7, 7, 7, 7, 7, 7, 7, 7, 7, 7, 7, 7, 7, 7, 7, 7, 7, 7, 7, 7, 7, 7, 7, 7, 7,
     7, 7, 7, 7, 7, 7, 7, 7, 7, 7, 7, 7, 7, 7, 7, 7, 7, 7, 7, 7, 7, 7, 7, 7, 7, 7, 7, 7, 7, 7, 7, 7,
     7, 7, 7, 7, 7, 7, 7, 7, 7, 7, 7, 7, 7, 7, 7, 7, 7, 7, 7, 7, 7, 7, 7, 7, 7, 7, 7, 7, 7, 7, 7, 7]"

definition byte_first_free :: "nat list" where
  "byte_first_free =
    [0, 1, 0, 2, 0, 1, 0, 3, 0, 1, 0, 2, 0, 1, 0, 4, 0, 1, 0, 2, 0, 1, 0, 3, 0, 1, 0, 2, 0, 1, 0, 5,
     0, 1, 0, 2, 0, 1, 0, 3, 0, 1, 0, 2, 0, 1, 0, 4, 0, 1, 0, 2, 0, 1, 0, 3, 0, 1, 0, 2, 0, 1, 0, 6,
     0, 1, 0, 2, 0, 1, 0, 3, 0, 1, 0, 2, 0, 1, 0, 4, 0, 1, 0, 2, 0, 1, 0, 3, 0, 1, 0, 2, 0, 1, 0, 5,
     0, 1, 0, 2, 0, 1, 0, 3, 0, 1, 0, 2, 0, 1, 0, 4, 0, 1, 0, 2, 0, 1, 0, 3, 0, 1, 0, 2, 0, 1, 0, 7,
     0, 1, 0, 2, 0, 1, 0, 3, 0, 1, 0, 2, 0, 1, 0, 4, 0, 1, 0, 2, 0, 1, 0, 3, 0, 1, 0, 2, 0, 1, 0, 5,
     0, 1, 0, 2, 0, 1, 0, 3, 0, 1, 0, 2, 0, 1, 0, 4, 0, 1, 0, 2, 0, 1, 0, 3, 0, 1, 0, 2, 0, 1, 0, 6,
     0, 1, 0, 2, 0, 1, 0, 3, 0, 1, 0, 2, 0, 1, 0, 4, 0, 1, 0, 2, 0, 1, 0, 3, 0, 1, 0, 2, 0, 1, 0, 5,
     0, 1, 0, 2, 0, 1, 0, 3, 0, 1, 0, 2, 0, 1, 0, 4, 0, 1, 0, 2, 0, 1, 0, 3, 0, 1, 0, 2, 0, 1, 0, 255]"

subsection \<open>Operations on a page\<close>

definition page_size :: "'a page \<Rightarrow> nat" where
  "page_size p = unat (mul p * 64)"

text \<open>\<^verbatim>\<open>(w>>pos)&1\<close>, and \<^verbatim>\<open>(w>>k)&0xff\<close> as a table index.\<close>

definition test :: "u64 \<Rightarrow> nat \<Rightarrow> bool" where
  "test w pos \<longleftrightarrow> drop_bit pos w AND 1 \<noteq> 0"

definition byte_of :: "u64 \<Rightarrow> nat \<Rightarrow> nat" where
  "byte_of w k = unat (drop_bit k w AND 0xff)"

definition item_n_items :: "'a page \<Rightarrow> nat" where
  "item_n_items p =
     foldl (\<lambda>ret w. ret + byte_bits ! byte_of w 0 + byte_bits ! byte_of w 8 + byte_bits ! byte_of w 16
                       + byte_bits ! byte_of w 24 + byte_bits ! byte_of w 32 + byte_bits ! byte_of w 40
                       + byte_bits ! byte_of w 48 + byte_bits ! byte_of w 56)
       0 (take (unat (mul p)) (bmap p))"

definition item_n_free :: "'a page \<Rightarrow> nat" where
  "item_n_free p = page_size p - item_n_items p"

text \<open>
  The tests of the eight bytes of a word, from the highest to the lowest; the result is \<^verbatim>\<open>ret\<close> and
  whether the loop was left by \<^verbatim>\<open>break\<close>.
\<close>

fun last_free_bytes :: "nat list \<Rightarrow> u64 \<Rightarrow> nat \<Rightarrow> nat \<Rightarrow> nat \<times> bool" where
  "last_free_bytes [] w i ret = (ret, False)"
| "last_free_bytes (k # ks) w i ret =
     (let y = byte_last_free ! byte_of w k
      in if y = 0 then last_free_bytes ks w i (i * 64 + k) else (i * 64 + k + y, True))"

fun last_free_loop :: "u64 list \<Rightarrow> nat \<Rightarrow> nat \<Rightarrow> nat" where
  "last_free_loop bm 0 ret = ret"
| "last_free_loop bm (Suc i) ret =
     (if bm ! i = 0 then last_free_loop bm i (i * 64)
      else let (ret, brk) = last_free_bytes [56, 48, 40, 32, 24, 16, 8, 0] (bm ! i) i ret
           in if brk then ret else last_free_loop bm i ret)"

definition item_last_free :: "'a page \<Rightarrow> nat" where
  "item_last_free p = last_free_loop (bmap p) (unat (mul p)) (page_size p)"

fun first_free_bytes :: "nat list \<Rightarrow> u64 \<Rightarrow> nat \<Rightarrow> nat \<Rightarrow> nat \<times> bool" where
  "first_free_bytes [] w i ret = (ret, False)"
| "first_free_bytes (k # ks) w i ret =
     (let x = byte_first_free ! byte_of w k
      in if x = 0xff then first_free_bytes ks w i (i * 64 + k) else (i * 64 + k + x, True))"

text \<open>The loop over the words; \<open>n\<close> is how many are left.\<close>

fun first_free_loop :: "u64 list \<Rightarrow> nat \<Rightarrow> nat \<Rightarrow> nat \<Rightarrow> nat" where
  "first_free_loop bm i 0 ret = ret"
| "first_free_loop bm i (Suc n) ret =
     (if bm ! i = 0xFFFFFFFFFFFFFFFF then first_free_loop bm (i + 1) n ((i + 1) * 64)
      else let (ret, brk) = first_free_bytes [0, 8, 16, 24, 32, 40, 48, 56] (bm ! i) i ret
           in if brk then ret else first_free_loop bm (i + 1) n ret)"

definition item_first_free :: "'a page \<Rightarrow> nat" where
  "item_first_free p = first_free_loop (bmap p) 0 (unat (mul p)) (page_size p)"

text \<open>
  \<^verbatim>\<open>destroy()\<close> runs the destructors of all objects and counts \<^verbatim>\<open>n_items_\<close> down, but leaves the bitmap as
  it is; the objects are returned in the order of their destruction.
\<close>

fun destroy_word :: "nat list \<Rightarrow> nat \<Rightarrow> 'a page \<Rightarrow> nat \<Rightarrow> 'a list \<Rightarrow> 'a page \<times> nat \<times> 'a list" where
  "destroy_word [] i p n dels = (p, n, dels)"
| "destroy_word (j # js) i p n dels =
     (if test (bmap p ! i) j
      then destroy_word js i (p\<lparr>slots := (slots p)[i * 64 + j := None]\<rparr>) (n - 1)
             (case slots p ! (i * 64 + j) of None \<Rightarrow> dels | Some x \<Rightarrow> dels @ [x])
      else destroy_word js i p n dels)"

fun destroy_loop :: "nat list \<Rightarrow> 'a page \<Rightarrow> nat \<Rightarrow> 'a list \<Rightarrow> 'a page \<times> nat \<times> 'a list" where
  "destroy_loop [] p n dels = (p, n, dels)"
| "destroy_loop (i # is) p n dels =
     (if bmap p ! i \<noteq> 0
      then let (p, n, dels) = destroy_word [0..<64] i p n dels in destroy_loop is p n dels
      else destroy_loop is p n dels)"

definition item_destroy :: "'a page \<Rightarrow> nat \<Rightarrow> 'a page \<times> nat \<times> 'a list" where
  "item_destroy p n = destroy_loop [0..<unat (mul p)] p n []"

definition item_destroy_at :: "nat \<Rightarrow> 'a page \<Rightarrow> nat \<Rightarrow> 'a page \<times> nat \<times> 'a option" where
  "item_destroy_at at p n =
     (let off = at div 64; pos = at mod 64
      in if test (bmap p ! off) pos
         then (p\<lparr>slots := (slots p)[at := None],
                 bmap := (bmap p)[off := bmap p ! off AND NOT (push_bit pos 1)]\<rparr>, n - 1, slots p ! at)
         else (p, n, None))"

definition mul_alloc :: "(u32 \<Rightarrow> bool) \<Rightarrow> u32 \<Rightarrow> 'a page option" where
  "mul_alloc mem m =
     (if mem m then Some \<lparr>mul = m, bmap = replicate (unat m) 0, slots = replicate (unat (m * 64)) None\<rparr> else None)"

text \<open>\<open>dflt\<close> is the default-constructed object \<^verbatim>\<open>T()\<close>.\<close>

definition item_construct :: "'a \<Rightarrow> nat \<Rightarrow> 'a page \<Rightarrow> nat \<Rightarrow> 'a page \<times> nat" where
  "item_construct dflt at p n =
     (let off = at div 64; pos = at mod 64
      in if test (bmap p ! off) pos then (p, n)
         else (p\<lparr>slots := (slots p)[at := Some dflt], bmap := (bmap p)[off := bmap p ! off OR push_bit pos 1]\<rparr>, n + 1))"

definition item_set :: "nat \<Rightarrow> 'a \<Rightarrow> 'a page \<Rightarrow> nat \<Rightarrow> 'a page \<times> nat" where
  "item_set at t p n =
     (let off = at div 64; pos = at mod 64
      in if test (bmap p ! off) pos then (p\<lparr>slots := (slots p)[at := Some t]\<rparr>, n)
         else (p\<lparr>slots := (slots p)[at := Some t], bmap := (bmap p)[off := bmap p ! off OR push_bit pos 1]\<rparr>, n + 1))"

definition item_is_empty :: "'a page \<Rightarrow> bool" where
  "item_is_empty p = list_all (\<lambda>j. \<not> bmap p ! j \<noteq> 0xFFFFFFFF) [0..<unat (mul p)]"

definition item_is_empty_at :: "nat \<Rightarrow> 'a page \<Rightarrow> bool" where
  "item_is_empty_at at p =
     (let off = at div 64; pos = at mod 64
      in if off \<le> unat (mul p) then (if test (bmap p ! off) pos then False else True) else True)"

definition item_is_last :: "nat \<Rightarrow> 'a page \<Rightarrow> bool" where
  "item_is_last at p =
     (let off = at div 64; pos = at mod 64
      in if off > unat (mul p) then True
         else if list_ex (\<lambda>j. test (bmap p ! off) j) [pos + 1..<64] then False
         else if list_ex (\<lambda>i. bmap p ! i \<noteq> 0 \<and> list_ex (\<lambda>j. test (bmap p ! i) j) [0..<64]) [off + 1..<unat (mul p)] then False
         else True)"

text \<open>\<^verbatim>\<open>get\<close> does not look at the bitmap: the reference may be to raw memory.\<close>

definition item_get :: "nat \<Rightarrow> 'a page \<Rightarrow> 'a option" where
  "item_get at p = slots p ! at"

definition item_get_ptr :: "nat \<Rightarrow> 'a page \<Rightarrow> nat option" where
  "item_get_ptr at p =
     (let off = at div 64; pos = at mod 64 in if test (bmap p ! off) pos then Some at else None)"

function next_used_word :: "u64 \<Rightarrow> nat \<Rightarrow> nat option" where
  "next_used_word w j =
     (if j < 64
      then let k = drop_bit j w
           in if k AND 1 \<noteq> 0 then Some j else if k = 0 then None else next_used_word w (j + 1)
      else None)"
  by auto
termination by (relation "measure (\<lambda>(w, j). 64 - j)") auto

declare next_used_word.simps [simp del]

fun next_used_loop :: "u64 list \<Rightarrow> nat \<Rightarrow> nat \<Rightarrow> nat \<Rightarrow> nat option" where
  "next_used_loop bm i 0 pos = None"
| "next_used_loop bm i (Suc n) pos =
     (if bm ! i = 0 then next_used_loop bm (i + 1) n 0
      else (case next_used_word (bm ! i) pos of
              Some j \<Rightarrow> Some (i * 64 + j)
            | None \<Rightarrow> next_used_loop bm (i + 1) n 0))"

text \<open>\<^verbatim>\<open>next_used(at)\<close>: the result and the new \<^verbatim>\<open>at\<close>.\<close>

definition item_next_used :: "nat \<Rightarrow> 'a page \<Rightarrow> nat option \<times> nat" where
  "item_next_used at p =
     (let newpos = at + 1; off = newpos div 64; pos = newpos mod 64
      in (case next_used_loop (bmap p) off (unat (mul p) - off) pos of
            Some np \<Rightarrow> (Some np, np)
          | None \<Rightarrow> (None, newpos)))"

subsection \<open>Iterators\<close>

definition it_end :: viter where
  "it_end = \<lparr>it_page = None, it_pos = 0, it_gpos = 0\<rparr>"

definition it_init :: "viter \<Rightarrow> nat \<Rightarrow> nat \<Rightarrow> nat \<Rightarrow> viter" where
  "it_init it i pos gp = it\<lparr>it_page := Some i, it_pos := pos, it_gpos := gp\<rparr>"

definition it_eq :: "viter \<Rightarrow> viter \<Rightarrow> bool" where
  "it_eq it other \<longleftrightarrow> (if it_page it = it_page other \<and> it_gpos it = it_gpos other then True else False)"

definition it_step :: "'a inpvec \<Rightarrow> viter \<Rightarrow> viter" where
  "it_step v it =
     (case it_page it of
        None \<Rightarrow> it\<lparr>it_pos := 0, it_gpos := 0\<rparr>
      | Some b \<Rightarrow>
          if item_is_last (it_pos it) (vpages v ! b)
          then (if b + 1 < length (vpages v)
                then it\<lparr>it_page := Some (b + 1), it_pos := 0, it_gpos := it_gpos it + 1\<rparr>
                else it\<lparr>it_page := None, it_pos := 0, it_gpos := 0\<rparr>)
          else it\<lparr>it_pos := it_pos it + 1, it_gpos := it_gpos it + 1\<rparr>)"

text \<open>The loop of \<^verbatim>\<open>next_used\<close> over the pages from number \<open>b\<close> on, with the variables of the code.\<close>

fun next_used_pages :: "'a page list \<Rightarrow> nat \<Rightarrow> nat \<Rightarrow> nat \<Rightarrow> nat \<Rightarrow> (nat \<times> nat) option \<times> viter" where
  "next_used_pages [] b newpos pos gpos = (None, it_end)"
| "next_used_pages (p # ps) b newpos pos gpos =
     (case item_next_used newpos p of
        (Some np, newpos) \<Rightarrow> (Some (b, np), \<lparr>it_page = Some b, it_pos = newpos, it_gpos = gpos + (newpos - pos)\<rparr>)
      | (None, newpos) \<Rightarrow> next_used_pages ps (b + 1) pos 0 (gpos + (page_size p - pos)))"

definition it_next_used :: "'a inpvec \<Rightarrow> viter \<Rightarrow> (nat \<times> nat) option \<times> viter" where
  "it_next_used v it =
     (case it_page it of
        None \<Rightarrow> (None, it_end)
      | Some b \<Rightarrow> next_used_pages (drop b (vpages v)) b (it_pos it) (it_pos it) (it_gpos it))"

definition it_at_end :: "viter \<Rightarrow> bool" where
  "it_at_end it \<longleftrightarrow> it_page it = None \<and> it_pos it = 0"

definition it_deref :: "'a inpvec \<Rightarrow> viter \<Rightarrow> (nat \<times> nat) option" where
  "it_deref v it =
     (case it_page it of
        None \<Rightarrow> None
      | Some b \<Rightarrow> map_option (\<lambda>at. (b, at)) (item_get_ptr (it_pos it) (vpages v ! b)))"

definition it_is_empty :: "'a inpvec \<Rightarrow> viter \<Rightarrow> bool" where
  "it_is_empty v it = (case it_page it of None \<Rightarrow> True | Some b \<Rightarrow> item_is_empty_at (it_pos it) (vpages v ! b))"

definition it_n_free :: "'a inpvec \<Rightarrow> viter \<Rightarrow> nat" where
  "it_n_free v it = (case it_page it of None \<Rightarrow> 0 | Some b \<Rightarrow> item_n_free (vpages v ! b))"

text \<open>Operations through an iterator change its page and the number of items; the results are pointers.\<close>

definition it_free :: "viter \<Rightarrow> 'a inpvec \<Rightarrow> 'a inpvec \<times> 'a option" where
  "it_free it v =
     (case it_page it of
        None \<Rightarrow> (v, None)
      | Some b \<Rightarrow>
          let (p, n, x) = item_destroy_at (it_pos it) (vpages v ! b) (vn_items v)
          in (v\<lparr>vpages := (vpages v)[b := p], vn_items := n\<rparr>, x))"

definition it_construct :: "'a \<Rightarrow> viter \<Rightarrow> 'a inpvec \<Rightarrow> (nat \<times> nat) option \<times> 'a inpvec" where
  "it_construct dflt it v =
     (case it_page it of
        None \<Rightarrow> (None, v)
      | Some b \<Rightarrow>
          let (p, n) = item_construct dflt (it_pos it) (vpages v ! b) (vn_items v)
          in (Some (b, it_pos it), v\<lparr>vpages := (vpages v)[b := p], vn_items := n\<rparr>))"

definition it_set :: "'a \<Rightarrow> viter \<Rightarrow> 'a inpvec \<Rightarrow> (nat \<times> nat) option \<times> 'a inpvec" where
  "it_set t it v =
     (case it_page it of
        None \<Rightarrow> (None, v)
      | Some b \<Rightarrow>
          let (p, n) = item_set (it_pos it) t (vpages v ! b) (vn_items v)
          in (Some (b, it_pos it), v\<lparr>vpages := (vpages v)[b := p], vn_items := n\<rparr>))"

subsection \<open>Operations on a vector\<close>

text \<open>The constructor does not initialise \<^verbatim>\<open>use_exc_\<close>: it is the argument \<open>e\<close>.\<close>

definition vec_new :: "bool \<Rightarrow> 'a inpvec" where
  "vec_new e = \<lparr>vpages = [\<lparr>mul = 1, bmap = [0], slots = replicate 64 None\<rparr>], vn_items = 0, vexc = e\<rparr>"

definition vec_allocate_mul :: "(u32 \<Rightarrow> bool) \<Rightarrow> u32 \<Rightarrow> 'a inpvec \<Rightarrow> 'a inpvec option" where
  "vec_allocate_mul mem m v =
     (case mul_alloc mem m of None \<Rightarrow> None | Some n \<Rightarrow> Some (v\<lparr>vpages := vpages v @ [n]\<rparr>))"

definition vec_allocate :: "(u32 \<Rightarrow> bool) \<Rightarrow> 'a inpvec \<Rightarrow> 'a inpvec option" where
  "vec_allocate mem v = vec_allocate_mul mem (mul (last (vpages v)) + 2) v"

definition vec_begin :: "'a inpvec \<Rightarrow> viter" where
  "vec_begin v = (if vn_items v = 0 then it_end else \<lparr>it_page = Some 0, it_pos = 0, it_gpos = 0\<rparr>)"

fun size_loop :: "'a page list \<Rightarrow> nat \<Rightarrow> nat" where
  "size_loop [] ret = ret"
| "size_loop (p # ps) ret = size_loop ps (ret + page_size p)"

definition vec_size :: "'a inpvec \<Rightarrow> nat" where
  "vec_size v = size_loop (vpages v) 0"

text \<open>
  The loop that finds the page of a position: the page number and the position in the page, or
  \<open>Inr\<close> with the number of slots of all pages.
\<close>

fun locate :: "'a page list \<Rightarrow> nat \<Rightarrow> nat \<Rightarrow> nat \<Rightarrow> (nat \<times> nat) + nat" where
  "locate [] b max_pos pos = Inr max_pos"
| "locate (p # ps) b max_pos pos =
     (let max_pos = max_pos + page_size p
      in if pos \<ge> max_pos then locate ps (b + 1) max_pos pos
         else let px = max_pos - page_size p in Inl (b, pos - px))"

definition iterator_at :: "nat \<Rightarrow> 'a inpvec \<Rightarrow> viter" where
  "iterator_at pos v =
     (if vn_items v = 0 then it_end
      else (case locate (vpages v) 0 0 pos of
              Inl (b, at) \<Rightarrow> \<lparr>it_page = Some b, it_pos = at, it_gpos = pos\<rparr>
            | Inr _ \<Rightarrow> it_end))"

text \<open>\<^verbatim>\<open>mul\<close> in \<^verbatim>\<open>force_iterator_at\<close>, with the cast from 64 to 32 bits.\<close>

definition force_mul :: "'a inpvec \<Rightarrow> nat \<Rightarrow> u32" where
  "force_mul v px =
     (let mul = mul (last (vpages v)) + 2
      in if unat mul < px div 64 + 2 then of_nat (px div 64 + 2) else mul)"

partial_function (option) force_iterator_at :: "(u32 \<Rightarrow> bool) \<Rightarrow> nat \<Rightarrow> 'a inpvec \<Rightarrow> (viter \<times> 'a inpvec) option" where
  "force_iterator_at mem pos v =
     (case locate (vpages v) 0 0 pos of
        Inl (b, at) \<Rightarrow> Some (\<lparr>it_page = Some b, it_pos = at, it_gpos = pos\<rparr>, v)
      | Inr max_pos \<Rightarrow>
          (case vec_allocate_mul mem (force_mul v (pos - max_pos)) v of
             None \<Rightarrow> None
           | Some v \<Rightarrow> force_iterator_at mem pos v))"

text \<open>The variants with an iterator argument overwrite it.\<close>

partial_function (option) force_iterator_at_ii :: "(u32 \<Rightarrow> bool) \<Rightarrow> nat \<Rightarrow> viter \<Rightarrow> 'a inpvec \<Rightarrow> (viter \<times> 'a inpvec) option" where
  "force_iterator_at_ii mem pos ii v =
     (case locate (vpages v) 0 0 pos of
        Inl (b, at) \<Rightarrow> Some (it_init ii b at pos, v)
      | Inr max_pos \<Rightarrow>
          (case vec_allocate_mul mem (force_mul v (pos - max_pos)) v of
             None \<Rightarrow> None
           | Some v \<Rightarrow> force_iterator_at_ii mem pos ii v))"

definition free_at :: "nat \<Rightarrow> 'a inpvec \<Rightarrow> bool \<times> 'a inpvec \<times> 'a option" where
  "free_at pos v =
     (let it = iterator_at pos v
      in if \<not> it_eq it it_end \<and> it_is_empty v it = False then let (v, x) = it_free it v in (True, v, x)
         else (False, v, None))"

definition is_free_at :: "nat \<Rightarrow> 'a inpvec \<Rightarrow> bool" where
  "is_free_at pos v =
     (let it = iterator_at pos v
      in if it_eq it it_end then True else if it_is_empty v it = True then True else False)"

text \<open>The reference \<^verbatim>\<open>get\<close> returns, \<open>None\<close> for raw memory; \<open>Inl\<close> is the exception \<^verbatim>\<open>rs_invalid_param\<close>.\<close>

definition vec_get :: "nat \<Rightarrow> 'a inpvec \<Rightarrow> unit + 'a option" where
  "vec_get at v =
     (case locate (vpages v) 0 0 at of
        Inl (b, pos) \<Rightarrow> Inr (item_get pos (vpages v ! b))
      | Inr _ \<Rightarrow> if vexc v then Inl () else Inr (item_get 0 (last (vpages v))))"

definition vec_get_ptr :: "nat \<Rightarrow> 'a inpvec \<Rightarrow> (nat \<times> nat) option" where
  "vec_get_ptr at v =
     (case locate (vpages v) 0 0 at of
        Inl (b, pos) \<Rightarrow> map_option (\<lambda>at. (b, at)) (item_get_ptr pos (vpages v ! b))
      | Inr _ \<Rightarrow> None)"

definition last_free :: "(u32 \<Rightarrow> bool) \<Rightarrow> 'a inpvec \<Rightarrow> (viter \<times> 'a inpvec) option" where
  "last_free mem v =
     (let m = mul (last (vpages v)) + 2; pos = item_last_free (last (vpages v))
      in if pos = page_size (last (vpages v))
         then let sz = vec_size v
              in (case vec_allocate_mul mem m v of
                    None \<Rightarrow> None
                  | Some v \<Rightarrow> Some (\<lparr>it_page = Some (length (vpages v) - 1), it_pos = item_last_free (last (vpages v)), it_gpos = sz\<rparr>, v))
         else let gp = size_loop (butlast (vpages v)) pos
              in Some (\<lparr>it_page = Some (length (vpages v) - 1), it_pos = pos, it_gpos = gp\<rparr>, v))"

definition last_free_ii :: "(u32 \<Rightarrow> bool) \<Rightarrow> viter \<Rightarrow> 'a inpvec \<Rightarrow> (viter \<times> 'a inpvec) option" where
  "last_free_ii mem ii v =
     (let m = mul (last (vpages v)) + 2; pos = item_last_free (last (vpages v))
      in if pos = page_size (last (vpages v))
         then let sz = vec_size v
              in (case vec_allocate_mul mem m v of
                    None \<Rightarrow> None
                  | Some v \<Rightarrow> Some (it_init ii (length (vpages v) - 1) (item_last_free (last (vpages v))) sz, v))
         else let gp = size_loop (butlast (vpages v)) pos
              in Some (it_init ii (length (vpages v) - 1) pos gp, v))"

definition last_free_pos :: "'a inpvec \<Rightarrow> nat" where
  "last_free_pos v = size_loop (butlast (vpages v)) (item_last_free (last (vpages v)))"

text \<open>
  The page loop of \<^verbatim>\<open>first_free\<close>: the page, if it is not null at the end, \<^verbatim>\<open>f\<close> and \<^verbatim>\<open>pos\<close>.
\<close>

fun first_free_pages :: "'a page list \<Rightarrow> nat \<Rightarrow> nat \<Rightarrow> nat option \<times> nat \<times> nat" where
  "first_free_pages [] b pos = (None, 0, pos)"
| "first_free_pages (p # ps) b pos =
     (let f = item_first_free p; pos = pos + f
      in if f \<noteq> page_size p then (Some b, f, pos) else first_free_pages ps (b + 1) pos)"

definition first_free :: "(u32 \<Rightarrow> bool) \<Rightarrow> 'a inpvec \<Rightarrow> (viter \<times> 'a inpvec) option" where
  "first_free mem v =
     (let m = mul (last (vpages v)) + 2
      in (case first_free_pages (vpages v) 0 0 of
            (None, f, pos) \<Rightarrow>
              let sz = vec_size v
              in (case vec_allocate_mul mem m v of
                    None \<Rightarrow> None
                  | Some v \<Rightarrow> Some (\<lparr>it_page = Some (length (vpages v) - 1), it_pos = 0, it_gpos = sz\<rparr>, v))
          | (Some b, f, pos) \<Rightarrow> Some (\<lparr>it_page = Some b, it_pos = f, it_gpos = pos\<rparr>, v)))"

definition first_free_ii :: "(u32 \<Rightarrow> bool) \<Rightarrow> viter \<Rightarrow> 'a inpvec \<Rightarrow> (viter \<times> 'a inpvec) option" where
  "first_free_ii mem ii v =
     (let m = mul (last (vpages v)) + 2
      in (case first_free_pages (vpages v) 0 0 of
            (None, f, pos) \<Rightarrow>
              let sz = vec_size v
              in (case vec_allocate_mul mem m v of
                    None \<Rightarrow> None
                  | Some v \<Rightarrow> Some (it_init ii (length (vpages v) - 1) 0 sz, v))
          | (Some b, f, pos) \<Rightarrow> Some (it_init ii b f pos, v)))"

definition first_free_pos :: "'a inpvec \<Rightarrow> nat" where
  "first_free_pos v = (case first_free_pages (vpages v) 0 0 of (p, f, pos) \<Rightarrow> pos)"

text \<open>Deleting the pages behind the first one: each runs the destructors of its objects.\<close>

fun delete_pages :: "'a page list \<Rightarrow> nat \<Rightarrow> 'a list \<Rightarrow> nat \<times> 'a list" where
  "delete_pages [] n dels = (n, dels)"
| "delete_pages (p # ps) n dels = (let (p, n, ds) = item_destroy p n in delete_pages ps n (dels @ ds))"

definition vec_reset :: "'a inpvec \<Rightarrow> 'a inpvec \<times> 'a list" where
  "vec_reset v =
     (let (n, dels) = delete_pages (tl (vpages v)) (vn_items v) [];
          (h, n, ds) = item_destroy (hd (vpages v)) n
      in (v\<lparr>vpages := [h\<lparr>mul := 1, bmap := [0]\<rparr>], vn_items := 0\<rparr>, dels @ ds))"

text \<open>The destructor: the pages behind the first one, then the member \<^verbatim>\<open>head_\<close>.\<close>

definition vec_delete :: "'a inpvec \<Rightarrow> 'a list" where
  "vec_delete v =
     (let (n, dels) = delete_pages (tl (vpages v)) (vn_items v) [];
          (h, n, ds) = item_destroy (hd (vpages v)) n
      in dels @ ds)"

definition iterator_pos :: "viter \<Rightarrow> nat" where
  "iterator_pos it = it_gpos it"

text \<open>\<open>ii\<close> is the iterator variable that the code does not initialise.\<close>

definition vec_set :: "(u32 \<Rightarrow> bool) \<Rightarrow> viter \<Rightarrow> nat \<Rightarrow> 'a \<Rightarrow> 'a inpvec \<Rightarrow> ((nat \<times> nat) option \<times> 'a inpvec) option" where
  "vec_set mem ii pos t v =
     (case force_iterator_at_ii mem pos ii v of None \<Rightarrow> None | Some (it, v) \<Rightarrow> Some (it_set t it v))"

definition vec_push_back :: "(u32 \<Rightarrow> bool) \<Rightarrow> viter \<Rightarrow> 'a \<Rightarrow> 'a inpvec \<Rightarrow> ((nat \<times> nat) option \<times> 'a inpvec) option" where
  "vec_push_back mem ii t v =
     (case last_free_ii mem ii v of None \<Rightarrow> None | Some (it, v) \<Rightarrow> Some (it_set t it v))"

definition vec_construct :: "(u32 \<Rightarrow> bool) \<Rightarrow> 'a \<Rightarrow> viter \<Rightarrow> nat \<Rightarrow> 'a inpvec \<Rightarrow> ((nat \<times> nat) option \<times> 'a inpvec) option" where
  "vec_construct mem dflt ii pos v =
     (case force_iterator_at_ii mem pos ii v of None \<Rightarrow> None | Some (it, v) \<Rightarrow> Some (it_construct dflt it v))"
subsection \<open>Specification\<close>

text \<open>
  The slots of all pages in order, the number of objects in them, and the invariants: a bit is set
  exactly for a constructed object, the first page has 64 slots, and \<^verbatim>\<open>n_items_\<close> counts them. Pages are small enough for the
  32-bit arithmetic on their sizes.
\<close>

definition page_inv :: "'a page \<Rightarrow> bool" where
  "page_inv p \<longleftrightarrow> 0 < unat (mul p) \<and> unat (mul p) < 2 ^ 26 \<and> length (bmap p) = unat (mul p) \<and>
     length (slots p) = unat (mul p) * 64 \<and>
     (\<forall>at < length (slots p). bit (bmap p ! (at div 64)) (at mod 64) \<longleftrightarrow> slots p ! at \<noteq> None)"

definition vslots :: "'a inpvec \<Rightarrow> 'a option list" where
  "vslots v = concat (map slots (vpages v))"

definition filled :: "'a option list \<Rightarrow> nat" where
  "filled xs = length (filter (\<lambda>x. x \<noteq> None) xs)"

definition vec_inv :: "'a inpvec \<Rightarrow> bool" where
  "vec_inv v \<longleftrightarrow> vpages v \<noteq> [] \<and> mul (hd (vpages v)) = 1 \<and> (\<forall>p \<in> set (vpages v). page_inv p) \<and> vn_items v = filled (vslots v)"

text \<open>The global position of slot \<open>at\<close> of page \<open>b\<close>.\<close>

definition gp :: "'a inpvec \<Rightarrow> nat \<times> nat \<Rightarrow> nat" where
  "gp v = (\<lambda>(b, at). length (concat (map slots (take b (vpages v)))) + at)"

subsection \<open>Bits and tables\<close>

lemma test_bit: "test w n = bit w n"
  by (simp add: test_def and_one_eq bit_iff_odd_drop_bit odd_iff_mod_2_eq_one)

lemma byte_of_less: "byte_of w k < 256"
proof -
  have "(0xff :: u64) = mask 8" by (simp add: mask_eq_exp_minus_1)
  then have "byte_of w k = unat (take_bit 8 (drop_bit k w))" by (simp add: byte_of_def take_bit_eq_mask)
  also have "\<dots> = take_bit 8 (unat (drop_bit k w))" by (simp add: unsigned_take_bit_eq)
  finally show ?thesis by (simp add: take_bit_eq_mod)
qed

lemma bit_byte_of: "j < 8 \<Longrightarrow> bit (byte_of w k) j = bit w (k + j)"
proof -
  assume j: "j < 8"
  have m: "(0xff :: u64) = mask 8" by (simp add: mask_eq_exp_minus_1)
  have "byte_of w k = take_bit 8 (unat (drop_bit k w))"
    unfolding byte_of_def m by (simp only: take_bit_eq_mask [symmetric] unsigned_take_bit_eq)
  then show ?thesis using j by (auto simp: bit_take_bit_iff bit_unsigned_iff bit_drop_bit_eq dest: bit_imp_le_length)
qed

text \<open>The tables for \<open>k\<close> bits; the code has them for \<open>k = 8\<close>.\<close>

fun bits_table :: "nat \<Rightarrow> nat list" where
  "bits_table 0 = [0]"
| "bits_table (Suc k) = bits_table k @ map Suc (bits_table k)"

fun last_free_table :: "nat \<Rightarrow> nat list" where
  "last_free_table 0 = [0]"
| "last_free_table (Suc k) = last_free_table k @ replicate (2 ^ k) (k + 1)"

fun last_used_table :: "nat \<Rightarrow> nat list" where
  "last_used_table 0 = [255]"
| "last_used_table (Suc k) = last_used_table k @ replicate (2 ^ k) k"

fun first_free_table :: "nat \<Rightarrow> nat list" where
  "first_free_table 0 = [255]"
| "first_free_table (Suc k) = butlast (first_free_table k) @ [k] @ first_free_table k"

lemma table_unfold:
  "0 < k \<Longrightarrow> bits_table k = bits_table (k - 1) @ map Suc (bits_table (k - 1))"
  "0 < k \<Longrightarrow> last_free_table k = last_free_table (k - 1) @ replicate (2 ^ (k - 1)) k"
  "0 < k \<Longrightarrow> last_used_table k = last_used_table (k - 1) @ replicate (2 ^ (k - 1)) (k - 1)"
  "0 < k \<Longrightarrow> first_free_table k = butlast (first_free_table (k - 1)) @ [k - 1] @ first_free_table (k - 1)"
  "0 < k \<Longrightarrow> replicate k x = x # replicate (k - 1) x"
  by (cases k; simp)+

lemma tables_8:
  "byte_bits = bits_table 8" "byte_last_free = last_free_table 8"
  "byte_last_used = last_used_table 8" "byte_first_free = first_free_table 8"
  by (simp_all add: byte_bits_def byte_last_free_def byte_last_used_def byte_first_free_def table_unfold)

lemma bit_add_exp: "m < 2 ^ k \<Longrightarrow> bit (2 ^ k + m :: nat) j \<longleftrightarrow> j = k \<or> bit m j"
proof -
  assume m: "m < 2 ^ k"
  then have "2 ^ k + m = push_bit k 1 + take_bit k m" by (simp add: push_bit_eq_mult take_bit_nat_eq_self)
  also have "\<dots> = push_bit k 1 OR take_bit k m" by (rule disjunctive_add) (auto simp: bit_simps)
  finally have "2 ^ k + m = push_bit k 1 OR take_bit k m" .
  then show ?thesis using m by (auto simp: bit_simps take_bit_nat_eq_self)
qed

lemma bit_small: "m < 2 ^ k \<Longrightarrow> bit (m :: nat) j \<Longrightarrow> j < k"
  by (metis bit_take_bit_iff take_bit_nat_eq_self)

lemma table_lengths:
  "length (bits_table k) = 2 ^ k" "length (last_free_table k) = 2 ^ k"
  "length (last_used_table k) = 2 ^ k" "length (first_free_table k) = 2 ^ k"
  by (induction k) auto

lemma exp_split:
  assumes "(n :: nat) < 2 ^ Suc k"
  obtains "n < 2 ^ k" | m where "n = 2 ^ k + m" "m < 2 ^ k"
proof (cases "n < 2 ^ k")
  case False
  then show ?thesis using that(2) [of "n - 2 ^ k"] assms by simp
qed (use that in auto)

lemma bits_table: "n < 2 ^ k \<Longrightarrow> bits_table k ! n = card {j. bit n j}"
proof (induction k arbitrary: n)
  case (Suc k)
  from Suc.prems show ?case
  proof (cases rule: exp_split)
    case 1
    then show ?thesis using Suc.IH by (simp add: nth_append table_lengths)
  next
    case (2 m)
    have "{j. bit n j} = insert k {j. bit m j}" using bit_add_exp [OF 2(2)] 2(1) by auto
    moreover have "{j. bit m j} \<subseteq> {..<k}" using bit_small [OF 2(2)] by auto
    moreover from this have "finite {j. bit m j}" "k \<notin> {j. bit m j}" by (auto intro: finite_subset)
    ultimately have "card {j. bit n j} = Suc (card {j. bit m j})" by simp
    then show ?thesis using 2 Suc.IH by (simp add: nth_append table_lengths)
  qed
qed (simp add: bot_fun_def)

lemma last_free_table:
  assumes "n < 2 ^ k"
  shows "last_free_table k ! n \<le> k \<and> (\<forall>j. last_free_table k ! n \<le> j \<longrightarrow> \<not> bit n j) \<and>
    (last_free_table k ! n \<noteq> 0 \<longrightarrow> bit n (last_free_table k ! n - 1)) \<and>
    last_used_table k ! n = (if n = 0 then 255 else last_free_table k ! n - 1)"
  using assms
proof (induction k arbitrary: n)
  case (Suc k)
  from Suc.prems show ?case
  proof (cases rule: exp_split)
    case 1
    then show ?thesis using Suc.IH [of n] by (auto simp: nth_append table_lengths)
  next
    case (2 m)
    then show ?thesis using bit_add_exp [OF 2(2)] bit_small [OF 2(2)] by (fastforce simp: nth_append table_lengths)
  qed
qed simp

lemma first_free_table:
  assumes "n < 2 ^ k"
  shows "if n = 2 ^ k - 1 then first_free_table k ! n = 255 \<and> (\<forall>j < k. bit n j)
    else first_free_table k ! n < k \<and> \<not> bit n (first_free_table k ! n) \<and> (\<forall>j < first_free_table k ! n. bit n j)"
  using assms
proof (induction k arbitrary: n)
  case (Suc k)
  let ?t = "first_free_table k"
  have split: "first_free_table (Suc k) ! n =
      (if n < 2 ^ k - 1 then ?t ! n else if n = 2 ^ k - 1 then k else ?t ! (n - 2 ^ k))"
    using Suc.prems by (auto simp: nth_append table_lengths nth_butlast nth_Cons')
  from Suc.prems show ?case
  proof (cases rule: exp_split)
    case 1
    then have "n \<noteq> 2 ^ Suc k - 1" using zero_less_power [of "2 :: nat" k] by simp
    then show ?thesis using 1 Suc.IH [of n] split bit_small [of n k k] by (auto split: if_splits)
  next
    case (2 m)
    then have "\<not> n < 2 ^ k - 1" "n \<noteq> 2 ^ k - 1" "n - 2 ^ k = m" by auto
    then have "first_free_table (Suc k) ! n = ?t ! m" using split by simp
    moreover have "n = 2 ^ Suc k - 1 \<longleftrightarrow> m = 2 ^ k - 1" using 2 by auto
    ultimately show ?thesis using Suc.IH [OF 2(2)] bit_add_exp [OF 2(2)] 2(1) by (auto simp: less_Suc_eq split: if_splits)
  qed
qed simp
subsection \<open>Searching a bitmap\<close>

definition ub :: "u64 list \<Rightarrow> nat \<Rightarrow> bool" where
  "ub bm at \<longleftrightarrow> bit (bm ! (at div 64)) (at mod 64)"

lemma ub_word: "j < 64 \<Longrightarrow> ub bm (i * 64 + j) = bit (bm ! i) j"
  by (simp add: ub_def)

lemma ub_word': "i * 64 \<le> at \<Longrightarrow> at < i * 64 + 64 \<Longrightarrow> ub bm at = bit (bm ! i) (at - i * 64)"
  using ub_word [of "at - i * 64" bm i] by simp

lemma byte_last_free_ok:
  assumes "y = byte_last_free ! byte_of w k"
  shows "y \<le> 8 \<and> (\<forall>j. y \<le> j \<and> j < 8 \<longrightarrow> \<not> bit w (k + j)) \<and> (y \<noteq> 0 \<longrightarrow> bit w (k + (y - 1)))"
proof -
  have n: "byte_of w k < 2 ^ 8" using byte_of_less [of w k] by simp
  have t: "y = last_free_table 8 ! byte_of w k" using assms tables_8(2) by simp
  have "y \<noteq> 0 \<Longrightarrow> y - 1 < 8" using last_free_table [OF n] t by linarith
  then show ?thesis using last_free_table [OF n] t bit_byte_of [of _ w k] by metis
qed

lemma byte_first_free_ok:
  assumes "x = byte_first_free ! byte_of w k"
  shows "if x = 255 then \<forall>j < 8. bit w (k + j) else x < 8 \<and> \<not> bit w (k + x) \<and> (\<forall>j < x. bit w (k + j))"
proof -
  have n: "byte_of w k < 2 ^ 8" using byte_of_less [of w k] by simp
  have t: "x = first_free_table 8 ! byte_of w k" using assms tables_8(4) by simp
  have "(\<forall>j < 8. bit (byte_of w k) j) \<or> x < 8 \<and> \<not> bit (byte_of w k) x \<and> (\<forall>j < x. bit (byte_of w k) j)"
    using first_free_table [OF n] t by metis
  moreover have "x = 255 \<longleftrightarrow> byte_of w k = 2 ^ 8 - 1" using first_free_table [OF n] t by (auto split: if_splits)
  ultimately show ?thesis using first_free_table [OF n] t bit_byte_of [of _ w k] by (auto split: if_splits)
qed

lemma last_free_bytes_ok:
  assumes "last_free_bytes (rev (map ((*) 8) [0..<m])) w i ret = (r, b)"
  shows "if b then \<exists>q. r = i * 64 + q \<and> 0 < q \<and> q \<le> 8 * m \<and> bit w (q - 1) \<and> (\<forall>j. q \<le> j \<and> j < 8 * m \<longrightarrow> \<not> bit w j)
    else \<forall>j < 8 * m. \<not> bit w j"
  using assms
proof (induction m arbitrary: ret)
  case (Suc m)
  define y where "y = byte_last_free ! byte_of w (8 * m)"
  note ok = byte_last_free_ok [OF y_def]
  have hi: "\<not> bit w j" if "8 * m + y \<le> j" "j < 8 * Suc m" for j
  proof -
    define d where "d = j - 8 * m"
    then have "j = 8 * m + d" "y \<le> d" "d < 8" using that by auto
    then show ?thesis using ok by auto
  qed
  show ?case
  proof (cases "y = 0")
    case True
    then have c: "last_free_bytes (rev (map ((*) 8) [0..<m])) w i (i * 64 + 8 * m) = (r, b)"
      using Suc.prems by (simp add: y_def)
    have lo: "(\<forall>j < 8 * m. \<not> bit w j) \<Longrightarrow> \<forall>j < 8 * Suc m. \<not> bit w j" using hi True by (auto simp: not_less [symmetric])
    show ?thesis
    proof (cases b)
      case True
      then obtain q where q: "r = i * 64 + q" "0 < q" "q \<le> 8 * m" "bit w (q - 1)" "\<forall>j. q \<le> j \<and> j < 8 * m \<longrightarrow> \<not> bit w j"
        using Suc.IH [OF c] by auto
      moreover have "\<forall>j. q \<le> j \<and> j < 8 * Suc m \<longrightarrow> \<not> bit w j" using q(5) hi \<open>y = 0\<close> by (auto simp: not_less [symmetric])
      ultimately show ?thesis using True by auto
    next
      case False
      then show ?thesis using Suc.IH [OF c] lo by simp
    qed
  next
    case False
    then have "r = i * 64 + (8 * m + y)" b using Suc.prems by (simp_all add: y_def [symmetric])
    then show ?thesis using ok hi False by (intro iffD2 [OF if_P] exI [of _ "8 * m + y"]) auto
  qed
qed simp

lemma first_free_bytes_ok:
  assumes "first_free_bytes (map ((*) 8) [a..<8]) w i ret = (r, b)" and "a \<le> 8"
  shows "if b then \<exists>q. r = i * 64 + q \<and> 8 * a \<le> q \<and> q < 64 \<and> \<not> bit w q \<and> (\<forall>j. 8 * a \<le> j \<and> j < q \<longrightarrow> bit w j)
    else \<forall>j. 8 * a \<le> j \<and> j < 64 \<longrightarrow> bit w j"
  using assms
proof (induction "8 - a" arbitrary: a ret)
  case (Suc n)
  then have a: "a < 8" by simp
  define x where "x = byte_first_free ! byte_of w (8 * a)"
  note ok = byte_first_free_ok [OF x_def]
  have e: "[a..<8] = a # [Suc a..<8]" using a by (simp add: upt_conv_Cons)
  show ?case
  proof (cases "x = 255")
    case True
    then have c: "first_free_bytes (map ((*) 8) [Suc a..<8]) w i (i * 64 + 8 * a) = (r, b)"
      using Suc.prems e by (simp add: x_def)
    have lo: "bit w j" if "8 * a \<le> j" "j < 8 * Suc a" for j
      using ok [unfolded True if_P [OF refl], rule_format, of "j - 8 * a"] that by auto
    have "8 - Suc a = n" "Suc a \<le> 8" using Suc.hyps(2) a by auto
    note IH = Suc.hyps(1) [OF _ c] 
    have ih: "if b then \<exists>q. r = i * 64 + q \<and> 8 * Suc a \<le> q \<and> q < 64 \<and> \<not> bit w q \<and> (\<forall>j. 8 * Suc a \<le> j \<and> j < q \<longrightarrow> bit w j)
        else \<forall>j. 8 * Suc a \<le> j \<and> j < 64 \<longrightarrow> bit w j"
      by (rule IH) (use \<open>8 - Suc a = n\<close> \<open>Suc a \<le> 8\<close> in auto)
    show ?thesis
    proof (cases b)
      case True
      then obtain q where q: "r = i * 64 + q" "8 * Suc a \<le> q" "q < 64" "\<not> bit w q" "\<forall>j. 8 * Suc a \<le> j \<and> j < q \<longrightarrow> bit w j"
        using ih by auto
      moreover have "\<forall>j. 8 * a \<le> j \<and> j < q \<longrightarrow> bit w j" using q(5) lo by (auto simp: not_less [symmetric])
      ultimately show ?thesis using True by (intro iffD2 [OF if_P] exI [of _ q]) auto
    next
      case False
      then show ?thesis using ih lo by (auto simp: not_less [symmetric])
    qed
  next
    case False
    then have r: "r = i * 64 + (8 * a + x)" b using Suc.prems e by (simp_all add: x_def [symmetric])
    have "bit w j" if "8 * a \<le> j" "j < 8 * a + x" for j
      using ok False that spec [of "\<lambda>j. j < x \<longrightarrow> bit w (8 * a + j)" "j - 8 * a"] by auto
    then show ?thesis using r ok False a by (intro iffD2 [OF if_P] exI [of _ "8 * a + x"]) auto
  qed
qed auto
lemma last_free_loop_ok:
  "r = last_free_loop bm i (i * 64) \<Longrightarrow>
     r \<le> i * 64 \<and> (\<forall>at. r \<le> at \<and> at < i * 64 \<longrightarrow> \<not> ub bm at) \<and> (r \<noteq> 0 \<longrightarrow> ub bm (r - 1))"
proof (induction i)
  case (Suc i)
  let ?w = "bm ! i"
  have top: "\<not> ub bm at" if "i * 64 + q \<le> at" "at < Suc i * 64" "\<forall>j. q \<le> j \<and> j < 64 \<longrightarrow> \<not> bit ?w j" for at q
  proof -
    have "q \<le> at - i * 64" "at - i * 64 < 64" "i * 64 \<le> at" using that(1,2) by auto
    then show ?thesis using ub_word' [of i at bm] that by auto
  qed
  show ?case
  proof (cases "?w = 0")
    case True
    then have "r = last_free_loop bm i (i * 64)" using Suc.prems by simp
    from Suc.IH [OF this] show ?thesis using top [of 0] True by (auto simp: not_less [symmetric])
  next
    case False
    have e: "[56, 48, 40, 32, 24, 16, 8, 0 :: nat] = rev (map ((*) 8) [0..<8])" by (simp add: upt_rec)
    obtain r' b where lb: "last_free_bytes [56, 48, 40, 32, 24, 16, 8, 0] ?w i (Suc i * 64) = (r', b)" by fastforce
    note ok = last_free_bytes_ok [OF lb [unfolded e]]
    have b
    proof (rule ccontr)
      assume "\<not> b"
      then have "?w = 0" using ok by (intro bit_word_eqI) simp
      then show False using False by simp
    qed
    then obtain q where q: "r' = i * 64 + q" "0 < q" "q \<le> 64" "bit ?w (q - 1)" "\<forall>j. q \<le> j \<and> j < 64 \<longrightarrow> \<not> bit ?w j"
      using ok by auto
    have "r = r'" using Suc.prems False lb \<open>b\<close> by simp
    moreover have "ub bm (i * 64 + q - 1)" using ub_word [of "q - 1" bm i] q(2,3,4) by simp
    ultimately show ?thesis using q top [of q] by auto
  qed
qed simp

lemma first_free_loop_ok:
  assumes "r = first_free_loop bm i n ret" and "n = 0 \<Longrightarrow> ret = i * 64"
  shows "i * 64 \<le> r \<and> r \<le> (i + n) * 64 \<and> (\<forall>at. i * 64 \<le> at \<and> at < r \<longrightarrow> ub bm at) \<and> (r < (i + n) * 64 \<longrightarrow> \<not> ub bm r)"
  using assms
proof (induction n arbitrary: i ret)
  case (Suc n)
  let ?w = "bm ! i"
  show ?case
  proof (cases "?w = 0xFFFFFFFFFFFFFFFF")
    case True
    then have r: "r = first_free_loop bm (i + 1) n ((i + 1) * 64)" using Suc.prems by simp
    have "?w = mask 64" using True by (simp add: mask_eq_exp_minus_1)
    then have all: "bit ?w j" if "j < 64" for j using that by (simp add: bit_mask_iff)
    have "ub bm at" if "i * 64 \<le> at" "at < (i + 1) * 64" for at using ub_word' [of i at bm] that all by auto
    then show ?thesis using Suc.IH [OF r] by (auto simp: not_less [symmetric])
  next
    case False
    have e: "[0, 8, 16, 24, 32, 40, 48, 56 :: nat] = map ((*) 8) [0..<8]" by (simp add: upt_rec)
    obtain r' b where fb: "first_free_bytes [0, 8, 16, 24, 32, 40, 48, 56] ?w i ret = (r', b)" by fastforce
    note ok = first_free_bytes_ok [OF fb [unfolded e]]
    have b
    proof (rule ccontr)
      assume "\<not> b"
      then have "\<forall>j < 64. bit ?w j" using ok by simp
      then have "?w = mask 64" by (intro bit_word_eqI) (simp add: bit_mask_iff)
      then show False using False by (simp add: mask_eq_exp_minus_1)
    qed
    then obtain q where q: "r' = i * 64 + q" "q < 64" "\<not> bit ?w q" "\<forall>j. j < q \<longrightarrow> bit ?w j"
      using ok by auto
    have "r = r'" using Suc.prems False fb \<open>b\<close> by simp
    moreover have "\<not> ub bm (i * 64 + q)" using ub_word [of q bm i] q by simp
    moreover have "ub bm at" if "i * 64 \<le> at" "at < i * 64 + q" for at using ub_word' [of i at bm] that q by auto
    ultimately show ?thesis using q by auto
  qed
qed auto

lemma card_byte: "card {j. j < k + 8 \<and> bit w j} = card {j. j < k \<and> bit w j} + byte_bits ! byte_of w k"
proof -
  have n: "byte_of w k < 2 ^ 8" using byte_of_less [of w k] by simp
  have "byte_bits ! byte_of w k = card {j. bit (byte_of w k) j}" using bits_table [OF n] by (simp add: tables_8)
  also have "{j. bit (byte_of w k) j} = {j. j < 8 \<and> bit w (k + j)}"
    using bit_byte_of [of _ w k] bit_small [OF n] by auto
  also have "card \<dots> = card ((+) k ` {j. j < 8 \<and> bit w (k + j)})" by (simp add: card_image)
  also have "(+) k ` {j. j < 8 \<and> bit w (k + j)} = {j. k \<le> j \<and> j < k + 8 \<and> bit w j}"
    by (auto simp: image_iff intro: exI [of _ "_ - k"] le_add_diff_inverse [symmetric])
  finally have "byte_bits ! byte_of w k = card {j. k \<le> j \<and> j < k + 8 \<and> bit w j}" .
  moreover have "{j. j < k + 8 \<and> bit w j} = {j. j < k \<and> bit w j} \<union> {j. k \<le> j \<and> j < k + 8 \<and> bit w j}" by auto
  moreover have "card ({j. j < k \<and> bit w j} \<union> {j. k \<le> j \<and> j < k + 8 \<and> bit w j}) =
      card {j. j < k \<and> bit w j} + card {j. k \<le> j \<and> j < k + 8 \<and> bit w j}"
    by (rule card_Un_disjoint) auto
  ultimately show ?thesis by simp
qed

lemma page_size: "page_inv p \<Longrightarrow> page_size p = length (slots p)"
  by (simp add: page_size_def page_inv_def unat_word_ariths)

lemma page_ub: "page_inv p \<Longrightarrow> at < length (slots p) \<Longrightarrow> ub (bmap p) at \<longleftrightarrow> slots p ! at \<noteq> None"
  by (simp add: page_inv_def ub_def)

lemma item_last_free_ok:
  assumes "page_inv p"
  shows "item_last_free p \<le> length (slots p)" and "item_last_free p \<le> at \<Longrightarrow> at < length (slots p) \<Longrightarrow> slots p ! at = None"
    and "item_last_free p \<noteq> 0 \<Longrightarrow> slots p ! (item_last_free p - 1) \<noteq> None"
proof -
  have e: "item_last_free p = last_free_loop (bmap p) (unat (mul p)) (unat (mul p) * 64)" "unat (mul p) * 64 = length (slots p)"
    using assms page_size [OF assms] by (simp_all add: item_last_free_def page_inv_def)
  note ok = last_free_loop_ok [OF e(1), unfolded e(2)]
  show "item_last_free p \<le> length (slots p)" using ok by simp
  show "slots p ! at = None" if "item_last_free p \<le> at" "at < length (slots p)" using ok that page_ub [OF assms] by blast
  show "slots p ! (item_last_free p - 1) \<noteq> None" if "item_last_free p \<noteq> 0"
    using ok that page_ub [OF assms, of "item_last_free p - 1"] by auto
qed

lemma item_first_free_ok:
  assumes "page_inv p"
  shows "item_first_free p \<le> length (slots p)" and "at < item_first_free p \<Longrightarrow> slots p ! at \<noteq> None"
    and "item_first_free p < length (slots p) \<Longrightarrow> slots p ! item_first_free p = None"
proof -
  have e: "item_first_free p = first_free_loop (bmap p) 0 (unat (mul p)) (page_size p)" "unat (mul p) * 64 = length (slots p)" "unat (mul p) \<noteq> 0"
    using assms by (simp_all add: item_first_free_def page_inv_def)
  have ok: "item_first_free p \<le> length (slots p) \<and> (\<forall>at < item_first_free p. ub (bmap p) at) \<and>
      (item_first_free p < length (slots p) \<longrightarrow> \<not> ub (bmap p) (item_first_free p))"
    using first_free_loop_ok [OF e(1)] e(2,3) by simp
  show "item_first_free p \<le> length (slots p)" using ok by simp
  show "slots p ! at \<noteq> None" if "at < item_first_free p" using ok that page_ub [OF assms, of at] by auto
  show "slots p ! item_first_free p = None" if "item_first_free p < length (slots p)"
    using ok that page_ub [OF assms] by blast
qed
subsection \<open>Pages\<close>

lemma word_count:
  "byte_bits ! byte_of w 0 + byte_bits ! byte_of w 8 + byte_bits ! byte_of w 16 + byte_bits ! byte_of w 24 +
   byte_bits ! byte_of w 32 + byte_bits ! byte_of w 40 + byte_bits ! byte_of w 48 + byte_bits ! byte_of w 56 =
   card {j. j < 64 \<and> bit w j}"
  using card_byte [of 0 w] card_byte [of 8 w] card_byte [of 16 w] card_byte [of 24 w]
    card_byte [of 32 w] card_byte [of 40 w] card_byte [of 48 w] card_byte [of 56 w] by simp

lemma n_items_foldl:
  "foldl (\<lambda>ret w. ret + byte_bits ! byte_of w 0 + byte_bits ! byte_of w 8 + byte_bits ! byte_of w 16
                       + byte_bits ! byte_of w 24 + byte_bits ! byte_of w 32 + byte_bits ! byte_of w 40
                       + byte_bits ! byte_of w 48 + byte_bits ! byte_of w 56) a ws
   = a + (\<Sum>w\<leftarrow>ws. card {j. j < 64 \<and> bit w j})"
proof (induction ws arbitrary: a)
  case (Cons w ws)
  then show ?case using word_count [of w] by simp
qed simp

lemma card_ub: "card {at. at < m * 64 \<and> ub bm at} = (\<Sum>i < m. card {j. j < 64 \<and> bit (bm ! i) j})"
proof (induction m)
  case (Suc m)
  have "{at. at < Suc m * 64 \<and> ub bm at} = {at. at < m * 64 \<and> ub bm at} \<union> (+) (m * 64) ` {j. j < 64 \<and> bit (bm ! m) j}"
    (is "_ = ?a \<union> ?b")
  proof (intro set_eqI)
    fix at
    have "at \<in> ?b \<longleftrightarrow> m * 64 \<le> at \<and> at < m * 64 + 64 \<and> ub bm at"
      using ub_word' [of m at bm] by (auto simp: image_iff ub_word intro: exI [of _ "at - m * 64"])
    then show "at \<in> {at. at < Suc m * 64 \<and> ub bm at} \<longleftrightarrow> at \<in> ?a \<union> ?b" by auto
  qed
  moreover have "card (?a \<union> ?b) = card ?a + card ?b" by (rule card_Un_disjoint) auto
  moreover have "card ?b = card {j. j < 64 \<and> bit (bm ! m) j}" by (simp add: card_image)
  ultimately show ?case using Suc by simp
qed simp

lemma item_n_items_ok: "page_inv p \<Longrightarrow> item_n_items p = filled (slots p)"
proof -
  assume p: "page_inv p"
  have "item_n_items p = (\<Sum>i < unat (mul p). card {j. j < 64 \<and> bit (bmap p ! i) j})"
    using p by (simp add: item_n_items_def n_items_foldl page_inv_def sum_list_sum_nth atLeast0LessThan)
  also have "\<dots> = card {at. at < length (slots p) \<and> ub (bmap p) at}" using p card_ub by (simp add: page_inv_def)
  also have "{at. at < length (slots p) \<and> ub (bmap p) at} = {at. at < length (slots p) \<and> slots p ! at \<noteq> None}"
    using page_ub [OF p] by auto
  finally show ?thesis by (simp add: filled_def length_filter_conv_card)
qed

lemma filled_update:
  "at < length xs \<Longrightarrow> filled (xs[at := Some t]) = filled xs + (if xs ! at = None then 1 else 0)"
  "at < length xs \<Longrightarrow> filled (xs[at := None]) = filled xs - (if xs ! at = None then 0 else 1)"
  "at < length xs \<Longrightarrow> xs ! at \<noteq> None \<Longrightarrow> 0 < filled xs"
proof -
  assume at: "at < length xs"
  have f: "filled (take at xs @ y # drop (Suc at) xs) = filled (take at xs) + (if y = None then 0 else 1) + filled (drop (Suc at) xs)" for y
    by (simp add: filled_def)
  have xs: "filled xs = filled (take at xs) + (if xs ! at = None then 0 else 1) + filled (drop (Suc at) xs)"
    using f [of "xs ! at"] at by (simp add: id_take_nth_drop [symmetric])
  show "filled (xs[at := Some t]) = filled xs + (if xs ! at = None then 1 else 0)"
    "filled (xs[at := None]) = filled xs - (if xs ! at = None then 0 else 1)"
    using at xs f by (simp_all add: upd_conv_take_nth_drop)
  show "0 < filled xs" if "xs ! at \<noteq> None" using that xs by auto
qed

lemma same_index: "(a :: nat) div 64 = at div 64 \<and> a mod 64 = at mod 64 \<longleftrightarrow> a = at"
  by (metis div_mult_mod_eq)

lemma ub_set:
  "at div 64 < length bm \<Longrightarrow> ub (bm[at div 64 := bm ! (at div 64) OR push_bit (at mod 64) 1]) a \<longleftrightarrow> a = at \<or> ub bm a"
  using same_index [of a at] by (auto simp: ub_def nth_list_update bit_simps)

lemma ub_clear:
  "at div 64 < length bm \<Longrightarrow> ub (bm[at div 64 := bm ! (at div 64) AND NOT (push_bit (at mod 64) 1)]) a \<longleftrightarrow> a \<noteq> at \<and> ub bm a"
  using same_index [of a at] by (auto simp: ub_def nth_list_update bit_simps)

lemma page_inv_ub:
  "page_inv p \<longleftrightarrow> 0 < unat (mul p) \<and> unat (mul p) < 2 ^ 26 \<and> length (bmap p) = unat (mul p) \<and>
     length (slots p) = unat (mul p) * 64 \<and> (\<forall>at < length (slots p). ub (bmap p) at \<longleftrightarrow> slots p ! at \<noteq> None)"
  by (simp add: page_inv_def ub_def)

lemma page_index: "page_inv p \<Longrightarrow> at < length (slots p) \<Longrightarrow> at div 64 < length (bmap p)"
  by (simp add: page_inv_def less_mult_imp_div_less)

lemma test_ub: "test (bm ! (at div 64)) (at mod 64) = ub bm at"
  by (simp add: test_bit ub_def)

lemma item_set_ok:
  assumes "page_inv p" and "at < length (slots p)"
  shows "\<exists>p'. item_set at t p n = (p', n + (if slots p ! at = None then 1 else 0)) \<and> page_inv p' \<and>
    slots p' = (slots p)[at := Some t] \<and> mul p' = mul p"
proof -
  have u: "test (bmap p ! (at div 64)) (at mod 64) \<longleftrightarrow> slots p ! at \<noteq> None" using page_ub [OF assms] by (simp add: test_ub)
  have "page_inv (p\<lparr>slots := (slots p)[at := Some t], bmap := (bmap p)[at div 64 := bmap p ! (at div 64) OR push_bit (at mod 64) 1]\<rparr>)"
    using assms ub_set [OF page_index [OF assms]] by (auto simp: page_inv_ub nth_list_update)
  moreover have "page_inv (p\<lparr>slots := (slots p)[at := Some t]\<rparr>)" if "slots p ! at \<noteq> None"
    using assms that by (auto simp: page_inv_ub nth_list_update)
  ultimately show ?thesis using u by (auto simp: item_set_def Let_def)
qed

lemma item_construct_eq:
  assumes "page_inv p" and "at < length (slots p)"
  shows "item_construct dflt at p n = (if slots p ! at = None then item_set at dflt p n else (p, n))"
  using page_ub [OF assms] by (simp add: item_construct_def item_set_def Let_def test_ub)

lemma item_destroy_at_ok:
  assumes "page_inv p" and "at < length (slots p)"
  shows "\<exists>p'. item_destroy_at at p n = (p', n - (if slots p ! at = None then 0 else 1), slots p ! at) \<and> page_inv p' \<and>
    slots p' = (slots p)[at := None] \<and> mul p' = mul p"
proof -
  have u: "test (bmap p ! (at div 64)) (at mod 64) \<longleftrightarrow> slots p ! at \<noteq> None" using page_ub [OF assms] by (simp add: test_ub)
  have "page_inv (p\<lparr>slots := (slots p)[at := None], bmap := (bmap p)[at div 64 := bmap p ! (at div 64) AND NOT (push_bit (at mod 64) 1)]\<rparr>)"
    using assms ub_clear [OF page_index [OF assms]] by (auto simp: page_inv_ub nth_list_update)
  moreover have "(slots p)[at := None] = slots p" if "slots p ! at = None" using that list_update_id [of "slots p" at] by simp
  ultimately show ?thesis using u assms(1) by (auto simp: item_destroy_at_def Let_def)
qed
definition objects :: "'a option list \<Rightarrow> 'a list" where
  "objects xs = map the (filter (\<lambda>x. x \<noteq> None) xs)"

lemma objects_simps: "objects [] = []" "objects (x # xs) = (case x of None \<Rightarrow> objects xs | Some y \<Rightarrow> y # objects xs)"
    "objects (xs @ ys) = objects xs @ objects ys" "filled [] = 0" "filled (x # xs) = (if x = None then 0 else 1) + filled xs"
    "filled (xs @ ys) = filled xs + filled ys"
  by (auto simp: objects_def filled_def split: option.splits)

lemma destroy_word_ok:
  assumes "distinct js" and "\<And>j. j \<in> set js \<Longrightarrow> j < 64 \<and> i * 64 + j < length (slots p) \<and> (ub (bmap p) (i * 64 + j) \<longleftrightarrow> slots p ! (i * 64 + j) \<noteq> None)"
  shows "\<exists>p'. destroy_word js i p n dels = (p', n - filled (map (\<lambda>j. slots p ! (i * 64 + j)) js), dels @ objects (map (\<lambda>j. slots p ! (i * 64 + j)) js)) \<and>
    bmap p' = bmap p \<and> mul p' = mul p \<and> length (slots p') = length (slots p) \<and>
    (\<forall>a < length (slots p). slots p' ! a = (if a \<in> (\<lambda>j. i * 64 + j) ` set js then None else slots p ! a))"
  using assms
proof (induction js arbitrary: p n dels)
  case (Cons j js)
  have j: "j < 64" "i * 64 + j < length (slots p)" "test (bmap p ! i) j \<longleftrightarrow> slots p ! (i * 64 + j) \<noteq> None" "j \<notin> set js" "distinct js"
    using Cons.prems(1) Cons.prems(2) [of j] ub_word [of j "bmap p" i] by (simp_all add: test_bit)
  show ?case
  proof (cases "slots p ! (i * 64 + j)")
    case None
    then show ?thesis using Cons.IH [of p n dels] Cons.prems j by (auto simp: objects_simps)
  next
    case (Some x)
    let ?q = "p\<lparr>slots := (slots p)[i * 64 + j := None]\<rparr>"
    have ne: "slots ?q ! (i * 64 + k) = slots p ! (i * 64 + k)" if "k \<in> set js" for k
    proof -
      have "j \<noteq> k" using j(4) that by blast
      then show ?thesis by simp
    qed
    have m: "map (\<lambda>j. slots ?q ! (i * 64 + j)) js = map (\<lambda>j. slots p ! (i * 64 + j)) js"
      using ne by simp
    have "\<And>k. k \<in> set js \<Longrightarrow> k < 64 \<and> i * 64 + k < length (slots ?q) \<and> (ub (bmap ?q) (i * 64 + k) \<longleftrightarrow> slots ?q ! (i * 64 + k) \<noteq> None)"
      using Cons.prems(2) ne by simp
    from Cons.IH [OF j(5) this, of "n - 1" "dels @ [x]", unfolded m] obtain p' where
      p': "destroy_word js i ?q (n - 1) (dels @ [x]) = (p', n - 1 - filled (map (\<lambda>j. slots p ! (i * 64 + j)) js), (dels @ [x]) @ objects (map (\<lambda>j. slots p ! (i * 64 + j)) js))"
        "bmap p' = bmap p" "mul p' = mul p" "length (slots p') = length (slots p)"
        "\<forall>a < length (slots p). slots p' ! a = (if a \<in> (\<lambda>j. i * 64 + j) ` set js then None else slots ?q ! a)" by auto
    then show ?thesis using j Some by (auto simp: objects_simps nth_list_update)
  qed
qed (simp add: objects_simps)

lemma destroy_word_zero: "bmap p ! i = 0 \<Longrightarrow> destroy_word js i p n dels = (p, n, dels)"
  by (induction js) (simp_all add: test_bit)

lemma take_drop_nth: "i * 64 + 64 \<le> length xs \<Longrightarrow> take 64 (drop (i * 64) xs) = map (\<lambda>j. xs ! (i * 64 + j)) [0..<64]"
  by (rule nth_equalityI) auto

lemma destroy_loop_ok:
  assumes "length (slots p) = b * 64" and "a \<le> b" and "\<And>k. a * 64 \<le> k \<Longrightarrow> k < b * 64 \<Longrightarrow> ub (bmap p) k \<longleftrightarrow> slots p ! k \<noteq> None"
  shows "\<exists>p'. destroy_loop [a..<b] p n dels = (p', n - filled (drop (a * 64) (slots p)), dels @ objects (drop (a * 64) (slots p))) \<and>
    slots p' = take (a * 64) (slots p) @ replicate (b * 64 - a * 64) None \<and> mul p' = mul p"
  using assms
proof (induction "b - a" arbitrary: a p n dels)
  case 0
  then show ?case by (simp add: objects_simps)
next
  case (Suc d)
  then have ab: "a < b" by simp
  let ?c = "map (\<lambda>j. slots p ! (a * 64 + j)) [0..<64]"
  have bd: "a * 64 + 64 \<le> length (slots p)" using Suc.prems(1) ab by (simp flip: mult_Suc)
  have js: "\<And>j. j \<in> set [0..<64] \<Longrightarrow> j < 64 \<and> a * 64 + j < length (slots p) \<and> (ub (bmap p) (a * 64 + j) \<longleftrightarrow> slots p ! (a * 64 + j) \<noteq> None)"
    using Suc.prems(1,3) bd by auto
  obtain p1 where p1: "destroy_word [0..<64] a p n dels = (p1, n - filled ?c, dels @ objects ?c)" "bmap p1 = bmap p" "mul p1 = mul p"
      "length (slots p1) = length (slots p)" "\<forall>k < length (slots p). slots p1 ! k = (if k \<in> (\<lambda>j. a * 64 + j) ` set [0..<64] then None else slots p ! k)"
    using destroy_word_ok [OF distinct_upt js] by blast
  have img: "k \<in> (\<lambda>j. a * 64 + j) ` set [0..<64] \<longleftrightarrow> a * 64 \<le> k \<and> k < a * 64 + 64" for k
    by (auto simp: image_iff intro: bexI [of _ "k - a * 64"])
  have loop: "destroy_loop [a..<b] p n dels = destroy_loop [Suc a..<b] p1 (n - filled ?c) (dels @ objects ?c)"
    using p1(1) ab destroy_word_zero [of p a "[0..<64]" n dels] by (auto simp: upt_conv_Cons)
  have rest: "drop (Suc a * 64) (slots p1) = drop (Suc a * 64) (slots p)" "take (a * 64) (slots p1) = take (a * 64) (slots p)"
    using p1(4,5) img by (auto intro!: nth_equalityI)
  have tk: "take (Suc a * 64) (slots p1) = take (a * 64) (slots p) @ replicate 64 None"
    using p1(4,5) img bd by (auto intro!: nth_equalityI simp: nth_append)
  have dr: "drop (a * 64) (slots p) = ?c @ drop (Suc a * 64) (slots p)"
    using take_drop_nth [OF bd] append_take_drop_id [of 64 "drop (a * 64) (slots p)"] by (simp add: add.commute)
  have "\<And>k. Suc a * 64 \<le> k \<Longrightarrow> k < b * 64 \<Longrightarrow> ub (bmap p1) k \<longleftrightarrow> slots p1 ! k \<noteq> None"
    using Suc.prems p1(2,5) img by auto
  moreover have "d = b - Suc a" "length (slots p1) = b * 64" "Suc a \<le> b" using Suc.hyps(2) Suc.prems(1) p1(4) ab by auto
  ultimately obtain p' where p': "destroy_loop [Suc a..<b] p1 (n - filled ?c) (dels @ objects ?c) =
      (p', n - filled ?c - filled (drop (Suc a * 64) (slots p1)), (dels @ objects ?c) @ objects (drop (Suc a * 64) (slots p1)))"
      "slots p' = take (Suc a * 64) (slots p1) @ replicate (b * 64 - Suc a * 64) None" "mul p' = mul p1"
    using Suc.hyps(1) [of "Suc a" p1 "n - filled ?c" "dels @ objects ?c"] by blast
  have "replicate 64 None @ replicate (b * 64 - Suc a * 64) None = replicate (b * 64 - a * 64) (None :: 'a option)"
    using bd Suc.prems(1) by (simp flip: replicate_add)
  then show ?case using loop rest p1(3) p' tk dr by (simp add: objects_simps)
qed

lemma item_destroy_ok:
  assumes "page_inv p"
  shows "\<exists>p'. item_destroy p n = (p', n - filled (slots p), objects (slots p)) \<and>
    slots p' = replicate (length (slots p)) None \<and> mul p' = mul p"
  using destroy_loop_ok [of p "unat (mul p)" 0 n "[]"] assms by (auto simp: item_destroy_def page_inv_ub)

end
