(* ===== verification/Inpvec_Correct.thy ===== *)
theory Inpvec_Correct
  imports Inpvec "HOL-Library.Multiset"
begin

section \<open>Correctness of in-place vectors\<close>

text \<open>
  The vector operations refine those on the list of all slots: \<open>vslots\<close>. The lemmas go from
  finding the page of a position over the single operations to the iterators.
\<close>

subsection \<open>Pages and positions\<close>

lemma concat_nth:
  assumes "c < length ps" and "at < length (f (ps ! c))"
  shows "length (concat (map f (take c ps))) + at < length (concat (map f ps))"
    and "concat (map f ps) ! (length (concat (map f (take c ps))) + at) = f (ps ! c) ! at"
proof -
  have "concat (map f ps) = concat (map f (take c ps)) @ f (ps ! c) @ concat (map f (drop (Suc c) ps))"
    using arg_cong [OF id_take_nth_drop [OF assms(1)], of "\<lambda>xs. concat (map f xs)"] by simp
  then show "length (concat (map f (take c ps))) + at < length (concat (map f ps))"
    and "concat (map f ps) ! (length (concat (map f (take c ps))) + at) = f (ps ! c) ! at"
    using assms(2) by (simp_all add: nth_append)
qed

lemma concat_update:
  assumes "c < length ps" and "at < length (f (ps ! c))" and "f p' = (f (ps ! c))[at := x]"
  shows "concat (map f (ps[c := p'])) = (concat (map f ps))[length (concat (map f (take c ps))) + at := x]"
proof -
  have "concat (map f ps) = concat (map f (take c ps)) @ f (ps ! c) @ concat (map f (drop (Suc c) ps))"
    using arg_cong [OF id_take_nth_drop [OF assms(1)], of "\<lambda>xs. concat (map f xs)"] by simp
  then show ?thesis using assms by (simp add: upd_conv_take_nth_drop [OF assms(1)] list_update_append)
qed

lemma locate_in:
  assumes "\<forall>p \<in> set ps. page_inv p" and "m \<le> pos" and "pos < m + length (concat (map slots ps))"
  shows "\<exists>c at. locate ps b m pos = Inl (b + c, at) \<and> c < length ps \<and> at < length (slots (ps ! c)) \<and>
    pos = m + length (concat (map slots (take c ps))) + at"
  using assms
proof (induction ps arbitrary: b m)
  case (Cons p ps)
  have sz: "page_size p = length (slots p)" using Cons.prems(1) by (simp add: page_size)
  show ?case
  proof (cases "pos < m + length (slots p)")
    case True
    then show ?thesis using Cons.prems(2) sz by (intro exI [of _ 0] exI [of _ "pos - m"]) (auto simp: Let_def)
  next
    case False
    then obtain c at where "locate ps (b + 1) (m + length (slots p)) pos = Inl (b + 1 + c, at)" "c < length ps"
        "at < length (slots (ps ! c))" "pos = m + length (slots p) + length (concat (map slots (take c ps))) + at"
      using Cons.IH [of "m + length (slots p)" "b + 1"] Cons.prems by auto
    then show ?thesis using False sz by (intro exI [of _ "Suc c"] exI [of _ at]) (auto simp: Let_def)
  qed
qed simp

lemma locate_out:
  "\<forall>p \<in> set ps. page_inv p \<Longrightarrow> m + length (concat (map slots ps)) \<le> pos \<Longrightarrow> locate ps b m pos = Inr (m + length (concat (map slots ps)))"
proof (induction ps arbitrary: b m)
  case (Cons p ps)
  then show ?case using Cons.IH [of "m + length (slots p)" "b + 1"] by (auto simp: page_size Let_def)
qed simp

text \<open>Pointers into a vector, and the shape that they depend on.\<close>

definition ptr_ok :: "'a inpvec \<Rightarrow> nat \<times> nat \<Rightarrow> bool" where
  "ptr_ok v = (\<lambda>(b, at). b < length (vpages v) \<and> at < length (slots (vpages v ! b)))"

definition shape :: "'a inpvec \<Rightarrow> nat list" where
  "shape v = map (\<lambda>p. length (slots p)) (vpages v)"

lemma gp_shape: "gp v (b, at) = sum_list (take b (shape v)) + at"
  by (simp add: gp_def shape_def length_concat take_map comp_def)

lemma ptr_ok_shape: "ptr_ok v (b, at) \<longleftrightarrow> b < length (shape v) \<and> at < shape v ! b"
  by (auto simp: ptr_ok_def shape_def)

lemma ptr_slot:
  assumes "ptr_ok v (b, at)"
  shows "gp v (b, at) < length (vslots v)" and "vslots v ! gp v (b, at) = slots (vpages v ! b) ! at"
  using assms concat_nth [of b "vpages v" at slots] by (simp_all add: ptr_ok_def gp_def vslots_def)

lemma vec_locate:
  assumes "vec_inv v"
  shows "pos < length (vslots v) \<Longrightarrow> \<exists>b at. locate (vpages v) 0 0 pos = Inl (b, at) \<and> ptr_ok v (b, at) \<and> gp v (b, at) = pos"
    and "length (vslots v) \<le> pos \<Longrightarrow> locate (vpages v) 0 0 pos = Inr (length (vslots v))"
  using locate_in [of "vpages v" 0 pos 0] locate_out [of "vpages v" 0 pos 0] assms
  by (auto simp: vec_inv_def vslots_def ptr_ok_def gp_def)

lemma size_loop_eq: "\<forall>p \<in> set ps. page_inv p \<Longrightarrow> size_loop ps n = n + length (concat (map slots ps))"
  by (induction ps arbitrary: n) (simp_all add: page_size)

lemma vec_size_eq: "vec_inv v \<Longrightarrow> vec_size v = length (vslots v)"
  by (simp add: vec_size_def size_loop_eq vec_inv_def vslots_def)

lemma vec_page: "vec_inv v \<Longrightarrow> ptr_ok v (b, at) \<Longrightarrow> page_inv (vpages v ! b)"
  by (simp add: vec_inv_def ptr_ok_def)

text \<open>An operation on one page that changes one slot.\<close>

lemma page_update:
  assumes "vec_inv v" and "ptr_ok v (b, at)" and "page_inv p'" and "slots p' = (slots (vpages v ! b))[at := x]"
    and "mul p' = mul (vpages v ! b)" and "n = filled ((vslots v)[gp v (b, at) := x])"
  shows "vec_inv (v\<lparr>vpages := (vpages v)[b := p'], vn_items := n\<rparr>)"
    and "vslots (v\<lparr>vpages := (vpages v)[b := p'], vn_items := n\<rparr>) = (vslots v)[gp v (b, at) := x]"
    and "shape (v\<lparr>vpages := (vpages v)[b := p'], vn_items := n\<rparr>) = shape v"
proof -
  have b: "b < length (vpages v)" "at < length (slots (vpages v ! b))" using assms(2) by (simp_all add: ptr_ok_def)
  show s: "vslots (v\<lparr>vpages := (vpages v)[b := p'], vn_items := n\<rparr>) = (vslots v)[gp v (b, at) := x]"
    using concat_update [OF b assms(4)] by (simp add: vslots_def gp_def)
  show "vec_inv (v\<lparr>vpages := (vpages v)[b := p'], vn_items := n\<rparr>)"
    using assms(1,3,5,6) s b by (cases b) (auto simp: vec_inv_def hd_conv_nth dest!: set_update_subset_insert [THEN subsetD])
  show "shape (v\<lparr>vpages := (vpages v)[b := p'], vn_items := n\<rparr>) = shape v"
    using assms(4) by (simp add: shape_def map_update list_update_same_conv b)
qed

lemma it_set_ok:
  assumes "vec_inv v" and "it_page it = Some b" and "ptr_ok v (b, it_pos it)"
  shows "\<exists>v'. it_set t it v = (Some (b, it_pos it), v') \<and> vec_inv v' \<and> vslots v' = (vslots v)[gp v (b, it_pos it) := Some t] \<and>
    shape v' = shape v \<and> vexc v' = vexc v"
proof -
  let ?at = "it_pos it" and ?p = "vpages v ! b"
  have at: "?at < length (slots ?p)" using assms(3) by (simp add: ptr_ok_def)
  obtain p' where p': "item_set ?at t ?p (vn_items v) = (p', vn_items v + (if slots ?p ! ?at = None then 1 else 0))"
      "page_inv p'" "slots p' = (slots ?p)[?at := Some t]" "mul p' = mul ?p"
    using item_set_ok [OF vec_page [OF assms(1,3)] at] by blast
  have n: "vn_items v + (if slots ?p ! ?at = None then 1 else 0) = filled ((vslots v)[gp v (b, ?at) := Some t])"
    using assms(1) ptr_slot [OF assms(3)] by (simp add: filled_update vec_inv_def)
  show ?thesis using p'(1) page_update [OF assms(1,3) p'(2,3,4) n] assms(2) by (simp add: it_set_def)
qed

lemma it_free_ok:
  assumes "vec_inv v" and "it_page it = Some b" and "ptr_ok v (b, it_pos it)"
  shows "\<exists>v'. it_free it v = (v', vslots v ! gp v (b, it_pos it)) \<and> vec_inv v' \<and> vslots v' = (vslots v)[gp v (b, it_pos it) := None] \<and>
    shape v' = shape v \<and> vexc v' = vexc v"
proof -
  let ?at = "it_pos it" and ?p = "vpages v ! b"
  have at: "?at < length (slots ?p)" using assms(3) by (simp add: ptr_ok_def)
  obtain p' where p': "item_destroy_at ?at ?p (vn_items v) = (p', vn_items v - (if slots ?p ! ?at = None then 0 else 1), slots ?p ! ?at)"
      "page_inv p'" "slots p' = (slots ?p)[?at := None]" "mul p' = mul ?p"
    using item_destroy_at_ok [OF vec_page [OF assms(1,3)] at] by blast
  have n: "vn_items v - (if slots ?p ! ?at = None then 0 else 1) = filled ((vslots v)[gp v (b, ?at) := None])"
    using assms(1) ptr_slot [OF assms(3)] by (simp add: filled_update vec_inv_def)
  show ?thesis using p'(1) page_update [OF assms(1,3) p'(2,3,4) n] assms(2) ptr_slot [OF assms(3)] by (simp add: it_free_def)
qed

lemma it_construct_eq:
  assumes "vec_inv v" and "it_page it = Some b" and "ptr_ok v (b, it_pos it)"
  shows "it_construct dflt it v = (if vslots v ! gp v (b, it_pos it) = None then it_set dflt it v else (Some (b, it_pos it), v))"
proof -
  have "it_pos it < length (slots (vpages v ! b))" using assms(3) by (simp add: ptr_ok_def)
  from item_construct_eq [OF vec_page [OF assms(1,3)] this]
  show ?thesis using assms(2) ptr_slot [OF assms(3)] by (auto simp: it_construct_def it_set_def)
qed

subsection \<open>Growing\<close>

lemma vec_allocate_ok:
  assumes "vec_inv v" and "mem m" and "0 < unat m" and "unat m < 2 ^ 26"
  shows "\<exists>v' q. vec_allocate_mul mem m v = Some v' \<and> vec_inv v' \<and> vpages v' = vpages v @ [q] \<and> mul q = m \<and>
    slots q = replicate (unat m * 64) None \<and> vslots v' = vslots v @ replicate (unat m * 64) None \<and>
    shape v' = shape v @ [unat m * 64] \<and> vexc v' = vexc v"
proof -
  let ?q = "\<lparr>mul = m, bmap = replicate (unat m) 0, slots = replicate (unat m * 64) None\<rparr> :: 'a page"
  have "mul_alloc mem m = Some ?q" using assms(2,4) by (simp add: mul_alloc_def unat_word_ariths)
  moreover have "page_inv ?q" using assms(3,4) by (simp add: page_inv_def less_mult_imp_div_less)
  moreover have "filled (replicate n (None :: 'a option)) = 0" for n by (simp add: filled_def)
  ultimately show ?thesis
    using assms(1) by (auto simp: vec_allocate_mul_def vec_inv_def vslots_def shape_def objects_simps)
qed

text \<open>The vector after some more pages were allocated.\<close>

definition ext :: "'a inpvec \<Rightarrow> 'a inpvec \<Rightarrow> bool" where
  "ext v v' \<longleftrightarrow> vec_inv v' \<and> vexc v' = vexc v \<and>
     (\<exists>xs. shape v' = shape v @ xs \<and> vslots v' = vslots v @ replicate (sum_list xs) None)"

lemma ext_refl: "vec_inv v \<Longrightarrow> ext v v"
  by (simp add: ext_def)

lemma ext_gp: "ext v v' \<Longrightarrow> ptr_ok v (b, at) \<Longrightarrow> ptr_ok v' (b, at) \<and> gp v' (b, at) = gp v (b, at)"
  by (auto simp: ext_def ptr_ok_shape gp_shape nth_append)

lemma shape_sum: "sum_list (shape v) = length (vslots v)"
  by (simp add: shape_def vslots_def length_concat comp_def)

lemma last_ptr:
  assumes "vec_inv v" and "b = length (vpages v) - 1"
  shows "gp v (b, at) = length (vslots v) - length (slots (last (vpages v))) + at"
    and "ptr_ok v (b, at) \<longleftrightarrow> at < length (slots (last (vpages v)))"
    and "length (slots (last (vpages v))) \<le> length (vslots v)" and "0 < length (slots (last (vpages v)))"
proof -
  have ne: "vpages v \<noteq> []" using assms(1) by (simp add: vec_inv_def)
  have "vslots v = concat (map slots (butlast (vpages v))) @ slots (last (vpages v))"
    using arg_cong [OF append_butlast_last_id [OF ne], of "\<lambda>ps. concat (map slots ps)"] by (simp add: vslots_def)
  then show "gp v (b, at) = length (vslots v) - length (slots (last (vpages v))) + at"
    and "length (slots (last (vpages v))) \<le> length (vslots v)"
    using assms(2) by (simp_all add: gp_def butlast_conv_take)
  show "ptr_ok v (b, at) \<longleftrightarrow> at < length (slots (last (vpages v)))" using ne assms(2) by (simp add: ptr_ok_def last_conv_nth)
  have "page_inv (last (vpages v))" using assms(1) ne by (simp add: vec_inv_def)
  then show "0 < length (slots (last (vpages v)))" by (simp add: page_inv_def)
qed

text \<open>Vectors of less than \<open>2^31\<close> slots are far from the limits of the 32-bit numbers.\<close>

lemma tail_mul:
  assumes "vec_inv v" and "length (vslots v) < 2 ^ 31"
  shows "unat (mul (last (vpages v))) * 64 = length (slots (last (vpages v)))"
    and "unat (mul (last (vpages v)) + 2) = unat (mul (last (vpages v))) + 2" and "unat (mul (last (vpages v))) < 2 ^ 25"
proof -
  have p: "page_inv (last (vpages v))" using assms(1) by (simp add: vec_inv_def)
  then show e: "unat (mul (last (vpages v))) * 64 = length (slots (last (vpages v)))" by (simp add: page_inv_def)
  then show l: "unat (mul (last (vpages v))) < 2 ^ 25" using last_ptr(3) [OF assms(1) refl] assms(2) by simp
  then show "unat (mul (last (vpages v)) + 2) = unat (mul (last (vpages v))) + 2" by (simp add: unat_word_ariths)
qed

lemma grow_ok:
  assumes "vec_inv v" and "mem m" and "0 < unat m" and "unat m < 2 ^ 26"
  shows "\<exists>v'. vec_allocate_mul mem m v = Some v' \<and> ext v v' \<and> length (vslots v') = length (vslots v) + unat m * 64 \<and>
    slots (last (vpages v')) = replicate (unat m * 64) None \<and> mul (last (vpages v')) = m \<and> length (vpages v') = length (vpages v) + 1"
  using vec_allocate_ok [of v mem m, OF assms] by (auto simp: ext_def intro: exI [of _ "[unat m * 64]"])

lemma force_mul_ok:
  assumes "vec_inv v" and "length (vslots v) < 2 ^ 31" and "px < 2 ^ 31"
  shows "unat (force_mul v px) = max (unat (mul (last (vpages v))) + 2) (px div 64 + 2)"
proof -
  have "px div 64 + 2 < 2 ^ 26" using assms(3) by simp
  moreover have "unat (of_nat n :: u32) = n" if "n < 2 ^ 26" for n using that by (simp add: unat_of_nat take_bit_nat_eq_self)
  ultimately have "unat (of_nat (px div 64 + 2) :: u32) = px div 64 + 2" by blast
  then show ?thesis using tail_mul [OF assms(1,2)] by (auto simp: force_mul_def Let_def max_def)
qed

lemma force_found:
  assumes "vec_inv v" and "pos < length (vslots v)"
  shows "\<exists>b at. force_iterator_at_ii mem pos ii v = Some (it_init ii b at pos, v) \<and> ptr_ok v (b, at) \<and> gp v (b, at) = pos"
proof -
  obtain b at where "locate (vpages v) 0 0 pos = Inl (b, at)" "ptr_ok v (b, at)" "gp v (b, at) = pos"
    using vec_locate(1) [OF assms] by blast
  moreover from this have "force_iterator_at_ii mem pos ii v = Some (it_init ii b at pos, v)"
    by (subst force_iterator_at_ii.simps) simp
  ultimately show ?thesis by blast
qed

text \<open>The recursion of \<^verbatim>\<open>force_iterator_at\<close> ends after one allocation, if there is memory for it.\<close>

lemma force_ok:
  assumes "vec_inv v" and "length (vslots v) < 2 ^ 31" and "pos < 2 ^ 31"
    and "length (vslots v) \<le> pos \<Longrightarrow> mem (force_mul v (pos - length (vslots v)))"
  shows "\<exists>b at v'. force_iterator_at_ii mem pos ii v = Some (it_init ii b at pos, v') \<and> ext v v' \<and> ptr_ok v' (b, at) \<and> gp v' (b, at) = pos \<and>
    (pos < length (vslots v) \<longrightarrow> v' = v)"
proof (cases "pos < length (vslots v)")
  case True
  then show ?thesis using force_found [OF assms(1) True, of mem ii] ext_refl [OF assms(1)] by auto
next
  case False
  let ?m = "force_mul v (pos - length (vslots v))"
  have m: "unat ?m = max (unat (mul (last (vpages v))) + 2) ((pos - length (vslots v)) div 64 + 2)"
    using force_mul_ok [OF assms(1,2), of "pos - length (vslots v)"] assms(3) by simp
  then have lim: "0 < unat ?m" "unat ?m < 2 ^ 26" using tail_mul(3) [OF assms(1,2)] assms(3) by (auto simp: max_def)
  obtain v' where v': "vec_allocate_mul mem ?m v = Some v'" "ext v v'" "length (vslots v') = length (vslots v) + unat ?m * 64"
    using grow_ok [of v mem ?m, OF assms(1) _ lim] assms(4) False by auto
  have "pos < length (vslots v')"
  proof -
    have "pos - length (vslots v) < unat ?m * 64" using m by (auto simp: max_def)
    then show ?thesis using v'(3) False by simp
  qed
  moreover have "vec_inv v'" using v'(2) by (simp add: ext_def)
  ultimately obtain b at where "force_iterator_at_ii mem pos ii v' = Some (it_init ii b at pos, v')" "ptr_ok v' (b, at)" "gp v' (b, at) = pos"
    using force_found by blast
  moreover have "locate (vpages v) 0 0 pos = Inr (length (vslots v))" using vec_locate(2) [OF assms(1)] False by simp
  ultimately show ?thesis using v'(1,2) False by (subst force_iterator_at_ii.simps) auto
qed

lemma force_no_memory:
  assumes "vec_inv v" and "length (vslots v) \<le> pos" and "\<not> mem (force_mul v (pos - length (vslots v)))"
  shows "force_iterator_at_ii mem pos ii v = None"
  using vec_locate(2) [OF assms(1,2)] assms(3)
  by (subst force_iterator_at_ii.simps) (simp add: vec_allocate_mul_def mul_alloc_def)

lemma set_ok:
  assumes "vec_inv v" and "length (vslots v) < 2 ^ 31" and "pos < 2 ^ 31"
    and "length (vslots v) \<le> pos \<Longrightarrow> mem (force_mul v (pos - length (vslots v)))"
  shows "\<exists>p v1 v'. vec_set mem ii pos t v = Some (Some p, v') \<and> ext v v1 \<and> vec_inv v' \<and> shape v' = shape v1 \<and>
    vslots v' = (vslots v1)[pos := Some t] \<and> pos < length (vslots v1) \<and> ptr_ok v' p \<and> gp v' p = pos \<and> vexc v' = vexc v \<and>
    (pos < length (vslots v) \<longrightarrow> v1 = v)"
proof -
  obtain b at v1 where f: "force_iterator_at_ii mem pos ii v = Some (it_init ii b at pos, v1)" "ext v v1" "ptr_ok v1 (b, at)" "gp v1 (b, at) = pos"
      "pos < length (vslots v) \<longrightarrow> v1 = v"
    using force_ok [where mem = mem, OF assms] by blast
  have "vec_inv v1" using f(2) by (simp add: ext_def)
  from it_set_ok [OF this, of "it_init ii b at pos" b t] obtain v' where
    v': "it_set t (it_init ii b at pos) v1 = (Some (b, at), v')" "vec_inv v'" "vslots v' = (vslots v1)[pos := Some t]" "shape v' = shape v1" "vexc v' = vexc v1"
    using f(3,4) by (auto simp: it_init_def)
  have "pos < length (vslots v1)" using ptr_slot(1) [OF f(3)] f(4) by simp
  then show ?thesis using f v' by (auto simp: vec_set_def ptr_ok_shape gp_shape ext_def)
qed
subsection \<open>Finding free slots\<close>

lemma vslots_last:
  assumes "vec_inv v"
  shows "vslots v = concat (map slots (butlast (vpages v))) @ slots (last (vpages v))"
    and "length (concat (map slots (butlast (vpages v)))) = length (vslots v) - length (slots (last (vpages v)))"
proof -
  have ne: "vpages v \<noteq> []" using assms by (simp add: vec_inv_def)
  show "vslots v = concat (map slots (butlast (vpages v))) @ slots (last (vpages v))"
    using arg_cong [OF append_butlast_last_id [OF ne], of "\<lambda>ps. concat (map slots ps)"] by (simp add: vslots_def)
  then show "length (concat (map slots (butlast (vpages v)))) = length (vslots v) - length (slots (last (vpages v)))" by simp
qed

lemma last_free_pos_ok:
  assumes "vec_inv v"
  shows "last_free_pos v = length (vslots v) - length (slots (last (vpages v))) + item_last_free (last (vpages v))"
    and "last_free_pos v \<le> length (vslots v)" and "last_free_pos v \<le> i \<Longrightarrow> i < length (vslots v) \<Longrightarrow> vslots v ! i = None"
proof -
  have p: "page_inv (last (vpages v))" using assms by (simp add: vec_inv_def)
  have "\<forall>p \<in> set (butlast (vpages v)). page_inv p" using assms by (auto simp: vec_inv_def dest: in_set_butlastD)
  then show e: "last_free_pos v = length (vslots v) - length (slots (last (vpages v))) + item_last_free (last (vpages v))"
    using vslots_last(2) [OF assms] by (simp add: last_free_pos_def size_loop_eq)
  show "last_free_pos v \<le> length (vslots v)"
    using e item_last_free_ok(1) [OF p] last_ptr(3) [OF assms refl] by simp
  show "vslots v ! i = None" if i: "last_free_pos v \<le> i" "i < length (vslots v)"
  proof -
    let ?xs = "concat (map slots (butlast (vpages v)))" and ?ys = "slots (last (vpages v))"
    define k where "k = i - length ?xs"
    have "i = length ?xs + k" "item_last_free (last (vpages v)) \<le> k"
      using i(1) e vslots_last(2) [OF assms] unfolding k_def by simp_all
    moreover have "length (vslots v) = length ?xs + length ?ys" using vslots_last(1) [OF assms] by simp
    ultimately have "k < length ?ys" "(?xs @ ?ys) ! i = ?ys ! k" using i(2) by simp_all
    then show ?thesis using item_last_free_ok(2) [OF p \<open>item_last_free _ \<le> k\<close>] vslots_last(1) [OF assms] by metis
  qed
qed

text \<open>The slot \<^verbatim>\<open>last_free\<close> finds: behind all objects; a page is allocated when the last one is full up to its end.\<close>

lemma last_free_ii_ok:
  assumes "vec_inv v" and "length (vslots v) < 2 ^ 31"
    and "last_free_pos v = length (vslots v) \<Longrightarrow> mem (mul (last (vpages v)) + 2)"
  shows "\<exists>b at v'. last_free_ii mem ii v = Some (it_init ii b at (last_free_pos v), v') \<and> ext v v' \<and> ptr_ok v' (b, at) \<and>
    gp v' (b, at) = last_free_pos v \<and>
    (if last_free_pos v < length (vslots v) then v' = v
     else length (vslots v') = length (vslots v) + unat (mul (last (vpages v)) + 2) * 64 \<and> mul (last (vpages v')) = mul (last (vpages v)) + 2 \<and>
          length (slots (last (vpages v'))) = unat (mul (last (vpages v)) + 2) * 64)"
proof -
  let ?l = "last (vpages v)"
  have p: "page_inv ?l" using assms(1) by (simp add: vec_inv_def)
  have sz: "page_size ?l = length (slots ?l)" using page_size [OF p] .
  note e = last_free_pos_ok(1) [OF assms(1)] and l = last_ptr(3) [OF assms(1) refl]
  show ?thesis
  proof (cases "item_last_free ?l = length (slots ?l)")
    case False
    then have "item_last_free ?l < length (slots ?l)" using item_last_free_ok(1) [OF p] by simp
    moreover have "size_loop (butlast (vpages v)) (item_last_free ?l) = last_free_pos v" by (simp add: last_free_pos_def)
    ultimately show ?thesis
      using False sz e l ext_refl [OF assms(1)] last_ptr(1,2) [OF assms(1) refl]
      by (intro exI [of _ "length (vpages v) - 1"] exI [of _ "item_last_free ?l"] exI [of _ v]) (simp add: last_free_ii_def Let_def)
  next
    case True
    then have full: "last_free_pos v = length (vslots v)" using e l by simp
    have lim: "0 < unat (mul ?l + 2)" "unat (mul ?l + 2) < 2 ^ 26" using tail_mul [OF assms(1,2)] by auto
    obtain v' where v': "vec_allocate_mul mem (mul ?l + 2) v = Some v'" "ext v v'" "length (vslots v') = length (vslots v) + unat (mul ?l + 2) * 64"
        "slots (last (vpages v')) = replicate (unat (mul ?l + 2) * 64) None" "mul (last (vpages v')) = mul ?l + 2"
      using grow_ok [of v mem "mul ?l + 2", OF assms(1) _ lim] assms(3) full by auto
    have i': "vec_inv v'" using v'(2) by (simp add: ext_def)
    then have p': "page_inv (last (vpages v'))" by (simp add: vec_inv_def)
    have "item_last_free (last (vpages v')) = 0"
    proof (rule ccontr)
      assume n: "item_last_free (last (vpages v')) \<noteq> 0"
      then have "item_last_free (last (vpages v')) - 1 < unat (mul ?l + 2) * 64" using item_last_free_ok(1) [OF p'] v'(4) by simp
      then show False using item_last_free_ok(3) [OF p' n] v'(4) by simp
    qed
    then show ?thesis
      using True sz v' full lim last_ptr(1,2) [OF i' refl, of 0] vec_size_eq [OF assms(1)]
      by (intro exI [of _ "length (vpages v') - 1"] exI [of _ 0] exI [of _ v']) (simp add: last_free_ii_def Let_def)
  qed
qed

lemma first_free_pages_ok:
  assumes "\<forall>p \<in> set ps. page_inv p"
  shows "\<exists>o' f q. first_free_pages ps b n = (o', f, n + q) \<and> q \<le> length (concat (map slots ps)) \<and>
    (\<forall>i < q. concat (map slots ps) ! i \<noteq> None) \<and>
    (case o' of None \<Rightarrow> q = length (concat (map slots ps))
     | Some c \<Rightarrow> b \<le> c \<and> c - b < length ps \<and> f < length (slots (ps ! (c - b))) \<and> q = length (concat (map slots (take (c - b) ps))) + f \<and>
         concat (map slots ps) ! q = None)"
  using assms
proof (induction ps arbitrary: b n)
  case (Cons p ps)
  have p: "page_inv p" using Cons.prems by simp
  let ?f = "item_first_free p"
  note ok = item_first_free_ok [OF p]
  show ?case
  proof (cases "?f = length (slots p)")
    case False
    then have "?f < length (slots p)" using ok(1) by simp
    then show ?thesis using False ok page_size [OF p]
      by (intro exI [of _ "Some b"] exI [of _ ?f] exI [of _ ?f]) (auto simp: Let_def nth_append)
  next
    case True
    obtain o' f q where IH: "first_free_pages ps (b + 1) (n + ?f) = (o', f, n + ?f + q)" "q \<le> length (concat (map slots ps))"
        "\<forall>i < q. concat (map slots ps) ! i \<noteq> None"
        "case o' of None \<Rightarrow> q = length (concat (map slots ps))
         | Some c \<Rightarrow> b + 1 \<le> c \<and> c - (b + 1) < length ps \<and> f < length (slots (ps ! (c - (b + 1)))) \<and>
             q = length (concat (map slots (take (c - (b + 1)) ps))) + f \<and> concat (map slots ps) ! q = None"
      using Cons.IH [of "b + 1" "n + ?f"] Cons.prems by auto
    have "first_free_pages (p # ps) b n = (o', f, n + (?f + q))" using True IH(1) page_size [OF p] by (simp add: Let_def add.assoc)
    moreover have "\<forall>i < ?f + q. concat (map slots (p # ps)) ! i \<noteq> None" using True IH(3) ok(2) by (auto simp: nth_append)
    moreover have "case o' of None \<Rightarrow> ?f + q = length (concat (map slots (p # ps)))
         | Some c \<Rightarrow> b \<le> c \<and> c - b < length (p # ps) \<and> f < length (slots ((p # ps) ! (c - b))) \<and>
             ?f + q = length (concat (map slots (take (c - b) (p # ps)))) + f \<and> concat (map slots (p # ps)) ! (?f + q) = None"
    proof (cases o')
      case None
      then show ?thesis using IH(4) True by simp
    next
      case (Some c)
      then have "b + 1 \<le> c" using IH(4) by simp
      then have "c - b = Suc (c - (b + 1))" by simp
      then show ?thesis using IH(4) True Some by (auto simp: nth_append)
    qed
    ultimately show ?thesis using IH(2) True by (intro exI [of _ o'] exI [of _ f] exI [of _ "?f + q"]) simp
  qed
qed simp

lemma vec_first_free:
  assumes "vec_inv v"
  shows "\<exists>o' f. first_free_pages (vpages v) 0 0 = (o', f, first_free_pos v) \<and> first_free_pos v \<le> length (vslots v) \<and>
    (\<forall>i < first_free_pos v. vslots v ! i \<noteq> None) \<and>
    (case o' of None \<Rightarrow> first_free_pos v = length (vslots v)
     | Some c \<Rightarrow> ptr_ok v (c, f) \<and> gp v (c, f) = first_free_pos v \<and> vslots v ! first_free_pos v = None)"
proof -
  have ps: "\<forall>p \<in> set (vpages v). page_inv p" using assms by (simp add: vec_inv_def)
  obtain o' f q where q: "first_free_pages (vpages v) 0 0 = (o', f, 0 + q)" "q \<le> length (concat (map slots (vpages v)))"
      "\<forall>i < q. concat (map slots (vpages v)) ! i \<noteq> None"
      "case o' of None \<Rightarrow> q = length (concat (map slots (vpages v)))
       | Some c \<Rightarrow> 0 \<le> c \<and> c - 0 < length (vpages v) \<and> f < length (slots (vpages v ! (c - 0))) \<and>
           q = length (concat (map slots (take (c - 0) (vpages v)))) + f \<and> concat (map slots (vpages v)) ! q = None"
    using first_free_pages_ok [OF ps, of 0 0] by blast
  then have "first_free_pos v = q" by (simp add: first_free_pos_def)
  then show ?thesis using q by (cases o') (auto simp: vslots_def ptr_ok_def gp_def)
qed

lemma first_free_pos_ok:
  assumes "vec_inv v"
  shows "first_free_pos v \<le> length (vslots v)" and "i < first_free_pos v \<Longrightarrow> vslots v ! i \<noteq> None"
    and "first_free_pos v < length (vslots v) \<Longrightarrow> vslots v ! first_free_pos v = None"
  using vec_first_free [OF assms] by (auto split: option.splits)

lemma first_free_ii_ok:
  assumes "vec_inv v" and "length (vslots v) < 2 ^ 31"
    and "first_free_pos v = length (vslots v) \<Longrightarrow> mem (mul (last (vpages v)) + 2)"
  shows "\<exists>b at v'. first_free_ii mem ii v = Some (it_init ii b at (first_free_pos v), v') \<and> ext v v' \<and> ptr_ok v' (b, at) \<and>
    gp v' (b, at) = first_free_pos v \<and> (first_free_pos v < length (vslots v) \<longrightarrow> v' = v)"
proof -
  obtain o' f where q: "first_free_pages (vpages v) 0 0 = (o', f, first_free_pos v)"
      "case o' of None \<Rightarrow> first_free_pos v = length (vslots v)
       | Some c \<Rightarrow> ptr_ok v (c, f) \<and> gp v (c, f) = first_free_pos v \<and> vslots v ! first_free_pos v = None"
    using vec_first_free [OF assms(1)] by blast
  show ?thesis
  proof (cases o')
    case (Some c)
    then have "ptr_ok v (c, f)" "gp v (c, f) = first_free_pos v" using q(2) by simp_all
    then show ?thesis using q(1) Some ext_refl [OF assms(1)]
      by (intro exI [of _ c] exI [of _ f] exI [of _ v]) (simp add: first_free_ii_def)
  next
    case None
    let ?l = "last (vpages v)"
    have full: "first_free_pos v = length (vslots v)" using q(2) None by simp
    have lim: "0 < unat (mul ?l + 2)" "unat (mul ?l + 2) < 2 ^ 26" using tail_mul [OF assms(1,2)] by auto
    obtain v' where v': "vec_allocate_mul mem (mul ?l + 2) v = Some v'" "ext v v'" "length (vslots v') = length (vslots v) + unat (mul ?l + 2) * 64"
        "slots (last (vpages v')) = replicate (unat (mul ?l + 2) * 64) None"
      using grow_ok [of v mem "mul ?l + 2", OF assms(1) _ lim] assms(3) full by auto
    have i': "vec_inv v'" using v'(2) by (simp add: ext_def)
    show ?thesis
      using q(1) None v' full lim last_ptr(1,2) [OF i' refl, of 0] vec_size_eq [OF assms(1)]
      by (intro exI [of _ "length (vpages v') - 1"] exI [of _ 0] exI [of _ v']) (simp add: first_free_ii_def)
  qed
qed
lemma vec_push_back_ok:
  assumes "vec_inv v" and "length (vslots v) < 2 ^ 31"
    and "last_free_pos v = length (vslots v) \<Longrightarrow> mem (mul (last (vpages v)) + 2)"
  shows "\<exists>p v1 v'. vec_push_back mem ii t v = Some (Some p, v') \<and> ext v v1 \<and> vec_inv v' \<and> shape v' = shape v1 \<and>
    vslots v' = (vslots v1)[last_free_pos v := Some t] \<and> last_free_pos v < length (vslots v1) \<and> ptr_ok v' p \<and>
    gp v' p = last_free_pos v \<and> vexc v' = vexc v \<and>
    (if last_free_pos v < length (vslots v) then v1 = v
     else shape v1 = shape v @ [last (shape v) + 128])"
proof -
  obtain b at v1 where f: "last_free_ii mem ii v = Some (it_init ii b at (last_free_pos v), v1)" "ext v v1" "ptr_ok v1 (b, at)"
      "gp v1 (b, at) = last_free_pos v"
      "if last_free_pos v < length (vslots v) then v1 = v
       else length (vslots v1) = length (vslots v) + unat (mul (last (vpages v)) + 2) * 64 \<and> mul (last (vpages v1)) = mul (last (vpages v)) + 2 \<and>
          length (slots (last (vpages v1))) = unat (mul (last (vpages v)) + 2) * 64"
    using last_free_ii_ok [where mem = mem and ii = ii, OF assms] by blast
  have "vec_inv v1" using f(2) by (simp add: ext_def)
  from it_set_ok [OF this, of "it_init ii b at (last_free_pos v)" b t] obtain v' where
    v': "it_set t (it_init ii b at (last_free_pos v)) v1 = (Some (b, at), v')" "vec_inv v'" "vslots v' = (vslots v1)[last_free_pos v := Some t]"
      "shape v' = shape v1" "vexc v' = vexc v1"
    using f(3,4) by (auto simp: it_init_def)
  have "last_free_pos v < length (vslots v1)" using ptr_slot(1) [OF f(3)] f(4) by simp
  moreover have "shape v1 = shape v @ [last (shape v) + 128]" if "\<not> last_free_pos v < length (vslots v)"
  proof -
    have "v1 \<in> {v1. vec_allocate_mul mem (mul (last (vpages v)) + 2) v = Some v1}"
      using f(1) that last_free_pos_ok [OF assms(1)] item_last_free_ok(1) [of "last (vpages v)"] assms(1) last_ptr(3) [OF assms(1) refl] page_size [of "last (vpages v)"]
      by (auto simp: last_free_ii_def Let_def vec_inv_def split: if_splits option.splits)
    moreover have "last (shape v) = length (slots (last (vpages v)))" using assms(1) by (simp add: shape_def last_map vec_inv_def)
    ultimately show ?thesis using f(5) that tail_mul [OF assms(1,2)]
      by (auto simp: vec_allocate_mul_def shape_def split: option.splits)
  qed
  ultimately show ?thesis using f v' by (auto simp: vec_push_back_def ptr_ok_shape gp_shape ext_def)
qed

text \<open>A sequence of \<^verbatim>\<open>push_back\<close> calls.\<close>

fun push_all :: "(u32 \<Rightarrow> bool) \<Rightarrow> viter \<Rightarrow> 'a list \<Rightarrow> 'a inpvec \<Rightarrow> 'a inpvec option" where
  "push_all mem ii [] v = Some v"
| "push_all mem ii (t # ts) v = (case vec_push_back mem ii t v of None \<Rightarrow> None | Some (p, v) \<Rightarrow> push_all mem ii ts v)"

text \<open>A vector that only \<^verbatim>\<open>push_back\<close> was used on: all slots up to the last object are taken.\<close>

definition packed :: "'a list \<Rightarrow> 'a inpvec \<Rightarrow> bool" where
  "packed us v \<longleftrightarrow> vec_inv v \<and> (\<exists>k. vslots v = map Some us @ replicate k None) \<and>
     sum_list (butlast (shape v)) \<le> length us \<and> last (shape v) \<le> 64 * (2 * length us + 1)"

lemma packed_last_free:
  assumes "packed us v"
  shows "last_free_pos v = length us"
proof -
  have v: "vec_inv v" using assms by (simp add: packed_def)
  obtain k where k: "vslots v = map Some us @ replicate k None" using assms by (auto simp: packed_def)
  let ?l = "last (vpages v)" and ?d = "length (vslots v) - length (slots (last (vpages v)))"
  have p: "page_inv ?l" using v by (simp add: vec_inv_def)
  have d: "?d \<le> length us"
    using assms vslots_last(2) [OF v] by (simp add: packed_def shape_def length_concat map_butlast comp_def)
  have "last_free_pos v \<le> length us"
  proof (rule ccontr)
    assume "\<not> last_free_pos v \<le> length us"
    then have n: "item_last_free ?l \<noteq> 0" and g: "length us < ?d + item_last_free ?l" using last_free_pos_ok(1) [OF v] d by simp_all
    have at: "item_last_free ?l - 1 < length (slots ?l)" using n item_last_free_ok(1) [OF p] by simp
    have "vslots v ! (?d + (item_last_free ?l - 1)) = slots ?l ! (item_last_free ?l - 1)"
      using vslots_last [OF v] by (metis nth_append_length_plus)
    then have "vslots v ! (?d + (item_last_free ?l - 1)) \<noteq> None" using item_last_free_ok(3) [OF p n] by simp
    moreover have "length us \<le> ?d + (item_last_free ?l - 1)" "?d + (item_last_free ?l - 1) < length (vslots v)"
      using n g at last_ptr(3) [OF v refl] by simp_all
    ultimately show False using k by (simp add: nth_append)
  qed
  moreover have "\<not> last_free_pos v < length us"
    using last_free_pos_ok(3) [OF v, of "last_free_pos v"] k by (auto simp: nth_append)
  ultimately show ?thesis by simp
qed

lemma packed_size:
  assumes "packed us v" and "length us < 2 ^ 23"
  shows "length (vslots v) < 2 ^ 31"
proof -
  have "shape v \<noteq> []" using assms by (auto simp: packed_def vec_inv_def shape_def)
  then have "length (vslots v) = sum_list (butlast (shape v)) + last (shape v)"
    by (metis append_butlast_last_id shape_sum sum_list_append sum_list.Cons sum_list.Nil add.right_neutral)
  then show ?thesis using assms by (simp add: packed_def)
qed

lemma packed_push:
  assumes "packed us v" and "length us < 2 ^ 23" and "\<And>m. mem m"
  shows "\<exists>p v'. vec_push_back mem ii t v = Some (Some p, v') \<and> packed (us @ [t]) v' \<and> gp v' p = length us \<and>
    shape v' = (if length us < sum_list (shape v) then shape v else shape v @ [last (shape v) + 128])"
proof -
  have v: "vec_inv v" using assms(1) by (simp add: packed_def)
  obtain k where k: "vslots v = map Some us @ replicate k None" using assms(1) by (auto simp: packed_def)
  have pos: "last_free_pos v = length us" using packed_last_free [OF assms(1)] .
  obtain p v1 v' where p: "vec_push_back mem ii t v = Some (Some p, v')" "ext v v1" "vec_inv v'" "shape v' = shape v1"
      "vslots v' = (vslots v1)[length us := Some t]" "length us < length (vslots v1)" "gp v' p = length us"
      "if length us < length (vslots v) then v1 = v else shape v1 = shape v @ [last (shape v) + 128]"
    using vec_push_back_ok [OF v packed_size [OF assms(1,2)], of mem ii t] assms(3) pos by auto
  obtain j where j: "vslots v1 = map Some us @ replicate (Suc j) None"
  proof -
    obtain xs where "vslots v1 = map Some us @ replicate (k + sum_list xs) None" using p(2) k by (auto simp: ext_def replicate_add)
    then show ?thesis using that [of "k + sum_list xs - 1"] p(6) by (cases "k + sum_list xs") auto
  qed
  have "vslots v' = map Some (us @ [t]) @ replicate j None" using p(5) j by (simp add: list_update_append)
  moreover have "sum_list (butlast (shape v')) \<le> length (us @ [t]) \<and> last (shape v') \<le> 64 * (2 * length (us @ [t]) + 1)"
  proof (cases "length us < length (vslots v)")
    case True
    then show ?thesis using p(4,8) assms(1) by (simp add: packed_def)
  next
    case False
    then have "length (vslots v) = length us" using k by simp
    then show ?thesis using p(4,8) assms(1) False by (simp add: packed_def shape_sum)
  qed
  moreover have "shape v' = (if length us < sum_list (shape v) then shape v else shape v @ [last (shape v) + 128])"
    using p(4,8) by (simp add: shape_sum split: if_splits)
  ultimately show ?thesis using p by (auto simp: packed_def)
qed

lemma packed_new: "packed [] (vec_new e)"
  by (simp add: packed_def vec_new_def vec_inv_def page_inv_def vslots_def shape_def filled_def)

lemma push_all_packed:
  assumes "\<And>m. mem m"
  shows "packed us v \<Longrightarrow> length us + length ts \<le> 2 ^ 23 \<Longrightarrow> \<exists>v'. push_all mem ii ts v = Some v' \<and> packed (us @ ts) v'"
proof (induction ts arbitrary: us v)
  case (Cons t ts)
  then obtain p v1 where "vec_push_back mem ii t v = Some (Some p, v1)" "packed (us @ [t]) v1"
    using packed_push [of us v mem ii t] assms by auto
  then show ?case using Cons.IH [of "us @ [t]" v1] Cons.prems by auto
qed simp

lemma push_all_two_pages:
  assumes "\<And>m. mem m"
  shows "packed us v \<Longrightarrow> shape v = (if length us \<le> 64 then [64] else [64, 192]) \<Longrightarrow> length us + length ts \<le> 256 \<Longrightarrow>
    \<exists>v'. push_all mem ii ts v = Some v' \<and> packed (us @ ts) v' \<and> shape v' = (if length us + length ts \<le> 64 then [64] else [64, 192])"
proof (induction ts arbitrary: us v)
  case (Cons t ts)
  then obtain p v1 where p: "vec_push_back mem ii t v = Some (Some p, v1)" "packed (us @ [t]) v1"
      "shape v1 = (if length us < sum_list (shape v) then shape v else shape v @ [last (shape v) + 128])"
    using packed_push [of us v mem ii t] assms by auto
  then have "shape v1 = (if length (us @ [t]) \<le> 64 then [64] else [64, 192])" using Cons.prems(2,3) by (auto split: if_splits)
  then show ?case using Cons.IH [of "us @ [t]" v1] Cons.prems p by auto
qed simp

lemma new_ok: "vec_inv (vec_new e)" "length (vslots (vec_new e)) < 2 ^ 31" "shape (vec_new e) = [64]"
  using packed_new [of e] by (simp_all add: packed_def) (simp_all add: vec_new_def vslots_def shape_def)
subsection \<open>Looking up and freeing\<close>

lemma iterator_at_ok:
  assumes "vec_inv v"
  shows "pos < length (vslots v) \<Longrightarrow> vn_items v \<noteq> 0 \<Longrightarrow>
      \<exists>b at. iterator_at pos v = \<lparr>it_page = Some b, it_pos = at, it_gpos = pos\<rparr> \<and> ptr_ok v (b, at) \<and> gp v (b, at) = pos"
    and "\<not> pos < length (vslots v) \<or> vn_items v = 0 \<Longrightarrow> iterator_at pos v = it_end"
proof -
  assume "pos < length (vslots v)" and n: "vn_items v \<noteq> 0"
  then obtain b at where "locate (vpages v) 0 0 pos = Inl (b, at)" "ptr_ok v (b, at)" "gp v (b, at) = pos"
    using vec_locate(1) [OF assms] by blast
  then show "\<exists>b at. iterator_at pos v = \<lparr>it_page = Some b, it_pos = at, it_gpos = pos\<rparr> \<and> ptr_ok v (b, at) \<and> gp v (b, at) = pos"
    using n by (intro exI [of _ b] exI [of _ at]) (simp add: iterator_at_def)
next
  assume "\<not> pos < length (vslots v) \<or> vn_items v = 0"
  then show "iterator_at pos v = it_end" using vec_locate(2) [OF assms] by (auto simp: iterator_at_def)
qed

lemma page_test:
  assumes "vec_inv v" and "ptr_ok v (b, at)"
  shows "test (bmap (vpages v ! b) ! (at div 64)) (at mod 64) \<longleftrightarrow> vslots v ! gp v (b, at) \<noteq> None"
proof -
  have "at < length (slots (vpages v ! b))" using assms(2) by (simp add: ptr_ok_def)
  then show ?thesis using page_ub [OF vec_page [OF assms]] ptr_slot(2) [OF assms(2)] by (simp add: test_ub)
qed

lemma it_is_empty_ok:
  assumes "vec_inv v" and "ptr_ok v (b, at)" and "it_page it = Some b" and "it_pos it = at"
  shows "it_is_empty v it \<longleftrightarrow> vslots v ! gp v (b, at) = None"
proof -
  have "at div 64 \<le> unat (mul (vpages v ! b))"
    using page_index [OF vec_page [OF assms(1,2)], of at] assms(2) vec_page [OF assms(1,2)] by (simp add: ptr_ok_def page_inv_def)
  then show ?thesis using page_test [OF assms(1,2)] assms(3,4) by (simp add: it_is_empty_def item_is_empty_at_def Let_def)
qed

lemma no_items: "vec_inv v \<Longrightarrow> vn_items v = 0 \<Longrightarrow> pos < length (vslots v) \<Longrightarrow> vslots v ! pos = None"
  using filled_update(3) [of pos "vslots v"] by (cases "vslots v ! pos") (simp_all add: vec_inv_def)

text \<open>What is at a position of the vector.\<close>

definition look :: "'a inpvec \<Rightarrow> nat \<Rightarrow> 'a option" where
  "look v pos = (if pos < length (vslots v) then vslots v ! pos else None)"

lemma is_free_at_ok: "vec_inv v \<Longrightarrow> is_free_at pos v \<longleftrightarrow> look v pos = None"
proof -
  assume v: "vec_inv v"
  show ?thesis
  proof (cases "pos < length (vslots v) \<and> vn_items v \<noteq> 0")
    case True
    then obtain b at where "iterator_at pos v = \<lparr>it_page = Some b, it_pos = at, it_gpos = pos\<rparr>" "ptr_ok v (b, at)" "gp v (b, at) = pos"
      using iterator_at_ok(1) [OF v] by blast
    then show ?thesis using it_is_empty_ok [OF v, of b at "iterator_at pos v"] True
      by (simp add: is_free_at_def look_def it_eq_def it_end_def)
  next
    case False
    then have "iterator_at pos v = it_end" using iterator_at_ok(2) [OF v] by blast
    then show ?thesis using False no_items [OF v] by (auto simp: is_free_at_def look_def it_eq_def)
  qed
qed

lemma free_at_ok:
  assumes "vec_inv v"
  shows "\<exists>v'. free_at pos v = (look v pos \<noteq> None, v', look v pos) \<and> vec_inv v' \<and> shape v' = shape v \<and> vexc v' = vexc v \<and>
    look v' = (look v)(pos := None)"
proof (cases "look v pos = None")
  case True
  then have "it_eq (iterator_at pos v) it_end \<or> it_is_empty v (iterator_at pos v)"
    using is_free_at_ok [OF assms, of pos] by (auto simp: is_free_at_def Let_def split: if_splits)
  then have "free_at pos v = (False, v, None)" by (auto simp: free_at_def Let_def)
  moreover have "(look v)(pos := None) = look v" using True by (intro fun_upd_idem)
  ultimately show ?thesis using True assms by simp
next
  case False
  then have l: "pos < length (vslots v)" "vslots v ! pos \<noteq> None" by (auto simp: look_def split: if_splits)
  then have "vn_items v \<noteq> 0" using no_items [OF assms, of pos] by (metis (no_types))
  note pos = l(1) this
  let ?it = "iterator_at pos v"
  obtain b at where it: "?it = \<lparr>it_page = Some b, it_pos = at, it_gpos = pos\<rparr>" "ptr_ok v (b, at)" "gp v (b, at) = pos"
    using iterator_at_ok(1) [OF assms pos] by blast
  obtain v' where v': "it_free ?it v = (v', vslots v ! pos)" "vec_inv v'" "vslots v' = (vslots v)[pos := None]" "shape v' = shape v" "vexc v' = vexc v"
    using it_free_ok [OF assms, of ?it b] it by auto
  have "\<not> it_is_empty v ?it" using it_is_empty_ok [OF assms it(2), of ?it] it False pos by (simp add: look_def)
  moreover have "\<not> it_eq ?it it_end" using it(1) by (simp add: it_eq_def it_end_def)
  ultimately have "free_at pos v = (True, v', vslots v ! pos)" using v'(1) by (simp add: free_at_def)
  moreover have "look v' = (look v)(pos := None)" using v'(3) pos(1) by (intro ext) (simp add: look_def nth_list_update)
  moreover have "look v pos = vslots v ! pos" using pos(1) by (simp add: look_def)
  ultimately show ?thesis using v'(2,4,5) False by simp
qed

lemma get_ptr_ok:
  assumes "vec_inv v"
  shows "look v pos = None \<Longrightarrow> vec_get_ptr pos v = None"
    and "look v pos \<noteq> None \<Longrightarrow> \<exists>p. vec_get_ptr pos v = Some p \<and> ptr_ok v p \<and> gp v p = pos"
proof -
  have "if look v pos = None then vec_get_ptr pos v = None else \<exists>p. vec_get_ptr pos v = Some p \<and> ptr_ok v p \<and> gp v p = pos"
  proof (cases "pos < length (vslots v)")
    case True
    then obtain b at where l: "locate (vpages v) 0 0 pos = Inl (b, at)" "ptr_ok v (b, at)" "gp v (b, at) = pos"
      using vec_locate(1) [OF assms] by blast
    then show ?thesis using page_test [OF assms l(2)] True by (auto simp: vec_get_ptr_def item_get_ptr_def look_def)
  next
    case False
    then show ?thesis using vec_locate(2) [OF assms, of pos] by (simp add: vec_get_ptr_def look_def)
  qed
  then show "look v pos = None \<Longrightarrow> vec_get_ptr pos v = None"
    and "look v pos \<noteq> None \<Longrightarrow> \<exists>p. vec_get_ptr pos v = Some p \<and> ptr_ok v p \<and> gp v p = pos" by auto
qed

lemma get_ok:
  assumes "vec_inv v"
  shows "vec_get pos v = (if pos < length (vslots v) then Inr (look v pos) else if vexc v then Inl () else Inr (slots (last (vpages v)) ! 0))"
proof (cases "pos < length (vslots v)")
  case True
  then obtain b at where "locate (vpages v) 0 0 pos = Inl (b, at)" "ptr_ok v (b, at)" "gp v (b, at) = pos"
    using vec_locate(1) [OF assms] by blast
  then show ?thesis using ptr_slot(2) [of v b at] True by (simp add: vec_get_def look_def item_get_def)
next
  case False
  then show ?thesis using vec_locate(2) [OF assms, of pos] by (simp add: vec_get_def item_get_def)
qed

lemma ext_look: "ext v v' \<Longrightarrow> look v' = look v"
  by (auto simp: ext_def look_def nth_append)

lemma look_update: "pos < length (vslots v) \<Longrightarrow> vslots v' = (vslots v)[pos := x] \<Longrightarrow> look v' = (look v)(pos := x)"
  by (auto simp: look_def nth_list_update)

subsection \<open>Destruction\<close>

lemma delete_pages_ok:
  "\<forall>p \<in> set ps. page_inv p \<Longrightarrow> \<exists>n'. delete_pages ps n dels = (n', dels @ objects (concat (map slots ps)))"
proof (induction ps arbitrary: n dels)
  case (Cons p ps)
  then obtain p' where "item_destroy p n = (p', n - filled (slots p), objects (slots p))" using item_destroy_ok [of p n] by auto
  then show ?case using Cons.IH [of "n - filled (slots p)" "dels @ objects (slots p)"] Cons.prems by (simp add: objects_simps)
qed (simp add: objects_simps)

lemma head_page: "vec_inv v \<Longrightarrow> vslots v = slots (hd (vpages v)) @ concat (map slots (tl (vpages v)))"
  by (cases "vpages v") (simp_all add: vec_inv_def vslots_def)

subsection \<open>Iterators\<close>

lemma is_last_ok:
  assumes "page_inv p" and "at < length (slots p)"
  shows "item_is_last at p \<longleftrightarrow> (\<forall>i. at < i \<and> i < length (slots p) \<longrightarrow> slots p ! i = None)"
proof -
  let ?off = "at div 64" and ?m = "unat (mul p)" and ?b = "bmap p"
  have len: "length (slots p) = ?m * 64" using assms(1) by (simp add: page_inv_def)
  have off: "?off < ?m" using assms(2) len by (simp add: less_mult_imp_div_less)
  have at: "at = ?off * 64 + at mod 64" by simp
  have "(\<exists>i. at < i \<and> i < length (slots p) \<and> ub ?b i) \<longleftrightarrow>
      (\<exists>j \<in> set [at mod 64 + 1..<64]. bit (?b ! ?off) j) \<or> (\<exists>i \<in> set [?off + 1..<?m]. \<exists>j \<in> set [0..<64]. bit (?b ! i) j)"
    (is "?l \<longleftrightarrow> ?r1 \<or> ?r2")
  proof
    assume ?l
    then obtain i where i: "at < i" "i < ?m * 64" "ub ?b i" using len by auto
    have "?off \<le> i div 64" using i(1) by (simp add: div_le_mono)
    moreover have "i div 64 < ?m" using i(2) by (simp add: less_mult_imp_div_less)
    moreover have "at mod 64 < i mod 64" if "i div 64 = ?off" using that i(1) at by (metis add_less_cancel_left div_mult_mod_eq)
    ultimately show "?r1 \<or> ?r2" using i(3) by (cases "i div 64 = ?off") (auto simp: ub_def)
  next
    assume "?r1 \<or> ?r2"
    then show ?l
    proof
      assume ?r1
      then obtain j where "at mod 64 < j" "j < 64" "bit (?b ! ?off) j" by (auto simp: Suc_le_eq)
      moreover have "?off * 64 + j < ?m * 64" using off \<open>j < 64\<close> by linarith
      moreover have "at < ?off * 64 + j" using at \<open>at mod 64 < j\<close> by linarith
      ultimately show ?l using at ub_word [of j ?b ?off] len by (intro exI [of _ "?off * 64 + j"]) auto
    next
      assume ?r2
      then obtain i j where "?off < i" "i < ?m" "j < 64" "bit (?b ! i) j" by (auto simp: Suc_le_eq)
      moreover have "at < i * 64 + j" "i * 64 + j < ?m * 64" using calculation at by linarith+
      ultimately show ?l using ub_word [of j ?b i] len by (intro exI [of _ "i * 64 + j"]) auto
    qed
  qed
  moreover have "(?b ! i \<noteq> 0 \<and> (\<exists>j \<in> set [0..<64]. bit (?b ! i) j)) \<longleftrightarrow> (\<exists>j \<in> set [0..<64]. bit (?b ! i) j)" for i by auto
  ultimately have "item_is_last at p \<longleftrightarrow> \<not> (\<exists>i. at < i \<and> i < length (slots p) \<and> ub ?b i)"
    using off by (simp add: item_is_last_def Let_def list_ex_iff test_bit)
  then show ?thesis using page_ub [OF assms(1)] by blast
qed

text \<open>The loop \<^verbatim>\<open>for( it = begin(); it != end(); ++it )\<close>: the pointers \<^verbatim>\<open>*it\<close> it sees.\<close>

partial_function (option) walk :: "'a inpvec \<Rightarrow> viter \<Rightarrow> (nat \<times> nat) option list option" where
  "walk v it =
     (if it_eq it it_end then Some []
      else Option.bind (walk v (it_step v it)) (\<lambda>ps. Some (it_deref v it # ps)))"

definition value_at :: "'a inpvec \<Rightarrow> nat \<times> nat \<Rightarrow> 'a" where
  "value_at v = (\<lambda>(b, at). the (slots (vpages v ! b) ! at))"

lemma objects_none: "(\<And>i. i < length xs \<Longrightarrow> xs ! i = None) \<Longrightarrow> objects xs = []"
  by (auto simp: objects_def filter_empty_conv in_set_conv_nth)

lemma walk_ok:
  assumes "vec_inv v" and "ptr_ok v (b, at)" and "it_page it = Some b" and "it_pos it = at"
  shows "\<exists>ps. walk v it = Some ps \<and>
    map (value_at v) (objects ps) = objects (drop at (slots (vpages v ! b)) @ concat (map slots (drop (b + 1) (vpages v))))"
  using assms(2-)
proof (induction "length (vslots v) - gp v (b, at)" arbitrary: b at it rule: less_induct)
  case less
  let ?p = "vpages v ! b"
  have b: "b < length (vpages v)" "at < length (slots ?p)" using less.prems(1) by (simp_all add: ptr_ok_def)
  have p: "page_inv ?p" using vec_page [OF assms(1) less.prems(1)] .
  have ne: "\<not> it_eq it it_end" using less.prems by (simp add: it_eq_def it_end_def)
  have de: "it_deref v it = (if slots ?p ! at = None then None else Some (b, at))"
    using page_test [OF assms(1) less.prems(1)] ptr_slot(2) [OF less.prems(1)] less.prems by (simp add: it_deref_def item_get_ptr_def Let_def)
  have dr: "drop at (slots ?p) = slots ?p ! at # drop (Suc at) (slots ?p)" using b(2) by (simp add: Cons_nth_drop_Suc)
  have step: "\<exists>ps. walk v it = Some ps \<and> map (value_at v) (objects ps) = objects (slots ?p ! at # xs)"
    if "walk v (it_step v it) = Some qs" "map (value_at v) (objects qs) = objects xs" for qs xs
    using that ne de by (subst walk.simps) (auto simp: objects_simps value_at_def split: option.splits)
  show ?case
  proof (cases "item_is_last at ?p")
    case False
    have at: "ptr_ok v (b, at + 1)"
      using False is_last_ok [OF p b(2)] b by (auto simp: ptr_ok_def)
    have it: "it_page (it_step v it) = Some b" "it_pos (it_step v it) = at + 1" using less.prems False by (simp_all add: it_step_def)
    have "length (vslots v) - gp v (b, at + 1) < length (vslots v) - gp v (b, at)"
      using ptr_slot(1) [OF at] by (simp add: gp_def)
    from less.hyps [OF this at it] step dr show ?thesis by (metis append_Cons Suc_eq_plus1)
  next
    case True
    have none: "objects (drop (Suc at) (slots ?p)) = []"
      by (rule objects_none) (use True is_last_ok [OF p b(2)] in auto)
    show ?thesis
    proof (cases "b + 1 < length (vpages v)")
      case True
      then have at: "ptr_ok v (b + 1, 0)" using assms(1) by (auto simp: ptr_ok_def vec_inv_def page_inv_def)
      have it: "it_page (it_step v it) = Some (b + 1)" "it_pos (it_step v it) = 0"
        using less.prems True \<open>item_is_last at ?p\<close> by (simp_all add: it_step_def)
      have "gp v (b, at) < gp v (b + 1, 0)" using b by (simp add: gp_def take_Suc_conv_app_nth)
      then have "length (vslots v) - gp v (b + 1, 0) < length (vslots v) - gp v (b, at)" using ptr_slot(1) [OF at] by simp
      from less.hyps [OF this at it] obtain qs where qs: "walk v (it_step v it) = Some qs"
          "map (value_at v) (objects qs) = objects (concat (map slots (drop (b + 1) (vpages v))))"
        using True by (auto simp: Cons_nth_drop_Suc [symmetric])
      then have "map (value_at v) (objects qs) = objects (drop (Suc at) (slots ?p) @ concat (map slots (drop (b + 1) (vpages v))))"
        using none by (simp add: objects_simps)
      from step [OF qs(1) this] show ?thesis using dr by simp
    next
      case False
      then have "it_step v it = it_end" using less.prems \<open>item_is_last at ?p\<close> by (simp add: it_step_def it_end_def)
      then have qs: "walk v (it_step v it) = Some []" by (subst walk.simps) (simp add: it_eq_def)
      have "map (value_at v) (objects []) = objects (drop (Suc at) (slots ?p) @ concat (map slots (drop (b + 1) (vpages v))))"
        using none False by (simp add: objects_simps)
      from step [OF qs this] show ?thesis using dr by simp
    qed
  qed
qed
lemma next_used_word_ok:
  "case next_used_word w j of
     None \<Rightarrow> \<forall>k. j \<le> k \<and> k < 64 \<longrightarrow> \<not> bit w k
   | Some k \<Rightarrow> j \<le> k \<and> k < 64 \<and> bit w k \<and> (\<forall>i. j \<le> i \<and> i < k \<longrightarrow> \<not> bit w i)"
proof (induction w j rule: next_used_word.induct)
  case (1 w j)
  have t: "drop_bit j w AND 1 \<noteq> 0 \<longleftrightarrow> bit w j" using test_bit [of w j] by (simp add: test_def)
  have z: "\<not> bit w k" if "drop_bit j w = 0" "j \<le> k" for k
  proof -
    have "bit w k = bit (drop_bit j w) (k - j)" using that(2) by (simp add: bit_drop_bit_eq)
    then show ?thesis using that(1) by simp
  qed
  show ?case
  proof (cases "j < 64 \<and> \<not> bit w j \<and> drop_bit j w \<noteq> 0")
    case True
    then have "next_used_word w j = next_used_word w (j + 1)" using t by (subst next_used_word.simps) simp
    moreover have "case next_used_word w (j + 1) of None \<Rightarrow> \<forall>k. j + 1 \<le> k \<and> k < 64 \<longrightarrow> \<not> bit w k
        | Some k \<Rightarrow> j + 1 \<le> k \<and> k < 64 \<and> bit w k \<and> (\<forall>i. j + 1 \<le> i \<and> i < k \<longrightarrow> \<not> bit w i)"
      using 1 [OF _ refl] True t by simp
    moreover have "j \<le> i \<longleftrightarrow> i = j \<or> j + 1 \<le> i" for i by auto
    ultimately show ?thesis using True by (cases "next_used_word w (j + 1)") auto
  next
    case False
    then show ?thesis using t z by (subst next_used_word.simps) (auto simp: Let_def)
  qed
qed

lemma next_used_loop_ok:
  assumes "pos < 64"
  shows "case next_used_loop bm i n pos of
     None \<Rightarrow> \<forall>k. i * 64 + pos \<le> k \<and> k < (i + n) * 64 \<longrightarrow> \<not> ub bm k
   | Some k \<Rightarrow> i * 64 + pos \<le> k \<and> k < (i + n) * 64 \<and> ub bm k \<and> (\<forall>a. i * 64 + pos \<le> a \<and> a < k \<longrightarrow> \<not> ub bm a)"
  using assms
proof (induction n arbitrary: i pos)
  case (Suc n)
  have word: "ub bm a \<longleftrightarrow> bit (bm ! i) (a - i * 64)" if "i * 64 \<le> a" "a < i * 64 + 64" for a using ub_word' [OF that] .
  show ?case
  proof (cases "if bm ! i = 0 then None else next_used_word (bm ! i) pos")
    case None
    then have eq: "next_used_loop bm i (Suc n) pos = next_used_loop bm (i + 1) n 0" by (simp split: if_splits)
    have clear: "\<not> ub bm a" if "i * 64 + pos \<le> a" "a < (i + 1) * 64" for a
    proof -
      have "pos \<le> a - i * 64" "a - i * 64 < 64" using that by auto
      then have "\<not> bit (bm ! i) (a - i * 64)" using None next_used_word_ok [where w = "bm ! i" and j = pos] by (auto split: if_splits)
      then show ?thesis using word [of a] that by simp
    qed
    show ?thesis
    proof (cases "next_used_loop bm (i + 1) n 0")
      case None
      then show ?thesis using Suc.IH [of 0 "i + 1"] clear eq by (auto simp: not_less [symmetric])
    next
      case (Some k)
      then show ?thesis using Suc.IH [of 0 "i + 1"] clear eq Suc.prems by (auto simp: not_less [symmetric])
    qed
  next
    case (Some j)
    then have "next_used_loop bm i (Suc n) pos = Some (i * 64 + j)" by (simp split: if_splits)
    moreover have j: "pos \<le> j" "j < 64" "bit (bm ! i) j" "\<forall>k. pos \<le> k \<and> k < j \<longrightarrow> \<not> bit (bm ! i) k"
      using Some next_used_word_ok [where w = "bm ! i" and j = pos] by (auto split: if_splits)
    moreover have "\<not> ub bm a" if "i * 64 + pos \<le> a" "a < i * 64 + j" for a
    proof -
      have "pos \<le> a - i * 64" "a - i * 64 < j" using that by auto
      then have "\<not> bit (bm ! i) (a - i * 64)" using j(4) by auto
      then show ?thesis using word [of a] that j(2) by simp
    qed
    ultimately show ?thesis using ub_word [of j bm i] by simp
  qed
qed auto

text \<open>\<^verbatim>\<open>item::next_used\<close> finds the next object of its page.\<close>

lemma item_next_used_ok:
  assumes "page_inv p"
  shows "case item_next_used at p of
     (None, n) \<Rightarrow> n = at + 1 \<and> (\<forall>k. at < k \<and> k < length (slots p) \<longrightarrow> slots p ! k = None)
   | (Some k, n) \<Rightarrow> n = k \<and> at < k \<and> k < length (slots p) \<and> slots p ! k \<noteq> None \<and> (\<forall>i. at < i \<and> i < k \<longrightarrow> slots p ! i = None)"
proof -
  let ?o = "(at + 1) div 64" and ?n = "(at + 1) mod 64" and ?m = "unat (mul p)"
  have len: "length (slots p) = ?m * 64" using assms by (simp add: page_inv_def)
  have at: "?o * 64 + ?n = at + 1" by simp
  have nn: "?n < 64" by simp
  note ok = next_used_loop_ok [OF nn, where bm = "bmap p" and i = ?o and n = "?m - ?o", unfolded at]
  note u = page_ub [OF assms]
  show ?thesis
  proof (cases "next_used_loop (bmap p) ?o (?m - ?o) ?n")
    case None
    have "slots p ! k = None" if "at < k" "k < length (slots p)" for k
    proof (cases "?o \<le> ?m")
      case True
      then show ?thesis using ok None that len u [OF that(2)] by auto
    next
      case False
      have "?o * 64 \<le> k" using at that(1) by linarith
      then show ?thesis using False that(2) len by linarith
    qed
    then show ?thesis using None by (simp add: item_next_used_def)
  next
    case (Some k)
    have "?o \<le> ?m" using Some by (cases "?m - ?o") simp_all
    then show ?thesis using ok Some len u by (auto simp: item_next_used_def Suc_le_eq)
  qed
qed

subsection \<open>Variants with an iterator argument\<close>

lemma it_init_all: "it_init ii b at g = \<lparr>it_page = Some b, it_pos = at, it_gpos = g\<rparr>"
  by (simp add: it_init_def)

lemma ii_variants:
  "first_free_ii mem ii v = first_free mem v" "last_free_ii mem ii v = last_free mem v"
  unfolding first_free_ii_def first_free_def last_free_ii_def last_free_def it_init_all by (rule refl)+

lemma force_ii_variant: "force_iterator_at_ii mem pos ii v = force_iterator_at mem pos v"
proof -
  have "force_iterator_at mem pos v = Some r \<Longrightarrow> force_iterator_at_ii mem pos ii v = Some r" for r
  proof (erule force_iterator_at.raw_induct [rotated])
    fix rc mem pos v r
    assume ih: "\<And>mem pos v r. rc mem pos v = Some r \<Longrightarrow> force_iterator_at_ii mem pos ii v = Some r"
      and r: "(case locate (vpages v) 0 0 pos of
          Inl (b, at) \<Rightarrow> Some (\<lparr>it_page = Some b, it_pos = at, it_gpos = pos\<rparr>, v)
        | Inr max_pos \<Rightarrow> (case vec_allocate_mul mem (force_mul v (pos - max_pos)) v of None \<Rightarrow> None | Some v \<Rightarrow> rc mem pos v)) = Some r"
    from r show "force_iterator_at_ii mem pos ii v = Some r"
      by (subst force_iterator_at_ii.simps) (auto simp: it_init_all ih split: sum.splits prod.splits option.splits)
  qed
  moreover have "force_iterator_at_ii mem pos ii v = Some r \<Longrightarrow> force_iterator_at mem pos v = Some r" for r
  proof (erule force_iterator_at_ii.raw_induct [rotated])
    fix rc mem pos ii v r
    assume ih: "\<And>mem pos ii v r. rc mem pos ii v = Some r \<Longrightarrow> force_iterator_at mem pos v = Some r"
      and r: "(case locate (vpages v) 0 0 pos of
          Inl (b, at) \<Rightarrow> Some (it_init ii b at pos, v)
        | Inr max_pos \<Rightarrow> (case vec_allocate_mul mem (force_mul v (pos - max_pos)) v of None \<Rightarrow> None | Some v \<Rightarrow> rc mem pos ii v)) = Some r"
    from r show "force_iterator_at mem pos v = Some r"
      by (subst force_iterator_at.simps) (auto simp: it_init_all ih split: sum.splits prod.splits option.splits)
  qed
  ultimately show ?thesis by (metis option.exhaust)
qed
subsection \<open>Properties\<close>

lemma n_items_card: "vec_inv v \<Longrightarrow> vn_items v = card (dom (look v))"
proof -
  assume "vec_inv v"
  then have "vn_items v = card {i. i < length (vslots v) \<and> vslots v ! i \<noteq> None}"
    by (simp add: vec_inv_def filled_def length_filter_conv_card)
  also have "{i. i < length (vslots v) \<and> vslots v ! i \<noteq> None} = dom (look v)" by (auto simp: look_def split: if_splits)
  finally show ?thesis .
qed

lemma construct_ok:
  assumes "vec_inv v" and "length (vslots v) < 2 ^ 31" and "pos < 2 ^ 31" and "\<And>m. mem m"
  shows "\<exists>p v'. vec_construct mem dflt ii pos v = Some (Some p, v') \<and> vec_inv v' \<and> ptr_ok v' p \<and> gp v' p = pos \<and>
    look v' = (if look v pos = None then (look v)(pos \<mapsto> dflt) else look v)"
proof -
  obtain b at v1 where f: "force_iterator_at_ii mem pos ii v = Some (it_init ii b at pos, v1)" "ext v v1" "ptr_ok v1 (b, at)" "gp v1 (b, at) = pos"
    using force_ok [OF assms(1-3), of mem ii] assms(4) by blast
  have i: "vec_inv v1" using f(2) by (simp add: ext_def)
  let ?it = "it_init ii b at pos"
  have it: "it_page ?it = Some b" "it_pos ?it = at" by (simp_all add: it_init_def)
  have e: "vec_construct mem dflt ii pos v = Some (if vslots v1 ! pos = None then it_set dflt ?it v1 else (Some (b, at), v1))"
    using it_construct_eq [OF i it(1), of dflt] f it by (simp add: vec_construct_def)
  have pos: "pos < length (vslots v1)" using ptr_slot(1) [OF f(3)] f(4) by simp
  have l: "look v pos = vslots v1 ! pos" using ext_look [OF f(2)] pos by (metis look_def)
  obtain v' where v': "it_set dflt ?it v1 = (Some (b, at), v')" "vec_inv v'" "vslots v' = (vslots v1)[pos := Some dflt]" "shape v' = shape v1"
    using it_set_ok [OF i it(1), of dflt] f(3,4) it(2) by auto
  have "look v' = (look v)(pos \<mapsto> dflt)" using look_update [OF pos v'(3)] ext_look [OF f(2)] by simp
  moreover have "gp v' (b, at) = pos" "ptr_ok v' (b, at)" using v'(4) f(3,4) by (simp_all add: gp_shape ptr_ok_shape)
  ultimately show ?thesis using e l v' i f(3,4) ext_look [OF f(2)] by auto
qed

text \<open>
  The pointers that the operations return, as pairs of a page and an offset in it: \<open>points_at v p pos t\<close>
  says that \<open>p\<close> is the slot of position \<open>pos\<close>, on an existing page and inside it, and that \<open>t\<close> is
  there.
\<close>

definition points_at :: "'a inpvec \<Rightarrow> nat \<times> nat \<Rightarrow> nat \<Rightarrow> 'a \<Rightarrow> bool" where
  "points_at v p pos t \<longleftrightarrow> fst p < length (vpages v) \<and> snd p < length (slots (vpages v ! fst p)) \<and>
     length (concat (map slots (take (fst p) (vpages v)))) + snd p = pos \<and> slots (vpages v ! fst p) ! snd p = Some t"

lemma points_at_iff: "points_at v p pos t \<longleftrightarrow> ptr_ok v p \<and> gp v p = pos \<and> look v pos = Some t"
  using ptr_slot [of v "fst p" "snd p"] by (auto simp: points_at_def ptr_ok_def gp_def look_def case_prod_unfold)

text \<open>
  C10: a vector is a map from positions to objects. \<^verbatim>\<open>set\<close> puts an object at any position, growing the
  vector, in one recursion, when it has to; \<^verbatim>\<open>construct\<close> puts a default one where there is none;
  \<^verbatim>\<open>get_ptr\<close> is the lookup of the map: it returns the pointer to the slot of the position, and the
  object of the map is there, or null when there is none; the pointers that \<^verbatim>\<open>set\<close> and \<^verbatim>\<open>construct\<close>
  return are pointers to the slot of the position, too. \<^verbatim>\<open>free_at\<close> destroys the object at a position,
  if any; \<^verbatim>\<open>is_free_at\<close> tells whether there is none; \<^verbatim>\<open>n_items\<close> counts the objects. No other object
  changes, and the bitmaps agree with the objects.
\<close>

theorem inpvec_refines_map:
  assumes "vec_inv v" and "length (vslots v) < 2 ^ 31" and "pos < 2 ^ 31" and "\<And>m. mem m"
  shows "(\<exists>p v'. vec_set mem ii pos t v = Some (Some p, v') \<and> vec_inv v' \<and> points_at v' p pos t \<and> look v' = (look v)(pos \<mapsto> t)) \<and>
    (\<exists>p v'. vec_construct mem t ii pos v = Some (Some p, v') \<and> vec_inv v' \<and> points_at v' p pos (case look v pos of None \<Rightarrow> t | Some u \<Rightarrow> u) \<and>
       look v' = (if look v pos = None then (look v)(pos \<mapsto> t) else look v)) \<and>
    (\<exists>v'. free_at pos v = (look v pos \<noteq> None, v', look v pos) \<and> vec_inv v' \<and> look v' = (look v)(pos := None)) \<and>
    (case look v pos of None \<Rightarrow> vec_get_ptr pos v = None | Some u \<Rightarrow> \<exists>p. vec_get_ptr pos v = Some p \<and> points_at v p pos u) \<and>
    (is_free_at pos v \<longleftrightarrow> look v pos = None) \<and> vn_items v = card (dom (look v))"
proof (intro conjI)
  obtain p v1 v' where "vec_set mem ii pos t v = Some (Some p, v')" "ext v v1" "vec_inv v'" "vslots v' = (vslots v1)[pos := Some t]"
      "pos < length (vslots v1)" "ptr_ok v' p" "gp v' p = pos"
    using set_ok [OF assms(1-3), of mem ii t] assms(4) by blast
  moreover from this have "look v' = (look v)(pos \<mapsto> t)" using look_update ext_look by metis
  ultimately show "\<exists>p v'. vec_set mem ii pos t v = Some (Some p, v') \<and> vec_inv v' \<and> points_at v' p pos t \<and> look v' = (look v)(pos \<mapsto> t)"
    by (auto simp: points_at_iff)
  show "\<exists>p v'. vec_construct mem t ii pos v = Some (Some p, v') \<and> vec_inv v' \<and> points_at v' p pos (case look v pos of None \<Rightarrow> t | Some u \<Rightarrow> u) \<and>
       look v' = (if look v pos = None then (look v)(pos \<mapsto> t) else look v)"
    using construct_ok [OF assms(1-3), of mem t ii] assms(4) by (fastforce simp: points_at_iff split: option.splits)
  show "\<exists>v'. free_at pos v = (look v pos \<noteq> None, v', look v pos) \<and> vec_inv v' \<and> look v' = (look v)(pos := None)"
    using free_at_ok [OF assms(1), of pos] by blast
  show "case look v pos of None \<Rightarrow> vec_get_ptr pos v = None | Some u \<Rightarrow> \<exists>p. vec_get_ptr pos v = Some p \<and> points_at v p pos u"
    using get_ptr_ok [OF assms(1), of pos] by (auto simp: points_at_iff split: option.splits)
  show "is_free_at pos v \<longleftrightarrow> look v pos = None" using is_free_at_ok [OF assms(1)] .
  show "vn_items v = card (dom (look v))" using n_items_card [OF assms(1)] .
qed

theorem inpvec_refines_map_witness:
  "\<exists>p v'. vec_set (\<lambda>_. True) it_end 1000 (7 :: nat) (vec_new False) = Some (Some p, v') \<and> points_at v' p 1000 7 \<and> look v' 1000 = Some 7"
proof -
  have n: "vec_inv (vec_new False :: nat inpvec)" "length (vslots (vec_new False :: nat inpvec)) < 2 ^ 31" by (rule new_ok)+
  show ?thesis using inpvec_refines_map [OF n, of 1000 "\<lambda>_. True" it_end 7] by auto
qed

text \<open>
  The objects that \<^verbatim>\<open>push_back\<close> puts into a new vector lie at the positions 0, 1, 2 and so on,
  whatever pages they are on, and a loop with \<^verbatim>\<open>++\<close> from \<^verbatim>\<open>begin\<close> to \<^verbatim>\<open>end\<close> ends and sees them in
  this order.
\<close>

theorem inpvec_push_back_iterate:
  assumes "length ts \<le> 2 ^ 23" and "\<And>m. mem m"
  shows "\<exists>v k ps. push_all mem ii ts (vec_new e) = Some v \<and> vec_inv v \<and> vslots v = map Some ts @ replicate k None \<and>
    vn_items v = length ts \<and> walk v (vec_begin v) = Some ps \<and> map (value_at v) (objects ps) = ts"
proof -
  obtain v where v: "push_all mem ii ts (vec_new e) = Some v" "packed ts v"
    using push_all_packed [where mem = mem, OF assms(2) packed_new, of ts ii e] assms(1) by auto
  then obtain k where k: "vec_inv v" "vslots v = map Some ts @ replicate k None" by (auto simp: packed_def)
  have o: "objects (vslots v) = ts" "vn_items v = length ts"
    using k by (simp_all add: objects_def vec_inv_def filled_def filter_map comp_def)
  have "\<exists>ps. walk v (vec_begin v) = Some ps \<and> map (value_at v) (objects ps) = ts"
  proof (cases "ts = []")
    case True
    then have "walk v (vec_begin v) = Some []" using o(2) by (subst walk.simps) (simp add: vec_begin_def it_eq_def)
    then show ?thesis using True by (simp add: objects_simps)
  next
    case False
    let ?b = "vec_begin v"
    have b: "it_page ?b = Some 0" "it_pos ?b = 0" using False o(2) by (simp_all add: vec_begin_def)
    have "ptr_ok v (0, 0)" using k(1) by (auto simp: ptr_ok_def vec_inv_def page_inv_def)
    from walk_ok [OF k(1) this b] obtain ps where ps: "walk v ?b = Some ps"
        "map (value_at v) (objects ps) = objects (drop 0 (slots (vpages v ! 0)) @ concat (map slots (drop (0 + 1) (vpages v))))" by blast
    moreover have "vpages v \<noteq> []" using k(1) by (simp add: vec_inv_def)
    ultimately show ?thesis using o(1) head_page [OF k(1)] by (simp add: hd_conv_nth drop_Suc)
  qed
  then show ?thesis using v(1) k o(2) by blast
qed

theorem inpvec_push_back_iterate_witness:
  "\<exists>v ps. push_all (\<lambda>_. True) it_end [0..<100] (vec_new False) = Some v \<and> walk v (vec_begin v) = Some ps \<and>
     map (value_at v) (objects ps) = [0..<100]"
  using inpvec_push_back_iterate [of "[0..<100]" "\<lambda>_. True" it_end False] by auto

text \<open>
  \<^verbatim>\<open>first_free_pos\<close> is the smallest free position, \<^verbatim>\<open>last_free_pos\<close> is behind all objects, and the
  iterators that \<^verbatim>\<open>first_free\<close> and \<^verbatim>\<open>last_free\<close> return, after they allocated a page if there is no
  such slot, point there; with and without an iterator argument.
\<close>

theorem inpvec_free_slots:
  assumes "vec_inv v" and "length (vslots v) < 2 ^ 31" and "\<And>m. mem m"
  shows "look v (first_free_pos v) = None \<and> (\<forall>i < first_free_pos v. look v i \<noteq> None) \<and> (\<forall>i \<ge> last_free_pos v. look v i = None) \<and>
    (\<exists>b at v'. first_free mem v = Some (\<lparr>it_page = Some b, it_pos = at, it_gpos = first_free_pos v\<rparr>, v') \<and> vec_inv v' \<and> look v' = look v \<and>
       ptr_ok v' (b, at) \<and> gp v' (b, at) = first_free_pos v) \<and>
    (\<exists>b at v'. last_free mem v = Some (\<lparr>it_page = Some b, it_pos = at, it_gpos = last_free_pos v\<rparr>, v') \<and> vec_inv v' \<and> look v' = look v \<and>
       ptr_ok v' (b, at) \<and> gp v' (b, at) = last_free_pos v) \<and>
    first_free_ii mem ii v = first_free mem v \<and> last_free_ii mem ii v = last_free mem v"
proof -
  note ii = ii_variants [of mem it_end v] 
  obtain b at v1 where f: "first_free_ii mem it_end v = Some (it_init it_end b at (first_free_pos v), v1)" "ext v v1" "ptr_ok v1 (b, at)"
      "gp v1 (b, at) = first_free_pos v"
    using first_free_ii_ok [OF assms(1,2), of mem it_end] assms(3) by blast
  obtain c a v2 where l: "last_free_ii mem it_end v = Some (it_init it_end c a (last_free_pos v), v2)" "ext v v2" "ptr_ok v2 (c, a)"
      "gp v2 (c, a) = last_free_pos v"
    using last_free_ii_ok [OF assms(1,2), of mem it_end] assms(3) by blast
  have "\<exists>b at v'. first_free mem v = Some (\<lparr>it_page = Some b, it_pos = at, it_gpos = first_free_pos v\<rparr>, v') \<and> vec_inv v' \<and> look v' = look v \<and>
       ptr_ok v' (b, at) \<and> gp v' (b, at) = first_free_pos v"
    using f ii(1) ext_look [OF f(2)] by (intro exI [of _ b] exI [of _ at] exI [of _ v1]) (simp add: it_init_all ext_def)
  moreover have "\<exists>b at v'. last_free mem v = Some (\<lparr>it_page = Some b, it_pos = at, it_gpos = last_free_pos v\<rparr>, v') \<and> vec_inv v' \<and> look v' = look v \<and>
       ptr_ok v' (b, at) \<and> gp v' (b, at) = last_free_pos v"
    using l ii(2) ext_look [OF l(2)] by (intro exI [of _ c] exI [of _ a] exI [of _ v2]) (simp add: it_init_all ext_def)
  moreover have "look v (first_free_pos v) = None" "\<forall>i < first_free_pos v. look v i \<noteq> None" "\<forall>i \<ge> last_free_pos v. look v i = None"
    using first_free_pos_ok [OF assms(1)] last_free_pos_ok(3) [OF assms(1)] by (auto simp: look_def)
  ultimately show ?thesis using ii_variants [of mem ii v] by blast
qed

theorem inpvec_free_slots_witness:
  "\<exists>b at v'. first_free (\<lambda>_. True) (vec_new False :: nat inpvec) = Some (\<lparr>it_page = Some b, it_pos = at, it_gpos = first_free_pos (vec_new False :: nat inpvec)\<rparr>, v') \<and>
     vec_inv v' \<and> gp v' (b, at) = first_free_pos (vec_new False :: nat inpvec)"
proof -
  have n: "vec_inv (vec_new False :: nat inpvec)" "length (vslots (vec_new False :: nat inpvec)) < 2 ^ 31" by (rule new_ok)+
  show ?thesis using inpvec_free_slots [OF n, of "\<lambda>_. True" it_end] by blast
qed

text \<open>
  \<^verbatim>\<open>reset\<close> and the destructor destroy every object of the vector exactly once, those of the first
  page last; after \<^verbatim>\<open>reset\<close> the vector is empty.
\<close>

theorem inpvec_destroys_once:
  assumes "vec_inv v"
  shows "vec_delete v = objects (concat (map slots (tl (vpages v)))) @ objects (slots (hd (vpages v))) \<and>
    mset (vec_delete v) = mset (objects (vslots v)) \<and>
    snd (vec_reset v) = vec_delete v \<and> vec_inv (fst (vec_reset v)) \<and> look (fst (vec_reset v)) = Map.empty \<and> vn_items (fst (vec_reset v)) = 0"
proof -
  have ps: "\<forall>p \<in> set (tl (vpages v)). page_inv p" "page_inv (hd (vpages v))" "mul (hd (vpages v)) = 1"
    using assms by (auto simp: vec_inv_def dest: list.set_sel(2))
  obtain n where n: "delete_pages (tl (vpages v)) (vn_items v) [] = (n, [] @ objects (concat (map slots (tl (vpages v)))))"
    using delete_pages_ok [OF ps(1)] by blast
  obtain h where h: "item_destroy (hd (vpages v)) n = (h, n - filled (slots (hd (vpages v))), objects (slots (hd (vpages v))))"
      "slots h = replicate (length (slots (hd (vpages v)))) None"
    using item_destroy_ok [OF ps(2)] by blast
  have d: "vec_delete v = objects (concat (map slots (tl (vpages v)))) @ objects (slots (hd (vpages v)))"
    using n h by (simp add: vec_delete_def)
  have r: "vec_reset v = (v\<lparr>vpages := [h\<lparr>mul := 1, bmap := [0]\<rparr>], vn_items := 0\<rparr>, vec_delete v)"
    using n h d by (simp add: vec_reset_def)
  have len: "length (slots (hd (vpages v))) = 64" using ps(2,3) by (simp add: page_inv_def)
  have "vec_inv (fst (vec_reset v))" "look (fst (vec_reset v)) = Map.empty"
    using r h(2) len by (auto simp: vec_inv_def page_inv_def vslots_def look_def filled_def)
  moreover have "mset (vec_delete v) = mset (objects (vslots v))" using d head_page [OF assms] by (simp add: objects_simps)
  ultimately show ?thesis using d r by simp
qed

theorem inpvec_destroys_once_witness: "vec_delete (vec_new True :: nat inpvec) = []"
proof -
  have "vec_inv (vec_new True :: nat inpvec)" by (rule new_ok)
  from inpvec_destroys_once [OF this] show ?thesis by (simp add: vec_new_def objects_def)
qed

lemma next_used_boundary:
  assumes "vpages v = [h, q]" and "page_inv h" and "page_inv q"
    and "\<And>i. at < i \<Longrightarrow> i < length (slots h) \<Longrightarrow> slots h ! i = None" and "\<And>i. at < i \<Longrightarrow> i < length (slots q) \<Longrightarrow> slots q ! i = None"
  shows "it_next_used v \<lparr>it_page = Some 0, it_pos = at, it_gpos = g\<rparr> = (None, it_end)"
proof -
  have "fst (item_next_used at p) = None" if "page_inv p" "\<And>i. at < i \<Longrightarrow> i < length (slots p) \<Longrightarrow> slots p ! i = None" for p :: "'a page"
    using item_next_used_ok [OF that(1), of at] that(2) by (cases "item_next_used at p"; cases "fst (item_next_used at p)") auto
  then obtain m n where "item_next_used at h = (None, m)" "item_next_used at q = (None, n)" using assms(2-) by (metis prod.collapse)
  then show ?thesis using assms(1) by (simp add: it_next_used_def)
qed

text \<open>
  \<^verbatim>\<open>iterator::next_used\<close> loses objects at a page boundary: it starts the search of the next page
  behind the old position instead of at its beginning. With 65 to 128 objects pushed, it finds
  none behind position 63, although there is one at position 64.
\<close>

theorem inpvec_next_used_skips:
  assumes "64 < length ts" and "length ts \<le> 128" and "\<And>m. mem m"
  shows "\<exists>v. push_all mem ii ts (vec_new e) = Some v \<and> vec_get_ptr 64 v \<noteq> None \<and> it_next_used v (iterator_at 63 v) = (None, it_end)"
proof -
  obtain v where v: "push_all mem ii ts (vec_new e) = Some v" "packed ts v" "shape v = [64, 192]"
    using push_all_two_pages [where mem = mem, OF assms(3) packed_new, of e ts ii] new_ok(3) assms(1,2) by auto
  then obtain k where k: "vec_inv v" "vslots v = map Some ts @ replicate k None" by (auto simp: packed_def)
  obtain h q where hq: "vpages v = [h, q]" "length (slots h) = 64" "length (slots q) = 192"
    using v(3) by (auto simp: shape_def map_eq_Cons_conv)
  have pages: "page_inv h" "page_inv q" using k(1) hq(1) by (simp_all add: vec_inv_def)
  have sl: "slots h @ slots q = map Some ts @ replicate k None" using k(2) hq(1) by (simp add: vslots_def)
  have q: "slots q ! i = None" if "63 < i" "i < length (slots q)" for i
  proof -
    have "slots q ! i = (slots h @ slots q) ! (64 + i)" using hq(2) by (simp add: nth_append)
    moreover have "64 + i < length ts + k" using arg_cong [OF sl, of length] hq that(2) by simp
    ultimately show ?thesis using sl assms(2) that(1) by (simp add: nth_append)
  qed
  have "iterator_at 63 v = \<lparr>it_page = Some 0, it_pos = 63, it_gpos = 63\<rparr>"
    using k hq assms(1) page_size [OF pages(1)] by (auto simp: iterator_at_def vec_inv_def filled_def)
  moreover have "look v 64 \<noteq> None" using k(2) assms(1) by (simp add: look_def nth_append)
  then have "vec_get_ptr 64 v \<noteq> None" using get_ptr_ok(2) [OF k(1), of 64] by auto
  ultimately show ?thesis using v(1) next_used_boundary [OF hq(1) pages, of 63] hq(2) q by auto
qed

theorem inpvec_next_used_skips_witness:
  "\<exists>v. push_all (\<lambda>_. True) it_end [0..<65] (vec_new False) = Some v \<and> vec_get_ptr 64 v \<noteq> None \<and>
     it_next_used v (iterator_at 63 v) = (None, it_end)"
  using inpvec_next_used_skips [of "[0..<65]" "\<lambda>_. True" it_end False] by auto

text \<open>\<^verbatim>\<open>item::is_empty\<close> compares 64-bit words with a 32-bit mask: it is false for an empty and for a full page.\<close>

lemma item_is_empty_useless:
  assumes "page_inv p" and "filled (slots p) = 0 \<or> filled (slots p) = length (slots p)"
  shows "\<not> item_is_empty p"
proof -
  have m: "0 < unat (mul p)" "length (slots p) = unat (mul p) * 64" using assms(1) by (simp_all add: page_inv_def)
  have len: "64 \<le> length (slots p)" using m by simp
  from assms(2) have "(\<forall>at < 64. slots p ! at = None) \<or> (\<forall>at < 64. slots p ! at \<noteq> None)"
  proof
    assume z: "filled (slots p) = 0"
    have "slots p ! at = None" if "at < 64" for at
      using z filled_update(3) [of at "slots p"] len that by (cases "slots p ! at") simp_all
    then show ?thesis by blast
  next
    assume f: "filled (slots p) = length (slots p)"
    have "x \<noteq> None" if "x \<in> set (slots p)" for x
      using f length_filter_less [OF that, of "\<lambda>x. x \<noteq> None"] by (auto simp: filled_def)
    then have "slots p ! at \<noteq> None" if "at < 64" for at using len that nth_mem [of at "slots p"] by auto
    then show ?thesis by blast
  qed
  moreover have "ub (bmap p) j \<longleftrightarrow> slots p ! j \<noteq> None" if "j < 64" for j using page_ub [OF assms(1), of j] len that by simp
  ultimately have "(\<forall>j < 64. \<not> ub (bmap p) j) \<or> (\<forall>j < 64. ub (bmap p) j)" by auto
  then have "(\<forall>j < 64. \<not> bit (bmap p ! 0) j) \<or> (\<forall>j < 64. bit (bmap p ! 0) j)" by (simp add: ub_def)
  moreover have "bit (0xFFFFFFFF :: u64) 0" "\<not> bit (0xFFFFFFFF :: u64) 32" by simp_all
  moreover have "(0 :: nat) < 64" "(32 :: nat) < 64" by simp_all
  ultimately have "bmap p ! 0 \<noteq> 0xFFFFFFFF" by metis
  then show ?thesis using m(1) by (auto simp: item_is_empty_def list_all_iff intro: bexI [of _ 0])
qed

end
