(* ===== verification/Queue.thy ===== *)
theory Queue
  imports Inpvec_Correct
begin

section \<open>Queues\<close>

text \<open>
  The template \<^verbatim>\<open>queue<T>\<close> of \<^verbatim>\<open>src/common/queue.hh\<close> and \<^verbatim>\<open>src/common/queue_impl.hh\<close>: its items lie in an
  \<^verbatim>\<open>inpvec\<close> and are linked by their positions; \<^verbatim>\<open>head_\<close> and \<^verbatim>\<open>tail_\<close> are pointers into the vector. \<^verbatim>\<open>pop\<close> hands the
  first item over to a \<^verbatim>\<open>handler\<close>, which frees its slot when it is reset, destroyed, or given another item.
  The virtual functions that a thread-safe queue overrides are logged. A result \<open>None\<close> is the use
  of a null pointer or of an object that has been destroyed.
\<close>

datatype qupcall = On_new_item | On_del_item | On_lock_queue | On_unlock_queue

record 'a qitem =
  qvalue :: 'a
  qpos :: nat
  qnext :: nat

type_synonym ptr = "nat \<times> nat"

record 'a queue =
  qitems :: "'a qitem inpvec"
  head :: "ptr option"
  tail :: "ptr option"
  qn_items :: nat
  quse_exc :: bool
  qlog :: "qupcall list"

text \<open>A handler: whether \<^verbatim>\<open>q_\<close> is set, and \<^verbatim>\<open>i_\<close>. All handlers belong to one queue.\<close>

record handler =
  hq :: bool
  hi :: "ptr option"

definition qitem_new :: "'a \<Rightarrow> 'a qitem" where
  "qitem_new t = \<lparr>qvalue = t, qpos = 0xBadBeafFeedBacc, qnext = 0xFeedBadBeefBacc\<rparr>"

definition queue_new :: "bool \<Rightarrow> 'a queue" where
  "queue_new e = \<lparr>qitems = vec_new e, head = None, tail = None, qn_items = 0, quse_exc = False, qlog = []\<rparr>"

definition handler_new :: handler where
  "handler_new = \<lparr>hq = False, hi = None\<rparr>"

definition qcall :: "qupcall \<Rightarrow> 'a queue \<Rightarrow> 'a queue" where
  "qcall u q = q\<lparr>qlog := qlog q @ [u]\<rparr>"

text \<open>Reading and changing an object of the vector through a pointer.\<close>

definition vec_read :: "ptr \<Rightarrow> 'b inpvec \<Rightarrow> 'b option" where
  "vec_read = (\<lambda>(b, at) v. slots (vpages v ! b) ! at)"

definition vec_modify :: "ptr \<Rightarrow> ('b \<Rightarrow> 'b) \<Rightarrow> 'b inpvec \<Rightarrow> 'b inpvec" where
  "vec_modify = (\<lambda>(b, at) f v.
     let p = vpages v ! b
     in v\<lparr>vpages := (vpages v)[b := p\<lparr>slots := (slots p)[at := map_option f (slots p ! at)]\<rparr>]\<rparr>)"

subsection \<open>Operations\<close>

definition q_free_item :: "ptr option \<Rightarrow> 'a queue \<Rightarrow> 'a queue option" where
  "q_free_item i q =
     (let q = qcall On_lock_queue q
      in (case i of
            None \<Rightarrow> Some (qcall On_unlock_queue q)
          | Some p \<Rightarrow>
              (case vec_read p (qitems q) of
                 None \<Rightarrow> None
               | Some x \<Rightarrow>
                   let (ret, v, d) = free_at (qpos x) (qitems q)
                   in Some (qcall On_unlock_queue (q\<lparr>qitems := v\<rparr>)))))"

definition append_item :: "ptr option \<Rightarrow> viter \<Rightarrow> 'a queue \<Rightarrow> ptr option \<times> 'a queue" where
  "append_item i it q =
     (case i of
        None \<Rightarrow> (None, q)
      | Some p \<Rightarrow>
          let v = vec_modify p (\<lambda>x. x\<lparr>qpos := iterator_pos it, qnext := 0\<rparr>) (qitems q);
              q = (case tail q of
                     None \<Rightarrow> q\<lparr>qitems := v, head := i, tail := i\<rparr>
                   | Some t \<Rightarrow>
                       let v = vec_modify t (\<lambda>x. x\<lparr>qnext := iterator_pos it\<rparr>) v;
                           v = vec_modify p (\<lambda>x. x\<lparr>qnext := 0\<rparr>) v
                       in q\<lparr>qitems := v, tail := i\<rparr>)
          in (i, q\<lparr>qn_items := qn_items q + 1\<rparr>))"

definition q_push :: "(u32 \<Rightarrow> bool) \<Rightarrow> 'a \<Rightarrow> 'a queue \<Rightarrow> (ptr option \<times> 'a queue) option" where
  "q_push mem t q =
     (let q = qcall On_lock_queue q; ii = it_end
      in (case first_free_ii mem ii (qitems q) of
            None \<Rightarrow> None
          | Some (ii, v) \<Rightarrow>
              let (i, v) = it_set (qitem_new t) ii v;
                  (ret, q) = append_item i ii (q\<lparr>qitems := v\<rparr>)
              in Some (ret, qcall On_new_item (qcall On_unlock_queue q))))"

definition handler_assign :: "handler \<Rightarrow> handler \<times> handler" where
  "handler_assign other = (\<lparr>hq = hq other, hi = hi other\<rparr>, other\<lparr>hi := None\<rparr>)"

definition handler_get :: "handler \<Rightarrow> ptr option" where
  "handler_get h = (case hi h of Some i \<Rightarrow> Some i | None \<Rightarrow> None)"

definition handler_reset :: "handler \<Rightarrow> 'a queue \<Rightarrow> (handler \<times> 'a queue) option" where
  "handler_reset h q =
     (if hi h \<noteq> None \<and> hq h
      then (case q_free_item (hi h) q of None \<Rightarrow> None | Some q \<Rightarrow> Some (h\<lparr>hi := None, hq := False\<rparr>, q))
      else Some (h, q))"

definition handler_set :: "bool \<Rightarrow> ptr option \<Rightarrow> handler \<Rightarrow> 'a queue \<Rightarrow> (handler \<times> 'a queue) option" where
  "handler_set q' i h q =
     (case handler_reset h q of None \<Rightarrow> None | Some (h, q) \<Rightarrow> Some (h\<lparr>hq := q', hi := i\<rparr>, q))"

text \<open>The end of \<^verbatim>\<open>pop\<close> when an item was taken from the list; then \<^verbatim>\<open>pop\<close>, where \<open>Inl\<close> is the exception
  \<^verbatim>\<open>rs_invalid_state\<close>.\<close>

definition q_pop_item :: "ptr \<Rightarrow> handler \<Rightarrow> 'a queue \<Rightarrow> ((unit + bool) \<times> handler \<times> 'a queue) option" where
  "q_pop_item i h q =
     (let q = q\<lparr>qn_items := qn_items q - 1\<rparr>
      in (case handler_set True (Some i) h q of
            None \<Rightarrow> None
          | Some (h, q) \<Rightarrow> Some (Inr True, h, qcall On_del_item (qcall On_unlock_queue q))))"

definition q_pop :: "handler \<Rightarrow> 'a queue \<Rightarrow> ((unit + bool) \<times> handler \<times> 'a queue) option" where
  "q_pop h q =
     (let q = qcall On_lock_queue q
      in (case head q of
            None \<Rightarrow> Some (Inr False, h, qcall On_unlock_queue q)
          | Some i \<Rightarrow>
              if head q = tail q then q_pop_item i h (q\<lparr>head := None, tail := None\<rparr>)
              else let q = q\<lparr>head := None\<rparr>
                   in (case vec_read i (qitems q) of
                         None \<Rightarrow> None
                       | Some x \<Rightarrow>
                           (case vec_get_ptr (qnext x) (qitems q) of
                              None \<Rightarrow> Some (if quse_exc q then Inl () else Inr False, h, qcall On_unlock_queue q)
                            | Some inext \<Rightarrow> q_pop_item i h (q\<lparr>head := Some inext\<rparr>)))))"

definition q_n_items :: "'a queue \<Rightarrow> nat \<times> 'a queue" where
  "q_n_items q = (qn_items q, qcall On_unlock_queue (qcall On_lock_queue q))"

definition q_size :: "'a queue \<Rightarrow> nat \<times> 'a queue" where
  "q_size q = (vn_items (qitems q), qcall On_unlock_queue (qcall On_lock_queue q))"

subsection \<open>The vector as a store\<close>

definition points :: "'b inpvec \<Rightarrow> ptr \<Rightarrow> nat \<Rightarrow> bool" where
  "points v p n \<longleftrightarrow> ptr_ok v p \<and> gp v p = n"

lemma points_shape: "shape v' = shape v \<Longrightarrow> points v' p n = points v p n"
  by (cases p) (simp add: points_def ptr_ok_shape gp_shape)

lemma points_ext: "ext v v' \<Longrightarrow> points v p n \<Longrightarrow> points v' p n"
  using ext_gp by (cases p) (auto simp: points_def)

lemma sum_list_take_le: "b < c \<Longrightarrow> c \<le> length xs \<Longrightarrow> sum_list (take b xs) + xs ! b \<le> sum_list (take c (xs :: nat list))"
proof (induction c)
  case (Suc c)
  then show ?case by (cases "b = c") (auto simp: take_Suc_conv_app_nth)
qed simp

lemma points_unique:
  assumes "points v p n" and "points v r n"
  shows "p = r"
proof -
  obtain b i c j where p: "p = (b, i)" "r = (c, j)" by (metis surj_pair)
  have q: "b < length (shape v)" "i < shape v ! b" "c < length (shape v)" "j < shape v ! c"
      "sum_list (take b (shape v)) + i = n" "sum_list (take c (shape v)) + j = n"
    using assms unfolding p by (simp_all add: points_def ptr_ok_shape gp_shape)
  have "b = c"
  proof (rule ccontr)
    assume "b \<noteq> c"
    then consider "b < c" | "c < b" by linarith
    then show False
      using sum_list_take_le [of b c "shape v"] sum_list_take_le [of c b "shape v"] q by cases linarith+
  qed
  then show ?thesis using p q by simp
qed

lemma list_update_id': "xs ! i = x \<Longrightarrow> xs[i := x] = xs"
  by auto

lemma q_read_ok: "points v p n \<Longrightarrow> vec_read p v = look v n"
  using ptr_slot(1,2) [of v "fst p" "snd p"] by (cases p) (simp add: points_def vec_read_def look_def)

lemma q_modify_ok:
  assumes "vec_inv v" and "points v p n"
  shows "vec_inv (vec_modify p f v) \<and> shape (vec_modify p f v) = shape v \<and> vn_items (vec_modify p f v) = vn_items v \<and>
    look (vec_modify p f v) = (look v)(n := map_option f (look v n))"
proof -
  obtain b at where p: "p = (b, at)" by (cases p)
  have ok: "ptr_ok v (b, at)" "gp v (b, at) = n" using assms(2) p by (simp_all add: points_def)
  have at: "at < length (slots (vpages v ! b))" using ok(1) by (simp add: ptr_ok_def)
  have n: "n < length (vslots v)" "vslots v ! n = slots (vpages v ! b) ! at" using ptr_slot [OF ok(1)] ok(2) by simp_all
  let ?p = "(vpages v ! b)\<lparr>slots := (slots (vpages v ! b))[at := map_option f (slots (vpages v ! b) ! at)]\<rparr>"
  have "page_inv ?p" using vec_page [OF assms(1) ok(1)] at by (auto simp: page_inv_def nth_list_update)
  moreover have "vn_items v = filled ((vslots v)[gp v (b, at) := map_option f (slots (vpages v ! b) ! at)])"
    using assms(1) n ok(2) filled_update(1) [OF n(1)] by (cases "slots (vpages v ! b) ! at") (simp_all add: vec_inv_def list_update_id' )
  ultimately have u: "vec_inv (v\<lparr>vpages := (vpages v)[b := ?p], vn_items := vn_items v\<rparr>)"
      "vslots (v\<lparr>vpages := (vpages v)[b := ?p], vn_items := vn_items v\<rparr>) = (vslots v)[gp v (b, at) := map_option f (slots (vpages v ! b) ! at)]"
      "shape (v\<lparr>vpages := (vpages v)[b := ?p], vn_items := vn_items v\<rparr>) = shape v"
    using page_update [OF assms(1) ok(1), of ?p "map_option f (slots (vpages v ! b) ! at)" "vn_items v"] by simp_all
  have m: "vec_modify p f v = v\<lparr>vpages := (vpages v)[b := ?p], vn_items := vn_items v\<rparr>" using p by (simp add: vec_modify_def Let_def)
  have "look v n = slots (vpages v ! b) ! at" using n by (simp add: look_def)
  then show ?thesis unfolding m using u look_update [OF n(1), of _ "map_option f (look v n)"] ok(2) by simp
qed

lemma first_free_grows:
  assumes "vec_inv v" and "length (vslots v) < 2 ^ 31" and "first_free_pos v = length (vslots v)" and "\<And>m. mem m"
    and "first_free_ii mem ii v = Some (it, v')"
  shows "shape v' = shape v @ [last (shape v) + 128]"
proof -
  obtain o' f where q: "first_free_pages (vpages v) 0 0 = (o', f, first_free_pos v)"
      "case o' of None \<Rightarrow> first_free_pos v = length (vslots v)
       | Some c \<Rightarrow> ptr_ok v (c, f) \<and> gp v (c, f) = first_free_pos v \<and> vslots v ! first_free_pos v = None"
    using vec_first_free [OF assms(1)] by blast
  have "o' = None"
  proof (cases o')
    case (Some c)
    then have "first_free_pos v < length (vslots v)" using q(2) ptr_slot(1) [of v c f] by simp
    then show ?thesis using assms(3) by simp
  qed
  then have a: "vec_allocate_mul mem (mul (last (vpages v)) + 2) v = Some v'"
    using assms(5) q(1) by (auto simp: first_free_ii_def Let_def split: option.splits)
  note m = tail_mul [OF assms(1,2)]
  obtain v1 where v1: "vec_allocate_mul mem (mul (last (vpages v)) + 2) v = Some v1" "shape v1 = shape v @ [unat (mul (last (vpages v)) + 2) * 64]"
  proof -
    have "0 < unat (mul (last (vpages v)) + 2)" "unat (mul (last (vpages v)) + 2) < 2 ^ 26" using m by simp_all
    from vec_allocate_ok [where mem = mem, OF assms(1,4) this] show ?thesis using that by blast
  qed
  have "last (shape v) = length (slots (last (vpages v)))" using assms(1) by (simp add: shape_def vec_inv_def last_map)
  then show ?thesis using a v1 m by simp
qed

text \<open>Few pages: the vector grows only when all its slots are in use.\<close>

definition small :: "nat \<Rightarrow> 'b inpvec \<Rightarrow> bool" where
  "small n v \<longleftrightarrow> sum_list (butlast (shape v)) \<le> n \<and> last (shape v) \<le> 64 * (2 * n + 1)"

lemma small_size:
  assumes "vec_inv v" and "small n v" and "n < 2 ^ 23"
  shows "length (vslots v) < 2 ^ 31"
proof -
  have "shape v \<noteq> []" using assms(1) by (auto simp: vec_inv_def shape_def)
  then have "length (vslots v) = sum_list (butlast (shape v)) + last (shape v)"
    by (metis append_butlast_last_id shape_sum sum_list_append sum_list.Cons sum_list.Nil add.right_neutral)
  then show ?thesis using assms(2,3) by (simp add: small_def)
qed

text \<open>Putting an object into the first free slot.\<close>

lemma q_put_ok:
  assumes "vec_inv v" and "small n v" and "n < 2 ^ 23" and "\<And>m. mem m" and "card (dom (look v)) \<le> n"
  shows "\<exists>it p v1 v' pos. first_free_ii mem ii v = Some (it, v1) \<and> it_set t it v1 = (Some p, v') \<and> iterator_pos it = pos \<and>
    look v pos = None \<and> look v' = (look v)(pos \<mapsto> t) \<and> points v' p pos \<and> vec_inv v' \<and> small (n + 1) v' \<and>
    (\<forall>r m. points v r m \<longrightarrow> points v' r m)"
proof -
  note l = small_size [OF assms(1-3)]
  let ?p = "first_free_pos v"
  obtain b at v1 where f: "first_free_ii mem ii v = Some (it_init ii b at ?p, v1)" "ext v v1" "ptr_ok v1 (b, at)" "gp v1 (b, at) = ?p"
      "?p < length (vslots v) \<longrightarrow> v1 = v"
    using first_free_ii_ok [OF assms(1) l, of mem ii] assms(4) by blast
  let ?it = "it_init ii b at ?p"
  have it: "it_page ?it = Some b" "it_pos ?it = at" "iterator_pos ?it = ?p" by (simp_all add: it_init_all iterator_pos_def)
  have v1: "vec_inv v1" using f(2) by (simp add: ext_def)
  obtain v' where s: "it_set t ?it v1 = (Some (b, at), v')" "vec_inv v'" "vslots v' = (vslots v1)[?p := Some t]" "shape v' = shape v1"
    using it_set_ok [OF v1 it(1), of t] f(3,4) it(2) by auto
  have pl: "?p < length (vslots v1)" using ptr_slot(1) [OF f(3)] f(4) by simp
  have lk: "look v' = (look v)(?p \<mapsto> t)" using look_update [OF pl s(3)] ext_look [OF f(2)] by simp
  have pn: "look v ?p = None" using first_free_pos_ok(3) [OF assms(1)] by (simp add: look_def)
  have "small (n + 1) v1"
  proof (cases "?p < length (vslots v)")
    case True
    then show ?thesis using f(5) assms(2) by (simp add: small_def)
  next
    case False
    then have p: "?p = length (vslots v)" using first_free_pos_ok(1) [OF assms(1)] by simp
    have sh: "shape v1 = shape v @ [last (shape v) + 128]" using first_free_grows [OF assms(1) l p assms(4) f(1)] .
    have "{..<length (vslots v)} \<subseteq> dom (look v)" using first_free_pos_ok(2) [OF assms(1)] p by (auto simp: look_def)
    moreover have "finite (dom (look v))" by (rule finite_subset [of _ "{..<length (vslots v)}"]) (auto simp: look_def split: if_splits)
    ultimately have "length (vslots v) \<le> n" using card_mono [of "dom (look v)" "{..<length (vslots v)}"] assms(5) by simp
    then show ?thesis using sh assms(2) shape_sum [of v] by (simp add: small_def)
  qed
  then have "small (n + 1) v'" using s(4) by (simp add: small_def)
  moreover have "points v' (b, at) ?p" using f(3,4) points_shape [OF s(4)] by (simp add: points_def)
  moreover have "\<forall>r m. points v r m \<longrightarrow> points v' r m" using points_ext [OF f(2)] points_shape [OF s(4)] by blast
  ultimately show ?thesis using f(1) s(1,2) it(3) pn lk by blast
qed

subsection \<open>The list of items\<close>

text \<open>
  The items at the positions \<open>ps\<close> hold \<open>xs\<close> and each links to the next one.
\<close>

fun chain :: "(nat \<Rightarrow> 'a qitem option) \<Rightarrow> nat list \<Rightarrow> 'a list \<Rightarrow> bool" where
  "chain m [] [] \<longleftrightarrow> True"
| "chain m [p] [x] \<longleftrightarrow> m p = Some \<lparr>qvalue = x, qpos = p, qnext = 0\<rparr>"
| "chain m (p # r # ps) (x # xs) \<longleftrightarrow> m p = Some \<lparr>qvalue = x, qpos = p, qnext = r\<rparr> \<and> chain m (r # ps) xs"
| "chain m ps xs \<longleftrightarrow> False"

lemma q_chain_cong: "(\<And>p. p \<in> set ps \<Longrightarrow> m p = m' p) \<Longrightarrow> chain m ps xs \<longleftrightarrow> chain m' ps xs"
  by (induction m ps xs rule: chain.induct) auto

lemma q_chain_length: "chain m ps xs \<Longrightarrow> length ps = length xs"
  by (induction m ps xs rule: chain.induct) auto

lemma q_chain_Cons:
  "chain m (p # ps) xs \<Longrightarrow> \<exists>x ys. xs = x # ys \<and> m p = Some \<lparr>qvalue = x, qpos = p, qnext = (if ps = [] then 0 else hd ps)\<rparr> \<and> chain m ps ys"
  by (induction m "p # ps" xs rule: chain.induct) auto

lemma q_chain_dom: "chain m ps xs \<Longrightarrow> set ps \<subseteq> dom m"
  by (induction m ps xs rule: chain.induct) auto

lemma q_chain_append:
  "chain m ps xs \<Longrightarrow> ps \<noteq> [] \<Longrightarrow> distinct (ps @ [p]) \<Longrightarrow>
     chain (m(last ps := map_option (\<lambda>x. x\<lparr>qnext := p\<rparr>) (m (last ps)), p \<mapsto> \<lparr>qvalue = x, qpos = p, qnext = 0\<rparr>)) (ps @ [p]) (xs @ [x])"
proof (induction m ps xs rule: chain.induct)
  case (3 m q r ps y ys)
  then have "q \<noteq> last (r # ps)" "q \<noteq> p" by auto
  then show ?case using 3 by simp
qed auto

subsection \<open>Correctness\<close>

text \<open>
  The queue \<open>q\<close> with the handlers \<open>hs\<close> holds the values \<open>xs\<close> at the positions \<open>ps\<close>; the handlers in the
  domain of \<open>hp\<close> hold the items at these positions; \<open>L\<close> are the positions of objects that are neither in the list nor held.
\<close>

definition handles :: "'b inpvec \<Rightarrow> (nat \<rightharpoonup> nat) \<Rightarrow> (nat \<Rightarrow> handler) \<Rightarrow> bool" where
  "handles v hp hs \<longleftrightarrow>
     (\<forall>h. hp h = None \<longrightarrow> hi (hs h) = None) \<and>
     (\<forall>h p. hp h = Some p \<longrightarrow> (\<exists>a. hs h = \<lparr>hq = True, hi = Some a\<rparr> \<and> points v a p))"

definition linked :: "'b inpvec \<Rightarrow> nat list \<Rightarrow> ptr option \<Rightarrow> ptr option \<Rightarrow> bool" where
  "linked v ps hd' tl' \<longleftrightarrow>
     (if ps = [] then hd' = None \<and> tl' = None
      else \<exists>a b. hd' = Some a \<and> points v a (hd ps) \<and> tl' = Some b \<and> points v b (last ps))"

definition qstate :: "nat list \<Rightarrow> (nat \<rightharpoonup> nat) \<Rightarrow> nat set \<Rightarrow> 'a list \<Rightarrow> 'a queue \<Rightarrow> (nat \<Rightarrow> handler) \<Rightarrow> bool" where
  "qstate ps hp L xs q hs \<longleftrightarrow> vec_inv (qitems q) \<and> chain (look (qitems q)) ps xs \<and> distinct ps \<and> qn_items q = length xs \<and>
     linked (qitems q) ps (head q) (tail q) \<and>
     finite (dom hp) \<and> inj_on hp (dom hp) \<and> finite L \<and> ran hp \<inter> set ps = {} \<and> L \<inter> (set ps \<union> ran hp) = {} \<and>
     dom (look (qitems q)) = set ps \<union> ran hp \<union> L \<and>
     (\<forall>p \<in> ran hp \<union> L. \<exists>x. look (qitems q) p = Some x \<and> qpos x = p) \<and>
     handles (qitems q) hp hs"

lemma qstateD:
  assumes "qstate ps hp L xs q hs"
  shows "vec_inv (qitems q)" "chain (look (qitems q)) ps xs" "distinct ps" "qn_items q = length xs" "linked (qitems q) ps (head q) (tail q)"
    "finite (dom hp)" "inj_on hp (dom hp)" "finite L" "ran hp \<inter> set ps = {}" "L \<inter> (set ps \<union> ran hp) = {}"
    "dom (look (qitems q)) = set ps \<union> ran hp \<union> L" "\<forall>p \<in> ran hp \<union> L. \<exists>x. look (qitems q) p = Some x \<and> qpos x = p"
    "handles (qitems q) hp hs"
  using assms unfolding qstate_def by blast+

lemma handlesD: "handles v hp hs \<Longrightarrow> hp h = None \<Longrightarrow> hi (hs h) = None"
    "handles v hp hs \<Longrightarrow> hp h = Some p \<Longrightarrow> \<exists>a. hs h = \<lparr>hq = True, hi = Some a\<rparr> \<and> points v a p"
  unfolding handles_def by blast+

lemma handles_update:
  "handles v hp hs \<Longrightarrow> hi h' = None \<Longrightarrow> handles v (hp(h := None)) (hs(h := h'))"
  "handles v hp hs \<Longrightarrow> points v a p \<Longrightarrow> handles v (hp(h \<mapsto> p)) (hs(h := \<lparr>hq = True, hi = Some a\<rparr>))"
  unfolding handles_def by (simp_all del: split_paired_Ex)

lemma handles_shape: "shape v' = shape v \<Longrightarrow> handles v' hp hs = handles v hp hs"
  unfolding handles_def by (simp add: points_shape [where v' = v' and v = v])

lemma linked_shape: "shape v' = shape v \<Longrightarrow> linked v' ps a b = linked v ps a b"
  unfolding linked_def by (simp add: points_shape [where v' = v' and v = v])

text \<open>The value that a handler holds.\<close>

definition held_value :: "'a qitem inpvec \<Rightarrow> (nat \<rightharpoonup> nat) \<Rightarrow> nat \<rightharpoonup> 'a" where
  "held_value v hp = (\<lambda>h. Option.bind (hp h) (\<lambda>p. map_option qvalue (look v p)))"

lemma qcall_simps [simp]:
  "qitems (qcall u q) = qitems q" "head (qcall u q) = head q" "tail (qcall u q) = tail q" "qn_items (qcall u q) = qn_items q"
  "quse_exc (qcall u q) = quse_exc q"
  by (simp_all add: qcall_def)

lemma qstate_qcall [simp]: "qstate ps hp L xs (qcall u q) hs = qstate ps hp L xs q hs"
  by (simp only: qstate_def qcall_simps)

lemma qstate_new: "qstate [] Map.empty {} [] (queue_new e) (\<lambda>h. handler_new)"
proof -
  have "look (vec_new e :: 'a qitem inpvec) = Map.empty" by (auto simp: look_def vec_new_def vslots_def)
  then show ?thesis using new_ok(1) by (auto simp: qstate_def queue_new_def handler_new_def linked_def handles_def)
qed

text \<open>Freeing the item of a handler.\<close>

lemma q_free_ok:
  assumes "qstate ps hp L xs q hs" and "hp h = Some p" and "points (qitems q) a p"
  shows "\<exists>q'. q_free_item (Some a) q = Some q' \<and> look (qitems q') = (look (qitems q))(p := None) \<and> vec_inv (qitems q') \<and>
    shape (qitems q') = shape (qitems q) \<and> head q' = head q \<and> tail q' = tail q \<and> qn_items q' = qn_items q \<and> quse_exc q' = quse_exc q \<and>
    qlog q' = qlog q @ [On_lock_queue, On_unlock_queue]"
proof -
  obtain x where x: "look (qitems q) p = Some x" "qpos x = p" using qstateD(12) [OF assms(1)] ranI [of hp h p] assms(2) by blast
  obtain v' where f: "free_at p (qitems q) = (look (qitems q) p \<noteq> None, v', look (qitems q) p)" "vec_inv v'" "shape v' = shape (qitems q)"
      "look v' = (look (qitems q))(p := None)" using free_at_ok [OF qstateD(1) [OF assms(1)], of p] by blast
  have "vec_read a (qitems q) = Some x" using q_read_ok [OF assms(3)] x(1) by simp
  then show ?thesis using x(2) f by (simp add: q_free_item_def Let_def qcall_def)
qed

lemma q_reset_ok:
  assumes "qstate ps hp L xs q hs"
  shows "\<exists>h' q'. handler_reset (hs h) q = Some (h', q') \<and> qstate ps (hp(h := None)) L xs q' (hs(h := h')) \<and> hi h' = None \<and>
    held_value (qitems q') (hp(h := None)) = (held_value (qitems q) hp)(h := None) \<and>
    shape (qitems q') = shape (qitems q) \<and> (\<forall>r. r \<notin> ran hp \<longrightarrow> look (qitems q') r = look (qitems q) r)"
proof (cases "hp h")
  case None
  then have hi: "hi (hs h) = None" using handlesD(1) [OF qstateD(13) [OF assms]] by simp
  then have "handler_reset (hs h) q = Some (hs h, q)" by (simp add: handler_reset_def)
  moreover have "hp(h := None) = hp" using None by auto
  moreover have "(held_value (qitems q) hp)(h := None) = held_value (qitems q) hp" using None by (auto simp: held_value_def fun_eq_iff)
  ultimately show ?thesis using assms hi by simp
next
  case (Some p)
  obtain a where a: "hs h = \<lparr>hq = True, hi = Some a\<rparr>" "points (qitems q) a p"
    using handlesD(2) [OF qstateD(13) [OF assms] Some] by blast
  obtain q' where q': "q_free_item (Some a) q = Some q'" "look (qitems q') = (look (qitems q))(p := None)" "vec_inv (qitems q')"
      "shape (qitems q') = shape (qitems q)" "head q' = head q" "tail q' = tail q" "qn_items q' = qn_items q"
    using q_free_ok [OF assms Some a(2)] by blast
  have pr: "p \<in> ran hp" "p \<notin> set ps" "p \<notin> L" using ranI [of hp h p] Some qstateD(9,10) [OF assms] by blast+
  have other: "\<forall>k. k \<noteq> h \<longrightarrow> hp k \<noteq> Some p" using qstateD(7) [OF assms] Some by (metis domI inj_onD)
  have ran: "ran (hp(h := None)) = ran hp - {p}" 
  proof (intro set_eqI iffI)
    fix r assume "r \<in> ran (hp(h := None))"
    then show "r \<in> ran hp - {p}" using other by (auto simp: ran_def split: if_splits)
  next
    fix r assume "r \<in> ran hp - {p}"
    then obtain k where "hp k = Some r" "r \<noteq> p" by (auto simp: ran_def)
    then show "r \<in> ran (hp(h := None))" using Some by (intro ranI [of _ k]) auto
  qed
  have "look (qitems q) r = look (qitems q') r" if "r \<in> set ps" for r using pr(2) q'(2) that by auto
  then have "chain (look (qitems q)) ps xs = chain (look (qitems q')) ps xs" by (intro q_chain_cong) auto
  then have "chain (look (qitems q')) ps xs" using qstateD(2) [OF assms] by blast
  moreover have reset: "handler_reset (hs h) q = Some (\<lparr>hq = False, hi = None\<rparr>, q')" using a(1) q'(1) by (simp add: handler_reset_def)
  moreover have "inj_on (hp(h := None)) (dom (hp(h := None)))" using qstateD(7) [OF assms] by (auto simp: inj_on_def)
  moreover have hv: "held_value (qitems q') (hp(h := None)) = (held_value (qitems q) hp)(h := None)"
    using q'(2) other by (auto simp: held_value_def fun_eq_iff split: bind_splits)
  moreover have "dom (look (qitems q')) = set ps \<union> ran (hp(h := None)) \<union> L"
    using qstateD(11) [OF assms] pr q'(2) ran by auto
  moreover have "\<forall>r \<in> ran (hp(h := None)) \<union> L. \<exists>x. look (qitems q') r = Some x \<and> qpos x = r"
    using qstateD(12) [OF assms] ran pr(3) q'(2) by auto
  moreover have "handles (qitems q') (hp(h := None)) (hs(h := \<lparr>hq = False, hi = None\<rparr>))"
    using handles_update(1) [OF qstateD(13) [OF assms]] handles_shape [OF q'(4)] by simp
  ultimately have "qstate ps (hp(h := None)) L xs q' (hs(h := \<lparr>hq = False, hi = None\<rparr>))"
    using qstateD [OF assms] q'(3-7) ran linked_shape [OF q'(4)] unfolding qstate_def by auto
  moreover have "\<forall>r. r \<notin> ran hp \<longrightarrow> look (qitems q') r = look (qitems q) r" using q'(2) pr(1) by auto
  ultimately show ?thesis using reset hv q'(4) by auto
qed

text \<open>Taking the first item off the list leaves it to nobody; then the handler takes it.\<close>

lemma q_unlink_ok:
  assumes "qstate (p # ps) hp L (x # xs) q hs" and "linked (qitems q) ps a b"
  shows "qstate ps hp (insert p L) xs (q\<lparr>head := a, tail := b, qn_items := qn_items q - 1\<rparr>) hs"
proof -
  note d = qstateD [OF assms(1)]
  obtain nx where c: "look (qitems q) p = Some \<lparr>qvalue = x, qpos = p, qnext = nx\<rparr>" "chain (look (qitems q)) ps xs"
    using q_chain_Cons [OF d(2)] by auto
  have "insert p L \<inter> (set ps \<union> ran hp) = {}" "dom (look (qitems q)) = set ps \<union> ran hp \<union> insert p L" using d(3,9,10,11) by auto
  moreover have "\<forall>r \<in> ran hp \<union> insert p L. \<exists>x. look (qitems q) r = Some x \<and> qpos x = r" using d(12) c(1) by auto
  ultimately show ?thesis using d c(2) assms(2) unfolding qstate_def by simp
qed

lemma q_grab_ok:
  assumes "qstate ps hp (insert p L) xs q hs" and "p \<notin> L" and "hp h = None" and "points (qitems q) a p"
  shows "qstate ps (hp(h \<mapsto> p)) L xs q (hs(h := \<lparr>hq = True, hi = Some a\<rparr>))"
proof -
  note d = qstateD [OF assms(1)]
  have r: "ran (hp(h \<mapsto> p)) = insert p (ran hp)" using assms(3) by (simp add: ran_map_upd)
  have "inj_on (hp(h \<mapsto> p)) (dom (hp(h \<mapsto> p)))"
  proof (rule inj_onI)
    fix k l assume k: "k \<in> dom (hp(h \<mapsto> p))" "l \<in> dom (hp(h \<mapsto> p))" "(hp(h \<mapsto> p)) k = (hp(h \<mapsto> p)) l"
    have "hp m \<noteq> Some p" for m using d(10) ranI [of hp m p] by auto
    then show "k = l" using k d(7) by (auto split: if_splits dest: inj_onD)
  qed
  moreover have "handles (qitems q) (hp(h \<mapsto> p)) (hs(h := \<lparr>hq = True, hi = Some a\<rparr>))" using handles_update(2) [OF d(13) assms(4)] .
  moreover have "ran (hp(h \<mapsto> p)) \<inter> set ps = {}" "L \<inter> (set ps \<union> ran (hp(h \<mapsto> p))) = {}"
      "dom (look (qitems q)) = set ps \<union> ran (hp(h \<mapsto> p)) \<union> L"
    using d(9-11) assms(2) unfolding r by auto
  moreover have "\<forall>r \<in> ran (hp(h \<mapsto> p)) \<union> L. \<exists>x. look (qitems q) r = Some x \<and> qpos x = r" using d(12) unfolding r by auto
  ultimately show ?thesis using d unfolding qstate_def by simp
qed

lemma q_pop_item_ok:
  assumes "qstate (p # ps) hp L (x # xs) q hs" and "linked (qitems q) ps a b" and "points (qitems q) i p"
  shows "\<exists>h' q'. q_pop_item i (hs h) (q\<lparr>head := a, tail := b\<rparr>) = Some (Inr True, h', q') \<and>
    qstate ps (hp(h \<mapsto> p)) L xs q' (hs(h := h')) \<and>
    held_value (qitems q') (hp(h \<mapsto> p)) = (held_value (qitems q) hp)(h \<mapsto> x) \<and> shape (qitems q') = shape (qitems q)"
proof -
  let ?q = "q\<lparr>head := a, tail := b, qn_items := qn_items q - 1\<rparr>"
  note d = qstateD [OF assms(1)]
  have p: "p \<notin> L" "p \<notin> ran hp" using d(9,10) by auto
  obtain nx where c: "look (qitems q) p = Some \<lparr>qvalue = x, qpos = p, qnext = nx\<rparr>" using q_chain_Cons [OF d(2)] by auto
  obtain h1 q1 where r: "handler_reset (hs h) ?q = Some (h1, q1)" "qstate ps (hp(h := None)) (insert p L) xs q1 (hs(h := h1))"
      "held_value (qitems q1) (hp(h := None)) = (held_value (qitems ?q) hp)(h := None)"
      "shape (qitems q1) = shape (qitems ?q)" "\<forall>r. r \<notin> ran hp \<longrightarrow> look (qitems q1) r = look (qitems ?q) r"
    using q_reset_ok [OF q_unlink_ok [OF assms(1,2)], of h] by blast
  let ?h = "h1\<lparr>hq := True, hi := Some i\<rparr>"
  have h: "?h = \<lparr>hq = True, hi = Some i\<rparr>" by simp
  have pt: "points (qitems q1) i p" using points_shape [OF r(4)] assms(3) by simp
  have "qstate ps ((hp(h := None))(h \<mapsto> p)) L xs q1 ((hs(h := h1))(h := \<lparr>hq = True, hi = Some i\<rparr>))"
    by (rule q_grab_ok [OF r(2) p(1) _ pt]) simp
  then have "qstate ps (hp(h \<mapsto> p)) L xs q1 (hs(h := ?h))" unfolding h by simp
  moreover have "look (qitems q1) p = Some \<lparr>qvalue = x, qpos = p, qnext = nx\<rparr>" using r(5) p(2) c by simp
  then have "held_value (qitems q1) (hp(h \<mapsto> p)) = (held_value (qitems q1) (hp(h := None)))(h \<mapsto> x)"
    by (auto simp: held_value_def fun_eq_iff)
  then have "held_value (qitems q1) (hp(h \<mapsto> p)) = (held_value (qitems q) hp)(h \<mapsto> x)" unfolding r(3) by simp
  moreover have "q_pop_item i (hs h) (q\<lparr>head := a, tail := b\<rparr>) = Some (Inr True, ?h, qcall On_del_item (qcall On_unlock_queue q1))"
    using r(1) by (simp add: q_pop_item_def handler_set_def Let_def)
  ultimately show ?thesis using r(4) by (intro exI [of _ ?h] exI [of _ "qcall On_del_item (qcall On_unlock_queue q1)"]) simp
qed

lemma q_pop_ok:
  assumes "qstate ps hp L xs q hs"
  shows "xs = [] \<Longrightarrow> q_pop (hs h) q = Some (Inr False, hs h, qcall On_unlock_queue (qcall On_lock_queue q))"
    and "xs = x # ys \<Longrightarrow> \<exists>h' q'. q_pop (hs h) q = Some (Inr True, h', q') \<and> qstate (tl ps) (hp(h \<mapsto> hd ps)) L ys q' (hs(h := h')) \<and>
      held_value (qitems q') (hp(h \<mapsto> hd ps)) = (held_value (qitems q) hp)(h \<mapsto> x) \<and> shape (qitems q') = shape (qitems q)"
proof -
  note d = qstateD [OF assms]
  show "q_pop (hs h) q = Some (Inr False, hs h, qcall On_unlock_queue (qcall On_lock_queue q))" if "xs = []"
  proof -
    have "ps = []" using q_chain_length [OF d(2)] that by simp
    then have "head q = None" using d(5) by (simp add: linked_def)
    then show ?thesis by (simp add: q_pop_def Let_def)
  qed
  assume xs: "xs = x # ys"
  then obtain p ps' where ps: "ps = p # ps'" using q_chain_length [OF d(2)] by (cases ps) auto
  obtain i b where i: "head q = Some i" "points (qitems q) i p" "tail q = Some b" "points (qitems q) b (last ps)"
    using d(5) ps by (auto simp: linked_def simp del: split_paired_Ex)
  let ?q = "qcall On_lock_queue q"
  have s: "qstate (p # ps') hp L (x # ys) ?q hs" using assms ps xs by simp
  show "\<exists>h' q'. q_pop (hs h) q = Some (Inr True, h', q') \<and> qstate (tl ps) (hp(h \<mapsto> hd ps)) L ys q' (hs(h := h')) \<and>
      held_value (qitems q') (hp(h \<mapsto> hd ps)) = (held_value (qitems q) hp)(h \<mapsto> x) \<and> shape (qitems q') = shape (qitems q)"
  proof (cases ps')
    case Nil
    then have "points (qitems q) b p" using i(4) ps by simp
    then have "i = b" by (rule points_unique [OF i(2)])
    then have "q_pop (hs h) q = q_pop_item i (hs h) (?q\<lparr>head := None, tail := None\<rparr>)" using i(1,3) by (simp add: q_pop_def Let_def)
    moreover have "linked (qitems ?q) ps' None None" using Nil by (simp add: linked_def)
    ultimately show ?thesis using q_pop_item_ok [OF s, of None None i h] i(2) ps by simp
  next
    case (Cons r rs)
    have "last ps \<noteq> p" using d(3) ps Cons by (metis distinct.simps(2) last_ConsR last_in_set list.distinct(1))
    then have ne: "i \<noteq> b" using i(2,4) by (auto simp: points_def)
    have c: "look (qitems q) p = Some \<lparr>qvalue = x, qpos = p, qnext = r\<rparr>" using q_chain_Cons [of "look (qitems q)" p ps' xs] d(2) ps xs Cons by auto
    have "look (qitems q) r \<noteq> None" using q_chain_dom [OF d(2)] ps Cons by auto
    then obtain nx where nx: "vec_get_ptr r (qitems q) = Some nx" "points (qitems q) nx r"
      using get_ptr_ok(2) [OF d(1), of r] by (auto simp: points_def simp del: split_paired_Ex)
    have "q_pop (hs h) q = q_pop_item i (hs h) (?q\<lparr>head := Some nx\<rparr>)"
      using i(1,3) ne q_read_ok [OF i(2)] c nx(1) by (simp add: q_pop_def Let_def)
    moreover have "?q\<lparr>head := Some nx\<rparr> = ?q\<lparr>head := Some nx, tail := Some b\<rparr>" using i(3) by simp
    moreover have "linked (qitems ?q) ps' (Some nx) (Some b)" using Cons nx(2) i(4) ps by (simp add: linked_def)
    ultimately show ?thesis using q_pop_item_ok [OF s, of "Some nx" "Some b" i h] i(2) ps by simp
  qed
qed

text \<open>Appending an item.\<close>

lemma q_push_ok:
  assumes "qstate ps hp L xs q hs" and "small n (qitems q)" and "n < 2 ^ 23" and "\<And>m. mem m" and "card (dom (look (qitems q))) \<le> n"
  shows "\<exists>a p q'. q_push mem x q = Some (Some a, q') \<and> qstate (ps @ [p]) hp L (xs @ [x]) q' hs \<and>
    held_value (qitems q') hp = held_value (qitems q) hp \<and> small (n + 1) (qitems q') \<and>
    map_option qvalue (vec_read a (qitems q')) = Some x"
proof -
  note d = qstateD [OF assms(1)]
  let ?v = "qitems q"
  obtain it a v1 v2 p where put: "first_free_ii mem it_end ?v = Some (it, v1)" "it_set (qitem_new x) it v1 = (Some a, v2)" "iterator_pos it = p"
      "look ?v p = None" "look v2 = (look ?v)(p \<mapsto> qitem_new x)" "points v2 a p" "vec_inv v2" "small (n + 1) v2"
      "\<forall>r m. points ?v r m \<longrightarrow> points v2 r m"
    using q_put_ok [where mem = mem and ii = it_end and t = "qitem_new x", OF d(1) assms(2-5)] by blast
  let ?v3 = "vec_modify a (\<lambda>x. x\<lparr>qpos := p, qnext := 0\<rparr>) v2"
  note m3 = q_modify_ok [OF put(7,6), of "\<lambda>x. x\<lparr>qpos := p, qnext := 0\<rparr>"]
  have l3: "look ?v3 = (look ?v)(p \<mapsto> \<lparr>qvalue = x, qpos = p, qnext = 0\<rparr>)" using m3 put(5) by (simp add: qitem_new_def)
  have p: "p \<notin> set ps" "p \<notin> ran hp" "p \<notin> L" using put(4) d(11) by auto
  have hv: "held_value v' hp = held_value ?v hp" if "\<And>r. r \<in> ran hp \<Longrightarrow> look v' r = look ?v r" for v'
    using that ranI by (fastforce simp: held_value_def fun_eq_iff split: bind_splits)
  show ?thesis
  proof (cases "ps = []")
    case True
    then have e: "head q = None" "tail q = None" "xs = []" using d(5) q_chain_length [OF d(2)] by (auto simp: linked_def)
    let ?q = "(qcall On_lock_queue q)\<lparr>qitems := ?v3, head := Some a, tail := Some a, qn_items := qn_items q + 1\<rparr>"
    have push: "q_push mem x q = Some (Some a, qcall On_new_item (qcall On_unlock_queue ?q))"
      using put(1-3) e by (simp add: q_push_def append_item_def Let_def qcall_def)
    have pt: "points ?v3 a p" using points_shape [of ?v3 v2] m3 put(6) by blast
    have "chain (look ?v3) [p] [x]" using l3 by simp
    moreover have "linked ?v3 [p] (Some a) (Some a)" using pt by (simp add: linked_def)
    moreover have "handles ?v3 hp hs" using d(13) put(9) points_shape [of ?v3 v2] m3 unfolding handles_def by meson
    moreover have "\<forall>r \<in> ran hp \<union> L. \<exists>x. look ?v3 r = Some x \<and> qpos x = r" using d(12) p l3 by auto
    moreover have "dom (look ?v3) = {p} \<union> ran hp \<union> L" using d(11) l3 True by auto
    ultimately have "qstate (ps @ [p]) hp L (xs @ [x]) ?q hs" using d p m3 True e unfolding qstate_def by simp
    moreover have "held_value ?v3 hp = held_value ?v hp" by (rule hv) (use l3 p in auto)
    moreover have "small (n + 1) ?v3" using put(8) m3 by (simp add: small_def)
    moreover have "vec_read a ?v3 = Some \<lparr>qvalue = x, qpos = p, qnext = 0\<rparr>" using q_read_ok [OF pt] l3 by simp
    ultimately show ?thesis using push by (intro exI [of _ a] exI [of _ p] exI [of _ "qcall On_new_item (qcall On_unlock_queue ?q)"]) simp
  next
    case False
    then obtain c t where e: "head q = Some c" "points ?v c (hd ps)" "tail q = Some t" "points ?v t (last ps)"
      using d(5) by (auto simp: linked_def simp del: split_paired_Ex)
    let ?v4 = "vec_modify t (\<lambda>x. x\<lparr>qnext := p\<rparr>) ?v3" and ?v5 = "vec_modify a (\<lambda>x. x\<lparr>qnext := 0\<rparr>) (vec_modify t (\<lambda>x. x\<lparr>qnext := p\<rparr>) ?v3)"
    have s3: "shape ?v3 = shape v2" "vec_inv ?v3" using m3 by auto
    have t3: "points ?v3 t (last ps)" using e(4) put(9) points_shape [OF s3(1)] by blast
    note m4 = q_modify_ok [OF s3(2) t3, of "\<lambda>x. x\<lparr>qnext := p\<rparr>"]
    have s4: "shape ?v4 = shape v2" "vec_inv ?v4" using m4 s3 by auto
    have a4: "points ?v4 a p" using put(6) points_shape [OF s4(1)] by blast
    note m5 = q_modify_ok [OF s4(2) a4, of "\<lambda>x. x\<lparr>qnext := 0\<rparr>"]
    have s5: "shape ?v5 = shape v2" "vec_inv ?v5" using m5 s4 by auto
    have lp: "last ps \<noteq> p" "last ps \<in> set ps" using p(1) False by auto
    have l5: "look ?v5 = (look ?v)(last ps := map_option (\<lambda>x. x\<lparr>qnext := p\<rparr>) (look ?v (last ps)), p \<mapsto> \<lparr>qvalue = x, qpos = p, qnext = 0\<rparr>)"
      using m5 m4 l3 lp by (simp add: fun_upd_twist)
    let ?q = "(qcall On_lock_queue q)\<lparr>qitems := ?v5, tail := Some a, qn_items := qn_items q + 1\<rparr>"
    have push: "q_push mem x q = Some (Some a, qcall On_new_item (qcall On_unlock_queue ?q))"
      using put(1-3) e(3) by (simp add: q_push_def append_item_def Let_def qcall_def)
    have pts: "points ?v r m \<Longrightarrow> points ?v5 r m" for r m using put(9) points_shape [OF s5(1)] by blast
    have pt: "points ?v5 a p" using put(6) points_shape [OF s5(1)] by blast
    have "chain (look ?v5) (ps @ [p]) (xs @ [x])" unfolding l5 by (rule q_chain_append [OF d(2) False]) (use d(3) p(1) in simp)
    moreover have "linked ?v5 (ps @ [p]) (Some c) (Some a)" using pt pts [OF e(2)] False by (simp add: linked_def)
    moreover have "handles ?v5 hp hs" using d(13) pts unfolding handles_def by meson
    moreover have "last ps \<notin> ran hp \<union> L" using lp(2) d(9,10) by auto
    then have "\<forall>r \<in> ran hp \<union> L. \<exists>x. look ?v5 r = Some x \<and> qpos x = r" "\<forall>r \<in> ran hp. look ?v5 r = look ?v r" using d(12) p l5 by auto
    moreover have "last ps \<in> dom (look ?v)" using lp(2) d(11) by auto
    then have "dom (look ?v5) = set (ps @ [p]) \<union> ran hp \<union> L" using d(11) l5 lp by auto
    moreover have "vec_read a ?v5 = Some \<lparr>qvalue = x, qpos = p, qnext = 0\<rparr>" using q_read_ok [OF pt] l5 by simp
    moreover have "small (n + 1) ?v5" using put(8) s5(1) by (simp add: small_def)
    ultimately show ?thesis using push hv [of ?v5] d p s5(2) e(1)
      by (intro exI [of _ a] exI [of _ p] exI [of _ "qcall On_new_item (qcall On_unlock_queue ?q)"]) (simp add: qstate_def)
  qed
qed

text \<open>Copying a handler moves the item, and abandons the one the target held.\<close>

lemma q_assign_ok:
  assumes "qstate ps hp L xs q hs" and "handler_assign (hs b) = (h1, h2)"
  shows "qstate ps (hp(a := hp b, b := None)) (L \<union> set_option (hp a)) xs q (hs(a := h1, b := h2))"
    and "held_value (qitems q) (hp(a := hp b, b := None)) = (held_value (qitems q) hp)(a := held_value (qitems q) hp b, b := None)"
    and "card (L \<union> set_option (hp a)) = card L + (if held_value (qitems q) hp a = None then 0 else 1)"
proof -
  note d = qstateD [OF assms(1)]
  let ?hp = "hp(a := hp b, b := None)" and ?L = "L \<union> set_option (hp a)"
  have h: "h1 = \<lparr>hq = hq (hs b), hi = hi (hs b)\<rparr>" "hi h2 = None" using assms(2) by (auto simp: handler_assign_def)
  have inj: "hp k = Some r \<Longrightarrow> hp l = Some r \<Longrightarrow> k = l" for k l r using d(7) by (metis domI inj_onD)
  have ran: "ran ?hp = ran hp - set_option (hp a) \<union> (if a = b then {} else set_option (hp b) - set_option (hp a))"
    using inj by (auto simp: ran_def split: if_splits) metis+
  have sub: "set_option (hp k) \<subseteq> ran hp" for k by (auto simp: ran_def)
  have "ran ?hp = ran hp - set_option (hp a)" using ran sub [of b] by auto
  note ran = this
  have "inj_on ?hp (dom ?hp)" using inj by (auto simp: inj_on_def split: if_splits)
  moreover have "dom ?hp \<subseteq> insert a (dom hp)" by auto
  then have "finite (dom ?hp)" using d(6) finite_subset by blast
  moreover have "handles (qitems q) ?hp (hs(a := h1, b := h2))"
  proof -
    have "handles (qitems q) (hp(a := hp b)) (hs(a := h1))"
    proof (cases "hp b")
      case None
      then show ?thesis using handles_update(1) [OF d(13), of h1 a] handlesD(1) [OF d(13) None] h(1) by simp
    next
      case (Some p)
      then obtain c where "hs b = \<lparr>hq = True, hi = Some c\<rparr>" "points (qitems q) c p" using handlesD(2) [OF d(13) Some] by blast
      then show ?thesis using handles_update(2) [OF d(13), of c p a] h(1) Some by simp
    qed
    from handles_update(1) [OF this h(2)] show ?thesis .
  qed
  moreover have "ran ?hp \<inter> set ps = {}" "?L \<inter> (set ps \<union> ran ?hp) = {}" "dom (look (qitems q)) = set ps \<union> ran ?hp \<union> ?L"
    using d(9-11) sub [of a] unfolding ran by auto
  moreover have "\<forall>p \<in> ran ?hp \<union> ?L. \<exists>x. look (qitems q) p = Some x \<and> qpos x = p" using d(12) sub [of a] unfolding ran by auto
  ultimately show "qstate ps ?hp ?L xs q (hs(a := h1, b := h2))" using d unfolding qstate_def by simp
  show "held_value (qitems q) ?hp = (held_value (qitems q) hp)(a := held_value (qitems q) hp b, b := None)"
    by (auto simp: held_value_def fun_eq_iff)
  show "card ?L = card L + (if held_value (qitems q) hp a = None then 0 else 1)"
  proof (cases "hp a")
    case (Some p)
    then have "p \<in> ran hp" by (rule ranI)
    then have "p \<notin> L" "look (qitems q) p \<noteq> None" using d(10,12) by auto
    then show ?thesis using Some d(8) by (auto simp: held_value_def)
  qed (simp add: held_value_def)
qed

lemma ran_image: "ran m = (the \<circ> m) ` dom m"
proof (intro set_eqI iffI)
  fix r assume "r \<in> ran m"
  then obtain k where "m k = Some r" by (auto simp: ran_def)
  then show "r \<in> (the \<circ> m) ` dom m" by (intro image_eqI [of _ _ k]) auto
qed (auto simp: ran_def)

lemma held_dom:
  assumes "qstate ps hp L xs q hs"
  shows "dom (held_value (qitems q) hp) = dom hp"
    and "vn_items (qitems q) = length xs + card (dom (held_value (qitems q) hp)) + card L"
    and "card (dom (look (qitems q))) = vn_items (qitems q)"
    and "map_option qvalue (Option.bind (handler_get (hs h)) (\<lambda>a. vec_read a (qitems q))) = held_value (qitems q) hp h"
proof -
  note d = qstateD [OF assms]
  show dom: "dom (held_value (qitems q) hp) = dom hp" using d(12) ranI by (fastforce simp: held_value_def split: bind_splits)
  have "inj_on (the \<circ> hp) (dom hp)"
  proof (rule inj_onI)
    fix k l assume k: "k \<in> dom hp" "l \<in> dom hp" "(the \<circ> hp) k = (the \<circ> hp) l"
    then have "hp k = hp l" by auto
    then show "k = l" using inj_onD [OF d(7)] k(1,2) by blast
  qed
  then have "card (ran hp) = card (dom hp)" using ran_image [of hp] card_image by metis
  moreover have "finite (ran hp)" using d(6) by (rule finite_ran)
  ultimately show "vn_items (qitems q) = length xs + card (dom (held_value (qitems q) hp)) + card L"
    unfolding n_items_card [OF d(1)] d(11) dom using d(3,8,9,10) q_chain_length [OF d(2)]
    by (simp add: card_Un_disjoint distinct_card Int_commute inf_sup_distrib1)
  show "card (dom (look (qitems q))) = vn_items (qitems q)" using n_items_card [OF d(1)] by simp
  show "map_option qvalue (Option.bind (handler_get (hs h)) (\<lambda>a. vec_read a (qitems q))) = held_value (qitems q) hp h"
  proof (cases "hp h")
    case None
    then show ?thesis using handlesD(1) [OF d(13) None] by (simp add: handler_get_def held_value_def)
  next
    case (Some p)
    then obtain a where a: "hs h = \<lparr>hq = True, hi = Some a\<rparr>" "points (qitems q) a p" using handlesD(2) [OF d(13) Some] by blast
    then show ?thesis using Some q_read_ok [OF a(2)] by (simp add: handler_get_def held_value_def)
  qed
qed

subsection \<open>Sequences of operations\<close>

text \<open>The operations of a queue and its handlers, which are numbered; \<open>Object\<close> is what the returned pointer points to.\<close>

datatype 'a qop = Push 'a | Pop nat | Reset nat | Assign nat nat | Get nat | N_items | Size

datatype 'a qres = Object "'a option" | Popped bool | Invalid_state | Done | Number nat

fun qexec :: "(u32 \<Rightarrow> bool) \<Rightarrow> 'a qop \<Rightarrow> 'a queue \<times> (nat \<Rightarrow> handler) \<Rightarrow> ('a qres \<times> 'a queue \<times> (nat \<Rightarrow> handler)) option" where
  "qexec mem (Push t) (q, hs) =
     (case q_push mem t q of
        None \<Rightarrow> None
      | Some (i, q) \<Rightarrow> Some (Object (map_option qvalue (Option.bind i (\<lambda>a. vec_read a (qitems q)))), q, hs))"
| "qexec mem (Pop h) (q, hs) =
     (case q_pop (hs h) q of
        None \<Rightarrow> None
      | Some (r, h', q) \<Rightarrow> Some (case r of Inl e \<Rightarrow> Invalid_state | Inr b \<Rightarrow> Popped b, q, hs(h := h')))"
| "qexec mem (Reset h) (q, hs) =
     (case handler_reset (hs h) q of None \<Rightarrow> None | Some (h', q) \<Rightarrow> Some (Done, q, hs(h := h')))"
| "qexec mem (Assign a b) (q, hs) = (let (h, other) = handler_assign (hs b) in Some (Done, q, hs(a := h, b := other)))"
| "qexec mem (Get h) (q, hs) = Some (Object (map_option qvalue (Option.bind (handler_get (hs h)) (\<lambda>a. vec_read a (qitems q)))), q, hs)"
| "qexec mem N_items (q, hs) = (let (n, q) = q_n_items q in Some (Number n, q, hs))"
| "qexec mem Size (q, hs) = (let (n, q) = q_size q in Some (Number n, q, hs))"

fun qrun :: "(u32 \<Rightarrow> bool) \<Rightarrow> 'a qop list \<Rightarrow> 'a queue \<times> (nat \<Rightarrow> handler) \<Rightarrow> ('a qres list \<times> 'a queue \<times> (nat \<Rightarrow> handler)) option" where
  "qrun mem [] st = Some ([], st)"
| "qrun mem (c # cs) st =
     (case qexec mem c st of
        None \<Rightarrow> None
      | Some (r, st) \<Rightarrow> (case qrun mem cs st of None \<Rightarrow> None | Some (rs, st) \<Rightarrow> Some (r # rs, st)))"

text \<open>The specification: a list of values, what each handler holds, and how many items were abandoned.\<close>

type_synonym 'a fifo = "'a list \<times> (nat \<rightharpoonup> 'a) \<times> nat"

fun fifo_exec :: "'a qop \<Rightarrow> 'a fifo \<Rightarrow> 'a qres \<times> 'a fifo" where
  "fifo_exec (Push t) (xs, held, n) = (Object (Some t), xs @ [t], held, n)"
| "fifo_exec (Pop h) ([], held, n) = (Popped False, [], held, n)"
| "fifo_exec (Pop h) (x # xs, held, n) = (Popped True, xs, held(h \<mapsto> x), n)"
| "fifo_exec (Reset h) (xs, held, n) = (Done, xs, held(h := None), n)"
| "fifo_exec (Assign a b) (xs, held, n) = (Done, xs, held(a := held b, b := None), if held a = None then n else n + 1)"
| "fifo_exec (Get h) (xs, held, n) = (Object (held h), xs, held, n)"
| "fifo_exec N_items (xs, held, n) = (Number (length xs), xs, held, n)"
| "fifo_exec Size (xs, held, n) = (Number (length xs + card (dom held) + n), xs, held, n)"

fun fifo_run :: "'a qop list \<Rightarrow> 'a fifo \<Rightarrow> 'a qres list" where
  "fifo_run [] s = []"
| "fifo_run (c # cs) s = (let (r, s) = fifo_exec c s in r # fifo_run cs s)"

text \<open>A queue after \<open>n\<close> operations implements a state of the specification.\<close>

definition implements :: "nat \<Rightarrow> 'a queue \<times> (nat \<Rightarrow> handler) \<Rightarrow> 'a fifo \<Rightarrow> bool" where
  "implements n = (\<lambda>(q, hs) (xs, held, k). \<exists>ps hp L. qstate ps hp L xs q hs \<and> held = held_value (qitems q) hp \<and> k = card L \<and>
     small n (qitems q) \<and> vn_items (qitems q) \<le> n)"

lemma small_Suc: "small n v \<Longrightarrow> small (n + 1) v"
  by (simp add: small_def)

lemma small_shape: "shape v' = shape v \<Longrightarrow> small n v' = small n v"
  by (simp add: small_def)

lemma implementsI:
  "qstate ps hp L xs q hs \<Longrightarrow> held_value (qitems q) hp = held \<Longrightarrow> card L = k \<Longrightarrow> small n (qitems q) \<Longrightarrow>
     length xs + card (dom held) + k \<le> n \<Longrightarrow> implements n (q, hs) (xs, held, k)"
  using held_dom(2) by (fastforce simp: implements_def)

lemma implements_new: "implements 0 (queue_new e, \<lambda>h. handler_new) ([], Map.empty, 0)"
  by (rule implementsI [OF qstate_new]) (simp_all add: held_value_def queue_new_def small_def new_ok(3))

lemma card_dom_update: "finite (dom m) \<Longrightarrow> card (dom (m(h \<mapsto> x))) \<le> card (dom m) + 1" "finite (dom m) \<Longrightarrow> card (dom (m(h := None))) \<le> card (dom m)"
  by (simp_all add: card_insert_if card_Diff1_le)

lemma q_exec_ok:
  assumes "implements n st s" and "n < 2 ^ 23" and "\<And>m. mem m"
  shows "\<exists>r st'. qexec mem c st = Some (r, st') \<and> r = fst (fifo_exec c s) \<and> implements (n + 1) st' (snd (fifo_exec c s))"
proof -
  obtain q hs xs held k where st: "st = (q, hs)" "s = (xs, held, k)" by (metis prod_cases3 surj_pair)
  obtain ps hp L where i: "qstate ps hp L xs q hs" "held_value (qitems q) hp = held" "card L = k" "small n (qitems q)"
      "vn_items (qitems q) \<le> n"
    using assms(1) st by (auto simp: implements_def)
  note d = held_dom [OF i(1)]
  have c: "length xs + card (dom held) + k \<le> n" "finite (dom held)" "card (dom (look (qitems q))) \<le> n"
    using d i(2,3,5) qstateD(6) [OF i(1)] by auto
  note sm = small_Suc [OF i(4)]
  show ?thesis
  proof (cases c)
    case (Push t)
    obtain a p q' where p: "q_push mem t q = Some (Some a, q')" "qstate (ps @ [p]) hp L (xs @ [t]) q' hs"
        "held_value (qitems q') hp = held" "small (n + 1) (qitems q')" "map_option qvalue (vec_read a (qitems q')) = Some t"
      using q_push_ok [where mem = mem and x = t, OF i(1,4) assms(2,3) c(3)] i(2) by blast
    have "implements (n + 1) (q', hs) (xs @ [t], held, k)" by (rule implementsI [OF p(2,3) i(3) p(4)]) (use c(1) in simp)
    then show ?thesis using p(1,5) st Push by simp
  next
    case (Pop h)
    show ?thesis
    proof (cases xs)
      case Nil
      let ?q = "qcall On_unlock_queue (qcall On_lock_queue q)"
      have "implements (n + 1) (?q, hs) ([], held, k)" by (rule implementsI [of ps hp L]) (use i sm c Nil in simp_all)
      then show ?thesis using q_pop_ok(1) [OF i(1) Nil] st Pop Nil by simp
    next
      case (Cons x ys)
      obtain h' q' where p: "q_pop (hs h) q = Some (Inr True, h', q')" "qstate (tl ps) (hp(h \<mapsto> hd ps)) L ys q' (hs(h := h'))"
          "held_value (qitems q') (hp(h \<mapsto> hd ps)) = held(h \<mapsto> x)" "shape (qitems q') = shape (qitems q)"
        using q_pop_ok(2) [OF i(1) Cons, of h] i(2) by blast
      have "implements (n + 1) (q', hs(h := h')) (ys, held(h \<mapsto> x), k)"
        by (rule implementsI [OF p(2,3) i(3)]) (use small_shape [OF p(4)] sm c Cons card_dom_update(1) [OF c(2), of h x] in simp_all)
      then show ?thesis using p(1) st Pop Cons by simp
    qed
  next
    case (Reset h)
    obtain h' q' where p: "handler_reset (hs h) q = Some (h', q')" "qstate ps (hp(h := None)) L xs q' (hs(h := h'))"
        "held_value (qitems q') (hp(h := None)) = held(h := None)" "shape (qitems q') = shape (qitems q)"
      using q_reset_ok [OF i(1), of h] i(2) by blast
    have "implements (n + 1) (q', hs(h := h')) (xs, held(h := None), k)"
      by (rule implementsI [OF p(2,3) i(3)]) (use small_shape [OF p(4)] sm c card_dom_update(2) [OF c(2), of h] in simp_all)
    then show ?thesis using p(1) st Reset by simp
  next
    case (Assign a b)
    obtain h1 h2 where h: "handler_assign (hs b) = (h1, h2)" by (metis surj_pair)
    note p = q_assign_ok [OF i(1) h, of a]
    have "implements (n + 1) (q, hs(a := h1, b := h2)) (xs, held(a := held b, b := None), if held a = None then k else k + 1)"
    proof (rule implementsI [OF p(1)])
      show "held_value (qitems q) (hp(a := hp b, b := None)) = held(a := held b, b := None)" using p(2) i(2) by simp
      show "card (L \<union> set_option (hp a)) = (if held a = None then k else k + 1)" using p(3) i(2,3) by simp
      have "length xs + card (dom (held(a := held b, b := None))) + card (L \<union> set_option (hp a)) = vn_items (qitems q)"
        using held_dom(2) [OF p(1)] p(2) i(2) by simp
      then show "length xs + card (dom (held(a := held b, b := None))) + (if held a = None then k else k + 1) \<le> n + 1"
        using p(3) i(2,3,5) by simp
    qed (rule sm)
    then show ?thesis using h st Assign by simp
  next
    case (Get h)
    have "implements (n + 1) (q, hs) (xs, held, k)" by (rule implementsI [OF i(1-3) sm]) (use c in simp)
    then show ?thesis using d(4) i(2) st Get by simp
  next
    case N_items
    have "implements (n + 1) (qcall On_unlock_queue (qcall On_lock_queue q), hs) (xs, held, k)"
      by (rule implementsI [of ps hp L]) (use i sm c in simp_all)
    then show ?thesis using st N_items qstateD(4) [OF i(1)] by (simp add: q_n_items_def)
  next
    case Size
    have "implements (n + 1) (qcall On_unlock_queue (qcall On_lock_queue q), hs) (xs, held, k)"
      by (rule implementsI [of ps hp L]) (use i sm c in simp_all)
    then show ?thesis using st Size d(2) i(2,3) by (simp add: q_size_def)
  qed
qed

lemma q_run_ok:
  assumes "\<And>m. mem m"
  shows "implements n st s \<Longrightarrow> n + length cs \<le> 2 ^ 23 \<Longrightarrow>
    \<exists>q hs s'. qrun mem cs st = Some (fifo_run cs s, q, hs) \<and> implements (n + length cs) (q, hs) s'"
proof (induction cs arbitrary: n st s)
  case Nil
  then show ?case by (cases st; cases s) auto
next
  case (Cons c cs)
  then have "n < 2 ^ 23" by simp
  from q_exec_ok [where mem = mem and c = c, OF Cons.prems(1) this assms]
  obtain st' where e: "qexec mem c st = Some (fst (fifo_exec c s), st')" "implements (n + 1) st' (snd (fifo_exec c s))" by blast
  from Cons.IH [OF e(2)] Cons.prems(2) obtain q hs s' where "qrun mem cs st' = Some (fifo_run cs (snd (fifo_exec c s)), q, hs)" "implements (n + 1 + length cs) (q, hs) s'"
    by auto
  then show ?case using e(1) by (intro exI [of _ q] exI [of _ hs] exI [of _ s']) (simp add: case_prod_beta Let_def)
qed

text \<open>
  C11: a queue with its handlers implements a first-in first-out list. Any sequence of
  operations, starting from a new queue, gives the results of the specification, in which \<^verbatim>\<open>push\<close>
  appends a value, \<^verbatim>\<open>pop\<close> hands the first one over to a handler and frees the item it held,
  resetting a handler frees its item, and assigning one moves its item and abandons that of the target; \<^verbatim>\<open>n_items\<close>
  counts the list, and \<^verbatim>\<open>size\<close> the list, the held and the abandoned items. \<^verbatim>\<open>pop\<close> never fails with
  \<^verbatim>\<open>rs_invalid_state\<close>, and no null pointer and no destroyed item is used.
\<close>

theorem queue_refines_fifo:
  assumes "length cs \<le> 2 ^ 23" and "\<And>m. mem m"
  shows "\<exists>q hs. qrun mem cs (queue_new e, \<lambda>h. handler_new) = Some (fifo_run cs ([], Map.empty, 0), q, hs) \<and> vec_inv (qitems q)"
proof -
  obtain q hs s where r: "qrun mem cs (queue_new e, \<lambda>h. handler_new) = Some (fifo_run cs ([], Map.empty, 0), q, hs)" "implements (0 + length cs) (q, hs) s"
    using q_run_ok [where mem = mem, OF assms(2) implements_new, of cs e] assms(1) by auto
  moreover have "vec_inv (qitems q)" using r(2) by (cases s) (auto simp: implements_def dest: qstateD(1))
  ultimately show ?thesis by blast
qed

theorem queue_refines_fifo_witness:
  "\<exists>q hs. qrun (\<lambda>_. True) [Push 5, Push 6, Pop 0, Get 0, Pop 1, Get 1, Assign 0 1, Get 0, Size, Pop 2] (queue_new False, \<lambda>h. handler_new) =
     Some ([Object (Some 5), Object (Some 6), Popped True, Object (Some 5), Popped True, Object (Some 6), Done, Object (Some (6 :: nat)),
       Number 2, Popped False], q, hs)"
proof -
  let ?cs = "[Push 5, Push 6, Pop 0, Get 0, Pop 1, Get 1, Assign 0 1, Get 0, Size, Pop (2 :: nat)]"
  have "fifo_run ?cs ([], Map.empty, 0) =
      [Object (Some 5), Object (Some 6), Popped True, Object (Some 5), Popped True, Object (Some 6), Done, Object (Some 6), Number 2, Popped False]"
    by simp
  moreover have "length ?cs \<le> 2 ^ 23" by simp
  ultimately show ?thesis using queue_refines_fifo [of ?cs "\<lambda>_. True" False] by metis
qed

end
