(* ===== verification/Monitor.thy ===== *)
theory Monitor
  imports Prelude "HOL-Library.Signed_Division"
begin

section \<open>Threads, locked sections and condition variables\<close>

text \<open>
  The classes \<^verbatim>\<open>event\<close>, \<^verbatim>\<open>pevent\<close> and \<^verbatim>\<open>mutex\<close> of \<^verbatim>\<open>src/nthread\<close> have the same structure: the members are
  guarded by a pthread mutex that each function holds from its first to its last access to
  them (\<^verbatim>\<open>scoped_pt_mutex\<close>), except while it sleeps in \<^verbatim>\<open>pthread_cond_wait\<close> or
  \<^verbatim>\<open>pthread_cond_timedwait\<close>. A call is therefore one atomic section, or one until it sleeps and
  one each time it wakes up. This theory has the threads and the condition variable, as POSIX
  describes them: a signal wakes at least one of the sleeping threads, a broadcast all of them; a
  thread may also wake up without a signal, by its timeout, or with an error code. A thread
  that woke up competes for the mutex with all others.
\<close>

text \<open>What the wait functions return, what a section does to the condition variable (\<open>Signal k\<close> is
  \<open>k\<close> calls of \<^verbatim>\<open>pthread_cond_signal\<close>), what a call returns, and how a section ends.\<close>

datatype err = Success | Timedout | Failure

datatype wake = Nobody | Signal nat | Broadcast

datatype ret = Void | Bool bool | Count u32

datatype outcome = Return ret | Block

text \<open>The system: the members of the object, the calls that sleep and those that woke up.\<close>

record ('s, 'c) sys =
  shared :: 's
  sleeping :: "nat \<rightharpoonup> 'c"
  woken :: "nat \<rightharpoonup> 'c \<times> err"

abbreviation inside :: "('s, 'c) sys \<Rightarrow> nat set" where
  "inside S \<equiv> dom (sleeping S) \<union> dom (woken S)"

definition ready :: "('s, 'c) sys \<Rightarrow> nat set" where
  "ready S = {t. \<exists>c. woken S t = Some (c, Success)}"

fun wakes :: "wake \<Rightarrow> nat set \<Rightarrow> nat set \<Rightarrow> bool" where
  "wakes Nobody A W \<longleftrightarrow> W = {}"
| "wakes (Signal k) A W \<longleftrightarrow> W \<subseteq> A \<and> min k (card A) \<le> card W"
| "wakes Broadcast A W \<longleftrightarrow> W = A"

definition wake_up :: "nat set \<Rightarrow> ('s, 'c) sys \<Rightarrow> ('s, 'c) sys" where
  "wake_up W S = S\<lparr>sleeping := sleeping S |` (- W),
     woken := (\<lambda>t. if t \<in> W \<inter> dom (sleeping S) then Some (the (sleeping S t), Success) else woken S t)\<rparr>"

definition sleep :: "nat \<Rightarrow> 'c \<Rightarrow> ('s, 'c) sys \<Rightarrow> ('s, 'c) sys" where
  "sleep t c S = S\<lparr>sleeping := (sleeping S)(t \<mapsto> c)\<rparr>"

definition leave :: "nat \<Rightarrow> ('s, 'c) sys \<Rightarrow> ('s, 'c) sys" where
  "leave t S = S\<lparr>woken := (woken S)(t := None)\<rparr>"

definition wake_one :: "nat \<Rightarrow> 'c \<Rightarrow> err \<Rightarrow> ('s, 'c) sys \<Rightarrow> ('s, 'c) sys" where
  "wake_one t c e S = S\<lparr>sleeping := (sleeping S)(t := None), woken := (woken S)(t \<mapsto> (c, e))\<rparr>"

text \<open>
  The functions of a class: \<open>enter\<close> is the section of a call up to its end or its first sleep,
  \<open>resume\<close> the one after it woke up, with the result of the wait function. \<open>timed\<close> tells the calls
  with a timeout, \<open>allowed\<close> those that the clients make. \<open>ok\<close> says that the counters of the object
  have not reached their maximum.
\<close>

record ('s, 'c) monitor =
  enter :: "nat \<Rightarrow> 'c \<Rightarrow> 's \<Rightarrow> 's \<times> wake \<times> outcome"
  resume :: "nat \<Rightarrow> 'c \<Rightarrow> err \<Rightarrow> 's \<Rightarrow> 's \<times> wake \<times> outcome"
  timed :: "'c \<Rightarrow> bool"
  allowed :: "'c \<Rightarrow> bool"
  ok :: "'s \<Rightarrow> bool"

text \<open>The steps, labelled with the call that returned, if one did.\<close>

inductive mstep :: "('s, 'c) monitor \<Rightarrow> ('s, 'c) sys \<Rightarrow> (nat \<times> 'c \<times> ret) list \<Rightarrow> ('s, 'c) sys \<Rightarrow> bool"
  for M where
  enter_return: "t \<notin> inside S \<Longrightarrow> allowed M c \<Longrightarrow> enter M t c (shared S) = (s', w, Return r) \<Longrightarrow> wakes w (dom (sleeping S)) W \<Longrightarrow>
    mstep M S [(t, c, r)] ((wake_up W S)\<lparr>shared := s'\<rparr>)"
| enter_block: "t \<notin> inside S \<Longrightarrow> allowed M c \<Longrightarrow> enter M t c (shared S) = (s', w, Block) \<Longrightarrow> wakes w (dom (sleeping S)) W \<Longrightarrow>
    mstep M S [] (sleep t c ((wake_up W S)\<lparr>shared := s'\<rparr>))"
| resume_return: "woken S t = Some (c, e) \<Longrightarrow> resume M t c e (shared S) = (s', w, Return r) \<Longrightarrow> wakes w (dom (sleeping S)) W \<Longrightarrow>
    mstep M S [(t, c, r)] ((leave t (wake_up W S))\<lparr>shared := s'\<rparr>)"
| resume_block: "woken S t = Some (c, e) \<Longrightarrow> resume M t c e (shared S) = (s', w, Block) \<Longrightarrow> wakes w (dom (sleeping S)) W \<Longrightarrow>
    mstep M S [] (sleep t c ((leave t (wake_up W S))\<lparr>shared := s'\<rparr>))"
| timeout: "sleeping S t = Some c \<Longrightarrow> timed M c \<Longrightarrow> mstep M S [] (wake_one t c Timedout S)"
| spurious: "sleeping S t = Some c \<Longrightarrow> mstep M S [] (wake_one t c Success S)"
| failure: "sleeping S t = Some c \<Longrightarrow> mstep M S [] (wake_one t c Failure S)"

text \<open>A run from an object just constructed, with the calls that have returned.\<close>

definition idle :: "'s \<Rightarrow> ('s, 'c) sys" where
  "idle s = \<lparr>shared = s, sleeping = Map.empty, woken = Map.empty\<rparr>"

inductive run :: "('s, 'c) monitor \<Rightarrow> 's \<Rightarrow> (nat \<times> 'c \<times> ret) list \<Rightarrow> ('s, 'c) sys \<Rightarrow> bool"
  for M s0 where
  start: "run M s0 [] (idle s0)"
| more: "run M s0 tr S \<Longrightarrow> ok M (shared S) \<Longrightarrow> mstep M S l S' \<Longrightarrow> run M s0 (tr @ l) S'"

inductive_cases mstepE: "mstep M S l S'"

lemmas sys_defs = wake_up_def sleep_def leave_def wake_one_def ready_def

lemma unat_plus_1: "w \<noteq> - 1 \<Longrightarrow> unat (w + 1) = Suc (unat (w :: 'a::len word))"
  by (metis add.commute add_eq_0_iff unatSuc)

lemma unat_minus_1: "0 < unat w \<Longrightarrow> unat (w - 1) = unat (w :: 'a::len word) - 1"
  by (metis less_not_refl unat_0 unat_minus_one)

subsection \<open>Threads in the sections\<close>

lemma wake_up_threads [simp]:
  "dom (sleeping (wake_up W S)) = dom (sleeping S) - W" "dom (woken (wake_up W S)) = dom (woken S) \<union> W \<inter> dom (sleeping S)"
  "shared (wake_up W S) = shared S"
  by (auto simp: wake_up_def restrict_map_def split: if_splits)

lemma inside_wake_up: "dom (sleeping S) - W \<union> (dom (woken S) \<union> W \<inter> dom (sleeping S)) = inside S"
  by auto

lemma inside_leave: "t \<notin> dom (sleeping S) \<Longrightarrow> dom (sleeping S) - W \<union> (dom (woken S) \<union> W \<inter> dom (sleeping S) - {t}) = inside S - {t}"
  by auto

lemma inside_wake_one: "sleeping S t = Some c \<Longrightarrow> insert t (dom (sleeping S) - {t} \<union> dom (woken S)) = inside S"
  by auto

lemma sleep_threads [simp]:
  "dom (sleeping (sleep t c S)) = insert t (dom (sleeping S))" "woken (sleep t c S) = woken S" "shared (sleep t c S) = shared S"
  by (auto simp: sleep_def)

lemma leave_threads [simp]:
  "sleeping (leave t S) = sleeping S" "dom (woken (leave t S)) = dom (woken S) - {t}" "shared (leave t S) = shared S"
  by (auto simp: leave_def)

lemma wake_one_threads [simp]:
  "dom (sleeping (wake_one t c e S)) = dom (sleeping S) - {t}" "dom (woken (wake_one t c e S)) = insert t (dom (woken S))"
  "shared (wake_one t c e S) = shared S"
  by (auto simp: wake_one_def)

text \<open>A call is in one place.\<close>

definition proper :: "('s, 'c) sys \<Rightarrow> bool" where
  "proper S \<longleftrightarrow> finite (inside S) \<and> dom (sleeping S) \<inter> dom (woken S) = {}"

lemma ready_wake_up: "W \<subseteq> dom (sleeping S) \<Longrightarrow> proper S \<Longrightarrow> ready (wake_up W S) = ready S \<union> W"
  by (auto simp: ready_def wake_up_def proper_def)

lemma ready_dom: "ready S \<subseteq> dom (woken S)"
  by (auto simp: ready_def)

lemma finite_ready: "proper S \<Longrightarrow> finite (ready S)"
  using ready_dom by (auto simp: proper_def intro: finite_subset)

lemma ready_leave: "ready (leave t S) = ready S - {t}"
  by (auto simp: ready_def leave_def)

lemma ready_sleep [simp]: "ready (sleep t c S) = ready S"
  by (simp add: ready_def)

lemma ready_wake_one: "proper S \<Longrightarrow> sleeping S t = Some c \<Longrightarrow> ready S \<subseteq> ready (wake_one t c e S)"
  by (auto simp: ready_def wake_one_def proper_def)

lemma ready_shared [simp]: "ready (S\<lparr>shared := s\<rparr>) = ready S"
  by (simp add: ready_def)

lemma wakes_subset: "wakes w A W \<Longrightarrow> W \<subseteq> A"
  by (cases w) auto

lemma mstep_proper: "mstep M S l S' \<Longrightarrow> proper S \<Longrightarrow> proper S'"
  by (induction rule: mstep.induct) (auto simp: proper_def dest: wakes_subset)

text \<open>
  The members count the calls in progress: each class keeps its counter \<^verbatim>\<open>waiting_\<close> right if a section
  counts up when it goes to sleep for the first time and down when the call returns after a sleep.
\<close>

locale counted =
  fixes M :: "('s, 'c) monitor" and s0 :: 's and waiting :: "'s \<Rightarrow> u32"
  assumes waiting_init: "waiting s0 = 0"
    and waiting_max: "ok M s \<Longrightarrow> waiting s \<noteq> - 1"
    and enter_return_waiting: "ok M s \<Longrightarrow> allowed M c \<Longrightarrow> enter M t c s = (s', w, Return r) \<Longrightarrow> waiting s' = waiting s"
    and enter_block_waiting: "ok M s \<Longrightarrow> allowed M c \<Longrightarrow> enter M t c s = (s', w, Block) \<Longrightarrow> waiting s' = waiting s + 1"
    and resume_return_waiting: "ok M s \<Longrightarrow> resume M t c e s = (s', w, Return r) \<Longrightarrow> waiting s' = waiting s - 1"
    and resume_block_waiting: "ok M s \<Longrightarrow> resume M t c e s = (s', w, Block) \<Longrightarrow> waiting s' = waiting s"
begin

lemma step_counted:
  assumes "mstep M S l S'" and "ok M (shared S)" and "proper S" and "unat (waiting (shared S)) = card (inside S)"
  shows "unat (waiting (shared S')) = card (inside S')"
  using assms
proof (induction rule: mstep.induct)
  case (enter_return t S c s' w r W)
  then show ?case by (simp add: enter_return_waiting inside_wake_up)
next
  case (enter_block t S c s' w W)
  have "unat (waiting (shared S) + 1) = Suc (card (inside S))"
    using enter_block waiting_max by (simp add: unat_plus_1)
  then show ?case using enter_block by (simp add: enter_block_waiting inside_wake_up proper_def)
next
  case (resume_return S t c e s' w r W)
  then have t: "t \<in> inside S" "t \<notin> dom (sleeping S)" "finite (inside S)" by (auto simp: proper_def)
  then have "0 < card (inside S)" by (auto simp only: card_gt_0_iff)
  then have "unat (waiting (shared S) - 1) = card (inside S - {t})"
    using resume_return(5,6) t by (simp only: unat_minus_1 card_Diff_singleton)
  then show ?case using resume_return t by (simp add: resume_return_waiting inside_wake_up inside_leave)
next
  case (resume_block S t c e s' w W)
  then have "t \<notin> dom (sleeping S)" "insert t (inside S - {t}) = inside S" by (auto simp: proper_def)
  then show ?case using resume_block by (simp add: resume_block_waiting inside_leave)
qed (simp_all add: inside_wake_one)

lemma run_counted: "run M s0 tr S \<Longrightarrow> proper S \<and> unat (waiting (shared S)) = card (inside S)"
proof (induction rule: run.induct)
  case start
  show ?case by (simp add: idle_def proper_def waiting_init)
next
  case (more tr S l S')
  then show ?case using step_counted mstep_proper by blast
qed

end

text \<open>
  No lost wake-ups. \<open>tokens\<close> is how many sleeping calls could return. A section that makes more of
  them, while threads are waiting, sends as many signals as there are tokens, or a broadcast; a call
  sleeps only when there is none, and one that wakes up takes one. Then, at any time, all calls are
  awake or there are as many calls awake as tokens.
\<close>

locale delivering = counted +
  fixes tokens :: "'s \<Rightarrow> nat"
  assumes enter_tokens: "ok M s \<Longrightarrow> allowed M c \<Longrightarrow> enter M t c s = (s', w, out) \<Longrightarrow>
      tokens s' \<le> tokens s \<or> waiting s = 0 \<or> w = Broadcast \<or> (\<exists>k. w = Signal k \<and> tokens s' \<le> k)"
    and enter_block_tokens: "ok M s \<Longrightarrow> allowed M c \<Longrightarrow> enter M t c s = (s', w, Block) \<Longrightarrow> tokens s' = 0"
    and resume_tokens: "ok M s \<Longrightarrow> resume M t c Success s = (s', w, Return r) \<Longrightarrow> tokens s' \<le> tokens s - 1"
    and resume_error_tokens: "ok M s \<Longrightarrow> resume M t c e s = (s', w, Return r) \<Longrightarrow> tokens s' \<le> tokens s"
    and resume_block_tokens: "ok M s \<Longrightarrow> resume M t c e s = (s', w, Block) \<Longrightarrow> tokens s = 0 \<and> tokens s' = 0"
begin

definition delivered :: "('s, 'c) sys \<Rightarrow> bool" where
  "delivered S \<longleftrightarrow> dom (sleeping S) = {} \<or> tokens (shared S) \<le> card (ready S)"

lemma wake_delivered:
  assumes "proper S" and "wakes w (dom (sleeping S)) W" and "delivered S"
    and "n \<le> tokens (shared S) \<or> dom (sleeping S) = {} \<or> w = Broadcast \<or> (\<exists>k. w = Signal k \<and> n \<le> k)"
  shows "dom (sleeping S) - W = {} \<or> n \<le> card (ready (wake_up W S))"
proof -
  have W: "W \<subseteq> dom (sleeping S)" using wakes_subset [OF assms(2)] .
  have f: "finite (ready (wake_up W S))" "finite (dom (sleeping S))" using assms(1) W
    by (auto simp: ready_wake_up finite_ready) (auto simp: proper_def intro: finite_subset)
  have c: "card (ready S) \<le> card (ready (wake_up W S))" "card W \<le> card (ready (wake_up W S))"
    using f(1) by (auto simp: ready_wake_up [OF W assms(1)] intro!: card_mono)
  from assms(4) show ?thesis
  proof (elim disjE exE conjE)
    assume "n \<le> tokens (shared S)"
    then show ?thesis using assms(3) c(1) W by (auto simp: delivered_def)
  next
    fix k assume k: "w = Signal k" "n \<le> k"
    show ?thesis
    proof (cases "W = dom (sleeping S)")
      case False
      then have "card W < card (dom (sleeping S))" using W f by (auto intro: psubset_card_mono)
      then show ?thesis using k assms(2) c(2) by auto
    qed simp
  qed (use assms(2) in auto)
qed

lemma wake_one_delivered:
  assumes "proper S" and "sleeping S t = Some c" and "delivered S"
  shows "delivered (wake_one t c e S)"
proof -
  have "finite (ready (wake_one t c e S))" using ready_dom [of "wake_one t c e S"] assms(1)
    by (auto simp: proper_def intro: finite_subset)
  then have "card (ready S) \<le> card (ready (wake_one t c e S))" using ready_wake_one [OF assms(1,2)] by (rule card_mono)
  then show ?thesis using assms(2,3) by (auto simp: delivered_def)
qed

lemma step_delivered:
  assumes "mstep M S l S'" and "ok M (shared S)" and "proper S" and "unat (waiting (shared S)) = card (inside S)" and "delivered S"
  shows "delivered S'"
  using assms
proof (induction rule: mstep.induct)
  case (enter_return t S c s' w r W)
  have "waiting (shared S) = 0 \<Longrightarrow> dom (sleeping S) = {}" using enter_return(5-7) by (auto simp: proper_def)
  then have "tokens s' \<le> tokens (shared S) \<or> dom (sleeping S) = {} \<or> w = Broadcast \<or> (\<exists>k. w = Signal k \<and> tokens s' \<le> k)"
    using enter_tokens [OF enter_return(5,2,3)] by auto
  from wake_delivered [OF enter_return(6,4,8) this] show ?case by (auto simp: delivered_def)
next
  case (enter_block t S c s' w W)
  then show ?case by (auto simp: delivered_def enter_block_tokens)
next
  case (resume_return S t c e s' w r W)
  have "t \<notin> W" using resume_return(1,5) wakes_subset [OF resume_return(3)] by (auto simp: proper_def)
  then have tr: "t \<in> ready (wake_up W S) \<longleftrightarrow> e = Success"
    using ready_wake_up [OF wakes_subset [OF resume_return(3)] resume_return(5)] resume_return(1) by (simp add: ready_def)
  show ?case
  proof (cases "e = Success")
    case True
    show ?thesis
    proof (cases "tokens (shared S) = 0")
      case True
      then show ?thesis using resume_return resume_error_tokens [of "shared S"] by (auto simp: delivered_def)
    next
      case False
      then have "tokens s' + 1 \<le> tokens (shared S)" using resume_return \<open>e = Success\<close> resume_tokens [of "shared S"] by fastforce
      then have "dom (sleeping S) - W = {} \<or> tokens s' + 1 \<le> card (ready (wake_up W S))"
        using wake_delivered [OF resume_return(5,3,7)] by blast
      then show ?thesis using tr \<open>e = Success\<close> by (auto simp: delivered_def ready_leave)
    qed
  next
    case False
    have "dom (sleeping S) - W = {} \<or> tokens s' \<le> card (ready (wake_up W S))"
      using wake_delivered [OF resume_return(5,3,7)] resume_error_tokens [OF resume_return(4,2)] by blast
    then show ?thesis using tr False by (auto simp: delivered_def ready_leave)
  qed
next
  case (resume_block S t c e s' w W)
  then show ?case by (auto simp: delivered_def resume_block_tokens)
qed (auto intro: wake_one_delivered)

lemma run_delivered: "run M s0 tr S \<Longrightarrow> delivered S"
proof (induction rule: run.induct)
  case start
  show ?case by (simp add: idle_def delivered_def)
next
  case (more tr S l S')
  then show ?case using step_delivered run_counted by blast
qed

text \<open>While a call sleeps although there is a token, another call is ready and its next section returns.\<close>

lemma run_progress:
  assumes "run M s0 tr S" and "ok M (shared S)" and "0 < tokens (shared S)" and "dom (sleeping S) \<noteq> {}"
  shows "\<exists>t c r s' w. woken S t = Some (c, Success) \<and> resume M t c Success (shared S) = (s', w, Return r)"
proof -
  have "0 < card (ready S)" using run_delivered [OF assms(1)] assms(3,4) by (simp add: delivered_def)
  then obtain t c where t: "woken S t = Some (c, Success)" by (auto simp: ready_def card_gt_0_iff)
  obtain s' w out where r: "resume M t c Success (shared S) = (s', w, out)" by (metis prod_cases3)
  then have "out \<noteq> Block" using resume_block_tokens [OF assms(2)] assms(3) by fastforce
  then show ?thesis using t r by (cases out) blast+
qed


end

lemma one_step_run: "mstep M (idle s0) l S \<Longrightarrow> ok M s0 \<Longrightarrow> run M s0 l S"
  using run.more [OF run.start, of M s0 l S] by (simp add: idle_def)

lemma two_step_run:
  assumes "mstep M (idle s0) l S" and "ok M s0" and "ok M (shared S)" and "mstep M S l' S'"
  shows "run M s0 (l @ l') S'"
  using run.more [OF one_step_run [OF assms(1,2)] assms(3,4)] .

text \<open>The calls in progress are those that can sleep.\<close>

definition only :: "('c \<Rightarrow> bool) \<Rightarrow> ('s, 'c) sys \<Rightarrow> bool" where
  "only P S \<longleftrightarrow> (\<forall>t c. sleeping S t = Some c \<longrightarrow> P c) \<and> (\<forall>t c e. woken S t = Some (c, e) \<longrightarrow> P c)"

lemma only_woken: "only P S \<Longrightarrow> woken S t = Some (c, e) \<Longrightarrow> P c"
  unfolding only_def by blast

lemma only_wake_up: "only P S \<Longrightarrow> only P (wake_up W S)"
  by (fastforce simp: only_def wake_up_def restrict_map_def split: if_splits)

lemma only_sleep: "only P S \<Longrightarrow> P c \<Longrightarrow> only P (sleep t c S)"
  by (auto simp: only_def sleep_def)

lemma only_leave: "only P S \<Longrightarrow> only P (leave t S)"
  unfolding only_def leave_def by (simp del: split_paired_All)

lemma only_wake_one: "only P S \<Longrightarrow> sleeping S t = Some c \<Longrightarrow> only P (wake_one t c e S)"
  by (auto simp: only_def wake_one_def)

lemma only_shared: "only P (S\<lparr>shared := s\<rparr>) = only P S"
  by (simp add: only_def)

lemma step_only:
  assumes "mstep M S l S'" and "only P S" and "\<And>t c s s' w. enter M t c s = (s', w, Block) \<Longrightarrow> P c"
  shows "only P S'"
  using assms(1,2)
proof (induction rule: mstep.induct)
  case (enter_block t S c s' w W)
  then show ?case using assms(3) by (simp add: only_sleep only_shared only_wake_up)
next
  case (resume_block S t c e s' w W)
  have "P c" using only_woken [OF resume_block(4,1)] .
  then show ?case using resume_block(4) by (simp add: only_sleep only_shared only_leave only_wake_up)
qed (simp_all add: only_shared only_leave only_wake_up only_wake_one)

lemma run_only:
  assumes "run M s0 tr S" and "\<And>t c s s' w. enter M t c s = (s', w, Block) \<Longrightarrow> P c"
  shows "only P S"
  using assms(1)
proof (induction rule: run.induct)
  case start
  show ?case by (simp add: only_def idle_def)
next
  case (more tr S l S')
  then show ?case using step_only assms(2) by blast
qed

subsection \<open>Letting the woken calls run\<close>

text \<open>The steps in which nothing happens but that the calls that woke up run their next section.\<close>

inductive settle :: "('s, 'c) monitor \<Rightarrow> ('s, 'c) sys \<Rightarrow> (nat \<times> 'c \<times> ret) list \<Rightarrow> ('s, 'c) sys \<Rightarrow> bool" for M S0 where
  settle_done: "settle M S0 [] S0"
| settle_more: "settle M S0 tr S \<Longrightarrow> t \<in> dom (woken S) \<Longrightarrow> mstep M S l S' \<Longrightarrow> woken S' = (woken S)(t := None) \<Longrightarrow> settle M S0 (tr @ l) S'"

lemma settle_step:
  assumes "mstep M S l S'" and "t \<in> dom (woken S)" and "woken S' = (woken S)(t := None)" and "proper S"
  shows "\<exists>c e w out. woken S t = Some (c, e) \<and> resume M t c e (shared S) = (shared S', w, out) \<and>
    (case out of Return r \<Rightarrow> l = [(t, c, r)] \<and> dom (sleeping S') = dom (sleeping S)
               | Block \<Rightarrow> l = [] \<and> dom (sleeping S') = insert t (dom (sleeping S)))"
proof -
  have d: "dom (woken S') = dom (woken S) - {t}" using assms(3) by auto
  have z: "t' = t" "W = {}" if "dom (woken S) \<union> W \<inter> dom (sleeping S) - {t'} = dom (woken S) - {t}" "t' \<in> dom (woken S)" "W \<subseteq> dom (sleeping S)" for t' W
  proof -
    show "t' = t" using that(1,2) by blast
    have "x \<notin> W" for x
    proof
      assume "x \<in> W"
      then have "x \<in> dom (sleeping S)" "x \<notin> dom (woken S)" using that(3) assms(4) by (auto simp: proper_def)
      then show False using that(1,2) \<open>x \<in> W\<close> by blast
    qed
    then show "W = {}" by blast
  qed
  from assms(1) show ?thesis
  proof (cases rule: mstep.cases)
    case (enter_return t' c s' w r W)
    have "dom (woken S) \<subseteq> dom (woken S')" unfolding enter_return(2) by simp
    then show ?thesis using d assms(2) by blast
  next
    case (enter_block t' c s' w W)
    have "dom (woken S) \<subseteq> dom (woken S')" unfolding enter_block(2) by simp
    then show ?thesis using d assms(2) by blast
  next
    case (resume_return t' c e s' w r W)
    have "dom (woken S) \<union> W \<inter> dom (sleeping S) - {t'} = dom (woken S) - {t}" using d unfolding resume_return(2) by simp
    from z [OF this _ wakes_subset [OF resume_return(5)]] have "t' = t" "W = {}" using resume_return(3) by blast+
    then show ?thesis using resume_return(1,3,4) unfolding resume_return(2) by simp
  next
    case (resume_block t' c e s' w W)
    have "dom (woken S) \<union> W \<inter> dom (sleeping S) - {t'} = dom (woken S) - {t}" using d unfolding resume_block(2) by simp
    from z [OF this _ wakes_subset [OF resume_block(5)]] have "t' = t" "W = {}" using resume_block(3) by blast+
    then show ?thesis using resume_block(1,3,4) unfolding resume_block(2) by simp
  next
    case (timeout t' c)
    have "dom (woken S) \<subseteq> dom (woken S')" unfolding timeout(2) by auto
    then show ?thesis using d assms(2) by blast
  next
    case (spurious t' c)
    have "dom (woken S) \<subseteq> dom (woken S')" unfolding spurious(2) by auto
    then show ?thesis using d assms(2) by blast
  next
    case (failure t' c)
    have "dom (woken S) \<subseteq> dom (woken S')" unfolding failure(2) by auto
    then show ?thesis using d assms(2) by blast
  qed
qed

text \<open>The sections come to an end, since each takes one call from those that woke up.\<close>

lemma settle_ends:
  assumes "proper S" and "\<And>t c e s. \<exists>s' out. resume M t c e s = (s', Nobody, out)"
  shows "\<exists>tr S'. settle M S tr S' \<and> woken S' = Map.empty"
proof -
  have "settle M S tr S1 \<Longrightarrow> proper S1 \<Longrightarrow> \<exists>tr' S'. settle M S tr' S' \<and> woken S' = Map.empty" for S1 tr
  proof (induction "card (dom (woken S1))" arbitrary: S1 tr)
    case 0
    then show ?case by (auto simp: proper_def)
  next
    case (Suc n)
    then obtain t c e where t: "woken S1 t = Some (c, e)" by (metis card.empty dom_eq_empty_conv ex_in_conv not_None_eq domIff old.prod.exhaust nat.distinct(1))
    obtain s' out where r: "resume M t c e (shared S1) = (s', Nobody, out)" using assms(2) by blast
    define S2 where "S2 = (case out of Return r \<Rightarrow> (leave t (wake_up {} S1))\<lparr>shared := s'\<rparr> | Block \<Rightarrow> sleep t c ((leave t (wake_up {} S1))\<lparr>shared := s'\<rparr>))"
    have m: "\<exists>l. mstep M S1 l S2"
      using mstep.resume_return [where M = M and W = "{}", OF t] mstep.resume_block [where M = M and W = "{}", OF t] r
      by (cases out) (auto simp: S2_def)
    then obtain l where l: "mstep M S1 l S2" by blast
    have w: "woken S2 = (woken S1)(t := None)" by (cases out) (auto simp: S2_def leave_def wake_up_def sleep_def)
    then have "settle M S (tr @ l) S2" using Suc.prems(1) l t by (auto intro: settle_more)
    moreover have "proper S2" using mstep_proper [OF l Suc.prems(2)] .
    moreover have "n = card (dom (woken S2))" using w Suc.hyps(2) t by (simp add: domI)
    ultimately show ?case using Suc.hyps(1) by blast
  qed
  then show ?thesis using settle_done assms(1) by blast
qed

subsection \<open>Deadlines\<close>

text \<open>
  The time until which \<^verbatim>\<open>pthread_cond_timedwait\<close> sleeps, from the result of \<^verbatim>\<open>gettimeofday\<close> and the timeout in milliseconds:
  seconds and nanoseconds. \<^verbatim>\<open>tv_usec\<close> is a signed 64-bit number.
\<close>

definition deadline :: "int \<Rightarrow> int \<Rightarrow> u64 \<Rightarrow> int \<times> int" where
  "deadline tv_sec tv_usec timeout_ms =
     (let tv_usec = sint (word_of_int tv_usec + timeout_ms * 1000)
      in (tv_sec + tv_usec sdiv 1000000, (tv_usec smod 1000000) * 1000))"

lemma deadline_exact:
  assumes "0 \<le> tv_usec" and "tv_usec < 1000000" and "timeout_ms < 2 ^ 50" and "deadline tv_sec tv_usec timeout_ms = (s, n)"
  shows "s * 1000000000 + n = tv_sec * 1000000000 + tv_usec * 1000 + uint timeout_ms * 1000000 \<and> 0 \<le> n \<and> n < 1000000000"
proof -
  have "uint timeout_ms < 2 ^ 50" using assms(3) by (simp add: word_less_def)
  then have b: "tv_usec + uint timeout_ms * 1000 < 2 ^ 63" using assms(2) by simp
  have "word_of_int tv_usec + timeout_ms * 1000 = word_of_int (tv_usec + uint timeout_ms * 1000)"
    by simp
  moreover have "sint (word_of_int (tv_usec + uint timeout_ms * 1000) :: u64) = tv_usec + uint timeout_ms * 1000"
    unfolding sint_sbintrunc' using b assms(1) by (intro signed_take_bit_int_eq_self) (simp_all add: order_trans [OF _ add_nonneg_nonneg])
  ultimately have u: "sint (word_of_int tv_usec + timeout_ms * 1000) = tv_usec + uint timeout_ms * 1000" (is "_ = ?u") by simp
  have "0 \<le> ?u" using assms(1) by simp
  then have "?u sdiv 1000000 = ?u div 1000000" "?u smod 1000000 = ?u mod 1000000"
    by (auto simp: signed_divide_int_def signed_modulo_int_def sgn_if)
  then have "s = tv_sec + ?u div 1000000" "n = (?u mod 1000000) * 1000" using assms(4) u by (simp_all add: deadline_def Let_def)
  moreover have "?u div 1000000 * 1000000 + ?u mod 1000000 = ?u" "0 \<le> ?u mod 1000000" "?u mod 1000000 < 1000000" by simp_all
  ultimately show ?thesis by (intro conjI; linarith)
qed

end
