(* ===== verification/Event.thy ===== *)
theory Event
  imports Monitor
begin

section \<open>Events\<close>

text \<open>
  The class \<^verbatim>\<open>event\<close> of \<^verbatim>\<open>src/nthread/event_impl_pthread.cc\<close>: a counter of notifications that threads
  wait for. \<^verbatim>\<open>mtx_\<close> and \<^verbatim>\<open>cond_\<close> are the mutex and the condition variable of the theory
  \<open>Monitor\<close>. The functions return the new state, what they do to the condition variable, and
  their result.
\<close>

record event =
  invalid :: bool
  waiting :: u32
  available :: u32

definition event_new :: event where
  "event_new = \<lparr>invalid = False, waiting = 0, available = 0\<rparr>"

text \<open>The destructor, up to the point where the mutex is unlocked and destroyed.\<close>

definition event_delete :: "event \<Rightarrow> event \<times> wake" where
  "event_delete e =
     (let e = e\<lparr>invalid := True\<rparr>; e = e\<lparr>available := waiting e\<rparr>
      in (e, if waiting e > 0 then Broadcast else Nobody))"

definition event_notify :: "u32 \<Rightarrow> event \<Rightarrow> event \<times> wake \<times> bool" where
  "event_notify n e =
     (if n = 0 then (e, Nobody, False)
      else if invalid e then (e, Nobody, False)
      else let e = e\<lparr>available := available e + n\<rparr>
           in if waiting e = 0 then (e, Nobody, True)
              else if available e \<ge> waiting e then (e, Broadcast, True)
              else (e, Signal (unat (available e)), True))"

definition event_notify_all :: "event \<Rightarrow> event \<times> wake \<times> bool" where
  "event_notify_all e =
     (if invalid e then (e, Nobody, False)
      else let e = (if available e \<le> waiting e then e\<lparr>available := waiting e\<rparr> else e)
           in (e, if waiting e > 0 then Broadcast else Nobody, True))"

definition event_clear_available :: "event \<Rightarrow> event" where
  "event_clear_available e = e\<lparr>available := 0\<rparr>"

text \<open>The end of \<^verbatim>\<open>wait\<close>, the test of its loops, its section up to the first sleep, and the one after
  the wait function returned \<open>err\<close>.\<close>

definition event_wait_end :: "bool \<Rightarrow> event \<Rightarrow> event \<times> wake \<times> outcome" where
  "event_wait_end ret e =
     (let e = e\<lparr>waiting := waiting e - 1\<rparr>;
          e = (if ret \<and> available e \<noteq> 0 then e\<lparr>available := available e - 1\<rparr> else e)
      in (e, Nobody, Return (Bool ret)))"

definition event_wait_loop :: "event \<Rightarrow> event \<times> wake \<times> outcome" where
  "event_wait_loop e = (if available e = 0 then (e, Nobody, Block) else event_wait_end True e)"

definition event_wait :: "event \<Rightarrow> event \<times> wake \<times> outcome" where
  "event_wait e =
     (let e = e\<lparr>waiting := waiting e + 1\<rparr>
      in if invalid e then event_wait_end False e else event_wait_loop e)"

definition event_wait_woken :: "err \<Rightarrow> event \<Rightarrow> event \<times> wake \<times> outcome" where
  "event_wait_woken err e =
     (case err of
        Timedout \<Rightarrow> event_wait_end False e
      | Success \<Rightarrow> event_wait_loop e
      | Failure \<Rightarrow> event_wait_end False e)"

definition event_wait_nb :: "event \<Rightarrow> event \<times> bool" where
  "event_wait_nb e =
     (if invalid e then (e, False)
      else if available e \<noteq> 0 then (e\<lparr>available := available e - 1\<rparr>, True)
      else (e, False))"

definition event_waiting_count :: "event \<Rightarrow> u32" where
  "event_waiting_count e = waiting e"

definition event_available_count :: "event \<Rightarrow> u32" where
  "event_available_count e = available e"

text \<open>The calls of an event object, with the timeout in milliseconds, 0 for none.\<close>

datatype event_call = Notify u32 | Notify_all | Clear_available | Wait u64 | Wait_nb | Waiting_count | Available_count

fun event_enter :: "nat \<Rightarrow> event_call \<Rightarrow> event \<Rightarrow> event \<times> wake \<times> outcome" where
  "event_enter t (Notify n) e = (case event_notify n e of (e, w, r) \<Rightarrow> (e, w, Return (Bool r)))"
| "event_enter t Notify_all e = (case event_notify_all e of (e, w, r) \<Rightarrow> (e, w, Return (Bool r)))"
| "event_enter t Clear_available e = (event_clear_available e, Nobody, Return Void)"
| "event_enter t (Wait ms) e = event_wait e"
| "event_enter t Wait_nb e = (case event_wait_nb e of (e, r) \<Rightarrow> (e, Nobody, Return (Bool r)))"
| "event_enter t Waiting_count e = (e, Nobody, Return (Count (event_waiting_count e)))"
| "event_enter t Available_count e = (e, Nobody, Return (Count (event_available_count e)))"

definition event_timed :: "event_call \<Rightarrow> bool" where
  "event_timed c = (case c of Wait ms \<Rightarrow> ms \<noteq> 0 | _ \<Rightarrow> False)"

definition event_monitor :: "(event, event_call) monitor" where
  "event_monitor = \<lparr>enter = event_enter, resume = \<lambda>t c. event_wait_woken, timed = event_timed, allowed = \<lambda>c. True,
     ok = \<lambda>e. waiting e \<noteq> - 1\<rparr>"

lemmas event_defs = event_notify_def event_notify_all_def event_clear_available_def event_wait_def event_wait_loop_def
  event_wait_end_def event_wait_woken_def event_wait_nb_def event_monitor_def Let_def

lemma event_wait_loop_cases:
  "event_wait_loop e = (e', w, out) \<Longrightarrow> w = Nobody \<and>
     (if available e = 0 then e' = e \<and> out = Block
      else e' = e\<lparr>waiting := waiting e - 1, available := available e - 1\<rparr> \<and> out = Return (Bool True))"
  by (auto simp: event_defs split: if_splits)

interpretation ev: delivering event_monitor event_new waiting "\<lambda>e. unat (available e)"
proof unfold_locales
  fix t c s s' w r out e k
  show "waiting event_new = 0" by (simp add: event_new_def)
  show "ok event_monitor s \<Longrightarrow> waiting s \<noteq> - 1" by (simp add: event_monitor_def)
  show "ok event_monitor s \<Longrightarrow> allowed event_monitor c \<Longrightarrow> enter event_monitor t c s = (s', w, Return r) \<Longrightarrow> waiting s' = waiting s"
    by (cases c) (auto simp: event_defs split: if_splits)
  show "ok event_monitor s \<Longrightarrow> allowed event_monitor c \<Longrightarrow> enter event_monitor t c s = (s', w, Block) \<Longrightarrow> waiting s' = waiting s + 1"
    by (cases c) (auto simp: event_defs split: if_splits)
  show "ok event_monitor s \<Longrightarrow> resume event_monitor t c e s = (s', w, Return r) \<Longrightarrow> waiting s' = waiting s - 1"
    by (auto simp: event_defs split: if_splits err.splits)
  show "ok event_monitor s \<Longrightarrow> resume event_monitor t c e s = (s', w, Block) \<Longrightarrow> waiting s' = waiting s"
    by (auto simp: event_defs split: if_splits err.splits)
  show "ok event_monitor s \<Longrightarrow> allowed event_monitor c \<Longrightarrow> enter event_monitor t c s = (s', w, out) \<Longrightarrow>
     unat (available s') \<le> unat (available s) \<or> waiting s = 0 \<or> w = Broadcast \<or> (\<exists>k. w = Signal k \<and> unat (available s') \<le> k)"
    by (cases c) (auto simp: event_defs unat_minus_one word_gt_0 split: if_splits)
  show "ok event_monitor s \<Longrightarrow> allowed event_monitor c \<Longrightarrow> enter event_monitor t c s = (s', w, Block) \<Longrightarrow> unat (available s') = 0"
    by (cases c) (auto simp: event_defs split: if_splits)
  show "ok event_monitor s \<Longrightarrow> resume event_monitor t c Success s = (s', w, Return r) \<Longrightarrow> unat (available s') \<le> unat (available s) - 1"
    by (auto simp: event_defs unat_minus_one split: if_splits)
  show "ok event_monitor s \<Longrightarrow> resume event_monitor t c e s = (s', w, Return r) \<Longrightarrow> unat (available s') \<le> unat (available s)"
    by (auto simp: event_defs unat_minus_one split: if_splits err.splits)
  show "ok event_monitor s \<Longrightarrow> resume event_monitor t c e s = (s', w, Block) \<Longrightarrow> unat (available s) = 0 \<and> unat (available s') = 0"
    by (auto simp: event_defs split: if_splits err.splits)
qed

subsection \<open>Notifications and waits\<close>

text \<open>The notifications sent in a list of returned calls, and those that were taken by a wait.\<close>

fun sent :: "(nat \<times> event_call \<times> ret) list \<Rightarrow> nat" where
  "sent [] = 0"
| "sent ((t, Notify n, Bool True) # tr) = unat n + sent tr"
| "sent (x # tr) = sent tr"

fun taken :: "(nat \<times> event_call \<times> ret) list \<Rightarrow> nat" where
  "taken [] = 0"
| "taken ((t, Wait ms, Bool True) # tr) = 1 + taken tr"
| "taken ((t, Wait_nb, Bool True) # tr) = 1 + taken tr"
| "taken (x # tr) = taken tr"

lemma sent_append: "sent (xs @ ys) = sent xs + sent ys"
  by (induction xs rule: sent.induct) simp_all

lemma taken_append: "taken (xs @ ys) = taken xs + taken ys"
  by (induction xs rule: taken.induct) simp_all

text \<open>Only \<^verbatim>\<open>wait\<close> sleeps.\<close>

abbreviation waits :: "(event, event_call) sys \<Rightarrow> bool" where
  "waits \<equiv> only (\<lambda>c. \<exists>ms. c = Wait ms)"

lemma block_waits: "enter event_monitor t c e = (e', w, Block) \<Longrightarrow> \<exists>ms. c = Wait ms"
  by (cases c) (auto simp: event_defs split: if_splits)

lemma run_waits: "run event_monitor event_new tr S \<Longrightarrow> waits S"
  by (erule run_only) (rule block_waits)

text \<open>Calls that neither undo notifications nor send an unknown number of them.\<close>

definition plain :: "event_call \<Rightarrow> bool" where
  "plain c \<longleftrightarrow> c \<noteq> Clear_available \<and> c \<noteq> Notify_all"

lemma wait_end_tokens:
  "event_wait_end ret e = (e', w, out) \<Longrightarrow> available e \<noteq> 0 \<or> \<not> ret \<Longrightarrow>
     out = Return (Bool ret) \<and> unat (available e') + of_bool ret = unat (available e)"
  by (auto simp: event_wait_end_def Let_def unat_minus_one split: if_splits) (metis Suc_pred unat_gt_0)

lemma wait_loop_tokens:
  "event_wait_loop e = (e', w, out) \<Longrightarrow>
     (out = Block \<and> available e' = available e) \<or> (out = Return (Bool True) \<and> unat (available e') + 1 = unat (available e))"
  using wait_end_tokens [of True e e' w out] by (auto simp: event_wait_loop_def split: if_splits)

lemma event_enter_tokens:
  assumes "event_enter t c e = (e', w, out)" and "plain c" and "\<And>r. out = Return r \<Longrightarrow> unat (available e) + sent [(t, c, r)] < 2 ^ 32"
  shows "case out of Block \<Rightarrow> available e' = available e
    | Return r \<Rightarrow> unat (available e') + taken [(t, c, r)] = unat (available e) + sent [(t, c, r)]"
proof (cases c)
  case (Notify n)
  have "out = Return (Bool True) \<Longrightarrow> unat (available e + n) = unat (available e) + unat n"
    using assms(3) [of "Bool True"] Notify by (simp add: unat_word_ariths(1))
  then show ?thesis using assms(1) Notify by (auto simp: event_notify_def Let_def split: if_splits)
next
  case (Wait ms)
  let ?e = "e\<lparr>waiting := waiting e + 1\<rparr>"
  show ?thesis
  proof (cases "invalid e")
    case True
    then have "event_wait_end False ?e = (e', w, out)" using assms(1) Wait by (simp add: event_wait_def Let_def)
    from wait_end_tokens [OF this] show ?thesis using Wait by auto
  next
    case False
    then have "event_wait_loop ?e = (e', w, out)" using assms(1) Wait by (simp add: event_wait_def Let_def)
    from wait_loop_tokens [OF this] show ?thesis using Wait by auto
  qed
next
  case Wait_nb
  then show ?thesis using assms(1) by (auto simp: event_wait_nb_def unat_minus_one Suc_pred unat_gt_0 split: if_splits)
qed (use assms in \<open>auto simp: plain_def\<close>)

lemma event_resume_tokens:
  assumes "event_wait_woken err e = (e', w, out)"
  shows "case out of Block \<Rightarrow> available e' = available e
    | Return r \<Rightarrow> unat (available e') + taken [(t, Wait ms, r)] = unat (available e)"
  using assms wait_end_tokens [of False e e' w out] wait_loop_tokens [of e e' w out]
  by (cases err) (auto simp: event_wait_woken_def)

lemma step_tokens:
  assumes "mstep event_monitor S l S'" and "waits S" and "\<forall>(t, c, r) \<in> set l. plain c" and "unat (available (shared S)) + sent l < 2 ^ 32"
  shows "unat (available (shared S')) + taken l = unat (available (shared S)) + sent l"
  using assms
proof (induction rule: mstep.induct)
  case (enter_return t S c s' w r W)
  have "event_enter t c (shared S) = (s', w, Return r)" using enter_return(3) by (simp add: event_monitor_def)
  from event_enter_tokens [OF this] show ?case using enter_return(6,7) by simp
next
  case (enter_block t S c s' w W)
  then have "\<exists>ms. c = Wait ms" using block_waits by blast
  then show ?case using enter_block event_enter_tokens [of t c "shared S" s' w Block]
    by (auto simp: event_monitor_def plain_def)
next
  case (resume_return S t c e s' w r W)
  then obtain ms where ms: "c = Wait ms" using only_woken [OF resume_return(4,1)] by blast
  then show ?case using resume_return(2) event_resume_tokens [of e "shared S" s' w "Return r" t ms] by (auto simp: event_monitor_def)
next
  case (resume_block S t c e s' w W)
  then show ?case using event_resume_tokens [of e "shared S" s' w Block] by (auto simp: event_monitor_def)
qed simp_all

lemma run_tokens:
  "run event_monitor event_new tr S \<Longrightarrow> \<forall>(t, c, r) \<in> set tr. plain c \<Longrightarrow> sent tr < 2 ^ 32 \<Longrightarrow>
     unat (available (shared S)) + taken tr = sent tr"
proof (induction rule: run.induct)
  case start
  show ?case by (simp add: idle_def event_new_def)
next
  case (more tr S l S')
  then have IH: "unat (available (shared S)) + taken tr = sent tr" by (simp add: sent_append)
  have "unat (available (shared S)) + sent l < 2 ^ 32" using IH more.prems(2) by (simp add: sent_append)
  from step_tokens [OF more.hyps(3) run_waits [OF more.hyps(1)] _ this] show ?case
    using more.prems(1) IH by (simp add: sent_append taken_append)
qed

subsection \<open>Delivery\<close>

text \<open>What stays true while the threads that \<^verbatim>\<open>notify\<close> woke up run.\<close>

lemma settle_tokens:
  assumes "settle event_monitor S0 tr S" and "proper S0" and "ok event_monitor (shared S0)"
    and "unat (waiting (shared S0)) = card (inside S0)" and "ev.delivered S0" and "\<forall>t c e. woken S0 t = Some (c, e) \<longrightarrow> e = Success"
  shows "proper S \<and> ok event_monitor (shared S) \<and> unat (waiting (shared S)) = card (inside S) \<and> ev.delivered S \<and>
    (\<forall>t c e. woken S t = Some (c, e) \<longrightarrow> e = Success) \<and> (\<forall>(t, c, r) \<in> set tr. r = Bool True) \<and>
    unat (available (shared S)) + length tr = unat (available (shared S0)) \<and>
    card (inside S) + length tr = card (inside S0)"
  using assms(1)
proof (induction rule: settle.induct)
  case settle_done
  then show ?case using assms by simp
next
  case (settle_more tr S t l S')
  then obtain c e w out where s: "woken S t = Some (c, e)" "event_wait_woken e (shared S) = (shared S', w, out)"
      "case out of Return r \<Rightarrow> l = [(t, c, r)] \<and> dom (sleeping S') = dom (sleeping S)
        | Block \<Rightarrow> l = [] \<and> dom (sleeping S') = insert t (dom (sleeping S))"
    using settle_step [of event_monitor S l S' t] by (auto simp: event_monitor_def)
  have "e = Success" using s(1) settle_more.IH by blast
  then have lp: "event_wait_loop (shared S) = (shared S', w, out)" using s(2) by (simp add: event_wait_woken_def)
  have ih: "proper S" "ok event_monitor (shared S)" "unat (waiting (shared S)) = card (inside S)" "ev.delivered S" using settle_more.IH by auto
  have st: "proper S'" "unat (waiting (shared S')) = card (inside S')" "ev.delivered S'"
    using settle_more.hyps(3) ih mstep_proper ev.step_counted ev.step_delivered by blast+
  have t: "t \<in> inside S" "t \<notin> dom (sleeping S)" "finite (inside S)" using s(1) ih(1) by (auto simp: proper_def)
  have d: "dom (woken S') = dom (woken S) - {t}" using settle_more.hyps(4) by auto
  have c: "unat (available (shared S')) + length l = unat (available (shared S)) \<and> card (inside S') + length l = card (inside S) \<and>
      (\<forall>(t, c, r) \<in> set l. r = Bool True)"
  proof (cases out)
    case Block
    then have "inside S' = inside S" using s(1,3) d by auto
    then show ?thesis using wait_loop_tokens [OF lp] Block s(3) by simp
  next
    case (Return r)
    then have "inside S' = inside S - {t}" using s(3) d t(2) by auto
    then have "card (inside S') + 1 = card (inside S)" using t(1,3) by (metis Suc_eq_plus1 card_Suc_Diff1)
    then show ?thesis using wait_loop_tokens [OF lp] Return s(3) by simp
  qed
  have "ok event_monitor (shared S')"
  proof -
    have "waiting (shared S) \<noteq> - 1" using ih(2) by (simp add: event_monitor_def)
    then have "unat (waiting (shared S')) < unat (- 1 :: u32)"
      using st(2) ih(3) c word_le_nat_alt [of "waiting (shared S)" "- 1"] by (simp add: order_less_le word_unat_eq_iff)
    then show ?thesis by (auto simp: event_monitor_def)
  qed
  moreover have "\<forall>t c e. woken S' t = Some (c, e) \<longrightarrow> e = Success" using settle_more.IH settle_more.hyps(4) by (auto split: if_splits)
  ultimately show ?case using st c settle_more.IH by auto
qed

lemma settle_counts:
  assumes "settle event_monitor S0 tr S" and "proper S0" and "ok event_monitor (shared S0)"
    and "unat (waiting (shared S0)) = card (inside S0)" and "ev.delivered S0" and "\<forall>t c e. woken S0 t = Some (c, e) \<longrightarrow> e = Success"
    and "woken S = Map.empty"
  defines "k \<equiv> min (unat (available (shared S0))) (card (inside S0))"
  shows "length tr = k \<and> (\<forall>(t, c, r) \<in> set tr. r = Bool True) \<and> card (dom (sleeping S)) = card (inside S0) - k \<and>
    unat (available (shared S)) = unat (available (shared S0)) - k"
proof -
  note t = settle_tokens [OF assms(1-6)]
  have "dom (sleeping S) = {} \<or> available (shared S) = 0"
    using t assms(7) by (auto simp: ev.delivered_def ready_def unat_eq_zero)
  moreover have "inside S = dom (sleeping S)" using assms(7) by simp
  ultimately show ?thesis using t unfolding k_def by auto
qed

lemma run_valid: "run event_monitor event_new tr S \<Longrightarrow> \<not> invalid (shared S)"
proof (induction rule: run.induct)
  case start
  show ?case by (simp add: idle_def event_new_def)
next
  case (more tr S l S')
  have e: "event_enter t c e = (e', w, out) \<Longrightarrow> invalid e' = invalid e" for t c e e' w out
    by (cases c) (auto simp: event_defs split: if_splits)
  have r: "event_wait_woken err e = (e', w, out) \<Longrightarrow> invalid e' = invalid e" for err e e' w out
    by (auto simp: event_defs split: if_splits err.splits)
  from more.hyps(3) more.IH show ?case
    by (induction rule: mstep.induct) (auto simp: event_monitor_def dest: e r)
qed

lemma event_notify_ok:
  "event_notify n e = (e', w, b) \<Longrightarrow> \<not> invalid e \<Longrightarrow> n \<noteq> 0 \<Longrightarrow> b \<and> available e' = available e + n \<and> waiting e' = waiting e"
  by (auto simp: event_notify_def Let_def split: if_splits)

lemma event_notify_all_ok:
  "event_notify_all e = (e', w, b) \<Longrightarrow> \<not> invalid e \<Longrightarrow>
     b \<and> available e' = max (available e) (waiting e) \<and> waiting e' = waiting e \<and> (waiting e = 0 \<longrightarrow> e' = e \<and> w = Nobody)"
  by (auto simp: event_notify_all_def Let_def max_def split: if_splits)

text \<open>A call that wakes sleeping threads when no other is awake.\<close>

lemma enter_quiescent:
  assumes "run event_monitor event_new tr S" and "waiting (shared S) \<noteq> - 1" and "woken S = Map.empty"
    and "mstep event_monitor S [(t, c, r)] S1"
  shows "proper S1 \<and> unat (waiting (shared S1)) = card (inside S1) \<and> ev.delivered S1 \<and> (\<forall>t c e. woken S1 t = Some (c, e) \<longrightarrow> e = Success) \<and>
    inside S1 = dom (sleeping S) \<and> (\<exists>w. event_enter t c (shared S) = (shared S1, w, Return r))"
proof -
  have o: "ok event_monitor (shared S)" using assms(2) by (simp add: event_monitor_def)
  have "proper S1 \<and> unat (waiting (shared S1)) = card (inside S1) \<and> ev.delivered S1"
    using ev.run_counted [OF assms(1)] ev.run_delivered [OF assms(1)] assms(4) o mstep_proper ev.step_counted ev.step_delivered by blast
  moreover have "(\<forall>t c e. woken S1 t = Some (c, e) \<longrightarrow> e = Success) \<and> inside S1 = dom (sleeping S) \<and> (\<exists>w. event_enter t c (shared S) = (shared S1, w, Return r))"
    using assms(4)
  proof (cases rule: mstep.cases)
    case (enter_return s' w W)
    have "inside S1 = dom (sleeping S)" unfolding enter_return(1) using assms(3) by auto
    moreover have "\<forall>t c e. woken S1 t = Some (c, e) \<longrightarrow> e = Success"
      unfolding enter_return(1) using assms(3) by (auto simp: wake_up_def split: if_splits)
    ultimately show ?thesis using enter_return by (simp add: event_monitor_def)
  qed (use assms(3) in auto)
  ultimately show ?thesis by blast
qed

subsection \<open>Properties\<close>

text \<open>
  What a call that returns does to the counter of notifications \<open>a\<close>, and what it returns:
  \<^verbatim>\<open>notify(n)\<close> adds its \<open>n\<close> notifications, as unsigned integers do, \<^verbatim>\<open>notify_all\<close> makes it at least
  the number of waiting calls, \<^verbatim>\<open>clear_available\<close> empties it; a \<^verbatim>\<open>wait\<close> or \<^verbatim>\<open>wait_nonblocking\<close> that
  returns true takes one notification, and nothing else changes it.
\<close>

fun accounted :: "event \<Rightarrow> event_call \<Rightarrow> ret \<Rightarrow> u32 \<Rightarrow> bool" where
  "accounted e (Notify n) r a \<longleftrightarrow> r = Bool (n \<noteq> 0) \<and> a = available e + n"
| "accounted e Notify_all r a \<longleftrightarrow> r = Bool True \<and> a = max (available e) (waiting e)"
| "accounted e Clear_available r a \<longleftrightarrow> r = Void \<and> a = 0"
| "accounted e (Wait ms) r a \<longleftrightarrow> r = Bool True \<and> available e \<noteq> 0 \<and> a = available e - 1 \<or> r = Bool False \<and> a = available e"
| "accounted e Wait_nb r a \<longleftrightarrow> r = Bool (available e \<noteq> 0) \<and> a = (if available e = 0 then 0 else available e - 1)"
| "accounted e Waiting_count r a \<longleftrightarrow> r = Count (waiting e) \<and> a = available e"
| "accounted e Available_count r a \<longleftrightarrow> r = Count (available e) \<and> a = available e"

lemma event_enter_accounted:
  "event_enter t c e = (e', w, Return r) \<Longrightarrow> \<not> invalid e \<Longrightarrow> accounted e c r (available e') \<and> (\<forall>ms. c = Wait ms \<longrightarrow> r = Bool True)"
  by (cases c) (auto simp: event_defs event_waiting_count_def event_available_count_def max_def split: if_splits)

lemma event_enter_block_accounted: "event_enter t c e = (e', w, Block) \<Longrightarrow> available e' = available e"
  by (cases c) (auto simp: event_defs split: if_splits)

lemma event_resume_accounted:
  "event_wait_woken err e = (e', w, out) \<Longrightarrow> (case out of Block \<Rightarrow> available e' = available e
     | Return r \<Rightarrow> accounted e (Wait ms) r (available e') \<and> (r = Bool False \<longrightarrow> err \<noteq> Success))"
  by (cases err) (auto simp: event_defs split: if_splits)

lemma step_accounted:
  assumes "mstep event_monitor S l S'" and "waits S" and "\<not> invalid (shared S)"
  shows "if l = [] then available (shared S') = available (shared S)
    else \<exists>t c r. l = [(t, c, r)] \<and> accounted (shared S) c r (available (shared S')) \<and>
      (\<forall>ms. c = Wait ms \<and> r = Bool False \<longrightarrow> (\<exists>e. woken S t = Some (c, e) \<and> e \<noteq> Success))"
  using assms
proof (cases rule: mstep.cases)
  case (enter_return t c s' w r W)
  have "event_enter t c (shared S) = (s', w, Return r)" using enter_return(5) by (simp add: event_monitor_def)
  from event_enter_accounted [OF this assms(3)] show ?thesis using enter_return by auto
next
  case (enter_block t c s' w W)
  have "event_enter t c (shared S) = (s', w, Block)" using enter_block(5) by (simp add: event_monitor_def)
  from event_enter_block_accounted [OF this] show ?thesis using enter_block by simp
next
  case (resume_return t c e s' w r W)
  obtain ms where "c = Wait ms" using only_woken [OF assms(2) resume_return(3)] by blast
  moreover have "event_wait_woken e (shared S) = (s', w, Return r)" using resume_return(4) by (simp add: event_monitor_def)
  ultimately show ?thesis using event_resume_accounted [of e "shared S" s' w "Return r" ms] resume_return by auto
next
  case (resume_block t c e s' w W)
  have "event_wait_woken e (shared S) = (s', w, Block)" using resume_block(4) by (simp add: event_monitor_def)
  from event_resume_accounted [OF this] show ?thesis using resume_block by simp
qed simp_all

text \<open>
  C13: no notification and no wake-up is lost. In any interleaving of calls, time-outs and spurious
  wake-ups, \<^verbatim>\<open>waiting_\<close> is the number of calls of \<^verbatim>\<open>wait\<close> in progress, and at any time all of them are
  awake or at least as many of them as notifications are available; so, while notifications are
  available and a call sleeps, another call can run and return true. Every step accounts for the
  notifications: \<^verbatim>\<open>notify(n)\<close> adds \<open>n\<close> of them, whether or not a call waits, a \<^verbatim>\<open>wait\<close> that returns
  true takes one, only \<^verbatim>\<open>clear_available\<close> drops any, and a \<^verbatim>\<open>wait\<close> returns false after a time-out or an
  error only.
\<close>

theorem event_no_lost_wakeup:
  assumes "run event_monitor event_new tr S" and "waiting (shared S) \<noteq> - 1"
  shows "unat (waiting (shared S)) = card (inside S) \<and>
    (dom (sleeping S) = {} \<or> unat (available (shared S)) \<le> card (ready S)) \<and>
    (available (shared S) \<noteq> 0 \<and> dom (sleeping S) \<noteq> {} \<longrightarrow>
       (\<exists>t c S'. t \<in> ready S \<and> mstep event_monitor S [(t, c, Bool True)] S')) \<and>
    (\<forall>l S'. mstep event_monitor S l S' \<longrightarrow>
       (if l = [] then available (shared S') = available (shared S)
        else \<exists>t c r. l = [(t, c, r)] \<and> accounted (shared S) c r (available (shared S')) \<and>
          (\<forall>ms. c = Wait ms \<and> r = Bool False \<longrightarrow> (\<exists>e. woken S t = Some (c, e) \<and> e \<noteq> Success))))"
proof (intro conjI allI impI)
  show "unat (waiting (shared S)) = card (inside S)" using ev.run_counted [OF assms(1)] by simp
  show "dom (sleeping S) = {} \<or> unat (available (shared S)) \<le> card (ready S)"
    using ev.run_delivered [OF assms(1)] by (simp add: ev.delivered_def)
next
  assume a: "available (shared S) \<noteq> 0 \<and> dom (sleeping S) \<noteq> {}"
  then obtain t c r s' w where t: "woken S t = Some (c, Success)" "event_wait_loop (shared S) = (s', w, Return r)"
    using ev.run_progress [OF assms(1)] assms(2) by (auto simp: event_monitor_def event_wait_woken_def unat_gt_0)
  then have "r = Bool True" "w = Nobody" using event_wait_loop_cases a by fastforce+
  then have "mstep event_monitor S [(t, c, Bool True)] ((leave t (wake_up {} S))\<lparr>shared := s'\<rparr>)"
    using t by (intro mstep.resume_return [where e = Success and w = Nobody]) (auto simp: event_monitor_def event_wait_woken_def)
  then show "\<exists>t c S'. t \<in> ready S \<and> mstep event_monitor S [(t, c, Bool True)] S'" using t(1) by (auto simp: ready_def)
next
  fix l S' assume "mstep event_monitor S l S'"
  from step_accounted [OF this run_waits [OF assms(1)] run_valid [OF assms(1)]]
  show "if l = [] then available (shared S') = available (shared S)
    else \<exists>t c r. l = [(t, c, r)] \<and> accounted (shared S) c r (available (shared S')) \<and>
      (\<forall>ms. c = Wait ms \<and> r = Bool False \<longrightarrow> (\<exists>e. woken S t = Some (c, e) \<and> e \<noteq> Success))" .
qed

theorem event_no_lost_wakeup_witness:
  "\<exists>S. run event_monitor event_new [(2, Notify 1, Bool True)] S \<and> available (shared S) = 1 \<and> 1 \<in> ready S \<and> unat (waiting (shared S)) = card (inside S)"
proof -
  let ?S1 = "sleep 1 (Wait 0) ((wake_up {} (idle event_new))\<lparr>shared := event_new\<lparr>waiting := 1\<rparr>\<rparr>)"
  let ?S2 = "(wake_up {1} ?S1)\<lparr>shared := \<lparr>invalid = False, waiting = 1, available = 1\<rparr>\<rparr>"
  have 1: "mstep event_monitor (idle event_new) [] ?S1"
    by (rule mstep.enter_block [where w = Nobody]) (auto simp: idle_def event_new_def event_defs)
  have 2: "mstep event_monitor ?S1 [(2, Notify 1, Bool True)] ?S2"
    by (rule mstep.enter_return [where w = Broadcast]) (auto simp: idle_def event_new_def event_defs)
  have r: "run event_monitor event_new [(2, Notify 1, Bool True)] ?S2"
    using two_step_run [OF 1 _ _ 2] by (simp add: event_monitor_def event_new_def)
  moreover have "1 \<in> ready ?S2" by (simp add: ready_def wake_up_def sleep_def idle_def)
  moreover have "unat (waiting (shared ?S2)) = card (inside ?S2)" using event_no_lost_wakeup [OF r] by simp
  ultimately show ?thesis by (intro exI [of _ ?S2]) simp
qed

text \<open>
  C32: no notification is delivered twice. As long as fewer than \<open>2 ^ 32\<close> notifications are sent, and none are
  undone with \<^verbatim>\<open>clear_available\<close> or sent with \<^verbatim>\<open>notify_all\<close>, those sent are those that calls of \<^verbatim>\<open>wait\<close>
  and \<^verbatim>\<open>wait_nb\<close> took, when they returned true, and those available.
\<close>

theorem event_conserves_notifications:
  assumes "run event_monitor event_new tr S" and "\<forall>(t, c, r) \<in> set tr. plain c" and "sent tr < 2 ^ 32"
  shows "taken tr + unat (available (shared S)) = sent tr"
  using run_tokens [OF assms] by simp

theorem event_conserves_notifications_witness:
  "\<exists>S. run event_monitor event_new [(1, Notify 3, Bool True), (2, Wait 0, Bool True)] S \<and> 1 + unat (available (shared S)) = 3"
proof -
  let ?S1 = "(wake_up {} (idle event_new))\<lparr>shared := event_new\<lparr>available := 3\<rparr>\<rparr>"
  let ?S2 = "(wake_up {} ?S1)\<lparr>shared := event_new\<lparr>available := 2\<rparr>\<rparr>"
  have 1: "mstep event_monitor (idle event_new) [(1, Notify 3, Bool True)] ?S1"
    by (rule mstep.enter_return [where w = Nobody]) (auto simp: idle_def event_new_def event_defs)
  have 2: "mstep event_monitor ?S1 [(2, Wait 0, Bool True)] ?S2"
    by (rule mstep.enter_return [where w = Nobody]) (auto simp: idle_def event_new_def event_defs)
  have r: "run event_monitor event_new [(1, Notify 3, Bool True), (2, Wait 0, Bool True)] ?S2"
    using two_step_run [OF 1 _ _ 2] by (simp add: event_monitor_def event_new_def)
  have "1 + unat (available (shared ?S2)) = 3" using event_conserves_notifications [OF r] by (simp add: plain_def)
  then show ?thesis using r by blast
qed

text \<open>
  \<^verbatim>\<open>notify(n)\<close>, called while \<open>m\<close> calls of \<^verbatim>\<open>wait\<close> sleep and no notification is available, lets exactly
  the smaller one of \<open>n\<close> and \<open>m\<close> of them return, all with true, in whatever order they run; the rest
  of the calls keeps waiting, the rest of the notifications stays available. The threads come to rest.
\<close>

theorem event_notify_delivers:
  assumes "run event_monitor event_new tr S" and "waiting (shared S) \<noteq> - 1" and "woken S = Map.empty" and "available (shared S) = 0"
    and "n \<noteq> 0" and "mstep event_monitor S [(t, Notify n, r)] S1"
  defines "m \<equiv> card (dom (sleeping S))"
  shows "r = Bool True \<and> (\<exists>tr' S2. settle event_monitor S1 tr' S2 \<and> woken S2 = Map.empty) \<and>
    (\<forall>tr' S2. settle event_monitor S1 tr' S2 \<and> woken S2 = Map.empty \<longrightarrow>
       length tr' = min (unat n) m \<and> (\<forall>(t, c, r) \<in> set tr'. r = Bool True) \<and>
       card (dom (sleeping S2)) = m - unat n \<and> unat (available (shared S2)) = unat n - m)"
proof -
  note q = enter_quiescent [OF assms(1-3,6)]
  then obtain w where "event_notify n (shared S) = (shared S1, w, r = Bool True)" "r = Bool True \<or> r = Bool False"
    by (auto split: prod.splits)
  then have r: "r = Bool True" "available (shared S1) = n" "waiting (shared S1) = waiting (shared S)"
    using event_notify_ok run_valid [OF assms(1)] assms(4,5) by fastforce+
  have o: "ok event_monitor (shared S1)" using r(3) assms(2) by (simp add: event_monitor_def)
  have e: "\<exists>tr' S2. settle event_monitor S1 tr' S2 \<and> woken S2 = Map.empty"
    using q by (intro settle_ends) (auto simp: event_defs split: err.splits)
  have "length tr' = min (unat n) m \<and> (\<forall>(t, c, r) \<in> set tr'. r = Bool True) \<and>
       card (dom (sleeping S2)) = m - unat n \<and> unat (available (shared S2)) = unat n - m"
    if "settle event_monitor S1 tr' S2" "woken S2 = Map.empty" for tr' S2
    using settle_counts [OF that(1) _ o _ _ _ that(2)] q r(2) unfolding m_def by auto
  then show ?thesis using r(1) e by blast
qed

theorem event_notify_delivers_witness:
  "\<exists>S S1 tr' S2. run event_monitor event_new [] S \<and> mstep event_monitor S [(2, Notify 3, Bool True)] S1 \<and>
     settle event_monitor S1 tr' S2 \<and> woken S2 = Map.empty \<and> length tr' = 1 \<and> unat (available (shared S2)) = 2"
proof -
  let ?S = "sleep 1 (Wait 0) ((wake_up {} (idle event_new))\<lparr>shared := event_new\<lparr>waiting := 1\<rparr>\<rparr>)"
  let ?S1 = "(wake_up {1} ?S)\<lparr>shared := \<lparr>invalid = False, waiting = 1, available = 3\<rparr>\<rparr>"
  have "mstep event_monitor (idle event_new) [] ?S"
    by (rule mstep.enter_block [where w = Nobody]) (auto simp: idle_def event_new_def event_defs)
  then have r: "run event_monitor event_new ([] @ []) ?S"
    by (intro run.more [OF run.start]) (auto simp: idle_def event_monitor_def event_new_def)
  have n: "mstep event_monitor ?S [(2, Notify 3, Bool True)] ?S1"
    by (rule mstep.enter_return [where w = Broadcast]) (auto simp: idle_def event_new_def event_defs)
  have s: "waiting (shared ?S) \<noteq> - 1" "woken ?S = Map.empty" "available (shared ?S) = 0" "dom (sleeping ?S) = {1}"
    by (auto simp: idle_def event_new_def sleep_def wake_up_def)
  note d = event_notify_delivers [OF r s(1-3) _ n]
  then obtain tr' S2 where "settle event_monitor ?S1 tr' S2" "woken S2 = Map.empty" by auto
  moreover from this have "length tr' = min (unat (3 :: u32)) (card (dom (sleeping ?S))) \<and> unat (available (shared S2)) = unat (3 :: u32) - card (dom (sleeping ?S))"
    using d by simp
  then have "length tr' = 1" "unat (available (shared S2)) = 2" unfolding s(4) by simp_all
  ultimately show ?thesis using r n by (simp only: append_Nil) blast
qed

text \<open>
  \<^verbatim>\<open>notify_all\<close>, called while \<open>m\<close> calls sleep and no notification is available, lets all of them
  return true and leaves no notification and no waiting call. Called when nobody waits it changes nothing: the
  notifications that are available stay so, other than the comment on it says.
\<close>

theorem event_notify_all_delivers:
  assumes "run event_monitor event_new tr S" and "waiting (shared S) \<noteq> - 1" and "woken S = Map.empty"
    and "mstep event_monitor S [(t, Notify_all, r)] S1"
  shows "r = Bool True \<and>
    (if dom (sleeping S) = {} then shared S1 = shared S
     else available (shared S) = 0 \<longrightarrow> (\<exists>tr' S2. settle event_monitor S1 tr' S2 \<and> woken S2 = Map.empty) \<and>
       (\<forall>tr' S2. settle event_monitor S1 tr' S2 \<and> woken S2 = Map.empty \<longrightarrow>
          length tr' = card (dom (sleeping S)) \<and> (\<forall>(t, c, r) \<in> set tr'. r = Bool True) \<and>
          dom (sleeping S2) = {} \<and> available (shared S2) = 0))"
proof -
  note q = enter_quiescent [OF assms(1-4)]
  then obtain w where a: "event_notify_all (shared S) = (shared S1, w, r = Bool True)" "r = Bool True \<or> r = Bool False"
    by (auto split: prod.splits)
  note b = event_notify_all_ok [OF a(1) run_valid [OF assms(1)]]
  have i: "unat (waiting (shared S)) = card (dom (sleeping S))" using ev.run_counted [OF assms(1)] assms(3) by simp
  have f: "finite (dom (sleeping S))" using ev.run_counted [OF assms(1)] by (simp add: proper_def)
  have "shared S1 = shared S" if "dom (sleeping S) = {}" using that i b by (simp add: unat_eq_zero)
  moreover have "\<exists>tr' S2. settle event_monitor S1 tr' S2 \<and> woken S2 = Map.empty"
    using q by (intro settle_ends) (auto simp: event_defs split: err.splits)
  moreover have "length tr' = card (dom (sleeping S)) \<and> (\<forall>(t, c, r) \<in> set tr'. r = Bool True) \<and> dom (sleeping S2) = {} \<and> available (shared S2) = 0"
    if "settle event_monitor S1 tr' S2" "woken S2 = Map.empty" "available (shared S) = 0" for tr' S2
  proof -
    have o: "ok event_monitor (shared S1)" using b assms(2) by (simp add: event_monitor_def)
    have p: "proper S1" "unat (waiting (shared S1)) = card (inside S1)" "ev.delivered S1" "\<forall>t c e. woken S1 t = Some (c, e) \<longrightarrow> e = Success"
        "inside S1 = dom (sleeping S)"
      using q by blast+
    have "available (shared S1) = waiting (shared S1)" using b that(3) by simp
    then have k: "unat (available (shared S1)) = card (dom (sleeping S))" using p(2) by (simp only: p(5))
    have "finite (dom (sleeping S2))" using settle_tokens [OF that(1) p(1) o p(2-4)] by (simp add: proper_def)
    then show ?thesis using settle_counts [OF that(1) p(1) o p(2-4) that(2)] unfolding p(5) k by (simp add: unat_eq_zero)
  qed
  ultimately show ?thesis using b by (simp only: simp_thms split: if_split) blast
qed

theorem event_notify_all_delivers_witness:
  "\<exists>S S1. run event_monitor event_new [(1, Notify 5, Bool True)] S \<and> mstep event_monitor S [(2, Notify_all, Bool True)] S1 \<and>
     available (shared S1) = 5"
proof -
  let ?S = "(wake_up {} (idle event_new))\<lparr>shared := event_new\<lparr>available := 5\<rparr>\<rparr>"
  let ?S1 = "(wake_up {} ?S)\<lparr>shared := event_new\<lparr>available := 5\<rparr>\<rparr>"
  have "mstep event_monitor (idle event_new) [(1, Notify 5, Bool True)] ?S"
    by (rule mstep.enter_return [where w = Nobody]) (auto simp: idle_def event_new_def event_defs)
  then have r: "run event_monitor event_new ([] @ [(1, Notify 5, Bool True)]) ?S"
    by (intro run.more [OF run.start]) (auto simp: idle_def event_monitor_def event_new_def)
  have n: "mstep event_monitor ?S [(2, Notify_all, Bool True)] ?S1"
    by (rule mstep.enter_return [where w = Nobody]) (auto simp: idle_def event_new_def event_defs)
  have s: "waiting (shared ?S) \<noteq> - 1" "woken ?S = Map.empty" "dom (sleeping ?S) = {}" "available (shared ?S) = 5"
    by (auto simp: idle_def event_new_def wake_up_def)
  have "available (shared ?S1) = 5" using event_notify_all_delivers [OF r s(1,2) n] s(3,4) by simp
  then show ?thesis using r n by (simp only: append_Nil) blast
qed

text \<open>
  The destructor is to tell waiting threads to abort, but the notifications it makes available let
  their calls of \<^verbatim>\<open>wait\<close> return true, if they run at all.
\<close>

lemma event_delete_waiters:
  assumes "waiting e \<noteq> 0" and "event_delete e = (e', w)"
  shows "w = Broadcast \<and> (\<exists>e''. event_wait_woken Success e' = (e'', Nobody, Return (Bool True)))"
  using assms by (auto simp: event_delete_def event_defs word_gt_0)

end
