(* ===== verification/Pevent.thy ===== *)
theory Pevent
  imports Monitor
begin

section \<open>Permanent events\<close>

text \<open>
  The class \<^verbatim>\<open>pevent\<close> of \<^verbatim>\<open>src/nthread/pevent_impl_pthread.cc\<close>: an event that can be switched to a
  permanent state, in which every call of \<^verbatim>\<open>wait\<close> is to return at once.
\<close>

record pevent =
  invalid :: bool
  waiting :: u32
  available :: u32
  permanent :: bool

definition pevent_new :: pevent where
  "pevent_new = \<lparr>invalid = False, waiting = 0, available = 0, permanent = False\<rparr>"

definition pevent_delete :: "pevent \<Rightarrow> pevent \<times> wake" where
  "pevent_delete e =
     (let e = e\<lparr>invalid := True\<rparr>; e = e\<lparr>available := waiting e\<rparr>
      in (e, if waiting e > 0 then Broadcast else Nobody))"

definition pevent_notify :: "u32 \<Rightarrow> pevent \<Rightarrow> pevent \<times> wake \<times> bool" where
  "pevent_notify n e =
     (if n = 0 then (e, Nobody, False)
      else if invalid e then (e, Nobody, False)
      else if permanent e then (e, Nobody, True)
      else let e = e\<lparr>available := available e + n\<rparr>
           in if waiting e = 0 then (e, Nobody, True)
              else if available e \<ge> waiting e then (e, Broadcast, True)
              else (e, Signal (unat (available e)), True))"

definition pevent_notify_all :: "pevent \<Rightarrow> pevent \<times> wake \<times> bool" where
  "pevent_notify_all e =
     (if invalid e then (e, Nobody, False)
      else let e = (if available e \<le> waiting e then e\<lparr>available := waiting e\<rparr> else e)
           in (e, if waiting e > 0 then Broadcast else Nobody, True))"

definition pevent_wait_end :: "bool \<Rightarrow> pevent \<Rightarrow> pevent \<times> wake \<times> outcome" where
  "pevent_wait_end ret e =
     (let e = e\<lparr>waiting := waiting e - 1\<rparr>;
          e = (if ret \<and> available e \<noteq> 0 then e\<lparr>available := available e - 1\<rparr> else e)
      in (e, Nobody, Return (Bool ret)))"

text \<open>The loops of \<^verbatim>\<open>wait\<close> test \<^verbatim>\<open>available_\<close> only.\<close>

definition pevent_wait_loop :: "pevent \<Rightarrow> pevent \<times> wake \<times> outcome" where
  "pevent_wait_loop e = (if available e = 0 then (e, Nobody, Block) else pevent_wait_end True e)"

definition pevent_wait :: "pevent \<Rightarrow> pevent \<times> wake \<times> outcome" where
  "pevent_wait e =
     (let e = e\<lparr>waiting := waiting e + 1\<rparr>
      in if invalid e then pevent_wait_end False e
         else if permanent e then pevent_wait_end True e
         else pevent_wait_loop e)"

definition pevent_wait_woken :: "err \<Rightarrow> pevent \<Rightarrow> pevent \<times> wake \<times> outcome" where
  "pevent_wait_woken err e =
     (case err of
        Timedout \<Rightarrow> pevent_wait_end False e
      | Success \<Rightarrow> pevent_wait_loop e
      | Failure \<Rightarrow> pevent_wait_end False e)"

definition pevent_wait_nb :: "pevent \<Rightarrow> pevent \<times> bool" where
  "pevent_wait_nb e =
     (if invalid e then (e, False)
      else if available e \<noteq> 0 then (e\<lparr>available := available e - 1\<rparr>, True)
      else if permanent e then (e, True)
      else (e, False))"

definition pevent_waiting_count :: "pevent \<Rightarrow> u32" where
  "pevent_waiting_count e = waiting e"

definition pevent_available_count :: "pevent \<Rightarrow> u32" where
  "pevent_available_count e = available e"

definition pevent_set_permanent :: "pevent \<Rightarrow> pevent \<times> wake" where
  "pevent_set_permanent e =
     (if \<not> permanent e
      then let e = e\<lparr>permanent := True\<rparr>; e = e\<lparr>available := waiting e\<rparr>
           in (e, if waiting e > 0 then Broadcast else Nobody)
      else (e, Nobody))"

definition pevent_clear_permanent :: "pevent \<Rightarrow> pevent" where
  "pevent_clear_permanent e = e\<lparr>permanent := False\<rparr>"

definition pevent_is_permanent :: "pevent \<Rightarrow> bool" where
  "pevent_is_permanent e = permanent e"

definition pevent_clear_available :: "pevent \<Rightarrow> pevent" where
  "pevent_clear_available e = e\<lparr>available := 0, permanent := False\<rparr>"

datatype pevent_call = Notify u32 | Notify_all | Wait u64 | Wait_nb | Waiting_count | Available_count
  | Set_permanent | Clear_permanent | Is_permanent | Clear_available

fun pevent_enter :: "nat \<Rightarrow> pevent_call \<Rightarrow> pevent \<Rightarrow> pevent \<times> wake \<times> outcome" where
  "pevent_enter t (Notify n) e = (case pevent_notify n e of (e, w, r) \<Rightarrow> (e, w, Return (Bool r)))"
| "pevent_enter t Notify_all e = (case pevent_notify_all e of (e, w, r) \<Rightarrow> (e, w, Return (Bool r)))"
| "pevent_enter t (Wait ms) e = pevent_wait e"
| "pevent_enter t Wait_nb e = (case pevent_wait_nb e of (e, r) \<Rightarrow> (e, Nobody, Return (Bool r)))"
| "pevent_enter t Waiting_count e = (e, Nobody, Return (Count (pevent_waiting_count e)))"
| "pevent_enter t Available_count e = (e, Nobody, Return (Count (pevent_available_count e)))"
| "pevent_enter t Set_permanent e = (case pevent_set_permanent e of (e, w) \<Rightarrow> (e, w, Return Void))"
| "pevent_enter t Clear_permanent e = (pevent_clear_permanent e, Nobody, Return Void)"
| "pevent_enter t Is_permanent e = (e, Nobody, Return (Bool (pevent_is_permanent e)))"
| "pevent_enter t Clear_available e = (pevent_clear_available e, Nobody, Return Void)"

definition pevent_timed :: "pevent_call \<Rightarrow> bool" where
  "pevent_timed c = (case c of Wait ms \<Rightarrow> ms \<noteq> 0 | _ \<Rightarrow> False)"

definition pevent_monitor :: "(pevent, pevent_call) monitor" where
  "pevent_monitor = \<lparr>enter = pevent_enter, resume = \<lambda>t c. pevent_wait_woken, timed = pevent_timed, allowed = \<lambda>c. True,
     ok = \<lambda>e. waiting e \<noteq> - 1\<rparr>"

lemmas pevent_defs = pevent_notify_def pevent_notify_all_def pevent_wait_def pevent_wait_loop_def
  pevent_wait_end_def pevent_wait_woken_def pevent_wait_nb_def pevent_set_permanent_def pevent_clear_permanent_def
  pevent_is_permanent_def pevent_clear_available_def pevent_monitor_def Let_def

lemma pevent_wait_loop_cases:
  "pevent_wait_loop e = (e', w, out) \<Longrightarrow> w = Nobody \<and>
     (if available e = 0 then e' = e \<and> out = Block
      else e' = e\<lparr>waiting := waiting e - 1, available := available e - 1\<rparr> \<and> out = Return (Bool True))"
  by (auto simp: pevent_defs split: if_splits)

interpretation pv: counted pevent_monitor pevent_new waiting
proof unfold_locales
  fix t c s s' w r e
  show "waiting pevent_new = 0" by (simp add: pevent_new_def)
  show "ok pevent_monitor s \<Longrightarrow> waiting s \<noteq> - 1" by (simp add: pevent_monitor_def)
  show "ok pevent_monitor s \<Longrightarrow> allowed pevent_monitor c \<Longrightarrow> enter pevent_monitor t c s = (s', w, Return r) \<Longrightarrow> waiting s' = waiting s"
    by (cases c) (auto simp: pevent_defs split: if_splits)
  show "ok pevent_monitor s \<Longrightarrow> allowed pevent_monitor c \<Longrightarrow> enter pevent_monitor t c s = (s', w, Block) \<Longrightarrow> waiting s' = waiting s + 1"
    by (cases c) (auto simp: pevent_defs split: if_splits)
  show "ok pevent_monitor s \<Longrightarrow> resume pevent_monitor t c e s = (s', w, Return r) \<Longrightarrow> waiting s' = waiting s - 1"
    by (auto simp: pevent_defs split: if_splits err.splits)
  show "ok pevent_monitor s \<Longrightarrow> resume pevent_monitor t c e s = (s', w, Block) \<Longrightarrow> waiting s' = waiting s"
    by (auto simp: pevent_defs split: if_splits err.splits)
qed

lemma pevent_run_valid: "run pevent_monitor pevent_new tr S \<Longrightarrow> \<not> invalid (shared S)"
proof (induction rule: run.induct)
  case start
  show ?case by (simp add: idle_def pevent_new_def)
next
  case (more tr S l S')
  have e: "pevent_enter t c e = (e', w, out) \<Longrightarrow> invalid e' = invalid e" for t c e e' w out
    by (cases c) (auto simp: pevent_defs split: if_splits)
  have r: "pevent_wait_woken err e = (e', w, out) \<Longrightarrow> invalid e' = invalid e" for err e e' w out
    by (auto simp: pevent_defs split: if_splits err.splits)
  from more.hyps(3) more.IH show ?case
    by (induction rule: mstep.induct) (auto simp: pevent_monitor_def dest: e r)
qed

subsection \<open>Switching to permanent\<close>

text \<open>As many notifications as calls in progress, all of them awake.\<close>

definition released :: "(pevent, pevent_call) sys \<Rightarrow> bool" where
  "released S \<longleftrightarrow> proper S \<and> ok pevent_monitor (shared S) \<and> unat (waiting (shared S)) = card (inside S) \<and>
     available (shared S) = waiting (shared S) \<and> sleeping S = Map.empty \<and> (\<forall>t c e. woken S t = Some (c, e) \<longrightarrow> e = Success)"

lemma settle_released:
  assumes "settle pevent_monitor S0 tr S" and "released S0"
  shows "released S \<and> (\<forall>(t, c, r) \<in> set tr. r = Bool True) \<and> card (inside S) + length tr = card (inside S0)"
  using assms(1)
proof (induction rule: settle.induct)
  case settle_done
  then show ?case using assms by simp
next
  case (settle_more tr S t l S')
  have rel: "proper S" "ok pevent_monitor (shared S)" "unat (waiting (shared S)) = card (inside S)"
      "available (shared S) = waiting (shared S)" "sleeping S = Map.empty" "\<forall>t c e. woken S t = Some (c, e) \<longrightarrow> e = Success"
    using settle_more.IH by (auto simp: released_def)
  from settle_more rel(1) obtain c e w out where s: "woken S t = Some (c, e)" "pevent_wait_woken e (shared S) = (shared S', w, out)"
      "case out of Return r \<Rightarrow> l = [(t, c, r)] \<and> dom (sleeping S') = dom (sleeping S)
        | Block \<Rightarrow> l = [] \<and> dom (sleeping S') = insert t (dom (sleeping S))"
    using settle_step [of pevent_monitor S l S' t] by (auto simp: pevent_monitor_def)
  have t: "t \<in> inside S" "finite (inside S)" using s(1) rel(1) by (auto simp: proper_def)
  then have "card (inside S) \<noteq> 0" by auto
  then have av: "available (shared S) \<noteq> 0" using rel(3,4) by auto
  have "e = Success" using s(1) rel(6) by blast
  then have o: "out = Return (Bool True)" "available (shared S') = waiting (shared S')"
    using s(2) av rel(4) pevent_wait_loop_cases [of "shared S" "shared S'" w out] by (simp_all add: pevent_wait_woken_def)
  then have l: "l = [(t, c, Bool True)]" "sleeping S' = Map.empty" using s(3) rel(5) by auto
  have d: "inside S' = inside S - {t}" using settle_more.hyps(4) l(2) rel(5) by auto
  then have c: "card (inside S') + 1 = card (inside S)" using t by (metis Suc_eq_plus1 card_Suc_Diff1)
  have st: "proper S'" "unat (waiting (shared S')) = card (inside S')"
    using settle_more.hyps(3) rel(1-3) mstep_proper pv.step_counted by blast+
  have "ok pevent_monitor (shared S')"
  proof -
    have "unat (waiting (shared S')) < unat (- 1 :: u32)"
      using st(2) rel(3) c word_le_nat_alt [of "waiting (shared S)" "- 1"] by simp
    then show ?thesis by (auto simp: pevent_monitor_def)
  qed
  moreover have "\<forall>t c e. woken S' t = Some (c, e) \<longrightarrow> e = Success" using rel(6) settle_more.hyps(4) by (auto split: if_splits)
  ultimately have "released S'" using st o(2) l(2) by (simp add: released_def)
  then show ?case using c l(1) settle_more.IH by auto
qed

lemma set_permanent_released:
  assumes "run pevent_monitor pevent_new tr S" and "waiting (shared S) \<noteq> - 1" and "woken S = Map.empty" and "\<not> permanent (shared S)"
    and "mstep pevent_monitor S [(t, Set_permanent, r)] S1"
  shows "released S1 \<and> inside S1 = dom (sleeping S) \<and> permanent (shared S1) \<and> r = Void"
  using assms(5)
proof (cases rule: mstep.cases)
  case (enter_return s' w W)
  have pr: "proper S" "unat (waiting (shared S)) = card (inside S)" using pv.run_counted [OF assms(1)] by auto
  have e: "s' = (shared S)\<lparr>permanent := True, available := waiting (shared S)\<rparr>" "r = Void"
      "w = (if waiting (shared S) > 0 then Broadcast else Nobody)"
    using enter_return(4) assms(4) by (auto simp: pevent_defs)
  have "W = dom (sleeping S)"
  proof (cases "waiting (shared S) = 0")
    case True
    then show ?thesis using pr assms(3) enter_return(5) e(3) by (auto simp: proper_def)
  qed (use enter_return(5) e(3) in \<open>auto simp: word_gt_0\<close>)
  then have "dom (sleeping S1) = {}" "inside S1 = dom (sleeping S)" "shared S1 = s'"
    unfolding enter_return(1) using assms(3) by auto
  moreover have "\<forall>t c e. woken S1 t = Some (c, e) \<longrightarrow> e = Success"
    unfolding enter_return(1) using assms(3) by (auto simp: wake_up_def split: if_splits)
  moreover have "proper S1" using mstep_proper [OF assms(5) pr(1)] .
  ultimately show ?thesis using e pr(2) assms(2,3) by (simp add: released_def pevent_monitor_def)
qed (use assms(3) in auto)

subsection \<open>Properties\<close>

text \<open>
  \<^verbatim>\<open>set_permanent\<close>, called while \<open>m\<close> calls of \<^verbatim>\<open>wait\<close> sleep and none is awake, lets all of them
  return true if no other call comes in between; from then on new calls of \<^verbatim>\<open>wait\<close> and \<^verbatim>\<open>wait_nb\<close>
  return true without sleeping. \<^verbatim>\<open>waiting_\<close> is the number of calls in progress.
\<close>

theorem pevent_set_permanent_releases:
  assumes "run pevent_monitor pevent_new tr S" and "waiting (shared S) \<noteq> - 1" and "woken S = Map.empty" and "\<not> permanent (shared S)"
    and "mstep pevent_monitor S [(t, Set_permanent, r)] S1"
  shows "unat (waiting (shared S)) = card (inside S) \<and> r = Void \<and>
    (\<exists>e'. pevent_wait (shared S1) = (e', Nobody, Return (Bool True)) \<and> permanent e') \<and> snd (pevent_wait_nb (shared S1)) \<and>
    (\<exists>tr' S2. settle pevent_monitor S1 tr' S2 \<and> woken S2 = Map.empty) \<and>
    (\<forall>tr' S2. settle pevent_monitor S1 tr' S2 \<and> woken S2 = Map.empty \<longrightarrow>
       length tr' = card (dom (sleeping S)) \<and> (\<forall>(t, c, r) \<in> set tr'. r = Bool True) \<and> sleeping S2 = Map.empty)"
proof -
  note p = set_permanent_released [OF assms]
  have "\<not> invalid (shared S1)"
    using assms(5) pevent_run_valid [OF assms(1)] assms(3) by (cases rule: mstep.cases) (auto simp: pevent_defs split: if_splits)
  then have w: "(\<exists>e'. pevent_wait (shared S1) = (e', Nobody, Return (Bool True)) \<and> permanent e') \<and> snd (pevent_wait_nb (shared S1))"
    using p by (auto simp: pevent_defs)
  have e: "\<exists>tr' S2. settle pevent_monitor S1 tr' S2 \<and> woken S2 = Map.empty"
    using p by (intro settle_ends) (auto simp: pevent_defs released_def split: err.splits)
  have "length tr' = card (dom (sleeping S)) \<and> (\<forall>(t, c, r) \<in> set tr'. r = Bool True) \<and> sleeping S2 = Map.empty"
    if "settle pevent_monitor S1 tr' S2" "woken S2 = Map.empty" for tr' S2
  proof -
    have "released S2" "card (inside S2) + length tr' = card (inside S1)" "\<forall>(t, c, r) \<in> set tr'. r = Bool True"
      using settle_released [OF that(1)] p by blast+
    then show ?thesis using that(2) p by (simp add: released_def)
  qed
  then show ?thesis using w e p pv.run_counted [OF assms(1)] by blast
qed

theorem pevent_set_permanent_releases_witness:
  "\<exists>S S1 tr' S2. run pevent_monitor pevent_new [] S \<and> mstep pevent_monitor S [(2, Set_permanent, Void)] S1 \<and>
     settle pevent_monitor S1 tr' S2 \<and> woken S2 = Map.empty \<and> length tr' = 1"
proof -
  let ?S = "sleep 1 (Wait 0) ((wake_up {} (idle pevent_new))\<lparr>shared := pevent_new\<lparr>waiting := 1\<rparr>\<rparr>)"
  let ?S1 = "(wake_up {1} ?S)\<lparr>shared := \<lparr>invalid = False, waiting = 1, available = 1, permanent = True\<rparr>\<rparr>"
  have "mstep pevent_monitor (idle pevent_new) [] ?S"
    by (rule mstep.enter_block [where w = Nobody]) (auto simp: idle_def pevent_new_def pevent_defs)
  then have r: "run pevent_monitor pevent_new [] ?S" by (rule one_step_run) (simp add: pevent_monitor_def pevent_new_def)
  have n: "mstep pevent_monitor ?S [(2, Set_permanent, Void)] ?S1"
    by (rule mstep.enter_return [where w = Broadcast]) (auto simp: idle_def pevent_new_def pevent_defs)
  have s: "waiting (shared ?S) \<noteq> - 1" "woken ?S = Map.empty" "\<not> permanent (shared ?S)" "dom (sleeping ?S) = {1}"
    by (auto simp: idle_def pevent_new_def sleep_def wake_up_def)
  note d = pevent_set_permanent_releases [OF r s(1-3) n]
  then obtain tr' S2 where t: "settle pevent_monitor ?S1 tr' S2" "woken S2 = Map.empty" by blast
  then have "length tr' = card (dom (sleeping ?S))" using d by simp
  then have "length tr' = 1" unfolding s(4) by simp
  then show ?thesis using r n t by blast
qed

text \<open>
  a call of \<^verbatim>\<open>wait\<close> can sleep on in the permanent state. The loop of \<^verbatim>\<open>wait\<close> tests \<^verbatim>\<open>available_\<close> only,
  and a call that comes in after \<^verbatim>\<open>set_permanent\<close> takes one of the notifications that were made available for
  the calls in progress. In such a state neither \<^verbatim>\<open>notify\<close> nor \<^verbatim>\<open>set_permanent\<close> wakes the call up.
\<close>

theorem pevent_permanent_lost_wakeup:
  "\<exists>S. run pevent_monitor pevent_new [(2, Set_permanent, Void), (3, Wait 0, Bool True)] S \<and>
     sleeping S = [1 \<mapsto> Wait 0] \<and> woken S = Map.empty \<and> permanent (shared S) \<and>
     (\<forall>n. pevent_notify n (shared S) = (shared S, Nobody, n \<noteq> 0)) \<and> pevent_set_permanent (shared S) = (shared S, Nobody)"
proof -
  let ?e = "\<lambda>w a. \<lparr>invalid = False, waiting = w, available = a, permanent = True\<rparr>"
  let ?S1 = "sleep 1 (Wait 0) ((wake_up {} (idle pevent_new))\<lparr>shared := pevent_new\<lparr>waiting := 1\<rparr>\<rparr>)"
  let ?S2 = "(wake_up {1} ?S1)\<lparr>shared := ?e 1 1\<rparr>"
  let ?S3 = "(wake_up {} ?S2)\<lparr>shared := ?e 1 0\<rparr>"
  let ?S4 = "sleep 1 (Wait 0) ((leave 1 (wake_up {} ?S3))\<lparr>shared := ?e 1 0\<rparr>)"
  have 1: "mstep pevent_monitor (idle pevent_new) [] ?S1"
    by (rule mstep.enter_block [where w = Nobody]) (auto simp: idle_def pevent_new_def pevent_defs)
  have 2: "mstep pevent_monitor ?S1 [(2, Set_permanent, Void)] ?S2"
    by (rule mstep.enter_return [where w = Broadcast]) (auto simp: idle_def pevent_new_def pevent_defs)
  have 3: "mstep pevent_monitor ?S2 [(3, Wait 0, Bool True)] ?S3"
    by (rule mstep.enter_return [where w = Nobody]) (auto simp: idle_def pevent_new_def pevent_defs)
  have 4: "mstep pevent_monitor ?S3 [] ?S4"
    by (rule mstep.resume_block [where w = Nobody and e = Success]) (auto simp: idle_def pevent_new_def pevent_defs wake_up_def sleep_def)
  have r: "run pevent_monitor pevent_new ([] @ [(2, Set_permanent, Void)]) ?S2"
    by (rule two_step_run [OF 1 _ _ 2]) (simp_all add: pevent_monitor_def pevent_new_def)
  from run.more [OF run.more [OF r _ 3] _ 4]
  have "run pevent_monitor pevent_new [(2, Set_permanent, Void), (3, Wait 0, Bool True)] ?S4" by (simp add: pevent_monitor_def)
  moreover have "sleeping ?S4 = [1 \<mapsto> Wait 0]" "woken ?S4 = Map.empty"
    by (auto simp: idle_def wake_up_def sleep_def leave_def restrict_map_def)
  moreover have "\<forall>n. pevent_notify n (shared ?S4) = (shared ?S4, Nobody, n \<noteq> 0)" "pevent_set_permanent (shared ?S4) = (shared ?S4, Nobody)"
    by (simp_all add: pevent_notify_def pevent_set_permanent_def)
  moreover have "permanent (shared ?S4)" by simp
  ultimately show ?thesis by blast
qed

end
