(* ===== verification/Mutex.thy ===== *)
theory Mutex
  imports Monitor
begin

section \<open>Mutexes\<close>

text \<open>
  The class \<^verbatim>\<open>mutex\<close> of \<^verbatim>\<open>src/nthread/mutex_impl_pthread.cc\<close>: a recursive lock with time-outs. The
  functions take the calling thread, \<^verbatim>\<open>pthread_self()\<close>; \<^verbatim>\<open>locked_by_\<close> is \<open>None\<close> for the value 0, which is no
  thread. The thread-specific value that unlocks the mutex when a thread ends is not modelled.
\<close>

record mutex =
  invalid :: bool
  waiting :: u32
  locked :: u32
  locked_by :: "nat option"

definition mutex_new :: mutex where
  "mutex_new = \<lparr>invalid = False, waiting = 0, locked = 0, locked_by = None\<rparr>"

definition mutex_delete :: "mutex \<Rightarrow> mutex \<times> wake" where
  "mutex_delete m =
     (let w = (if waiting m > 0 then Broadcast else Nobody)
      in (m\<lparr>invalid := True, waiting := 0, locked := 0\<rparr>, w))"

definition is_locked_nl :: "mutex \<Rightarrow> bool" where
  "is_locked_nl m = (if locked m > 0 then True else False)"

definition is_locked_by_me_nl :: "nat \<Rightarrow> mutex \<Rightarrow> bool" where
  "is_locked_by_me_nl t m = (case locked_by m of None \<Rightarrow> False | Some u \<Rightarrow> u = t)"

text \<open>The end of \<^verbatim>\<open>lock\<close>, the test of its loops, its section up to the first sleep, and the one after
  the wait function returned \<open>err\<close>.\<close>

definition mutex_lock_end :: "nat \<Rightarrow> bool \<Rightarrow> mutex \<Rightarrow> mutex \<times> wake \<times> outcome" where
  "mutex_lock_end t ret m =
     (let m = m\<lparr>waiting := waiting m - 1\<rparr>;
          m = (if ret then m\<lparr>locked := locked m + 1, locked_by := Some t\<rparr> else m)
      in (m, Nobody, Return (Bool ret)))"

definition mutex_lock_loop :: "nat \<Rightarrow> mutex \<Rightarrow> mutex \<times> wake \<times> outcome" where
  "mutex_lock_loop t m =
     (if is_locked_nl m = True \<and> is_locked_by_me_nl t m = False then (m, Nobody, Block) else mutex_lock_end t True m)"

definition mutex_lock :: "nat \<Rightarrow> mutex \<Rightarrow> mutex \<times> wake \<times> outcome" where
  "mutex_lock t m =
     (let m = m\<lparr>waiting := waiting m + 1\<rparr>
      in if invalid m then mutex_lock_end t False m else mutex_lock_loop t m)"

definition mutex_lock_woken :: "nat \<Rightarrow> err \<Rightarrow> mutex \<Rightarrow> mutex \<times> wake \<times> outcome" where
  "mutex_lock_woken t err m =
     (case err of
        Timedout \<Rightarrow> mutex_lock_end t False m
      | Success \<Rightarrow> mutex_lock_loop t m
      | Failure \<Rightarrow> mutex_lock_end t False m)"

definition mutex_try_lock :: "nat \<Rightarrow> mutex \<Rightarrow> mutex \<times> bool" where
  "mutex_try_lock t m =
     (if invalid m then (m, False)
      else if is_locked_nl m = False \<or> is_locked_by_me_nl t m = True
           then (m\<lparr>locked := locked m + 1, locked_by := Some t\<rparr>, True)
           else (m, False))"

definition mutex_unlock :: "nat \<Rightarrow> mutex \<Rightarrow> mutex \<times> wake \<times> bool" where
  "mutex_unlock t m =
     (if is_locked_nl m = False then (m, Nobody, False)
      else if is_locked_by_me_nl t m = False then (m, Nobody, False)
      else let m = m\<lparr>locked := locked m - 1\<rparr>;
               m = (if locked m = 0 then m\<lparr>locked_by := None\<rparr> else m)
           in (m, if waiting m > 0 then Signal 1 else Nobody, True))"

definition mutex_recursive_unlock :: "nat \<Rightarrow> mutex \<Rightarrow> mutex \<times> bool" where
  "mutex_recursive_unlock t m =
     (if is_locked_nl m = False then (m, False)
      else if is_locked_by_me_nl t m = False then (m, False)
      else (m\<lparr>locked := 0, locked_by := None\<rparr>, True))"

definition mutex_is_locked :: "mutex \<Rightarrow> bool" where
  "mutex_is_locked m = is_locked_nl m"

definition mutex_waiting_count :: "mutex \<Rightarrow> u32" where
  "mutex_waiting_count m = waiting m"

definition mutex_locked_count :: "mutex \<Rightarrow> u32" where
  "mutex_locked_count m = locked m"

datatype mutex_call = Lock u64 | Try_lock | Unlock | Recursive_unlock | Is_locked | Waiting_count | Locked_count

fun mutex_enter :: "nat \<Rightarrow> mutex_call \<Rightarrow> mutex \<Rightarrow> mutex \<times> wake \<times> outcome" where
  "mutex_enter t (Lock ms) m = mutex_lock t m"
| "mutex_enter t Try_lock m = (case mutex_try_lock t m of (m, r) \<Rightarrow> (m, Nobody, Return (Bool r)))"
| "mutex_enter t Unlock m = (case mutex_unlock t m of (m, w, r) \<Rightarrow> (m, w, Return (Bool r)))"
| "mutex_enter t Recursive_unlock m = (case mutex_recursive_unlock t m of (m, r) \<Rightarrow> (m, Nobody, Return (Bool r)))"
| "mutex_enter t Is_locked m = (m, Nobody, Return (Bool (mutex_is_locked m)))"
| "mutex_enter t Waiting_count m = (m, Nobody, Return (Count (mutex_waiting_count m)))"
| "mutex_enter t Locked_count m = (m, Nobody, Return (Count (mutex_locked_count m)))"

definition mutex_timed :: "mutex_call \<Rightarrow> bool" where
  "mutex_timed c = (case c of Lock ms \<Rightarrow> ms \<noteq> 0 | _ \<Rightarrow> False)"

text \<open>The object with clients that make the calls in \<open>A\<close>.\<close>

definition mutex_monitor :: "(mutex_call \<Rightarrow> bool) \<Rightarrow> (mutex, mutex_call) monitor" where
  "mutex_monitor A = \<lparr>enter = mutex_enter, resume = \<lambda>t c. mutex_lock_woken t, timed = mutex_timed, allowed = A,
     ok = \<lambda>m. waiting m \<noteq> - 1 \<and> locked m \<noteq> - 1\<rparr>"

abbreviation not_recursive :: "mutex_call \<Rightarrow> bool" where
  "not_recursive c \<equiv> c \<noteq> Recursive_unlock"

abbreviation any_call :: "mutex_call \<Rightarrow> bool" where
  "any_call c \<equiv> True"

lemmas mutex_defs = is_locked_nl_def is_locked_by_me_nl_def mutex_lock_def mutex_lock_loop_def mutex_lock_end_def mutex_lock_woken_def
  mutex_try_lock_def mutex_unlock_def mutex_recursive_unlock_def mutex_monitor_def Let_def

lemma plus_1_not_0: "w \<noteq> - 1 \<Longrightarrow> w + 1 \<noteq> (0 :: u32)"
  by (simp add: add_eq_0_iff2)

lemma mutex_enter_waiting:
  "mutex_enter t c m = (m', w, Return r) \<Longrightarrow> waiting m' = waiting m" "mutex_enter t c m = (m', w, Block) \<Longrightarrow> waiting m' = waiting m + 1"
  by (cases c; auto simp: mutex_defs split: if_splits)+

lemma mutex_woken_waiting:
  "mutex_lock_woken t e m = (m', w, Return r) \<Longrightarrow> waiting m' = waiting m - 1" "mutex_lock_woken t e m = (m', w, Block) \<Longrightarrow> waiting m' = waiting m"
  by (auto simp: mutex_defs split: if_splits err.splits)

interpretation mx: counted "mutex_monitor A" mutex_new waiting for A
  by unfold_locales (auto simp: mutex_monitor_def mutex_new_def dest: mutex_enter_waiting mutex_woken_waiting)

interpretation mn: delivering "mutex_monitor not_recursive" mutex_new waiting "\<lambda>m. if locked m = 0 then 1 else 0"
proof unfold_locales
  fix t c s s' w r out e
  show "ok (mutex_monitor not_recursive) s \<Longrightarrow> allowed (mutex_monitor not_recursive) c \<Longrightarrow> enter (mutex_monitor not_recursive) t c s = (s', w, out) \<Longrightarrow>
     (if locked s' = 0 then 1 else 0) \<le> ((if locked s = 0 then 1 else 0) :: nat) \<or> waiting s = 0 \<or> w = Broadcast \<or>
       (\<exists>k. w = Signal k \<and> (if locked s' = 0 then 1 else 0) \<le> k)"
    by (cases c) (auto simp: mutex_defs word_gt_0 plus_1_not_0 split: if_splits option.splits)
  show "ok (mutex_monitor not_recursive) s \<Longrightarrow> allowed (mutex_monitor not_recursive) c \<Longrightarrow> enter (mutex_monitor not_recursive) t c s = (s', w, Block) \<Longrightarrow>
     (if locked s' = 0 then 1 else 0 :: nat) = 0"
    by (cases c) (auto simp: mutex_defs word_gt_0 split: if_splits)
  show "ok (mutex_monitor not_recursive) s \<Longrightarrow> resume (mutex_monitor not_recursive) t c Success s = (s', w, Return r) \<Longrightarrow>
     (if locked s' = 0 then 1 else 0) \<le> (if locked s = 0 then 1 else 0) - (1 :: nat)"
    by (auto simp: mutex_defs plus_1_not_0 split: if_splits)
  show "ok (mutex_monitor not_recursive) s \<Longrightarrow> resume (mutex_monitor not_recursive) t c e s = (s', w, Return r) \<Longrightarrow>
     (if locked s' = 0 then 1 else 0) \<le> ((if locked s = 0 then 1 else 0) :: nat)"
    by (auto simp: mutex_defs plus_1_not_0 split: if_splits err.splits)
  show "ok (mutex_monitor not_recursive) s \<Longrightarrow> resume (mutex_monitor not_recursive) t c e s = (s', w, Block) \<Longrightarrow>
     (if locked s = 0 then 1 else 0 :: nat) = 0 \<and> (if locked s' = 0 then 1 else 0 :: nat) = 0"
    by (auto simp: mutex_defs word_gt_0 split: if_splits err.splits)
qed

subsection \<open>Who holds the mutex\<close>

text \<open>How often each thread holds the mutex, according to the results of its calls.\<close>

fun account :: "nat \<times> mutex_call \<times> ret \<Rightarrow> (nat \<Rightarrow> nat) \<Rightarrow> nat \<Rightarrow> nat" where
  "account (t, Lock ms, Bool True) h = h(t := h t + 1)"
| "account (t, Try_lock, Bool True) h = h(t := h t + 1)"
| "account (t, Unlock, Bool True) h = h(t := h t - 1)"
| "account (t, Recursive_unlock, Bool True) h = h(t := 0)"
| "account x h = h"

definition held :: "(nat \<times> mutex_call \<times> ret) list \<Rightarrow> nat \<Rightarrow> nat" where
  "held tr = fold account tr (\<lambda>t. 0)"

text \<open>What the members of the object say.\<close>

definition owners :: "mutex \<Rightarrow> nat \<Rightarrow> nat" where
  "owners m = (\<lambda>t. if locked_by m = Some t then unat (locked m) else 0)"

definition mutex_inv :: "mutex \<Rightarrow> bool" where
  "mutex_inv m \<longleftrightarrow> (locked m = 0 \<longleftrightarrow> locked_by m = None) \<and> \<not> invalid m"

lemma lock_owners:
  assumes "locked m \<noteq> - 1" and "mutex_inv m" and "locked m = 0 \<or> locked_by m = Some t"
  shows "owners (m\<lparr>waiting := x, locked := locked m + 1, locked_by := Some t\<rparr>) = (owners m)(t := owners m t + 1) \<and>
    mutex_inv (m\<lparr>waiting := x, locked := locked m + 1, locked_by := Some t\<rparr>)"
  using assms plus_1_not_0 [OF assms(1)] unat_plus_1 [OF assms(1)] by (auto simp: owners_def mutex_inv_def)

lemma lock_loop_owners:
  assumes "mutex_lock_loop t m = (m', w, out)" and "locked m \<noteq> - 1" and "mutex_inv m"
  shows "(case out of Return r \<Rightarrow> owners m' = account (t, Lock ms, r) (owners m) | Block \<Rightarrow> owners m' = owners m) \<and> mutex_inv m'"
  using assms lock_owners [OF assms(2,3), of t "waiting m - 1"] by (auto simp: mutex_defs word_gt_0 split: if_splits option.splits)

lemma lock_end_owners: "mutex_lock_end t False m = (m', w, out) \<Longrightarrow> out = Return (Bool False) \<and> owners m' = owners m \<and> mutex_inv m' = mutex_inv m"
  by (auto simp: mutex_lock_end_def owners_def mutex_inv_def)

lemma unlock_owners:
  assumes "mutex_unlock t m = (m', w, b)" and "mutex_inv m"
  shows "owners m' = account (t, Unlock, Bool b) (owners m) \<and> mutex_inv m'"
  using assms by (auto simp: mutex_defs owners_def mutex_inv_def unat_minus_one split: if_splits)

lemma mutex_enter_owners:
  assumes "mutex_enter t c m = (m', w, out)" and "locked m \<noteq> - 1" and "mutex_inv m"
  shows "(case out of Return r \<Rightarrow> owners m' = account (t, c, r) (owners m) | Block \<Rightarrow> owners m' = owners m) \<and> mutex_inv m'"
proof (cases c)
  case (Lock ms)
  let ?m = "m\<lparr>waiting := waiting m + 1\<rparr>"
  have "owners ?m = owners m" "mutex_inv ?m" using assms(3) by (auto simp: owners_def mutex_inv_def fun_eq_iff)
  moreover have "mutex_lock_loop t ?m = (m', w, out)" using assms(1,3) Lock by (simp add: mutex_lock_def mutex_inv_def Let_def)
  ultimately show ?thesis using lock_loop_owners [of t ?m m' w out ms] assms(2) Lock by (cases out) simp_all
next
  case Try_lock
  then show ?thesis using assms lock_owners [OF assms(2,3), of t "waiting m"] by (auto simp: mutex_defs word_gt_0 split: if_splits option.splits)
next
  case Unlock
  then show ?thesis using assms unlock_owners by (auto split: prod.splits)
qed (use assms in \<open>auto simp: mutex_defs mutex_inv_def owners_def fun_eq_iff split: if_splits option.splits\<close>)

lemma mutex_woken_owners:
  assumes "mutex_lock_woken t e m = (m', w, out)" and "locked m \<noteq> - 1" and "mutex_inv m"
  shows "(case out of Return r \<Rightarrow> owners m' = account (t, Lock ms, r) (owners m) | Block \<Rightarrow> owners m' = owners m) \<and> mutex_inv m'"
  using assms lock_end_owners [of t m m' w out] lock_loop_owners [of t m m' w out ms]
  by (cases e) (auto simp: mutex_lock_woken_def)

text \<open>Only \<^verbatim>\<open>lock\<close> sleeps.\<close>

abbreviation locks :: "(mutex, mutex_call) sys \<Rightarrow> bool" where
  "locks \<equiv> only (\<lambda>c. \<exists>ms. c = Lock ms)"

lemma block_locks: "enter (mutex_monitor A) t c m = (m', w, Block) \<Longrightarrow> \<exists>ms. c = Lock ms"
  by (cases c) (auto simp: mutex_defs split: if_splits)

lemma run_locks: "run (mutex_monitor A) mutex_new tr S \<Longrightarrow> locks S"
  by (erule run_only) (rule block_locks)

lemma step_owners:
  assumes "mstep (mutex_monitor A) S l S'" and "ok (mutex_monitor A) (shared S)" and "locks S" and "mutex_inv (shared S)"
  shows "owners (shared S') = fold account l (owners (shared S)) \<and> mutex_inv (shared S')"
  using assms
proof (induction rule: mstep.induct)
  case (enter_return t S c s' w r W)
  then show ?case using mutex_enter_owners [of t c "shared S" s' w "Return r"] by (simp add: mutex_monitor_def)
next
  case (enter_block t S c s' w W)
  then show ?case using mutex_enter_owners [of t c "shared S" s' w Block] by (simp add: mutex_monitor_def)
next
  case (resume_return S t c e s' w r W)
  then obtain ms where "c = Lock ms" using only_woken [OF resume_return(5,1)] by blast
  then show ?case using resume_return mutex_woken_owners [of t e "shared S" s' w "Return r" ms] by (simp add: mutex_monitor_def)
next
  case (resume_block S t c e s' w W)
  then show ?case using mutex_woken_owners [of t e "shared S" s' w Block] by (simp add: mutex_monitor_def)
qed simp_all

lemma run_owners: "run (mutex_monitor A) mutex_new tr S \<Longrightarrow> mutex_inv (shared S) \<and> owners (shared S) = held tr"
proof (induction rule: run.induct)
  case start
  show ?case by (simp add: idle_def mutex_new_def mutex_inv_def owners_def held_def fun_eq_iff)
next
  case (more tr S l S')
  then show ?case using step_owners [OF more.hyps(3,2) run_locks [OF more.hyps(1)]] by (simp add: held_def)
qed

subsection \<open>Properties\<close>

text \<open>
  C12: mutual exclusion. In any interleaving of calls, time-outs and wake-ups, at most one thread
  holds the mutex, where a thread holds it as often as its calls of \<^verbatim>\<open>lock\<close> and \<^verbatim>\<open>try_lock\<close> returned true and it
  did not give it back with \<^verbatim>\<open>unlock\<close> or \<^verbatim>\<open>recursive_unlock\<close>; \<^verbatim>\<open>locked_by_\<close> is this thread and \<^verbatim>\<open>locked_\<close> how often
  it holds it, and both are zero if there is none. \<^verbatim>\<open>waiting_\<close> is the number of calls in progress.
\<close>

theorem mutex_exclusion:
  assumes "run (mutex_monitor A) mutex_new tr S"
  shows "(\<forall>t u. 0 < held tr t \<and> 0 < held tr u \<longrightarrow> t = u) \<and>
    (\<forall>t. 0 < held tr t \<longleftrightarrow> locked_by (shared S) = Some t) \<and>
    (\<forall>t. 0 < held tr t \<longrightarrow> unat (locked (shared S)) = held tr t) \<and>
    ((\<forall>t. held tr t = 0) \<longleftrightarrow> locked (shared S) = 0) \<and>
    unat (waiting (shared S)) = card (inside S)"
proof -
  have o: "held tr t = (if locked_by (shared S) = Some t then unat (locked (shared S)) else 0)" for t
    using run_owners [OF assms] by (metis owners_def)
  have i: "locked (shared S) = 0 \<longleftrightarrow> locked_by (shared S) = None" using run_owners [OF assms] by (simp add: mutex_inv_def)
  have "unat (waiting (shared S)) = card (inside S)" using mx.run_counted [OF assms] by simp
  moreover have "(\<forall>t. held tr t = 0) \<longleftrightarrow> locked (shared S) = 0" using o i by (cases "locked_by (shared S)") (auto simp: unat_gt_0)
  ultimately show ?thesis using o i by (auto simp: unat_gt_0)
qed

text \<open>
  The results of the calls that do not wait. \<^verbatim>\<open>unlock\<close> and \<^verbatim>\<open>recursive_unlock\<close> return true exactly for
  the thread that holds the mutex and give it back once and entirely; \<^verbatim>\<open>try_lock\<close> returns true exactly
  if no other thread holds it; a call that returns false changes nothing.
\<close>

theorem mutex_results:
  assumes "run (mutex_monitor A) mutex_new tr S"
  shows "(case mutex_unlock t (shared S) of (m, w, b) \<Rightarrow> b = (0 < held tr t) \<and> (if b then owners m = (held tr)(t := held tr t - 1) else m = shared S)) \<and>
    (case mutex_recursive_unlock t (shared S) of (m, b) \<Rightarrow> b = (0 < held tr t) \<and> (if b then owners m = (held tr)(t := 0) else m = shared S)) \<and>
    (case mutex_try_lock t (shared S) of (m, b) \<Rightarrow> b = (\<forall>u. u \<noteq> t \<longrightarrow> held tr u = 0) \<and> (if b then locked_by m = Some t else m = shared S))"
proof -
  have o: "held tr = owners (shared S)" and i: "mutex_inv (shared S)" using run_owners [OF assms] by auto
  show ?thesis unfolding o using i
    by (cases "locked_by (shared S)") (auto simp: mutex_defs mutex_inv_def owners_def word_gt_0 unat_gt_0 unat_minus_one fun_eq_iff)
qed

text \<open>Two threads: the first holds the mutex, the second sleeps in \<^verbatim>\<open>lock\<close>.\<close>

definition contended :: "(mutex, mutex_call) sys" where
  "contended = \<lparr>shared = \<lparr>invalid = False, waiting = 1, locked = 1, locked_by = Some 1\<rparr>, sleeping = [2 \<mapsto> Lock 0], woken = Map.empty\<rparr>"

lemma run_contended:
  assumes "A (Lock 0)"
  shows "run (mutex_monitor A) mutex_new [(1, Lock 0, Bool True)] contended"
proof -
  let ?S1 = "(wake_up {} (idle mutex_new))\<lparr>shared := \<lparr>invalid = False, waiting = 0, locked = 1, locked_by = Some 1\<rparr>\<rparr>"
  let ?S2 = "sleep 2 (Lock 0) ((wake_up {} ?S1)\<lparr>shared := \<lparr>invalid = False, waiting = 1, locked = 1, locked_by = Some 1\<rparr>\<rparr>)"
  have 1: "mstep (mutex_monitor A) (idle mutex_new) [(1, Lock 0, Bool True)] ?S1"
    using assms by (intro mstep.enter_return [where w = Nobody]) (auto simp: idle_def mutex_new_def mutex_defs)
  have 2: "mstep (mutex_monitor A) ?S1 [] ?S2"
    using assms by (intro mstep.enter_block [where w = Nobody]) (auto simp: idle_def mutex_new_def mutex_defs)
  have "?S2 = contended" by (simp add: contended_def idle_def wake_up_def sleep_def)
  moreover have "run (mutex_monitor A) mutex_new ([(1, Lock 0, Bool True)] @ []) ?S2"
    by (rule two_step_run [OF 1 _ _ 2]) (simp_all add: mutex_monitor_def mutex_new_def)
  ultimately show ?thesis by simp
qed

theorem mutex_exclusion_witness:
  "run (mutex_monitor any_call) mutex_new [(1, Lock 0, Bool True)] contended \<and> held [(1, Lock 0, Bool True)] 1 = unat (locked (shared contended))"
proof -
  have r: "run (mutex_monitor any_call) mutex_new [(1, Lock 0, Bool True)] contended" by (rule run_contended) simp
  have h: "0 < held [(1, Lock 0, Bool True)] 1" by (simp add: held_def)
  have "\<forall>t. 0 < held [(1, Lock 0, Bool True)] t \<longrightarrow> unat (locked (shared contended)) = held [(1, Lock 0, Bool True)] t"
    using mutex_exclusion [OF r] by (elim conjE)
  from spec [OF this, of 1] show ?thesis using r h by (simp only: simp_thms)
qed

theorem mutex_results_witness:
  "run (mutex_monitor any_call) mutex_new [(1, Lock 0, Bool True)] contended \<and> mutex_try_lock 2 (shared contended) = (shared contended, False)"
proof -
  have r: "run (mutex_monitor any_call) mutex_new [(1, Lock 0, Bool True)] contended" by (rule run_contended) simp
  have "held [(1, Lock 0, Bool True)] 1 = 1" by (simp add: held_def)
  then have "\<not> (\<forall>u. u \<noteq> 2 \<longrightarrow> held [(1, Lock 0, Bool True)] u = 0)" by (metis numeral_eq_one_iff one_neq_zero semiring_norm(85))
  moreover obtain m b where mb: "mutex_try_lock 2 (shared contended) = (m, b)" by (metis surj_pair)
  have "case mutex_try_lock 2 (shared contended) of (m, b) \<Rightarrow> b = (\<forall>u. u \<noteq> 2 \<longrightarrow> held [(1, Lock 0, Bool True)] u = 0) \<and>
      (if b then locked_by m = Some 2 else m = shared contended)"
    using mutex_results [OF r, of 2] by (elim conjE)
  then have "b = (\<forall>u. u \<noteq> 2 \<longrightarrow> held [(1, Lock 0, Bool True)] u = 0) \<and> (if b then locked_by m = Some 2 else m = shared contended)"
    unfolding mb prod.case .
  ultimately show ?thesis using r mb by (simp only: if_False simp_thms)
qed

text \<open>
  C33: if the clients do not use \<^verbatim>\<open>recursive_unlock\<close>, nobody sleeps for ever at a free mutex: while no
  thread holds it and a call of \<^verbatim>\<open>lock\<close> sleeps, another call of \<^verbatim>\<open>lock\<close> is awake and can take it.
\<close>

theorem mutex_no_lost_wakeup:
  assumes "run (mutex_monitor not_recursive) mutex_new tr S" and "waiting (shared S) \<noteq> - 1"
    and "\<forall>t. held tr t = 0" and "dom (sleeping S) \<noteq> {}"
  shows "\<exists>t c S'. t \<in> ready S \<and> mstep (mutex_monitor not_recursive) S [(t, c, Bool True)] S' \<and> locked_by (shared S') = Some t"
proof -
  have l: "locked (shared S) = 0" using run_owners [OF assms(1)] assms(3)
    by (cases "locked_by (shared S)") (auto simp: mutex_inv_def owners_def fun_eq_iff unat_eq_zero dest: spec [of _ "the (locked_by (shared S))"])
  then have "ok (mutex_monitor not_recursive) (shared S)" using assms(2) by (simp add: mutex_monitor_def)
  from mn.run_progress [OF assms(1) this] obtain t c r s' w where t: "woken S t = Some (c, Success)" "mutex_lock_loop t (shared S) = (s', w, Return r)"
    using l assms(4) by (auto simp: mutex_monitor_def mutex_lock_woken_def)
  then have r: "r = Bool True" "w = Nobody" "locked_by s' = Some t" using l by (auto simp: mutex_defs)
  have "mstep (mutex_monitor not_recursive) S [(t, c, Bool True)] ((leave t (wake_up {} S))\<lparr>shared := s'\<rparr>)"
    using t r by (intro mstep.resume_return [where e = Success and w = Nobody]) (auto simp: mutex_monitor_def mutex_lock_woken_def)
  then show ?thesis using t(1) r(3) by (intro exI [of _ t] exI [of _ c] exI) (auto simp: ready_def)
qed

theorem mutex_no_lost_wakeup_witness:
  "\<exists>S t c S'. run (mutex_monitor not_recursive) mutex_new [(1, Lock 0, Bool True), (1, Unlock, Bool True)] S \<and> t \<in> ready S \<and>
     mstep (mutex_monitor not_recursive) S [(t, c, Bool True)] S' \<and> locked_by (shared S') = Some t"
proof -
  let ?m = "\<lparr>invalid = False, waiting = 2, locked = 1, locked_by = Some 1\<rparr>"
  let ?S1 = "sleep 3 (Lock 0) ((wake_up {} contended)\<lparr>shared := ?m\<rparr>)"
  let ?S2 = "(wake_up {2} ?S1)\<lparr>shared := ?m\<lparr>locked := 0, locked_by := None\<rparr>\<rparr>"
  have r: "run (mutex_monitor not_recursive) mutex_new [(1, Lock 0, Bool True)] contended" by (rule run_contended) simp
  have 1: "mstep (mutex_monitor not_recursive) contended [] ?S1"
    by (rule mstep.enter_block [where w = Nobody]) (auto simp: contended_def mutex_defs)
  have 2: "mstep (mutex_monitor not_recursive) ?S1 [(1, Unlock, Bool True)] ?S2"
    by (rule mstep.enter_return [where w = "Signal 1"]) (auto simp: contended_def mutex_defs)
  from run.more [OF run.more [OF r _ 1] _ 2]
  have r2: "run (mutex_monitor not_recursive) mutex_new [(1, Lock 0, Bool True), (1, Unlock, Bool True)] ?S2"
    by (simp add: mutex_monitor_def contended_def)
  have "waiting (shared ?S2) \<noteq> - 1" by simp
  moreover have "\<forall>t. held [(1, Lock 0, Bool True), (1, Unlock, Bool True)] t = 0" by (simp add: held_def)
  moreover have "dom (sleeping ?S2) \<noteq> {}" by (simp add: contended_def)
  ultimately show ?thesis using mutex_no_lost_wakeup [OF r2] r2 by blast
qed

text \<open>
  \<^verbatim>\<open>recursive_unlock\<close> does not signal the condition variable: when the first thread gives the mutex
  back with it, the second one, which waits for it without a timeout, sleeps on although the mutex is free, and no other
  thread is awake.
\<close>

theorem mutex_recursive_unlock_lost_wakeup:
  "\<exists>S. run (mutex_monitor any_call) mutex_new [(1, Lock 0, Bool True), (1, Recursive_unlock, Bool True)] S \<and>
     sleeping S = [2 \<mapsto> Lock 0] \<and> woken S = Map.empty \<and> locked (shared S) = 0"
proof -
  let ?S = "(wake_up {} contended)\<lparr>shared := \<lparr>invalid = False, waiting = 1, locked = 0, locked_by = None\<rparr>\<rparr>"
  have r: "run (mutex_monitor any_call) mutex_new [(1, Lock 0, Bool True)] contended" by (rule run_contended) simp
  have "mstep (mutex_monitor any_call) contended [(1, Recursive_unlock, Bool True)] ?S"
    by (rule mstep.enter_return [where w = Nobody]) (auto simp: contended_def mutex_defs)
  from run.more [OF r _ this]
  have "run (mutex_monitor any_call) mutex_new [(1, Lock 0, Bool True), (1, Recursive_unlock, Bool True)] ?S"
    by (simp add: mutex_monitor_def contended_def)
  moreover have "sleeping ?S = [2 \<mapsto> Lock 0]" "woken ?S = Map.empty" "locked (shared ?S) = 0"
    by (simp_all add: contended_def wake_up_def)
  ultimately show ?thesis by blast
qed

end
