(* ===== verification/Thrpool.thy ===== *)
theory Thrpool
  imports Event
begin

section \<open>The thread pool\<close>

text \<open>
  \<^verbatim>\<open>thrpool\<close> of \<^verbatim>\<open>src/nthread/thrpool.cc\<close>, on the model of \<^verbatim>\<open>event\<close>. Each worker thread runs
  \<^verbatim>\<open>entry::operator()\<close>, and one thread, the owner, calls \<^verbatim>\<open>init\<close>, \<^verbatim>\<open>graceful_stop\<close> and \<^verbatim>\<open>unpolite_stop\<close>. A step is
  one section that holds a mutex, of the pool, of an entry or of an event; all threads compete for their next
  step. The condition variables are those of \<open>Monitor\<close> without the record of who was signalled: a
  thread that sleeps may wake up at any time, with any result.
\<close>

text \<open>
  Where a worker is: before its next section. \<open>Created\<close> is a thread that has not yet set its \<^verbatim>\<open>start_evt_\<close>;
  \<open>Left\<close> one that has left \<^verbatim>\<open>operator()\<close>; \<open>Ended\<close> and \<open>Killed\<close> are threads whose \<^verbatim>\<open>exit_evt_\<close> is
  permanent, \<open>Killed\<close> those that \<^verbatim>\<open>pthread_cancel\<close> has ended, with the information whether they were counted in \<^verbatim>\<open>count_\<close>.
\<close>

datatype stage = Created | Begin | Entered | Loop | Waits | Waiting | Woke bool | Check | Help | Help_count | Help_cleanup | Help_start
  | Help_wait nat | Call | Clean | Leave | Leaving | Left | Ended | Killed bool

record worker =
  wstage :: stage
  stop_me :: bool
  n_attempts :: u32
  wattempts :: u32
  wmin :: u32
  wmax :: u32
  cancelled :: bool

text \<open>What the owner has to do: the sections of its functions.\<close>

datatype act = Set_stop | Notify_workers u32 | Await bool | Awaiting bool | Cleanup | Second_pass | Finish_stop | Clear_exit
  | Lock_pool | Cancel nat | Await_end nat | Delete nat | Drop_all | Init_check | Init_stopped | Init_unpolite | Init_set u32 u32 u32 u32
  | Start | Started nat | Return_true | Delete_stopped

datatype pool_res = Returned bool | Invalid_param | Stop_error | Start_error

record thrpool =
  pcount :: u32
  pmin :: u32
  pmax :: u32
  ptimeout :: u32
  pattempts :: u32
  exit_ev :: event
  start_ev :: event
  ev :: event
  workers :: "worker list"
  thrs :: "nat list"
  held :: bool
  handled :: nat
  todo :: "act list"
  failed_count :: u32
  stop_ret :: bool
  result :: "pool_res option"

definition thrpool_new :: thrpool where
  "thrpool_new = \<lparr>pcount = 0, pmin = 1, pmax = 4, ptimeout = 1000, pattempts = 20, exit_ev = event_new, start_ev = event_new, ev = event_new,
     workers = [], thrs = [], held = False, handled = 0, todo = [], failed_count = 0, stop_ret = False, result = None\<rparr>"

abbreviation worker_at :: "thrpool \<Rightarrow> nat \<Rightarrow> worker" where "worker_at p t \<equiv> workers p ! t"

definition modify :: "nat \<Rightarrow> (worker \<Rightarrow> worker) \<Rightarrow> thrpool \<Rightarrow> thrpool" where
  "modify t f p = p\<lparr>workers := (workers p)[t := f (worker_at p t)]\<rparr>"

definition goto :: "nat \<Rightarrow> stage \<Rightarrow> thrpool \<Rightarrow> thrpool" where
  "goto t s p = modify t (\<lambda>w. w\<lparr>wstage := s\<rparr>) p"

definition is_exited :: "worker \<Rightarrow> bool" where
  "is_exited w \<longleftrightarrow> (case wstage w of Ended \<Rightarrow> True | Killed _ \<Rightarrow> True | _ \<Rightarrow> False)"

subsection \<open>Functions of the pool\<close>

definition cleanup :: "thrpool \<Rightarrow> thrpool \<times> nat" where
  "cleanup p = (let newlist = filter (\<lambda>t. \<not> is_exited (worker_at p t)) (thrs p) in (p\<lparr>thrs := newlist\<rparr>, length newlist))"

text \<open>The constructor of \<^verbatim>\<open>entry\<close>.\<close>

definition new_worker :: "thrpool \<Rightarrow> worker" where
  "new_worker p = \<lparr>wstage = Created, stop_me = False, n_attempts = 0, wattempts = pattempts p, wmin = pmin p, wmax = pmax p, cancelled = False\<rparr>"

text \<open>
  \<^verbatim>\<open>start_one\<close> up to the wait for the thread's start: the new thread, if there is one. \<open>created\<close> tells whether
  \<^verbatim>\<open>pthread_create\<close> succeeds.
\<close>

definition start_one :: "bool \<Rightarrow> thrpool \<Rightarrow> thrpool \<times> nat option" where
  "start_one created p =
     (if pcount p > pmax p then (p, None)
      else if \<not> created then (p, None)
      else (p\<lparr>workers := workers p @ [new_worker p], thrs := thrs p @ [length (workers p)]\<rparr>, Some (length (workers p))))"

text \<open>\<^verbatim>\<open>on_entry\<close> and \<^verbatim>\<open>on_exit\<close>: the section with the count, and the notification behind it.\<close>

definition on_entry :: "thrpool \<Rightarrow> thrpool" where
  "on_entry p = p\<lparr>pcount := pcount p + 1\<rparr>"

definition notify_start :: "thrpool \<Rightarrow> thrpool" where
  "notify_start p = p\<lparr>start_ev := fst (event_notify 1 (start_ev p))\<rparr>"

definition on_exit :: "thrpool \<Rightarrow> thrpool" where
  "on_exit p = p\<lparr>pcount := pcount p - 1\<rparr>"

definition notify_exit :: "thrpool \<Rightarrow> thrpool" where
  "notify_exit p = p\<lparr>exit_ev := fst (event_notify 1 (exit_ev p))\<rparr>"

declare on_entry_def [simp] notify_start_def [simp] on_exit_def [simp]

subsection \<open>Workers\<close>

text \<open>What a wait for an event returns, and where the worker goes on.\<close>

definition waited :: "nat \<Rightarrow> event \<times> wake \<times> outcome \<Rightarrow> thrpool \<Rightarrow> thrpool" where
  "waited t r p =
     (case r of
        (e, _, Block) \<Rightarrow> goto t Waiting (p\<lparr>ev := e\<rparr>)
      | (e, _, Return v) \<Rightarrow> goto t (Woke (v = Bool True)) (p\<lparr>ev := e\<rparr>))"

text \<open>
  The next section of worker \<open>t\<close> in \<^verbatim>\<open>thread_entry_\<close> and \<^verbatim>\<open>entry::operator()\<close>, or \<open>None\<close> when it has ended.
  \<open>err\<close> is the result of a wait function, \<open>created\<close> the one of \<^verbatim>\<open>pthread_create\<close>.
\<close>

definition work :: "err \<Rightarrow> bool \<Rightarrow> nat \<Rightarrow> thrpool \<Rightarrow> thrpool option" where
  "work err created t p =
     (let w = worker_at p t
      in case wstage w of
           Created \<Rightarrow> Some (goto t Begin p)
         | Begin \<Rightarrow> Some (goto t Entered (on_entry p))
         | Entered \<Rightarrow> Some (goto t Loop (notify_start p))
         | Loop \<Rightarrow> Some (goto t (if stop_me w then Leave else Waits) p)
         | Waits \<Rightarrow> Some (waited t (event_wait (ev p)) p)
         | Waiting \<Rightarrow> Some (waited t (event_wait_woken err (ev p)) p)
         | Woke False \<Rightarrow>
             let n = n_attempts w + 1
             in Some (goto t (if n > wattempts w then Check else Clean) (modify t (\<lambda>w. w\<lparr>n_attempts := n\<rparr>) p))
         | Woke True \<Rightarrow>
             (if stop_me w then Some (goto t Leave p)
              else Some (goto t Help (modify t (\<lambda>w. w\<lparr>n_attempts := 0\<rparr>) p)))
         | Check \<Rightarrow> Some (goto t (if pcount p > wmin w then Leave else Clean) p)
         | Help \<Rightarrow> Some (goto t (if event_available_count (ev p) > 2 then Help_count else Call) p)
         | Help_count \<Rightarrow> Some (goto t (if pcount p < wmax w then Help_cleanup else Call) p)
         | Help_cleanup \<Rightarrow> (case cleanup p of (p, n) \<Rightarrow> Some (goto t (if n < unat (wmax w) then Help_start else Call) p))
         | Help_start \<Rightarrow> (case start_one created p of (p, None) \<Rightarrow> Some (goto t Call p) | (p, Some c) \<Rightarrow> Some (goto t (Help_wait c) p))
         | Help_wait c \<Rightarrow> Some (goto t Call p)
         | Call \<Rightarrow> Some (goto t Clean (p\<lparr>handled := handled p + 1\<rparr>))
         | Clean \<Rightarrow> Some (goto t Loop (fst (cleanup p)))
         | Leave \<Rightarrow> Some (goto t Leaving (on_exit p))
         | Leaving \<Rightarrow> Some (goto t Left (notify_exit p))
         | Left \<Rightarrow> Some (goto t Ended p)
         | Ended \<Rightarrow> None
         | Killed _ \<Rightarrow> None)"

text \<open>The sections that need the mutex of the pool.\<close>

definition needs_mutex :: "stage \<Rightarrow> bool" where
  "needs_mutex s \<longleftrightarrow> (case s of Begin \<Rightarrow> True | Check \<Rightarrow> True | Help_count \<Rightarrow> True | Help_cleanup \<Rightarrow> True | Help_start \<Rightarrow> True
     | Clean \<Rightarrow> True | Leave \<Rightarrow> True | _ \<Rightarrow> False)"

text \<open>A worker between its two updates of \<^verbatim>\<open>count_\<close>, or cancelled there.\<close>

definition is_counted :: "stage \<Rightarrow> bool" where
  "is_counted s \<longleftrightarrow> (case s of Created \<Rightarrow> False | Begin \<Rightarrow> False | Leaving \<Rightarrow> False | Left \<Rightarrow> False | Ended \<Rightarrow> False | Killed c \<Rightarrow> c | _ \<Rightarrow> True)"

text \<open>
  A cancelled thread ends at a cancellation point: while it waits for an event, in the \<^verbatim>\<open>sleep(0)\<close> at the end of
  \<^verbatim>\<open>event::wait\<close>, while it waits for a mutex of the pool or of its entry, which is a wait for a condition variable,
  too, or in the handler. The sections of \<^verbatim>\<open>event\<close> take a plain \<^verbatim>\<open>pthread_mutex_t\<close>, which is no cancellation point:
  a thread does not end in front of a notification, of \<^verbatim>\<open>available_count\<close> or of the first section of \<^verbatim>\<open>wait\<close>. In
  \<^verbatim>\<open>thread_entry_\<close> cancellation is enabled around \<^verbatim>\<open>operator()\<close> only.
\<close>

definition cancel_point :: "stage \<Rightarrow> bool" where
  "cancel_point s \<longleftrightarrow> (case s of Begin \<Rightarrow> True | Loop \<Rightarrow> True | Waiting \<Rightarrow> True | Woke _ \<Rightarrow> True | Check \<Rightarrow> True | Help_count \<Rightarrow> True
     | Help_cleanup \<Rightarrow> True | Help_start \<Rightarrow> True | Help_wait _ \<Rightarrow> True | Call \<Rightarrow> True | Clean \<Rightarrow> True | Leave \<Rightarrow> True | _ \<Rightarrow> False)"

definition die :: "nat \<Rightarrow> thrpool \<Rightarrow> thrpool option" where
  "die t p =
     (let w = worker_at p t
      in if cancelled w \<and> cancel_point (wstage w) then Some (goto t (Killed (is_counted (wstage w))) p) else None)"

subsection \<open>The owner\<close>

definition graceful_stop :: "act list" where
  "graceful_stop = [Set_stop, Cleanup, Second_pass, Finish_stop, Clear_exit]"

text \<open>
  \<^verbatim>\<open>unpolite_stop\<close> for each thread of the list, and \<^verbatim>\<open>init\<close>, whose parameters are checked first.
\<close>

definition unpolite_stop :: "act list" where
  "unpolite_stop = [Lock_pool, Drop_all]"

definition init :: "u32 \<Rightarrow> u32 \<Rightarrow> u32 \<Rightarrow> u32 \<Rightarrow> thrpool \<Rightarrow> thrpool" where
  "init mint maxt timeoutt attemptst p =
     (if maxt < mint \<or> (mint < 1 \<or> maxt > 2000) \<or> attemptst = 0 \<or> timeoutt = 0 then p\<lparr>result := Some Invalid_param\<rparr>
      else p\<lparr>todo := [Init_check, Init_set mint maxt timeoutt attemptst] @ replicate (unat mint) Start @ [Return_true]\<rparr>)"

definition await_end :: "bool \<Rightarrow> event \<times> wake \<times> outcome \<Rightarrow> thrpool \<Rightarrow> thrpool" where
  "await_end counts r p =
     (case r of
        (e, _, Block) \<Rightarrow> p\<lparr>exit_ev := e, todo := Awaiting counts # todo p\<rparr>
      | (e, _, Return v) \<Rightarrow> p\<lparr>exit_ev := e, failed_count := (if counts \<and> v = Bool False then failed_count p + 1 else failed_count p)\<rparr>)"

text \<open>The next section of the owner; \<open>p\<close> is the pool without this section in \<open>todo\<close>.\<close>

fun perform :: "err \<Rightarrow> bool \<Rightarrow> act \<Rightarrow> thrpool \<Rightarrow> thrpool option" where
  "perform err b Set_stop p =
     (let i = length (thrs p)
      in Some (fold (\<lambda>t. modify t (\<lambda>w. w\<lparr>stop_me := True\<rparr>)) (thrs p) p
           \<lparr>todo := (if i > 0 then [Notify_workers (of_nat i)] else []) @ replicate i (Await True) @ todo p, failed_count := 0\<rparr>))"
| "perform err b (Notify_workers n) p = Some (p\<lparr>ev := fst (event_notify n (ev p))\<rparr>)"
| "perform err b (Await counts) p = Some (await_end counts (event_wait (exit_ev p)) p)"
| "perform err b (Awaiting counts) p = Some (await_end counts (event_wait_woken err (exit_ev p)) p)"
| "perform err b Cleanup p = Some (fst (cleanup p))"
| "perform err b Second_pass p =
     Some (if pcount p > 0 \<and> failed_count p > 0
           then p\<lparr>todo := Notify_workers (failed_count p) # replicate (unat (failed_count p)) (Await False) @ todo p\<rparr>
           else p)"
| "perform err b Finish_stop p = Some (p\<lparr>stop_ret := pcount p = 0\<rparr>)"
| "perform err b Clear_exit p = Some (p\<lparr>exit_ev := event_clear_available (exit_ev p), result := Some (Returned (stop_ret p))\<rparr>)"
| "perform err b Lock_pool p =
     Some (p\<lparr>held := True, stop_ret := True, todo := concat (map (\<lambda>t. [Cancel t, Await_end t, Delete t]) (thrs p)) @ todo p\<rparr>)"
| "perform err b (Cancel t) p =
     (let w = worker_at p t in Some (if wstage w = Created \<or> is_exited w then p else modify t (\<lambda>w. w\<lparr>cancelled := True\<rparr>) p))"
| "perform err b (Await_end t) p = Some (if is_exited (worker_at p t) then p else p\<lparr>stop_ret := False\<rparr>)"
| "perform err b (Delete t) p = (if is_exited (worker_at p t) \<or> wstage (worker_at p t) = Created then Some p else None)"
| "perform err b Drop_all p = Some (p\<lparr>thrs := [], held := False, result := Some (Returned (stop_ret p))\<rparr>)"
| "perform err b Init_check p = Some (if pcount p > 0 then p\<lparr>todo := graceful_stop @ [Init_stopped] @ todo p\<rparr> else p)"
| "perform err b Init_stopped p = Some (if stop_ret p then p else p\<lparr>todo := unpolite_stop @ [Init_unpolite] @ todo p\<rparr>)"
| "perform err b Init_unpolite p = Some (if stop_ret p then p else p\<lparr>todo := [], result := Some Stop_error\<rparr>)"
| "perform err b (Init_set mint maxt timeoutt attemptst) p = Some (p\<lparr>pmin := mint, pmax := maxt, ptimeout := timeoutt, pattempts := attemptst\<rparr>)"
| "perform err b Start p =
     (case start_one b p of
        (p, None) \<Rightarrow> Some (p\<lparr>todo := [], result := Some Start_error\<rparr>)
      | (p, Some t) \<Rightarrow> Some (p\<lparr>todo := Started t # todo p\<rparr>))"
| "perform err b (Started t) p = Some (if wstage (worker_at p t) = Created then p\<lparr>todo := [], result := Some Start_error\<rparr> else p)"
| "perform err b Return_true p = Some (p\<lparr>result := Some (Returned True)\<rparr>)"
| "perform err b Delete_stopped p = Some (if stop_ret p then p else p\<lparr>todo := unpolite_stop @ todo p\<rparr>)"

definition owner_step :: "err \<Rightarrow> bool \<Rightarrow> thrpool \<Rightarrow> thrpool option" where
  "owner_step err b p = (case todo p of [] \<Rightarrow> None | a # as \<Rightarrow> perform err b a (p\<lparr>todo := as\<rparr>))"

subsection \<open>Runs\<close>

text \<open>
  The steps: a worker, a worker that a cancellation ends, the owner, calls of the owner's functions, and a notification of the
  event the workers wait for.
\<close>

datatype pool_label = Worker err bool nat | Die nat | Owner err bool | Call_init u32 u32 u32 u32 | Call_graceful | Call_unpolite | Call_delete | Notified u32

fun pool_exec :: "pool_label \<Rightarrow> thrpool \<Rightarrow> thrpool option" where
  "pool_exec (Worker err b t) p =
     (if t < length (workers p) \<and> \<not> (held p \<and> needs_mutex (wstage (worker_at p t))) then work err b t p else None)"
| "pool_exec (Die t) p = (if t < length (workers p) then die t p else None)"
| "pool_exec (Owner err b) p = owner_step err b p"
| "pool_exec (Call_init mint maxt timeoutt attemptst) p = (if todo p = [] then Some (init mint maxt timeoutt attemptst (p\<lparr>result := None\<rparr>)) else None)"
| "pool_exec Call_graceful p = (if todo p = [] then Some (p\<lparr>todo := graceful_stop, result := None\<rparr>) else None)"
| "pool_exec Call_unpolite p = (if todo p = [] then Some (p\<lparr>todo := unpolite_stop, result := None\<rparr>) else None)"
| "pool_exec Call_delete p = (if todo p = [] then Some (p\<lparr>todo := graceful_stop @ [Delete_stopped], result := None\<rparr>) else None)"
| "pool_exec (Notified n) p = Some (p\<lparr>ev := fst (event_notify n (ev p))\<rparr>)"

inductive pool_run :: "thrpool \<Rightarrow> pool_label list \<Rightarrow> thrpool \<Rightarrow> bool" for p0 where
  pool_start: "pool_run p0 [] p0"
| pool_more: "pool_run p0 ls p \<Longrightarrow> pool_exec l p = Some p' \<Longrightarrow> pool_run p0 (ls @ [l]) p'"

subsection \<open>The count of workers\<close>

lemma filter_length_update:
  "i < length xs \<Longrightarrow> length (filter P (xs[i := x])) + (if P (xs ! i) then 1 else 0) = length (filter P xs) + (if P x then 1 else 0)"
proof (induction xs arbitrary: i)
  case (Cons y ys)
  then show ?case by (cases i) auto
qed simp

definition n_counted :: "thrpool \<Rightarrow> nat" where
  "n_counted p = length (filter (\<lambda>w. is_counted (wstage w)) (workers p))"

definition cnt :: "stage \<Rightarrow> u32" where "cnt s = (if is_counted s then 1 else 0)"

text \<open>How a step moves the number of counted workers, and the other members that stay.\<close>

lemma goto_simps [simp]:
  "pcount (goto t s p) = pcount p" "length (workers (goto t s p)) = length (workers p)" "pcount (modify t f p) = pcount p"
  "length (workers (modify t f p)) = length (workers p)" "todo (goto t s p) = todo p" "todo (modify t f p) = todo p"
  by (simp_all add: goto_def modify_def)

lemma n_counted_goto:
  assumes "t < length (workers p)"
  shows "of_nat (n_counted (goto t s p)) = of_nat (n_counted p) + cnt s - cnt (wstage (worker_at p t))"
proof -
  have "n_counted (goto t s p) + (if is_counted (wstage (worker_at p t)) then 1 else 0) = n_counted p + (if is_counted s then 1 else 0)"
    using filter_length_update [OF assms, of "\<lambda>w. is_counted (wstage w)" "worker_at p t\<lparr>wstage := s\<rparr>"]
    by (simp add: n_counted_def goto_def modify_def)
  from arg_cong [OF this, of "of_nat :: nat \<Rightarrow> u32"] show ?thesis by (simp add: cnt_def algebra_simps split: if_splits)
qed

lemma n_counted_modify: "(\<And>w. wstage (f w) = wstage w) \<Longrightarrow> n_counted (modify t f p) = n_counted p"
  using filter_length_update [of t "workers p" "\<lambda>w. is_counted (wstage w)" "f (worker_at p t)"]
  by (cases "t < length (workers p)") (simp_all add: n_counted_def modify_def list_update_beyond split: if_splits)

lemma n_counted_fold: "n_counted (fold (\<lambda>t. modify t (\<lambda>w. w\<lparr>stop_me := True\<rparr>)) ts p) = n_counted p \<and>
    pcount (fold (\<lambda>t. modify t (\<lambda>w. w\<lparr>stop_me := True\<rparr>)) ts p) = pcount p"
  by (induction ts arbitrary: p) (simp_all add: n_counted_modify)

lemma n_counted_workers: "workers p' = workers p \<Longrightarrow> n_counted p' = n_counted p"
  by (simp add: n_counted_def)

lemma cleanup_simps [simp]: "workers (fst (cleanup p)) = workers p" "pcount (fst (cleanup p)) = pcount p"
  by (simp_all add: cleanup_def Let_def)

lemma start_one_cases:
  "start_one b p = (p', r) \<Longrightarrow> p' = p \<and> r = None \<or>
     workers p' = workers p @ [new_worker p] \<and> pcount p' = pcount p \<and> r = Some (length (workers p))"
  by (auto simp: start_one_def split: if_splits)

lemma n_counted_start: "workers p' = workers p @ [new_worker p] \<Longrightarrow> n_counted p' = n_counted p"
  by (simp add: n_counted_def new_worker_def is_counted_def)

definition count_ok :: "thrpool \<Rightarrow> bool" where
  "count_ok p \<longleftrightarrow> pcount p = of_nat (n_counted p)"

lemma count_ok_goto:
  "t < length (workers p) \<Longrightarrow> count_ok (goto t s p) \<longleftrightarrow> pcount p + cnt (wstage (worker_at p t)) = of_nat (n_counted p) + cnt s"
  by (auto simp: count_ok_def n_counted_goto algebra_simps)

lemma count_ok_goto_same:
  "t < length (workers p) \<Longrightarrow> is_counted s = is_counted (wstage (worker_at p t)) \<Longrightarrow> count_ok (goto t s p) \<longleftrightarrow> count_ok p"
  by (simp add: count_ok_goto cnt_def) (simp add: count_ok_def)

lemma count_ok_members: "workers p' = workers p \<Longrightarrow> pcount p' = pcount p \<Longrightarrow> count_ok p' \<longleftrightarrow> count_ok p"
  by (simp add: count_ok_def n_counted_def)

lemma worker_members: "wstage (worker_at (modify t (\<lambda>w. w\<lparr>n_attempts := n\<rparr>) p) t) = wstage (worker_at p t)"
  by (cases "t < length (workers p)") (simp_all add: modify_def list_update_beyond)

lemma count_ok_move:
  "workers p1 = workers p \<Longrightarrow> pcount p1 = pcount p \<Longrightarrow> t < length (workers p) \<Longrightarrow> is_counted s = is_counted (wstage (worker_at p t)) \<Longrightarrow>
     count_ok p \<Longrightarrow> count_ok (goto t s p1)"
  using count_ok_goto_same [of t p1 s] count_ok_members [of p1 p] by simp

lemma work_moves:
  assumes "work err b t p = Some p'" and "wstage (worker_at p t) \<notin> {Begin, Leave, Help_start, Woke True, Woke False}"
  obtains s p1 where "p' = goto t s p1" "workers p1 = workers p" "pcount p1 = pcount p" "is_counted s = is_counted (wstage (worker_at p t))"
proof (cases "wstage (worker_at p t)")
  case Waits
  then show thesis using assms that by (auto simp: work_def waited_def is_counted_def split: prod.splits outcome.splits)
next
  case Waiting
  then show thesis using assms that by (auto simp: work_def waited_def is_counted_def split: prod.splits outcome.splits)
next
  case Help_cleanup
  show thesis
    by (rule that [of "if snd (cleanup p) < unat (wmax (worker_at p t)) then Help_start else Call" "fst (cleanup p)"])
      (use assms(1) Help_cleanup in \<open>auto simp: work_def is_counted_def split: prod.splits\<close>)
next
  case Loop
  then show thesis using assms(1) that [of "if stop_me (worker_at p t) then Leave else Waits" p] by (simp add: work_def is_counted_def)
next
  case Check
  then show thesis using assms(1) that [of "if pcount p > wmin (worker_at p t) then Leave else Clean" p] by (simp add: work_def is_counted_def)
next
  case Help
  then show thesis using assms(1) that [of "if event_available_count (ev p) > 2 then Help_count else Call" p] by (simp add: work_def is_counted_def)
next
  case Help_count
  then show thesis using assms(1) that [of "if pcount p < wmax (worker_at p t) then Help_cleanup else Call" p] by (simp add: work_def is_counted_def)
next
  case Call
  then show thesis using assms(1) that [of Clean "p\<lparr>handled := handled p + 1\<rparr>"] by (simp add: work_def is_counted_def)
next
  case Clean
  then show thesis using assms(1) that [of Loop "fst (cleanup p)"] by (simp add: work_def is_counted_def)
next
  case Leaving
  then show thesis using assms(1) that [of Left "notify_exit p"] by (simp add: work_def is_counted_def notify_exit_def)
next
  case Entered
  then show thesis using assms(1) that [of Loop "p\<lparr>start_ev := fst (event_notify 1 (start_ev p))\<rparr>"] by (simp add: work_def is_counted_def)
next
  case Created
  then show thesis using assms(1) that [of Begin p] by (simp add: work_def is_counted_def)
next
  case Left
  then show thesis using assms(1) that [of Ended p] by (simp add: work_def is_counted_def)
next
  case (Help_wait c)
  then show thesis using assms(1) that [of Call p] by (simp add: work_def is_counted_def)
qed (use assms in \<open>auto simp: work_def\<close>)

lemma count_ok_work:
  assumes "work err b t p = Some p'" and "t < length (workers p)" and "count_ok p"
  shows "count_ok p'"
proof (cases "wstage (worker_at p t) \<in> {Begin, Leave, Help_start, Woke True, Woke False}")
  case False
  then show ?thesis using work_moves [OF assms(1)] count_ok_move assms(2,3) by metis
next
  case True
  have m: "count_ok (modify t (\<lambda>w. w\<lparr>n_attempts := n\<rparr>) p)" for n
    using assms(3) by (simp add: count_ok_def n_counted_modify)
  have e: "pcount p = of_nat (n_counted p)" using assms(3) by (simp add: count_ok_def)
  have c: "n_counted (p\<lparr>pcount := n\<rparr>) = n_counted p" for n by (simp add: n_counted_def)
  from True show ?thesis
  proof (elim insertE emptyE)
    assume s: "wstage (worker_at p t) = Begin"
    then show ?thesis using assms(1,2) e c by (auto simp: work_def count_ok_goto cnt_def is_counted_def)
  next
    assume s: "wstage (worker_at p t) = Leave"
    then show ?thesis using assms(1,2) e c by (auto simp: work_def count_ok_goto cnt_def is_counted_def)
  next
    assume s: "wstage (worker_at p t) = Help_start"
    obtain p1 r where p1: "start_one b p = (p1, r)" by (cases "start_one b p")
    from start_one_cases [OF this] have w: "count_ok p1" "t < length (workers p1)" "wstage (worker_at p1 t) = Help_start"
      using assms(2,3) n_counted_start s by (auto simp: count_ok_def nth_append)
    then show ?thesis using assms(1) s p1
      by (cases r) (simp_all add: work_def, (auto simp: count_ok_goto_same is_counted_def)+)
  next
    assume s: "wstage (worker_at p t) = Woke True"
    show ?thesis
    proof (cases "stop_me (worker_at p t)")
      case True
      then have "p' = goto t Leave p" using assms(1) s by (simp add: work_def)
      then show ?thesis using assms(2,3) s by (simp add: count_ok_goto_same is_counted_def)
    next
      case False
      then have "p' = goto t Help (modify t (\<lambda>w. w\<lparr>n_attempts := 0\<rparr>) p)" using assms(1) s by (simp add: work_def)
      then show ?thesis using assms(2) s m by (simp add: count_ok_goto_same is_counted_def worker_members)
    qed
  next
    assume s: "wstage (worker_at p t) = Woke False"
    then have "p' = goto t (if n_attempts (worker_at p t) + 1 > wattempts (worker_at p t) then Check else Clean)
        (modify t (\<lambda>w. w\<lparr>n_attempts := n_attempts (worker_at p t) + 1\<rparr>) p)"
      using assms(1) by (simp add: work_def Let_def)
    then show ?thesis using assms(2) s m by (simp add: count_ok_goto_same is_counted_def worker_members)
  qed
qed

lemma await_end_members [simp]: "workers (await_end c r p) = workers p" "pcount (await_end c r p) = pcount p"
  by (auto simp: await_end_def split: prod.splits outcome.splits)

lemma perform_members:
  assumes "perform err b a p = Some p'" and "a \<noteq> Set_stop" and "a \<noteq> Start" and "\<forall>t. a \<noteq> Cancel t"
  shows "workers p' = workers p \<and> pcount p' = pcount p"
proof (cases a)
  case (Cancel t)
  then show ?thesis using assms(4) by blast
qed (use assms(1-3) in \<open>auto split: if_splits\<close>)

lemma count_ok_perform:
  assumes "perform err b a p = Some p'" and "count_ok p"
  shows "count_ok p'"
proof (cases a)
  case Set_stop
  let ?f = "fold (\<lambda>t. modify t (\<lambda>w. w\<lparr>stop_me := True\<rparr>)) (thrs p) p"
  have f: "count_ok ?f" using n_counted_fold [of "thrs p" p] assms(2) by (simp add: count_ok_def)
  have "workers p' = workers ?f" "pcount p' = pcount ?f" using assms(1) Set_stop by (auto simp: Let_def)
  from count_ok_members [OF this] f show ?thesis by simp
next
  case (Cancel t)
  then have "p' = p \<or> p' = modify t (\<lambda>w. w\<lparr>cancelled := True\<rparr>) p" using assms(1) by (auto simp: Let_def split: if_splits)
  then show ?thesis using assms(2) by (auto simp: count_ok_def n_counted_modify)
next
  case Start
  obtain p1 r where p1: "start_one b p = (p1, r)" by (cases "start_one b p")
  from start_one_cases [OF this] have o: "count_ok p1" using assms(2) n_counted_start by (auto simp: count_ok_def)
  have "workers p' = workers p1" "pcount p' = pcount p1" using assms(1) Start p1 by (auto split: option.splits)
  from count_ok_members [OF this] o show ?thesis by simp
qed (use perform_members [OF assms(1)] count_ok_members [of p' p] assms(2) in simp_all)

lemma count_ok_exec:
  assumes "pool_exec l p = Some p'" and "count_ok p"
  shows "count_ok p'"
proof (cases l)
  case (Worker err b t)
  then show ?thesis using assms count_ok_work by (auto split: if_splits)
next
  case (Die t)
  then show ?thesis using assms by (auto simp: die_def cancel_point_def Let_def count_ok_goto_same is_counted_def split: if_splits)
next
  case (Owner err b)
  then obtain a as where a: "todo p = a # as" "perform err b a (p\<lparr>todo := as\<rparr>) = Some p'"
    using assms(1) by (auto simp: owner_step_def split: list.splits)
  have "count_ok (p\<lparr>todo := as\<rparr>)" using assms(2) by (simp add: count_ok_def n_counted_def)
  then show ?thesis using count_ok_perform a(2) by blast
qed (use assms in \<open>auto simp: init_def count_ok_def n_counted_def split: if_splits\<close>)

subsection \<open>Stopping\<close>

text \<open>How far a worker whose stop flag is set still is from its end.\<close>

definition leave_rank :: "stage \<Rightarrow> nat" where
  "leave_rank s = (case s of Ended \<Rightarrow> 0 | Killed _ \<Rightarrow> 0 | Left \<Rightarrow> 1 | Leaving \<Rightarrow> 2 | Leave \<Rightarrow> 3 | Loop \<Rightarrow> 4 | Woke r \<Rightarrow> if r then 4 else 7
     | Entered \<Rightarrow> 5 | Clean \<Rightarrow> 5 | Begin \<Rightarrow> 6 | Check \<Rightarrow> 6 | Call \<Rightarrow> 6 | Created \<Rightarrow> 7 | Help_wait _ \<Rightarrow> 7 | Help_start \<Rightarrow> 8 | Waiting \<Rightarrow> 8
     | Waits \<Rightarrow> 9 | Help_cleanup \<Rightarrow> 9 | Help_count \<Rightarrow> 10 | Help \<Rightarrow> 11)"

text \<open>The steps of worker \<open>t\<close>, without the return of a wait function that is neither a timeout nor an error.\<close>

fun own_step :: "nat \<Rightarrow> pool_label \<Rightarrow> bool" where
  "own_step t (Worker err b u) \<longleftrightarrow> u = t \<and> err \<noteq> Success"
| "own_step t _ \<longleftrightarrow> False"

lemma leave_rank_le: "leave_rank s \<le> 11"
  by (simp add: leave_rank_def split: stage.split)

lemma worker_goto: "t < length (workers p) \<Longrightarrow> worker_at (goto u s p) t = (if u = t then worker_at p t\<lparr>wstage := s\<rparr> else worker_at p t)"
  by (simp add: goto_def modify_def)

lemma worker_modify: "t < length (workers p) \<Longrightarrow> worker_at (modify u f p) t = (if u = t then f (worker_at p t) else worker_at p t)"
  by (simp add: modify_def)

lemma start_one_worker:
  assumes "start_one b p = (p', r)" and "t < length (workers p)"
  shows "t < length (workers p') \<and> worker_at p' t = worker_at p t"
  using start_one_cases [OF assms(1)] assms(2) by (auto simp: nth_append)

lemma work_other:
  assumes "work err b u p = Some p'" and "t < length (workers p)" and "u \<noteq> t"
  shows "t < length (workers p') \<and> worker_at p' t = worker_at p t"
proof (cases "wstage (worker_at p u) \<in> {Begin, Leave, Help_start, Woke True, Woke False}")
  case False
  then obtain s p1 where "p' = goto u s p1" "workers p1 = workers p" by (rule work_moves [OF assms(1)])
  then show ?thesis using assms(2,3) by (simp add: worker_goto)
next
  case True
  then show ?thesis
  proof (elim insertE emptyE)
    assume s: "wstage (worker_at p u) = Help_start"
    obtain p1 r where p1: "start_one b p = (p1, r)" by (cases "start_one b p")
    then have "t < length (workers p1)" "worker_at p1 t = worker_at p t" using start_one_worker assms(2) by blast+
    moreover obtain s where "p' = goto u s p1" using assms(1) s p1 by (auto simp: work_def split: option.splits)
    ultimately show ?thesis using assms(3) by (simp add: worker_goto)
  qed (use assms in \<open>auto simp: work_def Let_def worker_goto worker_modify split: if_splits\<close>)
qed

lemma work_own:
  assumes "work err b t p = Some p'" and "t < length (workers p)" and "stop_me (worker_at p t)"
  shows "t < length (workers p') \<and> stop_me (worker_at p' t) \<and>
    leave_rank (wstage (worker_at p' t)) + (if err \<noteq> Success then 1 else 0) \<le> leave_rank (wstage (worker_at p t))"
proof (cases "wstage (worker_at p t)")
  case Help_start
  obtain p1 r where p1: "start_one b p = (p1, r)" by (cases "start_one b p")
  then have "t < length (workers p1)" "worker_at p1 t = worker_at p t" using start_one_worker assms(2) by blast+
  moreover obtain s where "p' = goto t s p1" "leave_rank s \<le> 7" using assms(1) Help_start p1 by (auto simp: work_def leave_rank_def split: option.splits)
  ultimately show ?thesis using assms(3) Help_start by (simp add: worker_goto leave_rank_def)
next
  case (Woke r)
  then show ?thesis using assms by (cases r) (auto simp: work_def Let_def worker_goto worker_modify leave_rank_def)
next
  case Waits
  then obtain s e where "p' = goto t s (p\<lparr>ev := e\<rparr>)" "leave_rank s \<le> 8"
    using assms(1) by (auto simp: work_def waited_def leave_rank_def split: prod.splits outcome.splits)
  then show ?thesis using assms(2,3) Waits by (simp add: worker_goto leave_rank_def)
next
  case Waiting
  obtain e w out where r: "event_wait_woken err (ev p) = (e, w, out)" by (cases "event_wait_woken err (ev p)")
  have "err = Success" if "out = Block"
    using r that by (cases err) (auto simp: event_wait_woken_def event_wait_end_def Let_def)
  moreover have "p' = waited t (e, w, out) p" using assms(1) Waiting r by (simp add: work_def)
  ultimately obtain s where "p' = goto t s (p\<lparr>ev := e\<rparr>)" "leave_rank s + (if err \<noteq> Success then 1 else 0) \<le> 8"
    by (cases out) (auto simp: waited_def leave_rank_def)
  then show ?thesis using assms(2,3) Waiting by (simp add: worker_goto leave_rank_def)
next
  case Help_cleanup
  obtain p1 n where "cleanup p = (p1, n)" by (cases "cleanup p")
  moreover from this have "workers p1 = workers p" using cleanup_simps(1) [of p] by simp
  ultimately show ?thesis using assms Help_cleanup by (auto simp: work_def worker_goto leave_rank_def)
qed (use assms in \<open>auto simp: work_def worker_goto leave_rank_def notify_exit_def\<close>)

lemma fold_stop: "t < length (workers p) \<Longrightarrow>
  length (workers (fold (\<lambda>t. modify t (\<lambda>w. w\<lparr>stop_me := True\<rparr>)) ts p)) = length (workers p) \<and>
  worker_at (fold (\<lambda>t. modify t (\<lambda>w. w\<lparr>stop_me := True\<rparr>)) ts p) t = (if t \<in> set ts then worker_at p t\<lparr>stop_me := True\<rparr> else worker_at p t)"
  by (induction ts arbitrary: p) (auto simp: worker_modify)

lemma fold_stop_members:
  "exit_ev (fold (\<lambda>t. modify t (\<lambda>w. w\<lparr>stop_me := True\<rparr>)) ts p) = exit_ev p \<and> thrs (fold (\<lambda>t. modify t (\<lambda>w. w\<lparr>stop_me := True\<rparr>)) ts p) = thrs p \<and>
   pcount (fold (\<lambda>t. modify t (\<lambda>w. w\<lparr>stop_me := True\<rparr>)) ts p) = pcount p \<and>
   length (workers (fold (\<lambda>t. modify t (\<lambda>w. w\<lparr>stop_me := True\<rparr>)) ts p)) = length (workers p)"
  by (induction ts arbitrary: p) (simp_all add: modify_def)

lemma perform_worker:
  assumes "perform err b a p = Some p'" and "t < length (workers p)"
  shows "t < length (workers p') \<and> wstage (worker_at p' t) = wstage (worker_at p t) \<and> (stop_me (worker_at p t) \<longrightarrow> stop_me (worker_at p' t))"
proof (cases a)
  case Set_stop
  then have "workers p' = workers (fold (\<lambda>t. modify t (\<lambda>w. w\<lparr>stop_me := True\<rparr>)) (thrs p) p)"
    using assms(1) by (auto simp: Let_def)
  then show ?thesis using fold_stop [OF assms(2), of "thrs p"] assms(2) by simp
next
  case (Cancel u)
  then have "p' = p \<or> p' = modify u (\<lambda>w. w\<lparr>cancelled := True\<rparr>) p" using assms(1) by (auto simp: Let_def split: if_splits)
  then show ?thesis using assms(2) by (auto simp: worker_modify)
next
  case Start
  obtain p1 r where p1: "start_one b p = (p1, r)" by (cases "start_one b p")
  have "workers p' = workers p1" using assms(1) Start p1 by (auto split: option.splits)
  then show ?thesis using start_one_worker [OF p1 assms(2)] by simp
qed (use perform_members [OF assms(1)] assms(2) in simp_all)

lemma exec_flagged:
  assumes "pool_exec l p = Some p'" and "t < length (workers p)" and "stop_me (worker_at p t)"
  shows "t < length (workers p') \<and> stop_me (worker_at p' t) \<and>
    leave_rank (wstage (worker_at p' t)) + (if own_step t l then 1 else 0) \<le> leave_rank (wstage (worker_at p t))"
proof (cases l)
  case (Worker err b u)
  then have w: "work err b u p = Some p'" using assms(1) by (auto split: if_splits)
  show ?thesis
  proof (cases "u = t")
    case True
    then show ?thesis using work_own [of err b t p p'] w assms(2,3) Worker by auto
  next
    case False
    then show ?thesis using work_other [OF w assms(2)] assms(3) Worker by auto
  qed
next
  case (Die u)
  then show ?thesis using assms by (auto simp: die_def cancel_point_def Let_def worker_goto leave_rank_def split: if_splits)
next
  case (Owner err b)
  then obtain a as where "perform err b a (p\<lparr>todo := as\<rparr>) = Some p'"
    using assms(1) by (auto simp: owner_step_def split: list.splits)
  then show ?thesis using perform_worker [of err b a "p\<lparr>todo := as\<rparr>" p' t] assms(2,3) Owner by simp
qed (use assms in \<open>auto simp: init_def split: if_splits\<close>)

subsection \<open>Schedules\<close>

fun exec_all :: "pool_label list \<Rightarrow> thrpool \<Rightarrow> thrpool option" where
  "exec_all [] p = Some p"
| "exec_all (l # ls) p = (case pool_exec l p of None \<Rightarrow> None | Some p \<Rightarrow> exec_all ls p)"

lemma exec_all_run: "pool_run p0 ls0 p \<Longrightarrow> exec_all ls p = Some q \<Longrightarrow> pool_run p0 (ls0 @ ls) q"
proof (induction ls arbitrary: ls0 p)
  case (Cons l ls)
  then obtain p1 where "pool_exec l p = Some p1" "exec_all ls p1 = Some q" by (auto split: option.splits)
  then show ?case using Cons.IH [of "ls0 @ [l]" p1] pool_more [OF Cons.prems(1)] by simp
qed simp

lemma exec_all_start: "exec_all ls p = Some q \<Longrightarrow> pool_run p ls q"
  using exec_all_run [OF pool_start] by simp

lemma exec_all_append: "exec_all (xs @ ys) p = (case exec_all xs p of None \<Rightarrow> None | Some q \<Rightarrow> exec_all ys q)"
  by (induction xs arbitrary: p) (auto split: option.splits)

lemma map_option_SomeE: "map_option f x = Some y \<Longrightarrow> (\<And>p. x = Some p \<Longrightarrow> f p = y \<Longrightarrow> P) \<Longrightarrow> P"
  by auto

abbreviation go :: "nat \<Rightarrow> pool_label" where "go t \<equiv> Worker Success True t"
abbreviation owns :: pool_label where "owns \<equiv> Owner Success True"

text \<open>
  \<^verbatim>\<open>init(1,2,1000,1)\<close>; four messages arrive; the worker starts a second one to help; all messages are handled, both
  wait in vain twice, and both are about to compare \<^verbatim>\<open>count()\<close> with the minimum.
\<close>

definition busy_then_idle :: "pool_label list" where
  "busy_then_idle =
     [Call_init 1 2 1000 1, owns, owns, owns, go 0, owns, owns] @ replicate 3 (go 0) @ [Notified 4] @ replicate 6 (go 0) @ [go 1, go 0, go 0] @
     replicate 5 (go 0) @ [go 0] @ replicate 6 (go 0) @ replicate 6 (go 0) @ replicate 3 (go 0) @ replicate 4 (go 1) @
     concat (map (\<lambda>t. [Worker Timedout True t, go t, go t, go t, go t, Worker Timedout True t, go t]) [0, 1])"

lemma pool_run_append: "pool_run q ls' r \<Longrightarrow> pool_run p ls q \<Longrightarrow> pool_run p (ls @ ls') r"
proof (induction rule: pool_run.induct)
  case (pool_more ls' x l y)
  then show ?case using pool_run.pool_more [of p "ls @ ls'" x l y] by simp
qed simp

lemma pool_run_cons: "pool_exec l p = Some q \<Longrightarrow> pool_run q ls r \<Longrightarrow> pool_run p (l # ls) r"
  using pool_run_append [of q ls r p "[l]"] exec_all_run [OF pool_start, of "[l]" p q] by simp

text \<open>Workers that are about to compare \<^verbatim>\<open>count()\<close> with the minimum, and then to leave.\<close>

lemma goto_set: "w \<in> set (workers (goto t s p)) \<Longrightarrow> t < length (workers p) \<Longrightarrow> w = (worker_at p t)\<lparr>wstage := s\<rparr> \<or> w \<in> set (workers p)"
  by (auto simp: goto_def modify_def dest: set_update_subset_insert [THEN subsetD])

lemma goto_number:
  "t < length (workers p) \<Longrightarrow> wstage (worker_at p t) = a \<Longrightarrow> s \<noteq> a \<Longrightarrow>
     length (filter (\<lambda>w. wstage w = a) (workers p)) = Suc (length (filter (\<lambda>w. wstage w = a) (workers (goto t s p))))"
  using filter_length_update [of t "workers p" "\<lambda>w. wstage w = a" "(worker_at p t)\<lparr>wstage := s\<rparr>"]
  by (simp add: goto_def modify_def)

lemma held_goto [simp]: "held (goto t s p) = held p" by (simp add: goto_def modify_def)

lemma all_check:
  assumes "\<not> held p" and "todo p = []" and "\<forall>w \<in> set (workers p). is_exited w \<or> wstage w = Leave \<or> wstage w = Check \<and> wmin w < pcount p"
  shows "\<exists>ls q. pool_run p ls q \<and> (\<forall>l \<in> set ls. \<exists>t. l = go t) \<and> \<not> held q \<and> todo q = [] \<and> (\<forall>w \<in> set (workers q). is_exited w \<or> wstage w = Leave)"
  using assms
proof (induction "length (filter (\<lambda>w. wstage w = Check) (workers p))" arbitrary: p)
  case 0
  then have "\<forall>w \<in> set (workers p). wstage w \<noteq> Check" by (simp add: filter_empty_conv)
  then show ?case using 0 pool_start [of p] by (intro exI [of _ "[]"] exI [of _ p]) auto
next
  case (Suc n)
  then have "filter (\<lambda>w. wstage w = Check) (workers p) \<noteq> []" by auto
  then obtain t where t: "t < length (workers p)" "wstage (worker_at p t) = Check" by (auto simp: filter_empty_conv in_set_conv_nth)
  have "wmin (worker_at p t) < pcount p" using Suc.prems(3) t nth_mem by (force simp: is_exited_def)
  then have e: "pool_exec (go t) p = Some (goto t Leave p)" using t Suc.prems(1) by (simp add: work_def)
  have m: "n = length (filter (\<lambda>w. wstage w = Check) (workers (goto t Leave p)))"
    using goto_number [OF t, of Leave] Suc.hyps(2) by simp
  have "\<exists>ls q. pool_run (goto t Leave p) ls q \<and> (\<forall>l \<in> set ls. \<exists>t. l = go t) \<and> \<not> held q \<and> todo q = [] \<and> (\<forall>w \<in> set (workers q). is_exited w \<or> wstage w = Leave)"
    by (rule Suc.hyps(1) [OF m]) (use Suc.prems goto_set [OF _ t(1)] in \<open>fastforce+\<close>)
  then obtain ls q where q: "pool_run (goto t Leave p) ls q" "\<forall>l \<in> set ls. \<exists>t. l = go t" "\<not> held q" "todo q = []"
      "\<forall>w \<in> set (workers q). is_exited w \<or> wstage w = Leave" by blast
  have "pool_run p (go t # ls) q" by (rule pool_run_cons [OF e q(1)])
  then show ?case using q(2-5) by (intro exI [of _ "go t # ls"] exI [of _ q]) simp
qed

lemma all_leave:
  assumes "\<not> held p" and "todo p = []" and "\<forall>w \<in> set (workers p). is_exited w \<or> wstage w = Leave"
  shows "\<exists>ls q. pool_run p ls q \<and> (\<forall>l \<in> set ls. \<exists>t. l = go t) \<and> todo q = [] \<and> (\<forall>w \<in> set (workers q). is_exited w)"
  using assms
proof (induction "length (filter (\<lambda>w. wstage w = Leave) (workers p))" arbitrary: p)
  case 0
  then have "\<forall>w \<in> set (workers p). wstage w \<noteq> Leave" by (simp add: filter_empty_conv)
  then show ?case using 0 pool_start [of p] by (intro exI [of _ "[]"] exI [of _ p]) auto
next
  case (Suc n)
  then have "filter (\<lambda>w. wstage w = Leave) (workers p) \<noteq> []" by auto
  then obtain t where t: "t < length (workers p)" "wstage (worker_at p t) = Leave" by (auto simp: filter_empty_conv in_set_conv_nth)
  let ?p1 = "goto t Leaving (p\<lparr>pcount := pcount p - 1\<rparr>)" and ?w = "(worker_at p t)\<lparr>wstage := Ended\<rparr>"
  define p3 where "p3 = goto t Ended (goto t Left (notify_exit ?p1))"
  have w: "workers p3 = workers (goto t Ended p)" "held p3 = held p" "todo p3 = todo p"
    using t(1) by (simp_all add: p3_def goto_def modify_def notify_exit_def)
  have e: "exec_all [go t, go t, go t] p = Some p3"
    using t Suc.prems(1) by (simp add: work_def worker_goto needs_mutex_def notify_exit_def p3_def)
  have m: "n = length (filter (\<lambda>w. wstage w = Leave) (workers p3))"
    using goto_number [OF t, of Ended] Suc.hyps(2) w(1) by simp
  have "is_exited ?w" by (simp add: is_exited_def)
  then have x: "\<forall>w \<in> set (workers p3). is_exited w \<or> wstage w = Leave"
    using Suc.prems(3) goto_set [OF _ t(1), of _ Ended] w(1) by metis
  obtain ls q where q: "pool_run p3 ls q" "\<forall>l \<in> set ls. \<exists>t. l = go t" "todo q = []" "\<forall>w \<in> set (workers q). is_exited w"
    using Suc.hyps(1) [OF m _ _ x] Suc.prems(1,2) w by auto
  have "pool_run p [go t, go t, go t] p3" using exec_all_run [OF pool_start e] by simp
  from pool_run_append [OF q(1) this] have "pool_run p ([go t, go t, go t] @ ls) q" .
  then show ?case using q(2-4) by (intro exI [of _ "[go t, go t, go t] @ ls"] exI [of _ q]) simp
qed

text \<open>A pool without a living worker handles nothing unless one of its functions is called.\<close>

fun is_call :: "pool_label \<Rightarrow> bool" where
  "is_call (Call_init _ _ _ _) \<longleftrightarrow> True"
| "is_call Call_graceful \<longleftrightarrow> True"
| "is_call Call_unpolite \<longleftrightarrow> True"
| "is_call Call_delete \<longleftrightarrow> True"
| "is_call _ \<longleftrightarrow> False"

lemma work_exited: "is_exited (worker_at p t) \<Longrightarrow> work err b t p = None"
  by (auto simp: work_def is_exited_def split: stage.splits)

lemma dead_die: "is_exited (worker_at p t) \<Longrightarrow> die t p = None"
  by (auto simp: die_def cancel_point_def is_exited_def Let_def split: stage.splits)

lemma dead_pool:
  assumes "pool_run p ls q" and "\<forall>l \<in> set ls. \<not> is_call l" and "todo p = []" and "\<forall>w \<in> set (workers p). is_exited w"
  shows "handled q = handled p \<and> todo q = [] \<and> workers q = workers p"
  using assms
proof (induction rule: pool_run.induct)
  case (pool_more ls x l y)
  then have x: "handled x = handled p" "todo x = []" "\<forall>w \<in> set (workers x). is_exited w" "workers x = workers p" by simp_all
  have "\<not> is_call l" using pool_more.prems(1) by simp
  then show ?case using pool_more.hyps(2) x
    by (cases l) (auto simp: work_exited dead_die owner_step_def Let_def split: if_splits)
qed simp

subsection \<open>A stop that does not wait\<close>

lemma event_taken:
  "\<not> invalid e \<Longrightarrow> available e \<noteq> 0 \<Longrightarrow> event_wait e = (e\<lparr>available := available e - 1\<rparr>, Nobody, Return (Bool True))"
  by (simp add: event_wait_def event_wait_loop_def event_wait_end_def Let_def)

lemma awaits:
  assumes "todo p = replicate k (Await True) @ as" and "\<not> invalid (exit_ev p)" and "k \<le> unat (available (exit_ev p))"
  shows "exec_all (replicate k owns) p = Some (p\<lparr>todo := as, exit_ev := (exit_ev p)\<lparr>available := available (exit_ev p) - of_nat k\<rparr>\<rparr>)"
  using assms
proof (induction k arbitrary: p)
  case (Suc k)
  let ?e = "exit_ev p"
  have a: "available ?e \<noteq> 0" using Suc.prems(3) by auto
  let ?p = "p\<lparr>todo := replicate k (Await True) @ as, exit_ev := ?e\<lparr>available := available ?e - 1\<rparr>\<rparr>"
  have "pool_exec owns p = Some ?p"
    using Suc.prems(1,2) a by (simp add: owner_step_def await_end_def event_taken)
  moreover have "unat (available ?e - 1) = unat (available ?e) - 1" using a by (simp add: unat_minus_one)
  then have "exec_all (replicate k owns) ?p = Some (?p\<lparr>todo := as, exit_ev := (exit_ev ?p)\<lparr>available := available (exit_ev ?p) - of_nat k\<rparr>\<rparr>)"
    by (intro Suc.IH) (use Suc.prems in simp_all)
  ultimately show ?case by (simp add: algebra_simps)
qed simp

subsection \<open>Properties\<close>

text \<open>
  C16: \<^verbatim>\<open>count_\<close> counts right. In any interleaving of workers, owner, cancellations and notifications it is the number of
  workers that are between \<^verbatim>\<open>on_entry\<close> and \<^verbatim>\<open>on_exit\<close>, together with those that were cancelled there:
  \<^verbatim>\<open>unpolite_stop\<close> does not take the threads it ends out of the count.
\<close>

theorem pool_count:
  assumes "pool_run thrpool_new ls p"
  shows "pcount p = of_nat (length (filter (\<lambda>w. is_counted (wstage w)) (workers p)))"
proof -
  have "count_ok p"
    using assms
  proof (induction rule: pool_run.induct)
    case pool_start
    show ?case by (simp add: count_ok_def n_counted_def thrpool_new_def)
  next
    case (pool_more ls p l p')
    then show ?case using count_ok_exec by blast
  qed
  then show ?thesis by (simp add: count_ok_def n_counted_def)
qed

theorem pool_count_witness:
  "\<exists>p. exec_all (busy_then_idle @ [Call_unpolite, owns, owns, Die 0, owns, owns, owns, Die 1, owns, owns, owns]) thrpool_new = Some p \<and>
     map wstage (workers p) = [Killed True, Killed True] \<and> thrs p = [] \<and> pcount p = of_nat (length (filter (\<lambda>w. is_counted (wstage w)) (workers p)))"
proof -
  let ?ls = "busy_then_idle @ [Call_unpolite, owns, owns, Die 0, owns, owns, owns, Die 1, owns, owns, owns]"
  have "map_option (\<lambda>p. (map wstage (workers p), thrs p)) (exec_all ?ls thrpool_new) = Some ([Killed True, Killed True], [])" by code_simp
  then obtain p where p: "exec_all ?ls thrpool_new = Some p" "(map wstage (workers p), thrs p) = ([Killed True, Killed True], [])"
    by (rule map_option_SomeE)
  have "pcount p = of_nat (length (filter (\<lambda>w. is_counted (wstage w)) (workers p)))" by (rule pool_count [OF exec_all_start [OF p(1)]])
  with p(1) p(2) [unfolded prod.inject] show ?thesis by (intro exI [of _ p] conjI) simp_all
qed

text \<open>
  C15: a worker whose stop flag is set leaves. The flag stays set, and after at most eleven of its sections, not counting
  wake-ups that are neither a timeout nor an error, the worker has ended, whatever the other threads do
  meanwhile; until then it can always go on, except while \<^verbatim>\<open>unpolite_stop\<close> holds the mutex.
\<close>

theorem pool_stop_obeyed:
  assumes "pool_run p ls q" and "t < length (workers p)" and "stop_me (worker_at p t)"
  shows "stop_me (worker_at q t) \<and> length (filter (own_step t) ls) + leave_rank (wstage (worker_at q t)) \<le> 11 \<and>
    (is_exited (worker_at q t) \<or> held q \<or> pool_exec (Worker err b t) q \<noteq> None)"
proof -
  have s: "t < length (workers q) \<and> stop_me (worker_at q t) \<and> length (filter (own_step t) ls) + leave_rank (wstage (worker_at q t)) \<le> 11"
    using assms
  proof (induction rule: pool_run.induct)
    case pool_start
    then show ?case using leave_rank_le by simp
  next
    case (pool_more ls x l y)
    then show ?case using exec_flagged [of l x y t] by auto
  qed
  have "work err b t q \<noteq> None" if "\<not> is_exited (worker_at q t)"
    using that by (auto simp: work_def is_exited_def Let_def split: stage.splits bool.splits prod.splits option.splits)
  then show ?thesis using s by auto
qed

theorem pool_stop_obeyed_witness:
  "\<exists>q. exec_all [Call_graceful, owns, owns] (the (exec_all busy_then_idle thrpool_new)) = Some q \<and> stop_me (worker_at q 0) \<and>
     (\<forall>ls r. pool_run q ls r \<longrightarrow> length (filter (own_step 0) ls) \<le> 11)"
proof -
  have "map_option (\<lambda>q. (length (workers q), stop_me (worker_at q 0))) (exec_all [Call_graceful, owns, owns] (the (exec_all busy_then_idle thrpool_new))) = Some (2, True)"
    by code_simp
  then obtain q where e: "exec_all [Call_graceful, owns, owns] (the (exec_all busy_then_idle thrpool_new)) = Some q" "(length (workers q), stop_me (worker_at q 0)) = (2, True)"
    by (rule map_option_SomeE)
  then have q: "0 < length (workers q)" "stop_me (worker_at q 0)" by simp_all
  have "length (filter (own_step 0) ls) \<le> 11" if "pool_run q ls r" for ls r
    using pool_stop_obeyed [OF that q, THEN conjunct2, THEN conjunct1] by (rule add_leD1)
  then show ?thesis using e(1) q(2) by blast
qed

text \<open>
  C14: the pool can lose all its workers, whatever minimum it has. Workers that find \<^verbatim>\<open>count()\<close> above
  the minimum leave the loop, but count themselves out later, in \<^verbatim>\<open>on_exit\<close>: all those that compare before the
  first one has counted itself out leave together. When these are all workers, nothing that arrives is
  handled any more, unless the pool is initialised again.
\<close>

theorem pool_loses_all_workers:
  assumes "\<not> held p" and "todo p = []" and "\<forall>w \<in> set (workers p). is_exited w \<or> wstage w = Check \<and> wmin w < pcount p"
  shows "\<exists>ls q. pool_run p ls q \<and> (\<forall>l \<in> set ls. \<exists>t. l = go t) \<and> (\<forall>w \<in> set (workers q). is_exited w) \<and>
    (\<forall>ls' r. pool_run q ls' r \<and> (\<forall>l \<in> set ls'. \<not> is_call l) \<longrightarrow> handled r = handled q)"
proof -
  have c: "\<forall>w \<in> set (workers p). is_exited w \<or> wstage w = Leave \<or> wstage w = Check \<and> wmin w < pcount p" using assms(3) by blast
  obtain ls q where q: "pool_run p ls q" "\<forall>l \<in> set ls. \<exists>t. l = go t" "\<not> held q" "todo q = []" "\<forall>w \<in> set (workers q). is_exited w \<or> wstage w = Leave"
    using all_check [OF assms(1,2) c] by blast
  obtain ls2 r where r: "pool_run q ls2 r" "\<forall>l \<in> set ls2. \<exists>t. l = go t" "todo r = []" "\<forall>w \<in> set (workers r). is_exited w"
    using all_leave [OF q(3-5)] by blast
  have "pool_run p (ls @ ls2) r" by (rule pool_run_append [OF r(1) q(1)])
  then show ?thesis using q(2) r(2,4) dead_pool [OF _ _ r(3,4)] by (intro exI [of _ "ls @ ls2"] exI [of _ r]) auto
qed

theorem pool_loses_all_workers_witness:
  "\<exists>p. pool_run thrpool_new busy_then_idle p \<and> pmin p = 1 \<and> pcount p = 2 \<and>
     (\<exists>ls q. pool_run p ls q \<and> (\<forall>w \<in> set (workers q). is_exited w) \<and>
       (\<forall>r. pool_run q [Notified 5] r \<longrightarrow> handled r = handled q))"
proof -
  have "map_option (\<lambda>p. (held p, todo p, pmin p, pcount p, map wstage (workers p), map wmin (workers p))) (exec_all busy_then_idle thrpool_new) =
      Some (False, [], 1, 2, [Check, Check], [1, 1])" by code_simp
  then obtain p where e: "exec_all busy_then_idle thrpool_new = Some p"
      "(held p, todo p, pmin p, pcount p, map wstage (workers p), map wmin (workers p)) = (False, [], 1, 2, [Check, Check], [1, 1])"
    by (rule map_option_SomeE)
  then have p: "\<not> held p" "todo p = []" "pmin p = 1" "pcount p = 2" "map wstage (workers p) = [Check, Check]" "map wmin (workers p) = [1, 1]"
    by simp_all
  note r = exec_all_start [OF e(1)]
  have "\<forall>w \<in> set (workers p). is_exited w \<or> wstage w = Check \<and> wmin w < pcount p" using p(4-6) by auto
  from pool_loses_all_workers [OF p(1,2) this] obtain ls q where "pool_run p ls q" "\<forall>w \<in> set (workers q). is_exited w"
      "\<And>ls' r. pool_run q ls' r \<Longrightarrow> \<forall>l \<in> set ls'. \<not> is_call l \<Longrightarrow> handled r = handled q" by blast
  then show ?thesis using r p(3,4) by (intro exI [of _ p]) fastforce
qed

text \<open>
  C17: \<^verbatim>\<open>graceful_stop\<close> need not wait for the workers. Each worker that leaves notifies \<^verbatim>\<open>exit_event_\<close>, also when
  nobody stops the pool; when as many of these notifications are left as there are threads in the list,
  \<^verbatim>\<open>graceful_stop\<close> takes them for those of its workers and returns false, with no wait failed
  and no worker moved, so that its callers go on with \<^verbatim>\<open>unpolite_stop\<close>.
\<close>

theorem pool_stop_does_not_wait:
  assumes "todo p = []" and "thrs p \<noteq> []" and "\<forall>t \<in> set (thrs p). t < length (workers p) \<and> \<not> is_exited (worker_at p t)"
    and "\<not> invalid (exit_ev p)" and "length (thrs p) \<le> unat (available (exit_ev p))" and "pcount p > 0"
  shows "\<exists>k q. pool_run p (Call_graceful # replicate k owns) q \<and> todo q = [] \<and> result q = Some (Returned False) \<and> failed_count q = 0 \<and>
    map wstage (workers q) = map wstage (workers p) \<and> thrs q = thrs p"
proof -
  let ?n = "length (thrs p)" and ?as = "[Cleanup, Second_pass, Finish_stop, Clear_exit]"
  define p1 where "p1 = p\<lparr>todo := graceful_stop, result := None\<rparr>"
  define f where "f = fold (\<lambda>t. modify t (\<lambda>w. w\<lparr>stop_me := True\<rparr>)) (thrs p) (p1\<lparr>todo := ?as\<rparr>)"
  define p2 where "p2 = f\<lparr>todo := replicate ?n (Await True) @ ?as, failed_count := 0, ev := fst (event_notify (of_nat ?n) (ev f))\<rparr>"
  have m: "exit_ev f = exit_ev p" "thrs f = thrs p" "pcount f = pcount p" "length (workers f) = length (workers p)"
      "\<forall>t < length (workers p). wstage (worker_at f t) = wstage (worker_at p t)"
    using fold_stop_members [of "thrs p" "p1\<lparr>todo := ?as\<rparr>"] fold_stop [of _ "p1\<lparr>todo := ?as\<rparr>" "thrs p"]
    by (auto simp: f_def p1_def)
  have st: "map wstage (workers f) = map wstage (workers p)" using m(4,5) by (auto intro: nth_equalityI)
  have x: "\<forall>t \<in> set (thrs p). \<not> is_exited (worker_at f t)" using assms(3) m(5) by (auto simp: is_exited_def)
  have e1: "exec_all [Call_graceful, owns, owns] p = Some p2"
    using assms(1,2) by (simp add: owner_step_def graceful_stop_def p1_def f_def p2_def Let_def)
  define p3 where "p3 = p2\<lparr>todo := ?as, exit_ev := (exit_ev p2)\<lparr>available := available (exit_ev p2) - of_nat ?n\<rparr>\<rparr>"
  have e2: "exec_all (replicate ?n owns) p2 = Some p3"
    unfolding p3_def by (rule awaits) (use assms(4,5) m(1) in \<open>simp_all add: p2_def\<close>)
  define q where "q = p3\<lparr>todo := [], stop_ret := False, exit_ev := event_clear_available (exit_ev p3), result := Some (Returned False)\<rparr>"
  have "cleanup (p3\<lparr>todo := l\<rparr>) = (p3\<lparr>todo := l\<rparr>, ?n)" for l
    using x m(2) by (simp add: cleanup_def Let_def p3_def p2_def filter_id_conv)
  moreover have "todo p3 = ?as" "pcount p3 \<noteq> 0" "failed_count p3 = 0"
    using assms(6) m(3) by (auto simp: p3_def p2_def)
  ultimately have "exec_all [owns, owns, owns, owns] p3 = Some q"
    by (simp add: owner_step_def q_def)
  with e1 e2 have "exec_all ([Call_graceful, owns, owns] @ replicate ?n owns @ [owns, owns, owns, owns]) p = Some q"
    by (simp only: exec_all_append option.case)
  moreover have "[Call_graceful, owns, owns] @ replicate ?n owns @ [owns, owns, owns, owns] = Call_graceful # replicate (2 + ?n + 4) owns"
    unfolding replicate_add by (simp add: numeral_eq_Suc)
  ultimately have "pool_run p (Call_graceful # replicate (2 + ?n + 4) owns) q" using exec_all_start by metis
  then show ?thesis using st m(2) by (intro exI [of _ "2 + ?n + 4"] exI [of _ q]) (simp add: q_def p3_def p2_def)
qed

theorem pool_stop_does_not_wait_witness:
  "\<exists>ls p k q. pool_run thrpool_new ls p \<and> map wstage (workers p) = [Loop, Ended] \<and> pool_run p (Call_graceful # replicate k owns) q \<and>
     result q = Some (Returned False) \<and> map wstage (workers q) = [Loop, Ended]"
proof -
  let ?ls = "busy_then_idle @ replicate 4 (go 1) @ [go 0, go 0]"
  have "map_option (\<lambda>p. (todo p, thrs p, map wstage (workers p), invalid (exit_ev p), available (exit_ev p), pcount p)) (exec_all ?ls thrpool_new) =
      Some ([], [0], [Loop, Ended], False, 1, 1)" by code_simp
  then obtain p where e: "exec_all ?ls thrpool_new = Some p"
      "(todo p, thrs p, map wstage (workers p), invalid (exit_ev p), available (exit_ev p), pcount p) = ([], [0], [Loop, Ended], False, 1, 1)"
    by (rule map_option_SomeE)
  then have p: "todo p = []" "thrs p = [0]" "map wstage (workers p) = [Loop, Ended]" "\<not> invalid (exit_ev p)" "available (exit_ev p) = 1" "pcount p = 1"
    by simp_all
  have "0 < length (workers p)" "\<not> is_exited (worker_at p 0)" using p(3) by (auto simp: is_exited_def)
  then obtain k q where "pool_run p (Call_graceful # replicate k owns) q" "result q = Some (Returned False)" "map wstage (workers q) = map wstage (workers p)"
    using pool_stop_does_not_wait [OF p(1) _ _ p(4)] p(2,5,6) by auto
  then show ?thesis using exec_all_start [OF e(1)] p(3) by (intro exI [of _ ?ls] exI [of _ p] exI [of _ k] exI [of _ q]) simp
qed

end
