(* ===== verification/Rdbuf.thy ===== *)
theory Rdbuf
  imports Tbuf
begin

section \<open>Read buffers\<close>

text \<open>
  \<^verbatim>\<open>rdbuf<Preallocated,MaxSize>\<close> of \<^verbatim>\<open>src/common/rdbuf.hh\<close>: a \<^verbatim>\<open>tbuf\<close> whose bytes from
  \<open>start\<close> on, \<open>len\<close> of them, are waiting to be fetched. \<^verbatim>\<open>reserve\<close> lengthens the data by a
  region the caller fills, \<^verbatim>\<open>adjust\<close> gives the unused end of that region back, \<^verbatim>\<open>get\<close> fetches
  bytes from the front. \<^verbatim>\<open>uint64_t\<close> arithmetic is written out modulo \<open>2^64\<close>; \<open>mx\<close> is the
  template argument \<^verbatim>\<open>MaxSize\<close>, and the length of the preallocated bytes is \<^verbatim>\<open>Preallocated\<close>.
\<close>

definition w64 :: "nat \<Rightarrow> nat" where "w64 n = n mod 2 ^ 64"
definition sub64 :: "nat \<Rightarrow> nat \<Rightarrow> nat" where "sub64 a b = nat ((int a - int b) mod 2 ^ 64)"

text \<open>
  A \<^verbatim>\<open>read_res\<close> points nowhere, into the buffer's current block (at an offset from \<^verbatim>\<open>data_\<close>), or
  to an address that belongs to no block: an offset added to the null pointer of a failed
  \<^verbatim>\<open>malloc\<close> or to the address of a block just freed.
\<close>

datatype rptr = Rnull | Rbuf nat | Rwild nat

record read_res =
  rr_data :: rptr
  rr_bytes :: nat
  rr_timed_out :: bool
  rr_failed :: bool

definition rr_reset :: read_res where
  "rr_reset = \<lparr>rr_data = Rnull, rr_bytes = 0, rr_timed_out = False, rr_failed = False\<rparr>"

record rdbuf =
  buf :: tbuf
  start :: nat
  len :: nat

definition rdbuf_new :: "u8 list \<Rightarrow> rdbuf" where
  "rdbuf_new pre = \<lparr>buf = tbuf_new pre, start = 0, len = 0\<rparr>"

definition rd_n_free :: "nat \<Rightarrow> rdbuf \<Rightarrow> nat" where
  "rd_n_free mx b = sub64 (sub64 mx (len b)) (start b)"

definition rd_buflen :: "rdbuf \<Rightarrow> nat" where "rd_buflen b = bsize (buf b)"

text \<open>The address \<open>off\<close> bytes behind the pointer \<^verbatim>\<open>allocate\<close> returned.\<close>

definition ptr_add :: "ptr \<Rightarrow> nat \<Rightarrow> rptr" where
  "ptr_add p off = (case p of Data \<Rightarrow> Rbuf off | Null \<Rightarrow> (if off = 0 then Rnull else Rwild off) | Freed \<Rightarrow> Rwild off)"

subsection \<open>Operations\<close>

definition rd_get :: "nat \<Rightarrow> rdbuf \<Rightarrow> rdbuf \<times> read_res" where
  "rd_get sz b =
     (if sz = 0 then (b, rr_reset\<lparr>rr_failed := True\<rparr>)
      else if len b > 0 then
        let ret_size = (if len b > sz then sz else len b);
            rr = rr_reset\<lparr>rr_data := Rbuf (start b), rr_bytes := ret_size\<rparr>;
            b = b\<lparr>start := w64 (start b + ret_size), len := len b - ret_size\<rparr>
        in (if len b = 0 then b\<lparr>start := 0\<rparr> else b, rr)
      else (b, rr_reset))"

definition rd_reserve :: "malloc_fn \<Rightarrow> nat \<Rightarrow> nat \<Rightarrow> rdbuf \<Rightarrow> rdbuf \<times> read_res" where
  "rd_reserve mal mx sz b =
     (if w64 (start b + len b + sz) > mx then
        (if w64 (start b + len b) < mx then
           (case allocate mal mx (buf b) of (t, ptr) \<Rightarrow>
              (b\<lparr>buf := t, len := sub64 mx (start b)\<rparr>,
               rr_reset\<lparr>rr_data := ptr_add ptr (start b + len b), rr_bytes := rd_n_free mx b\<rparr>))
         else (b, rr_reset\<lparr>rr_failed := True\<rparr>))
      else if sz = 0 then (b, rr_reset)
      else
        (case allocate mal (w64 (len b + sz)) (buf b) of (t, ptr) \<Rightarrow>
           (b\<lparr>buf := t, len := w64 (len b + sz)\<rparr>,
            rr_reset\<lparr>rr_data := ptr_add ptr (start b + len b), rr_bytes := sz\<rparr>)))"

text \<open>
  \<^verbatim>\<open>adjust\<close> compares the distance of the region from \<^verbatim>\<open>data_\<close> with the place it must have; the
  distance of an address outside the block is never that place.
\<close>

definition rd_adjust :: "malloc_fn \<Rightarrow> nat \<Rightarrow> read_res \<Rightarrow> rdbuf \<Rightarrow> rdbuf \<times> read_res" where
  "rd_adjust mal n_succeed rr b =
     (if rr_bytes rr < n_succeed \<or> rr_data rr = Rnull \<or> rr_failed rr \<or> len b < rr_bytes rr \<or>
         rr_data rr \<noteq> Rbuf (start b + len b - rr_bytes rr)
      then (b, rr)
      else
        let adjust_len = rr_bytes rr - n_succeed;
            start_offset = start b + len b - rr_bytes rr;
            rr = rr\<lparr>rr_bytes := n_succeed\<rparr>;
            rr = (if n_succeed = 0 then rr\<lparr>rr_data := Rnull\<rparr> else rr);
            b = b\<lparr>len := len b - adjust_len\<rparr>
        in if len b = 0 then (b\<lparr>start := 0, buf := fst (allocate mal 0 (buf b))\<rparr>, rr)
           else if adjust_len > 0 then
             (case allocate mal (w64 (len b + start b)) (buf b) of (t, p) \<Rightarrow>
                (b\<lparr>buf := t\<rparr>, if n_succeed > 0 then rr\<lparr>rr_data := ptr_add p start_offset\<rparr> else rr))
           else (b, rr))"

subsection \<open>Memory\<close>

text \<open>
  What the holder of a \<^verbatim>\<open>read_res\<close> does with it: \<open>rr_store\<close> writes bytes to the start of the
  region, which is an error unless they lie in the buffer's block; \<open>rr_view\<close> reads the region.
\<close>

datatype mem_fault = Null_write | Wild_write | Overflow_write

definition rr_store :: "read_res \<Rightarrow> u8 list \<Rightarrow> rdbuf \<Rightarrow> mem_fault + rdbuf" where
  "rr_store rr d b =
     (if d = [] then Inr b
      else (case rr_data rr of
              Rnull \<Rightarrow> Inl Null_write
            | Rwild _ \<Rightarrow> Inl Wild_write
            | Rbuf off \<Rightarrow>
                let m = bdata (buf b)
                in if off + length d \<le> length m
                   then Inr (b\<lparr>buf := set_data (buf b) (take off m @ d @ drop (off + length d) m)\<rparr>)
                   else Inl Overflow_write))"

definition rr_view :: "read_res \<Rightarrow> rdbuf \<Rightarrow> u8 list" where
  "rr_view rr b = (case rr_data rr of Rbuf off \<Rightarrow> take (rr_bytes rr) (drop off (bdata (buf b))) | _ \<Rightarrow> [])"

subsection \<open>Specification\<close>

text \<open>
  The invariant of a buffer, the bytes waiting in it, and the contract of a \<^verbatim>\<open>malloc\<close> that does
  not run out of memory.
\<close>

definition rd_ok :: "nat \<Rightarrow> rdbuf \<Rightarrow> bool" where
  "rd_ok mx b \<longleftrightarrow> tbuf_ok (buf b) \<and> start b + len b \<le> bsize (buf b) \<and> bsize (buf b) \<le> mx \<and>
     (len b = 0 \<longrightarrow> start b = 0)"

definition rd_cont :: "rdbuf \<Rightarrow> u8 list" where
  "rd_cont b = take (len b) (drop (start b) (bdata (buf b)))"

definition mal_gives :: "malloc_fn \<Rightarrow> bool" where
  "mal_gives mal \<longleftrightarrow> (\<forall>n. \<exists>d. mal n = Some d \<and> length d = n)"

subsection \<open>The interface of a reader\<close>

text \<open>
  What a client that consumes a stream relies on: a call may be permitted in some states only;
  a permitted call returns, and the bytes it hands over followed by the bytes still buffered are
  the bytes that were buffered followed by those that came from the source meanwhile.
  \<open>reads\<close> makes the permitted calls of a list, in order.
\<close>

primrec reads :: "('q \<Rightarrow> 's \<Rightarrow> bool) \<Rightarrow> ('q \<Rightarrow> 's \<Rightarrow> ('s \<times> 'b list) option) \<Rightarrow> 'q list \<Rightarrow> 's \<Rightarrow> ('s \<times> 'b list) option" where
  "reads permitted call [] s = Some (s, [])"
| "reads permitted call (q # qs) s =
     (if permitted q s
      then (case call q s of
              None \<Rightarrow> None
            | Some (s, d) \<Rightarrow> map_option (apsnd ((@) d)) (reads permitted call qs s))
      else reads permitted call qs s)"

locale stream_reader =
  fixes inv :: "'s \<Rightarrow> bool" and cont :: "'s \<Rightarrow> 'b list" and source :: "'s \<Rightarrow> 'b list"
    and permitted :: "'q \<Rightarrow> 's \<Rightarrow> bool" and call :: "'q \<Rightarrow> 's \<Rightarrow> ('s \<times> 'b list) option"
  assumes call_stream: "inv s \<Longrightarrow> permitted q s \<Longrightarrow>
    \<exists>s' d new. call q s = Some (s', d) \<and> inv s' \<and> source s' = source s @ new \<and> cont s @ new = d @ cont s'"
begin

lemma reads_stream:
  "inv s \<Longrightarrow> \<exists>s' d new. reads permitted call qs s = Some (s', d) \<and> inv s' \<and> source s' = source s @ new \<and>
     cont s @ new = d @ cont s'"
proof (induction qs arbitrary: s)
  case (Cons q qs)
  show ?case
  proof (cases "permitted q s")
    case True
    obtain s1 d1 n1 where 1: "call q s = Some (s1, d1)" "inv s1" "source s1 = source s @ n1" "cont s @ n1 = d1 @ cont s1"
      using call_stream [OF Cons.prems True] by blast
    obtain s2 d2 n2 where 2: "reads permitted call qs s1 = Some (s2, d2)" "inv s2" "source s2 = source s1 @ n2"
      "cont s1 @ n2 = d2 @ cont s2"
      using Cons.IH [OF 1(2)] by blast
    have "cont s @ n1 @ n2 = (d1 @ d2) @ cont s2" using 1(4) 2(4) by (simp flip: append_assoc) simp
    with 1 2 True show ?thesis by (simp add: apsnd_def)
  qed (use Cons in simp)
qed simp

text \<open>A reflexive and transitive relation that each call respects holds between the ends of a run.\<close>

lemma reads_rel:
  assumes step: "\<And>q s s' d. inv s \<Longrightarrow> permitted q s \<Longrightarrow> call q s = Some (s', d) \<Longrightarrow> R s s'"
    and refl: "\<And>s. R s s" and trans: "\<And>s s1 s2. R s s1 \<Longrightarrow> R s1 s2 \<Longrightarrow> R s s2"
  shows "inv s \<Longrightarrow> reads permitted call qs s = Some (s', d) \<Longrightarrow> R s s'"
proof (induction qs arbitrary: s d)
  case Nil
  then show ?case using refl by simp
next
  case (Cons q qs)
  show ?case
  proof (cases "permitted q s")
    case True
    obtain s1 d1 where 1: "call q s = Some (s1, d1)" "inv s1"
      using call_stream [OF Cons.prems(1) True] by blast
    then obtain d2 where "reads permitted call qs s1 = Some (s', d2)"
      using Cons.prems(2) True by auto
    from trans [OF step [OF Cons.prems(1) True 1(1)] Cons.IH [OF 1(2) this]] show ?thesis .
  qed (use Cons in auto)
qed

end

subsection \<open>Correctness\<close>

lemma w64_less [simp]: "n < 2 ^ 64 \<Longrightarrow> w64 n = n"
  by (simp add: w64_def)

lemma sub64_le [simp]: "b \<le> a \<Longrightarrow> a < 2 ^ 64 \<Longrightarrow> sub64 a b = a - b"
  by (simp add: sub64_def of_nat_diff [symmetric] nat_mod_distrib del: of_nat_diff)

lemma mal_gives_ok: "mal_gives mal \<Longrightarrow> mal_ok mal"
  unfolding mal_gives_def mal_ok_def by (metis option.inject)

lemma allocate_total:
  assumes "tbuf_ok t" and "mal_gives mal" and "0 < sz"
  obtains t' where "allocate mal sz t = (t', Data)" "tbuf_ok t'" "bsize t' = sz"
    "take (min (bsize t) sz) (bdata t') = take (min (bsize t) sz) (bdata t)"
proof -
  obtain t' p where a: "allocate mal sz t = (t', p)" by (cases "allocate mal sz t")
  obtain d where "mal sz = Some d" using assms(2) unfolding mal_gives_def by blast
  then have "p = Data" using a assms(3) by (auto simp: allocate_def Let_def split: if_splits)
  with allocate_ok [OF assms(1) mal_gives_ok [OF assms(2)] a] a that show thesis by auto
qed

lemma rd_cont_length: "rd_ok mx b \<Longrightarrow> length (rd_cont b) = len b"
  by (auto simp: rd_ok_def rd_cont_def tbuf_ok_def)

lemma rd_new_ok: "rd_ok mx (rdbuf_new pre)" "rd_cont (rdbuf_new pre) = []" "start (rdbuf_new pre) = 0"
  by (simp_all add: rdbuf_new_def rd_ok_def rd_cont_def tbuf_new_def tbuf_ok_def)

lemma rd_get_some:
  assumes "0 < sz" and "0 < len b" and "start b + len b < 2 ^ 64"
  shows "rd_get sz b = (b\<lparr>start := if len b \<le> sz then 0 else start b + sz, len := len b - sz\<rparr>,
      rr_reset\<lparr>rr_data := Rbuf (start b), rr_bytes := min sz (len b)\<rparr>)"
proof (cases "len b \<le> sz")
  case True
  with assms show ?thesis by (simp add: rd_get_def)
next
  case False
  then have "start b + sz < 2 ^ 64" using assms(3) by linarith
  with False assms(1,2) show ?thesis by (simp add: rd_get_def)
qed

lemma rd_get_ok:
  assumes "rd_ok mx b" and "mx < 2 ^ 64"
  shows "rd_ok mx (fst (rd_get sz b)) \<and> rr_view (snd (rd_get sz b)) (fst (rd_get sz b)) = take sz (rd_cont b) \<and>
    rd_cont (fst (rd_get sz b)) = drop sz (rd_cont b)"
proof (cases "0 < sz \<and> 0 < len b")
  case True
  have b: "start b + len b < 2 ^ 64" "tbuf_ok (buf b)" "start b + len b \<le> bsize (buf b)" "bsize (buf b) \<le> mx"
    using assms by (simp_all add: rd_ok_def)
  note g = rd_get_some [OF conjunct1 [OF True] conjunct2 [OF True] b(1)]
  show ?thesis
    using b(2-4) by (simp add: g rd_ok_def rr_view_def rd_cont_def drop_take add.commute)
next
  case False
  then show ?thesis using assms(1) by (auto simp: rd_get_def rr_view_def rr_reset_def rd_cont_def)
qed

lemma rd_reserve_idle:
  assumes b: "rd_ok mx b" and m: "mal_gives mal" and s: "start b = 0" and l: "len b < mx" and sz: "0 < sz" "sz + mx < 2 ^ 64"
  obtains b' where "rd_reserve mal mx sz b = (b', rr_reset\<lparr>rr_data := Rbuf (len b), rr_bytes := min sz (mx - len b)\<rparr>)"
    "rd_ok mx b'" "start b' = 0" "len b' = len b + min sz (mx - len b)" "bsize (buf b') = len b'"
    "take (len b) (bdata (buf b')) = rd_cont b"
proof -
  let ?n = "len b + min sz (mx - len b)"
  have t: "tbuf_ok (buf b)" and lb: "len b \<le> bsize (buf b)" "bsize (buf b) \<le> length (bdata (buf b))" and
    w: "w64 (len b + sz) = len b + sz" "w64 (len b) = len b" "mx < 2 ^ 64"
    using b s l sz(2) by (auto simp: rd_ok_def tbuf_ok_def)
  obtain t' where a: "allocate mal ?n (buf b) = (t', Data)" and t': "tbuf_ok t'" "bsize t' = ?n"
    "take (min (bsize (buf b)) ?n) (bdata t') = take (min (bsize (buf b)) ?n) (bdata (buf b))"
    using allocate_total [OF t m, of ?n] sz l by auto
  have "take (len b) (bdata t') = take (len b) (bdata (buf b))"
    using arg_cong [OF t'(3), of "take (len b)"] lb by (simp add: min_def split: if_splits)
  then have c: "take (len b) (bdata t') = rd_cont b" using s by (simp add: rd_cont_def)
  have "rd_reserve mal mx sz b = (b\<lparr>buf := t', len := ?n\<rparr>, rr_reset\<lparr>rr_data := Rbuf (len b), rr_bytes := min sz (mx - len b)\<rparr>)"
  proof (cases "mx < len b + sz")
    case True
    then have "?n = mx" using l by simp
    with a True show ?thesis using s l w by (simp add: rd_reserve_def rd_n_free_def ptr_add_def)
  next
    case False
    then have "?n = len b + sz" by simp
    with a False show ?thesis using s sz w by (simp add: rd_reserve_def ptr_add_def)
  qed
  then show thesis using that t' c s l sz by (auto simp: rd_ok_def)
qed

lemma rd_reserve_full:
  assumes "rd_ok mx b" and "len b = mx" and "0 < sz" and "sz + mx < 2 ^ 64"
  shows "rd_reserve mal mx sz b = (b, rr_reset\<lparr>rr_failed := True\<rparr>)"
  using assms by (simp add: rd_reserve_def rd_ok_def)

text \<open>A region at the end of an idle buffer, after it was filled and adjusted.\<close>

lemma rd_adjust_idle:
  assumes "start b = 0" "len b = k + n" "bsize (buf b) = k + n" "j \<le> n" "0 < n" "k + n < 2 ^ 64"
  shows "fst (rd_adjust mal j (rr_reset\<lparr>rr_data := Rbuf k, rr_bytes := n\<rparr>) b) =
    (if k + j = 0 then b\<lparr>len := 0, buf := reset (buf b)\<rparr>
     else b\<lparr>len := k + j, buf := (buf b)\<lparr>bsize := k + j\<rparr>\<rparr>)"
proof -
  have e: "k + n - (n - j) = k + j" using assms(4) by simp
  have w: "w64 (k + j) = k + j" using assms(4,6) by simp
  have s: "start b = 0 \<Longrightarrow> b\<lparr>start := 0\<rparr> = b" "(buf b)\<lparr>bsize := bsize (buf b)\<rparr> = buf b" "b\<lparr>buf := buf b\<rparr> = b" by simp_all
  consider "k + j = 0" | "0 < k + j" "j < n" | "0 < k + j" "j = n" using assms(4) by linarith
  then show ?thesis
  proof cases
    case 1
    with assms show ?thesis by (simp add: rd_adjust_def rr_reset_def allocate_def Let_def)
  next
    case 2
    then have "\<not> k + n \<le> n - j" "\<not> (k = 0 \<and> j = 0)" by linarith+
    with 2 assms e w show ?thesis by (auto simp: rd_adjust_def rr_reset_def allocate_def Let_def)
  next
    case 3
    then have "(buf b)\<lparr>bsize := k + j\<rparr> = buf b" using assms(3) by (metis s(2))
    with 3 assms e w s show ?thesis by (simp add: rd_adjust_def rr_reset_def Let_def)
  qed
qed

lemma rr_store_idle:
  assumes "k + length d \<le> length (bdata (buf b))" and "rr_data rr = Rbuf k"
  obtains t where "rr_store rr d b = Inr (b\<lparr>buf := t\<rparr>)" "bsize t = bsize (buf b)" "tbuf_ok (buf b) \<Longrightarrow> tbuf_ok t"
    "take (k + length d) (bdata t) = take k (bdata (buf b)) @ d"
proof (cases "d = []")
  case True
  then show ?thesis using that [of "buf b"] by (simp add: rr_store_def)
next
  case False
  let ?m = "bdata (buf b)"
  let ?t = "set_data (buf b) (take k ?m @ d @ drop (k + length d) ?m)"
  have "rr_store rr d b = Inr (b\<lparr>buf := ?t\<rparr>)"
    using False assms by (simp add: rr_store_def Let_def)
  moreover have "tbuf_ok (buf b) \<Longrightarrow> tbuf_ok ?t"
    using assms(1) by (intro set_data_ok) simp_all
  ultimately show ?thesis using that [of ?t] assms(1) by (simp add: set_data_ok)
qed

lemma rd_fill_idle:
  assumes b: "rd_ok mx b'" "start b' = 0" "len b' = k + n" "bsize (buf b') = k + n" "take k (bdata (buf b')) = c" "length c = k"
    and d: "length d \<le> n" "0 < n" and x: "mx < 2 ^ 64"
    and rr: "rr = rr_reset\<lparr>rr_data := Rbuf k, rr_bytes := n\<rparr>"
  obtains b2 where "rr_store rr d b' = Inr b2" "length d = n \<Longrightarrow> rd_ok mx b2 \<and> start b2 = 0 \<and> rd_cont b2 = c @ d"
    "rd_ok mx (fst (rd_adjust mal (length d) rr b2))" "start (fst (rd_adjust mal (length d) rr b2)) = 0"
    "rd_cont (fst (rd_adjust mal (length d) rr b2)) = c @ d"
proof -
  have t: "tbuf_ok (buf b')" "k + n \<le> length (bdata (buf b'))" "k + n \<le> mx" using b(1,3,4) by (auto simp: rd_ok_def tbuf_ok_def)
  have r: "k + length d \<le> length (bdata (buf b'))" "rr_data rr = Rbuf k" using t(2) d(1) by (simp_all add: rr)
  obtain t where t': "rr_store rr d b' = Inr (b'\<lparr>buf := t\<rparr>)" "bsize t = k + n" "tbuf_ok t" "take (k + length d) (bdata t) = c @ d"
    using rr_store_idle [OF r] b(4,5) t(1) by metis
  let ?b2 = "b'\<lparr>buf := t\<rparr>"
  have 2: "rd_ok mx ?b2 \<and> start ?b2 = 0 \<and> rd_cont ?b2 = c @ d" if "length d = n"
    using that t t' b(2,3) d(2) by (simp add: rd_ok_def rd_cont_def)
  have kn: "k + n < 2 ^ 64" using t(3) x by linarith
  have "start ?b2 = 0" "len ?b2 = k + n" "bsize (buf ?b2) = k + n" using b(2,3) t'(2) by simp_all
  note 3 = rd_adjust_idle [OF this d kn, of mal, folded rr]
  have l: "k + length d \<le> length (bdata t)" using t'(2,3) d(1) by (simp add: tbuf_ok_def)
  have "rd_ok mx (fst (rd_adjust mal (length d) rr ?b2)) \<and> start (fst (rd_adjust mal (length d) rr ?b2)) = 0 \<and>
      rd_cont (fst (rd_adjust mal (length d) rr ?b2)) = c @ d"
  proof (cases "k + length d = 0")
    case True
    with b(2,6) show ?thesis unfolding 3 by (auto simp: rd_ok_def rd_cont_def reset_ok reset_def tbuf_ok_def)
  next
    case False
    have bd: "bdata (t\<lparr>bsize := k + length d\<rparr>) = bdata t" by (simp add: bdata_def split: option.split)
    have "tbuf_ok (t\<lparr>bsize := k + length d\<rparr>)" using False l by (auto simp: tbuf_ok_def bd)
    then show ?thesis unfolding 3 using False b(2) d(1) t(3) t'(4) by (auto simp: rd_ok_def rd_cont_def bd)
  qed
  with t'(1) 2 that show thesis by blast
qed

text \<open>
  A client of the buffer: it fetches bytes, or it reserves a region, fills it and adjusts it to
  the bytes it stored. The second component of the state is the list of all bytes stored.
\<close>

datatype rd_call = Fetch nat | Fill nat "u8 list"

definition fill_permitted :: "nat \<Rightarrow> rd_call \<Rightarrow> rdbuf \<times> u8 list \<Rightarrow> bool" where
  "fill_permitted mx q s =
     (case q of Fetch sz \<Rightarrow> True
      | Fill sz d \<Rightarrow> start (fst s) = 0 \<and> 0 < sz \<and> sz + mx < 2 ^ 64 \<and> length d \<le> min sz (mx - len (fst s)))"

definition rd_call :: "malloc_fn \<Rightarrow> nat \<Rightarrow> rd_call \<Rightarrow> rdbuf \<times> u8 list \<Rightarrow> ((rdbuf \<times> u8 list) \<times> u8 list) option" where
  "rd_call mal mx q s =
     (case q of
        Fetch sz \<Rightarrow> (case rd_get sz (fst s) of (b, rr) \<Rightarrow> Some ((b, snd s), rr_view rr b))
      | Fill sz d \<Rightarrow>
          (case rd_reserve mal mx sz (fst s) of
             (b, rr) \<Rightarrow>
               if rr_bytes rr = 0 then Some ((b, snd s), [])
               else (case rr_store rr d b of
                       Inl _ \<Rightarrow> None
                     | Inr b \<Rightarrow> Some ((fst (rd_adjust mal (length d) rr b), snd s @ d), []))))"

lemma rd_call_stream:
  assumes "mal_gives mal" and "mx < 2 ^ 64" and "rd_ok mx (fst s)" and "fill_permitted mx q s"
  shows "\<exists>s' d new. rd_call mal mx q s = Some (s', d) \<and> rd_ok mx (fst s') \<and> snd s' = snd s @ new \<and>
    rd_cont (fst s) @ new = d @ rd_cont (fst s')"
proof (cases q)
  case (Fetch sz)
  show ?thesis
    using rd_get_ok [OF assms(3,2), of sz] by (cases "rd_get sz (fst s)") (simp add: Fetch rd_call_def)
next
  case (Fill sz d)
  let ?b = "fst s" and ?n = "min sz (mx - len (fst s))"
  have f: "start ?b = 0" "0 < sz" "sz + mx < 2 ^ 64" "length d \<le> ?n" using assms(4) by (auto simp: fill_permitted_def Fill)
  show ?thesis
  proof (cases "len ?b < mx")
    case False
    then have l: "len ?b = mx" and d: "d = []" using assms(3) f(4) by (auto simp: rd_ok_def)
    show ?thesis
      using rd_reserve_full [OF assms(3) l f(2,3)] assms(3) d by (simp add: rd_call_def Fill rr_reset_def)
  next
    case True
    define n where "n = ?n"
    define rr where "rr = rr_reset\<lparr>rr_data := Rbuf (len ?b), rr_bytes := n\<rparr>"
    obtain b1 where 1: "rd_reserve mal mx sz ?b = (b1, rr)"
      "rd_ok mx b1" "start b1 = 0" "len b1 = len ?b + n" "bsize (buf b1) = len ?b + n"
      "take (len ?b) (bdata (buf b1)) = rd_cont ?b"
      using rd_reserve_idle [OF assms(3,1) f(1) True f(2,3)] unfolding rr_def n_def by metis
    have n: "0 < n" "length d \<le> n" using True f(2,4) by (simp_all add: n_def)
    obtain b2 where 2: "rr_store rr d b1 = Inr b2" "rd_ok mx (fst (rd_adjust mal (length d) rr b2))"
      "rd_cont (fst (rd_adjust mal (length d) rr b2)) = rd_cont ?b @ d"
      using rd_fill_idle [OF 1(2-6) rd_cont_length [OF assms(3)] n(2,1) assms(2) rr_def] by metis
    have "rr_bytes rr \<noteq> 0" using n by (simp add: rr_def)
    with 1(1) 2 show ?thesis by (simp add: rd_call_def Fill)
  qed
qed

interpretation rq: stream_reader "\<lambda>s. mal_gives mal \<and> mx < 2 ^ 64 \<and> rd_ok mx (fst s)" "\<lambda>s. rd_cont (fst s)" snd
  "fill_permitted mx" "rd_call mal mx" for mal mx
  by unfold_locales (use rd_call_stream in blast)

text \<open>The region \<^verbatim>\<open>reserve\<close> returns when a new block is needed and bytes were fetched before.\<close>

lemma rd_reserve_grown:
  assumes "rd_ok mx b" and "mal_gives mal" and "start b + len b + sz \<le> mx" and "mx < 2 ^ 64"
    and "bsize (buf b) < len b + sz" and "\<not> (len b + sz \<le> length (preallocated (buf b)) \<and> dyn (buf b) = None)"
  obtains t m where "rd_reserve mal mx sz b =
      (b\<lparr>buf := t, len := len b + sz\<rparr>, rr_reset\<lparr>rr_data := Rbuf (start b + len b), rr_bytes := sz\<rparr>)"
    "dyn t = Some m" "length m = len b + sz" "0 < sz"
proof -
  have sz: "0 < sz" using assms(1,5) by (auto simp: rd_ok_def)
  obtain d where d: "mal (len b + sz) = Some d" "length d = len b + sz" using assms(2) unfolding mal_gives_def by blast
  let ?m = "if bsize (buf b) > 0 then take (bsize (buf b)) (bdata (buf b)) @ drop (bsize (buf b)) d else d"
  have m: "length ?m = len b + sz" using d(2) assms(1,5) by (auto simp: rd_ok_def tbuf_ok_def)
  have a: "allocate mal (len b + sz) (buf b) = ((buf b)\<lparr>dyn := Some ?m, bsize := len b + sz\<rparr>, Data)"
    using d(1) sz assms(5,6) by (auto simp: allocate_def)
  have w: "w64 (start b + len b + sz) = start b + len b + sz" "w64 (len b + sz) = len b + sz" using assms(3,4) by simp_all
  have n: "\<not> mx < start b + len b + sz" using assms(3) by simp
  show thesis
    by (rule that [of "(buf b)\<lparr>dyn := Some ?m, bsize := len b + sz\<rparr>" ?m])
      (use a w n sz m in \<open>simp_all add: rd_reserve_def ptr_add_def del: w64_less\<close>)
qed

subsection \<open>Properties\<close>

text \<open>
  A read buffer is a first-in first-out queue of bytes, as long as regions are reserved only
  while no fetched bytes lie before the data: in any sequence of calls, the bytes handed out
  followed by the bytes still waiting are the old ones followed by the bytes stored.
\<close>

theorem rdbuf_fifo:
  assumes "mal_gives mal" and "mx < 2 ^ 64" and "rd_ok mx b"
  shows "\<exists>b' d new. reads (fill_permitted mx) (rd_call mal mx) qs (b, l) = Some ((b', l @ new), d) \<and>
    rd_ok mx b' \<and> rd_cont b @ new = d @ rd_cont b'"
  using rq.reads_stream [of mal mx "(b, l)" qs] assms by fastforce

theorem rdbuf_fifo_witness:
  "\<exists>b' d new. reads (fill_permitted 8) (rd_call (\<lambda>n. Some (replicate n 0)) 8)
      [Fill 4 [1, 2, 3], Fetch 2, Fill 2 [9], Fetch 5, Fill 9 [4]] (rdbuf_new [0, 0], []) = Some ((b', new), d) \<and>
    rd_ok 8 b' \<and> new = d @ rd_cont b'"
  using rdbuf_fifo [of "\<lambda>n. Some (replicate n 0)" 8 "rdbuf_new [0, 0]"
      "[Fill 4 [1, 2, 3], Fetch 2, Fill 2 [9], Fetch 5, Fill 9 [4]]" "[]"]
  by (simp add: mal_gives_def rd_new_ok)

text \<open>
  \<^verbatim>\<open>reserve\<close> forgets the bytes already fetched when it asks for memory: if some were and
  the buffer must grow, the region it hands out ends \<open>start\<close> bytes behind the new block, so a
  caller that fills more than \<open>sz - start\<close> of its \<open>sz\<close> bytes writes outside the block.
\<close>

theorem rdbuf_reserve_overrun:
  assumes "rd_ok mx b" and "mal_gives mal" and "start b + len b + sz \<le> mx" and "mx < 2 ^ 64"
    and "bsize (buf b) < len b + sz" and "\<not> (len b + sz \<le> length (preallocated (buf b)) \<and> dyn (buf b) = None)"
  shows "rr_bytes (snd (rd_reserve mal mx sz b)) = sz \<and> \<not> rr_failed (snd (rd_reserve mal mx sz b)) \<and>
    (rr_store (snd (rd_reserve mal mx sz b)) d (fst (rd_reserve mal mx sz b)) = Inl Overflow_write \<longleftrightarrow>
     d \<noteq> [] \<and> sz < start b + length d)"
proof -
  obtain t m where r: "rd_reserve mal mx sz b =
      (b\<lparr>buf := t, len := len b + sz\<rparr>, rr_reset\<lparr>rr_data := Rbuf (start b + len b), rr_bytes := sz\<rparr>)"
    "dyn t = Some m" "length m = len b + sz"
    using rd_reserve_grown [OF assms] by metis
  then show ?thesis by (auto simp: rr_store_def rr_reset_def bdata_def Let_def)
qed

theorem rdbuf_reserve_overrun_witness:
  "rr_store (snd (rd_reserve (\<lambda>n. Some (replicate n 0)) 64 4 \<lparr>buf = tbuf_new [1, 2]\<lparr>bsize := 2\<rparr>, start = 1, len = 1\<rparr>)) [7, 7, 7, 7]
     (fst (rd_reserve (\<lambda>n. Some (replicate n 0)) 64 4 \<lparr>buf = tbuf_new [1, 2]\<lparr>bsize := 2\<rparr>, start = 1, len = 1\<rparr>)) = Inl Overflow_write"
proof -
  let ?b = "\<lparr>buf = tbuf_new [1, 2]\<lparr>bsize := 2\<rparr>, start = 1, len = 1\<rparr>"
  have "rd_ok 64 ?b" "mal_gives (\<lambda>n. Some (replicate n 0))"
    by (simp_all add: rd_ok_def tbuf_ok_def tbuf_new_def bdata_def mal_gives_def)
  from rdbuf_reserve_overrun [OF this, of 4 "[7, 7, 7, 7]"] show ?thesis by (simp add: tbuf_new_def)
qed

text \<open>
  The size computation of \<^verbatim>\<open>reserve\<close> wraps: asked for so much that \<^verbatim>\<open>len_ + sz\<close> exceeds
  \<open>2^64\<close>, it reports a region of \<open>sz\<close> bytes, not failed, and shortens the buffered data.
\<close>

theorem rdbuf_reserve_wraps:
  assumes "rd_ok mx b" and "mx < 2 ^ 64" and "sz < 2 ^ 64" and "2 ^ 64 \<le> len b + sz"
  shows "rr_bytes (snd (rd_reserve mal mx sz b)) = sz \<and> \<not> rr_failed (snd (rd_reserve mal mx sz b)) \<and>
    len (fst (rd_reserve mal mx sz b)) < len b \<and> bsize (buf (fst (rd_reserve mal mx sz b))) < len b"
proof -
  have b: "start b + len b \<le> bsize (buf b)" "bsize (buf b) \<le> mx" using assms(1) by (auto simp: rd_ok_def)
  let ?k = "len b + sz - 2 ^ 64"
  have k: "?k < len b" "0 < sz" using assms b by linarith+
  have w: "w64 (len b + sz) = ?k" using assms b by (simp add: w64_def mod_if)
  have v: "w64 (start b + len b + sz) \<le> mx"
  proof -
    have "w64 (start b + len b + sz) = start b + len b + sz - 2 ^ 64"
      using assms b by (simp add: w64_def mod_if)
    then show ?thesis using assms b by linarith
  qed
  have "allocate mal ?k (buf b) = (if ?k = 0 then reset (buf b) else (buf b)\<lparr>bsize := ?k\<rparr>, snd (allocate mal ?k (buf b)))"
    using k b(1) by (simp add: allocate_def)
  then show ?thesis
    using k w v by (auto simp: rd_reserve_def rr_reset_def reset_def split: prod.split if_splits)
qed

theorem rdbuf_reserve_wraps_witness:
  "rr_bytes (snd (rd_reserve (\<lambda>n. None) 64 (2 ^ 64 - 1) \<lparr>buf = tbuf_new [1, 2]\<lparr>bsize := 2\<rparr>, start = 0, len = 2\<rparr>)) = 2 ^ 64 - 1"
proof -
  let ?b = "\<lparr>buf = tbuf_new [1, 2]\<lparr>bsize := 2\<rparr>, start = 0, len = 2\<rparr>"
  have "rd_ok 64 ?b" by (simp add: rd_ok_def tbuf_ok_def tbuf_new_def bdata_def)
  from rdbuf_reserve_wraps [OF this, of "2 ^ 64 - 1" "\<lambda>n. None"] show ?thesis by simp
qed

text \<open>
  \<^verbatim>\<open>reserve\<close> does not test the pointer it gets: when \<^verbatim>\<open>malloc\<close> fails it counts the bytes as
  data and reports a region that is not failed, at no address of the buffer, and no \<^verbatim>\<open>adjust\<close>
  takes the bytes back.
\<close>

theorem rdbuf_reserve_no_memory:
  assumes "rd_ok mx b" and "start b + len b + sz \<le> mx" and "mx < 2 ^ 64" and "mal (len b + sz) = None"
    and "bsize (buf b) < len b + sz" and "\<not> (len b + sz \<le> length (preallocated (buf b)) \<and> dyn (buf b) = None)"
  shows "fst (rd_reserve mal mx sz b) = b\<lparr>len := len b + sz\<rparr> \<and> \<not> rr_failed (snd (rd_reserve mal mx sz b)) \<and>
    rr_bytes (snd (rd_reserve mal mx sz b)) = sz \<and>
    rd_adjust mal n (snd (rd_reserve mal mx sz b)) (fst (rd_reserve mal mx sz b)) =
      (fst (rd_reserve mal mx sz b), snd (rd_reserve mal mx sz b))"
proof -
  have w: "w64 (start b + len b + sz) = start b + len b + sz" "w64 (len b + sz) = len b + sz" using assms(2,3) by simp_all
  have n: "\<not> mx < start b + len b + sz" using assms(2) by simp
  have "allocate mal (len b + sz) (buf b) = (buf b, Null)"
    using assms(4-6) by (auto simp: allocate_def)
  moreover have "0 < sz" using assms(1,5) by (auto simp: rd_ok_def)
  ultimately have "rd_reserve mal mx sz b =
      (b\<lparr>len := len b + sz\<rparr>, rr_reset\<lparr>rr_data := ptr_add Null (start b + len b), rr_bytes := sz\<rparr>)"
    using w n by (simp add: rd_reserve_def)
  then show ?thesis by (simp add: rd_adjust_def rr_reset_def ptr_add_def)
qed

theorem rdbuf_reserve_no_memory_witness:
  "fst (rd_reserve (\<lambda>n. None) 64 9 (rdbuf_new [0, 0])) = (rdbuf_new [0, 0])\<lparr>len := 9\<rparr>"
  using rdbuf_reserve_no_memory [of 64 "rdbuf_new [0, 0]" 9 "\<lambda>n. None"]
  by (simp add: rd_new_ok) (simp add: rdbuf_new_def tbuf_new_def)

end
