(* ===== verification/Bfd.thy ===== *)
theory Bfd
  imports Rdbuf "HOL-Library.Multiset"
begin

section \<open>Buffered descriptors\<close>

text \<open>
  \<^verbatim>\<open>comm::bfd\<close> of \<^verbatim>\<open>src/comm/bfd.cc\<close>: reads from a file descriptor through a read buffer of 512
  preallocated bytes that grows to 256k. The operating system is a parameter: a record of the
  calls the code makes, each a function of the system's state. \<open>k_select\<close> gives the result
  of \<^verbatim>\<open>select\<close> and the microseconds the two \<^verbatim>\<open>gettimeofday\<close> calls around it lie apart; \<open>k_recv\<close>
  stands for \<^verbatim>\<open>read\<close>, \<^verbatim>\<open>recv\<close> and \<^verbatim>\<open>recvfrom\<close> (its first argument is the \<^verbatim>\<open>op_type\<close>): no
  bytes for a result of 0, \<open>None\<close> for a negative result, and the sender's address;
  \<open>k_send\<close> for \<^verbatim>\<open>write\<close>, \<^verbatim>\<open>send\<close> and \<^verbatim>\<open>sendto\<close>.
\<close>

record ('k, 'a) kernel =
  k_select :: "int \<Rightarrow> nat \<Rightarrow> 'k \<Rightarrow> int \<times> int \<times> 'k"
  k_recv :: "int \<Rightarrow> int \<Rightarrow> nat \<Rightarrow> 'k \<Rightarrow> u8 list option \<times> 'a \<times> 'k"
  k_send :: "int \<Rightarrow> 'a option \<Rightarrow> int \<Rightarrow> u8 list \<Rightarrow> 'k \<Rightarrow> int \<times> 'k"
  k_close :: "int \<Rightarrow> 'k \<Rightarrow> 'k"
  k_shutdown :: "int \<Rightarrow> 'k \<Rightarrow> 'k"

definition ok_st :: int where "ok_st = 0"
definition not_initialized :: int where "not_initialized = -2"
definition closed_st :: int where "closed_st = -3"
definition fd_error :: int where "fd_error = -4"
definition bfd_max_size :: nat where "bfd_max_size = 256 * 1024"
definition bfd_preallocated_size :: nat where "bfd_preallocated_size = 512"
definition read_op :: int where "read_op = 1"
definition recv_op :: int where "recv_op = 2"
definition recvfrom_op :: int where "recvfrom_op = 3"

record bfd =
  fd :: int
  rbuf :: rdbuf

datatype bfd_fault = Mem mem_fault | Unknown_op

definition bfd_new :: "u8 list \<Rightarrow> bfd" where
  "bfd_new pre = \<lparr>fd = not_initialized, rbuf = rdbuf_new pre\<rparr>"

definition bfd_new_fd :: "u8 list \<Rightarrow> int \<Rightarrow> bfd" where
  "bfd_new_fd pre f = \<lparr>fd = f, rbuf = rdbuf_new pre\<rparr>"

definition bfd_init :: "int \<Rightarrow> bfd \<Rightarrow> bfd" where "bfd_init f b = b\<lparr>fd := f\<rparr>"

definition bfd_state :: "bfd \<Rightarrow> int" where
  "bfd_state b = (if fd b > 0 then ok_st else fd b)"

definition bfd_n_free :: "bfd \<Rightarrow> nat" where "bfd_n_free b = rd_n_free bfd_max_size (rbuf b)"
definition bfd_size :: "bfd \<Rightarrow> nat" where "bfd_size b = len (rbuf b)"

definition bfd_shutdown :: "('k, 'a) kernel \<Rightarrow> bfd \<Rightarrow> 'k \<Rightarrow> bfd \<times> 'k" where
  "bfd_shutdown K b k = (b, if fd b > 0 then k_shutdown K (fd b) k else k)"

definition bfd_close :: "('k, 'a) kernel \<Rightarrow> bfd \<Rightarrow> 'k \<Rightarrow> bfd \<times> 'k" where
  "bfd_close K b k = (b\<lparr>fd := closed_st\<rparr>, if fd b > 0 then k_close K (fd b) k else k)"

definition bfd_delete :: "('k, 'a) kernel \<Rightarrow> bfd \<Rightarrow> 'k \<Rightarrow> 'k" where
  "bfd_delete K b k = snd (bfd_close K b k)"

subsection \<open>Reading\<close>

text \<open>C division rounds towards zero; the difference in milliseconds is cut to 32 bits.\<close>

definition elapsed_ms :: "int \<Rightarrow> nat" where
  "elapsed_ms us = nat ((sgn us * (\<bar>us\<bar> div 1000)) mod 2 ^ 32)"

definition can_read :: "('k, 'a) kernel \<Rightarrow> nat \<Rightarrow> bfd \<Rightarrow> 'k \<Rightarrow> bool \<times> nat \<times> bfd \<times> 'k" where
  "can_read K timeout_ms b k =
     (if fd b \<le> 0 then (False, timeout_ms, b, k)
      else (case k_select K (fd b) timeout_ms k of (err, us, k) \<Rightarrow>
        let timeout_ms =
              (if timeout_ms > 0
               then let dt = elapsed_ms us in if dt > timeout_ms then 0 else timeout_ms - dt
               else timeout_ms)
        in if err < 0 then (False, timeout_ms, b\<lparr>fd := fd_error\<rparr>, k_close K (fd b) k)
           else if err = 0 then (False, timeout_ms, b, k)
           else (True, timeout_ms, b, k)))"

text \<open>The variables of the reading loop: the object, the system, and the locals.\<close>

record ('k, 'a) reading =
  r_bfd :: bfd
  r_k :: 'k
  r_from :: 'a
  r_timeout :: nat
  r_amount :: nat
  r_ret :: nat

text \<open>
  One round of the loop: a fault, or \<open>True\<close> for a \<^verbatim>\<open>break\<close> and \<open>False\<close> for another round. The
  system call writes the bytes it returns to the region.
\<close>

definition read_round ::
  "('k, 'a) kernel \<Rightarrow> malloc_fn \<Rightarrow> int \<Rightarrow> ('k, 'a) reading \<Rightarrow> bfd_fault + (bool \<times> ('k, 'a) reading)" where
  "read_round K mal op_type s =
     (case rd_reserve mal bfd_max_size (r_amount s) (rbuf (r_bfd s)) of
        (rb, tmp) \<Rightarrow>
          let b = (r_bfd s)\<lparr>rbuf := rb\<rparr>
          in if rr_bytes tmp = 0 then Inr (True, s\<lparr>r_bfd := b\<rparr>)
             else (case can_read K (r_timeout s) b (r_k s) of
               (can, timeout_ms, b, k) \<Rightarrow>
                 let s = s\<lparr>r_bfd := b, r_k := k, r_timeout := timeout_ms\<rparr>
                 in if \<not> can
                    then Inr (True, s\<lparr>r_bfd := b\<lparr>rbuf := fst (rd_adjust mal 0 tmp (rbuf b))\<rparr>\<rparr>)
                    else if op_type \<notin> {read_op, recv_op, recvfrom_op} then Inl Unknown_op
                    else (case k_recv K op_type (fd b) (rr_bytes tmp) k of
                      (None, from, k) \<Rightarrow>
                        Inr (True, s\<lparr>r_bfd := b\<lparr>fd := fd_error, rbuf := fst (rd_adjust mal 0 tmp (rbuf b))\<rparr>,
                                     r_k := k_close K (fd b) k\<rparr>)
                    | (Some d, from, k) \<Rightarrow>
                        let s = s\<lparr>r_k := k, r_from := if op_type = recvfrom_op then from else r_from s\<rparr>
                        in (case rr_store tmp d (rbuf b) of
                              Inl f \<Rightarrow> Inl (Mem f)
                            | Inr rb \<Rightarrow>
                                if d = [] then
                                  Inr (True, s\<lparr>r_bfd := b\<lparr>fd := closed_st, rbuf := fst (rd_adjust mal 0 tmp rb)\<rparr>,
                                               r_k := k_close K (fd b) k\<rparr>)
                                else if length d = rr_bytes tmp then
                                  Inr (False, s\<lparr>r_bfd := b\<lparr>rbuf := rb\<rparr>, r_amount := w64 (r_amount s * 2),
                                                r_ret := w64 (r_ret s + length d)\<rparr>)
                                else
                                  Inr (True, s\<lparr>r_bfd := b\<lparr>rbuf := fst (rd_adjust mal (length d) tmp rb)\<rparr>,
                                               r_ret := w64 (r_ret s + length d)\<rparr>)))))"

partial_function (option) read_loop ::
  "('k, 'a) kernel \<Rightarrow> malloc_fn \<Rightarrow> int \<Rightarrow> ('k, 'a) reading \<Rightarrow> (bfd_fault + ('k, 'a) reading) option" where
  "read_loop K mal op_type s =
     (case read_round K mal op_type s of
        Inl f \<Rightarrow> Some (Inl f)
      | Inr (stop, s) \<Rightarrow> if stop then Some (Inr s) else read_loop K mal op_type s)"

definition read_amount :: "rdbuf \<Rightarrow> nat" where
  "read_amount b =
     (if rd_buflen b < bfd_preallocated_size then bfd_preallocated_size - rd_buflen b
      else w64 ((rd_buflen b div bfd_preallocated_size + 4) * bfd_preallocated_size))"

definition internal_read ::
  "('k, 'a) kernel \<Rightarrow> malloc_fn \<Rightarrow> int \<Rightarrow> 'a \<Rightarrow> nat \<Rightarrow> bfd \<Rightarrow> 'k \<Rightarrow> (bfd_fault + ('k, 'a) reading) option" where
  "internal_read K mal op_type from timeout_ms b k =
     (let s = \<lparr>r_bfd = b, r_k = k, r_from = from, r_timeout = timeout_ms, r_amount = 0, r_ret = 0\<rparr>
      in if fd b \<le> 0 then Some (Inr s)
         else read_loop K mal op_type (s\<lparr>r_amount := read_amount (rbuf b)\<rparr>))"

definition read_some where
  "read_some K mal sai timeout_ms b k = internal_read K mal read_op sai timeout_ms b k"

definition recv_some where
  "recv_some K mal sai timeout_ms b k = internal_read K mal recv_op sai timeout_ms b k"

definition recvfrom_some where
  "recvfrom_some K mal from timeout_ms b k = internal_read K mal recvfrom_op from timeout_ms b k"

text \<open>\<^verbatim>\<open>read\<close>, \<^verbatim>\<open>recv\<close> and \<^verbatim>\<open>recvfrom\<close> have the same body for their \<^verbatim>\<open>op_type\<close>.\<close>

definition read_via ::
  "int \<Rightarrow> ('k, 'a) kernel \<Rightarrow> malloc_fn \<Rightarrow> nat \<Rightarrow> 'a \<Rightarrow> nat \<Rightarrow> bfd \<Rightarrow> 'k \<Rightarrow>
   (bfd_fault + ('k, 'a) reading \<times> read_res) option" where
  "read_via op_type K mal sz from timeout_ms b k =
     (let s = \<lparr>r_bfd = b, r_k = k, r_from = from, r_timeout = timeout_ms, r_amount = 0, r_ret = 0\<rparr>;
          get = (\<lambda>s. case rd_get sz (rbuf (r_bfd s)) of (rb, rr) \<Rightarrow> (s\<lparr>r_bfd := (r_bfd s)\<lparr>rbuf := rb\<rparr>\<rparr>, rr))
      in if bfd_size b > 0 then Some (Inr (get s))
         else if fd b \<le> 0 then Some (Inr (s, rr_reset\<lparr>rr_failed := True\<rparr>))
         else map_option
           (\<lambda>r. case r of
              Inl f \<Rightarrow> Inl f
            | Inr s \<Rightarrow>
                Inr (if r_ret s > 0 then get s
                     else if r_timeout s = 0 then (s, rr_reset\<lparr>rr_timed_out := True\<rparr>)
                     else (s, rr_reset)))
           (internal_read K mal op_type from timeout_ms b k))"

definition bfd_read where
  "bfd_read K mal sz sai timeout_ms b k = read_via read_op K mal sz sai timeout_ms b k"

definition bfd_recv where
  "bfd_recv K mal sz sai timeout_ms b k = read_via recv_op K mal sz sai timeout_ms b k"

definition bfd_recvfrom where
  "bfd_recvfrom K mal sz from timeout_ms b k = read_via recvfrom_op K mal sz from timeout_ms b k"

definition read_buf :: "nat \<Rightarrow> bfd \<Rightarrow> bfd \<times> read_res \<times> bool" where
  "read_buf sz b = (case rd_get sz (rbuf b) of (rb, res) \<Rightarrow> (b\<lparr>rbuf := rb\<rparr>, res, rr_bytes res > 0))"

subsection \<open>Writing\<close>

text \<open>\<open>None\<close> is a null pointer \<^verbatim>\<open>data\<close>.\<close>

definition bfd_write :: "('k, 'a) kernel \<Rightarrow> u8 list option \<Rightarrow> nat \<Rightarrow> bfd \<Rightarrow> 'k \<Rightarrow> bool \<times> bfd \<times> 'k" where
  "bfd_write K data sz b k =
     (case data of
        None \<Rightarrow> (False, b, k)
      | Some d \<Rightarrow>
          if sz = 0 then (False, b, k)
          else if fd b \<le> 0 then (False, b, k)
          else (case k_send K read_op None (fd b) (take sz d) k of (err, k) \<Rightarrow>
            if err < 0 then (False, b\<lparr>fd := fd_error\<rparr>, k_close K (fd b) k)
            else if err = 0 then (False, b, k)
            else (True, b, k)))"

definition bfd_send :: "('k, 'a) kernel \<Rightarrow> u8 list option \<Rightarrow> nat \<Rightarrow> bfd \<Rightarrow> 'k \<Rightarrow> bool \<times> bfd \<times> 'k" where
  "bfd_send K data sz b k =
     (case data of
        None \<Rightarrow> (False, b, k)
      | Some d \<Rightarrow>
          if sz = 0 then (False, b, k)
          else if fd b \<le> 0 then (False, b, k)
          else (case k_send K recv_op None (fd b) (take sz d) k of (err, k) \<Rightarrow>
            if err < 0 then (False, b\<lparr>fd := fd_error\<rparr>, k_close K (fd b) (k_shutdown K (fd b) k))
            else if err = 0 then (False, b\<lparr>fd := closed_st\<rparr>, k_close K (fd b) (k_shutdown K (fd b) k))
            else (True, b, k)))"

definition bfd_sendto :: "('k, 'a) kernel \<Rightarrow> u8 list option \<Rightarrow> nat \<Rightarrow> 'a \<Rightarrow> bfd \<Rightarrow> 'k \<Rightarrow> bool \<times> bfd \<times> 'k" where
  "bfd_sendto K data sz to b k =
     (case data of
        None \<Rightarrow> (False, b, k)
      | Some d \<Rightarrow>
          if sz = 0 then (False, b, k)
          else if fd b \<le> 0 then (False, b, k)
          else (case k_send K recvfrom_op (Some to) (fd b) (take sz d) k of (err, k) \<Rightarrow>
            if err < 0 then (False, b\<lparr>fd := fd_error\<rparr>, k_close K (fd b) (k_shutdown K (fd b) k))
            else if err = 0 then (False, b\<lparr>fd := closed_st\<rparr>, k_close K (fd b) (k_shutdown K (fd b) k))
            else (True, b, k)))"

subsection \<open>Specification\<close>

text \<open>
  What the system calls promise: no call returns more bytes than asked for, and
  \<open>delivered\<close> is the list of all bytes the reading calls have returned so far. \<open>closes\<close> is
  the list of the descriptors closed so far.
\<close>

definition kernel_reads :: "('k, 'a) kernel \<Rightarrow> ('k \<Rightarrow> u8 list) \<Rightarrow> bool" where
  "kernel_reads K delivered \<longleftrightarrow>
     (\<forall>op f n k. case k_recv K op f n k of
        (None, a, k') \<Rightarrow> delivered k' = delivered k
      | (Some d, a, k') \<Rightarrow> length d \<le> n \<and> delivered k' = delivered k @ d) \<and>
     (\<forall>f t k. delivered (snd (snd (k_select K f t k))) = delivered k) \<and>
     (\<forall>op a f d k. delivered (snd (k_send K op a f d k)) = delivered k) \<and>
     (\<forall>f k. delivered (k_close K f k) = delivered k) \<and> (\<forall>f k. delivered (k_shutdown K f k) = delivered k)"

definition kernel_closes :: "('k, 'a) kernel \<Rightarrow> ('k \<Rightarrow> int list) \<Rightarrow> bool" where
  "kernel_closes K closes \<longleftrightarrow>
     (\<forall>op f n k. closes (snd (snd (k_recv K op f n k))) = closes k) \<and>
     (\<forall>f t k. closes (snd (snd (k_select K f t k))) = closes k) \<and>
     (\<forall>op a f d k. closes (snd (k_send K op a f d k)) = closes k) \<and>
     (\<forall>f k. closes (k_close K f k) = closes k @ [f]) \<and> (\<forall>f k. closes (k_shutdown K f k) = closes k)"

definition kernel_ok :: "('k, 'a) kernel \<Rightarrow> ('k \<Rightarrow> u8 list) \<Rightarrow> ('k \<Rightarrow> int list) \<Rightarrow> bool" where
  "kernel_ok K delivered closes \<longleftrightarrow> kernel_reads K delivered \<and> kernel_closes K closes"

text \<open>
  The calls of a client, the states in which they are permitted (\<^verbatim>\<open>read_some\<close> and its variants
  only while no part of the buffered data was fetched) and their effect; \<open>None\<close> is a memory
  fault, an exception or no return.
\<close>

datatype 'a bfd_call =
    Read nat 'a nat | Recv nat 'a nat | Recvfrom nat 'a nat
  | Read_some 'a nat | Recv_some 'a nat | Recvfrom_some 'a nat | Read_buf nat
  | Write "u8 list option" nat | Send "u8 list option" nat | Sendto "u8 list option" nat 'a
  | Shutdown | Close | Init int

definition call_permitted :: "'a bfd_call \<Rightarrow> bfd \<times> 'k \<Rightarrow> bool" where
  "call_permitted q s =
     (case q of Read_some _ _ \<Rightarrow> start (rbuf (fst s)) = 0 | Recv_some _ _ \<Rightarrow> start (rbuf (fst s)) = 0
      | Recvfrom_some _ _ \<Rightarrow> start (rbuf (fst s)) = 0 | _ \<Rightarrow> True)"

definition of_read :: "(bfd_fault + ('k, 'a) reading \<times> read_res) option \<Rightarrow> ((bfd \<times> 'k) \<times> u8 list) option" where
  "of_read r = (case r of Some (Inr (s, rr)) \<Rightarrow> Some ((r_bfd s, r_k s), rr_view rr (rbuf (r_bfd s))) | _ \<Rightarrow> None)"

definition of_some :: "(bfd_fault + ('k, 'a) reading) option \<Rightarrow> ((bfd \<times> 'k) \<times> u8 list) option" where
  "of_some r = (case r of Some (Inr s) \<Rightarrow> Some ((r_bfd s, r_k s), []) | _ \<Rightarrow> None)"

definition bfd_call ::
  "('k, 'a) kernel \<Rightarrow> malloc_fn \<Rightarrow> 'a bfd_call \<Rightarrow> bfd \<times> 'k \<Rightarrow> ((bfd \<times> 'k) \<times> u8 list) option" where
  "bfd_call K mal q s =
     (case s of (b, k) \<Rightarrow>
       (case q of
          Read sz a t \<Rightarrow> of_read (bfd_read K mal sz a t b k)
        | Recv sz a t \<Rightarrow> of_read (bfd_recv K mal sz a t b k)
        | Recvfrom sz a t \<Rightarrow> of_read (bfd_recvfrom K mal sz a t b k)
        | Read_some a t \<Rightarrow> of_some (read_some K mal a t b k)
        | Recv_some a t \<Rightarrow> of_some (recv_some K mal a t b k)
        | Recvfrom_some a t \<Rightarrow> of_some (recvfrom_some K mal a t b k)
        | Read_buf sz \<Rightarrow> (case read_buf sz b of (b, rr, _) \<Rightarrow> Some ((b, k), rr_view rr (rbuf b)))
        | Write d sz \<Rightarrow> Some (snd (bfd_write K d sz b k), [])
        | Send d sz \<Rightarrow> Some (snd (bfd_send K d sz b k), [])
        | Sendto d sz a \<Rightarrow> Some (snd (bfd_sendto K d sz a b k), [])
        | Shutdown \<Rightarrow> Some (bfd_shutdown K b k, [])
        | Close \<Rightarrow> Some (bfd_close K b k, [])
        | Init f \<Rightarrow> Some ((bfd_init f b, k), [])))"

subsection \<open>Correctness\<close>

lemmas bfd_consts = read_op_def recv_op_def recvfrom_op_def closed_st_def fd_error_def bfd_max_size_def
  bfd_preallocated_size_def

lemma kernel_recv:
  assumes "kernel_reads K delivered" and "k_recv K op f n k = (r, a, k')"
  shows "case r of None \<Rightarrow> delivered k' = delivered k | Some d \<Rightarrow> length d \<le> n \<and> delivered k' = delivered k @ d"
proof -
  note assms(1) [unfolded kernel_reads_def, THEN conjunct1, rule_format, where op = op and f = f and n = n and k = k]
  then show ?thesis using assms(2) by (simp split: option.splits)
qed

lemma kernel_silent:
  assumes "kernel_reads K delivered"
  shows "delivered (k_close K f k) = delivered k" "delivered (k_shutdown K f k) = delivered k"
    "delivered (snd (k_send K op to f d k)) = delivered k" "delivered (snd (snd (k_select K f t k))) = delivered k"
  using assms unfolding kernel_reads_def by blast+

lemma can_read_shape:
  assumes "can_read K t b k = (c, t', b', k')"
  shows "rbuf b' = rbuf b \<and> (c \<longrightarrow> b' = b \<and> 0 < fd b) \<and>
    (kernel_reads K delivered \<longrightarrow> delivered k' = delivered k) \<and>
    (kernel_closes K closes \<longrightarrow>
      (b' = b \<and> closes k' = closes k) \<or> (0 < fd b \<and> fd b' = fd_error \<and> closes k' = closes k @ [fd b]))"
proof (cases "fd b \<le> 0")
  case False
  obtain e us k2 where s: "k_select K (fd b) t k = (e, us, k2)" by (cases "k_select K (fd b) t k")
  have d: "delivered k2 = delivered k" if "kernel_reads K delivered"
    using that s unfolding kernel_reads_def by (metis snd_conv)
  have c: "closes k2 = closes k" if "kernel_closes K closes"
    using that s unfolding kernel_closes_def by (metis snd_conv)
  show ?thesis
    using assms False s d c
    by (auto simp: can_read_def Let_def kernel_reads_def kernel_closes_def split: if_splits)
qed (use assms in \<open>auto simp: can_read_def\<close>)

text \<open>
  The reading loop ends: a round that is followed by another has filled its region, so the data
  has grown, and at the maximal size no region is left. \<open>amount_ok\<close> bounds \<^verbatim>\<open>read_amount\<close>.
\<close>

definition amount_ok :: "('k, 'a) reading \<Rightarrow> bool" where
  "amount_ok s \<longleftrightarrow> start (rbuf (r_bfd s)) + len (rbuf (r_bfd s)) \<le> bfd_max_size \<and>
     (r_amount s \<le> 2 ^ 62 \<or>
      start (rbuf (r_bfd s)) + len (rbuf (r_bfd s)) = bfd_max_size \<and> r_amount s \<le> 2 ^ 63)"

lemma rr_store_shape: "rr_store rr d b = Inr b' \<Longrightarrow> start b' = start b \<and> len b' = len b"
  by (auto simp: rr_store_def Let_def split: if_splits rptr.splits)

lemma rd_reserve_shape:
  assumes "rd_reserve mal mx sz b = (b', rr)" and "rr_bytes rr \<noteq> 0" and "start b + len b \<le> mx" and "sz + mx < 2 ^ 64"
  shows "start b' = start b \<and> len b < len b' \<and> start b' + len b' \<le> mx \<and> (sz \<le> mx \<or> start b' + len b' = mx)"
proof -
  have w: "w64 (start b + len b + sz) = start b + len b + sz" "w64 (start b + len b) = start b + len b"
    "w64 (len b + sz) = len b + sz" using assms(3,4) by simp_all
  show ?thesis
  proof (cases "start b + len b + sz > mx")
    case True
    then show ?thesis
      using assms w by (auto simp: rd_reserve_def rr_reset_def split: if_splits prod.splits)
  next
    case False
    then show ?thesis
      using assms w by (auto simp: rd_reserve_def rr_reset_def split: if_splits prod.splits)
  qed
qed

lemma read_round_grows:
  assumes "read_round K mal op_type s = Inr (False, s')" and "amount_ok s"
  shows "amount_ok s' \<and> len (rbuf (r_bfd s)) < len (rbuf (r_bfd s')) \<and> start (rbuf (r_bfd s')) = start (rbuf (r_bfd s))"
proof -
  let ?b = "rbuf (r_bfd s)"
  obtain rb tmp where r: "rd_reserve mal bfd_max_size (r_amount s) ?b = (rb, tmp)"
    by (cases "rd_reserve mal bfd_max_size (r_amount s) ?b")
  obtain c t b k where c: "can_read K (r_timeout s) ((r_bfd s)\<lparr>rbuf := rb\<rparr>) (r_k s) = (c, t, b, k)"
    by (cases "can_read K (r_timeout s) ((r_bfd s)\<lparr>rbuf := rb\<rparr>) (r_k s)") auto
  obtain d a k' where v: "k_recv K op_type (fd b) (rr_bytes tmp) k = (d, a, k')"
    by (cases "k_recv K op_type (fd b) (rr_bytes tmp) k")
  have rb: "rbuf b = rb" using can_read_shape [OF c] by simp
  obtain e rb2 where s: "rr_bytes tmp \<noteq> 0" "d = Some e" "rr_store tmp e rb = Inr rb2"
    "r_bfd s' = b\<lparr>rbuf := rb2\<rparr>" "r_amount s' = w64 (r_amount s * 2)"
    using assms(1) r c v rb
    by (auto simp: read_round_def Let_def split: if_splits option.splits sum.splits)
  have a: "start ?b + len ?b \<le> bfd_max_size" "r_amount s + bfd_max_size < 2 ^ 64"
    using assms(2) by (auto simp: amount_ok_def bfd_max_size_def)
  note sh = rd_reserve_shape [OF r s(1) a]
  have am: "r_amount s \<le> 2 ^ 62"
    using assms(2) sh by (auto simp: amount_ok_def)
  then have "r_amount s' = r_amount s * 2" using s(5) by simp
  then show ?thesis
    using sh rr_store_shape [OF s(3)] s(4) am by (auto simp: amount_ok_def bfd_max_size_def)
qed

text \<open>Total correctness of the loop: an invariant of its rounds holds when it ends, and it ends.\<close>

lemma read_loop_rule:
  assumes "amount_ok s" and "I s"
    and round: "\<And>s. amount_ok s \<Longrightarrow> I s \<Longrightarrow>
      \<exists>stop s'. read_round K mal op_type s = Inr (stop, s') \<and> (if stop then Q s' else I s')"
  shows "\<exists>s'. read_loop K mal op_type s = Some (Inr s') \<and> Q s'"
  using assms(1,2)
proof (induction "bfd_max_size - len (rbuf (r_bfd s))" arbitrary: s rule: less_induct)
  case less
  obtain stop s' where r: "read_round K mal op_type s = Inr (stop, s')" "if stop then Q s' else I s'"
    using round [OF less.prems] by blast
  show ?case
  proof (cases stop)
    case True
    with r show ?thesis by (subst read_loop.simps) simp
  next
    case False
    have g: "amount_ok s'" "len (rbuf (r_bfd s)) < len (rbuf (r_bfd s'))"
      using read_round_grows [of K mal op_type s s'] r(1) False less.prems(1) by simp_all
    then have "bfd_max_size - len (rbuf (r_bfd s')) < bfd_max_size - len (rbuf (r_bfd s))"
      by (auto simp: amount_ok_def)
    from less.hyps [OF this g(1)] r False show ?thesis by (subst read_loop.simps) simp
  qed
qed

text \<open>The loop returns whatever the buffer's state and whatever the system answers.\<close>

lemma read_loop_returns:
  assumes "amount_ok s"
  shows "\<exists>r. read_loop K mal op_type s = Some r"
  using assms
proof (induction "bfd_max_size - len (rbuf (r_bfd s))" arbitrary: s rule: less_induct)
  case less
  show ?case
  proof (cases "\<exists>s'. read_round K mal op_type s = Inr (False, s')")
    case True
    then obtain s' where r: "read_round K mal op_type s = Inr (False, s')" by blast
    note g = read_round_grows [OF r less.prems]
    then have "bfd_max_size - len (rbuf (r_bfd s')) < bfd_max_size - len (rbuf (r_bfd s))"
      by (auto simp: amount_ok_def)
    from less.hyps [OF this] g r show ?thesis by (subst read_loop.simps) simp
  next
    case False
    then show ?thesis by (subst read_loop.simps) (auto split: sum.split)
  qed
qed

text \<open>How a call leaves the descriptor: as it was, or closed once and no longer valid.\<close>

definition fd_step :: "('k \<Rightarrow> int list) \<Rightarrow> bfd \<Rightarrow> 'k \<Rightarrow> bfd \<Rightarrow> 'k \<Rightarrow> bool" where
  "fd_step closes b k b' k' \<longleftrightarrow>
     (fd b' = fd b \<and> closes k' = closes k) \<or>
     (fd b' \<le> 0 \<and> closes k' = closes k @ (if 0 < fd b then [fd b] else []))"

lemma fd_step_trans: "fd_step closes b k b1 k1 \<Longrightarrow> fd_step closes b1 k1 b2 k2 \<Longrightarrow> fd_step closes b k b2 k2"
  by (auto simp: fd_step_def split: if_splits)

lemma fd_step_refl [simp]: "fd_step closes b k b k"
  by (simp add: fd_step_def)

text \<open>
  The state of an idle buffer while the loop runs, relative to the contents \<open>c\<close> and the system
  \<open>k0\<close> at its start: everything delivered since is in the buffer.
\<close>

definition round_inv :: "('k \<Rightarrow> u8 list) \<Rightarrow> u8 list \<Rightarrow> 'k \<Rightarrow> ('k, 'a) reading \<Rightarrow> bool" where
  "round_inv delivered c k0 s \<longleftrightarrow>
     rd_ok bfd_max_size (rbuf (r_bfd s)) \<and> start (rbuf (r_bfd s)) = 0 \<and>
     (\<exists>new. rd_cont (rbuf (r_bfd s)) = c @ new \<and> delivered (r_k s) = delivered k0 @ new \<and> r_ret s = w64 (length new))"

lemma w64_add: "w64 (w64 a + b) = w64 (a + b)"
  by (simp add: w64_def mod_add_left_eq)

lemma round_inv_add:
  assumes "round_inv delivered c k0 s" and "rd_ok bfd_max_size (rbuf b)" and "start (rbuf b) = 0"
    and "rd_cont (rbuf b) = rd_cont (rbuf (r_bfd s)) @ d" and "delivered k = delivered (r_k s) @ d"
    and "r = w64 (r_ret s + length d)"
  shows "round_inv delivered c k0 (s\<lparr>r_bfd := b, r_k := k, r_ret := r, r_from := a, r_timeout := t, r_amount := m\<rparr>)"
proof -
  obtain new where "rd_cont (rbuf (r_bfd s)) = c @ new" "delivered (r_k s) = delivered k0 @ new" "r_ret s = w64 (length new)"
    using assms(1) unfolding round_inv_def by blast
  then have "rd_cont (rbuf b) = c @ (new @ d)" "delivered k = delivered k0 @ (new @ d)" "r = w64 (length (new @ d))"
    using assms(4-6) by (simp_all add: w64_add)
  then show ?thesis using assms(2,3) unfolding round_inv_def by auto
qed

lemma round_inv_keep:
  assumes "round_inv delivered c k0 s" and "rd_ok bfd_max_size (rbuf b) \<and> start (rbuf b) = 0 \<and>
      rd_cont (rbuf b) = rd_cont (rbuf (r_bfd s))" and "delivered k = delivered (r_k s)"
  shows "round_inv delivered c k0 (s\<lparr>r_bfd := b, r_k := k, r_from := a, r_timeout := t\<rparr>)"
proof -
  have "r_ret s = w64 (r_ret s)" using assms(1) by (auto simp: round_inv_def w64_def)
  then show ?thesis
    using round_inv_add [OF assms(1), where b = b and d = "[]" and k = k and r = "r_ret s" and a = a and t = t and m = "r_amount s"] assms(2,3) by simp
qed

lemma read_round_ok:
  assumes m: "mal_gives mal" and K: "kernel_reads K delivered" and op: "op_type \<in> {read_op, recv_op, recvfrom_op}"
    and am: "amount_ok s" "0 < r_amount s" and I: "round_inv delivered c k0 s"
  shows "\<exists>stop s'. read_round K mal op_type s = Inr (stop, s') \<and> round_inv delivered c k0 s' \<and>
    (\<not> stop \<longrightarrow> 0 < r_amount s')"
proof -
  let ?b = "rbuf (r_bfd s)"
  have b: "rd_ok bfd_max_size ?b" "start ?b = 0" "len ?b \<le> bfd_max_size"
    and sz: "r_amount s + bfd_max_size < 2 ^ 64" and mx: "bfd_max_size < 2 ^ 64"
    using I am by (auto simp: round_inv_def amount_ok_def bfd_max_size_def)
  show ?thesis
  proof (cases "len ?b < bfd_max_size")
    case False
    then have "rd_reserve mal bfd_max_size (r_amount s) ?b = (?b, rr_reset\<lparr>rr_failed := True\<rparr>)"
      using b am(2) sz by (intro rd_reserve_full) auto
    then show ?thesis using I by (auto simp: read_round_def rr_reset_def)
  next
    case True
    define n where "n = min (r_amount s) (bfd_max_size - len ?b)"
    define rr where "rr = rr_reset\<lparr>rr_data := Rbuf (len ?b), rr_bytes := n\<rparr>"
    obtain b1 where 1: "rd_reserve mal bfd_max_size (r_amount s) ?b = (b1, rr)"
      "rd_ok bfd_max_size b1" "start b1 = 0" "len b1 = len ?b + n" "bsize (buf b1) = len ?b + n"
      "take (len ?b) (bdata (buf b1)) = rd_cont ?b"
      using rd_reserve_idle [OF b(1) m b(2) True am(2) sz] unfolding rr_def n_def by metis
    have n: "0 < n" "rr_bytes rr = n" using True am(2) by (simp_all add: n_def rr_def)
    note fill = rd_fill_idle [OF 1(2-6) rd_cont_length [OF b(1)] _ n(1) mx rr_def, of _ mal]
    let ?b1 = "(r_bfd s)\<lparr>rbuf := b1\<rparr>"
    obtain can t b' k where c: "can_read K (r_timeout s) ?b1 (r_k s) = (can, t, b', k)"
      by (cases "can_read K (r_timeout s) ?b1 (r_k s)") auto
    have cs: "rbuf b' = b1" "can \<longrightarrow> b' = ?b1" "delivered k = delivered (r_k s)"
      using can_read_shape [OF c, of delivered] K by auto
    have none: "rd_ok bfd_max_size (fst (rd_adjust mal 0 rr b1)) \<and> start (fst (rd_adjust mal 0 rr b1)) = 0 \<and>
        rd_cont (fst (rd_adjust mal 0 rr b1)) = rd_cont ?b"
      by (rule fill [of "[]"]) (simp_all add: rr_store_def)
    show ?thesis
    proof (cases can)
      case False
      have "read_round K mal op_type s = Inr (True, s\<lparr>r_bfd := b'\<lparr>rbuf := fst (rd_adjust mal 0 rr b1)\<rparr>, r_k := k, r_timeout := t\<rparr>)"
        using 1(1) c n cs False by (simp add: read_round_def Let_def)
      moreover have "round_inv delivered c k0
          (s\<lparr>r_bfd := b'\<lparr>rbuf := fst (rd_adjust mal 0 rr b1)\<rparr>, r_k := k, r_from := r_from s, r_timeout := t\<rparr>)"
        using none cs(3) by (intro round_inv_keep [OF I]) simp_all
      ultimately show ?thesis by auto
    next
      case True
      obtain r a k' where v: "k_recv K op_type (fd (r_bfd s)) n k = (r, a, k')"
        by (cases "k_recv K op_type (fd (r_bfd s)) n k")
      let ?a = "if op_type = recvfrom_op then a else r_from s"
      show ?thesis
      proof (cases r)
        case None
        have "delivered (k_close K (fd (r_bfd s)) k') = delivered (r_k s)"
          using kernel_recv [OF K v] kernel_silent(1) [OF K] None cs(3) by simp
        moreover have "read_round K mal op_type s = Inr (True, s\<lparr>r_bfd := ?b1\<lparr>fd := fd_error, rbuf := fst (rd_adjust mal 0 rr b1)\<rparr>,
            r_k := k_close K (fd (r_bfd s)) k', r_from := r_from s, r_timeout := t\<rparr>)"
          using 1(1) c n cs True op v None by (simp add: read_round_def Let_def)
        ultimately show ?thesis
          using round_inv_keep [OF I, where b = "?b1\<lparr>fd := fd_error, rbuf := fst (rd_adjust mal 0 rr b1)\<rparr>" and k = "k_close K (fd (r_bfd s)) k'" and a = "r_from s" and t = t] none by auto
      next
        case (Some d)
        have d: "length d \<le> n" "delivered k' = delivered (r_k s) @ d"
          using kernel_recv [OF K v] Some cs(3) by simp_all
        obtain b2 where 2: "rr_store rr d b1 = Inr b2" "length d = n \<Longrightarrow> rd_ok bfd_max_size b2 \<and> start b2 = 0 \<and> rd_cont b2 = rd_cont ?b @ d"
          "rd_ok bfd_max_size (fst (rd_adjust mal (length d) rr b2))" "start (fst (rd_adjust mal (length d) rr b2)) = 0"
          "rd_cont (fst (rd_adjust mal (length d) rr b2)) = rd_cont ?b @ d"
          using fill [OF d(1)] by metis
        note go = 1(1) c n cs True op v Some 2(1)
        consider "d = []" | "d \<noteq> []" "length d = n" | "d \<noteq> []" "length d \<noteq> n" by blast
        then show ?thesis
        proof cases
          case 1
          have "read_round K mal op_type s = Inr (True, s\<lparr>r_bfd := ?b1\<lparr>fd := closed_st, rbuf := fst (rd_adjust mal 0 rr b2)\<rparr>,
              r_k := k_close K (fd (r_bfd s)) k', r_from := ?a, r_timeout := t\<rparr>)"
            using go 1 by (simp add: read_round_def Let_def)
          moreover have "delivered (k_close K (fd (r_bfd s)) k') = delivered (r_k s)"
            using d(2) 1 kernel_silent(1) [OF K] by simp
          ultimately show ?thesis
            using round_inv_keep [OF I, where b = "?b1\<lparr>fd := closed_st, rbuf := fst (rd_adjust mal 0 rr b2)\<rparr>" and k = "k_close K (fd (r_bfd s)) k'" and a = "?a" and t = t] 2(3-5) 1 by auto
        next
          case 2
          note full = \<open>length d = n \<Longrightarrow> rd_ok bfd_max_size b2 \<and> start b2 = 0 \<and> rd_cont b2 = rd_cont ?b @ d\<close> [OF 2(2)]
          have "read_round K mal op_type s = Inr (False, s\<lparr>r_bfd := ?b1\<lparr>rbuf := b2\<rparr>, r_k := k', r_ret := w64 (r_ret s + length d),
              r_from := ?a, r_timeout := t, r_amount := w64 (r_amount s * 2)\<rparr>)"
            using go 2 by (simp add: read_round_def Let_def)
          moreover have "0 < w64 (r_amount s * 2)" using am b(2) \<open>len ?b < bfd_max_size\<close> by (auto simp: amount_ok_def)
          ultimately show ?thesis
            using round_inv_add [OF I, where b = "?b1\<lparr>rbuf := b2\<rparr>" and d = d and k = k' and a = "?a" and t = t and m = "w64 (r_amount s * 2)"] full d(2) by auto
        next
          case 3
          have "read_round K mal op_type s = Inr (True, s\<lparr>r_bfd := ?b1\<lparr>rbuf := fst (rd_adjust mal (length d) rr b2)\<rparr>,
              r_k := k', r_ret := w64 (r_ret s + length d), r_from := ?a, r_timeout := t, r_amount := r_amount s\<rparr>)"
            using go 3 by (simp add: read_round_def Let_def)
          then show ?thesis
            using round_inv_add [OF I, where b = "?b1\<lparr>rbuf := fst (rd_adjust mal (length d) rr b2)\<rparr>" and d = d and k = k' and a = "?a" and t = t and m = "r_amount s"]
              2(3-5) d(2) by auto
        qed
      qed
    qed
  qed
qed

lemma kernel_logs:
  assumes "kernel_closes K closes"
  shows "closes (snd (snd (k_recv K op f n k))) = closes k" "closes (k_close K f k) = closes k @ [f]"
    "closes (k_shutdown K f k) = closes k" "closes (snd (k_send K op to f d k)) = closes k"
  using assms unfolding kernel_closes_def by blast+

lemma read_round_fd:
  assumes C: "kernel_closes K closes" and r: "read_round K mal op_type s = Inr (stop, s')"
  shows "fd_step closes (r_bfd s) (r_k s) (r_bfd s') (r_k s')"
proof -
  obtain rb tmp where rs: "rd_reserve mal bfd_max_size (r_amount s) (rbuf (r_bfd s)) = (rb, tmp)"
    by (cases "rd_reserve mal bfd_max_size (r_amount s) (rbuf (r_bfd s))")
  define b1 where "b1 = (r_bfd s)\<lparr>rbuf := rb\<rparr>"
  have b1: "fd b1 = fd (r_bfd s)" by (simp add: b1_def)
  obtain c t b k where c: "can_read K (r_timeout s) b1 (r_k s) = (c, t, b, k)"
    by (cases "can_read K (r_timeout s) b1 (r_k s)") auto
  obtain d a k' where v: "k_recv K op_type (fd b) (rr_bytes tmp) k = (d, a, k')"
    by (cases "k_recv K op_type (fd b) (rr_bytes tmp) k")
  have cl: "closes k' = closes k" using kernel_logs(1) [OF C, of op_type "fd b" "rr_bytes tmp" k] v by simp
  have cr: "fd_step closes (r_bfd s) (r_k s) b k" "c \<Longrightarrow> fd b = fd (r_bfd s) \<and> 0 < fd (r_bfd s) \<and> closes k = closes (r_k s)"
    using can_read_shape [OF c, of "\<lambda>_. []" closes] C b1 by (auto simp: fd_step_def fd_error_def)
  show ?thesis
    using r rs c [unfolded b1_def] v cl cr kernel_logs(2) [OF C]
    by (auto simp: read_round_def Let_def fd_step_def fd_error_def closed_st_def
        split: if_splits option.splits sum.splits)
qed

lemma read_amount_ok:
  assumes "rd_ok bfd_max_size b"
  shows "0 < read_amount b" "read_amount b \<le> 2 ^ 62"
proof -
  have b: "bsize (buf b) \<le> bfd_max_size" using assms by (simp add: rd_ok_def)
  moreover have "bsize (buf b) div 512 * 512 \<le> bsize (buf b)" by simp
  ultimately have "(bsize (buf b) div 512 + 4) * 512 \<le> bfd_max_size + 2048" by (simp add: distrib_right)
  then have "w64 ((bsize (buf b) div 512 + 4) * 512) = (bsize (buf b) div 512 + 4) * 512"
    by (intro w64_less) (simp add: bfd_max_size_def)
  with b show "0 < read_amount b" "read_amount b \<le> 2 ^ 62"
    by (auto simp: read_amount_def rd_buflen_def bfd_consts)
qed

lemma internal_read_ok:
  fixes K :: "('k, 'a) kernel"
  assumes m: "mal_gives mal" and K: "kernel_reads K delivered" and C: "kernel_closes K closes"
    and op: "op_type \<in> {read_op, recv_op, recvfrom_op}"
    and b: "rd_ok bfd_max_size (rbuf b)" "start (rbuf b) = 0"
  obtains s new where "internal_read K mal op_type from t b k = Some (Inr s)" "rd_ok bfd_max_size (rbuf (r_bfd s))"
    "start (rbuf (r_bfd s)) = 0" "rd_cont (rbuf (r_bfd s)) = rd_cont (rbuf b) @ new"
    "delivered (r_k s) = delivered k @ new" "r_ret s = length new" "fd_step closes b k (r_bfd s) (r_k s)"
proof -
  let ?I = "\<lambda>s :: ('k, 'a) reading. round_inv delivered (rd_cont (rbuf b)) k s \<and> fd_step closes b k (r_bfd s) (r_k s)"
  define s0 where "s0 = \<lparr>r_bfd = b, r_k = k, r_from = from, r_timeout = t, r_amount = 0, r_ret = 0\<rparr>"
  have I0: "?I (s0\<lparr>r_amount := n\<rparr>)" for n using b by (simp add: s0_def round_inv_def w64_def)
  have i: "internal_read K mal op_type from t b k = (if fd b \<le> 0 then Some (Inr s0)
      else read_loop K mal op_type (s0\<lparr>r_amount := read_amount (rbuf b)\<rparr>))"
    by (simp add: internal_read_def s0_def)
  have "\<exists>s. internal_read K mal op_type from t b k = Some (Inr s) \<and> ?I s"
  proof (cases "fd b \<le> 0")
    case True
    have "s0\<lparr>r_amount := 0\<rparr> = s0" by (simp add: s0_def)
    with I0 [of 0] True show ?thesis by (simp add: i)
  next
    case False
    let ?s = "s0\<lparr>r_amount := read_amount (rbuf b)\<rparr>"
    have "amount_ok ?s" using b read_amount_ok [OF b(1)] by (auto simp: amount_ok_def s0_def rd_ok_def)
    moreover have "?I ?s \<and> 0 < r_amount ?s" using I0 [of "read_amount (rbuf b)"] read_amount_ok [OF b(1)] by simp
    ultimately have "\<exists>s'. read_loop K mal op_type ?s = Some (Inr s') \<and> ?I s'"
    proof (rule read_loop_rule)
      fix s assume s: "amount_ok s" "?I s \<and> 0 < r_amount s"
      obtain stop s' where 1: "read_round K mal op_type s = Inr (stop, s')" "round_inv delivered (rd_cont (rbuf b)) k s'"
        "\<not> stop \<longrightarrow> 0 < r_amount s'"
        using read_round_ok [OF m K op s(1)] s(2) by blast
      moreover have "fd_step closes b k (r_bfd s') (r_k s')"
        using fd_step_trans [OF _ read_round_fd [OF C 1(1)]] s(2) by blast
      ultimately show "\<exists>stop s'. read_round K mal op_type s = Inr (stop, s') \<and>
          (if stop then ?I s' else ?I s' \<and> 0 < r_amount s')" by auto
    qed
    with False show ?thesis by (simp add: i)
  qed
  then obtain s where s: "internal_read K mal op_type from t b k = Some (Inr s)" "?I s" by blast
  then obtain new where n: "rd_ok bfd_max_size (rbuf (r_bfd s))" "start (rbuf (r_bfd s)) = 0"
    "rd_cont (rbuf (r_bfd s)) = rd_cont (rbuf b) @ new" "delivered (r_k s) = delivered k @ new" "r_ret s = w64 (length new)"
    unfolding round_inv_def by blast
  have "length new \<le> bfd_max_size"
    using rd_cont_length [OF n(1)] n(1,3) by (auto simp: rd_ok_def)
  then have "r_ret s = length new" using n(5) by (simp add: bfd_max_size_def)
  with s n that show thesis by blast
qed

lemma rd_drained: "rd_ok mx b \<Longrightarrow> len b = 0 \<Longrightarrow> start b = 0 \<and> rd_cont b = []"
  by (simp add: rd_ok_def rd_cont_def)

lemma read_via_ok:
  assumes m: "mal_gives mal" and K: "kernel_reads K delivered" and C: "kernel_closes K closes"
    and op: "op_type \<in> {read_op, recv_op, recvfrom_op}" and b: "rd_ok bfd_max_size (rbuf b)"
  obtains s rr new where "read_via op_type K mal sz from t b k = Some (Inr (s, rr))" "rd_ok bfd_max_size (rbuf (r_bfd s))"
    "delivered (r_k s) = delivered k @ new" "rd_cont (rbuf b) @ new = rr_view rr (rbuf (r_bfd s)) @ rd_cont (rbuf (r_bfd s))"
    "fd_step closes b k (r_bfd s) (r_k s)"
    "rr_view rr (rbuf (r_bfd s)) = take sz (rd_cont (rbuf b) @ new)"
proof -
  have mx: "bfd_max_size < 2 ^ 64" by (simp add: bfd_max_size_def)
  note g = rd_get_ok [OF _ mx, of _ sz]
  let ?s0 = "\<lparr>r_bfd = b, r_k = k, r_from = from, r_timeout = t, r_amount = 0, r_ret = 0\<rparr>"
  consider "0 < bfd_size b" | "bfd_size b = 0" "fd b \<le> 0" | "bfd_size b = 0" "0 < fd b" by linarith
  then show thesis
  proof cases
    case 1
    obtain rb rr where r: "rd_get sz (rbuf b) = (rb, rr)" by (cases "rd_get sz (rbuf b)")
    show thesis
      by (rule that [of "?s0\<lparr>r_bfd := b\<lparr>rbuf := rb\<rparr>\<rparr>" rr "[]"])
        (use 1 r g [OF b] in \<open>simp_all add: read_via_def Let_def fd_step_def\<close>)
  next
    case 2
    then show thesis
      using that [of ?s0 "rr_reset\<lparr>rr_failed := True\<rparr>" "[]"] b rd_drained [OF b]
      by (simp add: read_via_def Let_def rr_view_def rr_reset_def bfd_size_def)
  next
    case 3
    have d: "start (rbuf b) = 0" "rd_cont (rbuf b) = []" using rd_drained [OF b] 3(1) by (simp_all add: bfd_size_def)
    obtain s new where i: "internal_read K mal op_type from t b k = Some (Inr s)" "rd_ok bfd_max_size (rbuf (r_bfd s))"
      "rd_cont (rbuf (r_bfd s)) = new" "delivered (r_k s) = delivered k @ new" "r_ret s = length new"
      "fd_step closes b k (r_bfd s) (r_k s)"
      using internal_read_ok [OF m K C op b d(1)] d(2) by (metis append_Nil)
    obtain rb rr where r: "rd_get sz (rbuf (r_bfd s)) = (rb, rr)" by (cases "rd_get sz (rbuf (r_bfd s))")
    show thesis
    proof (cases "new = []")
      case True
      then show thesis
        using that [of s "if r_timeout s = 0 then rr_reset\<lparr>rr_timed_out := True\<rparr> else rr_reset" "[]"] 3 i d
        by (simp add: read_via_def Let_def rr_view_def rr_reset_def)
    next
      case False
      show thesis
        by (rule that [of "s\<lparr>r_bfd := (r_bfd s)\<lparr>rbuf := rb\<rparr>\<rparr>" rr new])
          (use 3 i r d False g [OF i(2)] in \<open>auto simp: read_via_def Let_def fd_step_def\<close>)
    qed
  qed
qed

lemma read_buf_ok:
  assumes "rd_ok bfd_max_size (rbuf b)" and "read_buf sz b = (b', rr, r)"
  shows "rd_ok bfd_max_size (rbuf b') \<and> rd_cont (rbuf b) = rr_view rr (rbuf b') @ rd_cont (rbuf b') \<and> fd b' = fd b"
proof -
  have "bfd_max_size < 2 ^ 64" by (simp add: bfd_max_size_def)
  from rd_get_ok [OF assms(1) this, of sz] show ?thesis
    using assms(2) by (cases "rd_get sz (rbuf b)") (auto simp: read_buf_def)
qed

lemma write_ok:
  assumes "kernel_ok K delivered closes"
  shows "\<exists>r b' k'. bfd_write K d sz b k = (r, b', k') \<and> rbuf b' = rbuf b \<and> delivered k' = delivered k \<and> fd_step closes b k b' k'"
    and "\<exists>r b' k'. bfd_send K d sz b k = (r, b', k') \<and> rbuf b' = rbuf b \<and> delivered k' = delivered k \<and> fd_step closes b k b' k'"
    and "\<exists>r b' k'. bfd_sendto K d sz a b k = (r, b', k') \<and> rbuf b' = rbuf b \<and> delivered k' = delivered k \<and> fd_step closes b k b' k'"
proof -
  have K: "kernel_reads K delivered" "kernel_closes K closes" using assms by (auto simp: kernel_ok_def)
  note f = kernel_silent [OF K(1)] kernel_logs [OF K(2)]
  have s: "delivered k' = delivered k \<and> closes k' = closes k" if "k_send K op to g e k = (r, k')" for op to g e r k'
    using f(3) [of op to g e k] f(8) [of op to g e k] that by simp
  show "\<exists>r b' k'. bfd_write K d sz b k = (r, b', k') \<and> rbuf b' = rbuf b \<and> delivered k' = delivered k \<and> fd_step closes b k b' k'"
    by (auto simp: bfd_write_def f fd_step_def fd_error_def dest!: s split: option.split prod.split)
  show "\<exists>r b' k'. bfd_send K d sz b k = (r, b', k') \<and> rbuf b' = rbuf b \<and> delivered k' = delivered k \<and> fd_step closes b k b' k'"
    by (auto simp: bfd_send_def f fd_step_def fd_error_def closed_st_def dest!: s split: option.split prod.split)
  show "\<exists>r b' k'. bfd_sendto K d sz a b k = (r, b', k') \<and> rbuf b' = rbuf b \<and> delivered k' = delivered k \<and> fd_step closes b k b' k'"
    by (auto simp: bfd_sendto_def f fd_step_def fd_error_def closed_st_def dest!: s split: option.split prod.split)
qed

text \<open>What a call does to the descriptor.\<close>

definition fd_call :: "('k \<Rightarrow> int list) \<Rightarrow> 'a bfd_call \<Rightarrow> bfd \<Rightarrow> 'k \<Rightarrow> bfd \<Rightarrow> 'k \<Rightarrow> bool" where
  "fd_call closes q b k b' k' \<longleftrightarrow>
     (case q of Init f \<Rightarrow> fd b' = f \<and> closes k' = closes k | _ \<Rightarrow> fd_step closes b k b' k')"

lemma bfd_call_ok:
  assumes m: "mal_gives mal" and KC: "kernel_ok K delivered closes"
    and b: "rd_ok bfd_max_size (rbuf b)" and p: "call_permitted q (b, k)"
  shows "\<exists>b' k' d new. bfd_call K mal q (b, k) = Some ((b', k'), d) \<and> rd_ok bfd_max_size (rbuf b') \<and>
    delivered k' = delivered k @ new \<and> rd_cont (rbuf b) @ new = d @ rd_cont (rbuf b') \<and> fd_call closes q b k b' k'"
proof -
  have K: "kernel_reads K delivered" "kernel_closes K closes" using KC by (auto simp: kernel_ok_def)
  let ?P = "\<lambda>r. \<exists>b' k' d new. r = Some ((b', k'), d) \<and> rd_ok bfd_max_size (rbuf b') \<and>
    delivered k' = delivered k @ new \<and> rd_cont (rbuf b) @ new = d @ rd_cont (rbuf b') \<and> fd_step closes b k b' k'"
  have rd: "?P (of_read (read_via op K mal sz fr t b k))" if op: "op \<in> {read_op, recv_op, recvfrom_op}" for op sz fr t
  proof -
    obtain s rr new where "read_via op K mal sz fr t b k = Some (Inr (s, rr))" "rd_ok bfd_max_size (rbuf (r_bfd s))"
      "delivered (r_k s) = delivered k @ new" "rd_cont (rbuf b) @ new = rr_view rr (rbuf (r_bfd s)) @ rd_cont (rbuf (r_bfd s))"
      "fd_step closes b k (r_bfd s) (r_k s)"
      using read_via_ok [OF m K op b, of sz fr t k] by metis
    then show ?thesis by (simp add: of_read_def)
  qed
  have sm: "?P (of_some (internal_read K mal op fr t b k))"
    if op: "op \<in> {read_op, recv_op, recvfrom_op}" and st: "start (rbuf b) = 0" for op fr t
  proof -
    obtain s new where "internal_read K mal op fr t b k = Some (Inr s)" "rd_ok bfd_max_size (rbuf (r_bfd s))"
      "rd_cont (rbuf (r_bfd s)) = rd_cont (rbuf b) @ new" "delivered (r_k s) = delivered k @ new"
      "fd_step closes b k (r_bfd s) (r_k s)"
      using internal_read_ok [OF m K op b st, of fr t k] by metis
    then show ?thesis by (simp add: of_some_def)
  qed
  have wr: "?P (Some (snd r, []))"
    if "\<exists>v b' k'. r = (v, b', k') \<and> rbuf b' = rbuf b \<and> delivered k' = delivered k \<and> fd_step closes b k b' k'"
    for r :: "bool \<times> bfd \<times> 'a"
    using that b by auto
  note f = kernel_silent [OF K(1)] kernel_logs [OF K(2)]
  show ?thesis
  proof (cases q)
    case (Read_buf sz)
    obtain b' rr r where "read_buf sz b = (b', rr, r)" by (cases "read_buf sz b")
    with read_buf_ok [OF b this] Read_buf show ?thesis by (simp add: bfd_call_def fd_call_def fd_step_def)
  qed (use p b rd sm wr [OF write_ok(1) [OF KC]] wr [OF write_ok(2) [OF KC]] wr [OF write_ok(3) [OF KC]] in
      \<open>auto simp: bfd_call_def call_permitted_def bfd_read_def bfd_recv_def bfd_recvfrom_def read_some_def recv_some_def
        recvfrom_some_def bfd_shutdown_def bfd_close_def bfd_init_def fd_call_def fd_step_def closed_st_def f\<close>)
qed

lemma bfd_call_stream:
  assumes "mal_gives mal \<and> kernel_ok K delivered closes \<and> rd_ok bfd_max_size (rbuf (fst s))" and "call_permitted q s"
  shows "\<exists>s' d new. bfd_call K mal q s = Some (s', d) \<and>
    (mal_gives mal \<and> kernel_ok K delivered closes \<and> rd_ok bfd_max_size (rbuf (fst s'))) \<and>
    delivered (snd s') = delivered (snd s) @ new \<and> rd_cont (rbuf (fst s)) @ new = d @ rd_cont (rbuf (fst s'))"
  using bfd_call_ok [of mal K delivered closes "fst s" q "snd s"] assms by fastforce

interpretation br: stream_reader
  "\<lambda>s. mal_gives mal \<and> kernel_ok K delivered closes \<and> rd_ok bfd_max_size (rbuf (fst s))"
  "\<lambda>s. rd_cont (rbuf (fst s))" "\<lambda>s. delivered (snd s)" call_permitted "bfd_call K mal" for K mal delivered closes
  by unfold_locales (rule bfd_call_stream)

text \<open>
  The open descriptor of an object, the descriptors that calls of \<^verbatim>\<open>init\<close> give it, and those that \<^verbatim>\<open>init\<close>
  replaces while they are open, along the run of a sequence of calls.
\<close>

definition open_fd :: "bfd \<Rightarrow> int list" where
  "open_fd b = (if 0 < fd b then [fd b] else [])"

fun given_fds :: "'a bfd_call list \<Rightarrow> int list" where
  "given_fds [] = []"
| "given_fds (Init f # qs) = (if 0 < f then [f] else []) @ given_fds qs"
| "given_fds (_ # qs) = given_fds qs"

primrec lost_fds :: "('k, 'a) kernel \<Rightarrow> malloc_fn \<Rightarrow> 'a bfd_call list \<Rightarrow> bfd \<times> 'k \<Rightarrow> int list" where
  "lost_fds K mal [] s = []"
| "lost_fds K mal (q # qs) s =
     (if call_permitted q s
      then (case q of Init f \<Rightarrow> open_fd (fst s) | _ \<Rightarrow> []) @
           (case bfd_call K mal q s of None \<Rightarrow> [] | Some (s, d) \<Rightarrow> lost_fds K mal qs s)
      else lost_fds K mal qs s)"

lemma fd_call_account:
  "fd_call closes q b k b' k' \<Longrightarrow> \<exists>cl. closes k' = closes k @ cl \<and>
     mset (open_fd b') + mset cl + mset (case q of Init f \<Rightarrow> open_fd b | _ \<Rightarrow> []) = mset (open_fd b) + mset (given_fds [q])"
  by (cases q) (auto simp: fd_call_def fd_step_def open_fd_def split: if_splits)

lemma given_fds_Cons: "given_fds (q # qs) = given_fds [q] @ given_fds qs"
  by (cases q) simp_all

lemma reads_account:
  assumes "mal_gives mal \<and> kernel_ok K delivered closes \<and> rd_ok bfd_max_size (rbuf (fst s))"
    and "reads call_permitted (bfd_call K mal) qs s = Some (s', d)"
  shows "\<exists>cl. closes (snd s') = closes (snd s) @ cl \<and>
    mset (open_fd (fst s')) + mset cl + mset (lost_fds K mal qs s) = mset (open_fd (fst s)) + mset (given_fds qs)"
  using assms
proof (induction qs arbitrary: s d)
  case (Cons q qs)
  show ?case
  proof (cases "call_permitted q s")
    case True
    obtain b1 k1 d1 where 1: "bfd_call K mal q s = Some ((b1, k1), d1)" "rd_ok bfd_max_size (rbuf b1)" "fd_call closes q (fst s) (snd s) b1 k1"
      using bfd_call_ok [of mal K delivered closes "fst s" q "snd s"] Cons.prems(1) True by auto
    obtain c1 where c1: "closes k1 = closes (snd s) @ c1"
      "mset (open_fd b1) + mset c1 + mset (case q of Init f \<Rightarrow> open_fd (fst s) | _ \<Rightarrow> []) = mset (open_fd (fst s)) + mset (given_fds [q])"
      using fd_call_account [OF 1(3)] by blast
    obtain d2 where "reads call_permitted (bfd_call K mal) qs (b1, k1) = Some (s', d2)"
      using Cons.prems(2) True 1(1) by auto
    then obtain c2 where c2: "closes (snd s') = closes k1 @ c2"
      "mset (open_fd (fst s')) + mset c2 + mset (lost_fds K mal qs (b1, k1)) = mset (open_fd b1) + mset (given_fds qs)"
      using Cons.IH [of "(b1, k1)"] Cons.prems(1) 1(2) by auto
    have "lost_fds K mal (q # qs) s = (case q of Init f \<Rightarrow> open_fd (fst s) | _ \<Rightarrow> []) @ lost_fds K mal qs (b1, k1)"
      using True 1(1) by simp
    then have l: "mset (lost_fds K mal (q # qs) s) = mset (case q of Init f \<Rightarrow> open_fd (fst s) | _ \<Rightarrow> []) + mset (lost_fds K mal qs (b1, k1))"
      by (simp del: lost_fds.simps)
    have "mset (open_fd (fst s')) + mset (c1 @ c2) + mset (lost_fds K mal (q # qs) s) =
        (mset (open_fd (fst s')) + mset c2 + mset (lost_fds K mal qs (b1, k1))) +
        (mset c1 + mset (case q of Init f \<Rightarrow> open_fd (fst s) | _ \<Rightarrow> []))"
      unfolding l mset_append by (simp only: ac_simps)
    also have "\<dots> = (mset (open_fd b1) + mset c1 + mset (case q of Init f \<Rightarrow> open_fd (fst s) | _ \<Rightarrow> [])) + mset (given_fds qs)"
      unfolding c2(2) by (simp only: ac_simps)
    also have "\<dots> = mset (open_fd (fst s)) + mset (given_fds (q # qs))"
      unfolding c1(2) given_fds_Cons [of q qs] by (simp only: mset_append ac_simps)
    finally show ?thesis using c1(1) c2(1) by (intro exI [of _ "c1 @ c2"]) simp
  next
    case False
    then have np: "given_fds [q] = []" by (cases q) (auto simp: call_permitted_def)
    then show ?thesis using Cons False by (simp add: given_fds_Cons [of q qs])
  qed
qed simp

lemma bfd_new_ok: "rd_ok bfd_max_size (rbuf (bfd_new_fd pre f))" "rd_cont (rbuf (bfd_new_fd pre f)) = []"
  by (simp_all add: bfd_new_fd_def rd_new_ok)

text \<open>A system for the examples: it delivers its first component, and logs the bytes and the closed descriptors.\<close>

definition tape :: "int \<Rightarrow> (u8 list \<times> u8 list \<times> int list, unit) kernel" where
  "tape e = \<lparr>k_select = \<lambda>f t k. (e, 0, k),
     k_recv = \<lambda>op f n (rest, del, cl). (Some (take n rest), (), drop n rest, del @ take n rest, cl),
     k_send = \<lambda>op a f d k. (1, k),
     k_close = \<lambda>f (rest, del, cl). (rest, del, cl @ [f]), k_shutdown = \<lambda>f k. k\<rparr>"

lemma tape_ok: "kernel_ok (tape e) (\<lambda>k. fst (snd k)) (\<lambda>k. snd (snd k))"
  by (auto simp: kernel_ok_def kernel_reads_def kernel_closes_def tape_def)

lemma mal_zeros: "mal_gives (\<lambda>n. Some (replicate n 0))"
  by (simp add: mal_gives_def)

subsection \<open>Properties\<close>

text \<open>
  C38: a descriptor loses, repeats and reorders nothing. Any sequence of permitted calls returns
  without a memory fault or an exception, and the bytes handed to the caller followed by those in
  the buffer are the bytes buffered before followed by what the system delivered meanwhile.
\<close>

theorem bfd_reads_stream:
  assumes "mal_gives mal" and "kernel_ok K delivered closes" and "rd_ok bfd_max_size (rbuf b)"
  shows "\<exists>b' k' d new. reads call_permitted (bfd_call K mal) qs (b, k) = Some ((b', k'), d) \<and>
    rd_ok bfd_max_size (rbuf b') \<and> delivered k' = delivered k @ new \<and>
    rd_cont (rbuf b) @ new = d @ rd_cont (rbuf b')"
  using br.reads_stream [of mal K delivered closes "(b, k)" qs] assms by fastforce

theorem bfd_reads_stream_witness:
  "\<exists>b' k' d new. reads call_permitted (bfd_call (tape 1) (\<lambda>n. Some (replicate n 0)))
      [Read_some () 10, Read_buf 2, Read 5 () 10] (bfd_new_fd [] 3, ([1, 2, 3], [], [])) = Some ((b', k'), d) \<and>
    fst (snd k') = new \<and> new = d @ rd_cont (rbuf b')"
  using bfd_reads_stream [OF mal_zeros tape_ok [of 1] bfd_new_ok(1) [of "[]" 3],
      of "[Read_some () 10, Read_buf 2, Read 5 () 10]" "([1, 2, 3], [], [])"]
  by (auto simp: bfd_new_ok simp del: reads.simps)

text \<open>
  C39: no descriptor is closed twice, and one is left open only by \<^verbatim>\<open>init\<close>. After any sequence of
  permitted calls, closing calls and calls that close the descriptor because of an error among
  them, and the destructor, the system has closed each of the descriptors that the object had at
  the beginning or was given by \<^verbatim>\<open>init\<close> exactly once, except those that a call of \<^verbatim>\<open>init\<close> replaced
  while they were open: \<^verbatim>\<open>init\<close> does not close them, and nothing does so later. In particular an object
  whose \<^verbatim>\<open>init\<close> is called only while it has no open descriptor closes all it was given.
\<close>

theorem bfd_closes_once:
  assumes "mal_gives mal" and "kernel_ok K delivered closes" and "rd_ok bfd_max_size (rbuf b)"
  shows "\<exists>b' k' d cl. reads call_permitted (bfd_call K mal) qs (b, k) = Some ((b', k'), d) \<and>
    closes (bfd_delete K b' k') = closes k @ cl \<and>
    mset cl + mset (lost_fds K mal qs (b, k)) = mset (open_fd b) + mset (given_fds qs)"
proof -
  have I: "mal_gives mal \<and> kernel_ok K delivered closes \<and> rd_ok bfd_max_size (rbuf (fst (b, k)))"
    using assms by simp
  obtain b' k' d where r: "reads call_permitted (bfd_call K mal) qs (b, k) = Some ((b', k'), d)"
    using br.reads_stream [OF I, of qs] by auto
  obtain cl where c: "closes k' = closes k @ cl"
    "mset (open_fd b') + mset cl + mset (lost_fds K mal qs (b, k)) = mset (open_fd b) + mset (given_fds qs)"
    using reads_account [OF I r] by auto
  have "kernel_closes K closes" using assms(2) by (simp add: kernel_ok_def)
  from kernel_logs(2) [OF this] have "closes (bfd_delete K b' k') = closes k @ cl @ open_fd b'"
    using c(1) by (auto simp: open_fd_def bfd_delete_def bfd_close_def)
  with r c(2) show ?thesis by (auto simp: ac_simps)
qed

theorem bfd_closes_once_witness:
  "\<exists>b k' d cl. reads call_permitted (bfd_call (tape (-1)) (\<lambda>n. Some (replicate n 0)))
      [Read 5 () 10, Init 4, Init 5, Close, Send None 3] (bfd_new_fd [] 3, ([], [], [])) = Some ((b, k'), d) \<and>
    snd (snd (bfd_delete (tape (-1)) b k')) = cl \<and>
    mset cl + mset (lost_fds (tape (-1)) (\<lambda>n. Some (replicate n 0)) [Read 5 () 10, Init 4, Init 5, Close, Send None 3] (bfd_new_fd [] 3, ([], [], []))) = mset [3, 4, 5]"
  using bfd_closes_once [OF mal_zeros tape_ok [of "-1"] bfd_new_ok(1) [of "[]" 3], of "[Read 5 () 10, Init 4, Init 5, Close, Send None 3]" "([], [], [])"]
  by (simp add: open_fd_def bfd_new_fd_def add_mset_commute del: reads.simps lost_fds.simps split_paired_Ex)

text \<open>
  The simplest such case: an object that has a descriptor open and is given another one never closes
  the first.
\<close>

theorem bfd_init_leaks:
  assumes "kernel_ok K delivered closes" and "0 < fd b" and "0 < g"
  shows "\<exists>b' k'. bfd_call K mal (Init g) (b, k) = Some ((b', k'), []) \<and> closes (bfd_delete K b' k') = closes k @ [g]"
proof -
  have "kernel_closes K closes" using assms(1) by (simp add: kernel_ok_def)
  from kernel_logs(2) [OF this] show ?thesis using assms(3) by (auto simp: bfd_call_def bfd_init_def bfd_delete_def bfd_close_def)
qed

text \<open>
  The reading loop, which doubles its request as long as the system fills it, ends in every
  state of the buffer and whatever \<^verbatim>\<open>malloc\<close> and the system answer: it returns or faults.
\<close>

theorem internal_read_returns:
  assumes "rd_ok bfd_max_size (rbuf b)"
  shows "\<exists>r. internal_read K mal op_type a t b k = Some r"
  using assms read_amount_ok [OF assms]
  by (auto simp: internal_read_def Let_def amount_ok_def rd_ok_def intro!: read_loop_returns)

theorem internal_read_returns_witness:
  "\<exists>r. internal_read (tape 1) (\<lambda>n. None) read_op () 5 (bfd_new_fd (replicate 512 0) 3) (replicate 2000 7, [], []) = Some r"
  by (rule internal_read_returns [OF bfd_new_ok(1)])

lemma read_amount_big:
  assumes "rd_ok bfd_max_size b" and "512 \<le> bsize (buf b)"
  shows "bsize (buf b) < read_amount b"
proof -
  define n where "n = bsize (buf b)"
  have n: "n < n div 512 * 512 + 512"
    using mod_less_divisor [of 512 n] div_mult_mod_eq [of n 512] by linarith
  have "n \<le> bfd_max_size" using assms(1) by (simp add: rd_ok_def n_def)
  moreover have "n div 512 * 512 \<le> n" by simp
  ultimately have "w64 ((n div 512 + 4) * 512) = (n div 512 + 4) * 512"
    by (intro w64_less) (simp add: bfd_max_size_def distrib_right)
  then have "read_amount b = n div 512 * 512 + 2048"
    using assms(2) by (simp add: read_amount_def rd_buflen_def bfd_preallocated_size_def distrib_right flip: n_def)
  with n show ?thesis unfolding n_def by linarith
qed

text \<open>
  C40: \<^verbatim>\<open>read_some\<close> after part of the buffered data was fetched writes outside the buffer: with the
  512 preallocated bytes in use it reserves the same number of bytes it asks the system for but
  allocates \<open>start\<close> fewer, so a peer that sends more than that overwrites foreign memory.
\<close>

theorem bfd_read_some_overrun:
  assumes "rd_ok bfd_max_size (rbuf b)" and "mal_gives mal" and "0 < start (rbuf b)" and "0 < fd b"
    and "length (preallocated (buf (rbuf b))) = 512" and "512 \<le> bsize (buf (rbuf b))"
    and "start (rbuf b) + len (rbuf b) + read_amount (rbuf b) \<le> bfd_max_size"
    and "k_select K (fd b) t k = (e, us, k1)" and "0 < e"
    and "k_recv K read_op (fd b) (read_amount (rbuf b)) k1 = (Some d, a', k2)" and "d \<noteq> []"
    and "length d \<le> read_amount (rbuf b)"
  shows "read_some K mal a t b k = Some (Inl (Mem Overflow_write)) \<longleftrightarrow>
    read_amount (rbuf b) < start (rbuf b) + length d"
proof -
  let ?ra = "read_amount (rbuf b)" and ?rb = "rbuf b"
  have n: "bsize (buf ?rb) < len ?rb + ?ra" using read_amount_big [OF assms(1,6)] by simp
  have p: "\<not> (len ?rb + ?ra \<le> length (preallocated (buf ?rb)) \<and> dyn (buf ?rb) = None)" using n assms(5,6) by simp
  have mx: "bfd_max_size < 2 ^ 64" by (simp add: bfd_max_size_def)
  obtain tb m where r: "rd_reserve mal bfd_max_size ?ra ?rb =
      (?rb\<lparr>buf := tb, len := len ?rb + ?ra\<rparr>, rr_reset\<lparr>rr_data := Rbuf (start ?rb + len ?rb), rr_bytes := ?ra\<rparr>)"
    "dyn tb = Some m" "length m = len ?rb + ?ra" "0 < ?ra"
    using rd_reserve_grown [OF assms(1,2,7) mx n p] by metis
  let ?s = "\<lparr>r_bfd = b, r_k = k, r_from = a, r_timeout = t, r_amount = ?ra, r_ret = 0\<rparr>"
  obtain t2 where c: "can_read K t (b\<lparr>rbuf := ?rb\<lparr>buf := tb, len := len ?rb + ?ra\<rparr>\<rparr>) k =
      (True, t2, b\<lparr>rbuf := ?rb\<lparr>buf := tb, len := len ?rb + ?ra\<rparr>\<rparr>, k1)"
    using assms(4,8,9) by (simp add: can_read_def Let_def)
  have op: "read_op \<in> {read_op, recv_op, recvfrom_op}" by simp
  have i: "read_some K mal a t b k = read_loop K mal read_op ?s"
    using assms(4) by (simp add: read_some_def internal_read_def)
  let ?rr = "rr_reset\<lparr>rr_data := Rbuf (start ?rb + len ?rb), rr_bytes := ?ra\<rparr>"
  show ?thesis
  proof (cases "?ra < start ?rb + length d")
    case True
    then have "rr_store ?rr d (?rb\<lparr>buf := tb, len := len ?rb + ?ra\<rparr>) = Inl Overflow_write"
      using r assms(11) by (simp add: rr_store_def rr_reset_def bdata_def Let_def)
    then have "read_round K mal read_op ?s = Inl (Mem Overflow_write)"
      using r c assms(10) by (simp add: read_round_def Let_def rr_reset_def)
    with True i show ?thesis by (subst (asm) read_loop.simps) simp
  next
    case False
    then have "\<exists>rb2. rr_store ?rr d (?rb\<lparr>buf := tb, len := len ?rb + ?ra\<rparr>) = Inr rb2"
      using r by (simp add: rr_store_def rr_reset_def bdata_def Let_def)
    then obtain rb2 where "rr_store ?rr d (?rb\<lparr>buf := tb, len := len ?rb + ?ra\<rparr>) = Inr rb2" ..
    moreover have "length d \<noteq> ?ra" using False assms(3) by linarith
    ultimately have "\<exists>s'. read_round K mal read_op ?s = Inr (True, s')"
      using r c assms(10,11) by (simp add: read_round_def Let_def rr_reset_def)
    with False i show ?thesis by (subst (asm) read_loop.simps) auto
  qed
qed

theorem bfd_read_some_overrun_witness:
  "read_some (tape 1) (\<lambda>n. Some (replicate n 0)) () 10
     \<lparr>fd = 3, rbuf = \<lparr>buf = \<lparr>preallocated = replicate 512 1, dyn = None, bsize = 512\<rparr>, start = 1, len = 511\<rparr>\<rparr>
     (replicate 5000 7, [], []) = Some (Inl (Mem Overflow_write))"
proof -
  let ?rb = "\<lparr>buf = \<lparr>preallocated = replicate 512 1, dyn = None, bsize = 512\<rparr>, start = 1, len = 511\<rparr>"
  let ?b = "\<lparr>fd = 3, rbuf = ?rb\<rparr>" and ?k = "(replicate 5000 7, [], [])"
  have ra: "read_amount ?rb = 2560" by (simp add: read_amount_def rd_buflen_def bfd_consts)
  have "rd_ok bfd_max_size (rbuf ?b)" by (simp add: rd_ok_def tbuf_ok_def bdata_def bfd_consts)
  moreover have "k_recv (tape 1) read_op (fd ?b) (read_amount (rbuf ?b)) ?k =
      (Some (replicate 2560 7), (), (replicate 2440 7, replicate 2560 7, []))"
    using ra by (simp add: tape_def)
  moreover have "k_select (tape 1) (fd ?b) 10 ?k = (1, 0, ?k)" by (simp add: tape_def)
  ultimately show ?thesis
    using bfd_read_some_overrun [OF _ mal_zeros, of ?b "tape 1" 10 ?k 1 0 ?k "replicate 2560 7" "()"
        "(replicate 2440 7, replicate 2560 7, [])" "()"] ra
    by (simp add: bfd_consts)
qed

text \<open>
  \<^verbatim>\<open>read\<close> returns buffered bytes, up to as many as asked for, without a system call; with nothing
  buffered and no valid descriptor it fails.
\<close>

theorem bfd_read_buffered:
  assumes "rd_ok bfd_max_size (rbuf b)"
  shows "if 0 < bfd_size b
    then \<exists>s rr. bfd_read K mal sz a t b k = Some (Inr (s, rr)) \<and> r_k s = k \<and> fd (r_bfd s) = fd b \<and>
      rr_view rr (rbuf (r_bfd s)) = take sz (rd_cont (rbuf b)) \<and> rd_cont (rbuf (r_bfd s)) = drop sz (rd_cont (rbuf b))
    else fd b \<le> 0 \<longrightarrow> (\<exists>s rr. bfd_read K mal sz a t b k = Some (Inr (s, rr)) \<and> r_bfd s = b \<and> r_k s = k \<and> rr_failed rr)"
proof -
  have "bfd_max_size < 2 ^ 64" by (simp add: bfd_max_size_def)
  from rd_get_ok [OF assms this, of sz] show ?thesis
    by (cases "rd_get sz (rbuf b)") (auto simp: bfd_read_def read_via_def Let_def rr_reset_def)
qed

theorem bfd_read_buffered_witness:
  "\<exists>s rr. bfd_read (tape 1) (\<lambda>n. None) 5 () 10 (bfd_new []) ([1], [], []) = Some (Inr (s, rr)) \<and> rr_failed rr"
proof -
  have "rd_ok bfd_max_size (rbuf (bfd_new []))" by (simp add: bfd_new_def rd_new_ok)
  from bfd_read_buffered [OF this, of "tape 1" "\<lambda>n. None" 5 "()" 10 "([1], [], [])"] show ?thesis
    by (auto simp: bfd_size_def bfd_new_def rdbuf_new_def not_initialized_def)
qed

text \<open>
  The writing calls report success whenever the system took at least one byte, however many they
  were asked to write.
\<close>

theorem bfd_write_partial:
  assumes "0 < fd b" and "0 < sz"
  shows "fst (bfd_write K (Some d) sz b k) = (0 < fst (k_send K read_op None (fd b) (take sz d) k))"
    and "fst (bfd_send K (Some d) sz b k) = (0 < fst (k_send K recv_op None (fd b) (take sz d) k))"
    and "fst (bfd_sendto K (Some d) sz a b k) = (0 < fst (k_send K recvfrom_op (Some a) (fd b) (take sz d) k))"
  using assms by (auto simp: bfd_write_def bfd_send_def bfd_sendto_def split: prod.split)

theorem bfd_write_partial_witness: "fst (bfd_write (tape 1) (Some [1, 2, 3]) 3 (bfd_new_fd [] 3) ([], [], []))"
  using bfd_write_partial(1) [of "bfd_new_fd [] 3" 3 "tape 1" "[1, 2, 3]" "([], [], [])"]
  by (simp add: bfd_new_fd_def tape_def)

end
