(* ===== verification/Udp_Msg.thy ===== *)
theory Udp_Msg
  imports Crypt_Pkt Xdr_Stream Circbuf
begin

section \<open>Messages of the UDP protocols\<close>

text \<open>
  What the handlers and clients of \<^verbatim>\<open>src/comm/udp_data.cc\<close>, \<^verbatim>\<open>src/comm/udp_hello.cc\<close> and
  \<^verbatim>\<open>src/comm/udp_auth.cc\<close> have in common: the message buffer of \<^verbatim>\<open>src/comm/udp_recvr.hh\<close>, the packet type
  in front of a message, and the sections \<^verbatim>\<open>de-compile packet\<close>, \<^verbatim>\<open>compile packet\<close> and \<^verbatim>\<open>output packet\<close>,
  which the source repeats in each function. A call returns a value, throws, or does something
  that has no defined behaviour. The three exception classes of \<^verbatim>\<open>common\<close>, \<^verbatim>\<open>sec\<close> and \<^verbatim>\<open>comm\<close> are
  siblings: a handler for one does not catch another. The reasons of \<^verbatim>\<open>common::exc\<close> are left out.
  Debugging output is off.
\<close>

datatype comm_exc = comm_xdr_error | comm_invalid_packet_type | comm_common_error | comm_sec_error | comm_crypt_pkt_error
  | comm_too_big | comm_pkt_error | comm_null_param | comm_init_failed | comm_sesskey_empty | comm_pubkey_empty
  | comm_salt_size | comm_socket_failed | comm_send_failed | comm_recv_failed | comm_timeout | comm_select_failed

datatype uexc = Comm comm_exc | Sec sec_exc | Common

datatype undef = Null_pointer | Out_of_bounds | No_return

datatype 'a ures = Done 'a | Raise uexc | Undef undef

definition ubind :: "'a ures \<Rightarrow> ('a \<Rightarrow> 'b ures) \<Rightarrow> 'b ures" where
  "ubind r f = (case r of Done v \<Rightarrow> f v | Raise x \<Rightarrow> Raise x | Undef u \<Rightarrow> Undef u)"

record msg =
  mdata :: "u8 list"
  msize :: nat
  msender :: "u8 list"

text \<open>
  What a call gets from outside: the environment of \<^verbatim>\<open>crypt_pkt\<close>, whose flag \<^verbatim>\<open>use_exc\<close> is set to
  the one of the caller, the pages of \<^verbatim>\<open>pbuf\<close>, what the \<open>n\<close> bytes of a local array hold, and an
  uninitialised number.
\<close>

record udp_env =
  ucrypt :: crypt_env
  upages :: "nat \<Rightarrow> u8 list option"
  uraw :: "nat \<Rightarrow> u8 list"
  ujunk :: u32

abbreviation uml :: "udp_env \<Rightarrow> malloc_fn" where "uml e \<equiv> mal (ucrypt e)"

definition fresh :: "udp_env \<Rightarrow> nat \<Rightarrow> tbuf" where
  "fresh e n = tbuf_new (uraw e n)"

definition fresh_pbuf :: "udp_env \<Rightarrow> pbuf" where
  "fresh_pbuf e = pbuf_new (uraw e 2048)"

text \<open>The constructor of \<^verbatim>\<open>ustr\<close>.\<close>

definition fresh_ustr :: "udp_env \<Rightarrow> tbuf" where
  "fresh_ustr e = tbuf_new_uchar (uraw e 128) 0"

definition uthr :: "udp_env \<Rightarrow> comm_exc \<Rightarrow> 'a \<Rightarrow> 'a ures" where
  "uthr e r ret = (if use_exc (ucrypt e) then Raise (Comm r) else Done ret)"

text \<open>\<^verbatim>\<open>catch( common::exc e ) { ... THR(comm::exc::rs_common_error,false); }\<close>\<close>

definition catch_common :: "udp_env \<Rightarrow> 'a \<Rightarrow> 'a ures \<Rightarrow> 'a ures" where
  "catch_common e ret r = (case r of Raise Common \<Rightarrow> uthr e comm_common_error ret | _ \<Rightarrow> r)"

text \<open>The catch clauses of \<^verbatim>\<open>operator()\<close> of the handlers.\<close>

definition catch_handler :: "unit ures \<Rightarrow> unit ures" where
  "catch_handler r = (case r of Raise Common \<Rightarrow> Done () | Raise (Comm _) \<Rightarrow> Done () | _ \<Rightarrow> r)"

text \<open>The outcomes of the stream functions.\<close>

definition xstop_res :: "xstop \<Rightarrow> 'a ures" where
  "xstop_res s = (case s of XThrow _ \<Rightarrow> Raise Common | XNull \<Rightarrow> Undef Null_pointer)"

text \<open>A call inside the try block that does not get a value: the function gives up.\<close>

definition give_up :: "udp_env \<Rightarrow> 'a ures \<Rightarrow> bool ures" where
  "give_up e r = catch_common e False (ubind r (\<lambda>_. Done False))"

definition put_res :: "(xstop + unit) \<times> xdrbuf \<Rightarrow> xdrbuf ures" where
  "put_res r = (case r of (Inl s, _) \<Rightarrow> xstop_res s | (Inr _, x) \<Rightarrow> Done x)"

subsection \<open>Message buffers\<close>

text \<open>The packet types: the \<^verbatim>\<open>enum\<close> of \<^verbatim>\<open>msg\<close>.\<close>

datatype packet_type = hello_p | olleh_p | result_p | unicast_auth_p | unicast_htua_p | multicast_auth_p | multicast_htua_p
  | data_p | salt_p

primrec type_code :: "packet_type \<Rightarrow> u32" where
  "type_code hello_p = 1"
| "type_code olleh_p = 2"
| "type_code result_p = 3"
| "type_code unicast_auth_p = 4"
| "type_code unicast_htua_p = 5"
| "type_code multicast_auth_p = 6"
| "type_code multicast_htua_p = 7"
| "type_code data_p = 8"
| "type_code salt_p = 9"

abbreviation max_len :: nat where "max_len \<equiv> 65536"

definition msg_copy_to :: "msg \<Rightarrow> msg \<Rightarrow> msg" where
  "msg_copy_to m other =
     (let other = (if msize m \<noteq> 0
                   then other\<lparr>mdata := take (msize m) (mdata m) @ drop (msize m) (mdata other), msize := msize m\<rparr>
                   else other)
      in other\<lparr>msender := msender m\<rparr>)"

text \<open>Reading \<open>n\<close> bytes at an offset from \<^verbatim>\<open>data_\<close>, and writing bytes there.\<close>

definition msg_read :: "msg \<Rightarrow> int \<Rightarrow> nat \<Rightarrow> u8 list option" where
  "msg_read m off n = (if 0 \<le> off \<and> nat off + n \<le> length (mdata m) then Some (take n (drop (nat off) (mdata m))) else None)"

definition msg_write :: "nat \<Rightarrow> u8 list \<Rightarrow> msg \<Rightarrow> msg" where
  "msg_write off d m = m\<lparr>mdata := take off (mdata m) @ d @ drop (off + length d) (mdata m)\<rparr>"

text \<open>
  \<^verbatim>\<open>t.set(m.data_ + off, n)\<close>, where the offset is the difference of two addresses, a signed 64-bit
  number. The bytes are only read when \<^verbatim>\<open>allocate\<close> succeeds.
\<close>

definition set_from :: "udp_env \<Rightarrow> msg \<Rightarrow> u64 \<Rightarrow> u64 \<Rightarrow> tbuf \<Rightarrow> tbuf ures" where
  "set_from e m off n t =
     (if n = 0 then Done (reset t)
      else if snd (allocate (uml e) (unat n) t) = Null then Done t
      else (case msg_read m (sint off) (unat n) of
              None \<Rightarrow> Undef Out_of_bounds
            | Some d \<Rightarrow> Done (fst (tbuf_set (uml e) (Some d) (unat n) t))))"

text \<open>\<^verbatim>\<open>ustr::size\<close>: the bytes without the terminating zero.\<close>

definition ustr_size :: "tbuf \<Rightarrow> nat" where
  "ustr_size t = (if bsize t \<le> 1 then 0 else bsize t - 1)"

subsection \<open>Receiving\<close>

text \<open>
  \<^verbatim>\<open>outer.append(m.data_,n); xdrbuf xbo(outer); xbo >> packet_type;\<close> where \<^verbatim>\<open>packet_type\<close> holds \<open>v0\<close>
  before.
\<close>

definition read_type :: "udp_env \<Rightarrow> u32 \<Rightarrow> nat \<Rightarrow> msg \<Rightarrow> (u32 \<times> xdrbuf) ures" where
  "read_type e v0 n m =
     (case msg_read m 0 n of
        None \<Rightarrow> Undef Out_of_bounds
      | Some d \<Rightarrow>
          (case pbuf_append (upages e) (Some d) n (fresh_pbuf e) of
             None \<Rightarrow> Undef Null_pointer
           | Some (outer, _) \<Rightarrow>
               (case xdr_get_i32 (xdr_new outer) of
                  None \<Rightarrow> Undef No_return
                | Some (Inl s, _) \<Rightarrow> xstop_res s
                | Some (Inr v, xbo) \<Rightarrow> Done (case v of None \<Rightarrow> v0 | Some w \<Rightarrow> w, xbo))))"

text \<open>
  The section \<^verbatim>\<open>de-compile packet\<close>, for a packet that starts at position \<open>pos\<close> of the message: the
  decrypted data, or \<open>None\<close> when \<^verbatim>\<open>decrypt\<close> returns false and no exception is thrown for it.
\<close>

definition open_packet :: "udp_env \<Rightarrow> tbuf \<Rightarrow> msg \<Rightarrow> nat \<Rightarrow> tbuf option ures" where
  "open_packet e sesskey m pos =
     (let ptrp = of_nat pos;
          lenp = of_nat (msize m) - of_nat pos
      in ubind (set_from e m ptrp 8 (fresh e 8)) (\<lambda>hdr.
         ubind (set_from e m (ptrp + (lenp - 8)) 8 (fresh e 8)) (\<lambda>foot.
         ubind (set_from e m (ptrp + 8) (lenp - 8 - 8) (fresh e 1024)) (\<lambda>dat.
           let key = fst (tbuf_set (uml e) (Some (bdata sesskey)) (ustr_size sesskey + 1) (fresh e 64))
           in (case decrypt (ucrypt e) key hdr dat foot of
                 Crash \<Rightarrow> Undef Null_pointer
               | Throw x \<Rightarrow> Raise (Sec x)
               | Ret_false \<Rightarrow> uthr e comm_crypt_pkt_error None
               | Ok d \<Rightarrow> Done (Some d))))))"

text \<open>\<^verbatim>\<open>inner.append( data.data(), data.size() ); xdrbuf xbi(inner);\<close>\<close>

definition inner_stream :: "udp_env \<Rightarrow> tbuf \<Rightarrow> xdrbuf ures" where
  "inner_stream e d =
     (case pbuf_append (upages e) (Some (bdata d)) (bsize d) (fresh_pbuf e) of
        None \<Rightarrow> Undef Null_pointer
      | Some (inner, _) \<Rightarrow> Done (xdr_new inner))"

text \<open>
  A salt at the front of the decrypted data: \<^verbatim>\<open>if( xbi.get_data( slt, sz, salt_size_v ) == false ) ...
  if( sz != salt_size_v ) ...\<close>. The result is \<open>None\<close> when the function returns false, and what the
  salt buffer holds then.
\<close>

definition read_salt :: "udp_env \<Rightarrow> tbuf \<Rightarrow> xdrbuf \<Rightarrow> xdrbuf option ures \<times> tbuf" where
  "read_salt e slt xbi =
     (case get_data_t (uml e) (ujunk e) 8 0 slt xbi of
        None \<Rightarrow> (Undef No_return, slt)
      | Some (Inl s, slt, xbi) \<Rightarrow> (xstop_res s, slt)
      | Some (Inr (r, sz), slt, xbi) \<Rightarrow>
          (if \<not> r then uthr e comm_xdr_error None else if sz \<noteq> 8 then uthr e comm_xdr_error None else Done (Some xbi), slt))"

subsection \<open>Sending\<close>

text \<open>
  The sections \<^verbatim>\<open>compile packet\<close> and \<^verbatim>\<open>output packet\<close>: the salt, the session key, the buffer with the
  data, and the size of the part of the message in front.
\<close>

definition seal_packet :: "udp_env \<Rightarrow> tbuf \<Rightarrow> tbuf \<Rightarrow> pbuf \<Rightarrow> nat \<Rightarrow> msg \<Rightarrow> bool ures \<times> msg" where
  "seal_packet e slt sesskey inner osz m =
     (let key = fst (tbuf_set (uml e) (Some (bdata sesskey)) (ustr_size sesskey + 1) (fresh e 64));
          dat = fst (t_copy_to (uml e) 0 inner (fresh e 1024))
      in (case encrypt (ucrypt e) slt key (fresh e 8) dat (fresh e 8) of
            Crash \<Rightarrow> (Undef Null_pointer, m)
          | Throw x \<Rightarrow> (Raise (Sec x), m)
          | Ret_false \<Rightarrow> (uthr e comm_crypt_pkt_error False, m)
          | Ok (hdr, dat, foot) \<Rightarrow>
              let retlen = osz + bsize hdr + bsize dat + bsize foot
              in if retlen > max_len then (uthr e comm_too_big False, m)
                 else let m = msg_write osz (bytes hdr) m;
                          m = msg_write (osz + bsize hdr) (bytes dat) m;
                          m = msg_write (osz + bsize hdr + bsize dat) (bytes foot) m
                      in (Done True, m\<lparr>msize := retlen\<rparr>)))"

text \<open>\<^verbatim>\<open>outer.copy_to(m.data_,m.max_len())\<close>\<close>

definition put_outer :: "pbuf \<Rightarrow> msg \<Rightarrow> msg" where
  "put_outer outer m = (case copy_to True max_len outer of None \<Rightarrow> m | Some d \<Rightarrow> msg_write 0 d m)"

text \<open>Helper objects do not throw; a local message.\<close>

definition no_exc :: "udp_env \<Rightarrow> udp_env" where
  "no_exc e = e\<lparr>ucrypt := (ucrypt e)\<lparr>use_exc := False\<rparr>\<rparr>"

definition fresh_msg :: "udp_env \<Rightarrow> msg" where
  "fresh_msg e = \<lparr>mdata = uraw e max_len, msize = unat (ujunk e), msender = []\<rparr>"

text \<open>
  The system: the results of \<^verbatim>\<open>socket\<close>, \<^verbatim>\<open>connect\<close>, \<^verbatim>\<open>select\<close> and \<^verbatim>\<open>send\<close>, what \<^verbatim>\<open>recv\<close> stores for a size
  (\<open>None\<close> is an error), and what \<^verbatim>\<open>csl_sec_gen_rand\<close> stores (\<open>None\<close>: nothing).
\<close>

record udp_os =
  os_socket :: int
  os_connect :: int
  os_select :: int
  os_recv :: "nat \<Rightarrow> u8 list option"
  os_send :: "u8 list \<Rightarrow> int"
  os_rand :: "nat \<Rightarrow> u8 list option"

definition init_sock :: "udp_os \<Rightarrow> int" where
  "init_sock os =
     (if os_socket os \<le> 0 then os_socket os
      else if os_connect os = -1 then -1
      else os_socket os)"

text \<open>\<^verbatim>\<open>csl_sec_gen_rand( t.allocate(n), n )\<close>\<close>

definition gen_rand :: "udp_env \<Rightarrow> udp_os \<Rightarrow> nat \<Rightarrow> tbuf \<Rightarrow> tbuf" where
  "gen_rand e os n t =
     (case allocate (uml e) n t of
        (t, Null) \<Rightarrow> t
      | (t, _) \<Rightarrow> (case os_rand os n of None \<Rightarrow> t | Some r \<Rightarrow> set_data t (r @ drop n (bdata t))))"

text \<open>
  The first section of \<^verbatim>\<open>operator()\<close> of the handlers: the oldest message of the circular buffer, whose
  items hold the messages \<open>vals\<close>, copied into the local \<open>ms\<close>; \<open>None\<close> when there is nothing to do.
\<close>

definition take_msg :: "circbuf \<times> (nat \<Rightarrow> msg) \<Rightarrow> msg \<Rightarrow> msg option ures \<times> circbuf \<times> (nat \<Rightarrow> msg)" where
  "take_msg = (\<lambda>(s, vals) ms.
     if cn_items s > 0
     then (case pop s of
             (Ref (Some r), s) \<Rightarrow> (Done (if msize (vals r) = 0 then None else Some (msg_copy_to (vals r) ms)), s, vals)
           | (Ref None, s) \<Rightarrow> (Undef Null_pointer, s, vals)
           | (CThrow, s) \<Rightarrow> (Raise Common, s, vals)
           | (CNull, s) \<Rightarrow> (Undef Null_pointer, s, vals))
     else (Done None, s, vals))"

subsection \<open>Specification\<close>

text \<open>
  Memory does not run out, and what local arrays hold has their size; the capacity of a message.
  A packet on the wire: the salt, the sealed data behind four random bytes, and the tag.
\<close>

definition udp_ok :: "udp_env \<Rightarrow> bool" where
  "udp_ok e \<longleftrightarrow> env_ok (ucrypt e) 65204 \<and> mal_total (ucrypt e) \<and> pages_ok (upages e) \<and> (\<forall>n. length (uraw e n) = n)"

definition msg_ok :: "msg \<Rightarrow> bool" where
  "msg_ok m \<longleftrightarrow> length (mdata m) = max_len \<and> msize m \<le> max_len"

definition wire :: "msg \<Rightarrow> u8 list" where
  "wire m = take (msize m) (mdata m)"

definition packet :: "u8 list \<Rightarrow> u8 list \<Rightarrow> u8 list \<Rightarrow> u8 list \<Rightarrow> u8 list" where
  "packet key slt r d = (let ct = seal key slt (r @ d) in slt @ ct @ tag_of key slt ct)"

text \<open>A session key that fills the sixteen bytes the cipher takes, with its terminating zero.\<close>

definition key_ok :: "tbuf \<Rightarrow> bool" where
  "key_ok k \<longleftrightarrow> tbuf_ok k \<and> 16 \<le> bsize k"

subsection \<open>Buffers\<close>

lemma ubind_simps [simp]: "ubind (Done v) f = f v" "ubind (Raise x) f = Raise x" "ubind (Undef u) f = Undef u"
  by (simp_all add: ubind_def)

lemma ubind_Done: "ubind r f = Done v \<longleftrightarrow> (\<exists>w. r = Done w \<and> f w = Done v)"
  by (cases r) simp_all

lemma udp_okD:
  assumes "udp_ok e"
  shows "mal_ok (uml e)" "mal_total (ucrypt e)" "pages_ok (upages e)" "length (uraw e n) = n" "\<not> key0_null (ucrypt e) k"
    "j \<le> 65204 \<Longrightarrow> env_ok (ucrypt e) j"
  using assms by (auto simp: udp_ok_def env_ok_def intro: mal_total_key0 [THEN notE])

lemma fresh_ok [simp]: "tbuf_ok (fresh e n)" "bytes (fresh e n) = []" "bsize (fresh e n) = 0"
  by (simp_all add: fresh_def tbuf_new_def tbuf_ok_def bytes_def)

lemma fresh_pbuf_ok: "udp_ok e \<Longrightarrow> pbuf_ok (fresh_pbuf e) \<and> pbytes (fresh_pbuf e) = []"
  by (simp add: fresh_pbuf_def pbuf_new_ok udp_ok_def)

lemma tbuf_set_take: "tbuf_set ml (Some d) n t = tbuf_set ml (Some (take n d)) n t"
  by (simp add: tbuf_set_def)

lemma tbuf_set_total:
  assumes "udp_ok e" and "tbuf_ok t" and "n \<le> length d"
  shows "bytes (fst (tbuf_set (uml e) (Some d) n t)) = take n d" and "tbuf_ok (fst (tbuf_set (uml e) (Some d) n t))"
    and "bsize (fst (tbuf_set (uml e) (Some d) n t)) = n"
proof -
  have "length (take n d) = n" using assms(3) by simp
  note b = tbuf_set_bytes [OF udp_okD(2,1) [OF assms(1)] assms(2) this, folded tbuf_set_take]
  then show "bytes (fst (tbuf_set (uml e) (Some d) n t)) = take n d" "tbuf_ok (fst (tbuf_set (uml e) (Some d) n t))"
    by simp_all
  then show "bsize (fst (tbuf_set (uml e) (Some d) n t)) = n"
    using assms(3) length_bytes by fastforce
qed

lemma allocate_mal_total: "mal_total c \<Longrightarrow> snd (allocate (mal c) n t) \<noteq> Null"
  unfolding mal_total_def by (drule spec [of _ n]) (auto simp: allocate_def Let_def)

lemma ustr_size_key: "key_ok k \<Longrightarrow> ustr_size k \<noteq> 0"
  by (simp add: key_ok_def ustr_size_def)

text \<open>The key buffer of a session key.\<close>

lemma session_key:
  assumes "udp_ok e" and "key_ok k"
  shows "key16 (ucrypt e) (fst (tbuf_set (uml e) (Some (bdata k)) (ustr_size k + 1) (fresh e 64))) = take 16 (bytes k)"
    and "bsize (fst (tbuf_set (uml e) (Some (bdata k)) (ustr_size k + 1) (fresh e 64))) \<noteq> 0"
    and "tbuf_ok (fst (tbuf_set (uml e) (Some (bdata k)) (ustr_size k + 1) (fresh e 64)))"
proof -
  have k: "tbuf_ok k" "16 \<le> bsize k" "ustr_size k + 1 = bsize k" "bsize k \<le> length (bdata k)"
    using assms(2) by (auto simp: key_ok_def ustr_size_def tbuf_ok_def)
  note b = tbuf_set_total [OF assms(1) fresh_ok(1) [of e 64] k(4), folded k(3)]
  have "bytes (fst (tbuf_set (uml e) (Some (bdata k)) (ustr_size k + 1) (fresh e 64))) = bytes k"
    using b(1) k(3) by (simp add: bytes_def)
  then show "key16 (ucrypt e) (fst (tbuf_set (uml e) (Some (bdata k)) (ustr_size k + 1) (fresh e 64))) = take 16 (bytes k)"
    using k(1,2) by (simp add: key16_def length_bytes)
  show "bsize (fst (tbuf_set (uml e) (Some (bdata k)) (ustr_size k + 1) (fresh e 64))) \<noteq> 0"
    "tbuf_ok (fst (tbuf_set (uml e) (Some (bdata k)) (ustr_size k + 1) (fresh e 64)))" using b(2,3) by simp_all
qed

lemma gen_rand_ok:
  assumes "udp_ok e" and "os_rand os 8 = Some r8" and "length r8 = 8"
  shows "tbuf_ok (gen_rand e os 8 (fresh e 8)) \<and> bsize (gen_rand e os 8 (fresh e 8)) = 8 \<and> bytes (gen_rand e os 8 (fresh e 8)) = r8"
proof -
  obtain t p where a: "allocate (uml e) 8 (fresh e 8) = (t, p)" by (cases "allocate (uml e) 8 (fresh e 8)")
  note al = allocate_ok [OF fresh_ok(1) udp_okD(1) [OF assms(1)] a]
  have p: "p \<noteq> Null" using allocate_mal_total [OF udp_okD(2) [OF assms(1)], of 8 "fresh e 8"] a by simp
  then have t: "tbuf_ok t" "bsize t = 8" "8 \<le> length (bdata t)" using al by (simp_all add: tbuf_ok_def)
  have "gen_rand e os 8 (fresh e 8) = set_data t (r8 @ drop 8 (bdata t))" using p a assms(2) by (cases p) (simp_all add: gen_rand_def)
  then show ?thesis using t assms(3) by (simp_all add: bytes_def set_data_ok)
qed

subsection \<open>Receiving\<close>

lemma set_from_ok:
  assumes "udp_ok e" and "tbuf_ok t" and "length (mdata m) = max_len" and "0 < n" and "off + n \<le> max_len"
  obtains t' where "set_from e m (of_nat off) (of_nat n) t = Done t'" "tbuf_ok t'" "bytes t' = take n (drop off (mdata m))" "bsize t' = n"
proof -
  let ?d = "take n (drop off (mdata m))"
  have w: "sint (of_nat off :: u64) = int off" "unat (of_nat n :: u64) = n" "(of_nat n :: u64) \<noteq> 0"
    using assms(4,5) by (auto simp: signed_of_nat unsigned_of_nat signed_take_bit_int_eq_self take_bit_nat_eq_self word_unat_eq_iff)
  have l: "n \<le> length ?d" "length ?d = n" using assms(3,5) by simp_all
  have "msg_read m (int off) n = Some ?d" using assms(3,5) by (simp add: msg_read_def)
  then have "set_from e m (of_nat off) (of_nat n) t = Done (fst (tbuf_set (uml e) (Some ?d) n t))"
    using allocate_mal_total [OF udp_okD(2) [OF assms(1)]] w by (simp add: set_from_def)
  then show thesis by (rule that) (use tbuf_set_total [OF assms(1,2) l(1)] in simp_all)
qed

lemma read_type_ok:
  assumes "udp_ok e" and "msg_ok m" and "4 \<le> n" and "n \<le> max_len" and "take 4 (mdata m) = enc32 w"
  obtains x where "read_type e v0 n m = Done (w, x)" "position x = Some 4"
proof -
  have "msg_read m 0 n = Some (take n (mdata m))" using assms(2,4) by (simp add: msg_read_def msg_ok_def)
  moreover obtain b where b: "pbuf_append (upages e) (Some (take n (mdata m))) n (fresh_pbuf e) = Some (b, True)" "pbuf_ok b" "pbytes b = take n (mdata m)"
    using append_bytes [of "fresh_pbuf e" "upages e" "take n (mdata m)" n] fresh_pbuf_ok [OF assms(1)] udp_okD(3) [OF assms(1)]
      assms(2,4) by (auto simp: msg_ok_def)
  moreover have "pbytes b = enc32 w @ drop 4 (take n (mdata m))"
    using b(3) assms(3,5) append_take_drop_id [of 4 "take n (mdata m)"] by (simp add: min_absorb1)
  note f = first_i32 [OF b(2) this]
  ultimately show thesis using that [of "(xdr_new b)\<lparr>xpos := 4\<rparr>"] by (simp add: read_type_def)
qed

text \<open>Opening a packet of the right length: the tag decides.\<close>

lemma open_packet_ok:
  assumes e: "udp_ok e" and k: "key_ok k" and m: "length (mdata m) = max_len" and s: "msize m = pos + 16 + n" "4 \<le> n" "n \<le> 65200" "msize m \<le> max_len"
  defines "hdr \<equiv> take 8 (drop pos (mdata m))" and "ct \<equiv> take n (drop (pos + 8) (mdata m))" and "tag \<equiv> take 8 (drop (pos + 8 + n) (mdata m))"
  shows "if tag = tag_of (take 16 (bytes k)) hdr ct
    then \<exists>d. open_packet e k m pos = Done (Some d) \<and> tbuf_ok d \<and> bytes d = drop 4 (seal (take 16 (bytes k)) hdr ct)
    else open_packet e k m pos = (if use_exc (ucrypt e) then Raise (Sec rs_cksum) else Done None)"
proof -
  have w: "(of_nat (msize m) - of_nat pos :: u64) - 8 = of_nat (n + 8)" "(of_nat (n + 8) :: u64) - 8 = of_nat n"
    "(of_nat pos :: u64) + of_nat (n + 8) = of_nat (pos + 8 + n)" "(of_nat pos :: u64) + 8 = of_nat (pos + 8)"
    using s(1) by simp_all
  obtain h where h: "set_from e m (of_nat pos) (of_nat 8) (fresh e 8) = Done h" "tbuf_ok h" "bytes h = hdr" "bsize h = 8"
    using set_from_ok [OF e fresh_ok(1) m, of 8 pos] s hdr_def by auto
  obtain f where f: "set_from e m (of_nat (pos + 8 + n)) (of_nat 8) (fresh e 8) = Done f" "tbuf_ok f" "bytes f = tag" "bsize f = 8"
    using set_from_ok [OF e fresh_ok(1) m, of 8 "pos + 8 + n"] s tag_def by auto
  obtain d where d: "set_from e m (of_nat (pos + 8)) (of_nat n) (fresh e 1024) = Done d" "tbuf_ok d" "bytes d = ct" "bsize d = n"
    using set_from_ok [OF e fresh_ok(1) m, of n "pos + 8"] s ct_def by auto
  let ?key = "fst (tbuf_set (uml e) (Some (bdata k)) (ustr_size k + 1) (fresh e 64))"
  note key = session_key [OF e k]
  note dec = decrypt_eq [OF h(2) d(2) f(2) h(4) f(4) key(2) _ _ udp_okD(6) [OF e] udp_okD(5) [OF e], unfolded key(1) h(3) d(3,4) f(3), OF s(2,3)]
  have op: "open_packet e k m pos = (case decrypt (ucrypt e) ?key h d f of Crash \<Rightarrow> Undef Null_pointer
       | Throw x \<Rightarrow> Raise (Sec x) | Ret_false \<Rightarrow> uthr e comm_crypt_pkt_error None | Ok d \<Rightarrow> Done (Some d))"
    unfolding open_packet_def Let_def w using h(1) f(1) d(1) by simp
  have l: "length (drop 4 (seal (take 16 (bytes k)) hdr ct)) = n - 4" using d(3,4) length_bytes [OF d(2)] by simp
  show ?thesis
  proof (cases "tag = tag_of (take 16 (bytes k)) hdr ct")
    case True
    let ?p = "drop 4 (seal (take 16 (bytes k)) hdr ct)"
    have "\<exists>d'. decrypt (ucrypt e) ?key h d f = Ok d' \<and> tbuf_ok d' \<and> bytes d' = ?p"
      using dec s True l tbuf_set_total [OF e d(2), of "n - 4" ?p] by (auto simp: reset_ok)
    then show ?thesis using True op by auto
  next
    case False
    then have "decrypt (ucrypt e) ?key h d f = THR (ucrypt e) rs_cksum" using dec s by simp
    then show ?thesis using False op by (simp add: THR_def uthr_def)
  qed
qed

lemma inner_stream_ok:
  assumes "udp_ok e" and "tbuf_ok d"
  obtains x where "inner_stream e d = Done x" "xdr_ok x" "xexc x" "rest x = bytes d"
proof -
  have l: "bsize d \<le> length (bdata d)" using assms(2) by (simp add: tbuf_ok_def)
  obtain b where b: "pbuf_append (upages e) (Some (bdata d)) (bsize d) (fresh_pbuf e) = Some (b, True)" "pbuf_ok b" "pbytes b = bytes d"
    using pbuf_append_ok [OF fresh_pbuf_ok [OF assms(1), THEN conjunct1] udp_okD(3) [OF assms(1)] l] fresh_pbuf_ok [OF assms(1)] by (auto simp: bytes_def)
  have "rewind (xdr_new b) = xdr_new b" by (simp add: rewind_def xdr_new_def)
  then have "xdr_ok (xdr_new b)" "rest (xdr_new b) = bytes d"
    using rewind_ok [of "xdr_new b"] b(2,3) by (simp_all add: xdr_new_def)
  then show thesis using that [of "xdr_new b"] b(1) by (simp add: inner_stream_def xdr_new_def)
qed

lemma read_salt_never:
  assumes "xdr_ok x" and "xexc x"
  shows "fst (read_salt e slt x) \<noteq> Done (Some y)"
  using get_data_t_false [OF assms, of 8 "uml e" "ujunk e" 0 slt]
  by (auto simp: read_salt_def xstop_res_def uthr_def split: option.splits prod.splits sum.splits xstop.splits)

subsection \<open>Sending\<close>

lemma put_res_writes: "writes r x d \<Longrightarrow> \<exists>b. put_res r = Done (x\<lparr>xb := b\<rparr>) \<and> pbuf_ok b \<and> pbytes b = pbytes (xb x) @ d"
  by (auto simp: writes_def put_res_def)

lemma put_type:
  assumes "udp_ok e"
  obtains b where "put_res (xdr_put_i32 (upages e) w (xdr_new (fresh_pbuf e))) = Done ((xdr_new (fresh_pbuf e))\<lparr>xb := b\<rparr>)" "pbuf_ok b" "pbytes b = enc32 w"
  using put_res_writes [OF put_int_writes(1) [of "xdr_new (fresh_pbuf e)" "upages e" w]] fresh_pbuf_ok [OF assms] udp_okD(3) [OF assms]
  by (auto simp: xdr_new_def)

lemma put_outer_ok: "pbuf_ok b \<Longrightarrow> length (pbytes b) \<le> max_len \<Longrightarrow> put_outer b m = msg_write 0 (pbytes b) m"
  by (simp add: put_outer_def copy_to_eq)

lemma put_bindata_writes:
  assumes "pbuf_ok (xb x)" and "pages_ok pages" and "tbuf_ok t" and "bsize t < 2 ^ 64 - 3"
  shows "writes (xdr_put_bindata pages (Some (bdata t)) (bsize t) x) x (enc_bytes (bytes t))"
proof (cases "bsize t = 0")
  case True
  then show ?thesis
    using put_int_writes(4) [OF assms(1,2), of 0] by (simp add: xdr_put_bindata_def enc_bytes_empty bytes_def)
next
  case False
  have "bsize t \<le> length (bdata t)" using assms(3) by (simp add: tbuf_ok_def)
  from catch_writes [OF size_and_buf_ok [OF assms(1,2) False this assms(4)]] show ?thesis
    using False by (simp add: xdr_put_bindata_def bytes_def)
qed

lemma length_packet [simp]: "length slt = 8 \<Longrightarrow> length r = 4 \<Longrightarrow> length (packet key slt r d) = length d + 20"
  by (simp add: packet_def Let_def)

lemma inner_copy:
  assumes "udp_ok e" and "pbuf_ok b"
  shows "bytes (fst (t_copy_to (uml e) 0 b (fresh e n))) = pbytes b" and "tbuf_ok (fst (t_copy_to (uml e) 0 b (fresh e n)))"
proof -
  obtain t ok where t: "t_copy_to (uml e) 0 b (fresh e n) = (t, ok)" by (cases "t_copy_to (uml e) 0 b (fresh e n)")
  have z: "psize b = length (pbytes b)" using assms(2) by (simp add: pbuf_ok_def)
  have "tbuf_ok t \<and> bytes t = pbytes b"
  proof (cases "psize b = 0")
    case True
    then show ?thesis using t z by (auto simp: t_copy_to_def)
  next
    case False
    obtain u p where a: "allocate (uml e) (psize b) (fresh e n) = (u, p)" by (cases "allocate (uml e) (psize b) (fresh e n)")
    then have "p \<noteq> Null" using allocate_mal_total [OF udp_okD(2) [OF assms(1)], of "psize b" "fresh e n"] by simp
    then have "ok" using t False a by (auto simp: t_copy_to_def copy_to_def Let_def)
    then show ?thesis using t_copy_to_ok [OF assms(2) fresh_ok(1) udp_okD(1) [OF assms(1)]] t by auto
  qed
  then show "bytes (fst (t_copy_to (uml e) 0 b (fresh e n))) = pbytes b" "tbuf_ok (fst (t_copy_to (uml e) 0 b (fresh e n)))"
    using t by simp_all
qed

lemma msg_write_write:
  "off \<le> length (mdata m) \<Longrightarrow> msg_write (off + length d) d' (msg_write off d m) = msg_write off (d @ d') m"
  by (simp add: msg_write_def add.commute add.left_commute)

lemma seal_packet_ok:
  assumes e: "udp_ok e" and k: "key_ok k" and s: "tbuf_ok slt" "bsize slt = 8" and b: "pbuf_ok inner" "length (pbytes inner) \<le> 65200"
    and r: "rand4 (ucrypt e) = Some r" and m: "osz \<le> length (mdata m)" "osz + length (pbytes inner) + 20 \<le> max_len"
  shows "seal_packet e slt k inner osz m = (Done True,
      (msg_write osz (packet (take 16 (bytes k)) (bytes slt) r (pbytes inner)) m)\<lparr>msize := osz + length (pbytes inner) + 20\<rparr>)"
    and "length r = 4"
proof -
  define key where "key = fst (tbuf_set (uml e) (Some (bdata k)) (ustr_size k + 1) (fresh e 64))"
  define dat where "dat = fst (t_copy_to (uml e) 0 inner (fresh e 1024))"
  have d: "bytes dat = pbytes inner" "tbuf_ok dat" using inner_copy [OF e b(1), of 1024] by (simp_all add: dat_def)
  have ds: "bsize dat = length (pbytes inner)" using length_bytes [OF d(2)] d(1) by simp
  note key = session_key [OF e k, folded key_def]
  have a: "pkt_args slt key (fresh e 8) dat (fresh e 8)" using s key d ds b(2) by (simp add: pkt_args_def)
  have en: "env_ok (ucrypt e) (bsize dat + 4)" using udp_okD(6) [OF e] ds b(2) by simp
  show r4: "length r = 4" using r en by (auto simp: env_ok_def rand4_def split: option.splits)
  obtain hdr ct foot where enc: "encrypt (ucrypt e) slt key (fresh e 8) dat (fresh e 8) = Ok (hdr, ct, foot)"
    using encrypt_eq(1) [OF a en r udp_okD(5) [OF e]] by blast
  note eq = encrypt_eq [OF a en r udp_okD(5) [OF e]]
  have S: "length (bytes slt) = 8" using s by (simp add: length_bytes)
  note set = tbuf_set_bytes [OF udp_okD(2,1) [OF e]]
  define ctb where "ctb = seal (take 16 (bytes k)) (bytes slt) (r @ pbytes inner)"
  have B: "bytes hdr = bytes slt" "bytes ct = ctb" "bytes foot = tag_of (take 16 (bytes k)) (bytes slt) ctb"
     "tbuf_ok hdr" "tbuf_ok ct" "tbuf_ok foot"
    using enc eq(1) set [OF fresh_ok(1) [of e 8] S] set [OF d(2) eq(2)] set [OF fresh_ok(1) [of e 8] length_tag_of] key(1) d(1)
    by (auto simp: ctb_def)
  have "bsize hdr = length (bytes slt)" "bsize ct = length ctb" "bsize foot = length (tag_of (take 16 (bytes k)) (bytes slt) ctb)"
    using B(1-3) length_bytes [OF B(4)] length_bytes [OF B(5)] length_bytes [OF B(6)] by simp_all
  then have L: "bsize hdr = 8" "bsize ct = length (pbytes inner) + 4" "bsize foot = 8" "length ctb = length (pbytes inner) + 4"
    using S r4 by (simp_all add: ctb_def)
  have w: "msg_write (osz + 8 + (length (pbytes inner) + 4)) f (msg_write (osz + 8) c (msg_write osz h m)) = msg_write osz (h @ c @ f) m"
    if "length h = 8" "length c = length (pbytes inner) + 4" for h c f
    using that m(1) msg_write_write [of osz m h "c"] msg_write_write [of osz m "h @ c" f] by (simp add: add.assoc)
  show "seal_packet e slt k inner osz m = (Done True,
      (msg_write osz (packet (take 16 (bytes k)) (bytes slt) r (pbytes inner)) m)\<lparr>msize := osz + length (pbytes inner) + 20\<rparr>)"
    unfolding seal_packet_def key_def [symmetric] dat_def [symmetric] Let_def enc
    using B(1-3) L m(2) w [OF S L(4)] by (simp add: packet_def ctb_def Let_def)
qed

text \<open>The copy of a salt that \<^verbatim>\<open>compile packet\<close> starts with.\<close>

lemma salt_copy:
  assumes "udp_ok e" and "tbuf_ok t" and "bsize t = 8"
  shows "tbuf_ok (tbuf_assign (uml e) t (fresh e 8))" and "bsize (tbuf_assign (uml e) t (fresh e 8)) = 8"
    and "bytes (tbuf_assign (uml e) t (fresh e 8)) = bytes t"
proof -
  have "snd (allocate_nocopy (uml e) (bsize t) (fresh e 8)) \<noteq> Null"
    using assms(3) udp_okD(4) [OF assms(1), of 8] by (simp add: allocate_nocopy_def fresh_def tbuf_new_def)
  then show o: "tbuf_ok (tbuf_assign (uml e) t (fresh e 8))" and b: "bytes (tbuf_assign (uml e) t (fresh e 8)) = bytes t"
    using tbuf_assign_ok [OF fresh_ok(1) [of e 8] udp_okD(1) [OF assms(1)] assms(2)] by simp_all
  show "bsize (tbuf_assign (uml e) t (fresh e 8)) = 8" using length_bytes [OF o] length_bytes [OF assms(2)] b assms(3) by simp
qed

text \<open>A whole message: what is in front, and the packet.\<close>

lemma sealed_message:
  assumes e: "udp_ok e" and k: "key_ok k" and s: "tbuf_ok slt" "bsize slt = 8" and i: "pbuf_ok inner" "length (pbytes inner) \<le> 65200"
    and r: "rand4 (ucrypt e) = Some r" and b: "pbuf_ok b" and m: "length (mdata m) = max_len" "length (pbytes b) + length (pbytes inner) + 20 \<le> max_len"
  obtains m' where "seal_packet e slt k inner (psize b) (put_outer b m) = (Done True, m')" "msg_ok m'" "length r = 4"
    "wire m' = pbytes b @ packet (take 16 (bytes k)) (bytes slt) r (pbytes inner)"
proof -
  have P: "put_outer b m = msg_write 0 (pbytes b) m" "psize b = length (pbytes b)"
    using put_outer_ok [OF b] m b by (simp_all add: pbuf_ok_def)
  have ml: "length (mdata (msg_write 0 (pbytes b) m)) = max_len" using m by (simp add: msg_write_def)
  let ?m = "(msg_write (psize b) (packet (take 16 (bytes k)) (bytes slt) r (pbytes inner)) (msg_write 0 (pbytes b) m))\<lparr>msize := psize b + length (pbytes inner) + 20\<rparr>"
  have q: "seal_packet e slt k inner (psize b) (put_outer b m) = (Done True, ?m)" "length r = 4"
    using seal_packet_ok [OF e k s i r, of "psize b" "msg_write 0 (pbytes b) m"] m ml P by simp_all
  moreover have "length (bytes slt) = 8" using s by (simp add: length_bytes)
  ultimately show thesis using that [of ?m] ml m P(2) by (simp add: msg_ok_def wire_def msg_write_def)
qed

lemma open_sealed:
  assumes e: "udp_ok e" and k: "key_ok k" and m: "length (mdata m) = max_len" "mdata m = p @ packet (take 16 (bytes k)) slt r d @ q"
    and s: "length slt = 8" "length r = 4" "length d \<le> 65196" "msize m = length p + length d + 20" "msize m \<le> max_len"
  obtains t where "open_packet e k m (length p) = Done (Some t)" "tbuf_ok t" "bytes t = d"
proof -
  let ?ct = "seal (take 16 (bytes k)) slt (r @ d)"
  have "mdata m = p @ slt @ ?ct @ tag_of (take 16 (bytes k)) slt ?ct @ q" using m(2) by (simp add: packet_def Let_def)
  then have "take 8 (drop (length p) (mdata m)) = slt" "take (length d + 4) (drop (length p + 8) (mdata m)) = ?ct"
      "take 8 (drop (length p + 8 + (length d + 4)) (mdata m)) = tag_of (take 16 (bytes k)) slt ?ct"
    using s(1,2) by simp_all
  then show thesis
    using open_packet_ok [OF e k m(1), of "length p" "length d + 4"] s that by auto
qed

lemma wire_eq:
  assumes "msg_ok m" and "wire m = p @ q"
  shows "msize m = length p + length q" and "mdata m = p @ q @ drop (msize m) (mdata m)"
    and "take (length p) (mdata m) = p"
proof -
  have "length (wire m) = msize m" using assms(1) by (simp add: wire_def msg_ok_def)
  then show "msize m = length p + length q" using assms(2) by simp
  show "mdata m = p @ q @ drop (msize m) (mdata m)"
    using assms(2) append_take_drop_id [of "msize m" "mdata m"] by (simp add: wire_def)
  then show "take (length p) (mdata m) = p" by (metis append_eq_conv_conj)
qed

lemma no_exc_ok [simp]: "udp_ok (no_exc e) = udp_ok e" "ucrypt (no_exc e) = (ucrypt e)\<lparr>use_exc := False\<rparr>" "rand4 (v\<lparr>use_exc := b\<rparr>) = rand4 v"
  by (simp_all add: no_exc_def udp_ok_def env_ok_def mal_total_def rand4_def cong: option.case_cong)

lemma fresh_msg_ok: "udp_ok e \<Longrightarrow> length (mdata (fresh_msg e)) = max_len"
  by (simp add: fresh_msg_def udp_ok_def)

subsection \<open>Whatever arrives\<close>

text \<open>Without any assumption on the message: what is opened is well-formed.\<close>

lemma read_type_inv:
  assumes "udp_ok e" and "read_type e v n m = Done (w, x)"
  shows "xdr_ok x \<and> xexc x"
proof -
  obtain d where d: "msg_read m 0 n = Some d" using assms(2) by (auto simp: read_type_def split: option.splits)
  then have l: "length d = n" by (auto simp: msg_read_def split: if_splits)
  obtain b where b: "pbuf_append (upages e) (Some d) n (fresh_pbuf e) = Some (b, True)" "pbuf_ok b"
    using append_bytes [OF _ udp_okD(3) [OF assms(1)] l, of "fresh_pbuf e"] fresh_pbuf_ok [OF assms(1)] by blast
  have x: "xdr_ok (xdr_new b)" "xexc (xdr_new b)"
    using rewind_ok [of "xdr_new b"] b(2) by (simp_all add: xdr_new_def rewind_def)
  show ?thesis
    using get_exact_ok [OF x(1), of 4] x(2) d b(1) assms(2)
    by (auto simp: read_type_def xdr_get_i32_def xthr_def xstop_res_def split: if_splits)
qed

lemma give_up_never: "give_up e r \<noteq> Done True"
  by (cases r rule: ures.exhaust) (auto simp: give_up_def catch_common_def uthr_def split: uexc.splits)

lemma set_from_inv:
  assumes "udp_ok e" and "tbuf_ok t" and "set_from e m off n t = Done t'"
  shows "tbuf_ok t'"
proof (cases "n = 0")
  case True
  then show ?thesis using assms(3) reset_ok(1) [of t] by (simp add: set_from_def)
next
  case False
  then obtain d where d: "msg_read m (sint off) (unat n) = Some d" "t' = fst (tbuf_set (uml e) (Some d) (unat n) t)"
    using assms(3) allocate_mal_total [OF udp_okD(2) [OF assms(1)]] by (auto simp: set_from_def split: option.splits)
  then have "unat n \<le> length d" by (auto simp: msg_read_def split: if_splits)
  then show ?thesis using d tbuf_set_total [OF assms(1,2)] by simp
qed

lemma decrypt_inv:
  assumes "udp_ok e" and "tbuf_ok h" "tbuf_ok d" "tbuf_ok f" and "decrypt (ucrypt e) key h d f = Ok r"
  shows "tbuf_ok r"
proof -
  have g: "bsize h = 8" "bsize f = 8" "bsize key \<noteq> 0" "4 \<le> bsize d" "bsize d \<le> 65200"
    using assms(5) by (auto simp: decrypt_def THR_def split: if_splits)
  have "r = fst (tbuf_set (uml e) (Some (drop 4 (seal (key16 (ucrypt e) key) (bytes h) (bytes d)))) (bsize d - 4) d) \<or> r = reset d"
    using decrypt_eq [OF assms(2-4) g udp_okD(6,5) [OF assms(1)]] g assms(5) by (auto simp: THR_def split: if_splits)
  then show ?thesis using reset_ok(1) [of d] tbuf_set_total(2) [OF assms(1,3)] length_bytes [OF assms(3)] by auto
qed

lemma open_packet_inv:
  assumes "udp_ok e" and "open_packet e k m pos = Done (Some d)"
  shows "tbuf_ok d"
proof -
  let ?p = "of_nat pos" and ?l = "of_nat (msize m) - of_nat pos :: u64"
  let ?key = "fst (tbuf_set (uml e) (Some (bdata k)) (ustr_size k + 1) (fresh e 64))"
  obtain h f dat where s: "set_from e m ?p 8 (fresh e 8) = Done h" "set_from e m (?p + (?l - 8)) 8 (fresh e 8) = Done f"
      "set_from e m (?p + 8) (?l - 8 - 8) (fresh e 1024) = Done dat" and
      d: "(case decrypt (ucrypt e) ?key h dat f of Crash \<Rightarrow> Undef Null_pointer | Throw x \<Rightarrow> Raise (Sec x)
           | Ret_false \<Rightarrow> uthr e comm_crypt_pkt_error None | Ok d \<Rightarrow> Done (Some d)) = Done (Some d)"
    using assms(2) unfolding open_packet_def Let_def ubind_Done by blast
  from d have "decrypt (ucrypt e) ?key h dat f = Ok d" by (auto simp: uthr_def split: outcome.splits if_splits)
  then show ?thesis using s set_from_inv [OF assms(1) fresh_ok(1)] decrypt_inv [OF assms(1)] by blast
qed

lemma read_salt_opened:
  assumes "udp_ok e" and "tbuf_ok d" and "inner_stream e d = Done x"
  shows "read_salt e slt x \<noteq> (Done (Some y), s)"
  using inner_stream_ok [OF assms(1,2)] assms(3) read_salt_never by (metis fst_conv ures.inject(1))

text \<open>An environment for the examples.\<close>

definition udp_env0 :: udp_env where
  "udp_env0 = \<lparr>ucrypt = env0 (\<lambda>n. Some (replicate n 0)), upages = (\<lambda>k. Some (replicate 2048 0)), uraw = (\<lambda>n. replicate n 0), ujunk = 0\<rparr>"

lemma udp_env0_ok [simp]: "udp_ok udp_env0" "rand4 (ucrypt udp_env0) = Some [1, 2, 3, 4]" "use_exc (ucrypt udp_env0)"
  by (simp_all add: udp_env0_def udp_ok_def env0_ok pages_ok_def) (simp add: env0_def)

definition msg_of :: "u8 list \<Rightarrow> msg" where
  "msg_of d = \<lparr>mdata = d @ replicate (max_len - length d) 0, msize = length d, msender = []\<rparr>"

lemma msg_of_ok [simp]: "length d \<le> max_len \<Longrightarrow> msg_ok (msg_of d)" "msize (msg_of d) = length d" "wire (msg_of d) = d"
  by (simp_all add: msg_of_def msg_ok_def wire_def)

end
