(* ===== verification/Udp_Recvr.thy ===== *)
theory Udp_Recvr
  imports Udp_Msg
begin

section \<open>The receiver of UDP messages\<close>

text \<open>
  \<^verbatim>\<open>recvr\<close> of \<^verbatim>\<open>src/comm/udp_recvr.cc\<close>: one thread receives datagrams into items of the circular buffer
  \<^verbatim>\<open>msgs_\<close>, a \<^verbatim>\<open>circbuf<msg,30>\<close>, and the handlers in the thread pool take them out. Receiving has two
  sections under the mutex, \<^verbatim>\<open>prepare\<close> before and \<^verbatim>\<open>commit\<close> or \<^verbatim>\<open>rollback\<close> after the call of \<^verbatim>\<open>recvfrom\<close>, and the
  handlers can run between them. The state is the buffer, the messages of its items, and the item
  that \<^verbatim>\<open>tm\<close> points to.
\<close>

record recvr =
  msgs :: circbuf
  items :: "nat \<Rightarrow> msg"
  tm :: "nat option"

definition recvr_new :: "bool \<Rightarrow> (nat \<Rightarrow> msg) \<Rightarrow> recvr" where
  "recvr_new e mem = \<lparr>msgs = circbuf_new e 30, items = mem, tm = None\<rparr>"

definition recv_prepare :: "recvr \<Rightarrow> unit ures \<times> recvr" where
  "recv_prepare s =
     (case prepare (msgs s) of
        (Ref r, q) \<Rightarrow> (Done (), s\<lparr>msgs := q, tm := r\<rparr>)
      | (CThrow, q) \<Rightarrow> (Raise Common, s\<lparr>msgs := q\<rparr>)
      | (CNull, q) \<Rightarrow> (Undef Null_pointer, s\<lparr>msgs := q\<rparr>))"

text \<open>\<^verbatim>\<open>recvfrom\<close> has stored the datagram \<open>d\<close> and its sender \<open>a\<close>; no bytes at all are a rollback.\<close>

definition recv_arrived :: "u8 list \<Rightarrow> u8 list \<Rightarrow> recvr \<Rightarrow> unit ures \<times> recvr" where
  "recv_arrived d a s =
     (case tm s of
        None \<Rightarrow> (Undef Null_pointer, s)
      | Some r \<Rightarrow>
          let m = (msg_write 0 d (items s r))\<lparr>msize := length d, msender := a\<rparr>;
              s = s\<lparr>items := (items s)(r := m)\<rparr>
          in (case (if length d = 0 then rollback r (msgs s) else commit r (msgs s)) of
                None \<Rightarrow> (Undef No_return, s)
              | Some q \<Rightarrow> (Done (), s\<lparr>msgs := q\<rparr>)))"

text \<open>
  The packet loop of \<^verbatim>\<open>operator()\<close>, for what happens in each round: \<^verbatim>\<open>stop_me\<close> was set, \<^verbatim>\<open>select\<close> failed or
  timed out, \<^verbatim>\<open>recvfrom\<close> failed, or a datagram came. An error ends the loop, and throws when
  exceptions are on.
\<close>

datatype net_event = Stop | Select_failed | Timed_out | Recv_failed | Datagram "u8 list" "u8 list"

fun recv_loop :: "bool \<Rightarrow> net_event list \<Rightarrow> recvr \<Rightarrow> unit ures \<times> recvr" where
  "recv_loop u [] s = (Done (), s)"
| "recv_loop u (Stop # es) s = (Done (), s)"
| "recv_loop u (Select_failed # es) s = (if u then Raise (Comm comm_select_failed) else Done (), s)"
| "recv_loop u (Timed_out # es) s = recv_loop u es s"
| "recv_loop u (Recv_failed # es) s =
     (case recv_prepare s of
        (Done _, s) \<Rightarrow> (if u then Raise (Comm comm_recv_failed) else Done (), s)
      | r \<Rightarrow> r)"
| "recv_loop u (Datagram d a # es) s =
     (case recv_prepare s of
        (Done _, s) \<Rightarrow> (case recv_arrived d a s of (Done _, s) \<Rightarrow> recv_loop u es s | r \<Rightarrow> r)
      | r \<Rightarrow> r)"

text \<open>A handler that takes a message into its local \<open>ms\<close>.\<close>

definition recv_take :: "msg \<Rightarrow> recvr \<Rightarrow> msg option ures \<times> recvr" where
  "recv_take ms s = (case take_msg (msgs s, items s) ms of (r, q, vals) \<Rightarrow> (r, s\<lparr>msgs := q, items := vals\<rparr>))"

text \<open>The sections under the mutex, in the order in which the threads get it.\<close>

datatype section_op = Prepare | Arrived "u8 list" "u8 list" | Take msg

fun run_sections :: "section_op list \<Rightarrow> recvr \<Rightarrow> msg option list ures \<times> recvr" where
  "run_sections [] s = (Done [], s)"
| "run_sections (Prepare # ops) s =
     (case recv_prepare s of
        (Done _, s) \<Rightarrow> run_sections ops s
      | (Raise x, s) \<Rightarrow> (Raise x, s)
      | (Undef u, s) \<Rightarrow> (Undef u, s))"
| "run_sections (Arrived d a # ops) s =
     (case recv_arrived d a s of
        (Done _, s) \<Rightarrow> run_sections ops s
      | (Raise x, s) \<Rightarrow> (Raise x, s)
      | (Undef u, s) \<Rightarrow> (Undef u, s))"
| "run_sections (Take ms # ops) s =
     (case recv_take ms s of
        (Done r, s) \<Rightarrow> (case run_sections ops s of (rs, s) \<Rightarrow> (ubind rs (\<lambda>rs. Done (r # rs)), s))
      | (Raise x, s) \<Rightarrow> (Raise x, s)
      | (Undef u, s) \<Rightarrow> (Undef u, s))"

subsection \<open>Specification\<close>

text \<open>
  What a message says, and a receiver between two datagrams that holds the contents \<open>q\<close>, the newest
  first. A datagram has at least one byte and fits.
\<close>

definition content :: "msg \<Rightarrow> u8 list \<times> u8 list" where
  "content m = (wire m, msender m)"

definition item_ok :: "msg \<Rightarrow> bool" where
  "item_ok m \<longleftrightarrow> length (mdata m) = max_len"

definition holding :: "recvr \<Rightarrow> (u8 list \<times> u8 list) list \<Rightarrow> bool" where
  "holding s q \<longleftrightarrow> (\<exists>act fre. full_rings act fre [] (msgs s) \<and> map (content \<circ> items s) act = q \<and> length act + length fre \<le> 30 \<and>
     cn_items (msgs s) = length act \<and> cmax (msgs s) = 30 \<and> (\<forall>r. item_ok (items s r)) \<and> (\<forall>r \<in> set act. 0 < msize (items s r) \<and> msize (items s r) \<le> max_len))"

definition datagram_ok :: "u8 list \<times> u8 list \<Rightarrow> bool" where
  "datagram_ok d \<longleftrightarrow> 0 < length (fst d) \<and> length (fst d) \<le> max_len"

text \<open>
  What the threads do when no handler runs between the two sections of the receiver: \<open>Some d\<close> is a
  datagram received, \<open>None\<close> a handler; and what this does to a queue of at most thirty messages.
\<close>

definition sections :: "msg \<Rightarrow> (u8 list \<times> u8 list) option \<Rightarrow> section_op list" where
  "sections ms ev = (case ev of Some d \<Rightarrow> [Prepare, Arrived (fst d) (snd d)] | None \<Rightarrow> [Take ms])"

fun fifo30 :: "'d option list \<Rightarrow> 'd list \<Rightarrow> 'd option list \<times> 'd list" where
  "fifo30 [] q = ([], q)"
| "fifo30 (Some d # es) q = fifo30 es (take 30 (d # q))"
| "fifo30 (None # es) q = (case fifo30 es (butlast q) of (rs, q') \<Rightarrow> ((if q = [] then None else Some (last q)) # rs, q'))"

subsection \<open>The sections\<close>

lemma content_arrived:
  "item_ok m \<Longrightarrow> datagram_ok (d, a) \<Longrightarrow> content ((msg_write 0 d m)\<lparr>msize := length d, msender := a\<rparr>) = (d, a)"
  by (simp add: content_def wire_def msg_write_def)

lemma item_arrived: "item_ok m \<Longrightarrow> length d \<le> max_len \<Longrightarrow> item_ok ((msg_write 0 d m)\<lparr>msize := length d, msender := a\<rparr>)"
  by (simp add: item_ok_def msg_write_def)

lemma content_copy: "item_ok m \<Longrightarrow> 0 < msize m \<Longrightarrow> msize m \<le> max_len \<Longrightarrow> content (msg_copy_to m ms) = content m"
  by (simp add: content_def wire_def msg_copy_to_def item_ok_def)

lemma prepare_next:
  assumes "full_rings act fre [] q" and "length act + length fre \<le> 30" and "cn_items q = length act" and "cmax q = 30"
  obtains r fre' q' where "prepare q = (Ref (Some r), q')" "full_rings (take 29 act) fre' [r] q'" "r \<notin> set (take 29 act)"
    "length (take 29 act) + length fre' \<le> 29" "cn_items q' = length act" "cmax q' = 30"
proof -
  have "\<exists>r fre' q'. prepare q = (Ref (Some r), q') \<and> full_rings (take 29 act) fre' [r] q' \<and>
    length (take 29 act) + length fre' \<le> 29 \<and> cn_items q' = length act \<and> cmax q' = 30"
  proof (cases fre rule: rev_cases)
    case (snoc fs r)
    then show ?thesis using prepare_free [of act fs r "[]" q] assms by auto
  next
    case Nil
    show ?thesis
    proof (cases "length act < 30")
      case True
      then show ?thesis using prepare_new [of act "[]" q] assms Nil by fastforce
    next
      case False
      then have "length act = 30" using assms(2) by simp
      moreover from this obtain as r where "act = as @ [r]" by (cases act rule: rev_cases) auto
      ultimately show ?thesis using prepare_oldest [of as r "[]" q] assms Nil by auto
    qed
  qed
  then show thesis using that by (auto simp: full_rings_def rings_def)
qed

lemma prepare_section:
  assumes "holding s q"
  obtains r act fre q' where "recv_prepare s = (Done (), s\<lparr>msgs := q', tm := Some r\<rparr>)" "full_rings act fre [r] q'" "r \<notin> set act"
    "length act + length fre \<le> 29" "cn_items q' = length q" "cmax q' = 30" "map (content \<circ> items s) act = take 29 q" "\<forall>r. item_ok (items s r)"
    "\<forall>r \<in> set act. 0 < msize (items s r) \<and> msize (items s r) \<le> max_len"
proof -
  obtain act fre where h: "full_rings act fre [] (msgs s)" "map (content \<circ> items s) act = q" "length act + length fre \<le> 30"
      "cn_items (msgs s) = length act" "cmax (msgs s) = 30" "\<forall>r. item_ok (items s r)" "\<forall>r \<in> set act. 0 < msize (items s r) \<and> msize (items s r) \<le> max_len"
    using assms by (auto simp: holding_def)
  obtain r fre' q' where p: "prepare (msgs s) = (Ref (Some r), q')" "full_rings (take 29 act) fre' [r] q'" "r \<notin> set (take 29 act)"
      "length (take 29 act) + length fre' \<le> 29" "cn_items q' = length act" "cmax q' = 30"
    by (rule prepare_next [OF h(1,3,4,5)])
  show thesis
    by (rule that [of r q' "take 29 act" fre']) (use p h in \<open>auto simp: recv_prepare_def take_map dest: in_set_takeD\<close>)
qed

lemma receive_ok:
  assumes "holding s q" and "datagram_ok d"
  obtains s1 s2 where "recv_prepare s = (Done (), s1)" "recv_arrived (fst d) (snd d) s1 = (Done (), s2)" "holding s2 (take 30 (d # q))"
proof -
  obtain r act fre q' where p: "recv_prepare s = (Done (), s\<lparr>msgs := q', tm := Some r\<rparr>)" "full_rings act fre [r] q'" "r \<notin> set act"
      "length act + length fre \<le> 29" "cn_items q' = length q" "cmax q' = 30" "map (content \<circ> items s) act = take 29 q" "\<forall>r. item_ok (items s r)"
      "\<forall>r \<in> set act. 0 < msize (items s r) \<and> msize (items s r) \<le> max_len"
    by (rule prepare_section [OF assms(1)])
  obtain q2 where q2: "commit r q' = Some q2" "full_rings (r # act) fre [] q2" "cn_items q2 = min (length q + 1) 30" "cmax q2 = 30"
    using commit_first [OF p(2)] p(5,6) by auto
  let ?m = "(msg_write 0 (fst d) (items s r))\<lparr>msize := length (fst d), msender := snd d\<rparr>"
  let ?s2 = "s\<lparr>msgs := q2, items := (items s)(r := ?m), tm := Some r\<rparr>"
  have d: "0 < length (fst d)" "length (fst d) \<le> max_len" using assms(2) by (simp_all add: datagram_ok_def)
  have a: "recv_arrived (fst d) (snd d) (s\<lparr>msgs := q', tm := Some r\<rparr>) = (Done (), ?s2)"
    using d(1) q2(1) by (simp add: recv_arrived_def Let_def)
  have "content ?m = d" using content_arrived [of "items s r" "fst d" "snd d"] p(8) assms(2) by simp
  then have c: "map (content \<circ> items ?s2) (r # act) = take 30 (d # q)"
    using p(3) by (auto simp: p(7) [symmetric] comp_def)
  have "length act = length (take 29 q)" using p(7) by (metis length_map)
  then have l: "cn_items q2 = length (r # act)" "length (r # act) + length fre \<le> 30" using q2(3) p(4) by auto
  have i: "item_ok ?m" "0 < msize ?m" "msize ?m \<le> max_len" using item_arrived p(8) d by simp_all
  have "\<forall>x. item_ok (items ?s2 x)" "\<forall>x \<in> set (r # act). 0 < msize (items ?s2 x) \<and> msize (items ?s2 x) \<le> max_len"
    using i p(8,9) by simp_all
  moreover have "msgs ?s2 = q2" by simp
  ultimately have "holding ?s2 (take 30 (d # q))"
    unfolding holding_def using q2(2,4) c l by metis
  then show thesis using that p(1) a by blast
qed

lemma take_ok:
  assumes "holding s q"
  obtains r s' where "recv_take ms s = (Done r, s')" "map_option content r = (if q = [] then None else Some (last q))" "holding s' (butlast q)"
proof -
  obtain act fre where h: "full_rings act fre [] (msgs s)" "map (content \<circ> items s) act = q" "length act + length fre \<le> 30"
      "cn_items (msgs s) = length act" "cmax (msgs s) = 30" "\<forall>r. item_ok (items s r)" "\<forall>r \<in> set act. 0 < msize (items s r) \<and> msize (items s r) \<le> max_len"
    using assms by (auto simp: holding_def)
  show thesis
  proof (cases act rule: rev_cases)
    case Nil
    then show thesis using that [of None s] h assms by (simp add: recv_take_def take_msg_def)
  next
    case (snoc as r)
    then obtain q' where q': "pop (msgs s) = (Ref (Some r), q')" "full_rings as (r # fre) [] q'" "cn_items q' = length as" "cmax q' = 30"
      using pop_ok [of as r fre "[]" "msgs s"] h(1,4,5) by auto
    have m: "content (msg_copy_to (items s r) ms) = content (items s r)" "msize (items s r) \<noteq> 0"
      using content_copy h(6,7) snoc by auto
    have "recv_take ms s = (Done (Some (msg_copy_to (items s r) ms)), s\<lparr>msgs := q'\<rparr>)"
      using q'(1) m(2) h(4) snoc by (simp add: recv_take_def take_msg_def)
    moreover have "holding (s\<lparr>msgs := q'\<rparr>) (butlast q)"
      unfolding holding_def by (intro exI [of _ as] exI [of _ "r # fre"] conjI) (use q' h snoc in auto)
    moreover have "q \<noteq> []" "last q = content (items s r)" using h(2) snoc by auto
    ultimately show thesis using that m(1) by simp
  qed
qed

lemma run_append:
  "run_sections (xs @ ys) s = (case run_sections xs s of
     (Done rs, s) \<Rightarrow> (case run_sections ys s of (rs', s) \<Rightarrow> (ubind rs' (\<lambda>rs'. Done (rs @ rs')), s))
   | r \<Rightarrow> r)"
  by (induction xs s rule: run_sections.induct) (auto split: prod.splits ures.splits simp: ubind_def)

lemma run_ok:
  assumes "holding s q" and "\<forall>d. Some d \<in> set es \<longrightarrow> datagram_ok d"
  shows "\<exists>rs s'. run_sections (concat (map (sections ms) es)) s = (Done rs, s') \<and> map (map_option content) rs = fst (fifo30 es q) \<and>
    holding s' (snd (fifo30 es q))"
  using assms
proof (induction es q arbitrary: s rule: fifo30.induct)
  case (2 d es q)
  have "datagram_ok d" using 2(3) list.set_intros(1) by metis
  then obtain s1 s2 where "recv_prepare s = (Done (), s1)" "recv_arrived (fst d) (snd d) s1 = (Done (), s2)" "holding s2 (take 30 (d # q))"
    using receive_ok [OF 2(2)] by blast
  then show ?case using 2(1) [of s2] 2(3) by (simp add: sections_def)
next
  case (3 es q)
  obtain r s1 where "recv_take ms s = (Done r, s1)" "map_option content r = (if q = [] then None else Some (last q))" "holding s1 (butlast q)"
    by (rule take_ok [OF 3(2)])
  then show ?case using 3(1) [of s1] 3(3) by (auto simp: sections_def split: prod.splits)
qed auto

lemma loop_ok:
  assumes "holding s q" and "\<forall>e \<in> set es. e = Timed_out \<or> (\<exists>d a. e = Datagram d a \<and> datagram_ok (d, a))"
  shows "\<exists>s'. recv_loop u es s = (Done (), s') \<and>
    holding s' (snd (fifo30 (List.map_filter (\<lambda>e. case e of Datagram d a \<Rightarrow> Some (Some (d, a)) | _ \<Rightarrow> None) es) q))"
  using assms
proof (induction u es s arbitrary: q rule: recv_loop.induct)
  case (4 u es s)
  then show ?case by (simp add: map_filter_simps)
next
  case (6 u d a es s)
  have "datagram_ok (d, a)" using 6(3) by simp
  then obtain s1 s2 where "recv_prepare s = (Done (), s1)" "recv_arrived d a s1 = (Done (), s2)" "holding s2 (take 30 ((d, a) # q))"
    using receive_ok [OF 6(2), of "(d, a)"] by auto
  then show ?case using 6(1) [of "Done ()" s1 "()" "Done ()" s2 "()"] 6(3) by (simp add: map_filter_simps)
qed (simp_all add: map_filter_simps)

text \<open>
  A buffer that counts one item more than it has: after all items were taken, the next handler gets
  no message from \<^verbatim>\<open>pop\<close>.
\<close>

definition overcounted :: "recvr \<Rightarrow> nat \<Rightarrow> bool" where
  "overcounted s n \<longleftrightarrow> (\<exists>act fre. full_rings act fre [] (msgs s) \<and> length act = n \<and> cn_items (msgs s) = n + 1)"

lemma overcounted_takes:
  "overcounted s n \<Longrightarrow> fst (run_sections (replicate (Suc n) (Take ms)) s) \<in> {Raise Common, Undef Null_pointer}"
proof (induction n arbitrary: s)
  case 0
  then obtain fre where f: "full_rings [] fre [] (msgs s)" "cn_items (msgs s) = 1" by (auto simp: overcounted_def)
  show ?case
    using full_empty(1) [OF f(1)] f(2)
    by (simp add: recv_take_def take_msg_def pop_def report_empty_def new_item_def ref_of_def Let_def)
next
  case (Suc n)
  then obtain act fre where f: "full_rings act fre [] (msgs s)" "length act = Suc n" "cn_items (msgs s) = n + 2" by (auto simp: overcounted_def)
  then obtain as r where act: "act = as @ [r]" "length as = n" by (cases act rule: rev_cases) auto
  obtain q' where q': "pop (msgs s) = (Ref (Some r), q')" "full_rings as (r # fre) [] q'" "cn_items q' = n + 1"
    using pop_ok [of as r fre "[]" "msgs s"] f(1,3) act(1) by auto
  have o: "overcounted (s\<lparr>msgs := q'\<rparr>) n" using q'(2,3) act(2) by (auto simp: overcounted_def)
  obtain x where x: "recv_take ms s = (Done x, s\<lparr>msgs := q'\<rparr>)" using q'(1) f(3) by (simp add: recv_take_def take_msg_def)
  have "fst (run_sections (replicate (Suc (Suc n)) (Take ms)) s) = ubind (fst (run_sections (replicate (Suc n) (Take ms)) (s\<lparr>msgs := q'\<rparr>))) (\<lambda>rs. Done (x # rs))"
    using x by (simp split: prod.splits)
  then show ?case using Suc.IH [OF o] by auto
qed

lemma full_prepare:
  assumes "holding s q" and "length q = 30"
  obtains r act q' where "recv_prepare s = (Done (), s\<lparr>msgs := q', tm := Some r\<rparr>)" "full_rings act [] [r] q'" "length act = 29" "cn_items q' = 30" "cmax q' = 30"
proof -
  obtain r act fre q' where p: "recv_prepare s = (Done (), s\<lparr>msgs := q', tm := Some r\<rparr>)" "full_rings act fre [r] q'"
      "length act + length fre \<le> 29" "cn_items q' = length q" "cmax q' = 30" "map (content \<circ> items s) act = take 29 q"
    by (rule prepare_section [OF assms(1)])
  have "length act = 29" using arg_cong [OF p(6), of length] assms(2) by simp
  then show thesis using that [of r q' act] p assms(2) by simp
qed

subsection \<open>Properties\<close>

text \<open>
  C21: receiver and handlers are a queue of the newest thirty messages. As long as no handler runs between
  the two sections of the receiver, any sequence of datagrams of one to 65536 bytes and of handlers
  goes through, each handler gets contents and sender of the oldest message that was kept, or
  nothing when there is none, and a datagram that finds thirty messages replaces the oldest.
\<close>

theorem recvr_queue:
  assumes "\<forall>r. item_ok (mem r)" and "\<forall>d. Some d \<in> set es \<longrightarrow> datagram_ok d"
  shows "\<exists>rs s. run_sections (concat (map (sections ms) es)) (recvr_new e mem) = (Done rs, s) \<and>
    map (map_option content) rs = fst (fifo30 es []) \<and> holding s (snd (fifo30 es []))"
proof -
  have "holding (recvr_new e mem) []"
    using new_rings [of e 30] assms(1) by (auto simp: holding_def recvr_new_def circbuf_new_def)
  then show ?thesis using run_ok assms(2) by blast
qed

theorem recvr_queue_witness:
  "\<exists>rs s. run_sections (concat (map (sections (msg_of [])) [Some ([1], [9]), Some ([2, 3], [8]), None, None, None])) (recvr_new True (\<lambda>_. msg_of [])) = (Done rs, s) \<and>
     map (map_option content) rs = [Some ([1], [9]), Some ([2, 3], [8]), None]"
  using recvr_queue [of "\<lambda>_. msg_of []" "[Some ([1], [9]), Some ([2, 3], [8]), None, None, None]" "msg_of []" True]
  by (auto simp: item_ok_def msg_of_def datagram_ok_def)

text \<open>
  C22: with thirty messages waiting, an empty datagram, or a handler that runs between the two sections
  of the receiver, makes a later handler fail. \<^verbatim>\<open>prepare\<close> takes the oldest message out without counting
  down, so after \<^verbatim>\<open>rollback\<close>, or after the handler's \<^verbatim>\<open>pop\<close> and \<^verbatim>\<open>commit\<close>, the buffer counts thirty messages but
  has twenty-nine. The thirtieth handler from there finds the count positive, and its \<^verbatim>\<open>pop\<close>, outside of
  the try block, throws or returns a null reference, which the handler reads.
\<close>

theorem recvr_overcount:
  assumes "holding s q" and "length q = 30" and "ops = [Prepare, Arrived [] a] \<or> (\<exists>d ms'. ops = [Prepare, Take ms', Arrived d a] \<and> datagram_ok (d, a))"
  shows "fst (run_sections (ops @ replicate 30 (Take ms)) s) \<in> {Raise Common, Undef Null_pointer}"
proof -
  obtain r act q' where p: "recv_prepare s = (Done (), s\<lparr>msgs := q', tm := Some r\<rparr>)" "full_rings act [] [r] q'" "length act = 29" "cn_items q' = 30" "cmax q' = 30"
    by (rule full_prepare [OF assms(1,2)])
  have "\<exists>rs s'. run_sections ops s = (Done rs, s') \<and> overcounted s' 29"
    using assms(3)
  proof (elim disjE exE conjE)
    assume o: "ops = [Prepare, Arrived [] a]"
    obtain q2 where "rollback r q' = Some q2" "full_rings act [r] [] q2" "cn_items q2 = 30"
      using rollback_first [OF p(2)] p(4) by auto
    then show ?thesis using o p(1,3) by (auto simp: recv_arrived_def overcounted_def Let_def)
  next
    fix d ms'
    assume o: "ops = [Prepare, Take ms', Arrived d a]" and d: "datagram_ok (d, a)"
    obtain as r1 where act: "act = as @ [r1]" "length as = 28" using p(3) by (cases act rule: rev_cases) auto
    obtain q1 where q1: "pop q' = (Ref (Some r1), q1)" "full_rings as [r1] [r] q1" "cn_items q1 = 29" "cmax q1 = 30"
      using pop_ok [of as r1 "[]" "[r]" q'] p(2,4,5) act(1) by auto
    obtain q2 where q2: "commit r q1 = Some q2" "full_rings (r # as) [r1] [] q2" "cn_items q2 = 30"
      using commit_first [OF q1(2)] q1(3,4) by auto
    obtain x where "recv_take ms' (s\<lparr>msgs := q', tm := Some r\<rparr>) = (Done x, s\<lparr>msgs := q1, tm := Some r\<rparr>)"
      using q1(1) p(4) by (simp add: recv_take_def take_msg_def)
    then show ?thesis using o d p(1) q2 act(2) by (auto simp: recv_arrived_def overcounted_def datagram_ok_def Let_def)
  qed
  then obtain rs s' where s': "run_sections ops s = (Done rs, s')" "overcounted s' 29" by blast
  have "replicate 30 (Take ms) = replicate (Suc 29) (Take ms)" by simp
  then show ?thesis using overcounted_takes [OF s'(2), of ms] s'(1) by (auto simp: run_append split: prod.splits)
qed

theorem recvr_overcount_witness:
  "\<exists>s. holding s (replicate 30 ([1], [])) \<and>
     fst (run_sections ([Prepare, Arrived [] []] @ replicate 30 (Take (msg_of []))) s) \<in> {Raise Common, Undef Null_pointer}"
proof -
  have "holding (recvr_new True (\<lambda>_. msg_of [])) []"
    using new_rings [of True 30] by (auto simp: holding_def recvr_new_def circbuf_new_def item_ok_def msg_of_def)
  moreover have "\<forall>d. Some d \<in> set (replicate 30 (Some ([1], []))) \<longrightarrow> datagram_ok d" by (simp add: datagram_ok_def)
  ultimately obtain s where s: "holding s (snd (fifo30 (replicate 30 (Some ([1], []))) []))" using run_ok by blast
  have "snd (fifo30 (replicate 30 (Some ([1 :: u8], [] :: u8 list))) []) = replicate 30 ([1], [])" by (simp add: numeral_eq_Suc)
  then have h: "holding s (replicate 30 ([1], []))" using s by simp
  then show ?thesis using recvr_overcount [OF h] by fastforce
qed

end
