(* ===== verification/Udp_Data.thy ===== *)
theory Udp_Data
  imports Udp_Msg
begin

section \<open>Data packets\<close>

text \<open>
  \<^verbatim>\<open>src/comm/udp_data.cc\<close>: the packets that carry data once a session key is agreed on. A packet is
  sealed under the salt the receiver already has, and holds the salt for the next one in front of
  the data. The callbacks of the server are functions on its state, the sockets of the client are
  the results of the system calls.
\<close>

subsection \<open>Packets\<close>

definition get_salt :: "udp_env \<Rightarrow> tbuf \<Rightarrow> msg \<Rightarrow> (bool \<times> tbuf) ures" where
  "get_salt e old_salt m =
     (if msize m < 4 then uthr e comm_null_param (False, old_salt)
      else ubind (read_type e 0 4 m) (\<lambda>(packet_type, xbo).
        if packet_type \<noteq> type_code data_p then uthr e comm_invalid_packet_type (False, old_salt)
        else (case position xbo of
                None \<Rightarrow> Undef Null_pointer
              | Some pos \<Rightarrow> ubind (set_from e m (of_nat pos) 8 old_salt) (\<lambda>s. Done (True, s)))))"

text \<open>\<^verbatim>\<open>init_data\<close> up to the decrypted packet; \<open>None\<close> is a return of false.\<close>

definition data_open :: "udp_env \<Rightarrow> tbuf \<Rightarrow> msg \<Rightarrow> tbuf option ures" where
  "data_open e sesskey m =
     (if msize m < 4 then uthr e comm_null_param None
      else if ustr_size sesskey = 0 then uthr e comm_sesskey_empty None
      else ubind (read_type e 0 4 m) (\<lambda>(packet_type, xbo).
        if packet_type \<noteq> type_code data_p then uthr e comm_invalid_packet_type None
        else (case position xbo of
                None \<Rightarrow> Undef Null_pointer
              | Some pos \<Rightarrow> open_packet e sesskey m pos)))"

definition init_data :: "udp_env \<Rightarrow> tbuf \<Rightarrow> tbuf \<Rightarrow> msg \<Rightarrow> tbuf \<Rightarrow> bool ures \<times> tbuf \<times> tbuf" where
  "init_data e new_salt sesskey m recvdta =
     (case data_open e sesskey m of
        Done (Some d) \<Rightarrow>
          (case inner_stream e d of
             Done xbi \<Rightarrow>
               (case read_salt e new_salt xbi of
                  (Done (Some xbi), new_salt) \<Rightarrow>
                    (case get_data_t (uml e) (ujunk e) max_len 8 recvdta xbi of
                       None \<Rightarrow> (Undef No_return, new_salt, recvdta)
                     | Some (Inl s, recvdta, _) \<Rightarrow> (catch_common e False (xstop_res s), new_salt, recvdta)
                     | Some (Inr (r, _), recvdta, _) \<Rightarrow> (if r then Done True else uthr e comm_xdr_error False, new_salt, recvdta))
                | (r, new_salt) \<Rightarrow> (give_up e r, new_salt, recvdta))
           | r \<Rightarrow> (give_up e r, new_salt, recvdta))
      | r \<Rightarrow> (give_up e r, new_salt, recvdta))"

definition prepare_data :: "udp_env \<Rightarrow> tbuf \<Rightarrow> tbuf \<Rightarrow> tbuf \<Rightarrow> tbuf \<Rightarrow> msg \<Rightarrow> bool ures \<times> msg" where
  "prepare_data e old_salt new_salt sesskey senddta m =
     (if bsize senddta = 0 then (uthr e comm_null_param False, m)
      else if bsize old_salt \<noteq> 8 then (uthr e comm_salt_size False, m)
      else if bsize new_salt \<noteq> 8 then (uthr e comm_salt_size False, m)
      else if ustr_size sesskey = 0 then (uthr e comm_sesskey_empty False, m)
      else (case put_res (xdr_put_i32 (upages e) (type_code data_p) (xdr_new (fresh_pbuf e))) of
              Done xbo \<Rightarrow>
                if psize (xb xbo) > max_len then (uthr e comm_too_big False, m)
                else let m = put_outer (xb xbo) m
                     in (case ubind (put_res (xdr_put_bindata (upages e) (Some (bdata new_salt)) (bsize new_salt) (xdr_new (fresh_pbuf e))))
                                (\<lambda>xbi. put_res (xdr_put_bindata (upages e) (Some (bdata senddta)) (bsize senddta) xbi)) of
                           Done xbi \<Rightarrow> seal_packet e (tbuf_assign (uml e) old_salt (fresh e 8)) sesskey (xb xbi) (psize (xb xbo)) m
                         | r \<Rightarrow> (give_up e r, m))
            | r \<Rightarrow> (give_up e r, m)))"

subsection \<open>The server\<close>

text \<open>
  The callbacks, which may be missing: what they get besides the state, and what they return. The
  session key is an output of the first.
\<close>

record 's data_cbs =
  lookup_session_cb :: "(tbuf \<Rightarrow> u8 list \<Rightarrow> tbuf \<Rightarrow> 's \<Rightarrow> bool \<times> tbuf \<times> 's) option"
  handle_data_cb :: "(tbuf \<Rightarrow> tbuf \<Rightarrow> u8 list \<Rightarrow> tbuf \<Rightarrow> int \<Rightarrow> tbuf \<Rightarrow> 's \<Rightarrow> bool \<times> 's) option"
  update_session_cb :: "(tbuf \<Rightarrow> tbuf \<Rightarrow> u8 list \<Rightarrow> tbuf \<Rightarrow> 's \<Rightarrow> bool \<times> 's) option"

text \<open>The try block of \<^verbatim>\<open>data_handler::operator()\<close> and its catch clauses, for the message \<open>ms\<close>.\<close>

definition data_lookup :: "udp_env \<Rightarrow> 's data_cbs \<Rightarrow> tbuf \<Rightarrow> msg \<Rightarrow> 's \<Rightarrow> bool \<times> tbuf \<times> 's" where
  "data_lookup e cbs old_salt ms s =
     (case lookup_session_cb cbs of
        None \<Rightarrow> (True, fresh_ustr e, s)
      | Some cb \<Rightarrow> cb old_salt (msender ms) (fresh_ustr e) s)"

definition data_process :: "udp_env \<Rightarrow> 's data_cbs \<Rightarrow> int \<Rightarrow> msg \<Rightarrow> 's \<Rightarrow> unit ures \<times> 's" where
  "data_process e cbs sock ms s =
     (case get_salt e (fresh e 8) ms of
        Done (True, old_salt) \<Rightarrow>
          (case data_lookup e cbs old_salt ms s of
             (False, _, s) \<Rightarrow> (Done (), s)
           | (True, sesskey, s) \<Rightarrow>
               (case init_data e (fresh e 8) sesskey ms (fresh e 1024) of
                  (Done True, new_salt, recvdta) \<Rightarrow>
                    (case (case handle_data_cb cbs of
                             None \<Rightarrow> (True, s)
                           | Some cb \<Rightarrow> cb old_salt new_salt (msender ms) sesskey sock recvdta s) of
                       (False, s) \<Rightarrow> (Done (), s)
                     | (True, s) \<Rightarrow>
                         (Done (), case update_session_cb cbs of
                                     None \<Rightarrow> s
                                   | Some cb \<Rightarrow> snd (cb old_salt new_salt (msender ms) sesskey s)))
                | (r, _) \<Rightarrow> (catch_handler (ubind r (\<lambda>_. Done ())), s)))
      | r \<Rightarrow> (catch_handler (ubind r (\<lambda>_. Done ())), s))"

definition data_handler ::
  "udp_env \<Rightarrow> 's data_cbs \<Rightarrow> int \<Rightarrow> msg \<Rightarrow> circbuf \<times> (nat \<Rightarrow> msg) \<Rightarrow> 's \<Rightarrow> unit ures \<times> (circbuf \<times> (nat \<Rightarrow> msg)) \<times> 's" where
  "data_handler e cbs sock ms msgs s =
     (case take_msg msgs ms of
        (Done (Some ms), msgs) \<Rightarrow> (case data_process e cbs sock ms s of (r, s) \<Rightarrow> (r, msgs, s))
      | (r, msgs) \<Rightarrow> (ubind r (\<lambda>_. Done ()), msgs, s))"

text \<open>
  \<^verbatim>\<open>handle_data_callback::send_reply\<close>, whose helper object does not throw: \<open>sendto\<close> is the system call
  with the result it gives for a packet, and the packet is in the result when it was called.
\<close>

definition send_reply ::
  "udp_env \<Rightarrow> (u8 list \<Rightarrow> int) \<Rightarrow> tbuf \<Rightarrow> tbuf \<Rightarrow> tbuf \<Rightarrow> tbuf \<Rightarrow> bool ures \<times> u8 list option" where
  "send_reply e sendto old_salt new_salt sesskey d =
     (case prepare_data (no_exc e) old_salt new_salt sesskey d (fresh_msg e) of
        (Done False, m) \<Rightarrow> (Done False, None)
      | (Done True, m) \<Rightarrow> (Done (sendto (wire m) = int (msize m)), Some (wire m))
      | (r, m) \<Rightarrow> (r, None))"

subsection \<open>The client\<close>

record data_cli =
  server_salt :: tbuf
  my_salt :: tbuf
  session_key :: tbuf
  sock :: int

definition data_init :: "udp_env \<Rightarrow> udp_os \<Rightarrow> data_cli \<Rightarrow> bool ures \<times> data_cli" where
  "data_init e os c =
     (if sock c > 0 then (Done True, c)
      else if ustr_size (session_key c) = 0 then (uthr e comm_sesskey_empty False, c)
      else let c = c\<lparr>sock := init_sock os\<rparr>
           in if sock c \<le> 0 then (uthr e comm_socket_failed False, c) else (Done True, c))"

definition data_recv :: "udp_env \<Rightarrow> udp_os \<Rightarrow> data_cli \<Rightarrow> tbuf \<Rightarrow> bool ures \<times> data_cli \<times> tbuf" where
  "data_recv e os c d =
     (case data_init e os c of
        (Done True, c) \<Rightarrow>
          if os_select os > 0
          then (case os_recv os max_len of
                  None \<Rightarrow> (uthr e comm_recv_failed False, c, d)
                | Some b \<Rightarrow>
                    if length b > 0
                    then let m = (msg_write 0 b (fresh_msg e))\<lparr>msize := length b\<rparr>
                         in (case init_data (no_exc e) (fresh e 8) (session_key c) m d of
                               (Done False, _, d) \<Rightarrow> (uthr e comm_pkt_error False, c, d)
                             | (Done True, new_salt, d) \<Rightarrow>
                                 (Done True, c\<lparr>server_salt := tbuf_assign (uml e) new_salt (server_salt c)\<rparr>, d)
                             | (r, _, d) \<Rightarrow> (r, c, d))
                    else (uthr e comm_recv_failed False, c, d))
          else if os_select os = 0 then (uthr e comm_timeout False, c, d)
          else (uthr e comm_select_failed False, c, d)
      | (Done False, c) \<Rightarrow> (uthr e comm_init_failed False, c, d)
      | (r, c) \<Rightarrow> (r, c, d))"

definition data_send :: "udp_env \<Rightarrow> udp_os \<Rightarrow> data_cli \<Rightarrow> tbuf \<Rightarrow> bool ures \<times> data_cli \<times> u8 list option" where
  "data_send e os c d =
     (case data_init e os c of
        (Done True, c) \<Rightarrow>
          if bsize (my_salt c) \<noteq> 8 then (uthr e comm_salt_size False, c, None)
          else let new_salt = gen_rand e os 8 (fresh e 8)
               in (case prepare_data (no_exc e) (my_salt c) new_salt (session_key c) d (fresh_msg e) of
                     (Done False, m) \<Rightarrow> (uthr e comm_pkt_error False, c, None)
                   | (Done True, m) \<Rightarrow>
                       if os_send os (wire m) \<noteq> int (msize m) then (uthr e comm_send_failed False, c, Some (wire m))
                       else (Done True, c\<lparr>my_salt := tbuf_assign (uml e) new_salt (my_salt c)\<rparr>, Some (wire m))
                   | (r, m) \<Rightarrow> (r, c, None))
      | (Done False, c) \<Rightarrow> (uthr e comm_init_failed False, c, None)
      | (r, c) \<Rightarrow> (r, c, None))"

subsection \<open>Packets sent and opened\<close>

definition data_inner :: "tbuf \<Rightarrow> tbuf \<Rightarrow> u8 list" where
  "data_inner new_salt d = enc_bytes (bytes new_salt) @ enc_bytes (bytes d)"

lemma length_data_inner: "tbuf_ok n \<Longrightarrow> bsize n = 8 \<Longrightarrow> tbuf_ok d \<Longrightarrow> length (data_inner n d) = 24 + ceil4 (bsize d)"
  by (simp add: data_inner_def length_enc_bytes length_bytes ceil4_id)

lemma prepare_data_ok:
  assumes e: "udp_ok e" and m: "length (mdata m) = max_len" and k: "key_ok k" and o: "tbuf_ok old" "bsize old = 8" and n: "tbuf_ok new" "bsize new = 8"
    and d: "tbuf_ok d" "0 < bsize d" "bsize d \<le> 65176" and r: "rand4 (ucrypt e) = Some r"
  obtains m' where "prepare_data e old new k d m = (Done True, m')" "msg_ok m'" "length r = 4"
    "wire m' = enc32 8 @ packet (take 16 (bytes k)) (bytes old) r (data_inner new d)"
proof -
  note P = fresh_pbuf_ok [OF e] udp_okD(3) [OF e]
  have X: "xb (xdr_new b) = b" for b by (simp add: xdr_new_def)
  obtain b0 where b0: "put_res (xdr_put_i32 (upages e) 8 (xdr_new (fresh_pbuf e))) = Done ((xdr_new (fresh_pbuf e))\<lparr>xb := b0\<rparr>)" "pbuf_ok b0" "pbytes b0 = enc32 8"
    by (rule put_type [OF e])
  have b0s: "psize b0 = 4" using b0(2,3) by (simp add: pbuf_ok_def)
  note W = put_res_writes [OF put_bindata_writes [OF _ P(2)]]
  obtain b1 where b1: "put_res (xdr_put_bindata (upages e) (Some (bdata new)) (bsize new) (xdr_new (fresh_pbuf e))) = Done ((xdr_new (fresh_pbuf e))\<lparr>xb := b1\<rparr>)"
      "pbuf_ok b1" "pbytes b1 = enc_bytes (bytes new)"
    using W [OF _ n(1), of "xdr_new (fresh_pbuf e)"] n P(1) unfolding X by auto
  obtain b2 where b2: "put_res (xdr_put_bindata (upages e) (Some (bdata d)) (bsize d) ((xdr_new (fresh_pbuf e))\<lparr>xb := b1\<rparr>)) = Done ((xdr_new (fresh_pbuf e))\<lparr>xb := b2\<rparr>)"
      "pbuf_ok b2" "pbytes b2 = data_inner new d"
    using W [OF _ d(1), of "(xdr_new (fresh_pbuf e))\<lparr>xb := b1\<rparr>"] d b1 by (auto simp: data_inner_def)
  have L: "length (pbytes b2) \<le> 65200" using b2(3) length_data_inner [OF n d(1)] ceil4_le [of 65176 "bsize d"] d(3) by simp
  let ?old = "tbuf_assign (uml e) old (fresh e 8)"
  note old = salt_copy [OF e o]
  obtain m' where m': "seal_packet e ?old k b2 (psize b0) (put_outer b0 m) = (Done True, m')" "msg_ok m'" "length r = 4"
      "wire m' = pbytes b0 @ packet (take 16 (bytes k)) (bytes ?old) r (pbytes b2)"
    using sealed_message [OF e k old(1,2) b2(2) L r b0(2) m] L b0(3) by auto
  have "prepare_data e old new k d m = seal_packet e ?old k b2 (psize b0) (put_outer b0 m)"
    unfolding prepare_data_def using o(2) n(2) d(2) ustr_size_key [OF k] b0 b0s b1(1) b2(1) by simp
  then show thesis using that [of m'] m' old(3) b0(3) b2(3) by simp
qed

lemma data_open_eq:
  assumes "udp_ok e" and "msg_ok m" and "4 \<le> msize m" and "take 4 (mdata m) = enc32 8" and "key_ok k"
  shows "data_open e k m = open_packet e k m 4" and "\<exists>x. read_type e 0 4 m = Done (8, x) \<and> position x = Some 4"
proof -
  obtain x where "read_type e 0 4 m = Done (8, x)" "position x = Some 4"
    using read_type_ok [OF assms(1,2), of 4 8 0] assms(4) by auto
  then show "data_open e k m = open_packet e k m 4" "\<exists>x. read_type e 0 4 m = Done (8, x) \<and> position x = Some 4"
    using assms(3) ustr_size_key [OF assms(5)] by (simp_all add: data_open_def)
qed

text \<open>Whatever arrives, no salt is ever read from it.\<close>

lemma data_open_inv: "udp_ok e \<Longrightarrow> data_open e k m = Done (Some d) \<Longrightarrow> tbuf_ok d"
  by (auto simp: data_open_def uthr_def ubind_Done split: if_splits option.splits intro: open_packet_inv)

lemma init_data_never: "udp_ok e \<Longrightarrow> init_data e ns k m rd \<noteq> (Done True, ns', rd')"
  using data_open_inv [of e k m] read_salt_opened [of e]
  by (auto simp: init_data_def give_up_never split: ures.splits option.splits prod.splits)

lemma data_recv_never: "udp_ok e \<Longrightarrow> fst (data_recv e os c rd) \<noteq> Done True"
  using init_data_never [of "no_exc e"]
  by (auto simp: data_recv_def uthr_def Let_def split: prod.splits ures.splits bool.splits option.splits)

subsection \<open>Properties\<close>

text \<open>
  C19: a data packet carries what it is made for. For up to 65172 bytes of data \<^verbatim>\<open>prepare_data\<close> makes
  the message type, salt, sealed contents and tag; whoever receives exactly these bytes, in an
  environment of its own, finds the old salt in the header, and opening the packet with the session
  key gives a stream from which the sized reads get the new salt and the data back.
\<close>

theorem data_packet_opens:
  assumes "udp_ok e" and "msg_ok m" and "key_ok k" and "tbuf_ok old \<and> bsize old = 8" and "tbuf_ok new \<and> bsize new = 8"
    and "tbuf_ok d \<and> 0 < bsize d \<and> bsize d \<le> 65172" and "rand4 (ucrypt e) = Some r" and "udp_ok e2" and "tbuf_ok slt"
  shows "\<exists>m'. prepare_data e old new k d m = (Done True, m') \<and> msg_ok m' \<and>
    wire m' = enc32 (type_code data_p) @ packet (take 16 (bytes k)) (bytes old) r (data_inner new d) \<and>
    (\<forall>m2. msg_ok m2 \<and> wire m2 = wire m' \<longrightarrow>
      (\<exists>s t x x1 x2. get_salt e2 slt m2 = Done (True, s) \<and> bytes s = bytes old \<and>
        data_open e2 k m2 = Done (Some t) \<and> inner_stream e2 t = Done x \<and>
        get_data_max 8 x = Some (Inr (True, 8, bytes new), x1) \<and>
        get_data_max max_len x1 = Some (Inr (True, bsize d, bytes d), x2)))"
proof -
  have d: "tbuf_ok d" "0 < bsize d" "bsize d \<le> 65172" and o: "tbuf_ok old" "bsize old = 8" and n: "tbuf_ok new" "bsize new = 8"
    using assms(4-6) by simp_all
  obtain m' where m': "prepare_data e old new k d m = (Done True, m')" "msg_ok m'" "length r = 4"
      "wire m' = enc32 8 @ packet (take 16 (bytes k)) (bytes old) r (data_inner new d)"
    using prepare_data_ok [OF assms(1) _ assms(3) o n d(1,2) _ assms(7), of m] assms(2) d(3) by (auto simp: msg_ok_def)
  have L: "length (bytes old) = 8" "length (data_inner new d) \<le> 65196"
    using o length_bytes length_data_inner [OF n d(1)] ceil4_le [of 65172 "bsize d"] d(3) by simp_all
  have "\<exists>s t x x1 x2. get_salt e2 slt m2 = Done (True, s) \<and> bytes s = bytes old \<and>
        data_open e2 k m2 = Done (Some t) \<and> inner_stream e2 t = Done x \<and>
        get_data_max 8 x = Some (Inr (True, 8, bytes new), x1) \<and>
        get_data_max max_len x1 = Some (Inr (True, bsize d, bytes d), x2)" if "msg_ok m2" "wire m2 = wire m'" for m2
  proof -
    let ?pk = "packet (take 16 (bytes k)) (bytes old) r (data_inner new d)"
    note w = wire_eq [OF that(1) that(2) [unfolded m'(4)]]
    have s2: "msize m2 = 4 + length (data_inner new d) + 20" "msize m2 \<le> max_len" "length (mdata m2) = max_len"
      using w(1) L(1) m'(3) that(1) by (simp_all add: msg_ok_def)
    have t4: "take 4 (mdata m2) = enc32 8" using w(3) by simp
    note op = data_open_eq [OF assms(8) that(1) _ t4 assms(3), unfolded s2(1), simplified]
    obtain t where t: "open_packet e2 k m2 4 = Done (Some t)" "tbuf_ok t" "bytes t = data_inner new d"
      using open_sealed [OF assms(8,3) s2(3) w(2) L(1) m'(3) L(2)] s2 by auto
    obtain x where x: "inner_stream e2 t = Done x" "xdr_ok x" "xexc x" "rest x = bytes t"
      using inner_stream_ok [OF assms(8) t(2)] by blast
    obtain x1 where x1: "get_data_max 8 x = Some (Inr (True, 8, bytes new), x1)" "xdr_ok x1" "rest x1 = enc_bytes (bytes d)"
      using get_data_max_ok [OF x(2), of "bytes new" "enc_bytes (bytes d)" 8] x(4) t(3) n length_bytes [OF n(1)] by (auto simp: data_inner_def)
    obtain x2 where x2: "get_data_max max_len x1 = Some (Inr (True, bsize d, bytes d), x2)"
      using get_data_max_ok [OF x1(2), of "bytes d" "[]" max_len] x1(3) d length_bytes [OF d(1)] by auto
    obtain s where s: "set_from e2 m2 (of_nat 4) (of_nat 8) slt = Done s" "bytes s = take 8 (drop 4 (mdata m2))"
      using set_from_ok [OF assms(8,9) s2(3), of 8 4] by auto
    have "take 8 (drop 4 (mdata m2)) = bytes old" by (subst w(2)) (simp add: packet_def Let_def L(1))
    then have "get_salt e2 slt m2 = Done (True, s) \<and> bytes s = bytes old"
      using s op(2) s2(1) by (auto simp: get_salt_def)
    then show ?thesis using op(1) t(1) x(1) x1(1) x2 by auto
  qed
  then show ?thesis using m' by (intro exI [of _ m']) simp
qed

theorem data_packet_opens_witness:
  "\<exists>m'. prepare_data udp_env0 (tbuf_of (replicate 8 1)) (tbuf_of (replicate 8 2)) (tbuf_of (replicate 40 65 @ [0])) (tbuf_of [104, 105]) (msg_of []) = (Done True, m') \<and>
     wire m' = enc32 8 @ packet (replicate 16 65) (replicate 8 1) [1, 2, 3, 4] (enc_bytes (replicate 8 2) @ enc_bytes [104, 105]) \<and>
     (\<exists>t x x1 x2. data_open udp_env0 (tbuf_of (replicate 40 65 @ [0])) m' = Done (Some t) \<and> inner_stream udp_env0 t = Done x \<and>
        get_data_max 8 x = Some (Inr (True, 8, replicate 8 2), x1) \<and> get_data_max max_len x1 = Some (Inr (True, 2, [104, 105]), x2))"
proof -
  have k: "key_ok (tbuf_of (replicate 40 65 @ [0]))" by (simp add: key_ok_def)
  have t: "take 16 (replicate 40 65 @ [0]) = replicate 16 (65 :: u8)" by simp
  show ?thesis
    using data_packet_opens [OF udp_env0_ok(1) msg_of_ok(1) k, of "[]" "tbuf_of (replicate 8 1)" "tbuf_of (replicate 8 2)" "tbuf_of [104, 105]" "[1, 2, 3, 4]"
        udp_env0 "tbuf_of []"] by (fastforce simp: t data_inner_def)
qed

text \<open>
  C20: the server never delivers data. Whatever message arrives and under whatever session key,
  \<^verbatim>\<open>init_data\<close> does not return true, so the callbacks \<^verbatim>\<open>handle_data_cb_\<close> and \<^verbatim>\<open>update_session_cb_\<close> are never
  called: the state after \<^verbatim>\<open>operator()\<close> does not depend on them. The client's \<^verbatim>\<open>recv\<close> never returns true
  either. The reason is the \<^verbatim>\<open>get_data\<close> template,
  which takes the upper half of the 64-bit size in front of the salt for its size.
\<close>

theorem data_never_delivered:
  assumes "udp_ok e"
  shows "fst (init_data e ns k m rd) \<noteq> Done True \<and> fst (data_recv e os c rd) \<noteq> Done True \<and>
    data_handler e (cbs\<lparr>handle_data_cb := h, update_session_cb := u\<rparr>) sk ms msgs s = data_handler e cbs sk ms msgs s"
proof -
  have n: "init_data e ns' k' m' rd' \<noteq> (Done True, p)" for ns' k' m' rd' p
    using init_data_never [OF assms] by (cases p) simp
  then have "data_process e (cbs\<lparr>handle_data_cb := h, update_session_cb := u\<rparr>) sk m' s = data_process e cbs sk m' s" for m' s
    by (auto simp: data_process_def data_lookup_def split: ures.split prod.split bool.split)
  then have "data_handler e (cbs\<lparr>handle_data_cb := h, update_session_cb := u\<rparr>) sk ms msgs s = data_handler e cbs sk ms msgs s"
    by (auto simp: data_handler_def split: prod.split ures.split option.split)
  then show ?thesis using n [of ns k m rd] data_recv_never [OF assms] by (cases "init_data e ns k m rd") auto
qed

theorem data_never_delivered_witness:
  "\<exists>m'. prepare_data udp_env0 (tbuf_of (replicate 8 1)) (tbuf_of (replicate 8 2)) (tbuf_of (replicate 40 65 @ [0])) (tbuf_of [104, 105]) (msg_of []) = (Done True, m') \<and>
     fst (init_data udp_env0 (tbuf_of []) (tbuf_of (replicate 40 65 @ [0])) m' (tbuf_of [])) \<noteq> Done True"
proof -
  have k: "key_ok (tbuf_of (replicate 40 65 @ [0]))" by (simp add: key_ok_def)
  obtain m' where "prepare_data udp_env0 (tbuf_of (replicate 8 1)) (tbuf_of (replicate 8 2)) (tbuf_of (replicate 40 65 @ [0])) (tbuf_of [104, 105]) (msg_of []) = (Done True, m')"
    using prepare_data_ok [OF udp_env0_ok(1) _ k, of "msg_of []" "tbuf_of (replicate 8 1)" "tbuf_of (replicate 8 2)" "tbuf_of [104, 105]" "[1, 2, 3, 4]"]
    by (auto simp: msg_of_def)
  then show ?thesis using data_never_delivered [OF udp_env0_ok(1), THEN conjunct1] by blast
qed

text \<open>
  C26: a tampered packet ends the thread that handles it. With exceptions on, \<^verbatim>\<open>crypt_pkt::decrypt\<close>
  throws \<^verbatim>\<open>sec::exc\<close> for a wrong tag; \<^verbatim>\<open>init_data\<close> catches \<^verbatim>\<open>common::exc\<close>, \<^verbatim>\<open>operator()\<close> that and
  \<^verbatim>\<open>comm::exc\<close>, so the exception leaves the handler.
\<close>

theorem data_tampered_escapes:
  assumes "udp_ok e" and "use_exc (ucrypt e)" and "msg_ok m" and "msize m = 20 + n" and "4 \<le> n" and "n \<le> 65200"
    and "take 4 (mdata m) = enc32 (type_code data_p)" and "key_ok k" and "\<forall>slt. data_lookup e cbs slt m s = (True, k, s')"
    and "take 8 (drop (12 + n) (mdata m)) \<noteq> tag_of (take 16 (bytes k)) (take 8 (drop 4 (mdata m))) (take n (drop 12 (mdata m)))"
  shows "data_process e cbs sk m s = (Raise (Sec rs_cksum), s')"
proof -
  have l: "length (mdata m) = max_len" "msize m = 4 + 16 + n" "msize m \<le> max_len" "4 \<le> msize m"
    using assms(3,4) by (simp_all add: msg_ok_def)
  note op = data_open_eq [OF assms(1,3) l(4) _ assms(8)]
  have c: "4 + 8 + n = 12 + n" "4 + 8 = (12 :: nat)" by simp_all
  have "open_packet e k m 4 = Raise (Sec rs_cksum)"
    using open_packet_ok [OF assms(1,8) l(1,2) assms(5,6) l(3), unfolded c] unfolding if_not_P [OF assms(10)] if_P [OF assms(2)] .
  then have "data_open e k m = Raise (Sec rs_cksum)"
    using op(1) assms(7) by simp
  then have i: "init_data e ns k m rd = (Raise (Sec rs_cksum), ns, rd)" for ns rd
    by (simp add: init_data_def give_up_def catch_common_def)
  obtain t where "set_from e m (of_nat 4) (of_nat 8) (fresh e 8) = Done t"
    using set_from_ok [OF assms(1) fresh_ok(1) [of e 8] l(1), of 8 4] by auto
  then have "get_salt e (fresh e 8) m = Done (True, t)"
    using op(2) assms(7) l(4) by (auto simp: get_salt_def)
  then show ?thesis using assms(9) i by (simp add: data_process_def catch_handler_def)
qed

theorem data_tampered_escapes_witness:
  "\<exists>k d. data_process udp_env0 \<lparr>lookup_session_cb = Some (\<lambda>slt a k0 s. (True, k, s + 1)), handle_data_cb = None, update_session_cb = None\<rparr> 3 (msg_of d) (0 :: nat) =
     (Raise (Sec rs_cksum), 1)"
proof -
  define k where "k = tbuf_of (replicate 40 65 @ [0])"
  define ct slt where "ct = replicate 9 (7 :: u8)" and "slt = replicate 8 (1 :: u8)"
  define bad where "bad = (if tag_of (take 16 (bytes k)) slt ct = replicate 8 0 then replicate 8 1 else replicate 8 0 :: u8 list)"
  define d where "d = enc32 8 @ slt @ ct @ bad"
  have b: "bad \<noteq> tag_of (take 16 (bytes k)) slt ct" by (auto simp: bad_def)
  have n: "length slt = 8" "length ct = 9" "length bad = 8" by (simp_all add: slt_def ct_def bad_def)
  have md: "mdata (msg_of d) = enc32 8 @ slt @ ct @ bad @ replicate (max_len - 29) 0" by (simp add: msg_of_def d_def n)
  have f: "take 4 (mdata (msg_of d)) = enc32 8" "take 8 (drop 4 (mdata (msg_of d))) = slt"
      "take 9 (drop 12 (mdata (msg_of d))) = ct" "take 8 (drop 21 (mdata (msg_of d))) = bad"
    by (simp_all add: md n)
  have s: "msize (msg_of d) = 20 + 9" "msg_ok (msg_of d)" "key_ok k" by (simp_all add: d_def n key_ok_def k_def)
  have "data_process udp_env0 \<lparr>lookup_session_cb = Some (\<lambda>slt a k0 s. (True, k, s + 1)), handle_data_cb = None, update_session_cb = None\<rparr> 3 (msg_of d) (0 :: nat) =
     (Raise (Sec rs_cksum), 1)"
    by (rule data_tampered_escapes [OF udp_env0_ok(1,3) s(2,1) _ _ _ s(3)]) (use b in \<open>simp_all add: f data_lookup_def\<close>)
  then show ?thesis by blast
qed

text \<open>
  A message of four to seven bytes makes the server read in front of the message. The size of
  what follows the type is less than a footer, the difference wraps, and the footer is copied from
  an address before \<^verbatim>\<open>data_\<close>.
\<close>

theorem data_short_message:
  assumes "udp_ok e" and "msg_ok m" and "4 \<le> msize m" and "msize m < 8" and "take 4 (mdata m) = enc32 (type_code data_p)" and "ustr_size k \<noteq> 0"
  shows "init_data e ns k m rd = (Undef Out_of_bounds, ns, rd)"
proof -
  obtain x where x: "read_type e 0 4 m = Done (8, x)" "position x = Some 4"
    using read_type_ok [OF assms(1,2), of 4 8 0] assms(5) by auto
  have l: "length (mdata m) = max_len" using assms(2) by (simp add: msg_ok_def)
  obtain h where h: "set_from e m (of_nat 4) (of_nat 8) (fresh e 8) = Done h"
    using set_from_ok [OF assms(1) fresh_ok(1) [of e 8] l, of 8 4] by auto
  have "msize m \<in> {4, 5, 6, 7}" using assms(3,4) by auto
  then have "sint ((of_nat (msize m) :: u64) - 8) < 0" by (elim insertE emptyE) simp_all
  then have "set_from e m (of_nat (msize m) - 8) 8 (fresh e 8) = Undef Out_of_bounds"
    using allocate_mal_total [OF udp_okD(2) [OF assms(1)]] by (simp add: set_from_def msg_read_def)
  then have "data_open e k m = Undef Out_of_bounds"
    using assms(3,6) x h by (simp add: data_open_def open_packet_def Let_def)
  then show ?thesis by (simp add: init_data_def give_up_def catch_common_def)
qed

theorem data_short_message_witness:
  "init_data udp_env0 (tbuf_of []) (tbuf_of [65, 0]) (msg_of (enc32 8 @ [9])) (tbuf_of []) = (Undef Out_of_bounds, tbuf_of [], tbuf_of [])"
  by (rule data_short_message) (simp_all add: msg_of_def msg_ok_def ustr_size_def)

text \<open>
  C25: \<^verbatim>\<open>data_cli::send\<close> chains its salts. Each packet is sealed under the salt the previous one carried:
  when the system takes the whole packet, the random salt in it becomes \<^verbatim>\<open>my_salt_\<close>; when it does
  not, the call reports \<open>rs_send_failed\<close> and the client is as before.
\<close>

theorem data_send_chains_salts:
  assumes "udp_ok e" and "0 < sock c" and "key_ok (session_key c)" and "tbuf_ok (my_salt c) \<and> bsize (my_salt c) = 8"
    and "tbuf_ok d \<and> 0 < bsize d \<and> bsize d \<le> 65172" and "os_rand os 8 = Some r8" and "length r8 = 8" and "rand4 (ucrypt e) = Some r"
  defines "pk \<equiv> enc32 (type_code data_p) @ packet (take 16 (bytes (session_key c))) (bytes (my_salt c)) r (enc_bytes r8 @ enc_bytes (bytes d))"
  shows "if os_send os pk = int (length pk)
    then \<exists>t. data_send e os c d = (Done True, c\<lparr>my_salt := t\<rparr>, Some pk) \<and> tbuf_ok t \<and> bsize t = 8 \<and> bytes t = r8
    else data_send e os c d = (uthr e comm_send_failed False, c, Some pk)"
proof -
  let ?new = "gen_rand e os 8 (fresh e 8)"
  have n: "tbuf_ok ?new" "bsize ?new = 8" "bytes ?new = r8" using gen_rand_ok [OF assms(1,6,7)] by simp_all
  have s: "tbuf_ok (my_salt c)" "bsize (my_salt c) = 8" "tbuf_ok d" "0 < bsize d" "bsize d \<le> 65176" using assms(4,5) by simp_all
  obtain m' where m': "prepare_data (no_exc e) (my_salt c) ?new (session_key c) d (fresh_msg e) = (Done True, m')" "msg_ok m'" "wire m' = pk"
    using prepare_data_ok [of "no_exc e", OF _ fresh_msg_ok [OF assms(1)] assms(3) s(1,2) n(1,2) s(3-5)] assms(1,8) n(3)
    by (auto simp: pk_def data_inner_def)
  have w: "msize m' = length pk" using m'(2,3) by (auto simp: wire_def msg_ok_def)
  have "bytes (tbuf_assign (uml e) ?new (my_salt c)) = r8" "tbuf_ok (tbuf_assign (uml e) ?new (my_salt c))"
    using tbuf_assign_ok [OF s(1) udp_okD(1) [OF assms(1)] n(1)] n s(2) by (simp_all add: allocate_nocopy_def)
  moreover from this have "bsize (tbuf_assign (uml e) ?new (my_salt c)) = 8" using length_bytes assms(7) by fastforce
  ultimately show ?thesis
    using m' w s(2) assms(2) by (auto simp: data_send_def data_init_def Let_def)
qed

theorem data_send_chains_salts_witness:
  "\<exists>t. data_send udp_env0 \<lparr>os_socket = 3, os_connect = 0, os_select = 1, os_recv = (\<lambda>n. None), os_send = (\<lambda>p. int (length p)), os_rand = (\<lambda>n. Some (replicate n 9))\<rparr>
     \<lparr>server_salt = tbuf_of [], my_salt = tbuf_of (replicate 8 1), session_key = tbuf_of (replicate 40 65 @ [0]), sock = 3\<rparr> (tbuf_of [104, 105]) =
     (Done True, \<lparr>server_salt = tbuf_of [], my_salt = t, session_key = tbuf_of (replicate 40 65 @ [0]), sock = 3\<rparr>,
      Some (enc32 8 @ packet (replicate 16 65) (replicate 8 1) [1, 2, 3, 4] (enc_bytes (replicate 8 9) @ enc_bytes [104, 105]))) \<and> bytes t = replicate 8 9"
proof -
  have t: "take 16 (replicate 40 65 @ [0]) = replicate 16 (65 :: u8)" by simp
  have k: "key_ok (tbuf_of (replicate 40 65 @ [0]))" by (simp add: key_ok_def)
  show ?thesis
    using data_send_chains_salts [OF udp_env0_ok(1), of "\<lparr>server_salt = tbuf_of [], my_salt = tbuf_of (replicate 8 1), session_key = tbuf_of (replicate 40 65 @ [0]), sock = 3\<rparr>" "tbuf_of [104, 105]"
        "\<lparr>os_socket = 3, os_connect = 0, os_select = 1, os_recv = (\<lambda>n. None), os_send = (\<lambda>p. int (length p)), os_rand = (\<lambda>n. Some (replicate n 9))\<rparr>" "replicate 8 9" "[1, 2, 3, 4]"] k
    by (auto simp: t)
qed

end
