(* ===== verification/Ecdh_Xdr.thy ===== *)
theory Ecdh_Xdr
  imports Udp_Msg
begin

section \<open>Public keys on the wire\<close>

text \<open>
  \<^verbatim>\<open>to_xdr\<close> and \<^verbatim>\<open>from_xdr\<close> of \<^verbatim>\<open>bignum\<close> (\<^verbatim>\<open>src/sec/bignum.cc\<close>, \<^verbatim>\<open>src/sec/bignum.hh\<close>) and of \<^verbatim>\<open>ecdh_key\<close>
  (\<^verbatim>\<open>src/sec/ecdh_key.cc\<close>, \<^verbatim>\<open>src/sec/ecdh_key.hh\<close>), which hello and auth packets are made of. The key is the
  name of its curve and two coordinates. What \<^verbatim>\<open>gen_sha1hex_shared_key\<close> computes is OpenSSL's
  \<^verbatim>\<open>ECDH_compute_key\<close>, a parameter where it is used.
\<close>

record bignum =
  bn_buf :: tbuf
  is_negative :: bool

record ecdh_key =
  algname :: tbuf
  key_x :: bignum
  key_y :: bignum

definition has_data :: "ecdh_key \<Rightarrow> bool" where
  "has_data k \<longleftrightarrow> \<not> is_empty (bn_buf (key_x k)) \<and> \<not> is_empty (bn_buf (key_y k)) \<and> ustr_size (algname k) > 0"

definition fresh_bignum :: "udp_env \<Rightarrow> bignum" where
  "fresh_bignum e = \<lparr>bn_buf = fresh e 128, is_negative = False\<rparr>"

definition fresh_key :: "udp_env \<Rightarrow> ecdh_key" where
  "fresh_key e = \<lparr>algname = fresh_ustr e, key_x = fresh_bignum e, key_y = fresh_bignum e\<rparr>"

subsection \<open>Writing\<close>

text \<open>The steps inside a try block that turns \<^verbatim>\<open>common::exc\<close> into false.\<close>

definition put_step :: "(xstop + unit) \<times> xdrbuf \<Rightarrow> (xdrbuf \<Rightarrow> bool ures \<times> xdrbuf) \<Rightarrow> bool ures \<times> xdrbuf" where
  "put_step r f = (case r of (Inl (XThrow _), x) \<Rightarrow> (Done False, x) | (Inl XNull, x) \<Rightarrow> (Undef Null_pointer, x) | (Inr _, x) \<Rightarrow> f x)"

definition bignum_to_xdr :: "(nat \<Rightarrow> u8 list option) \<Rightarrow> bignum \<Rightarrow> xdrbuf \<Rightarrow> bool ures \<times> xdrbuf" where
  "bignum_to_xdr pages b x =
     (let is_neg = (if is_negative b then 1 else 0)
      in put_step (xdr_put_i32 pages is_neg x) (\<lambda>x.
           if is_neg \<noteq> 0 \<and> is_neg \<noteq> 1 then (Done False, x)
           else put_step (xdr_put_bindata pages (Some (bdata (bn_buf b))) (bsize (bn_buf b)) x) (\<lambda>x. (Done True, x))))"

definition ecdh_to_xdr :: "(nat \<Rightarrow> u8 list option) \<Rightarrow> ecdh_key \<Rightarrow> xdrbuf \<Rightarrow> bool ures \<times> xdrbuf" where
  "ecdh_to_xdr pages k x =
     put_step (xdr_put_ustr pages (algname k) x) (\<lambda>x.
       (case bignum_to_xdr pages (key_x k) x of
          (Done True, x) \<Rightarrow> bignum_to_xdr pages (key_y k) x
        | r \<Rightarrow> r))"

subsection \<open>Reading\<close>

definition bignum_from_xdr :: "udp_env \<Rightarrow> bignum \<Rightarrow> xdrbuf \<Rightarrow> bool ures \<times> bignum \<times> xdrbuf" where
  "bignum_from_xdr e b x =
     (case xdr_get_i32 x of
        None \<Rightarrow> (Undef No_return, b, x)
      | Some (Inl (XThrow _), x) \<Rightarrow> (Done False, b, x)
      | Some (Inl XNull, x) \<Rightarrow> (Undef Null_pointer, b, x)
      | Some (Inr v, x) \<Rightarrow>
          let is_neg = (case v of None \<Rightarrow> 0 | Some w \<Rightarrow> w)
          in (case get_data_t (uml e) (ujunk e) 2048 0 (bn_buf b) x of
                None \<Rightarrow> (Undef No_return, b, x)
              | Some (Inl (XThrow _), t, x) \<Rightarrow> (Done False, b\<lparr>bn_buf := t\<rparr>, x)
              | Some (Inl XNull, t, x) \<Rightarrow> (Undef Null_pointer, b\<lparr>bn_buf := t\<rparr>, x)
              | Some (Inr (r, _), t, x) \<Rightarrow>
                  if r then (Done True, b\<lparr>bn_buf := t, is_negative := is_neg \<noteq> 0\<rparr>, x)
                  else (Done False, b\<lparr>bn_buf := t\<rparr>, x)))"

text \<open>
  The name is read into \<^verbatim>\<open>char tmp[64]\<close>, at most 64 bytes, and a zero is put behind it. Assigning a C
  string stores it up to its first zero.
\<close>

definition ecdh_from_xdr :: "udp_env \<Rightarrow> ecdh_key \<Rightarrow> xdrbuf \<Rightarrow> bool ures \<times> ecdh_key \<times> xdrbuf" where
  "ecdh_from_xdr e k x =
     (case get_data_max 64 x of
        None \<Rightarrow> (Undef No_return, k, x)
      | Some (Inl (XThrow _), x) \<Rightarrow> (Done False, k, x)
      | Some (Inl XNull, x) \<Rightarrow> (Undef Null_pointer, k, x)
      | Some (Inr (r, sz, d), x) \<Rightarrow>
          if r
          then (if sz \<ge> 64 then (Undef Out_of_bounds, k, x)
                else let s = takeWhile (\<lambda>c. c \<noteq> 0) d;
                         k = k\<lparr>algname := fst (tbuf_set (uml e) (Some (s @ [0])) (length s + 1) (algname k))\<rparr>
                     in (case bignum_from_xdr e (key_x k) x of
                           (Done True, b, x) \<Rightarrow>
                             (case bignum_from_xdr e (key_y k) x of
                                (r, b', x) \<Rightarrow> (r, k\<lparr>key_x := b, key_y := b'\<rparr>, x))
                         | (r, b, x) \<Rightarrow> (r, k\<lparr>key_x := b\<rparr>, x)))
          else (Done False, k, x))"

subsection \<open>Properties\<close>

definition enc_bignum :: "bignum \<Rightarrow> u8 list" where
  "enc_bignum b = enc32 (if is_negative b then 1 else 0) @ enc_bytes (bytes (bn_buf b))"

definition enc_key :: "ecdh_key \<Rightarrow> u8 list" where
  "enc_key k = enc_bytes (bytes (algname k)) @ enc_bignum (key_x k) @ enc_bignum (key_y k)"

definition tbuf_fits :: "tbuf \<Rightarrow> bool" where
  "tbuf_fits t \<longleftrightarrow> tbuf_ok t \<and> bsize t < 2 ^ 64 - 3"

definition ecdh_ok :: "ecdh_key \<Rightarrow> bool" where
  "ecdh_ok k \<longleftrightarrow> tbuf_fits (algname k) \<and> tbuf_fits (bn_buf (key_x k)) \<and> tbuf_fits (bn_buf (key_y k))"

lemma put_step_writes: "writes r x d \<Longrightarrow> \<exists>b. put_step r f = f (x\<lparr>xb := b\<rparr>) \<and> pbuf_ok b \<and> pbytes b = pbytes (xb x) @ d"
  by (auto simp: writes_def put_step_def)

lemma bignum_to_xdr_ok:
  assumes "pbuf_ok (xb x)" and "pages_ok pages" and "tbuf_fits (bn_buf b)"
  obtains c where "bignum_to_xdr pages b x = (Done True, x\<lparr>xb := c\<rparr>)" "pbuf_ok c" "pbytes c = pbytes (xb x) @ enc_bignum b"
proof -
  let ?n = "if is_negative b then 1 else 0 :: u32"
  obtain c where c: "\<And>f. put_step (xdr_put_i32 pages ?n x) f = f (x\<lparr>xb := c\<rparr>)" "pbuf_ok c" "pbytes c = pbytes (xb x) @ enc32 ?n"
    using put_int_writes(1) [OF assms(1,2), of ?n] by (auto simp: writes_def put_step_def)
  obtain c' where c': "put_step (xdr_put_bindata pages (Some (bdata (bn_buf b))) (bsize (bn_buf b)) (x\<lparr>xb := c\<rparr>)) (\<lambda>x. (Done True, x)) = (Done True, x\<lparr>xb := c'\<rparr>)"
      "pbuf_ok c'" "pbytes c' = pbytes c @ enc_bytes (bytes (bn_buf b))"
    using put_step_writes [OF put_bindata_writes [of "x\<lparr>xb := c\<rparr>" pages "bn_buf b"], of "\<lambda>x. (Done True, x)"] c(2) assms(2,3) by (auto simp: tbuf_fits_def)
  then show thesis
    using that [of c'] c by (simp add: bignum_to_xdr_def enc_bignum_def Let_def split: if_splits)
qed

lemma ecdh_to_xdr_ok:
  assumes "pbuf_ok (xb x)" and "pages_ok pages" and "ecdh_ok k"
  obtains c where "ecdh_to_xdr pages k x = (Done True, x\<lparr>xb := c\<rparr>)" "pbuf_ok c" "pbytes c = pbytes (xb x) @ enc_key k"
proof -
  have k: "tbuf_ok (algname k)" "bsize (algname k) < 2 ^ 64 - 3" "tbuf_fits (bn_buf (key_x k))" "tbuf_fits (bn_buf (key_y k))"
    using assms(3) by (simp_all add: ecdh_ok_def tbuf_fits_def)
  then have l: "length (bytes (algname k)) < 2 ^ 64 - 3" by (simp add: length_bytes)
  obtain c where c: "\<And>f. put_step (xdr_put_ustr pages (algname k) x) f = f (x\<lparr>xb := c\<rparr>)" "pbuf_ok c" "pbytes c = pbytes (xb x) @ enc_bytes (bytes (algname k))"
    using put_bytes_writes(3) [OF assms(1,2) l refl k(1)] by (auto simp: writes_def put_step_def)
  obtain c1 where c1: "bignum_to_xdr pages (key_x k) (x\<lparr>xb := c\<rparr>) = (Done True, x\<lparr>xb := c1\<rparr>)" "pbuf_ok c1" "pbytes c1 = pbytes c @ enc_bignum (key_x k)"
    by (rule bignum_to_xdr_ok [of "x\<lparr>xb := c\<rparr>", OF _ assms(2) k(3)]) (use c(2) in simp_all)
  obtain c2 where "bignum_to_xdr pages (key_y k) (x\<lparr>xb := c1\<rparr>) = (Done True, x\<lparr>xb := c2\<rparr>)" "pbuf_ok c2" "pbytes c2 = pbytes c1 @ enc_bignum (key_y k)"
    by (rule bignum_to_xdr_ok [of "x\<lparr>xb := c1\<rparr>", OF _ assms(2) k(4)]) (use c1(2) in simp_all)
  then show thesis using that [of c2] c c1 by (simp add: ecdh_to_xdr_def enc_key_def)
qed

text \<open>Reading leaves the stream well-formed, and never succeeds.\<close>

lemma get_size_inv:
  assumes "xdr_ok x"
  obtains r x' where "get_size x = Some (r, x')" "xdr_ok x'" "xexc x' = xexc x"
proof -
  obtain x8 where "get_exact 8 x = Some (if 8 \<le> length (rest x) then (Inr (Some (take 8 (rest x))), x8)
      else if rest x = [] then xthr x8 rs_xdr_eof None else xthr x8 rs_xdr_invalid None)" "xdr_ok x8" "xexc x8 = xexc x"
    using get_exact_ok [OF assms, of 8] by auto
  then show thesis using that by (auto simp: get_size_def xdr_get_u64_def xthr_def split: if_splits)
qed

lemma get_data_max_inv:
  assumes "xdr_ok x" and "get_data_max k x = Some (Inr (True, sz, d), x')"
  shows "xdr_ok x' \<and> xexc x' = xexc x"
proof -
  obtain r x1 where x1: "get_size x = Some (r, x1)" "xdr_ok x1" "xexc x1 = xexc x" by (rule get_size_inv [OF assms(1)])
  then obtain n where "r = Inr n" "n \<le> k" using assms(2) by (cases r) (auto simp: get_data_max_def Let_def split: if_splits)
  then show ?thesis
    using get_data_ok [OF x1(2), of n] x1 assms(2) by (auto simp: get_data_max_def xthr_def Let_def split: if_splits)
qed

lemma bignum_from_xdr_never:
  assumes "xdr_ok x" and "xexc x"
  shows "bignum_from_xdr e b x \<noteq> (Done True, r)"
proof -
  obtain x4 where x4: "get_exact 4 x = Some (if 4 \<le> length (rest x) then (Inr (Some (take 4 (rest x))), x4)
      else if rest x = [] then xthr x4 rs_xdr_eof None else xthr x4 rs_xdr_invalid None)" "xdr_ok x4" "xexc x4"
    using get_exact_ok [OF assms(1), of 4] assms(2) by auto
  then show ?thesis
    using get_data_t_false [OF x4(2,3), of 2048 "uml e" "ujunk e" 0 "bn_buf b"]
    by (auto simp: bignum_from_xdr_def xdr_get_i32_def xthr_def Let_def split: option.splits prod.splits sum.splits xstop.splits if_splits)
qed

lemma ecdh_from_xdr_never:
  assumes "xdr_ok x" and "xexc x"
  shows "ecdh_from_xdr e k x \<noteq> (Done True, r)"
  using get_data_max_inv [OF assms(1), of 64] assms(2) bignum_from_xdr_never [of _ e]
  by (auto simp: ecdh_from_xdr_def Let_def split: option.splits prod.splits sum.splits xstop.splits ures.splits bool.splits if_splits)

text \<open>
  No public key is ever read back. \<^verbatim>\<open>ecdh_key::to_xdr\<close> writes the name and the coordinates in their
  encodings, but \<^verbatim>\<open>from_xdr\<close> returns true for no stream at all, so also not for these bytes, since
  \<^verbatim>\<open>bignum::from_xdr\<close> reads with the \<^verbatim>\<open>get_data\<close> template.
\<close>

theorem ecdh_key_one_way:
  assumes "pbuf_ok b" and "pages_ok pages" and "ecdh_ok k"
  shows "\<exists>c. ecdh_to_xdr pages k (xdr_new b) = (Done True, (xdr_new b)\<lparr>xb := c\<rparr>) \<and> pbuf_ok c \<and> pbytes c = pbytes b @ enc_key k \<and>
    (\<forall>x e k'. xdr_ok x \<and> xexc x \<and> xb x = c \<longrightarrow> fst (ecdh_from_xdr e k' x) \<noteq> Done True)"
proof -
  obtain c where c: "ecdh_to_xdr pages k (xdr_new b) = (Done True, (xdr_new b)\<lparr>xb := c\<rparr>)" "pbuf_ok c" "pbytes c = pbytes b @ enc_key k"
    by (rule ecdh_to_xdr_ok [of "xdr_new b", OF _ assms(2,3)]) (use assms(1) in \<open>simp_all add: xdr_new_def\<close>)
  have "fst (ecdh_from_xdr e k' x) \<noteq> Done True" if "xdr_ok x" "xexc x" for x e k'
    using ecdh_from_xdr_never [OF that, of e k'] by (cases "ecdh_from_xdr e k' x") auto
  then show ?thesis using c by blast
qed

theorem ecdh_key_one_way_witness:
  "\<exists>c. ecdh_to_xdr (\<lambda>k. Some (replicate 2048 0)) \<lparr>algname = tbuf_of [115, 0], key_x = \<lparr>bn_buf = tbuf_of [1], is_negative = False\<rparr>, key_y = \<lparr>bn_buf = tbuf_of [2], is_negative = True\<rparr>\<rparr>
       (xdr_new (pbuf_new (replicate 2048 0))) = (Done True, (xdr_new (pbuf_new (replicate 2048 0)))\<lparr>xb := c\<rparr>) \<and>
     pbytes c = enc_bytes [115, 0] @ (enc32 0 @ enc_bytes [1]) @ enc32 1 @ enc_bytes [2]"
  using ecdh_key_one_way [of "pbuf_new (replicate 2048 0)" "\<lambda>k. Some (replicate 2048 0)"
      "\<lparr>algname = tbuf_of [115, 0], key_x = \<lparr>bn_buf = tbuf_of [1], is_negative = False\<rparr>, key_y = \<lparr>bn_buf = tbuf_of [2], is_negative = True\<rparr>\<rparr>"]
  by (auto simp: pbuf_new_ok pages_ok_def ecdh_ok_def tbuf_fits_def enc_key_def enc_bignum_def)

text \<open>
  A curve name of 64 bytes on the wire makes \<^verbatim>\<open>ecdh_key::from_xdr\<close> write behind its array: all 64
  bytes of \<^verbatim>\<open>tmp\<close> may be filled, and the terminating zero goes to index 64.
\<close>

theorem ecdh_name_overrun:
  assumes "xdr_ok x" and "rest x = enc_bytes d @ r" and "length d = 64"
  shows "fst (ecdh_from_xdr e k x) = Undef Out_of_bounds"
proof -
  have l: "length d < 2 ^ 64 - 3" "length d \<le> 64" using assms(3) by simp_all
  obtain x' where "get_data_max 64 x = Some (Inr (True, 64, d), x')"
    using get_data_max_ok [OF assms(1,2) l] assms(3) by auto
  then show ?thesis by (simp add: ecdh_from_xdr_def)
qed

theorem ecdh_name_overrun_witness:
  "\<exists>b. pbytes b = enc_bytes (replicate 64 65) \<and> fst (ecdh_from_xdr udp_env0 (fresh_key udp_env0) (xdr_new b)) = Undef Out_of_bounds"
proof -
  obtain b where b: "pbuf_ok b" "pbytes b = enc_bytes (replicate 64 65)"
    using append_bytes [of "pbuf_new (replicate 2048 0)" "\<lambda>k. Some (replicate 2048 0)" "enc_bytes (replicate 64 65)", OF _ _ refl]
    by (auto simp: pbuf_new_ok pages_ok_def)
  have "xdr_ok (xdr_new b)" "rest (xdr_new b) = enc_bytes (replicate 64 65) @ []"
    using rewind_ok [of "xdr_new b"] b by (simp_all add: xdr_new_def rewind_def)
  from ecdh_name_overrun [OF this] b show ?thesis by auto
qed

end
