(* ===== verification/Udp_Hello.thy ===== *)
theory Udp_Hello
  imports Ecdh_Xdr
begin

section \<open>Hello packets\<close>

text \<open>
  \<^verbatim>\<open>src/comm/udp_hello.cc\<close>: the client sends its public key, the server answers with its own and, sealed
  under the shared key, whether it wants a login and a password. \<open>kgen\<close> stands for
  \<^verbatim>\<open>gen_sha1hex_shared_key\<close>: the digest as a C string, or \<open>None\<close> when OpenSSL fails.
\<close>

type_synonym kgen_fn = "ecdh_key \<Rightarrow> bignum \<Rightarrow> u8 list option"

text \<open>\<^verbatim>\<open>ustr session_key; ... gen_sha1hex_shared_key(private_key,session_key)\<close>: the string, or \<open>None\<close> for false.\<close>

definition shared_key :: "udp_env \<Rightarrow> kgen_fn \<Rightarrow> ecdh_key \<Rightarrow> bignum \<Rightarrow> tbuf option" where
  "shared_key e kgen pub priv =
     (case kgen pub priv of
        None \<Rightarrow> None
      | Some s \<Rightarrow> Some (fst (tbuf_set (uml e) (Some (s @ [0])) (length s + 1) (fresh_ustr e))))"

subsection \<open>The server\<close>

text \<open>
  A result of \<^verbatim>\<open>to_xdr\<close> and \<^verbatim>\<open>from_xdr\<close> inside the try blocks: \<^verbatim>\<open>if( ... == false ) { THR(rs_xdr_error,false); }\<close>.
\<close>

definition init_hello :: "udp_env \<Rightarrow> ecdh_key \<Rightarrow> msg \<Rightarrow> bool ures \<times> ecdh_key" where
  "init_hello e peer m =
     (case read_type e (ujunk e) (msize m) m of
        Done (packet_type, x) \<Rightarrow>
          if packet_type \<noteq> type_code hello_p then (uthr e comm_invalid_packet_type False, peer)
          else (case ecdh_from_xdr e peer x of
                  (Done True, peer, _) \<Rightarrow> (Done True, peer)
                | (Done False, peer, _) \<Rightarrow> (uthr e comm_xdr_error False, peer)
                | (r, peer, _) \<Rightarrow> (r, peer))
      | r \<Rightarrow> (give_up e r, peer))"

definition prepare_olleh ::
  "udp_env \<Rightarrow> udp_os \<Rightarrow> kgen_fn \<Rightarrow> ecdh_key \<Rightarrow> bool \<Rightarrow> bool \<Rightarrow> bignum \<Rightarrow> ecdh_key \<Rightarrow> msg \<Rightarrow> bool ures \<times> msg" where
  "prepare_olleh e os kgen my_public need_login need_pass my_private peer m =
     (case put_res (xdr_put_i32 (upages e) (type_code olleh_p) (xdr_new (fresh_pbuf e))) of
        Done xbo \<Rightarrow>
          (case ecdh_to_xdr (upages e) my_public xbo of
             (Done False, _) \<Rightarrow> (uthr e comm_xdr_error False, m)
           | (Done True, xbo) \<Rightarrow>
               if psize (xb xbo) > max_len then (uthr e comm_too_big False, m)
               else let m = put_outer (xb xbo) m
                    in (case ubind (put_res (xdr_put_i32 (upages e) (if need_login then 1 else 0) (xdr_new (fresh_pbuf e))))
                               (\<lambda>xbi. put_res (xdr_put_i32 (upages e) (if need_pass then 1 else 0) xbi)) of
                          Done xbi \<Rightarrow>
                            (case shared_key e kgen peer my_private of
                               None \<Rightarrow> (uthr e comm_sec_error False, m)
                             | Some session_key \<Rightarrow>
                                 seal_packet e (gen_rand e os 8 (fresh e 8)) session_key (xb xbi) (psize (xb xbo)) m)
                        | r \<Rightarrow> (give_up e r, m))
           | (r, _) \<Rightarrow> (r, m))
      | r \<Rightarrow> (give_up e r, m))"

text \<open>
  The handler: its keys and flags, and the callbacks, which may be missing. \<^verbatim>\<open>hello_cb_\<close> may change the
  public key, the two flags and the private key that the answer is made with.
\<close>

record 's hello_handler =
  h_public_key :: ecdh_key
  h_private_key :: bignum
  h_need_login :: bool
  h_need_pass :: bool
  valid_key_cb :: "(ecdh_key \<Rightarrow> 's \<Rightarrow> bool \<times> 's) option"
  hello_cb :: "(ecdh_key \<Rightarrow> u8 list \<Rightarrow> ecdh_key \<Rightarrow> bool \<Rightarrow> bool \<Rightarrow> bignum \<Rightarrow> 's \<Rightarrow> bool \<times> ecdh_key \<times> bool \<times> bool \<times> bignum \<times> 's) option"

text \<open>
  The try block of \<^verbatim>\<open>hello_handler::operator()\<close> with its catch clauses, for the message \<open>ms\<close>. The
  result has the packet given to \<^verbatim>\<open>sendto\<close>, if it was called; what it returns only decides about a message
  on the terminal.
\<close>

definition hello_process ::
  "udp_env \<Rightarrow> udp_os \<Rightarrow> kgen_fn \<Rightarrow> 's hello_handler \<Rightarrow> msg \<Rightarrow> 's \<Rightarrow> unit ures \<times> u8 list option \<times> 's" where
  "hello_process e os kgen h ms s =
     (case init_hello e (fresh_key e) ms of
        (Done False, _) \<Rightarrow> (Done (), None, s)
      | (Done True, peer) \<Rightarrow>
          (case (case valid_key_cb h of None \<Rightarrow> (True, s) | Some cb \<Rightarrow> cb peer s) of
             (False, s) \<Rightarrow> (Done (), None, s)
           | (True, s) \<Rightarrow>
               (case (case hello_cb h of
                        None \<Rightarrow> (True, h_public_key h, h_need_login h, h_need_pass h, h_private_key h, s)
                      | Some cb \<Rightarrow> cb peer (msender ms) (h_public_key h) (h_need_login h) (h_need_pass h) (h_private_key h) s) of
                  (False, _, _, _, _, s) \<Rightarrow> (Done (), None, s)
                | (True, my_public, need_login, need_pass, my_private, s) \<Rightarrow>
                    (case prepare_olleh e os kgen my_public need_login need_pass my_private peer ms of
                       (Done False, _) \<Rightarrow> (Done (), None, s)
                     | (Done True, ms) \<Rightarrow> (Done (), Some (wire ms), s)
                     | (r, _) \<Rightarrow> (catch_handler (ubind r (\<lambda>_. Done ())), None, s))))
      | (r, _) \<Rightarrow> (catch_handler (ubind r (\<lambda>_. Done ())), None, s))"

definition hello_handle ::
  "udp_env \<Rightarrow> udp_os \<Rightarrow> kgen_fn \<Rightarrow> 's hello_handler \<Rightarrow> msg \<Rightarrow> circbuf \<times> (nat \<Rightarrow> msg) \<Rightarrow> 's \<Rightarrow>
   unit ures \<times> u8 list option \<times> (circbuf \<times> (nat \<Rightarrow> msg)) \<times> 's" where
  "hello_handle e os kgen h ms msgs s =
     (case take_msg msgs ms of
        (Done (Some ms), msgs) \<Rightarrow> (case hello_process e os kgen h ms s of (r, p, s) \<Rightarrow> (r, p, msgs, s))
      | (r, msgs) \<Rightarrow> (ubind r (\<lambda>_. Done ()), None, msgs, s))"

subsection \<open>The client\<close>

record hello_cli =
  hc_public_key :: ecdh_key
  hc_private_key :: bignum
  hc_server_key :: ecdh_key
  hc_need_login :: bool
  hc_need_pass :: bool
  hc_sock :: int

text \<open>\<^verbatim>\<open>m.size_ = static_cast<unsigned int>(pb.size())\<close>: the size is not compared with the array.\<close>

definition prepare_hello :: "udp_env \<Rightarrow> hello_cli \<Rightarrow> msg \<Rightarrow> bool ures \<times> msg" where
  "prepare_hello e c m =
     (case put_res (xdr_put_i32 (upages e) (type_code hello_p) (xdr_new (fresh_pbuf e))) of
        Done x \<Rightarrow>
          (case ecdh_to_xdr (upages e) (hc_public_key c) x of
             (Done False, _) \<Rightarrow> (uthr e comm_xdr_error False, m)
           | (Done True, x) \<Rightarrow> (Done True, (put_outer (xb x) m)\<lparr>msize := psize (xb x) mod 2 ^ 32\<rparr>)
           | (r, _) \<Rightarrow> (r, m))
      | r \<Rightarrow> (give_up e r, m))"

text \<open>The two flags at the front of the decrypted answer.\<close>

definition read_flags :: "udp_env \<Rightarrow> xdrbuf \<Rightarrow> (bool \<times> bool) ures" where
  "read_flags e xbi =
     (case xdr_get_i32 xbi of
        None \<Rightarrow> Undef No_return
      | Some (Inl s, _) \<Rightarrow> xstop_res s
      | Some (Inr l, xbi) \<Rightarrow>
          (case xdr_get_i32 xbi of
             None \<Rightarrow> Undef No_return
           | Some (Inl s, _) \<Rightarrow> xstop_res s
           | Some (Inr p, _) \<Rightarrow>
               Done ((case l of None \<Rightarrow> ujunk e | Some w \<Rightarrow> w) = 1, (case p of None \<Rightarrow> ujunk e | Some w \<Rightarrow> w) = 1)))"

definition init_olleh :: "udp_env \<Rightarrow> kgen_fn \<Rightarrow> hello_cli \<Rightarrow> msg \<Rightarrow> bool ures \<times> hello_cli" where
  "init_olleh e kgen c m =
     (case read_type e 0 (msize m) m of
        Done (packet_type, xbo) \<Rightarrow>
          if packet_type \<noteq> type_code olleh_p then (uthr e comm_invalid_packet_type False, c)
          else (case ecdh_from_xdr e (hc_server_key c) xbo of
                  (Done False, k, _) \<Rightarrow> (uthr e comm_xdr_error False, c\<lparr>hc_server_key := k\<rparr>)
                | (Done True, k, xbo) \<Rightarrow>
                    let c = c\<lparr>hc_server_key := k\<rparr>
                    in (case position xbo of
                          None \<Rightarrow> (Undef Null_pointer, c)
                        | Some pos \<Rightarrow>
                            (case shared_key e kgen k (hc_private_key c) of
                               None \<Rightarrow> (uthr e comm_sec_error False, c)
                             | Some session_key \<Rightarrow>
                                 (case open_packet e session_key m pos of
                                    Done None \<Rightarrow> (Done False, c)
                                  | Done (Some d) \<Rightarrow>
                                      (case ubind (inner_stream e d) (read_flags e) of
                                         Done (l, p) \<Rightarrow> (Done True, c\<lparr>hc_need_login := l, hc_need_pass := p\<rparr>)
                                       | r \<Rightarrow> (give_up e r, c))
                                  | r \<Rightarrow> (give_up e r, c))))
                | (r, k, _) \<Rightarrow> (r, c\<lparr>hc_server_key := k\<rparr>))
      | r \<Rightarrow> (give_up e r, c))"

definition hello_init :: "udp_env \<Rightarrow> udp_os \<Rightarrow> hello_cli \<Rightarrow> bool ures \<times> hello_cli" where
  "hello_init e os c =
     (if hc_sock c > 0 then (Done True, c)
      else if \<not> has_data (hc_public_key c) then (uthr e comm_pubkey_empty False, c)
      else let c = c\<lparr>hc_sock := init_sock os\<rparr>
           in if hc_sock c \<le> 0 then (uthr e comm_socket_failed False, c) else (Done True, c))"

text \<open>
  \<^verbatim>\<open>hello\<close>: \<^verbatim>\<open>send\<close> reads \<^verbatim>\<open>size_\<close> bytes from the array of the message. The result has the packet sent.
\<close>

definition hello :: "udp_env \<Rightarrow> udp_os \<Rightarrow> kgen_fn \<Rightarrow> hello_cli \<Rightarrow> bool ures \<times> hello_cli \<times> u8 list option" where
  "hello e os kgen c =
     (case hello_init e os c of
        (Done True, c) \<Rightarrow>
          (case prepare_hello e c (fresh_msg e) of
             (Done False, _) \<Rightarrow> (uthr e comm_pkt_error False, c, None)
           | (Done True, ms) \<Rightarrow>
               (case msg_read ms 0 (msize ms) of
                  None \<Rightarrow> (Undef Out_of_bounds, c, None)
                | Some p \<Rightarrow>
                    if os_send os p \<noteq> int (msize ms) then (uthr e comm_send_failed False, c, Some p)
                    else if os_select os > 0
                    then (case os_recv os max_len of
                            None \<Rightarrow> (uthr e comm_recv_failed False, c, Some p)
                          | Some b \<Rightarrow>
                              if length b > 0
                              then (case init_olleh e kgen c ((msg_write 0 b ms)\<lparr>msize := length b\<rparr>) of
                                      (Done False, c) \<Rightarrow> (uthr e comm_pkt_error False, c, Some p)
                                    | (r, c) \<Rightarrow> (r, c, Some p))
                              else (uthr e comm_recv_failed False, c, Some p))
                    else if os_select os = 0 then (uthr e comm_timeout False, c, Some p)
                    else (uthr e comm_select_failed False, c, Some p))
           | (r, _) \<Rightarrow> (r, c, None))
      | (Done False, c) \<Rightarrow> (Done False, c, None)
      | (r, c) \<Rightarrow> (r, c, None))"

subsection \<open>Packets sent\<close>

text \<open>The type and the public key in front of a packet.\<close>

lemma put_type_key:
  assumes "udp_ok e" and "ecdh_ok k"
  obtains b0 b where "put_res (xdr_put_i32 (upages e) w (xdr_new (fresh_pbuf e))) = Done ((xdr_new (fresh_pbuf e))\<lparr>xb := b0\<rparr>)"
    "ecdh_to_xdr (upages e) k ((xdr_new (fresh_pbuf e))\<lparr>xb := b0\<rparr>) = (Done True, (xdr_new (fresh_pbuf e))\<lparr>xb := b\<rparr>)"
    "pbuf_ok b" "pbytes b = enc32 w @ enc_key k" "psize b = 4 + length (enc_key k)"
proof -
  obtain b0 where b0: "put_res (xdr_put_i32 (upages e) w (xdr_new (fresh_pbuf e))) = Done ((xdr_new (fresh_pbuf e))\<lparr>xb := b0\<rparr>)" "pbuf_ok b0" "pbytes b0 = enc32 w"
    by (rule put_type [OF assms(1)])
  obtain b where b: "ecdh_to_xdr (upages e) k ((xdr_new (fresh_pbuf e))\<lparr>xb := b0\<rparr>) = (Done True, (xdr_new (fresh_pbuf e))\<lparr>xb := b\<rparr>)" "pbuf_ok b" "pbytes b = pbytes b0 @ enc_key k"
    by (rule ecdh_to_xdr_ok [of "(xdr_new (fresh_pbuf e))\<lparr>xb := b0\<rparr>", OF _ udp_okD(3) [OF assms(1)] assms(2)]) (use b0(2) in simp_all)
  moreover have "psize b = 4 + length (enc_key k)" using b(2,3) b0(3) by (simp add: pbuf_ok_def)
  ultimately show thesis using that b0 by simp
qed

lemma shared_key_ok:
  assumes "udp_ok e" and "kgen pub priv = Some s" and "15 \<le> length s"
  obtains k where "shared_key e kgen pub priv = Some k" "key_ok k" "bytes k = s @ [0]"
proof -
  have f: "tbuf_ok (fresh_ustr e)" using udp_okD(4) [OF assms(1), of 128] by (simp add: fresh_ustr_def tbuf_new_uchar_def tbuf_ok_def bdata_def)
  have "length s + 1 \<le> length (s @ [0])" by simp
  note b = tbuf_set_total [OF assms(1) f this]
  then show thesis using that assms(2,3) by (simp add: shared_key_def key_ok_def)
qed

text \<open>Whatever arrives, no public key is read from it.\<close>

lemma init_hello_never:
  assumes "udp_ok e"
  shows "init_hello e k m \<noteq> (Done True, k')"
  using read_type_inv [OF assms] ecdh_from_xdr_never [of _ e k]
  by (auto simp: init_hello_def give_up_never uthr_def split: ures.splits prod.splits bool.splits)

lemma init_olleh_never:
  assumes "udp_ok e"
  shows "init_olleh e kgen c m \<noteq> (Done True, c')"
proof (cases "read_type e 0 (msize m) m")
  case (Done wx)
  obtain w x where wx: "wx = (w, x)" by (cases wx)
  obtain r k y where k: "ecdh_from_xdr e (hc_server_key c) x = (r, k, y)" by (cases "ecdh_from_xdr e (hc_server_key c) x")
  have "r \<noteq> Done True" using ecdh_from_xdr_never [of x e "hc_server_key c" "(k, y)"] read_type_inv [OF assms] Done wx k by blast
  then show ?thesis using Done wx k by (cases r) (auto simp: init_olleh_def uthr_def)
qed (simp_all add: init_olleh_def give_up_never)

lemma hello_never:
  assumes "udp_ok e"
  shows "hello e os kgen c \<noteq> (Done True, c', p)"
  using init_olleh_never [OF assms, of kgen]
  by (auto simp: hello_def Let_def uthr_def split: ures.splits prod.splits bool.splits option.splits if_splits)

lemma hello_process_none: "udp_ok e \<Longrightarrow> \<exists>r. hello_process e os kgen h ms s = (r, None, s)"
  using init_hello_never [of e "fresh_key e" ms] by (auto simp: hello_process_def split: ures.split prod.split bool.split)

lemma hello_handle_none: "udp_ok e \<Longrightarrow> \<exists>r msgs'. hello_handle e os kgen h ms msgs s = (r, None, msgs', s)"
  using hello_process_none [of e os kgen h _ s] by (auto simp: hello_handle_def split: ures.split prod.split option.split) (metis prod.inject)+

subsection \<open>Properties\<close>

text \<open>
  The server never answers a hello. Whatever message arrives, \<^verbatim>\<open>init_hello\<close> does not return true;
  \<^verbatim>\<open>operator()\<close> calls neither callback and sends nothing. The client's \<^verbatim>\<open>hello\<close> never returns true.
\<close>

theorem hello_never_answered:
  assumes "udp_ok e"
  shows "fst (init_hello e k m) \<noteq> Done True \<and> (\<exists>r msgs'. hello_handle e os kgen h ms msgs s = (r, None, msgs', s)) \<and>
    fst (hello e os kgen c) \<noteq> Done True"
proof -
  have "fst (init_hello e k m) \<noteq> Done True" using init_hello_never [OF assms, of k m] by (cases "init_hello e k m") auto
  moreover have "fst (hello e os kgen c) \<noteq> Done True" using hello_never [OF assms, of os kgen c] by (cases "hello e os kgen c") auto
  ultimately show ?thesis using hello_handle_none [OF assms, of os kgen h ms msgs s] by blast
qed

text \<open>
  An olleh packet says what it should. It is the type, the server's public key, and the two
  flags sealed under the shared key; who receives these bytes and has the same shared key gets the
  flags from the packet that starts behind the key.
\<close>

theorem olleh_packet_opens:
  assumes "udp_ok e" and "length (mdata m) = max_len" and "ecdh_ok pub" and "length (enc_key pub) \<le> 65000"
    and "kgen peer priv = Some sk" and "15 \<le> length sk" and "os_rand os 8 = Some r8" and "length r8 = 8" and "rand4 (ucrypt e) = Some r"
    and "udp_ok e2" and "key_ok k2 \<and> bytes k2 = sk @ [0]"
  shows "\<exists>m'. prepare_olleh e os kgen pub login pass priv peer m = (Done True, m') \<and> msg_ok m' \<and>
    wire m' = enc32 (type_code olleh_p) @ enc_key pub @
      packet (take 16 (sk @ [0])) r8 r (enc32 (if login then 1 else 0) @ enc32 (if pass then 1 else 0)) \<and>
    (\<forall>m2. msg_ok m2 \<and> wire m2 = wire m' \<longrightarrow>
      (\<exists>t. open_packet e2 k2 m2 (4 + length (enc_key pub)) = Done (Some t) \<and>
        ubind (inner_stream e2 t) (read_flags e2) = Done (login, pass)))"
proof -
  let ?l = "if login then 1 else 0 :: u32" and ?p = "if pass then 1 else 0 :: u32"
  obtain b0 b where b: "put_res (xdr_put_i32 (upages e) 2 (xdr_new (fresh_pbuf e))) = Done ((xdr_new (fresh_pbuf e))\<lparr>xb := b0\<rparr>)"
      "ecdh_to_xdr (upages e) pub ((xdr_new (fresh_pbuf e))\<lparr>xb := b0\<rparr>) = (Done True, (xdr_new (fresh_pbuf e))\<lparr>xb := b\<rparr>)"
      "pbuf_ok b" "pbytes b = enc32 2 @ enc_key pub" "psize b = 4 + length (enc_key pub)"
    by (rule put_type_key [OF assms(1,3)])
  obtain b1 where b1: "put_res (xdr_put_i32 (upages e) ?l (xdr_new (fresh_pbuf e))) = Done ((xdr_new (fresh_pbuf e))\<lparr>xb := b1\<rparr>)" "pbuf_ok b1" "pbytes b1 = enc32 ?l"
    by (rule put_type [OF assms(1)])
  obtain b2 where b2: "put_res (xdr_put_i32 (upages e) ?p ((xdr_new (fresh_pbuf e))\<lparr>xb := b1\<rparr>)) = Done ((xdr_new (fresh_pbuf e))\<lparr>xb := b2\<rparr>)" "pbuf_ok b2" "pbytes b2 = enc32 ?l @ enc32 ?p"
    using put_res_writes [OF put_int_writes(1) [of "(xdr_new (fresh_pbuf e))\<lparr>xb := b1\<rparr>" "upages e" ?p]] b1(2,3) udp_okD(3) [OF assms(1)] by auto
  obtain k where k: "shared_key e kgen peer priv = Some k" "key_ok k" "bytes k = sk @ [0]"
    by (rule shared_key_ok [where kgen = kgen, OF assms(1,5,6)])
  note g = gen_rand_ok [OF assms(1,7,8)]
  obtain m' where m': "seal_packet e (gen_rand e os 8 (fresh e 8)) k b2 (psize b) (put_outer b m) = (Done True, m')" "msg_ok m'" "length r = 4"
      "wire m' = pbytes b @ packet (take 16 (bytes k)) (bytes (gen_rand e os 8 (fresh e 8))) r (pbytes b2)"
    using sealed_message [OF assms(1) k(2) _ _ b2(2) _ assms(9) b(3) assms(2), of "gen_rand e os 8 (fresh e 8)"] g b(4) b2(3) assms(4) by auto
  have P: "prepare_olleh e os kgen pub login pass priv peer m = (Done True, m')"
    unfolding prepare_olleh_def using b(1,2,5) b1(1) b2(1) k(1) m'(1) assms(4) by simp
  have W: "wire m' = (enc32 2 @ enc_key pub) @ packet (take 16 (bytes k2)) r8 r (enc32 ?l @ enc32 ?p)"
    using m'(4) b(4) b2(3) k(3) g assms(11) by simp
  have "\<exists>t. open_packet e2 k2 m2 (4 + length (enc_key pub)) = Done (Some t) \<and> ubind (inner_stream e2 t) (read_flags e2) = Done (login, pass)"
    if "msg_ok m2" "wire m2 = wire m'" for m2
  proof -
    note w = wire_eq [OF that(1) that(2) [unfolded W]]
    have s: "msize m2 = length (enc32 2 @ enc_key pub) + length (enc32 ?l @ enc32 ?p) + 20" "msize m2 \<le> max_len" "length (mdata m2) = max_len"
      using w(1) m'(3) assms(8) that(1) by (simp_all add: msg_ok_def)
    obtain t where t: "open_packet e2 k2 m2 (4 + length (enc_key pub)) = Done (Some t)" "tbuf_ok t" "bytes t = enc32 ?l @ enc32 ?p"
      using open_sealed [OF assms(10) assms(11) [THEN conjunct1] s(3) _ assms(8) m'(3) _ s(1,2)] w(2) by auto
    obtain x where x: "inner_stream e2 t = Done x" "xdr_ok x" "rest x = enc32 ?l @ enc32 ?p"
      using inner_stream_ok [OF assms(10) t(2)] t(3) by auto
    obtain x1 where x1: "xdr_get_i32 x = Some (Inr (Some ?l), x1)" "xdr_ok x1" "rest x1 = enc32 ?p @ []"
      using get_u32_ok [OF x(2,3)] by auto
    obtain x2 where "xdr_get_i32 x1 = Some (Inr (Some ?p), x2)" using get_u32_ok [OF x1(2,3)] by auto
    then have "read_flags e2 x = Done (login, pass)" using x1(1) by (simp add: read_flags_def)
    then show ?thesis using t(1) x(1) by simp
  qed
  then show ?thesis using P m'(2) W assms(11) by (intro exI [of _ m']) simp
qed

text \<open>A public key and a system for the examples.\<close>

definition key0 :: ecdh_key where
  "key0 = \<lparr>algname = tbuf_of [115, 0], key_x = \<lparr>bn_buf = tbuf_of [1], is_negative = False\<rparr>, key_y = \<lparr>bn_buf = tbuf_of [2], is_negative = True\<rparr>\<rparr>"

definition os0 :: udp_os where
  "os0 = \<lparr>os_socket = 3, os_connect = 0, os_select = 1, os_recv = (\<lambda>n. Some (enc32 2 @ replicate 60 0)), os_send = (\<lambda>p. int (length p)),
     os_rand = (\<lambda>n. Some (replicate n 9))\<rparr>"

lemma key0_ok [simp]: "ecdh_ok key0" "length (enc_key key0) = 44"
  by (simp_all add: key0_def ecdh_ok_def tbuf_fits_def enc_key_def enc_bignum_def length_enc_bytes ceil4_def)

theorem hello_never_answered_witness:
  "\<exists>r msgs'. hello_handle udp_env0 os0 (\<lambda>a b. Some (replicate 40 65)) \<lparr>h_public_key = key0, h_private_key = key_x key0, h_need_login = True,
       h_need_pass = True, valid_key_cb = Some (\<lambda>k s. (True, s + 1)), hello_cb = None\<rparr> (msg_of []) (snd (push (circbuf_new True 30)), \<lambda>_. msg_of (enc32 1 @ enc_key key0)) (0 :: nat) =
     (r, None, msgs', 0)"
  by (rule hello_never_answered [OF udp_env0_ok(1), THEN conjunct2, THEN conjunct1])

theorem olleh_packet_opens_witness:
  "\<exists>m'. prepare_olleh udp_env0 os0 (\<lambda>a b. Some (replicate 40 65)) key0 True False (key_x key0) key0 (msg_of []) = (Done True, m') \<and>
     (\<exists>t. open_packet udp_env0 (tbuf_of (replicate 40 65 @ [0])) m' 48 = Done (Some t) \<and>
        ubind (inner_stream udp_env0 t) (read_flags udp_env0) = Done (True, False))"
  using olleh_packet_opens [OF udp_env0_ok(1), of "msg_of []" key0 "\<lambda>a b. Some (replicate 40 65)" key0 "key_x key0" "replicate 40 65" os0 "replicate 8 9"
      "[1, 2, 3, 4]" udp_env0 "tbuf_of (replicate 40 65 @ [0])" True False]
  by (auto simp: os0_def key_ok_def msg_of_def)

text \<open>
  C27: the client sends memory behind its message for a long key. \<^verbatim>\<open>prepare_hello\<close> sets the size to that of
  the encoding without comparing it with the array, and \<^verbatim>\<open>hello\<close> gives this size to \<^verbatim>\<open>send\<close>; for keys whose
  encoding fits, the packet is the type and the key.
\<close>

theorem hello_packet_size:
  assumes "udp_ok e" and "0 < hc_sock c" and "ecdh_ok (hc_public_key c)" and "length (enc_key (hc_public_key c)) < 2 ^ 32 - 4"
  shows "if 4 + length (enc_key (hc_public_key c)) \<le> max_len
    then \<exists>r c'. hello e os kgen c = (r, c', Some (enc32 (type_code hello_p) @ enc_key (hc_public_key c)))
    else hello e os kgen c = (Undef Out_of_bounds, c, None)"
proof -
  obtain b0 b where b: "put_res (xdr_put_i32 (upages e) 1 (xdr_new (fresh_pbuf e))) = Done ((xdr_new (fresh_pbuf e))\<lparr>xb := b0\<rparr>)"
      "ecdh_to_xdr (upages e) (hc_public_key c) ((xdr_new (fresh_pbuf e))\<lparr>xb := b0\<rparr>) = (Done True, (xdr_new (fresh_pbuf e))\<lparr>xb := b\<rparr>)"
      "pbuf_ok b" "pbytes b = enc32 1 @ enc_key (hc_public_key c)" "psize b = 4 + length (enc_key (hc_public_key c))"
    by (rule put_type_key [OF assms(1,3)])
  let ?m = "(put_outer b (fresh_msg e))\<lparr>msize := psize b\<rparr>"
  have "psize b mod 2 ^ 32 = psize b" using b(5) assms(4) by simp
  then have p: "prepare_hello e c (fresh_msg e) = (Done True, ?m)"
    using b(1,2) by (simp add: prepare_hello_def)
  have i: "hello_init e os c = (Done True, c)" using assms(2) by (simp add: hello_init_def)
  show ?thesis
  proof (cases "4 + length (enc_key (hc_public_key c)) \<le> max_len")
    case True
    then have "msg_read ?m 0 (psize b) = Some (pbytes b)"
      using put_outer_ok [OF b(3), of "fresh_msg e"] b(4,5) fresh_msg_ok [OF assms(1)] by (simp add: msg_read_def msg_write_def)
    then show ?thesis using True p i b(4) by (auto simp: hello_def Let_def split: option.split prod.split ures.split bool.split)
  next
    case False
    have "put_outer b (fresh_msg e) = msg_write 0 (take max_len (pbytes b)) (fresh_msg e)"
      using copy_to_eq [OF b(3), of max_len] by (simp add: put_outer_def)
    then have "msg_read ?m 0 (psize b) = None"
      using False b(4,5) fresh_msg_ok [OF assms(1)] by (simp add: msg_read_def msg_write_def)
    then show ?thesis using False p i by (simp add: hello_def)
  qed
qed

theorem hello_packet_size_witness:
  "hello udp_env0 os0 (\<lambda>a b. None) \<lparr>hc_public_key = key0\<lparr>algname := tbuf_of (replicate 65530 65)\<rparr>, hc_private_key = key_x key0, hc_server_key = key0,
       hc_need_login = False, hc_need_pass = False, hc_sock = 3\<rparr> =
     (Undef Out_of_bounds, \<lparr>hc_public_key = key0\<lparr>algname := tbuf_of (replicate 65530 65)\<rparr>, hc_private_key = key_x key0, hc_server_key = key0,
       hc_need_login = False, hc_need_pass = False, hc_sock = 3\<rparr>, None)"
proof -
  let ?c = "\<lparr>hc_public_key = key0\<lparr>algname := tbuf_of (replicate 65530 65)\<rparr>, hc_private_key = key_x key0, hc_server_key = key0,
       hc_need_login = False, hc_need_pass = False, hc_sock = 3\<rparr>"
  have "ecdh_ok (key0\<lparr>algname := tbuf_of (replicate 65530 65)\<rparr>)" "length (enc_key (key0\<lparr>algname := tbuf_of (replicate 65530 65)\<rparr>)) = 65572"
    by (simp_all add: key0_def ecdh_ok_def tbuf_fits_def enc_key_def enc_bignum_def length_enc_bytes ceil4_def)
  then show ?thesis using hello_packet_size [OF udp_env0_ok(1), of ?c os0 "\<lambda>a b. None"] by simp
qed

end
