(* ===== verification/Udp_Auth.thy ===== *)
theory Udp_Auth
  imports Udp_Hello
begin

section \<open>Authentication packets\<close>

text \<open>
  \<^verbatim>\<open>src/comm/udp_auth.cc\<close>: the client sends its public key and, sealed under the key it shares with the
  server, its salt, login, password and the session key to use; the server answers with its own
  salt, sealed under the session key.
\<close>

text \<open>
  What \<^verbatim>\<open>init_auth\<close> stores: the key of the client, the three strings and the salt.
\<close>

record auth_in =
  peer_key :: ecdh_key
  ai_login :: tbuf
  ai_pass :: tbuf
  ai_sesskey :: tbuf
  peer_salt :: tbuf

text \<open>\<^verbatim>\<open>xbi >> login; xbi >> pass; xbi >> sesskey;\<close>\<close>

definition read_string :: "udp_env \<Rightarrow> tbuf \<Rightarrow> xdrbuf \<Rightarrow> xdrbuf ures \<times> tbuf" where
  "read_string e t x =
     (case xdr_get_ustr (uml e) t x of
        None \<Rightarrow> (Undef No_return, t)
      | Some (Inl s, t, _) \<Rightarrow> (xstop_res s, t)
      | Some (Inr _, t, x) \<Rightarrow> (Done x, t))"

definition read_strings :: "udp_env \<Rightarrow> auth_in \<Rightarrow> xdrbuf \<Rightarrow> bool ures \<times> auth_in" where
  "read_strings e a x =
     (case read_string e (ai_login a) x of
        (Done x, l) \<Rightarrow>
          (case read_string e (ai_pass a) x of
             (Done x, p) \<Rightarrow>
               (case read_string e (ai_sesskey a) x of
                  (Done _, k) \<Rightarrow> (Done True, a\<lparr>ai_login := l, ai_pass := p, ai_sesskey := k\<rparr>)
                | (r, k) \<Rightarrow> (give_up e r, a\<lparr>ai_login := l, ai_pass := p, ai_sesskey := k\<rparr>))
           | (r, p) \<Rightarrow> (give_up e r, a\<lparr>ai_login := l, ai_pass := p\<rparr>))
      | (r, l) \<Rightarrow> (give_up e r, a\<lparr>ai_login := l\<rparr>))"

subsection \<open>The server\<close>

definition init_auth :: "udp_env \<Rightarrow> kgen_fn \<Rightarrow> bignum \<Rightarrow> auth_in \<Rightarrow> msg \<Rightarrow> bool ures \<times> auth_in" where
  "init_auth e kgen private_key a m =
     (case read_type e 0 (msize m) m of
        Done (packet_type, xbo) \<Rightarrow>
          if packet_type \<noteq> type_code unicast_auth_p then (uthr e comm_invalid_packet_type False, a)
          else (case ecdh_from_xdr e (peer_key a) xbo of
                  (Done False, k, _) \<Rightarrow> (uthr e comm_xdr_error False, a\<lparr>peer_key := k\<rparr>)
                | (Done True, k, xbo) \<Rightarrow>
                    let a = a\<lparr>peer_key := k\<rparr>
                    in (case position xbo of
                          None \<Rightarrow> (Undef Null_pointer, a)
                        | Some pos \<Rightarrow>
                            (case shared_key e kgen k private_key of
                               None \<Rightarrow> (uthr e comm_sec_error False, a)
                             | Some session_key \<Rightarrow>
                                 (case open_packet e session_key m pos of
                                    Done None \<Rightarrow> (Done False, a)
                                  | Done (Some d) \<Rightarrow>
                                      (case inner_stream e d of
                                         Done xbi \<Rightarrow>
                                           (case read_salt e (peer_salt a) xbi of
                                              (Done (Some xbi), slt) \<Rightarrow> read_strings e (a\<lparr>peer_salt := slt\<rparr>) xbi
                                            | (r, slt) \<Rightarrow> (give_up e r, a\<lparr>peer_salt := slt\<rparr>))
                                       | r \<Rightarrow> (give_up e r, a))
                                  | r \<Rightarrow> (give_up e r, a))))
                | (r, k, _) \<Rightarrow> (r, a\<lparr>peer_key := k\<rparr>))
      | r \<Rightarrow> (give_up e r, a))"

definition prepare_htua :: "udp_env \<Rightarrow> tbuf \<Rightarrow> tbuf \<Rightarrow> tbuf \<Rightarrow> msg \<Rightarrow> bool ures \<times> msg" where
  "prepare_htua e pkt_salt comm_salt sesskey m =
     (if bsize pkt_salt \<noteq> 8 then (uthr e comm_salt_size False, m)
      else if bsize comm_salt \<noteq> 8 then (uthr e comm_salt_size False, m)
      else if ustr_size sesskey = 0 then (uthr e comm_sesskey_empty False, m)
      else (case put_res (xdr_put_i32 (upages e) (type_code unicast_htua_p) (xdr_new (fresh_pbuf e))) of
              Done xbo \<Rightarrow>
                if psize (xb xbo) > max_len then (uthr e comm_too_big False, m)
                else let m = put_outer (xb xbo) m
                     in (case put_res (xdr_put_bindata (upages e) (Some (bdata comm_salt)) (bsize comm_salt) (xdr_new (fresh_pbuf e))) of
                           Done xbi \<Rightarrow> seal_packet e (tbuf_assign (uml e) pkt_salt (fresh e 8)) sesskey (xb xbi) (psize (xb xbo)) m
                         | r \<Rightarrow> (give_up e r, m))
            | r \<Rightarrow> (give_up e r, m)))"

text \<open>
  The handler and its callbacks, which may be missing; the salt of the server is also an output of
  \<^verbatim>\<open>register_auth_cb_\<close>. The two random salts come from \<open>os\<close> and \<open>os'\<close>.
\<close>

record 's auth_handler =
  a_private_key :: bignum
  a_valid_key_cb :: "(ecdh_key \<Rightarrow> 's \<Rightarrow> bool \<times> 's) option"
  a_valid_creds_cb :: "(ecdh_key \<Rightarrow> u8 list \<Rightarrow> tbuf \<Rightarrow> tbuf \<Rightarrow> 's \<Rightarrow> bool \<times> 's) option"
  a_register_cb :: "(u8 list \<Rightarrow> tbuf \<Rightarrow> tbuf \<Rightarrow> tbuf \<Rightarrow> tbuf \<Rightarrow> tbuf \<Rightarrow> 's \<Rightarrow> bool \<times> tbuf \<times> 's) option"

definition fresh_auth_in :: "udp_env \<Rightarrow> auth_in" where
  "fresh_auth_in e = \<lparr>peer_key = fresh_key e, ai_login = fresh_ustr e, ai_pass = fresh_ustr e, ai_sesskey = fresh_ustr e, peer_salt = fresh e 8\<rparr>"

definition auth_reply ::
  "udp_env \<Rightarrow> udp_os \<Rightarrow> udp_os \<Rightarrow> 's auth_handler \<Rightarrow> auth_in \<Rightarrow> msg \<Rightarrow> 's \<Rightarrow> unit ures \<times> u8 list option \<times> 's" where
  "auth_reply e os os' h a ms s =
     (let pkt_salt = gen_rand e os 8 (fresh e 8);
          my_salt = gen_rand e os' 8 (fresh e 8)
      in (case (case a_register_cb h of
                  None \<Rightarrow> (True, my_salt, s)
                | Some cb \<Rightarrow> cb (msender ms) (ai_login a) (ai_pass a) (ai_sesskey a) (peer_salt a) my_salt s) of
            (False, _, s) \<Rightarrow> (Done (), None, s)
          | (True, my_salt, s) \<Rightarrow>
              (case prepare_htua e pkt_salt my_salt (ai_sesskey a) ms of
                 (Done False, _) \<Rightarrow> (Done (), None, s)
               | (Done True, ms) \<Rightarrow> (Done (), Some (wire ms), s)
               | (r, _) \<Rightarrow> (catch_handler (ubind r (\<lambda>_. Done ())), None, s))))"

definition auth_process ::
  "udp_env \<Rightarrow> udp_os \<Rightarrow> udp_os \<Rightarrow> kgen_fn \<Rightarrow> 's auth_handler \<Rightarrow> msg \<Rightarrow> 's \<Rightarrow> unit ures \<times> u8 list option \<times> 's" where
  "auth_process e os os' kgen h ms s =
     (case init_auth e kgen (a_private_key h) (fresh_auth_in e) ms of
        (Done False, _) \<Rightarrow> (Done (), None, s)
      | (Done True, a) \<Rightarrow>
          (case (case a_valid_key_cb h of None \<Rightarrow> (True, s) | Some cb \<Rightarrow> cb (peer_key a) s) of
             (False, s) \<Rightarrow> (Done (), None, s)
           | (True, s) \<Rightarrow>
               (case (case a_valid_creds_cb h of
                        None \<Rightarrow> (True, s)
                      | Some cb \<Rightarrow> cb (peer_key a) (msender ms) (ai_login a) (ai_pass a) s) of
                  (False, s) \<Rightarrow> (Done (), None, s)
                | (True, s) \<Rightarrow> auth_reply e os os' h a ms s))
      | (r, _) \<Rightarrow> (catch_handler (ubind r (\<lambda>_. Done ())), None, s))"

definition auth_handle ::
  "udp_env \<Rightarrow> udp_os \<Rightarrow> udp_os \<Rightarrow> kgen_fn \<Rightarrow> 's auth_handler \<Rightarrow> msg \<Rightarrow> circbuf \<times> (nat \<Rightarrow> msg) \<Rightarrow> 's \<Rightarrow>
   unit ures \<times> u8 list option \<times> (circbuf \<times> (nat \<Rightarrow> msg)) \<times> 's" where
  "auth_handle e os os' kgen h ms msgs s =
     (case take_msg msgs ms of
        (Done (Some ms), msgs) \<Rightarrow> (case auth_process e os os' kgen h ms s of (r, p, s) \<Rightarrow> (r, p, msgs, s))
      | (r, msgs) \<Rightarrow> (ubind r (\<lambda>_. Done ()), None, msgs, s))"

subsection \<open>The client\<close>

record auth_cli =
  ac_sock :: int
  ac_private_key :: bignum
  ac_public_key :: ecdh_key
  ac_server_key :: ecdh_key
  ac_server_salt :: tbuf
  ac_my_salt :: tbuf
  ac_login :: tbuf
  ac_pass :: tbuf
  ac_session_key :: tbuf

definition prepare_auth :: "udp_env \<Rightarrow> udp_os \<Rightarrow> kgen_fn \<Rightarrow> auth_cli \<Rightarrow> msg \<Rightarrow> bool ures \<times> msg" where
  "prepare_auth e os kgen c m =
     (case put_res (xdr_put_i32 (upages e) (type_code unicast_auth_p) (xdr_new (fresh_pbuf e))) of
        Done xbo \<Rightarrow>
          (case ecdh_to_xdr (upages e) (ac_public_key c) xbo of
             (Done False, _) \<Rightarrow> (uthr e comm_xdr_error False, m)
           | (Done True, xbo) \<Rightarrow>
               if psize (xb xbo) > max_len then (uthr e comm_too_big False, m)
               else let m = put_outer (xb xbo) m
                    in (case ubind (put_res (xdr_put_bindata (upages e) (Some (bdata (ac_my_salt c))) 8 (xdr_new (fresh_pbuf e)))) (\<lambda>xbi.
                             ubind (put_res (xdr_put_ustr (upages e) (ac_login c) xbi)) (\<lambda>xbi.
                             ubind (put_res (xdr_put_ustr (upages e) (ac_pass c) xbi)) (\<lambda>xbi.
                             put_res (xdr_put_ustr (upages e) (ac_session_key c) xbi)))) of
                          Done xbi \<Rightarrow>
                            if \<not> has_data (ac_server_key c) then (uthr e comm_pubkey_empty False, m)
                            else (case shared_key e kgen (ac_server_key c) (ac_private_key c) of
                                    None \<Rightarrow> (uthr e comm_sec_error False, m)
                                  | Some session_key_v \<Rightarrow>
                                      seal_packet e (gen_rand e os 8 (fresh e 8)) session_key_v (xb xbi) (psize (xb xbo)) m)
                        | r \<Rightarrow> (give_up e r, m))
           | (r, _) \<Rightarrow> (r, m))
      | r \<Rightarrow> (give_up e r, m))"

definition init_htua :: "udp_env \<Rightarrow> auth_cli \<Rightarrow> msg \<Rightarrow> bool ures \<times> auth_cli" where
  "init_htua e c m =
     (case read_type e 0 (msize m) m of
        Done (packet_type, xbo) \<Rightarrow>
          if packet_type \<noteq> type_code unicast_htua_p then (uthr e comm_invalid_packet_type False, c)
          else (case position xbo of
                  None \<Rightarrow> (Undef Null_pointer, c)
                | Some pos \<Rightarrow>
                    (case open_packet e (ac_session_key c) m pos of
                       Done None \<Rightarrow> (Done False, c)
                     | Done (Some d) \<Rightarrow>
                         (case inner_stream e d of
                            Done xbi \<Rightarrow>
                              (case read_salt e (ac_server_salt c) xbi of
                                 (Done (Some _), slt) \<Rightarrow> (Done True, c\<lparr>ac_server_salt := slt\<rparr>)
                               | (r, slt) \<Rightarrow> (give_up e r, c\<lparr>ac_server_salt := slt\<rparr>))
                          | r \<Rightarrow> (give_up e r, c))
                     | r \<Rightarrow> (give_up e r, c)))
      | r \<Rightarrow> (give_up e r, c))"

definition auth_init :: "udp_env \<Rightarrow> udp_os \<Rightarrow> auth_cli \<Rightarrow> bool ures \<times> auth_cli" where
  "auth_init e os c =
     (if ac_sock c > 0 then (Done True, c)
      else if \<not> has_data (ac_public_key c) then (uthr e comm_pubkey_empty False, c)
      else let c = c\<lparr>ac_sock := init_sock os\<rparr>
           in if ac_sock c \<le> 0 then (uthr e comm_socket_failed False, c) else (Done True, c))"

text \<open>
  \<^verbatim>\<open>auth\<close>: the random salt of the client comes from \<open>os'\<close>, the one of the packet from \<open>os\<close>; \<open>sess\<close> is the
  string \<^verbatim>\<open>gen_sess_key\<close> makes of random bytes with SHA1.
\<close>

definition auth :: "udp_env \<Rightarrow> udp_os \<Rightarrow> udp_os \<Rightarrow> u8 list \<Rightarrow> kgen_fn \<Rightarrow> auth_cli \<Rightarrow> bool ures \<times> auth_cli \<times> u8 list option" where
  "auth e os os' sess kgen c =
     (case auth_init e os c of
        (Done True, c) \<Rightarrow>
          if \<not> has_data (ac_public_key c) then (uthr e comm_pubkey_empty False, c, None)
          else let c = c\<lparr>ac_my_salt := gen_rand e os' 8 (ac_my_salt c),
                         ac_session_key := fst (tbuf_set (uml e) (Some (sess @ [0])) (length sess + 1) (ac_session_key c))\<rparr>
               in (case prepare_auth e os kgen c (fresh_msg e) of
                     (Done False, _) \<Rightarrow> (uthr e comm_pkt_error False, c, None)
                   | (Done True, m) \<Rightarrow>
                       if os_send os (wire m) \<noteq> int (msize m) then (uthr e comm_send_failed False, c, Some (wire m))
                       else if os_select os > 0
                       then (case os_recv os max_len of
                               None \<Rightarrow> (uthr e comm_recv_failed False, c, Some (wire m))
                             | Some b \<Rightarrow>
                                 if length b > 0
                                 then (case init_htua e c ((msg_write 0 b m)\<lparr>msize := length b\<rparr>) of
                                         (Done False, c) \<Rightarrow> (uthr e comm_pkt_error False, c, Some (wire m))
                                       | (r, c) \<Rightarrow> (r, c, Some (wire m)))
                                 else (uthr e comm_recv_failed False, c, Some (wire m)))
                       else if os_select os = 0 then (uthr e comm_timeout False, c, Some (wire m))
                       else (uthr e comm_select_failed False, c, Some (wire m))
                   | (r, _) \<Rightarrow> (r, c, None))
      | (Done False, c) \<Rightarrow> (Done False, c, None)
      | (r, c) \<Rightarrow> (r, c, None))"

subsection \<open>Whatever arrives\<close>

lemma init_auth_never:
  assumes "udp_ok e"
  shows "init_auth e kgen pk a m \<noteq> (Done True, a')"
proof (cases "read_type e 0 (msize m) m")
  case (Done wx)
  obtain w x where wx: "wx = (w, x)" by (cases wx)
  obtain r k y where k: "ecdh_from_xdr e (peer_key a) x = (r, k, y)" by (cases "ecdh_from_xdr e (peer_key a) x")
  have "r \<noteq> Done True" using ecdh_from_xdr_never [of x e "peer_key a" "(k, y)"] read_type_inv [OF assms] Done wx k by blast
  then show ?thesis using Done wx k by (cases r) (auto simp: init_auth_def uthr_def)
qed (simp_all add: init_auth_def give_up_never)

lemma init_htua_never:
  assumes "udp_ok e"
  shows "init_htua e c m \<noteq> (Done True, c')"
  using open_packet_inv [OF assms, of "ac_session_key c" m] read_salt_opened [OF assms, of _ _ "ac_server_salt c"]
  by (auto simp: init_htua_def give_up_never uthr_def split: ures.splits prod.splits option.splits) blast

lemma auth_process_none: "udp_ok e \<Longrightarrow> \<exists>r. auth_process e os os' kgen h ms s = (r, None, s)"
  using init_auth_never [of e kgen "a_private_key h" "fresh_auth_in e" ms]
  by (auto simp: auth_process_def split: ures.split prod.split bool.split)

lemma auth_handle_none: "udp_ok e \<Longrightarrow> \<exists>r msgs'. auth_handle e os os' kgen h ms msgs s = (r, None, msgs', s)"
  using auth_process_none [of e os os' kgen h _ s] by (auto simp: auth_handle_def split: ures.split prod.split option.split) (metis prod.inject)+

lemma auth_never:
  assumes "udp_ok e"
  shows "auth e os os' sess kgen c \<noteq> (Done True, c', p)"
  using init_htua_never [OF assms]
  by (auto simp: auth_def Let_def uthr_def split: ures.splits prod.splits bool.splits option.splits if_splits)

subsection \<open>Packets sent\<close>

definition string_ok :: "tbuf \<Rightarrow> bool" where
  "string_ok t \<longleftrightarrow> tbuf_ok t \<and> bytes t \<noteq> [] \<and> last (bytes t) = 0 \<and> bsize t \<le> 8000"

lemma put_strings:
  assumes "udp_ok e" and "pbuf_ok (xb x)" and "string_ok t"
  obtains b where "put_res (xdr_put_ustr (upages e) t x) = Done (x\<lparr>xb := b\<rparr>)" "pbuf_ok b" "pbytes b = pbytes (xb x) @ enc_bytes (bytes t)"
proof -
  have t: "tbuf_ok t" "length (bytes t) < 2 ^ 64 - 3" using assms(3) length_bytes [of t] by (auto simp: string_ok_def)
  show thesis
    using put_res_writes [OF put_bytes_writes(3) [OF assms(2) udp_okD(3) [OF assms(1)] t(2) refl t(1)]] that by blast
qed

lemma length_enc_string: "string_ok t \<Longrightarrow> length (enc_bytes (bytes t)) \<le> 8008"
  using ceil4_le [of 8000 "bsize t"] by (simp add: string_ok_def length_enc_bytes length_bytes)

lemma read_string_ok:
  assumes "udp_ok e" and "tbuf_ok v" and "string_ok t" and "xdr_ok x" and "rest x = enc_bytes (bytes t) @ r"
  obtains v' x' where "read_string e v x = (Done x', v')" "bytes v' = bytes t" "xdr_ok x'" "rest x' = r"
proof -
  have t: "length (bytes t) < 2 ^ 64 - 3" "bytes t \<noteq> []" "last (bytes t) = 0" using assms(3) length_bytes [of t] by (auto simp: string_ok_def)
  have m: "\<forall>n. uml e n \<noteq> None" using udp_okD(2) [OF assms(1)] by (simp add: mal_total_def)
  obtain v' x' where "xdr_get_ustr (uml e) v x = Some (Inr (), v', x')" "bytes v' = bytes t" "xdr_ok x'" "rest x' = r"
    by (rule get_ustr_ok [OF assms(4,5) t assms(2) udp_okD(1) [OF assms(1)] m])
  then show thesis using that by (simp add: read_string_def)
qed

definition auth_inner :: "auth_cli \<Rightarrow> u8 list" where
  "auth_inner c = enc_bytes (bytes (ac_my_salt c)) @ enc_bytes (bytes (ac_login c)) @ enc_bytes (bytes (ac_pass c)) @ enc_bytes (bytes (ac_session_key c))"

definition auth_cli_ok :: "auth_cli \<Rightarrow> bool" where
  "auth_cli_ok c \<longleftrightarrow> ecdh_ok (ac_public_key c) \<and> length (enc_key (ac_public_key c)) \<le> 40000 \<and> has_data (ac_server_key c) \<and>
     tbuf_ok (ac_my_salt c) \<and> bsize (ac_my_salt c) = 8 \<and> string_ok (ac_login c) \<and> string_ok (ac_pass c) \<and> string_ok (ac_session_key c)"

lemma auth_inner_put:
  assumes "udp_ok e" and "auth_cli_ok c"
  obtains b where "ubind (put_res (xdr_put_bindata (upages e) (Some (bdata (ac_my_salt c))) 8 (xdr_new (fresh_pbuf e)))) (\<lambda>xbi.
      ubind (put_res (xdr_put_ustr (upages e) (ac_login c) xbi)) (\<lambda>xbi.
      ubind (put_res (xdr_put_ustr (upages e) (ac_pass c) xbi)) (\<lambda>xbi.
      put_res (xdr_put_ustr (upages e) (ac_session_key c) xbi)))) = Done ((xdr_new (fresh_pbuf e))\<lparr>xb := b\<rparr>)"
    "pbuf_ok b" "pbytes b = auth_inner c"
proof -
  let ?x = "xdr_new (fresh_pbuf e)"
  note c = assms(2) [unfolded auth_cli_ok_def]
  have x: "pbuf_ok (xb ?x)" "pbytes (xb ?x) = []" using fresh_pbuf_ok [OF assms(1)] by (simp_all add: xdr_new_def)
  obtain b0 where b0: "put_res (xdr_put_bindata (upages e) (Some (bdata (ac_my_salt c))) 8 ?x) = Done (?x\<lparr>xb := b0\<rparr>)" "pbuf_ok b0" "pbytes b0 = enc_bytes (bytes (ac_my_salt c))"
    using put_res_writes [OF put_bindata_writes [OF x(1) udp_okD(3) [OF assms(1)], of "ac_my_salt c"]] c x(2) by auto
  obtain b1 where b1: "put_res (xdr_put_ustr (upages e) (ac_login c) (?x\<lparr>xb := b0\<rparr>)) = Done (?x\<lparr>xb := b1\<rparr>)" "pbuf_ok b1" "pbytes b1 = pbytes b0 @ enc_bytes (bytes (ac_login c))"
    by (rule put_strings [OF assms(1), of "?x\<lparr>xb := b0\<rparr>" "ac_login c"]) (use b0(2) c in simp_all)
  obtain b2 where b2: "put_res (xdr_put_ustr (upages e) (ac_pass c) (?x\<lparr>xb := b1\<rparr>)) = Done (?x\<lparr>xb := b2\<rparr>)" "pbuf_ok b2" "pbytes b2 = pbytes b1 @ enc_bytes (bytes (ac_pass c))"
    by (rule put_strings [OF assms(1), of "?x\<lparr>xb := b1\<rparr>" "ac_pass c"]) (use b1(2) c in simp_all)
  obtain b3 where b3: "put_res (xdr_put_ustr (upages e) (ac_session_key c) (?x\<lparr>xb := b2\<rparr>)) = Done (?x\<lparr>xb := b3\<rparr>)" "pbuf_ok b3" "pbytes b3 = pbytes b2 @ enc_bytes (bytes (ac_session_key c))"
    by (rule put_strings [OF assms(1), of "?x\<lparr>xb := b2\<rparr>" "ac_session_key c"]) (use b2(2) c in simp_all)
  show thesis by (rule that [of b3]) (use b0 b1 b2 b3 in \<open>simp_all add: auth_inner_def\<close>)
qed

subsection \<open>Properties\<close>

text \<open>
  C24: the server never answers an authentication, and the client's \<^verbatim>\<open>auth\<close> never returns true. Whatever
  message arrives, \<^verbatim>\<open>init_auth\<close> does not return true; \<^verbatim>\<open>operator()\<close> calls none of the three callbacks and
  sends nothing, and \<^verbatim>\<open>init_htua\<close> accepts no answer.
\<close>

theorem auth_never_answered:
  assumes "udp_ok e"
  shows "fst (init_auth e kgen pk a m) \<noteq> Done True \<and> (\<exists>r msgs'. auth_handle e os os' kgen h ms msgs s = (r, None, msgs', s)) \<and>
    fst (init_htua e c m) \<noteq> Done True \<and> fst (auth e os os' sess kgen c) \<noteq> Done True"
proof -
  have "fst (init_auth e kgen pk a m) \<noteq> Done True" using init_auth_never [OF assms, of kgen pk a m] by (cases "init_auth e kgen pk a m") auto
  moreover have "fst (init_htua e c m) \<noteq> Done True" using init_htua_never [OF assms, of c m] by (cases "init_htua e c m") auto
  moreover have "fst (auth e os os' sess kgen c) \<noteq> Done True" using auth_never [OF assms, of os os' sess kgen c] by (cases "auth e os os' sess kgen c") auto
  ultimately show ?thesis using auth_handle_none [OF assms, of os os' kgen h ms msgs s] by blast
qed

theorem auth_never_answered_witness:
  "\<exists>r msgs'. auth_handle udp_env0 os0 os0 (\<lambda>a b. Some (replicate 40 65)) \<lparr>a_private_key = key_x key0, a_valid_key_cb = Some (\<lambda>k s. (True, s + 1)),
       a_valid_creds_cb = None, a_register_cb = None\<rparr> (msg_of []) (snd (push (circbuf_new True 30)), \<lambda>_. msg_of (enc32 4 @ enc_key key0)) (0 :: nat) =
     (r, None, msgs', 0)"
  by (rule auth_never_answered [OF udp_env0_ok(1), THEN conjunct2, THEN conjunct1])

text \<open>
  C23: an auth packet says what it should. It is the type, the client's public key, and sealed under
  the shared key the client's salt, login, password and session key; who receives these bytes and
  has the same shared key gets the four back from the packet behind the key.
\<close>

theorem auth_packet_opens:
  assumes "udp_ok e" and "length (mdata m) = max_len" and "auth_cli_ok c" and "kgen (ac_server_key c) (ac_private_key c) = Some sk" and "15 \<le> length sk"
    and "os_rand os 8 = Some r8" and "length r8 = 8" and "rand4 (ucrypt e) = Some r"
    and "udp_ok e2" and "key_ok k2 \<and> bytes k2 = sk @ [0]" and "tbuf_ok (ai_login a) \<and> tbuf_ok (ai_pass a) \<and> tbuf_ok (ai_sesskey a)"
  shows "\<exists>m'. prepare_auth e os kgen c m = (Done True, m') \<and> msg_ok m' \<and>
    wire m' = enc32 (type_code unicast_auth_p) @ enc_key (ac_public_key c) @ packet (take 16 (sk @ [0])) r8 r (auth_inner c) \<and>
    (\<forall>m2. msg_ok m2 \<and> wire m2 = wire m' \<longrightarrow>
      (\<exists>t x x1 a'. open_packet e2 k2 m2 (4 + length (enc_key (ac_public_key c))) = Done (Some t) \<and> inner_stream e2 t = Done x \<and>
        get_data_max 8 x = Some (Inr (True, 8, bytes (ac_my_salt c)), x1) \<and> read_strings e2 a x1 = (Done True, a') \<and>
        bytes (ai_login a') = bytes (ac_login c) \<and> bytes (ai_pass a') = bytes (ac_pass c) \<and> bytes (ai_sesskey a') = bytes (ac_session_key c)))"
proof -
  let ?pub = "ac_public_key c"
  note c = assms(3) [unfolded auth_cli_ok_def]
  obtain b0 b where b: "put_res (xdr_put_i32 (upages e) 4 (xdr_new (fresh_pbuf e))) = Done ((xdr_new (fresh_pbuf e))\<lparr>xb := b0\<rparr>)"
      "ecdh_to_xdr (upages e) ?pub ((xdr_new (fresh_pbuf e))\<lparr>xb := b0\<rparr>) = (Done True, (xdr_new (fresh_pbuf e))\<lparr>xb := b\<rparr>)"
      "pbuf_ok b" "pbytes b = enc32 4 @ enc_key ?pub" "psize b = 4 + length (enc_key ?pub)"
    by (rule put_type_key [OF assms(1) c [THEN conjunct1]])
  obtain b2 where b2: "ubind (put_res (xdr_put_bindata (upages e) (Some (bdata (ac_my_salt c))) 8 (xdr_new (fresh_pbuf e)))) (\<lambda>xbi.
      ubind (put_res (xdr_put_ustr (upages e) (ac_login c) xbi)) (\<lambda>xbi.
      ubind (put_res (xdr_put_ustr (upages e) (ac_pass c) xbi)) (\<lambda>xbi.
      put_res (xdr_put_ustr (upages e) (ac_session_key c) xbi)))) = Done ((xdr_new (fresh_pbuf e))\<lparr>xb := b2\<rparr>)"
      "pbuf_ok b2" "pbytes b2 = auth_inner c"
    by (rule auth_inner_put [OF assms(1,3)])
  obtain k where k: "shared_key e kgen (ac_server_key c) (ac_private_key c) = Some k" "key_ok k" "bytes k = sk @ [0]"
    by (rule shared_key_ok [where kgen = kgen, OF assms(1,4,5)])
  note g = gen_rand_ok [OF assms(1,6,7)]
  have v: "tbuf_ok (ai_login a)" "tbuf_ok (ai_pass a)" "tbuf_ok (ai_sesskey a)"
    and so: "string_ok (ac_login c)" "string_ok (ac_pass c)" "string_ok (ac_session_key c)"
    using assms(11) c by simp_all
  have S: "length (bytes (ac_my_salt c)) = 8" using c by (simp add: length_bytes)
  have L: "length (auth_inner c) \<le> 24040"
    using c S length_enc_string [of "ac_login c"] length_enc_string [of "ac_pass c"] length_enc_string [of "ac_session_key c"]
    by (simp add: auth_inner_def length_enc_bytes [of "bytes (ac_my_salt c)"] ceil4_id)
  obtain m' where m': "seal_packet e (gen_rand e os 8 (fresh e 8)) k b2 (psize b) (put_outer b m) = (Done True, m')" "msg_ok m'" "length r = 4"
      "wire m' = pbytes b @ packet (take 16 (bytes k)) (bytes (gen_rand e os 8 (fresh e 8))) r (pbytes b2)"
    using sealed_message [OF assms(1) k(2) _ _ b2(2) _ assms(8) b(3) assms(2), of "gen_rand e os 8 (fresh e 8)"] g b(4) b2(3) L c by auto
  have P: "prepare_auth e os kgen c m = (Done True, m')"
    unfolding prepare_auth_def using b(1,2,5) b2(1) k(1) m'(1) c by simp
  have W: "wire m' = (enc32 4 @ enc_key ?pub) @ packet (take 16 (bytes k2)) r8 r (auth_inner c)"
    using m'(4) b(4) b2(3) k(3) g assms(10) by simp
  have "\<exists>t x x1 a'. open_packet e2 k2 m2 (4 + length (enc_key ?pub)) = Done (Some t) \<and> inner_stream e2 t = Done x \<and>
        get_data_max 8 x = Some (Inr (True, 8, bytes (ac_my_salt c)), x1) \<and> read_strings e2 a x1 = (Done True, a') \<and>
        bytes (ai_login a') = bytes (ac_login c) \<and> bytes (ai_pass a') = bytes (ac_pass c) \<and> bytes (ai_sesskey a') = bytes (ac_session_key c)"
    if "msg_ok m2" "wire m2 = wire m'" for m2
  proof -
    note w = wire_eq [OF that(1) that(2) [unfolded W]]
    have s: "msize m2 = length (enc32 4 @ enc_key ?pub) + length (auth_inner c) + 20" "msize m2 \<le> max_len" "length (mdata m2) = max_len"
      using w(1) m'(3) assms(7) that(1) by (simp_all add: msg_ok_def)
    obtain t where t: "open_packet e2 k2 m2 (4 + length (enc_key ?pub)) = Done (Some t)" "tbuf_ok t" "bytes t = auth_inner c"
      using open_sealed [OF assms(9) assms(10) [THEN conjunct1] s(3) _ assms(7) m'(3) _ s(1,2)] w(2) L by auto
    obtain x where x: "inner_stream e2 t = Done x" "xdr_ok x" "rest x = auth_inner c"
      using inner_stream_ok [OF assms(9) t(2)] t(3) by auto
    obtain x1 where x1: "get_data_max 8 x = Some (Inr (True, 8, bytes (ac_my_salt c)), x1)" "xdr_ok x1"
        "rest x1 = enc_bytes (bytes (ac_login c)) @ enc_bytes (bytes (ac_pass c)) @ enc_bytes (bytes (ac_session_key c))"
      using get_data_max_ok [OF x(2) x(3) [unfolded auth_inner_def], of 8] S by auto
    obtain l x2 where l: "read_string e2 (ai_login a) x1 = (Done x2, l)" "bytes l = bytes (ac_login c)" "xdr_ok x2"
        "rest x2 = enc_bytes (bytes (ac_pass c)) @ enc_bytes (bytes (ac_session_key c))"
      by (rule read_string_ok [OF assms(9) v(1) so(1) x1(2,3)])
    obtain p x3 where p: "read_string e2 (ai_pass a) x2 = (Done x3, p)" "bytes p = bytes (ac_pass c)" "xdr_ok x3"
        "rest x3 = enc_bytes (bytes (ac_session_key c))"
      by (rule read_string_ok [OF assms(9) v(2) so(2) l(3,4)])
    then have "rest x3 = enc_bytes (bytes (ac_session_key c)) @ []" by simp
    then obtain q x4 where "read_string e2 (ai_sesskey a) x3 = (Done x4, q)" "bytes q = bytes (ac_session_key c)"
      by (rule read_string_ok [OF assms(9) v(3) so(3) p(3)])
    then show ?thesis using t(1) x(1) x1(1) l(1,2) p(1,2) by (simp add: read_strings_def)
  qed
  then show ?thesis using P m'(2) W assms(10) by (intro exI [of _ m']) simp
qed

text \<open>A client for the examples.\<close>

definition auth_cli0 :: auth_cli where
  "auth_cli0 = \<lparr>ac_sock = 3, ac_private_key = key_x key0, ac_public_key = key0, ac_server_key = key0, ac_server_salt = tbuf_of [],
     ac_my_salt = tbuf_of (replicate 8 5), ac_login = tbuf_of [98, 111, 98, 0], ac_pass = tbuf_of [0], ac_session_key = tbuf_of (replicate 40 66 @ [0])\<rparr>"

lemma auth_cli0_ok: "auth_cli_ok auth_cli0"
proof -
  have "has_data key0" by (simp add: has_data_def key0_def ustr_size_def is_empty_def)
  then show ?thesis by (simp add: auth_cli_ok_def auth_cli0_def string_ok_def)
qed

theorem auth_packet_opens_witness:
  "\<exists>m'. prepare_auth udp_env0 os0 (\<lambda>a b. Some (replicate 40 65)) auth_cli0 (msg_of []) = (Done True, m') \<and>
     (\<exists>t x x1 a'. open_packet udp_env0 (tbuf_of (replicate 40 65 @ [0])) m' 48 = Done (Some t) \<and> inner_stream udp_env0 t = Done x \<and>
        get_data_max 8 x = Some (Inr (True, 8, replicate 8 5), x1) \<and> read_strings udp_env0 (fresh_auth_in udp_env0) x1 = (Done True, a') \<and>
        bytes (ai_login a') = [98, 111, 98, 0])"
proof -
  have f: "tbuf_ok (fresh_ustr udp_env0)" by (simp add: fresh_ustr_def udp_env0_def tbuf_new_uchar_def tbuf_ok_def bdata_def)
  have "ac_public_key auth_cli0 = key0" "bytes (ac_my_salt auth_cli0) = replicate 8 5" "bytes (ac_login auth_cli0) = [98, 111, 98, 0]"
    by (simp_all add: auth_cli0_def)
  then show ?thesis
    using auth_packet_opens [OF udp_env0_ok(1) _ auth_cli0_ok, of "msg_of []" "\<lambda>a b. Some (replicate 40 65)" "replicate 40 65" os0 "replicate 8 9"
        "[1, 2, 3, 4]" udp_env0 "tbuf_of (replicate 40 65 @ [0])" "fresh_auth_in udp_env0"] f
    by (auto simp: os0_def key_ok_def msg_of_def fresh_auth_in_def)
qed

text \<open>
  An htua packet is the type and, sealed under the session key and the packet's salt, the salt of
  the server.
\<close>

theorem htua_packet_opens:
  assumes "udp_ok e" and "length (mdata m) = max_len" and "key_ok k" and "tbuf_ok ps \<and> bsize ps = 8" and "tbuf_ok cs \<and> bsize cs = 8"
    and "rand4 (ucrypt e) = Some r"
  shows "\<exists>m'. prepare_htua e ps cs k m = (Done True, m') \<and> msg_ok m' \<and>
    wire m' = enc32 (type_code unicast_htua_p) @ packet (take 16 (bytes k)) (bytes ps) r (enc_bytes (bytes cs))"
proof -
  have s: "tbuf_ok ps" "bsize ps = 8" "tbuf_ok cs" "bsize cs = 8" using assms(4,5) by simp_all
  have x: "pbuf_ok (xb (xdr_new (fresh_pbuf e)))" "pbytes (xb (xdr_new (fresh_pbuf e))) = []"
    using fresh_pbuf_ok [OF assms(1)] by (simp_all add: xdr_new_def)
  obtain b where b: "put_res (xdr_put_i32 (upages e) 5 (xdr_new (fresh_pbuf e))) = Done ((xdr_new (fresh_pbuf e))\<lparr>xb := b\<rparr>)" "pbuf_ok b" "pbytes b = enc32 5"
    by (rule put_type [OF assms(1)])
  have bs: "psize b = 4" using b(2,3) by (simp add: pbuf_ok_def)
  obtain b2 where b2: "put_res (xdr_put_bindata (upages e) (Some (bdata cs)) (bsize cs) (xdr_new (fresh_pbuf e))) = Done ((xdr_new (fresh_pbuf e))\<lparr>xb := b2\<rparr>)"
      "pbuf_ok b2" "pbytes b2 = enc_bytes (bytes cs)"
    using put_res_writes [OF put_bindata_writes [OF x(1) udp_okD(3) [OF assms(1)] s(3)]] s(4) x(2) by auto
  have L: "length (pbytes b2) = 16" using b2(3) s(3,4) by (simp add: length_enc_bytes length_bytes ceil4_id)
  let ?ps = "tbuf_assign (uml e) ps (fresh e 8)"
  note ps = salt_copy [OF assms(1) s(1,2)]
  obtain m' where m': "seal_packet e ?ps k b2 (psize b) (put_outer b m) = (Done True, m')" "msg_ok m'" "length r = 4"
      "wire m' = pbytes b @ packet (take 16 (bytes k)) (bytes ?ps) r (pbytes b2)"
    using sealed_message [OF assms(1,3) ps(1,2) b2(2) _ assms(6) b(2) assms(2)] L b(3) by auto
  have "prepare_htua e ps cs k m = seal_packet e ?ps k b2 (psize b) (put_outer b m)"
    unfolding prepare_htua_def using s(2,4) ustr_size_key [OF assms(3)] b bs b2(1) by simp
  then show ?thesis using m' ps(3) b(3) b2(3) by auto
qed

theorem htua_packet_opens_witness:
  "\<exists>m'. prepare_htua udp_env0 (tbuf_of (replicate 8 1)) (tbuf_of (replicate 8 2)) (tbuf_of (replicate 40 65 @ [0])) (msg_of []) = (Done True, m') \<and>
     wire m' = enc32 5 @ packet (replicate 16 65) (replicate 8 1) [1, 2, 3, 4] (enc_bytes (replicate 8 2))"
proof -
  have t: "take 16 (replicate 40 65 @ [0]) = replicate 16 (65 :: u8)" by simp
  have "key_ok (tbuf_of (replicate 40 65 @ [0]))" "length (mdata (msg_of [])) = max_len" by (simp_all add: key_ok_def msg_of_def)
  then show ?thesis
    using htua_packet_opens [OF udp_env0_ok(1), of "msg_of []" "tbuf_of (replicate 40 65 @ [0])" "tbuf_of (replicate 8 1)" "tbuf_of (replicate 8 2)" "[1, 2, 3, 4]"]
    by (auto simp: t)
qed

end
