(* ===== verification/Spec2Isabelle.thy ===== *)
theory Spec2Isabelle
  imports Crypt_Pkt Xdr_Stream Circbuf Queue Event Pevent Mutex Thrpool Bfd Udp_Recvr Udp_Data Udp_Auth
begin

text \<open>
  A verification library for codesloop, a C++ utility library with a C core for cryptography.

  \<^bold>\<open>The program.\<close> The parts modelled here, from the bottom up, and how they use each other:

  \<^item> the AES block cipher, \<^verbatim>\<open>src/sec/rijndael-alg-fst.c\<close>;
  \<^item> the message authentication code UMAC, \<^verbatim>\<open>src/sec/umac.c\<close>, which derives its keys and pads with
    the cipher, hashes a message with three universal hash layers (NH, a polynomial, an inner
    product) and masks the hash with the pad of a nonce;
  \<^item> authenticated encryption UMAC-AE, the last third of the same file and \<^verbatim>\<open>src/sec/umac_ae.h\<close>: the
    cipher in counter mode and UMAC over header, ciphertext, footer and their lengths;
  \<^item> the byte buffer \<^verbatim>\<open>tbuf\<close>, \<^verbatim>\<open>src/common/tbuf.hh\<close> and \<^verbatim>\<open>tbuf_impl.hh\<close>;
  \<^item> packet encryption, \<^verbatim>\<open>src/sec/crypt_pkt.cc\<close>, UMAC-AE over \<^verbatim>\<open>tbuf\<close> arguments;
  \<^item> the pointer list \<^verbatim>\<open>src/common/pvlist.hh\<close>, and the paged buffer \<^verbatim>\<open>src/common/pbuf.cc\<close>, a \<^verbatim>\<open>pvlist\<close> of
    pages of 2048 bytes;
  \<^item> XDR streams, \<^verbatim>\<open>src/common/xdrbuf.cc\<close>, which write to and read from a \<^verbatim>\<open>pbuf\<close>, and use the strings
    \<^verbatim>\<open>str\<close> and \<^verbatim>\<open>ustr\<close>, whose contents are \<^verbatim>\<open>tbuf\<close>s;
  \<^item> the circular buffer \<^verbatim>\<open>src/common/circbuf.hh\<close>, three rings of linked items;
  \<^item> the vector \<^verbatim>\<open>src/common/inpvec_impl.hh\<close>, pages of raw memory with bitmaps of the constructed objects, which
    finds its slots with the byte tables of \<^verbatim>\<open>src/common/hlprs.cc\<close>, and the queue
    \<^verbatim>\<open>src/common/queue_impl.hh\<close>, whose linked items lie in such a vector;
  \<^item> the synchronization objects \<^verbatim>\<open>event\<close>, \<^verbatim>\<open>pevent\<close> and \<^verbatim>\<open>mutex\<close> of \<^verbatim>\<open>src/nthread\<close>, in their pthread variants,
    which a thread-safe queue uses through the virtual functions of \<^verbatim>\<open>queue\<close>, and the thread pool
    \<^verbatim>\<open>src/nthread/thrpool.cc\<close>, whose workers wait for an \<^verbatim>\<open>event\<close> and which the UDP servers below run their handlers in;
  \<^item> the read buffer \<^verbatim>\<open>src/common/rdbuf.hh\<close>, a \<^verbatim>\<open>tbuf\<close> of which the front is consumed while the end is filled, and the
    buffered descriptor \<^verbatim>\<open>src/comm/bfd.cc\<close>, which reads files and sockets through it;
  \<^item> the UDP protocols: the receiver \<^verbatim>\<open>src/comm/udp_recvr.cc\<close> puts datagrams into a circular buffer, from which the
    handlers of \<^verbatim>\<open>src/comm/udp_hello.cc\<close>, \<^verbatim>\<open>udp_auth.cc\<close> and \<^verbatim>\<open>udp_data.cc\<close> take them. Their packets are made of XDR
    streams, public keys (\<^verbatim>\<open>src/sec/bignum.cc\<close>, \<^verbatim>\<open>src/sec/ecdh_key.cc\<close>) and encrypted parts. A client exchanges public
    keys with hello, agrees on a session key with auth, and then sends data packets, each sealed under the salt that the
    one before it carried.

  \<^bold>\<open>The theories.\<close>

  \<^item> \<^verbatim>\<open>Prelude\<close>: word sizes, bytes of words, lemmas on lists and words, theorem collections.
  \<^item> \<^verbatim>\<open>Rijndael_Tables\<close>, \<^verbatim>\<open>Rijndael\<close>: the tables \<open>Te0\<close> to \<open>Td4\<close> with their values, key setup,
    encryption and decryption as the file has them, with the loop and with the rounds unrolled.
    \<^verbatim>\<open>Rijndael_Gf\<close>, \<^verbatim>\<open>Rijndael_Correct\<close>, \<^verbatim>\<open>Rijndael_Keys\<close>: the field of 256 elements with its laws, the S-box
    as the affine map of the inverse, the round constants as powers, the cipher of
    the AES standard on columns (\<open>aes_standard\<close>, which uses no table of the code), its inverse (locale
    \<open>product_cipher\<close>), and the theorems that the tables are the ones of the standard, that the code refines the
    standard, and that decryption inverts encryption for the three key sizes.
  \<^item> \<^verbatim>\<open>Umac_Prim\<close>, \<^verbatim>\<open>Umac_NH\<close>, \<^verbatim>\<open>Umac_Poly\<close>, \<^verbatim>\<open>Umac_Uhash\<close>, \<^verbatim>\<open>Umac\<close>: \<open>kdf\<close> and the pad cache, the NH layer
    with its buffering, the polynomial and inner-product arithmetic on 64-bit words, the context of
    the universal hash, and UMAC. The contract of a buffered hash, that the pieces in which a message
    arrives do not matter, is the locale \<open>hasher\<close> of \<^verbatim>\<open>Hasher\<close>, interpreted three times: for NH,
    for the universal hash and for UMAC. The arithmetic theorems say that no carry is lost:
    the polynomial is a Horner step modulo \<open>2^64 - 59\<close>, the inner product is exact modulo \<open>2^36 - 5\<close>.
  \<^item> \<^verbatim>\<open>Umac_AE\<close>: the functions \<^verbatim>\<open>umac_ae_*\<close>; what they compute, that decryption inverts encryption,
    that the authenticated encoding is injective and that no block of key stream is used twice or as a pad.
  \<^item> \<^verbatim>\<open>Tbuf\<close>: the buffer with its preallocated part, locale \<open>byte_buffer\<close>, refinement of byte lists.
  \<^item> \<^verbatim>\<open>Crypt_Pkt\<close>: \<open>encrypt\<close> and \<open>decrypt\<close> with every early return; round trip, authenticity, and the
    two cases in which the code does not do what its users expect.
  \<^item> \<^verbatim>\<open>Pvlist\<close> (locale \<open>cursors\<close> for containers with forward iterators), \<^verbatim>\<open>Pbuf\<close>, \<^verbatim>\<open>Xdrbuf\<close>, \<^verbatim>\<open>Xdr_Stream\<close>: each
    refines a sequence (of pointers, of bytes, of the bytes still to read, of values), by the
    theorems of the layer below it. \<^verbatim>\<open>Xdr_Stream\<close> has the round trip of whole streams and what
    every reading function does on arbitrary bytes.
  \<^item> \<^verbatim>\<open>Circbuf\<close>: the links \<^verbatim>\<open>next_\<close> and \<^verbatim>\<open>prev_\<close> of all items as maps from addresses to addresses; the
    rings stay intact and disjoint, and \<open>push\<close>, \<open>pop\<close>, \<open>newest\<close> and \<open>oldest\<close>, in any order, implement a bounded queue
    (locale \<open>bounded_fifo\<close>) that keeps the newest values.
  \<^item> \<^verbatim>\<open>Inpvec\<close>, \<^verbatim>\<open>Inpvec_Correct\<close>: pages, iterators and vectors; the byte tables find the right bits, the bitmaps agree with
    the objects, and a vector is a map from positions to objects that grows when it has to.
  \<^item> \<^verbatim>\<open>Queue\<close>: items linked by position and the handlers that own popped items; any sequence
    of operations gives the results of a first-in first-out list.
  \<^item> \<^verbatim>\<open>Monitor\<close>: threads, a condition variable as POSIX describes it, and objects whose functions are
    atomic sections, as a step relation \<open>mstep\<close> with runs \<open>run\<close>; the locales \<open>counted\<close> (the object counts
    the calls in progress) and \<open>delivering\<close> (no wake-up is lost), which extends it. \<^verbatim>\<open>Event\<close>, \<^verbatim>\<open>Pevent\<close> and \<^verbatim>\<open>Mutex\<close> have the
    sections of the three classes and interpret the locales: \<open>delivering\<close> for \<^verbatim>\<open>event\<close>, and for \<^verbatim>\<open>mutex\<close> without
    \<^verbatim>\<open>recursive_unlock\<close>; with it, and for \<^verbatim>\<open>pevent\<close>, wake-ups are lost, which is proved too.
  \<^item> \<^verbatim>\<open>Thrpool\<close>: the workers of a thread pool and its owner as programs of sections on the model of \<^verbatim>\<open>event\<close>, with
    schedules that are evaluated; the count of workers is right in any interleaving and a worker that is told to stop does, but the pool can
    lose all its workers, and a stop can end before its workers do.
  \<^item> \<^verbatim>\<open>Rdbuf\<close>, \<^verbatim>\<open>Bfd\<close>: regions of memory that are reserved, filled and adjusted; the locale \<open>stream_reader\<close> (bytes
    handed out, bytes buffered and bytes delivered agree), interpreted for the buffer and for the
    descriptor; which descriptors are closed, and where the code writes outside its buffer. The operating system is a record of functions on its own state.
  \<^item> \<^verbatim>\<open>Udp_Msg\<close>: messages, and the sections that the protocols share: a packet is sealed and opened, and the three
    exception classes are told apart. \<^verbatim>\<open>Udp_Recvr\<close>: the two sections of the receiver and the one of the handlers in
    the order in which they get the mutex; a bounded queue of messages, and the orders in which it is not one.
    \<^verbatim>\<open>Udp_Data\<close>, \<^verbatim>\<open>Udp_Hello\<close>, \<^verbatim>\<open>Udp_Auth\<close>: handlers and clients, with their callbacks as functions on a state;
    \<^verbatim>\<open>Ecdh_Xdr\<close>: public keys in streams. The packets that are sent contain what they should, on the lower layers' theorems; but
    none is ever accepted, since the function that reads their variable parts, the \<^verbatim>\<open>get_data\<close> template of
    \<^verbatim>\<open>xdrbuf\<close>, fails on all of them.

  \<^bold>\<open>Conventions.\<close> Definitions carry the names of the functions they translate, with a prefix where
  two classes have the same name. State is passed explicitly; C arrays are lists of
  8, 32 or 64-bit words, and machine arithmetic is done on words where it can wrap around. Sizes
  that index memory are natural numbers. An \<open>option\<close> or a sum is an error, an exception, the use of a
  null pointer or, for loops that may not end, a missing result, as each definition says. The
  configuration is the portable C code for a little-endian 64-bit machine with 8-byte
  tags: \<^verbatim>\<open>FORCE_C_ONLY\<close>, \<^verbatim>\<open>UMAC_OUTPUT_LEN\<close> 8, no SSE2. The sizes 4, 12 and 16 of \<^verbatim>\<open>nh_aux\<close> are modelled
  and proved to agree.

  \<^bold>\<open>Parameters.\<close> Memory is an argument: \<open>malloc_fn\<close> gives for a size a block with some contents or
  nothing, \<open>pages\<close> gives the pages of a \<^verbatim>\<open>pbuf\<close>, \<open>mem\<close> tells whether there is memory for a page of a vector;
  theorems that need memory say so (\<open>mal_ok\<close>, \<open>pages_ok\<close>, \<open>\<And>m. mem m\<close>), and their witnesses use an allocator that always succeeds. OpenSSL's random bytes and
  uninitialised memory are arguments about which nothing is assumed, except, where a packet is made, that there are random
  bytes. What local objects of the UDP functions hold is the record \<open>udp_env\<close>, the results of their system calls the record
  \<open>udp_os\<close>, and the key agreement of OpenSSL the function \<open>kgen_fn\<close>. The system calls of \<^verbatim>\<open>bfd\<close> are the record \<open>kernel\<close>; its contract
  \<open>kernel_ok\<close> names the bytes delivered and the descriptors closed so far.

  \<^bold>\<open>Termination.\<close> No theorem is conditional on fuel. Loops that always end are total functions
  with a measure (\<^verbatim>\<open>append_loop\<close> of \<^verbatim>\<open>Pbuf\<close>) or structural recursions. Loops that may run forever, the cipher's
  round loop with an unsupported key size, the page loops of \<^verbatim>\<open>xdrbuf\<close> and the loops of \<^verbatim>\<open>circbuf\<close>,
  are partial functions, and that they return is stated and proved, as is where they
  do not (\<open>rijndael_bad_key_bits\<close>, \<open>circbuf_commit_liveness\<close>). For the synchronization objects the theorems
  on delivery say also that the threads that were woken come to rest, and the one on the thread pool bounds the sections a worker still runs.

  \<^bold>\<open>Bounds.\<close> The theorems on vectors hold below \<open>2 ^ 31\<close> slots, those on queues for \<open>2 ^ 23\<close> operations: below
  that the 32-bit arithmetic on page sizes does not wrap around. A run of a synchronization object ends
  where one of its 32-bit counters would pass its maximum (\<open>ok\<close>).

  \<^bold>\<open>Not modelled.\<close> The x86 assembly and the other configurations of UMAC; the operators of
  \<^verbatim>\<open>xdrbuf\<close> on \<^verbatim>\<open>serializable\<close> and \<^verbatim>\<open>var\<close>, which call virtual functions; most of \<^verbatim>\<open>str\<close> and \<^verbatim>\<open>ustr\<close>, the
  value types, and the containers \<^verbatim>\<open>preallocated_array\<close>, \<^verbatim>\<open>hash_helpers\<close> and \<^verbatim>\<open>mpool\<close>, which the modelled parts do not use; what the
  destructors of synchronization objects do to threads that still use them, beyond their own section, since the memory is freed; the
  Windows variants of \<^verbatim>\<open>src/nthread\<close>, the pthread calls of the class \<^verbatim>\<open>thread\<close>; \<^verbatim>\<open>start\<close> and \<^verbatim>\<open>stop\<close> of the UDP servers; the debugging output and
  the settings of the UDP classes; the TCP classes, which are callbacks of libev; files, remote procedure calls and the
  database wrappers, which are calls into the operating system and other libraries; SQLite and
  libev, which are vendored; the wrappers of OpenSSL but for the serialized form of keys.
\<close>

end
